(* ===== verification/Prelude.thy ===== *)
theory Prelude
  imports Main "HOL-Library.AList"
begin

text \<open>
  Shared vocabulary of the development.

  \<^item> \<open>pyerr\<close>: the exceptions the modelled code raises, one constructor per class it
    raises or catches.  A fallible computation is \<open>pyerr + 'a\<close>; a method that mutates an object
    and may raise is \<open>(pyerr + 'a) \<times> 's\<close>, so that the mutations made before the raise stay
    visible, as they do in Python.
  \<^item> Python sequences: indexing with negative indices, \<open>insert\<close> with its clamping, slices with
    the index adjustment of CPython (\<open>slice.indices\<close>), slice assignment and deletion.
  \<^item> Python dicts: association lists with distinct keys in insertion order.  Assignment to a
    present key keeps its position, a new key goes to the end (\<open>AList.update\<close>).
  \<^item> \<open>stepping\<close>: the interface "every operation keeps the invariant", whose lemmas lift an
    invariant to arbitrary sequences of operations.
  \<^item> \<open>simulation\<close>: the interface of a component that follows an abstract specification.
  \<^item> \<open>keyed_store\<close>: the interface of an ordered collection of elements that carry their key.
  \<^item> Text: white space, \<open>strip\<close>, lower case and the decimal text of a number, on byte characters.
\<close>

named_theorems pyseq \<open>facts about Python sequences\<close>
named_theorems pydict \<open>facts about insertion-ordered dicts\<close>

section \<open>Exceptions\<close>

datatype pyerr =
    IndexError | KeyError | ValueError | TypeError | RuntimeError | AttributeError
  | NotImplementedError
  | ItemNotFoundError | ItemExistsError | RelationError | ValidationError
  | LifecycleValidationError | LifecycleNotFoundError | CircuitBreakerOpenError
  | CancelledError | TransitionRejectedError | LookupError | OtherException

type_synonym ('a, 's) eff = "(pyerr + 'a) \<times> 's"

definition is_ok :: "'e + 'a \<Rightarrow> bool" where
  "is_ok r = (case r of Inl _ \<Rightarrow> False | Inr _ \<Rightarrow> True)"

lemma is_ok_simps [simp]: "is_ok (Inr x)" "\<not> is_ok (Inl e)"
  by (simp_all add: is_ok_def)

text \<open>Sequencing: the continuation runs on the value and the state left, an exception ends it there.\<close>

definition then_do :: "('a, 's) eff \<Rightarrow> ('a \<Rightarrow> 's \<Rightarrow> ('b, 's) eff) \<Rightarrow> ('b, 's) eff" where
  "then_do m f = (case m of (Inl e, s) \<Rightarrow> (Inl e, s) | (Inr x, s) \<Rightarrow> f x s)"

lemma then_do_simps [simp]:
  "then_do (Inl e, s) f = (Inl e, s)" "then_do (Inr x, s) f = f x s"
  by (simp_all add: then_do_def)

text \<open>The first error of a list of results, or all their values in order.\<close>

fun collect_ok :: "('e + 'a) list \<Rightarrow> 'e + 'a list" where
  "collect_ok [] = Inr []"
| "collect_ok (Inl e # _) = Inl e"
| "collect_ok (Inr x # rs) = (case collect_ok rs of Inl e \<Rightarrow> Inl e | Inr xs \<Rightarrow> Inr (x # xs))"

lemma collect_ok_map_Inr [simp]: "collect_ok (map (\<lambda>x. Inr (f x)) xs) = Inr (map f xs)"
  by (induction xs) auto

section \<open>Python sequences\<close>

text \<open>The position a Python index denotes in a sequence of length \<open>n\<close>, if it is in range.\<close>

definition py_idx :: "nat \<Rightarrow> int \<Rightarrow> nat option" where
  "py_idx n i =
     (let j = (if i < 0 then int n + i else i)
      in if 0 \<le> j \<and> j < int n then Some (nat j) else None)"

lemma py_idx_less [pyseq]: "py_idx n i = Some j \<Longrightarrow> j < n"
  by (auto simp: py_idx_def Let_def split: if_splits)

lemma py_idx_of_nat [simp]: "py_idx n (int i) = (if i < n then Some i else None)"
  by (simp add: py_idx_def)

definition py_get :: "'a list \<Rightarrow> int \<Rightarrow> pyerr + 'a" where
  "py_get xs i = (case py_idx (length xs) i of None \<Rightarrow> Inl IndexError | Some j \<Rightarrow> Inr (xs ! j))"

text \<open>\<open>insert\<close> clamps its index to the ends of the sequence.\<close>

definition py_ins_pos :: "nat \<Rightarrow> int \<Rightarrow> nat" where
  "py_ins_pos n i = (if i < 0 then nat (int n + i) else min (nat i) n)"

definition py_insert :: "int \<Rightarrow> 'a \<Rightarrow> 'a list \<Rightarrow> 'a list" where
  "py_insert i x xs = (let p = py_ins_pos (length xs) i in take p xs @ x # drop p xs)"

definition del_nth :: "nat \<Rightarrow> 'a list \<Rightarrow> 'a list" where
  "del_nth j xs = take j xs @ drop (Suc j) xs"

lemma set_py_insert [simp]: "set (py_insert i x xs) = insert x (set xs)"
proof -
  have "set (take p xs) \<union> set (drop p xs) = set xs" for p
    by (metis append_take_drop_id set_append)
  then show ?thesis by (auto simp: py_insert_def Let_def)
qed

lemma length_py_insert [simp]: "length (py_insert i x xs) = Suc (length xs)"
  by (simp add: py_insert_def Let_def py_ins_pos_def)

lemma py_insert_end [simp]: "py_insert (int (length xs)) x xs = xs @ [x]"
  by (simp add: py_insert_def py_ins_pos_def)

lemma length_del_nth [simp]: "j < length xs \<Longrightarrow> length (del_nth j xs) = length xs - 1"
  by (simp add: del_nth_def)

lemma set_del_nth_subset: "set (del_nth j xs) \<subseteq> set xs"
  by (auto simp: del_nth_def dest: in_set_takeD in_set_dropD)

lemma set_del_nth: "j < length xs \<Longrightarrow> insert (xs ! j) (set (del_nth j xs)) = set xs"
proof -
  assume "j < length xs"
  then have "xs = take j xs @ xs ! j # drop (Suc j) xs" by (rule id_take_nth_drop)
  then have "set xs = set (take j xs @ xs ! j # drop (Suc j) xs)" by simp
  then show ?thesis by (auto simp: del_nth_def)
qed

lemma distinct_del_nth:
  assumes "distinct xs" "j < length xs"
  shows "distinct (del_nth j xs)" "xs ! j \<notin> set (del_nth j xs)"
proof -
  have split: "xs = take j xs @ xs ! j # drop (Suc j) xs"
    using assms(2) by (rule id_take_nth_drop)
  then have "distinct (take j xs @ xs ! j # drop (Suc j) xs)" using assms(1) by simp
  then show "distinct (del_nth j xs)" "xs ! j \<notin> set (del_nth j xs)"
    by (auto simp: del_nth_def)
qed

lemma mset_less_set_update: "j < length xs \<Longrightarrow> set (xs[j := x]) \<subseteq> insert x (set xs)"
  by (rule set_update_subset_insert)

subsection \<open>Slices\<close>

text \<open>A slice object \<open>start:stop:step\<close>; \<open>None\<close> is an omitted part.\<close>

datatype pslice = Slice "int option" "int option" "int option"

fun slice_step :: "pslice \<Rightarrow> int" where
  "slice_step (Slice _ _ c) = (case c of None \<Rightarrow> 1 | Some k \<Rightarrow> k)"

text \<open>The index adjustment of CPython: the start and stop of the slice in a sequence of length \<open>n\<close>.\<close>

fun slice_bounds :: "nat \<Rightarrow> pslice \<Rightarrow> int \<times> int" where
  "slice_bounds n (Slice a b c) =
     (let step = slice_step (Slice a b c);
          lower = (if step < 0 then -1 else 0);
          upper = (if step < 0 then int n - 1 else int n);
          adj = (\<lambda>v. if v < 0 then max (v + int n) lower else min v upper)
      in ((case a of None \<Rightarrow> (if step < 0 then upper else lower) | Some v \<Rightarrow> adj v),
          (case b of None \<Rightarrow> (if step < 0 then lower else upper) | Some v \<Rightarrow> adj v)))"

definition range_count :: "int \<Rightarrow> int \<Rightarrow> int \<Rightarrow> nat" where
  "range_count start stop step =
     (if step > 0 \<and> start < stop then nat ((stop - start - 1) div step + 1)
      else if step < 0 \<and> stop < start then nat ((start - stop - 1) div (- step) + 1)
      else 0)"

text \<open>The positions a slice selects, in order; a zero step is a ValueError.\<close>

definition slice_idxs :: "nat \<Rightarrow> pslice \<Rightarrow> pyerr + nat list" where
  "slice_idxs n s =
     (if slice_step s = 0 then Inl ValueError
      else let (a, b) = slice_bounds n s; k = slice_step s
           in Inr (map (\<lambda>i. nat (a + int i * k)) [0..<range_count a b k]))"

definition py_get_slice :: "'a list \<Rightarrow> pslice \<Rightarrow> pyerr + 'a list" where
  "py_get_slice xs s =
     (case slice_idxs (length xs) s of
        Inl e \<Rightarrow> Inl e
      | Inr js \<Rightarrow> Inr (map (nth xs) js))"

definition py_del_slice :: "'a list \<Rightarrow> pslice \<Rightarrow> pyerr + 'a list" where
  "py_del_slice xs s =
     (case slice_idxs (length xs) s of
        Inl e \<Rightarrow> Inl e
      | Inr js \<Rightarrow> Inr (map snd (filter (\<lambda>(j, _). j \<notin> set js) (enumerate 0 xs))))"

fun update_at :: "'a list \<Rightarrow> nat list \<Rightarrow> 'a list \<Rightarrow> 'a list" where
  "update_at xs (j # js) (v # vs) = update_at (xs[j := v]) js vs"
| "update_at xs _ _ = xs"

text \<open>
  Slice assignment: a step of 1 replaces the whole range whatever its size, an extended slice wants
  as many values as it has positions.
\<close>

definition py_set_slice :: "'a list \<Rightarrow> pslice \<Rightarrow> 'a list \<Rightarrow> pyerr + 'a list" where
  "py_set_slice xs s vs =
     (case slice_idxs (length xs) s of
        Inl e \<Rightarrow> Inl e
      | Inr js \<Rightarrow>
          if slice_step s = 1
          then (let (a, b) = slice_bounds (length xs) s; hi = max a b
                in Inr (take (nat a) xs @ vs @ drop (nat hi) xs))
          else if length js = length vs then Inr (update_at xs js vs)
          else Inl ValueError)"

lemma slice_bounds_range:
  "slice_step s > 0 \<Longrightarrow> slice_bounds n s = (a, b) \<Longrightarrow> 0 \<le> a \<and> a \<le> int n \<and> 0 \<le> b \<and> b \<le> int n"
  "slice_step s < 0 \<Longrightarrow> slice_bounds n s = (a, b) \<Longrightarrow> -1 \<le> a \<and> a < int n \<and> -1 \<le> b \<and> b < int n"
  by (cases s; auto simp: Let_def split: option.splits if_splits)+

lemma range_up_less:
  assumes "0 < k" "i < nat ((b - a - 1) div k + 1)" "a < b"
  shows "a + int i * k < (b :: int)"
proof -
  have "int i \<le> (b - a - 1) div k" using assms by linarith
  then have "int i * k \<le> (b - a - 1) div k * k" using assms(1) by (simp add: mult_right_mono)
  also have "\<dots> \<le> b - a - 1" 
    using assms(1) div_mult_mod_eq[of "b - a - 1" k] pos_mod_sign[of k "b - a - 1"] by linarith
  finally show ?thesis by linarith
qed

text \<open>Every position a slice selects is inside the sequence, whatever the slice object.\<close>

lemma slice_idxs_less [pyseq]:
  assumes "slice_idxs n s = Inr js" "j \<in> set js"
  shows "j < n"
proof -
  obtain a b where ab: "slice_bounds n s = (a, b)" by fastforce
  let ?k = "slice_step s"
  from assms ab obtain i where i: "i < range_count a b ?k" "j = nat (a + int i * ?k)" "?k \<noteq> 0"
    by (auto simp: slice_idxs_def Let_def split: if_splits)
  consider "?k > 0" | "?k < 0" using i(3) by linarith
  then show ?thesis
  proof cases
    case 1
    note bnd = slice_bounds_range(1)[OF 1 ab]
    from 1 i have "a < b" "i < nat ((b - a - 1) div ?k + 1)"
      by (auto simp: range_count_def split: if_splits)
    from range_up_less[OF 1 this(2) this(1)] have "a + int i * ?k < b" .
    moreover have "0 \<le> a + int i * ?k" using bnd 1 by simp
    ultimately show ?thesis using i(2) bnd by linarith
  next
    case 2
    note bnd = slice_bounds_range(2)[OF 2 ab]
    from 2 i have "b < a" "i < nat ((a - b - 1) div (- ?k) + 1)"
      by (auto simp: range_count_def split: if_splits)
    from range_up_less[of "- ?k", OF _ this(2) this(1)] 2
    have "b + int i * (- ?k) < a" by simp
    then have "b < a + int i * ?k" by simp
    moreover have "a + int i * ?k \<le> a" using 2 by (simp add: mult_nonneg_nonpos)
    ultimately show ?thesis using i(2) bnd by linarith
  qed
qed

section \<open>Insertion-ordered dicts\<close>

type_synonym ('k, 'v) pydict = "('k \<times> 'v) list"

abbreviation dget :: "('k, 'v) pydict \<Rightarrow> 'k \<Rightarrow> 'v option" where
  "dget d k \<equiv> map_of d k"

abbreviation dset :: "'k \<Rightarrow> 'v \<Rightarrow> ('k, 'v) pydict \<Rightarrow> ('k, 'v) pydict" where
  "dset k v d \<equiv> AList.update k v d"

abbreviation ddel :: "'k \<Rightarrow> ('k, 'v) pydict \<Rightarrow> ('k, 'v) pydict" where
  "ddel k d \<equiv> AList.delete k d"

abbreviation dkeys :: "('k, 'v) pydict \<Rightarrow> 'k list" where
  "dkeys d \<equiv> map fst d"

abbreviation dhas :: "('k, 'v) pydict \<Rightarrow> 'k \<Rightarrow> bool" where
  "dhas d k \<equiv> k \<in> set (dkeys d)"

text \<open>\<open>d.update(e)\<close>: the entries of \<open>e\<close> are assigned in their order.\<close>

fun dupdate :: "('k, 'v) pydict \<Rightarrow> ('k, 'v) pydict \<Rightarrow> ('k, 'v) pydict" where
  "dupdate d [] = d"
| "dupdate d ((k, v) # e) = dupdate (dset k v d) e"

lemma dget_dset [simp]: "dget (dset k v d) k' = (if k' = k then Some v else dget d k')"
  by (simp add: AList.update_conv')

lemma dget_ddel [simp]: "dget (ddel k d) k' = (if k' = k then None else dget d k')"
  by (simp add: AList.delete_conv')

lemma dkeys_dset [pydict]: "dkeys (dset k v d) = (if dhas d k then dkeys d else dkeys d @ [k])"
  by (rule AList.update_keys)

lemma dkeys_ddel [pydict]: "dkeys (ddel k d) = filter (\<lambda>x. x \<noteq> k) (dkeys d)"
  by (induction d) (auto simp: AList.delete_eq)

lemma dset_fresh: "\<not> dhas d k \<Longrightarrow> dset k v d = d @ [(k, v)]"
  by (induction d) auto

lemma set_dkeys_dset [simp]: "fst ` set (dset k v d) = insert k (fst ` set d)"
  using AList.dom_update[of k v d] by simp

lemma set_dkeys_ddel [simp]: "fst ` set (ddel k d) = fst ` set d - {k}"
  by (auto simp: AList.delete_eq)

lemma distinct_dset [simp]: "distinct (dkeys d) \<Longrightarrow> distinct (dkeys (dset k v d))"
  by (rule AList.distinct_update)

lemma distinct_ddel [simp]: "distinct (dkeys d) \<Longrightarrow> distinct (dkeys (ddel k d))"
  by (rule AList.distinct_delete)

lemma dget_None_iff: "dget d k = None \<longleftrightarrow> \<not> dhas d k"
  by (simp add: map_of_eq_None_iff)

lemma dget_Some_iff [pydict]: "dhas d k \<longleftrightarrow> (\<exists>v. dget d k = Some v)"
  by (metis dget_None_iff not_Some_eq)

lemma dget_key: "k \<in> fst ` set d \<Longrightarrow> \<exists>v. dget d k = Some v"
  using dget_Some_iff[of k d] by simp

lemma dgetD: "dget d k = Some v \<Longrightarrow> dhas d k"
  by (metis dget_None_iff option.discI)

lemma dget_dupdate [simp]:
  "distinct (dkeys e) \<Longrightarrow> dget (dupdate d e) k = (case dget e k of None \<Rightarrow> dget d k | Some v \<Rightarrow> Some v)"
proof (induction d e rule: dupdate.induct)
  case (2 d k' v e)
  then have "map_of e k' = None" by (simp add: map_of_eq_None_iff)
  with 2 show ?case by (auto split: option.splits)
qed simp

lemma set_dkeys_dupdate [simp]: "fst ` set (dupdate d e) = fst ` set d \<union> fst ` set e"
  by (induction d e rule: dupdate.induct) auto

lemma distinct_dupdate [simp]: "distinct (dkeys d) \<Longrightarrow> distinct (dkeys (dupdate d e))"
  by (induction d e rule: dupdate.induct) auto

lemma length_ddel: "length (ddel k d) \<le> length d"
  by (simp add: AList.delete_eq)

lemma length_ddel_less: "dhas d k \<Longrightarrow> length (ddel k d) < length d"
proof (induction d)
  case (Cons x d)
  then show ?case using length_ddel[of k d] by (cases x) (force simp: less_Suc_eq_le Suc_le_eq)
qed simp

lemma length_dkeys_set: "distinct (dkeys d) \<Longrightarrow> length d = card (fst ` set d)"
  by (metis distinct_card length_map list.set_map)

section \<open>Operations that keep an invariant\<close>

text \<open>
  The interface of a component whose operations are steps \<open>step s e\<close> on a state: each keeps
  \<open>inv\<close>.  The lemmas lift that to any sequence of operations.
\<close>

locale stepping =
  fixes step :: "'s \<Rightarrow> 'e \<Rightarrow> 's"
    and inv :: "'s \<Rightarrow> bool"
  assumes step_inv: "inv s \<Longrightarrow> inv (step s e)"
begin

lemma run_inv: "inv s \<Longrightarrow> inv (foldl step s es)"
  by (induction es arbitrary: s) (auto intro: step_inv)

lemma run_inv_prefix: "inv s \<Longrightarrow> inv (foldl step s (take n es))"
  by (rule run_inv)

end

text \<open>A stepping component in which some states are never left.\<close>

locale stepping_final = stepping step inv
  for step :: "'s \<Rightarrow> 'e \<Rightarrow> 's" and inv :: "'s \<Rightarrow> bool" +
  fixes final :: "'s \<Rightarrow> bool"
    and view :: "'s \<Rightarrow> 'v"
  assumes final_step: "inv s \<Longrightarrow> final s \<Longrightarrow> view (step s e) = view s"
    and final_kept: "inv s \<Longrightarrow> final s \<Longrightarrow> final (step s e)"
begin

lemma run_final: "inv s \<Longrightarrow> final s \<Longrightarrow> final (foldl step s es) \<and> view (foldl step s es) = view s"
proof (induction es arbitrary: s)
  case (Cons e es)
  then show ?case using step_inv final_step final_kept by (metis foldl_Cons)
qed simp

end

section \<open>Operations that follow an abstract specification\<close>

text \<open>A run all of whose operations are enabled when they are made.\<close>

fun enabled_run :: "('s \<Rightarrow> 'e \<Rightarrow> 's) \<Rightarrow> ('s \<Rightarrow> 'e \<Rightarrow> bool) \<Rightarrow> 's \<Rightarrow> 'e list \<Rightarrow> bool" where
  "enabled_run step en s [] \<longleftrightarrow> True"
| "enabled_run step en s (x # xs) \<longleftrightarrow> en s x \<and> enabled_run step en (step s x) xs"

text \<open>
  The interface of a component that implements an abstract one: an enabled step keeps the invariant
  and is the abstract step on the abstraction of the state.
\<close>

locale simulation =
  fixes step :: "'s \<Rightarrow> 'e \<Rightarrow> 's"
    and astep :: "'a \<Rightarrow> 'e \<Rightarrow> 'a"
    and abs :: "'s \<Rightarrow> 'a"
    and inv :: "'s \<Rightarrow> bool"
    and en :: "'s \<Rightarrow> 'e \<Rightarrow> bool"
  assumes sim_inv: "inv s \<Longrightarrow> en s x \<Longrightarrow> inv (step s x)"
    and sim_abs: "inv s \<Longrightarrow> en s x \<Longrightarrow> abs (step s x) = astep (abs s) x"
begin

lemma run_sim:
  "inv s \<Longrightarrow> enabled_run step en s xs \<Longrightarrow>
   inv (foldl step s xs) \<and> abs (foldl step s xs) = foldl astep (abs s) xs"
  by (induction xs arbitrary: s) (simp_all add: sim_inv sim_abs)

end

section \<open>Keyed collections\<close>

text \<open>
  The interface of an ordered collection of elements that carry their own key: insertion at the end
  of what it accepts, deletion by key, lookup.  A client that keeps its elements in such a collection
  reasons with these laws only.
\<close>

locale keyed_store =
  fixes inv :: "'s \<Rightarrow> bool"
    and look :: "'s \<Rightarrow> 'k \<Rightarrow> 'e option"
    and ids :: "'s \<Rightarrow> 'k list"
    and key :: "'e \<Rightarrow> 'k"
    and accepts :: "'s \<Rightarrow> 'e \<Rightarrow> bool"
    and put :: "'e \<Rightarrow> 's \<Rightarrow> 's"
    and del :: "'k \<Rightarrow> 's \<Rightarrow> 's"
  assumes look_key: "inv s \<Longrightarrow> look s k = Some e \<Longrightarrow> key e = k"
    and ids_look: "inv s \<Longrightarrow> k \<in> set (ids s) \<longleftrightarrow> look s k \<noteq> None"
    and accepts_new: "inv s \<Longrightarrow> accepts s e \<Longrightarrow> key e \<notin> set (ids s)"
    and put_inv: "inv s \<Longrightarrow> inv (put e s)"
    and put_look: "inv s \<Longrightarrow> accepts s e \<Longrightarrow> look (put e s) k = (if k = key e then Some e else look s k)"
    and put_ids: "inv s \<Longrightarrow> accepts s e \<Longrightarrow> ids (put e s) = ids s @ [key e]"
    and put_refused: "inv s \<Longrightarrow> \<not> accepts s e \<Longrightarrow> put e s = s"
    and del_inv: "inv s \<Longrightarrow> inv (del k s)"
    and del_look: "inv s \<Longrightarrow> look (del k s) k' = (if k' = k then None else look s k')"
    and del_ids: "inv s \<Longrightarrow> ids (del k s) = filter (\<lambda>x. x \<noteq> k) (ids s)"
begin

lemma del_all:
  "inv s \<Longrightarrow> inv (fold del ks s) \<and> look (fold del ks s) k = (if k \<in> set ks then None else look s k) \<and>
     ids (fold del ks s) = filter (\<lambda>x. x \<notin> set ks) (ids s)"
proof (induction ks arbitrary: s)
  case (Cons a ks)
  have "filter (\<lambda>x. x \<notin> set ks) (filter (\<lambda>x. x \<noteq> a) (ids s)) = filter (\<lambda>x. x \<notin> set (a # ks)) (ids s)"
    by (simp add: conj_commute)
  then show ?case using Cons.IH[OF del_inv[OF Cons.prems]] Cons.prems by (simp add: del_look del_ids)
qed simp

lemma put_mem:
  "inv s \<Longrightarrow> set (ids (put e s)) \<subseteq> insert (key e) (set (ids s))"
  by (cases "accepts s e") (auto simp: put_ids put_refused)

text \<open>Taking out what was just put in gives the same collection to every reader.\<close>

lemma del_put:
  assumes "inv s" "accepts s e"
  shows "look (del (key e) (put e s)) k = look s k" "ids (del (key e) (put e s)) = ids s"
proof -
  have new: "key e \<notin> set (ids s)" using assms by (rule accepts_new)
  then show "look (del (key e) (put e s)) k = look s k"
    using assms ids_look[OF assms(1), of "key e"] by (simp add: del_look put_inv put_look)
  show "ids (del (key e) (put e s)) = ids s"
    using assms new by (simp add: del_ids put_inv put_ids filter_id_conv) (metis)
qed

lemma put_put_look:
  assumes "inv s" "accepts s e" "accepts (put e s) f"
  shows "look (put f (put e s)) k =
    (if k = key f then Some f else if k = key e then Some e else look s k)"
  using assms by (simp add: put_look put_inv)

end

section \<open>Text\<close>

abbreviation code :: "char \<Rightarrow> nat" where
  "code c \<equiv> of_char c"

text \<open>\<open>str.isspace\<close> of a character below 256, \<open>str.strip\<close>, and the decimal text of a number.\<close>

definition is_space :: "char \<Rightarrow> bool" where
  "is_space c \<longleftrightarrow>
     (let n = code c in 9 \<le> n \<and> n \<le> 13 \<or> 28 \<le> n \<and> n \<le> 32 \<or> n = 133 \<or> n = 160)"

definition strip :: "string \<Rightarrow> string" where
  "strip v = rev (dropWhile is_space (rev (dropWhile is_space v)))"

definition digit_char :: "nat \<Rightarrow> char" where
  "digit_char d = char_of (48 + d)"

fun nat_text :: "nat \<Rightarrow> string" where
  "nat_text n = (if n < 10 then [digit_char n] else nat_text (n div 10) @ [digit_char (n mod 10)])"

declare nat_text.simps [simp del]

definition int_text :: "int \<Rightarrow> string" where
  "int_text i = (if i < 0 then CHR ''-'' # nat_text (nat (- i)) else nat_text (nat i))"

text \<open>The number a text of the digits 0 to 9 stands for.\<close>

definition dec_digit :: "char \<Rightarrow> bool" where
  "dec_digit c \<longleftrightarrow> 48 \<le> code c \<and> code c \<le> 57"

definition dec_value :: "string \<Rightarrow> int" where
  "dec_value ds = foldl (\<lambda>n c. 10 * n + (int (code c) - 48)) 0 ds"

text \<open>\<open>str.lower\<close> of a character, on the letters A to Z.\<close>

definition lower :: "char \<Rightarrow> char" where
  "lower c = (if 65 \<le> code c \<and> code c \<le> 90 then char_of (code c + 32) else c)"

end
