(* ===== verification/Ident.thy ===== *)
theory Ident
  imports Prelude
begin

text \<open>
  Identifiers and references: \<open>lionagi/protocols/generic/element.py\<close>, the part every container
  rests on.

  A UUID is its integer (\<open>uuid\<close>); \<open>uuid_str\<close> is \<open>str(u)\<close> and \<open>uuid_parse\<close> the constructor
  \<open>UUID(text)\<close> of the standard library, on byte characters.  A \<open>ref\<close> is an argument of the kind
  the containers accept: an object exposing an \<open>id\<close>, a UUID, a string, a (nested) list, a set, a
  mapping, \<open>None\<close>, or something else.  The lemmas show that the explicit-stack loop of
  \<open>validate_order\<close> is the left-to-right flattening of its argument, that it never drops or
  reorders an id, and that the textual form of a UUID resolves to that UUID.
\<close>

type_synonym uuid = nat

section \<open>The text form of a UUID\<close>

definition hexchar :: "nat \<Rightarrow> char" where
  "hexchar d = ''0123456789abcdef'' ! d"

definition hex_digit :: "char \<Rightarrow> nat option" where
  "hex_digit c =
     (let n = of_char c :: nat
      in if 48 \<le> n \<and> n \<le> 57 then Some (n - 48)
         else if 97 \<le> n \<and> n \<le> 102 then Some (n - 87)
         else if 65 \<le> n \<and> n \<le> 70 then Some (n - 55)
         else None)"

fun to_hex :: "nat \<Rightarrow> string" where
  "to_hex n = (if n < 16 then [hexchar n] else to_hex (n div 16) @ [hexchar (n mod 16)])"

declare to_hex.simps [simp del]

text \<open>\<open>'%032x' % n\<close>, and the hyphenation of \<open>str(UUID)\<close>.\<close>

definition hex32 :: "nat \<Rightarrow> string" where
  "hex32 n = (let h = to_hex n in replicate (32 - length h) (CHR ''0'') @ h)"

definition uuid_str :: "uuid \<Rightarrow> string" where
  "uuid_str u =
     (let h = hex32 u
      in take 8 h @ ''-'' @ take 4 (drop 8 h) @ ''-'' @ take 4 (drop 12 h) @ ''-''
         @ take 4 (drop 16 h) @ ''-'' @ drop 20 h)"

text \<open>\<open>s.replace(sub, '')\<close>; the second argument counts the characters still to be skipped.\<close>

fun erase :: "string \<Rightarrow> nat \<Rightarrow> string \<Rightarrow> string" where
  "erase sub k [] = []"
| "erase sub (Suc k) (c # cs) = erase sub k cs"
| "erase sub 0 (c # cs) =
     (if take (length sub) (c # cs) = sub then erase sub (length sub - 1) cs
      else c # erase sub 0 cs)"

definition strip_chars :: "string \<Rightarrow> string \<Rightarrow> string" where
  "strip_chars cs s =
     rev (dropWhile (\<lambda>c. c \<in> set cs) (rev (dropWhile (\<lambda>c. c \<in> set cs) s)))"

text \<open>\<open>int(text, 16)\<close>: digits with single underscores between them, after white space, a sign and \<open>0x\<close>.\<close>

fun hex_run :: "nat \<Rightarrow> string \<Rightarrow> nat option" where
  "hex_run acc [] = Some acc"
| "hex_run acc (c # cs) =
     (case hex_digit c of
        Some d \<Rightarrow> hex_run (16 * acc + d) cs
      | None \<Rightarrow>
          if c = CHR ''_''
          then (case cs of
                  [] \<Rightarrow> None
                | c' # cs' \<Rightarrow> (case hex_digit c' of
                                None \<Rightarrow> None
                              | Some d \<Rightarrow> hex_run (16 * acc + d) cs'))
          else None)"

definition hex_start :: "string \<Rightarrow> nat option" where
  "hex_start s =
     (case s of
        [] \<Rightarrow> None
      | c # cs \<Rightarrow> (case hex_digit c of None \<Rightarrow> None | Some d \<Rightarrow> hex_run d cs))"

definition py_whitespace :: string where
  "py_whitespace =
     [CHR 0x09, CHR 0x0A, CHR 0x0B, CHR 0x0C, CHR 0x0D, CHR 0x1C, CHR 0x1D, CHR 0x1E, CHR 0x1F,
      CHR '' '']"

definition py_int16 :: "string \<Rightarrow> int option" where
  "py_int16 s =
     (let t = strip_chars py_whitespace s;
          neg = (take 1 t = ''-'');
          t1 = (if take 1 t \<in> {''-'', ''+''} then drop 1 t else t);
          pre = (take 2 t1 \<in> {''0x'', ''0X''});
          t2 = (if pre then drop 2 t1 else t1);
          t3 = (if pre \<and> take 1 t2 = ''_'' then drop 1 t2 else t2)
      in map_option (\<lambda>n. if neg then - int n else int n) (hex_start t3))"

definition uuid_parse :: "string \<Rightarrow> uuid option" where
  "uuid_parse s =
     (let h = erase ''-'' 0 (strip_chars ''{}'' (erase ''uuid:'' 0 (erase ''urn:'' 0 s)))
      in if length h \<noteq> 32 then None
         else (case py_int16 h of
                 None \<Rightarrow> None
               | Some i \<Rightarrow> if 0 \<le> i \<and> i < 2 ^ 128 then Some (nat i) else None))"

section \<open>References\<close>

text \<open>The \<open>id\<close> attribute of an \<open>Observable\<close>: a UUID, or text that is coerced to one.\<close>

datatype oid = OUuid uuid | OText string

datatype ref =
    RNone | RObs oid | RUuid uuid | RStr string
  | RSeq "ref list" \<comment> \<open>list or tuple\<close>
  | RSet "ref list" \<comment> \<open>set, in its iteration order\<close>
  | RMap "ref list" "ref list" \<comment> \<open>mapping: its keys and its values\<close>
  | ROther

definition parse_uuid :: "string \<Rightarrow> pyerr + uuid" where
  "parse_uuid s = (case uuid_parse s of None \<Rightarrow> Inl ValueError | Some u \<Rightarrow> Inr u)"

fun observable_uuid :: "oid \<Rightarrow> pyerr + uuid" where
  "observable_uuid (OUuid u) = Inr u"
| "observable_uuid (OText s) = parse_uuid s"

text \<open>
  The loop of \<open>validate_order\<close>: the stack (top first) and the ids found so far.  A set is
  matched by the branch for containers and then reversed, which Python refuses with a TypeError.
\<close>

function (sequential) order_loop :: "ref list \<Rightarrow> uuid list \<Rightarrow> pyerr + uuid list" where
  "order_loop [] out = Inr out"
| "order_loop (RNone # st) out = order_loop st out"
| "order_loop (RObs i # st) out =
     (case observable_uuid i of Inl e \<Rightarrow> Inl e | Inr u \<Rightarrow> order_loop st (out @ [u]))"
| "order_loop (RUuid u # st) out = order_loop st (out @ [u])"
| "order_loop (RStr s # st) out =
     (case parse_uuid s of Inl e \<Rightarrow> Inl e | Inr u \<Rightarrow> order_loop st (out @ [u]))"
| "order_loop (RSeq rs # st) out = order_loop (rs @ st) out"
| "order_loop (RSet _ # st) out = Inl TypeError"
| "order_loop (_ # st) out = Inl ValueError"
  by pat_completeness auto
termination
  by (relation "measure (\<lambda>(st, out). size_list size st)") (auto simp: size_list_append)

definition validate_order :: "ref \<Rightarrow> pyerr + uuid list" where
  "validate_order r =
     (case r of
        RObs i \<Rightarrow> map_sum id (\<lambda>u. [u]) (observable_uuid i)
      | RMap ks _ \<Rightarrow> order_loop [RSeq ks] []
      | _ \<Rightarrow> order_loop [r] [])"

definition get_id :: "ref \<Rightarrow> pyerr + uuid" where
  "get_id r =
     (case r of
        RUuid u \<Rightarrow> Inr u
      | RObs i \<Rightarrow> observable_uuid i
      | RStr s \<Rightarrow> parse_uuid s
      | _ \<Rightarrow> Inl ValueError)"

definition is_id :: "ref \<Rightarrow> bool" where
  "is_id r = is_ok (get_id r)"

section \<open>\<open>validate_order\<close> is flattening\<close>

text \<open>The recursive reading of a reference: its ids, leaves from left to right.\<close>

fun ids_of :: "ref \<Rightarrow> pyerr + uuid list" where
  "ids_of RNone = Inr []"
| "ids_of (RObs i) = map_sum id (\<lambda>u. [u]) (observable_uuid i)"
| "ids_of (RUuid u) = Inr [u]"
| "ids_of (RStr s) = map_sum id (\<lambda>u. [u]) (parse_uuid s)"
| "ids_of (RSeq rs) = map_sum id concat (collect_ok (map ids_of rs))"
| "ids_of (RSet _) = Inl TypeError"
| "ids_of (RMap _ _) = Inl ValueError"
| "ids_of ROther = Inl ValueError"

lemma collect_ok_append:
  "collect_ok (xs @ ys) =
     (case collect_ok xs of
        Inl e \<Rightarrow> Inl e
      | Inr us \<Rightarrow> (case collect_ok ys of Inl e \<Rightarrow> Inl e | Inr vs \<Rightarrow> Inr (us @ vs)))"
  by (induction xs rule: collect_ok.induct) (auto split: sum.splits)

lemma collect_ok_Cons:
  "collect_ok (r # rs) =
     (case r of
        Inl e \<Rightarrow> Inl e
      | Inr x \<Rightarrow> (case collect_ok rs of Inl e \<Rightarrow> Inl e | Inr xs \<Rightarrow> Inr (x # xs)))"
  by (cases r) simp_all

lemma order_loop_collect:
  "order_loop st out =
     (case collect_ok (map ids_of st) of Inl e \<Rightarrow> Inl e | Inr uss \<Rightarrow> Inr (out @ concat uss))"
  by (induction st out rule: order_loop.induct)
     (auto simp: collect_ok_append split: sum.splits)

lemma validate_order_simps [simp]:
  "validate_order RNone = Inr []"
  "validate_order (RObs i) = map_sum id (\<lambda>u. [u]) (observable_uuid i)"
  "validate_order (RUuid u) = Inr [u]"
  "validate_order (RStr s) = map_sum id (\<lambda>u. [u]) (parse_uuid s)"
  "validate_order (RSeq rs) = map_sum id concat (collect_ok (map ids_of rs))"
  "validate_order (RSet xs) = Inl TypeError"
  "validate_order (RMap ks vs) = map_sum id concat (collect_ok (map ids_of ks))"
  "validate_order ROther = Inl ValueError"
  by (auto simp: validate_order_def order_loop_collect collect_ok_Cons split: sum.splits)

lemma ids_of_uuids [simp]: "collect_ok (map (ids_of \<circ> RUuid) us) = Inr (map (\<lambda>u. [u]) us)"
  by (induction us) auto

lemma concat_singletons [simp]: "concat (map (\<lambda>u. [u]) us) = us"
  by (induction us) auto

lemma validate_order_uuids [simp]: "validate_order (RSeq (map RUuid us)) = Inr us"
  by simp

lemma ids_of_err: "ids_of r = Inl e \<Longrightarrow> e \<in> {ValueError, TypeError}"
proof (induction r rule: ids_of.induct)
  case (2 i)
  then show ?case by (cases i) (auto simp: parse_uuid_def split: option.splits)
next
  case (5 rs)
  from "5.prems" have "collect_ok (map ids_of rs) = Inl e" by (cases "collect_ok (map ids_of rs)") auto
  then have "\<exists>r \<in> set rs. ids_of r = Inl e"
  proof (induction rs)
    case (Cons r rs)
    then show ?case by (cases "ids_of r"; cases "collect_ok (map ids_of rs)") auto
  qed simp
  with "5.IH" show ?case by auto
qed (auto simp: parse_uuid_def split: option.splits)

lemma validate_order_err: "validate_order r = Inl e \<Longrightarrow> e = ValueError \<or> e = TypeError"
proof -
  assume a: "validate_order r = Inl e"
  then have "ids_of r = Inl e \<or> (\<exists>ks. ids_of (RSeq ks) = Inl e)" by (cases r) auto
  then show ?thesis using ids_of_err by blast
qed

section \<open>The text of a UUID resolves to it\<close>

lemma hexchar_digit: "d < 16 \<Longrightarrow> hex_digit (hexchar d) = Some d"
  by (simp add: hexchar_def hex_digit_def numeral_eq_Suc less_Suc_eq) (elim disjE; simp)

definition hexset :: "char set" where
  "hexset = set ''0123456789abcdef''"

lemma hexchar_set: "d < 16 \<Longrightarrow> hexchar d \<in> hexset"
  unfolding hexchar_def hexset_def by (rule nth_mem) simp

lemma zero_hexset: "CHR ''0'' \<in> hexset" and hexset_other:
  "CHR ''-'' \<notin> hexset" "CHR '':'' \<notin> hexset" "CHR ''{'' \<notin> hexset" "CHR ''}'' \<notin> hexset"
  "CHR ''x'' \<notin> hexset" "CHR ''X'' \<notin> hexset" "CHR ''+'' \<notin> hexset"
  by (simp_all add: hexset_def)

lemma hexset_digit: "c \<in> hexset \<Longrightarrow> \<exists>d. hex_digit c = Some d"
  by (auto simp: hexset_def hex_digit_def)

lemma to_hex_chars: "set (to_hex n) \<subseteq> hexset"
proof (induction n rule: to_hex.induct)
  case (1 n)
  then show ?case
    using hexchar_set[of n] hexchar_set[of "n mod 16"] by (subst to_hex.simps) auto
qed

lemma to_hex_nonempty: "to_hex n \<noteq> []"
  by (subst to_hex.simps) simp

lemma hex_run_append:
  assumes "set xs \<subseteq> hexset"
  shows "hex_run acc (xs @ ys) = (case hex_run acc xs of None \<Rightarrow> None | Some a \<Rightarrow> hex_run a ys)"
  using assms
proof (induction xs arbitrary: acc)
  case (Cons c xs)
  then obtain d where "hex_digit c = Some d" using hexset_digit by fastforce
  with Cons show ?case by (simp)
qed simp

lemma hex_run_to_hex: "hex_run 0 (to_hex n) = Some n"
proof (induction n rule: to_hex.induct)
  case (1 n)
  show ?case
  proof (cases "n < 16")
    case True
    then show ?thesis by (subst to_hex.simps) (simp add: hexchar_digit)
  next
    case False
    with 1 have "hex_run 0 (to_hex (n div 16)) = Some (n div 16)" by simp
    with False show ?thesis
      by (subst to_hex.simps)
         (simp add: hex_run_append[OF to_hex_chars] hexchar_digit)
  qed
qed

lemma hex_run_zeros: "hex_run 0 (replicate k (CHR ''0'') @ xs) = hex_run 0 xs"
  by (induction k) (simp_all add: hex_digit_def)

lemma hex32_run: "hex_run 0 (hex32 n) = Some n"
  by (simp add: hex32_def Let_def hex_run_zeros hex_run_to_hex)

lemma hex32_chars: "set (hex32 n) \<subseteq> hexset"
  using to_hex_chars[of n] zero_hexset by (auto simp: hex32_def Let_def)

lemma length_to_hex: "n < 16 ^ Suc k \<Longrightarrow> length (to_hex n) \<le> Suc k"
proof (induction k arbitrary: n)
  case 0
  then show ?case by (subst to_hex.simps) simp
next
  case (Suc k)
  then have "n div 16 < 16 ^ Suc k" by (simp add: less_mult_imp_div_less)
  with Suc.IH have "length (to_hex (n div 16)) \<le> Suc k" by blast
  then show ?case by (subst to_hex.simps) simp
qed

lemma length_hex32: "u < 2 ^ 128 \<Longrightarrow> length (hex32 u) = 32"
  using length_to_hex[of u 31] by (simp add: hex32_def Let_def)

lemma erase_absent: "c \<in> set sub \<Longrightarrow> c \<notin> set s \<Longrightarrow> erase sub 0 s = s"
proof (induction s)
  case (Cons a s)
  then have "take (length sub) (a # s) \<noteq> sub" by (metis in_set_takeD)
  with Cons show ?case by auto
qed simp

lemma erase_char: "erase [c] 0 s = filter (\<lambda>x. x \<noteq> c) s"
  by (induction s) auto

lemma strip_chars_absent: "set cs \<inter> set s = {} \<Longrightarrow> strip_chars cs s = s"
proof -
  assume a: "set cs \<inter> set s = {}"
  then have "dropWhile (\<lambda>c. c \<in> set cs) s = s" by (cases s) auto
  moreover have "dropWhile (\<lambda>c. c \<in> set cs) (rev s) = rev s"
    using a by (cases "rev s") (auto dest: arg_cong[where f = set])
  ultimately show ?thesis by (simp add: strip_chars_def)
qed

lemma hex32_part_chars:
  "set (take i (drop j (hex32 u))) \<subseteq> hexset"
  "set (take i (hex32 u)) \<subseteq> hexset"
  "set (drop i (hex32 u)) \<subseteq> hexset"
  using hex32_chars[of u] by (meson in_set_dropD in_set_takeD subset_iff)+

lemma uuid_str_chars: "set (uuid_str u) \<subseteq> insert (CHR ''-'') hexset"
  using hex32_chars[of u] unfolding uuid_str_def Let_def set_append
  by (auto dest!: in_set_takeD in_set_dropD)

lemma drop_split: "drop i xs = take k (drop i xs) @ drop (i + k) xs"
  by (metis append_take_drop_id drop_drop add.commute)

lemma filter_hex: "set xs \<subseteq> hexset \<Longrightarrow> filter (\<lambda>c. c \<noteq> CHR ''-'') xs = xs"
  using hexset_other(1) by (induction xs) auto

lemma uuid_str_hex: "filter (\<lambda>c. c \<noteq> CHR ''-'') (uuid_str u) = hex32 u"
proof -
  let ?h = "hex32 u"
  have "?h = take 8 ?h @ drop 8 ?h" by simp
  also have "drop 8 ?h = take 4 (drop 8 ?h) @ drop 12 ?h" using drop_split[of 8 ?h 4] by simp
  also have "drop 12 ?h = take 4 (drop 12 ?h) @ drop 16 ?h" using drop_split[of 12 ?h 4] by simp
  also have "drop 16 ?h = take 4 (drop 16 ?h) @ drop 20 ?h" using drop_split[of 16 ?h 4] by simp
  finally show ?thesis
    unfolding uuid_str_def Let_def by (simp add: filter_hex hex32_part_chars)
qed

lemma uuid_str_inject: "uuid_str u = uuid_str v \<longleftrightarrow> u = v"
  by (metis uuid_str_hex hex32_run option.inject)

lemma strip_chars_hex: "set cs \<inter> hexset = {} \<Longrightarrow> set s \<subseteq> hexset \<Longrightarrow> strip_chars cs s = s"
  by (rule strip_chars_absent) auto

lemma whitespace_hexset: "set py_whitespace \<inter> hexset = {}"
  by (simp add: py_whitespace_def hexset_def)

lemma py_int16_hex:
  assumes "set h \<subseteq> hexset" "h \<noteq> []" "hex_run 0 h = Some n"
  shows "py_int16 h = Some (int n)"
proof -
  obtain c cs where h: "h = c # cs" using assms(2) by (cases h) auto
  with assms(1) have c: "c \<in> hexset" "set cs \<subseteq> hexset" by auto
  then obtain d where d: "hex_digit c = Some d" using hexset_digit by blast
  have strip: "strip_chars py_whitespace h = h"
    using whitespace_hexset assms(1) by (rule strip_chars_hex)
  have sign: "take 1 h \<notin> {''-'', ''+''}" using c(1) hexset_other h by auto
  have "take 2 h \<notin> {''0x'', ''0X''}" using c hexset_other h by (cases cs) auto
  moreover have "hex_start h = Some n"
    using assms(3) d by (simp add: h hex_start_def)
  ultimately show ?thesis using sign strip by (simp add: py_int16_def Let_def)
qed

text \<open>\<open>UUID(str(u)) == u\<close>.\<close>

theorem uuid_parse_str: "u < 2 ^ 128 \<Longrightarrow> uuid_parse (uuid_str u) = Some u"
proof -
  assume u: "u < 2 ^ 128"
  have colon: "CHR '':'' \<notin> set (uuid_str u)" and brace: "set ''{}'' \<inter> set (uuid_str u) = {}"
    using uuid_str_chars[of u] hexset_other by auto
  have "erase ''uuid:'' 0 (erase ''urn:'' 0 (uuid_str u)) = uuid_str u"
    using colon by (simp add: erase_absent[where c = "CHR '':''"])
  moreover have "strip_chars ''{}'' (uuid_str u) = uuid_str u"
    using brace by (rule strip_chars_absent)
  moreover have "erase ''-'' 0 (uuid_str u) = hex32 u"
    by (simp only: erase_char uuid_str_hex)
  moreover have "py_int16 (hex32 u) = Some (int u)"
    using hex32_chars hex32_run length_hex32[OF u] by (intro py_int16_hex) auto
  ultimately show ?thesis
    using u length_hex32[OF u] by (simp add: uuid_parse_def Let_def)
qed

section \<open>Properties\<close>

text \<open>
  The explicit stack of \<open>validate_order\<close> computes the recursive left-to-right flattening of
  its argument, for every reference: nested sequences are read in order, \<open>None\<close> contributes nothing,
  a mapping at the top stands for its keys, and the first invalid leaf decides the error.
\<close>

theorem validate_order_flattens:
  "validate_order r = (case r of RMap ks vs \<Rightarrow> ids_of (RSeq ks) | _ \<Rightarrow> ids_of r)"
  by (cases r) simp_all

text \<open>
  Text round trip of identifiers: the string form of every 128-bit UUID, bare, as the id of
  an \<open>Observable\<close> or inside an order, resolves to that UUID.
\<close>

theorem uuid_text_resolves:
  assumes "u < 2 ^ 128"
  shows "get_id (RStr (uuid_str u)) = Inr u \<and> get_id (RObs (OText (uuid_str u))) = Inr u
    \<and> is_id (RStr (uuid_str u))
    \<and> validate_order (RSeq [RUuid v, RStr (uuid_str u)]) = Inr [v, u]"
  using uuid_parse_str[OF assms] by (simp add: get_id_def parse_uuid_def is_id_def)

theorem uuid_text_resolves_witness:
  "get_id (RStr (uuid_str 57005)) = Inr 57005
    \<and> validate_order (RSeq [RUuid 7, RStr (uuid_str 57005)]) = Inr [7, 57005]"
  using uuid_text_resolves[of 57005 7] by simp

end
