(* ===== verification/Progression.thy ===== *)
theory Progression
  imports Ident "HOL-Library.Multiset"
begin

text \<open>
  \<open>lionagi/protocols/generic/progression.py\<close>: an ordered sequence of UUIDs with a membership set.

  The public attribute \<open>order\<close> is a deque that callers may mutate in place or replace.  A
  \<open>_MembersDeque\<close> (\<open>md_\<dots>\<close>) keeps the set it is bound to in step with itself; \<open>binding\<close> records
  what the current deque is: a plain deque, a \<open>_MembersDeque\<close> bound to nothing, one bound to the
  set of another progression, or one bound to this progression's own set (the identity test
  \<open>order._members_ref is self._members\<close>).  Every method of \<open>Progression\<close> (\<open>pg_\<dots>\<close>) is a function
  on the state that returns its result or exception together with the state it leaves.

  The lemmas show that membership answers are exact after any interleaving of in-place deque
  mutations, replacements of the deque and method calls, and give the functional behaviour of the
  methods on the sequence.
\<close>

section \<open>State\<close>

datatype binding = Plain | Unbound | Foreign | Bound

record progression =
  pg_id :: uuid
  pg_name :: "string option"
  order :: "uuid list"
  binding :: binding
  members :: "uuid set"
  order_len :: nat

section \<open>\<open>_MembersDeque\<close>\<close>

definition md_sync :: "(uuid set \<Rightarrow> uuid set) \<Rightarrow> progression \<Rightarrow> progression" where
  "md_sync f p = (if binding p = Bound then p\<lparr>members := f (members p)\<rparr> else p)"

text \<open>\<open>if old not in self: self._members_ref.discard(old)\<close>, after the deque became \<open>xs\<close>.\<close>

definition discard_gone :: "uuid \<Rightarrow> uuid list \<Rightarrow> uuid set \<Rightarrow> uuid set" where
  "discard_gone old xs m = (if old \<in> set xs then m else m - {old})"

definition md_setitem :: "int \<Rightarrow> uuid \<Rightarrow> progression \<Rightarrow> (unit, progression) eff" where
  "md_setitem i x p =
     (case py_idx (length (order p)) i of
        None \<Rightarrow> (Inl IndexError, p)
      | Some j \<Rightarrow>
          let xs = (order p)[j := x]
          in (Inr (), md_sync (\<lambda>m. insert x (discard_gone (order p ! j) xs m)) (p\<lparr>order := xs\<rparr>)))"

definition md_delitem :: "int \<Rightarrow> progression \<Rightarrow> (unit, progression) eff" where
  "md_delitem i p =
     (case py_idx (length (order p)) i of
        None \<Rightarrow> (Inl IndexError, p)
      | Some j \<Rightarrow>
          let xs = del_nth j (order p)
          in (Inr (), md_sync (discard_gone (order p ! j) xs) (p\<lparr>order := xs\<rparr>)))"

definition md_append :: "uuid \<Rightarrow> progression \<Rightarrow> progression" where
  "md_append x p = md_sync (insert x) (p\<lparr>order := order p @ [x]\<rparr>)"

definition md_appendleft :: "uuid \<Rightarrow> progression \<Rightarrow> progression" where
  "md_appendleft x p = md_sync (insert x) (p\<lparr>order := x # order p\<rparr>)"

definition md_pop :: "progression \<Rightarrow> (uuid, progression) eff" where
  "md_pop p =
     (if order p = [] then (Inl IndexError, p)
      else let v = last (order p); xs = butlast (order p)
           in (Inr v, md_sync (discard_gone v xs) (p\<lparr>order := xs\<rparr>)))"

definition md_popleft :: "progression \<Rightarrow> (uuid, progression) eff" where
  "md_popleft p =
     (case order p of
        [] \<Rightarrow> (Inl IndexError, p)
      | v # xs \<Rightarrow> (Inr v, md_sync (discard_gone v xs) (p\<lparr>order := xs\<rparr>)))"

definition md_insert :: "int \<Rightarrow> uuid \<Rightarrow> progression \<Rightarrow> progression" where
  "md_insert i x p = md_sync (insert x) (p\<lparr>order := py_insert i x (order p)\<rparr>)"

definition md_remove :: "uuid \<Rightarrow> progression \<Rightarrow> (unit, progression) eff" where
  "md_remove v p =
     (if v \<notin> set (order p) then (Inl ValueError, p)
      else let xs = remove1 v (order p)
           in (Inr (), md_sync (discard_gone v xs) (p\<lparr>order := xs\<rparr>)))"

definition md_extend :: "uuid list \<Rightarrow> progression \<Rightarrow> progression" where
  "md_extend xs p = md_sync (\<lambda>m. m \<union> set xs) (p\<lparr>order := order p @ xs\<rparr>)"

definition md_extendleft :: "uuid list \<Rightarrow> progression \<Rightarrow> progression" where
  "md_extendleft xs p = md_sync (\<lambda>m. m \<union> set xs) (p\<lparr>order := rev xs @ order p\<rparr>)"

definition md_clear :: "progression \<Rightarrow> progression" where
  "md_clear p = md_sync (\<lambda>_. {}) (p\<lparr>order := []\<rparr>)"

definition md_imul :: "int \<Rightarrow> progression \<Rightarrow> progression" where
  "md_imul n p =
     (if n \<le> 0 then md_clear p else p\<lparr>order := concat (replicate (nat n) (order p))\<rparr>)"

text \<open>\<open>reverse\<close> and \<open>rotate\<close> are inherited from \<open>deque\<close>.\<close>

definition md_reverse :: "progression \<Rightarrow> progression" where
  "md_reverse p = p\<lparr>order := rev (order p)\<rparr>"

definition md_rotate :: "int \<Rightarrow> progression \<Rightarrow> progression" where
  "md_rotate n p =
     p\<lparr>order := (let k = nat (n mod int (length (order p)))
                in drop (length (order p) - k) (order p) @ take (length (order p) - k) (order p))\<rparr>"

section \<open>Construction and synchronisation\<close>

definition rebuild_members :: "progression \<Rightarrow> progression" where
  "rebuild_members p =
     p\<lparr>binding := Bound, members := set (order p), order_len := length (order p)\<rparr>"

definition ensure_synced :: "progression \<Rightarrow> progression" where
  "ensure_synced p =
     (if binding p \<in> {Plain} \<or> length (order p) \<noteq> order_len p \<or> binding p \<noteq> Bound
      then rebuild_members p else p)"

text \<open>\<open>Progression(order=\<dots>, name=\<dots>)\<close>; the id is drawn by the caller.\<close>

definition mk_progression :: "uuid \<Rightarrow> string option \<Rightarrow> uuid list \<Rightarrow> progression" where
  "mk_progression u nm xs =
     rebuild_members \<lparr>pg_id = u, pg_name = nm, order = xs, binding = Plain, members = {}, order_len = 0\<rparr>"

definition prog :: "uuid \<Rightarrow> ref \<Rightarrow> string option \<Rightarrow> pyerr + progression" where
  "prog u r nm = map_sum id (mk_progression u nm) (validate_order r)"

section \<open>Methods\<close>

definition pg_len :: "progression \<Rightarrow> nat" where
  "pg_len p = length (order p)"

definition pg_contains :: "ref \<Rightarrow> progression \<Rightarrow> bool \<times> progression" where
  "pg_contains r p =
     (case validate_order r of
        Inl _ \<Rightarrow> (False, p)
      | Inr refs \<Rightarrow> (let p' = ensure_synced p in (list_all (\<lambda>u. u \<in> members p') refs, p')))"

definition pg_getitem :: "int \<Rightarrow> progression \<Rightarrow> pyerr + uuid" where
  "pg_getitem i p = (case py_get (order p) i of Inl _ \<Rightarrow> Inl ItemNotFoundError | Inr u \<Rightarrow> Inr u)"

definition pg_getslice :: "uuid \<Rightarrow> pslice \<Rightarrow> progression \<Rightarrow> pyerr + progression" where
  "pg_getslice u s p =
     (case py_get_slice (order p) s of
        Inl e \<Rightarrow> Inl e
      | Inr [] \<Rightarrow> Inl ItemNotFoundError
      | Inr xs \<Rightarrow> Inr (mk_progression u None xs))"

definition pg_setslice :: "pslice \<Rightarrow> ref \<Rightarrow> progression \<Rightarrow> (unit, progression) eff" where
  "pg_setslice s r p =
     (case validate_order r of
        Inl e \<Rightarrow> (Inl e, p)
      | Inr refs \<Rightarrow>
          (case py_set_slice (order p) s refs of
             Inl e \<Rightarrow> (Inl e, p)
           | Inr xs \<Rightarrow> (Inr (), rebuild_members (p\<lparr>order := xs, binding := Plain\<rparr>))))"

text \<open>
  Assignment to one index.  An index out of range is caught and turned into an insertion; an empty
  reference fails in both the assignment and the handler.
\<close>

definition pg_setitem :: "int \<Rightarrow> ref \<Rightarrow> progression \<Rightarrow> (unit, progression) eff" where
  "pg_setitem i r p =
     (case validate_order r of
        Inl e \<Rightarrow> (Inl e, p)
      | Inr refs \<Rightarrow>
          (let p1 = ensure_synced p
           in (case refs of
                 [] \<Rightarrow> (Inl IndexError, p1)
               | x # _ \<Rightarrow>
                   (case md_setitem i x p1 of
                      (Inr _, p2) \<Rightarrow> (Inr (), p2\<lparr>order_len := length (order p2)\<rparr>)
                    | (Inl _, p2) \<Rightarrow>
                        (let p3 = md_insert i x p2
                         in (Inr (), p3\<lparr>order_len := length (order p3)\<rparr>))))))"

definition pg_delslice :: "pslice \<Rightarrow> progression \<Rightarrow> (unit, progression) eff" where
  "pg_delslice s p =
     (case py_del_slice (order p) s of
        Inl e \<Rightarrow> (Inl e, p)
      | Inr xs \<Rightarrow> (Inr (), rebuild_members (p\<lparr>order := xs, binding := Plain\<rparr>)))"

definition pg_delitem :: "int \<Rightarrow> progression \<Rightarrow> (unit, progression) eff" where
  "pg_delitem i p =
     (case md_delitem i p of
        (Inl e, p1) \<Rightarrow> (Inl e, p1)
      | (Inr _, p1) \<Rightarrow> (Inr (), rebuild_members p1))"

definition pg_clear :: "progression \<Rightarrow> progression" where
  "pg_clear p = (md_clear p)\<lparr>members := {}, order_len := 0\<rparr>"

fun include_loop :: "uuid list \<Rightarrow> bool \<Rightarrow> progression \<Rightarrow> bool \<times> progression" where
  "include_loop [] b p = (b, p)"
| "include_loop (u # us) b p =
     (if u \<in> members p then include_loop us b p
      else (let p1 = md_append u p in include_loop us True (p1\<lparr>members := insert u (members p1)\<rparr>)))"

definition pg_include :: "ref \<Rightarrow> progression \<Rightarrow> (bool, progression) eff" where
  "pg_include r p =
     (case validate_order r of
        Inl ValueError \<Rightarrow> (Inr False, p)
      | Inl e \<Rightarrow> (Inl e, p)
      | Inr refs \<Rightarrow>
          if refs = [] then (Inr True, p)
          else (let (b, p1) = include_loop refs False (ensure_synced p)
                in (Inr b, p1\<lparr>order_len := length (order p1)\<rparr>)))"

definition drop_ids :: "uuid list \<Rightarrow> progression \<Rightarrow> progression" where
  "drop_ids refs p =
     rebuild_members (p\<lparr>order := filter (\<lambda>x. x \<notin> set refs) (order p), binding := Plain\<rparr>)"

definition pg_exclude :: "ref \<Rightarrow> progression \<Rightarrow> (bool, progression) eff" where
  "pg_exclude r p =
     (case validate_order r of
        Inl ValueError \<Rightarrow> (Inr False, p)
      | Inl e \<Rightarrow> (Inl e, p)
      | Inr refs \<Rightarrow>
          if refs = [] then (Inr True, p)
          else (let p1 = drop_ids refs p in (Inr (length (order p1) < length (order p)), p1)))"

definition pg_append :: "ref \<Rightarrow> progression \<Rightarrow> (unit, progression) eff" where
  "pg_append r p =
     (let p1 = ensure_synced p
      in (case r of
            RObs (OUuid u) \<Rightarrow>
              (let p2 = md_append u p1 in (Inr (), p2\<lparr>order_len := length (order p2)\<rparr>))
          | _ \<Rightarrow>
              (case validate_order r of
                 Inl e \<Rightarrow> (Inl e, p1)
               | Inr refs \<Rightarrow>
                   (let p2 = md_extend refs p1 in (Inr (), p2\<lparr>order_len := length (order p2)\<rparr>)))))"

definition pg_pop :: "int \<Rightarrow> progression \<Rightarrow> (uuid, progression) eff" where
  "pg_pop i p =
     (let p1 = ensure_synced p;
          res = (if i = -1 \<or> i = int (length (order p1)) - 1 then md_pop p1
                 else if i = 0 then md_popleft p1
                 else (case py_get (order p1) i of
                         Inl e \<Rightarrow> (Inl e, p1)
                       | Inr u \<Rightarrow> (case md_delitem i p1 of
                                     (Inl e, p2) \<Rightarrow> (Inl e, p2)
                                   | (Inr _, p2) \<Rightarrow> (Inr u, p2))))
      in (case res of
            (Inl _, p2) \<Rightarrow> (Inl ItemNotFoundError, p2)
          | (Inr u, p2) \<Rightarrow> (Inr u, p2\<lparr>order_len := length (order p2)\<rparr>)))"

definition pg_popleft :: "progression \<Rightarrow> (uuid, progression) eff" where
  "pg_popleft p =
     (if order p = [] then (Inl ItemNotFoundError, p)
      else (case md_popleft (ensure_synced p) of
              (Inl e, p1) \<Rightarrow> (Inl e, p1)
            | (Inr u, p1) \<Rightarrow> (Inr u, p1\<lparr>order_len := length (order p1)\<rparr>)))"

definition pg_remove :: "ref \<Rightarrow> progression \<Rightarrow> (unit, progression) eff" where
  "pg_remove r p =
     (case validate_order r of
        Inl ValueError \<Rightarrow> (Inl ItemNotFoundError, p)
      | Inl e \<Rightarrow> (Inl e, p)
      | Inr refs \<Rightarrow>
          if refs = [] then (Inr (), p)
          else (let p1 = ensure_synced p
                in if filter (\<lambda>u. u \<notin> members p1) refs \<noteq> [] then (Inl ItemNotFoundError, p1)
                   else (Inr (), drop_ids refs p1)))"

definition pg_count :: "ref \<Rightarrow> progression \<Rightarrow> pyerr + nat" where
  "pg_count r p = map_sum id (count_list (order p)) (get_id r)"

text \<open>\<open>deque.index(x, start, end)\<close>: negative bounds count from the end and are clamped at 0.\<close>

definition clamp_bound :: "nat \<Rightarrow> int \<Rightarrow> nat" where
  "clamp_bound n i = (if i < 0 then nat (i + int n) else nat i)"

definition pg_index :: "ref \<Rightarrow> int \<Rightarrow> int option \<Rightarrow> progression \<Rightarrow> pyerr + nat" where
  "pg_index r start stop p =
     (case get_id r of
        Inl e \<Rightarrow> Inl e
      | Inr u \<Rightarrow>
          let n = length (order p);
              hi = (case stop of None \<Rightarrow> n | Some k \<Rightarrow> min n (clamp_bound n k));
              hits = filter (\<lambda>j. order p ! j = u) [clamp_bound n start..<hi]
          in (case hits of [] \<Rightarrow> Inl ValueError | j # _ \<Rightarrow> Inr j))"

text \<open>\<open>extend\<close> accepts a \<open>Progression\<close> only; the argument is its order.\<close>

definition pg_extend :: "uuid list option \<Rightarrow> progression \<Rightarrow> (unit, progression) eff" where
  "pg_extend other p =
     (case other of
        None \<Rightarrow> (Inl ValueError, p)
      | Some xs \<Rightarrow>
          (let p1 = md_extend xs (ensure_synced p) in (Inr (), p1\<lparr>order_len := length (order p1)\<rparr>)))"

definition pg_add :: "uuid \<Rightarrow> progression \<Rightarrow> ref \<Rightarrow> pyerr + progression" where
  "pg_add u p r = map_sum id (\<lambda>refs. mk_progression u None (order p @ refs)) (validate_order r)"

definition pg_radd :: "uuid \<Rightarrow> ref \<Rightarrow> progression \<Rightarrow> pyerr + progression" where
  "pg_radd u r p = map_sum id (\<lambda>refs. mk_progression u None (refs @ order p)) (validate_order r)"

definition pg_sub :: "uuid \<Rightarrow> progression \<Rightarrow> ref \<Rightarrow> pyerr + progression" where
  "pg_sub u p r =
     map_sum id (\<lambda>refs. mk_progression u None (filter (\<lambda>x. x \<notin> set refs) (order p)))
       (validate_order r)"

definition pg_insert :: "int \<Rightarrow> ref \<Rightarrow> progression \<Rightarrow> (unit, progression) eff" where
  "pg_insert i r p =
     (case validate_order r of
        Inl e \<Rightarrow> (Inl e, p)
      | Inr refs \<Rightarrow>
          (let p1 = fold (md_insert i) (rev refs) (ensure_synced p)
           in (Inr (), p1\<lparr>order_len := length (order p1)\<rparr>)))"

definition validate_index :: "int \<Rightarrow> bool \<Rightarrow> progression \<Rightarrow> pyerr + nat" where
  "validate_index i allow_end p =
     (let n = length (order p)
      in if n = 0 \<and> \<not> allow_end then Inl ItemNotFoundError
         else let j = (if i < 0 then int n + i else i);
                  top = (if allow_end then int n else int n - 1)
              in if j < 0 \<or> j > top then Inl ItemNotFoundError else Inr (nat j))"

definition pg_move :: "int \<Rightarrow> int \<Rightarrow> progression \<Rightarrow> (unit, progression) eff" where
  "pg_move i j p =
     (let p1 = ensure_synced p
      in (case validate_index i False p1 of
            Inl e \<Rightarrow> (Inl e, p1)
          | Inr a \<Rightarrow>
              (case validate_index j True p1 of
                 Inl e \<Rightarrow> (Inl e, p1)
               | Inr b \<Rightarrow>
                   (let x = order p1 ! a;
                        p2 = snd (md_delitem (int a) p1);
                        b' = (if a < b then b - 1 else b)
                    in (Inr (), md_insert (int b') x p2)))))"

definition pg_swap :: "int \<Rightarrow> int \<Rightarrow> progression \<Rightarrow> (unit, progression) eff" where
  "pg_swap i j p =
     (let p1 = ensure_synced p
      in (case validate_index i False p1 of
            Inl e \<Rightarrow> (Inl e, p1)
          | Inr a \<Rightarrow>
              (case validate_index j False p1 of
                 Inl e \<Rightarrow> (Inl e, p1)
               | Inr b \<Rightarrow>
                   (let x = order p1 ! b; y = order p1 ! a;
                        p2 = snd (md_setitem (int a) x p1)
                    in (Inr (), snd (md_setitem (int b) y p2))))))"

definition pg_reverse :: "progression \<Rightarrow> progression" where
  "pg_reverse p = md_reverse (ensure_synced p)"

definition pg_reversed :: "uuid \<Rightarrow> progression \<Rightarrow> progression" where
  "pg_reversed u p = mk_progression u None (rev (order p))"

definition pg_eq :: "progression \<Rightarrow> progression \<Rightarrow> bool" where
  "pg_eq p q \<longleftrightarrow> order p = order q \<and> pg_name p = pg_name q"

fun list_less :: "nat list \<Rightarrow> nat list \<Rightarrow> bool" where
  "list_less _ [] = False"
| "list_less [] (_ # _) = True"
| "list_less (x # xs) (y # ys) = (if x = y then list_less xs ys else x < y)"

definition pg_lt :: "progression \<Rightarrow> progression \<Rightarrow> bool" where
  "pg_lt p q = list_less (order p) (order q)"

definition pg_le :: "progression \<Rightarrow> progression \<Rightarrow> bool" where
  "pg_le p q \<longleftrightarrow> order p = order q \<or> list_less (order p) (order q)"

section \<open>Membership is in step with the sequence\<close>

definition members_ok :: "progression \<Rightarrow> bool" where
  "members_ok p \<longleftrightarrow> (binding p = Bound \<longrightarrow> members p = set (order p))"

definition synced :: "progression \<Rightarrow> bool" where
  "synced p \<longleftrightarrow> binding p = Bound \<and> members p = set (order p) \<and> order_len p = length (order p)"

lemma discard_gone_update:
  "j < length xs \<Longrightarrow> insert x (discard_gone (xs ! j) (xs[j := x]) (set xs)) = set (xs[j := x])"
proof -
  assume j: "j < length xs"
  have x: "x \<in> set (xs[j := x])" using j by (rule set_update_memI)
  have keep: "y \<in> set (xs[j := x])" if "y \<in> set xs" "y \<noteq> xs ! j" for y
    using that j by (metis in_set_conv_nth length_list_update nth_list_update_neq)
  show ?thesis
    using x keep set_update_subset_insert[of xs j x] by (auto simp: discard_gone_def)
qed

lemma discard_gone_insert: "insert v (set ys) = set xs \<Longrightarrow> discard_gone v ys (set xs) = set ys"
  by (auto simp: discard_gone_def)

lemma discard_gone_del:
  "j < length xs \<Longrightarrow> discard_gone (xs ! j) (del_nth j xs) (set xs) = set (del_nth j xs)"
  by (rule discard_gone_insert) (rule set_del_nth)

lemma discard_gone_tl: "discard_gone v xs (insert v (set xs)) = set xs"
  by (auto simp: discard_gone_def)

lemma discard_gone_butlast:
  "xs \<noteq> [] \<Longrightarrow> discard_gone (last xs) (butlast xs) (set xs) = set (butlast xs)"
proof (rule discard_gone_insert)
  assume "xs \<noteq> []"
  then have "set xs = set (butlast xs @ [last xs])" by simp
  then show "insert (last xs) (set (butlast xs)) = set xs" by (simp del: append_butlast_last_id)
qed

lemma discard_gone_remove1:
  "v \<in> set xs \<Longrightarrow> discard_gone v (remove1 v xs) (set xs) = set (remove1 v xs)"
  by (rule discard_gone_insert) (induction xs, auto)

lemmas md_defs =
  md_sync_def md_setitem_def md_delitem_def md_append_def md_appendleft_def md_pop_def
  md_popleft_def md_insert_def md_remove_def md_extend_def md_extendleft_def md_clear_def
  md_imul_def md_reverse_def md_rotate_def

lemmas discard_simps =
  discard_gone_update discard_gone_del discard_gone_tl discard_gone_butlast discard_gone_remove1

lemma set_rotated: "set (drop k xs @ take k xs) = set xs"
  by (metis append_take_drop_id set_append sup_commute)

lemma set_concat_replicate: "0 < n \<Longrightarrow> set (concat (replicate n xs)) = set xs"
  by (induction n) auto

text \<open>Every deque mutation keeps the bound set exact.\<close>

lemma md_members_ok [intro]:
  assumes "members_ok p"
  shows "members_ok (snd (md_setitem i x p))" "members_ok (snd (md_delitem i p))"
    "members_ok (md_append x p)" "members_ok (md_appendleft x p)"
    "members_ok (snd (md_pop p))" "members_ok (snd (md_popleft p))"
    "members_ok (md_insert i x p)" "members_ok (snd (md_remove x p))"
    "members_ok (md_extend xs p)" "members_ok (md_extendleft xs p)"
    "members_ok (md_clear p)" "members_ok (md_imul i p)"
    "members_ok (md_reverse p)" "members_ok (md_rotate i p)"
proof -
  show "members_ok (snd (md_setitem i x p))" "members_ok (snd (md_delitem i p))"
    using assms
    by (simp_all add: members_ok_def md_defs discard_simps Let_def py_idx_less split: option.split)
  show "members_ok (snd (md_pop p))" "members_ok (snd (md_remove x p))"
    using assms by (auto simp: members_ok_def md_defs discard_simps Let_def)
  show "members_ok (snd (md_popleft p))"
    using assms
    by (simp add: members_ok_def md_defs discard_simps Let_def split: list.split)
  show "members_ok (md_rotate i p)"
    using assms by (simp add: members_ok_def md_rotate_def Let_def set_rotated del: set_append)
  show "members_ok (md_imul i p)"
    using assms by (simp add: members_ok_def md_defs set_concat_replicate del: set_concat)
qed (use assms in \<open>auto simp: members_ok_def md_defs\<close>)

lemma synced_members_ok [simp]: "synced p \<Longrightarrow> members_ok p"
  by (simp add: synced_def members_ok_def)

lemma rebuild_synced [simp]: "synced (rebuild_members p)"
  by (simp add: synced_def rebuild_members_def)

lemma order_rebuild [simp]: "order (rebuild_members p) = order p"
  by (simp add: rebuild_members_def)

lemma order_ensure_synced [simp]: "order (ensure_synced p) = order p"
  by (simp add: ensure_synced_def)

lemma ensure_synced_synced [simp]: "members_ok p \<Longrightarrow> synced (ensure_synced p)"
  by (auto simp: ensure_synced_def synced_def members_ok_def rebuild_members_def)

lemma mk_progression_synced [simp]: "synced (mk_progression u nm xs)"
  by (simp add: mk_progression_def)

lemma synced_memb: "synced p \<Longrightarrow> members p = set (order p)"
  by (simp add: synced_def)

section \<open>Methods keep the invariant\<close>

text \<open>Everything that can happen to a progression: in-place deque mutations, replacement of the deque, methods.\<close>

datatype pg_op =
    XSet int uuid | XDel int | XAppend uuid | XAppendleft uuid | XPop | XPopleft
  | XInsert int uuid | XRemove uuid | XExtend "uuid list" | XExtendleft "uuid list" | XClear
  | XImul int | XReverse | XRotate int
  | XAssignPlain "uuid list" | XAssignUnbound "uuid list" | XAssignForeign "uuid list"
  | PContains ref | PSetitem int ref | PSetslice pslice ref | PDelitem int | PDelslice pslice
  | PClear | PInclude ref | PExclude ref | PAppend ref | PPop int | PPopleft | PRemove ref
  | PExtend "uuid list option" | PInsert int ref | PMove int int | PSwap int int | PReverse

fun pg_step :: "progression \<Rightarrow> pg_op \<Rightarrow> progression" where
  "pg_step p (XSet i x) = snd (md_setitem i x p)"
| "pg_step p (XDel i) = snd (md_delitem i p)"
| "pg_step p (XAppend x) = md_append x p"
| "pg_step p (XAppendleft x) = md_appendleft x p"
| "pg_step p XPop = snd (md_pop p)"
| "pg_step p XPopleft = snd (md_popleft p)"
| "pg_step p (XInsert i x) = md_insert i x p"
| "pg_step p (XRemove x) = snd (md_remove x p)"
| "pg_step p (XExtend xs) = md_extend xs p"
| "pg_step p (XExtendleft xs) = md_extendleft xs p"
| "pg_step p XClear = md_clear p"
| "pg_step p (XImul n) = md_imul n p"
| "pg_step p XReverse = md_reverse p"
| "pg_step p (XRotate n) = md_rotate n p"
| "pg_step p (XAssignPlain xs) = p\<lparr>order := xs, binding := Plain\<rparr>"
| "pg_step p (XAssignUnbound xs) = p\<lparr>order := xs, binding := Unbound\<rparr>"
| "pg_step p (XAssignForeign xs) = p\<lparr>order := xs, binding := Foreign\<rparr>"
| "pg_step p (PContains r) = snd (pg_contains r p)"
| "pg_step p (PSetitem i r) = snd (pg_setitem i r p)"
| "pg_step p (PSetslice s r) = snd (pg_setslice s r p)"
| "pg_step p (PDelitem i) = snd (pg_delitem i p)"
| "pg_step p (PDelslice s) = snd (pg_delslice s p)"
| "pg_step p PClear = pg_clear p"
| "pg_step p (PInclude r) = snd (pg_include r p)"
| "pg_step p (PExclude r) = snd (pg_exclude r p)"
| "pg_step p (PAppend r) = snd (pg_append r p)"
| "pg_step p (PPop i) = snd (pg_pop i p)"
| "pg_step p PPopleft = snd (pg_popleft p)"
| "pg_step p (PRemove r) = snd (pg_remove r p)"
| "pg_step p (PExtend xs) = snd (pg_extend xs p)"
| "pg_step p (PInsert i r) = snd (pg_insert i r p)"
| "pg_step p (PMove i j) = snd (pg_move i j p)"
| "pg_step p (PSwap i j) = snd (pg_swap i j p)"
| "pg_step p PReverse = pg_reverse p"

lemma members_ok_len [simp]: "members_ok (p\<lparr>order_len := n\<rparr>) = members_ok p"
  by (simp add: members_ok_def)

lemma members_ok_replaced [simp]:
  "b \<noteq> Bound \<Longrightarrow> members_ok (p\<lparr>order := xs, binding := b\<rparr>)"
  by (simp add: members_ok_def)

lemma members_ok_ensure [simp]: "members_ok p \<Longrightarrow> members_ok (ensure_synced p)"
  by simp

lemma binding_md [simp]:
  "binding (md_append x p) = binding p" "binding (md_insert i x p) = binding p"
  by (simp_all add: md_defs)

lemma include_loop_synced:
  "binding p = Bound \<Longrightarrow> members p = set (order p) \<Longrightarrow>
   (let p' = snd (include_loop us b p) in binding p' = Bound \<and> members p' = set (order p'))"
proof (induction us b p rule: include_loop.induct)
  case (2 u us b p)
  then show ?case by (cases "u \<in> members p") (auto simp: Let_def md_defs)
qed (simp add: Let_def)

lemma include_loop_ok: "synced p \<Longrightarrow> members_ok (snd (include_loop us b p))"
  using include_loop_synced[of p us b] by (simp add: synced_def members_ok_def Let_def)

lemma fold_insert_ok: "members_ok p \<Longrightarrow> members_ok (fold (md_insert i) xs p)"
  by (induction xs arbitrary: p) (auto intro: md_members_ok)

text \<open>What a caller does with the outcome of a deque mutation does not touch the set.\<close>

lemma eff_case_ok [simp]:
  "members_ok (snd (case m of (Inl e, q) \<Rightarrow> (f e q, q) | (Inr u, q) \<Rightarrow> (g u q, q\<lparr>order_len := h q\<rparr>))) =
     members_ok (snd m)"
  "members_ok (snd (case m of (Inl e, q) \<Rightarrow> (f e q, q) | (Inr u, q) \<Rightarrow> (k u q, q))) =
     members_ok (snd m)"
  by (auto split: prod.split sum.split)

lemma pg_setitem_ok: "members_ok p \<Longrightarrow> members_ok (snd (pg_setitem i r p))"
proof -
  assume "members_ok p"
  then have "members_ok q" if "md_setitem i x (ensure_synced p) = (res, q)" for x res q
    using that md_members_ok(1)[of "ensure_synced p" i x] by simp
  then show ?thesis using \<open>members_ok p\<close>
    by (auto simp: pg_setitem_def Let_def md_members_ok(7) split: sum.splits list.splits prod.splits)
qed

lemma pg_pop_ok: "members_ok p \<Longrightarrow> members_ok (snd (pg_pop i p))"
  by (simp add: pg_pop_def Let_def md_members_ok split: sum.split)

lemma pg_popleft_ok: "members_ok p \<Longrightarrow> members_ok (snd (pg_popleft p))"
  by (simp add: pg_popleft_def md_members_ok)

lemma pg_append_ok: "members_ok p \<Longrightarrow> members_ok (snd (pg_append r p))"
  by (cases r; (cases "validate_order r")?)
     (simp_all add: pg_append_def Let_def md_members_ok split: oid.split sum.split)

lemma pg_include_ok: "members_ok p \<Longrightarrow> members_ok (snd (pg_include r p))"
proof -
  assume p: "members_ok p"
  then have "members_ok q" if "include_loop us False (ensure_synced p) = (b, q)" for us b q
    using include_loop_ok[of "ensure_synced p" us False] that by simp
  with p show ?thesis
    by (auto simp: pg_include_def Let_def split: sum.split prod.split pyerr.split)
qed

lemma pg_move_ok: "members_ok p \<Longrightarrow> members_ok (snd (pg_move i j p))"
  by (auto simp: pg_move_def Let_def split: sum.splits intro!: md_members_ok)

lemma pg_swap_ok: "members_ok p \<Longrightarrow> members_ok (snd (pg_swap i j p))"
  by (auto simp: pg_swap_def Let_def split: sum.splits intro!: md_members_ok)

lemma drop_ids_synced [simp]: "synced (drop_ids us p)"
  by (simp add: drop_ids_def)

lemma pg_step_ok: "members_ok p \<Longrightarrow> members_ok (pg_step p op)"
proof (cases op)
  case (PRemove r)
  then show "members_ok p \<Longrightarrow> ?thesis"
    by (auto simp: pg_remove_def Let_def split: sum.splits pyerr.splits)
next
  case (PExclude r)
  then show "members_ok p \<Longrightarrow> ?thesis"
    by (auto simp: pg_exclude_def Let_def split: sum.splits pyerr.splits)
next
  case (PDelitem i)
  then show "members_ok p \<Longrightarrow> ?thesis"
    by (auto simp: pg_delitem_def split: sum.split prod.split)
       (metis md_members_ok(2) snd_conv)
next
  case PClear
  then show ?thesis by (simp add: pg_clear_def members_ok_def md_clear_def md_sync_def)
next
  case XClear
  then show "members_ok p \<Longrightarrow> ?thesis" by (simp add: md_members_ok)
qed (auto simp: pg_contains_def pg_setslice_def pg_delslice_def pg_extend_def
    pg_insert_def pg_reverse_def Let_def
    split: sum.splits option.splits
    intro: md_members_ok pg_setitem_ok pg_pop_ok pg_popleft_ok pg_append_ok pg_include_ok
      pg_move_ok pg_swap_ok fold_insert_ok)

interpretation pgops: stepping pg_step members_ok
  by unfold_locales (rule pg_step_ok)

lemma prog_run_ok: "members_ok (foldl pg_step (mk_progression u nm xs) ops)"
  by (rule pgops.run_inv) simp

section \<open>What the methods do to the sequence\<close>

lemma order_simps [simp]:
  "order (md_append x p) = order p @ [x]"
  "order (md_insert i x p) = py_insert i x (order p)"
  "order (md_extend xs p) = order p @ xs"
  "order (mk_progression u nm xs) = xs"
  "order (drop_ids us p) = filter (\<lambda>x. x \<notin> set us) (order p)"
  by (simp_all add: md_defs mk_progression_def drop_ids_def)

text \<open>The ids of a list that are not yet in a set, first occurrences in order.\<close>

fun fresh_ids :: "uuid list \<Rightarrow> uuid set \<Rightarrow> uuid list" where
  "fresh_ids [] S = []"
| "fresh_ids (u # us) S = (if u \<in> S then fresh_ids us S else u # fresh_ids us (insert u S))"

lemma set_fresh_ids: "set (fresh_ids us S) = set us - S"
  by (induction us S rule: fresh_ids.induct) auto

lemma distinct_fresh_ids: "distinct (fresh_ids us S)"
  by (induction us S rule: fresh_ids.induct) (auto simp: set_fresh_ids)

lemma fresh_ids_distinct: "distinct us \<Longrightarrow> fresh_ids us S = filter (\<lambda>u. u \<notin> S) us"
proof (induction us S rule: fresh_ids.induct)
  case (2 u us S)
  then have "filter (\<lambda>x. x \<notin> insert u S) us = filter (\<lambda>x. x \<notin> S) us"
    by (intro filter_cong) auto
  with 2 show ?case by auto
qed simp

lemma include_loop_order:
  assumes "binding p = Bound" "members p = set (order p)"
  shows "order (snd (include_loop us b p)) = order p @ fresh_ids us (set (order p))"
    "fst (include_loop us b p) \<longleftrightarrow> b \<or> fresh_ids us (set (order p)) \<noteq> []"
  using assms
proof (induction us b p rule: include_loop.induct)
  case (2 u us b p)
  {
    case 1
    then show ?case using 2 by (auto simp: Let_def md_defs)
  next
    case 2
    then show ?case using "2.IH" by (auto simp: Let_def md_defs)
  }
qed simp_all

lemma pg_include_order:
  assumes "members_ok p" "validate_order r = Inr us"
  shows "order (snd (pg_include r p)) = order p @ fresh_ids us (set (order p))"
    "fst (pg_include r p) = Inr (us = [] \<or> fresh_ids us (set (order p)) \<noteq> [])"
    "synced p \<or> us \<noteq> [] \<Longrightarrow> synced (snd (pg_include r p))"
proof -
  have s: "synced (ensure_synced p)" using assms(1) by simp
  then have b: "binding (ensure_synced p) = Bound"
    "members (ensure_synced p) = set (order (ensure_synced p))" by (simp_all add: synced_def)
  note lp = include_loop_order[OF b, of us False] include_loop_synced[OF b, of us False]
  show "order (snd (pg_include r p)) = order p @ fresh_ids us (set (order p))"
    "fst (pg_include r p) = Inr (us = [] \<or> fresh_ids us (set (order p)) \<noteq> [])"
    "synced p \<or> us \<noteq> [] \<Longrightarrow> synced (snd (pg_include r p))"
    using lp assms(2)
    by (cases "include_loop us False (ensure_synced p)"; auto simp: pg_include_def synced_def Let_def)+
qed

lemma pg_contains_spec:
  "members_ok p \<Longrightarrow> fst (pg_contains r p) =
     (case validate_order r of Inl _ \<Rightarrow> False | Inr us \<Rightarrow> set us \<subseteq> set (order p))"
  by (auto simp: pg_contains_def Let_def list_all_iff synced_memb split: sum.split)

lemma order_pg_contains [simp]: "order (snd (pg_contains r p)) = order p"
  by (auto simp: pg_contains_def Let_def split: sum.split)

lemma synced_pg_contains [simp]: "synced p \<Longrightarrow> snd (pg_contains r p) = p"
  by (auto simp: pg_contains_def Let_def ensure_synced_def synced_def split: sum.split)

lemma ensure_synced_id [simp]: "synced p \<Longrightarrow> ensure_synced p = p"
  by (simp add: ensure_synced_def synced_def)

lemma pg_exclude_uuids [simp]:
  "validate_order r = Inr us \<Longrightarrow> order (snd (pg_exclude r p)) = filter (\<lambda>x. x \<notin> set us) (order p)"
  by (auto simp: pg_exclude_def Let_def)

lemma pg_exclude_synced:
  "validate_order r = Inr us \<Longrightarrow> synced p \<Longrightarrow> synced (snd (pg_exclude r p))"
  by (auto simp: pg_exclude_def Let_def)

lemma pg_exclude_ids [simp]:
  "validate_order r = Inr us \<Longrightarrow> synced p \<Longrightarrow> pg_id (snd (pg_exclude r p)) = pg_id p"
  by (simp add: pg_exclude_def Let_def drop_ids_def rebuild_members_def)

lemma order_fold_insert:
  "order (fold (md_insert i) xs p) = fold (py_insert i) xs (order p)"
  by (induction xs arbitrary: p) simp_all

text \<open>
  Inserting ids one by one at a fixed index: at a position counted from the front each new id pushes
  the earlier ones back, at one counted from the end each lands behind them.
\<close>

lemma fold_py_insert_front:
  "length as = k \<Longrightarrow> fold (py_insert (int k)) vs (as @ bs) = as @ rev vs @ bs"
  by (induction vs arbitrary: bs) (simp_all add: py_insert_def py_ins_pos_def)

lemma fold_py_insert_back:
  "length bs = m \<Longrightarrow> 0 < m \<Longrightarrow> fold (py_insert (- int m)) vs (as @ bs) = as @ vs @ bs"
proof (induction vs arbitrary: as)
  case (Cons v vs)
  then have "py_insert (- int m) v (as @ bs) = (as @ [v]) @ bs"
    by (simp add: py_insert_def py_ins_pos_def)
  then show ?case using Cons.IH[of "as @ [v]"] Cons.prems by simp
qed simp

lemma pg_insert_order:
  assumes "validate_order r = Inr us"
  shows "k \<le> length (order p) \<Longrightarrow>
      order (snd (pg_insert (int k) r p)) = take k (order p) @ us @ drop k (order p)"
    "0 < m \<Longrightarrow> m \<le> length (order p) \<Longrightarrow>
      order (snd (pg_insert (- int m) r p)) =
        take (length (order p) - m) (order p) @ rev us @ drop (length (order p) - m) (order p)"
  using assms fold_py_insert_front[of "take k (order p)" k "rev us" "drop k (order p)"]
    fold_py_insert_back[of "drop (length (order p) - m) (order p)" m "rev us"
      "take (length (order p) - m) (order p)"]
  by (simp_all add: pg_insert_def Let_def order_fold_insert)

lemma pg_insert_last:
  assumes "synced p" "validate_order r = Inr us"
  shows "order (snd (pg_insert (int (length (order p))) r p)) = order p @ us"
    "synced (snd (pg_insert i r p))"
    "fst (pg_insert i r p) = Inr ()"
proof -
  show "order (snd (pg_insert (int (length (order p))) r p)) = order p @ us"
    using pg_insert_order(1)[OF assms(2), of "length (order p)" p] by simp
  have "binding (fold (md_insert i) xs q) = binding q" for xs q
    by (induction xs arbitrary: q) simp_all
  moreover have "members_ok (fold (md_insert i) (rev us) p)"
    using assms(1) by (intro fold_insert_ok) simp
  ultimately show "synced (snd (pg_insert i r p))"
    using assms by (auto simp: pg_insert_def Let_def synced_def members_ok_def)
qed (use assms in \<open>simp add: pg_insert_def Let_def\<close>)

lemma order_md_delitem:
  "j < length (order p) \<Longrightarrow> order (snd (md_delitem (int j) p)) = del_nth j (order p)"
  by (simp add: md_defs Let_def)

lemma order_md_setitem:
  "j < length (order p) \<Longrightarrow> order (snd (md_setitem (int j) x p)) = (order p)[j := x]"
  by (simp add: md_defs Let_def)

lemma pg_move_order:
  assumes "a < length (order p)" "b \<le> length (order p)"
  shows "order (snd (pg_move (int a) (int b) p)) =
    py_insert (int (if a < b then b - 1 else b)) (order p ! a) (del_nth a (order p))"
    "fst (pg_move (int a) (int b) p) = Inr ()"
proof -
  have v: "validate_index (int a) False (ensure_synced p) = Inr a"
    "validate_index (int b) True (ensure_synced p) = Inr b"
    using assms by (auto simp: validate_index_def Let_def)
  show "order (snd (pg_move (int a) (int b) p)) =
    py_insert (int (if a < b then b - 1 else b)) (order p ! a) (del_nth a (order p))"
    "fst (pg_move (int a) (int b) p) = Inr ()"
    using assms by (simp_all add: pg_move_def Let_def v order_md_delitem)
qed

lemma del_py_insert: "k \<le> length xs \<Longrightarrow> del_nth k (py_insert (int k) x xs) = xs"
  and nth_py_insert: "k \<le> length xs \<Longrightarrow> py_insert (int k) x xs ! k = x"
  by (simp_all add: py_insert_def py_ins_pos_def del_nth_def nth_append)

lemma pg_swap_order:
  assumes "a < length (order p)" "b < length (order p)"
  shows "order (snd (pg_swap (int a) (int b) p)) =
    (order p)[a := order p ! b, b := order p ! a]"
proof -
  have v: "validate_index (int a) False (ensure_synced p) = Inr a"
    "validate_index (int b) False (ensure_synced p) = Inr b"
    using assms by (auto simp: validate_index_def Let_def)
  show ?thesis
    using assms by (simp add: pg_swap_def Let_def v order_md_setitem)
qed

section \<open>Properties\<close>

text \<open>
  Membership is exact.  Whatever has happened to a progression since it was built (in-place
  mutations of its public deque, replacement of the deque by a plain, unbound or foreign one, method
  calls, in any order and with any arguments, failing ones included), \<open>r in p\<close> holds exactly when
  every id of \<open>r\<close> occurs in the sequence, and is False for an argument that does not resolve.
\<close>

theorem membership_exact:
  fixes u :: uuid and nm :: "string option" and xs :: "uuid list" and ops :: "pg_op list"
  defines "p \<equiv> foldl pg_step (mk_progression u nm xs) ops"
  shows "fst (pg_contains r p) =
    (case validate_order r of Inl _ \<Rightarrow> False | Inr us \<Rightarrow> set us \<subseteq> set (order p))"
  unfolding p_def by (rule pg_contains_spec) (rule prog_run_ok)

text \<open>
  \<open>include\<close> appends exactly the ids that are not present yet, each once, in the order of their
  first occurrence, reports whether it appended anything, and leaves a duplicate-free sequence
  duplicate-free; the existing entries keep their places.
\<close>

theorem include_appends_fresh:
  fixes u :: uuid and nm :: "string option" and xs :: "uuid list" and ops :: "pg_op list"
  defines "p \<equiv> foldl pg_step (mk_progression u nm xs) ops"
  assumes "validate_order r = Inr us" "us \<noteq> []"
  shows "fst (pg_include r p) = Inr (\<not> set us \<subseteq> set (order p)) \<and>
    (\<exists>new. order (snd (pg_include r p)) = order p @ new \<and> distinct new \<and>
       set new = set us - set (order p)) \<and>
    distinct (order (snd (pg_include r p))) = distinct (order p)"
proof -
  have "members_ok p" unfolding p_def by (rule prog_run_ok)
  note inc = pg_include_order[OF this assms(2)]
  have "fresh_ids us (set (order p)) \<noteq> [] \<longleftrightarrow> \<not> set us \<subseteq> set (order p)"
    using set_fresh_ids[of us "set (order p)"] by (metis Diff_eq_empty_iff set_empty)
  then show ?thesis
    using inc assms(3) distinct_fresh_ids[of us "set (order p)"] set_fresh_ids[of us "set (order p)"]
    by auto
qed

theorem include_appends_fresh_witness:
  "order (snd (pg_include (RSeq [RUuid 3, RUuid 1, RUuid 3]) (mk_progression 9 None [1, 2]))) = [1, 2, 3] \<and>
   fst (pg_include (RSeq [RUuid 3, RUuid 1, RUuid 3]) (mk_progression 9 None [1, 2])) = Inr True"
  using include_appends_fresh[of "RSeq [RUuid 3, RUuid 1, RUuid 3]" "[3, 1, 3]" 9 None "[1, 2]" "[]"]
  by (simp add: pg_include_def mk_progression_def rebuild_members_def ensure_synced_def md_defs)

text \<open>
  \<open>move\<close> with valid indices takes one entry out and puts it back: the entry ends at the requested
  position (one less when it moves towards the end, because the removal shifts the target), the other
  entries keep their relative order, and no id is lost or duplicated.
\<close>

theorem move_relocates:
  fixes p :: progression and a b :: nat
  assumes "a < length (order p)" "b \<le> length (order p)"
  defines "q \<equiv> snd (pg_move (int a) (int b) p)"
    and "c \<equiv> (if a < b then b - 1 else b)"
  shows "order q ! c = order p ! a \<and> del_nth c (order q) = del_nth a (order p) \<and>
    mset (order q) = mset (order p)"
proof -
  have c: "c \<le> length (del_nth a (order p))" using assms by auto
  have ms: "mset (py_insert i x xs) = add_mset x (mset xs)" for i x and xs :: "uuid list"
    by (simp add: py_insert_def Let_def)
       (metis append_take_drop_id mset_append union_commute)
  have "mset (order p) = add_mset (order p ! a) (mset (del_nth a (order p)))"
    by (metis assms(1) del_nth_def id_take_nth_drop mset.simps(2) mset_append union_mset_add_mset_right)
  then show ?thesis
    using pg_move_order[OF assms(1,2)] c
    by (simp add: q_def c_def[symmetric] del_py_insert nth_py_insert ms)
qed

theorem move_relocates_witness:
  "order (snd (pg_move 0 2 (mk_progression 9 None [5, 6, 7]))) ! 1 = 5 \<and>
   mset (order (snd (pg_move 0 2 (mk_progression 9 None [5, 6, 7])))) = {#5, 6, 7#}"
  using move_relocates[of 0 "mk_progression 9 None [5, 6, 7]" 2] by simp

text \<open>
  \<open>insert\<close> of several ids keeps their order at an index counted from the front (\<open>0 \<le> i \<le> len\<close>)
  but reverses them at an index counted from the end: the loop inserts the reversed list one id at a
  time, and a negative index denotes a later position after each insertion.
\<close>

theorem insert_many_order:
  assumes "validate_order r = Inr us"
  shows "(\<forall>k \<le> length (order p).
       order (snd (pg_insert (int k) r p)) = take k (order p) @ us @ drop k (order p)) \<and>
    (\<forall>m. 0 < m \<and> m \<le> length (order p) \<longrightarrow>
       order (snd (pg_insert (- int m) r p)) =
         take (length (order p) - m) (order p) @ rev us @ drop (length (order p) - m) (order p))"
  using pg_insert_order[OF assms] by blast

theorem insert_many_order_witness:
  "order (snd (pg_insert 1 (RSeq [RUuid 7, RUuid 8]) (mk_progression 9 None [1, 2]))) = [1, 7, 8, 2] \<and>
   order (snd (pg_insert (-1) (RSeq [RUuid 7, RUuid 8]) (mk_progression 9 None [1, 2]))) = [1, 8, 7, 2]"
proof -
  have v: "validate_order (RSeq [RUuid 7, RUuid 8]) = Inr [7, 8]" by simp
  note t = insert_many_order[OF v, of "mk_progression 9 None [1, 2]"]
  from t[THEN conjunct1, rule_format, of 1] t[THEN conjunct2, rule_format, of 1] show ?thesis by simp
qed

end
