(* ===== verification/Pile.thy ===== *)
theory Pile
  imports Progression
begin

text \<open>
  \<open>lionagi/protocols/generic/pile.py\<close>: a keyed collection of elements with an order.

  A pile keeps a dict from ids to elements (\<open>collections\<close>) and a \<open>Progression\<close> of the same ids; a
  type restriction filters what may enter.  An element is its id, the names of its class and of the
  class's ancestors (its method resolution order, own class first) and a payload.  All methods are
  synchronised in the source, so each is one atomic step here; a method that can raise after having
  changed the pile returns the changed pile with the exception.  The iterator, the adapters and the
  serialisation of elements are outside the model.

  The lemmas show which operations keep the dict and the progression in agreement (\<open>wf_pile\<close>), what
  they return, and which calls break the agreement.
\<close>

section \<open>Elements and their types\<close>

datatype 'a elem = Elem (eid: uuid) (emro: "string list") (ebody: 'a)

abbreviation etype :: "'a elem \<Rightarrow> string" where
  "etype e \<equiv> hd (emro e)"

text \<open>
  What a caller passes as an item: an element, a dict (with what \<open>Element.from_dict\<close> makes of it), or an
  object without an \<open>id\<close> (its class names).
\<close>

datatype 'a itemarg = IElem "'a elem" | IDict "pyerr + 'a elem" | IBad "string list"

text \<open>An entry of \<open>item_type\<close>: a class, a union, an import path (and what importing it gives), or no type.\<close>

datatype tyarg = TClass string | TUnion "string list" | TImport string "tyarg option" | TBad

fun ty_members :: "tyarg \<Rightarrow> pyerr + string list" where
  "ty_members (TClass c) = Inr [c]"
| "ty_members (TImport _ (Some (TClass c))) = Inr [c]"
| "ty_members (TImport _ _) = Inl ValidationError"
| "ty_members (TUnion _) = Inl ValidationError"
| "ty_members TBad = Inl ValidationError"

definition validate_item_type :: "tyarg list option \<Rightarrow> pyerr + string set option" where
  "validate_item_type v =
     (case v of
        None \<Rightarrow> Inr None
      | Some ts \<Rightarrow>
          (case collect_ok (map ty_members ts) of
             Inl e \<Rightarrow> Inl e
           | Inr css \<Rightarrow>
               if \<not> distinct ts then Inl ValidationError
               else if ts = [] then Inr None
               else Inr (Some (set (concat css)))))"

text \<open>The admission test of \<open>_validate_collections\<close>.\<close>

definition type_ok :: "string set option \<Rightarrow> bool \<Rightarrow> string list \<Rightarrow> bool" where
  "type_ok ty strict mro =
     (case ty of
        None \<Rightarrow> True
      | Some T \<Rightarrow> if T = {} then True else if strict then hd mro \<in> T else list_ex (\<lambda>c. c \<in> T) mro)"

definition untyped :: "string set option \<Rightarrow> bool" where
  "untyped ty = (case ty of None \<Rightarrow> True | Some T \<Rightarrow> T = {})"

fun admit :: "string set option \<Rightarrow> bool \<Rightarrow> 'a itemarg \<Rightarrow> pyerr + 'a elem" where
  "admit ty strict (IElem e) =
     (if type_ok ty strict (emro e) then Inr e else Inl ValidationError)"
| "admit ty strict (IDict (Inl err)) = Inl err"
| "admit ty strict (IDict (Inr e)) =
     (if type_ok ty strict (emro e) then Inr e else Inl ValidationError)"
| "admit ty strict (IBad mro) =
     (if untyped ty then Inl ValueError
      else if type_ok ty strict mro then Inl AttributeError else Inl ValidationError)"

type_synonym 'a items = "(uuid, 'a elem) pydict"

fun validate_items ::
    "string set option \<Rightarrow> bool \<Rightarrow> 'a itemarg list \<Rightarrow> 'a items \<Rightarrow> pyerr + 'a items" where
  "validate_items ty strict [] acc = Inr acc"
| "validate_items ty strict (i # is) acc =
     (case admit ty strict i of
        Inl e \<Rightarrow> Inl e
      | Inr x \<Rightarrow> validate_items ty strict is (dset (eid x) x acc))"

definition validate_collections ::
    "string set option \<Rightarrow> bool \<Rightarrow> 'a itemarg list \<Rightarrow> pyerr + 'a items" where
  "validate_collections ty strict is = validate_items ty strict is []"

section \<open>The pile\<close>

record 'a pile =
  collections :: "'a items"
  item_type :: "string set option"
  progression :: progression
  strict_type :: bool

text \<open>The order a caller supplies: none, a progression, a dict (a parsed progression or its \<open>order\<close> entries), a list.\<close>

datatype order_arg =
    ONone | OProg progression | ODict "progression option" "ref list" | OList "ref list"

definition check_order :: "ref list \<Rightarrow> 'a items \<Rightarrow> pyerr + unit" where
  "check_order vs d =
     (if \<not> distinct vs then Inl ValueError
      else if length vs \<noteq> length d then Inl ValueError
      else (case collect_ok (map get_id vs) of
              Inl e \<Rightarrow> Inl e
            | Inr us \<Rightarrow> if list_all (dhas d) us then Inr () else Inl ValueError))"

text \<open>\<open>_validate_progression\<close>; the id of a progression built here is drawn by the caller.\<close>

definition validate_progression :: "uuid \<Rightarrow> order_arg \<Rightarrow> 'a items \<Rightarrow> pyerr + progression" where
  "validate_progression u v d =
     (let default = mk_progression u None (dkeys d);
          from_list = (\<lambda>rs. case check_order rs d of
                              Inl e \<Rightarrow> Inl e
                            | Inr _ \<Rightarrow> prog u (RSeq rs) None);
          from_prog = (\<lambda>p. case check_order (map RUuid (order p)) d of
                             Inl e \<Rightarrow> Inl e
                           | Inr _ \<Rightarrow> if order p = [] then prog u (RSeq []) None else Inr p)
      in (case v of
            ONone \<Rightarrow> Inr default
          | OProg p \<Rightarrow> if order p = [] then Inr default else from_prog p
          | ODict (Some p) _ \<Rightarrow> from_prog p
          | ODict None rs \<Rightarrow> from_list rs
          | OList rs \<Rightarrow> if rs = [] then Inr default else from_list rs))"

definition mk_pile ::
    "uuid \<Rightarrow> 'a itemarg list \<Rightarrow> tyarg list option \<Rightarrow> order_arg \<Rightarrow> bool \<Rightarrow> pyerr + 'a pile" where
  "mk_pile u is ts ord strict =
     (case validate_item_type ts of
        Inl e \<Rightarrow> Inl e
      | Inr ty \<Rightarrow>
          (case validate_collections ty strict is of
             Inl e \<Rightarrow> Inl e
           | Inr d \<Rightarrow>
               (case validate_progression u ord d of
                  Inl e \<Rightarrow> Inl e
                | Inr p \<Rightarrow>
                    Inr \<lparr>collections = d, item_type = ty, progression = p, strict_type = strict\<rparr>)))"

text \<open>A pile derived from another one (same restriction) with the given elements.\<close>

definition pile_like :: "uuid \<Rightarrow> 'a pile \<Rightarrow> 'a elem list \<Rightarrow> pyerr + 'a pile" where
  "pile_like u s es =
     (case validate_collections (item_type s) (strict_type s) (map IElem es) of
        Inl e \<Rightarrow> Inl e
      | Inr d \<Rightarrow>
          Inr \<lparr>collections = d, item_type = item_type s,
               progression = mk_progression u None (dkeys d), strict_type = strict_type s\<rparr>)"

section \<open>Keys\<close>

datatype pkey = KInt int | KSlice pslice | KRef ref

text \<open>\<open>to_list_type\<close> on a reference.\<close>

definition to_list_ref :: "ref \<Rightarrow> ref list" where
  "to_list_ref r =
     (case r of
        RNone \<Rightarrow> []
      | RStr s \<Rightarrow> (case uuid_parse s of None \<Rightarrow> [] | Some u \<Rightarrow> [RUuid u])
      | RSeq rs \<Rightarrow> rs
      | RSet rs \<Rightarrow> rs
      | RMap _ vs \<Rightarrow> vs
      | _ \<Rightarrow> [r])"

text \<open>\<open>d.pop(k)\<close> for a list of keys, one after the other; a missing key stops it half-way.\<close>

fun pop_keys :: "uuid list \<Rightarrow> 'a items \<Rightarrow> ('a elem list, 'a items) eff" where
  "pop_keys [] d = (Inr [], d)"
| "pop_keys (k # ks) d =
     (case dget d k of
        None \<Rightarrow> (Inl KeyError, d)
      | Some e \<Rightarrow>
          (case pop_keys ks (ddel k d) of
             (Inl err, d') \<Rightarrow> (Inl err, d')
           | (Inr es, d') \<Rightarrow> (Inr (e # es), d')))"

text \<open>What an access returns: one element, several, or the caller's default.\<close>

datatype 'a got = One "'a elem" | Many "'a elem list" | Default

definition got_of :: "'a elem list \<Rightarrow> pyerr + 'a got" where
  "got_of es = (case es of [] \<Rightarrow> Inl ItemNotFoundError | [e] \<Rightarrow> Inr (One e) | _ \<Rightarrow> Inr (Many es))"

text \<open>\<open>except Exception\<close>: the default if one was given, an ItemNotFoundError otherwise.\<close>

definition or_default :: "bool \<Rightarrow> ('a got, 's) eff \<Rightarrow> ('a got, 's) eff" where
  "or_default has_default r =
     (case r of
        (Inl _, s) \<Rightarrow> (if has_default then Inr Default else Inl ItemNotFoundError, s)
      | (Inr x, s) \<Rightarrow> (Inr x, s))"

section \<open>Reading\<close>

definition pile_lookup :: "'a pile \<Rightarrow> uuid \<Rightarrow> pyerr + 'a elem" where
  "pile_lookup s k = (case dget (collections s) k of None \<Rightarrow> Inl KeyError | Some e \<Rightarrow> Inr e)"

definition pile_keys :: "'a pile \<Rightarrow> uuid list" where
  "pile_keys s = order (progression s)"

definition pile_values :: "'a pile \<Rightarrow> pyerr + 'a elem list" where
  "pile_values s = collect_ok (map (pile_lookup s) (pile_keys s))"

definition pile_items :: "'a pile \<Rightarrow> pyerr + (uuid \<times> 'a elem) list" where
  "pile_items s = map_sum id (zip (pile_keys s)) (pile_values s)"

definition pile_size :: "'a pile \<Rightarrow> nat" where
  "pile_size s = length (order (progression s))"

definition pile_is_empty :: "'a pile \<Rightarrow> bool" where
  "pile_is_empty s \<longleftrightarrow> pile_size s = 0"

definition pile_len :: "'a pile \<Rightarrow> nat" where
  "pile_len s = length (collections s)"

definition pile_contains :: "ref \<Rightarrow> 'a pile \<Rightarrow> bool" where
  "pile_contains r s = fst (pg_contains r (progression s))"

definition not_found :: "pyerr + 'b \<Rightarrow> pyerr + 'b" where
  "not_found r =
     (case r of
        Inl e \<Rightarrow> Inl (if e \<in> {IndexError, KeyError, ValueError, ItemNotFoundError}
                       then ItemNotFoundError else e)
      | Inr x \<Rightarrow> Inr x)"

text \<open>\<open>_getitem\<close> for an index, a slice or a reference.\<close>

fun getitem :: "pkey \<Rightarrow> 'a pile \<Rightarrow> pyerr + 'a got" where
  "getitem (KInt i) s =
     (case pg_getitem i (progression s) of
        Inl e \<Rightarrow> Inl e
      | Inr u \<Rightarrow> not_found (map_sum id One (pile_lookup s u)))"
| "getitem (KSlice sl) s =
     (case pg_getslice 0 sl (progression s) of
        Inl e \<Rightarrow> Inl e
      | Inr p \<Rightarrow>
          (case collect_ok (map (pile_lookup s) (order p)) of
             Inl e \<Rightarrow> not_found (Inl e)
           | Inr es \<Rightarrow> (case es of [e] \<Rightarrow> Inr (One e) | _ \<Rightarrow> Inr (Many es))))"
| "getitem (KRef RNone) s = Inl ValueError"
| "getitem (KRef (RUuid u)) s = not_found (map_sum id One (pile_lookup s u))"
| "getitem (KRef r) s =
     (case collect_ok (map (\<lambda>k. case get_id k of Inl e \<Rightarrow> Inl e | Inr u \<Rightarrow> pile_lookup s u)
             (to_list_ref r)) of
        Inl e \<Rightarrow> not_found (Inl e)
      | Inr es \<Rightarrow> got_of es)"

text \<open>
  \<open>_get\<close>: a list of plain integers is looked up by position, any other reference through
  \<open>validate_order\<close>; each position or id is read with \<open>self[k]\<close>.
\<close>

datatype gkey = GInt int | GSlice pslice | GInts "int list" | GRef ref

definition got_one :: "pyerr + 'a got \<Rightarrow> pyerr + 'a elem" where
  "got_one r = (case r of Inr (One e) \<Rightarrow> Inr e | Inr _ \<Rightarrow> Inl OtherException | Inl e \<Rightarrow> Inl e)"

fun get :: "gkey \<Rightarrow> bool \<Rightarrow> 'a pile \<Rightarrow> pyerr + 'a got" where
  "get (GInt i) dflt s = fst (or_default dflt (getitem (KInt i) s, ()))"
| "get (GSlice sl) dflt s = fst (or_default dflt (getitem (KSlice sl) s, ()))"
| "get (GInts is) dflt s =
     fst (or_default dflt
       (case collect_ok (map (\<lambda>i. got_one (getitem (KInt i) s)) is) of
          Inl e \<Rightarrow> Inl e | Inr es \<Rightarrow> got_of es, ()))"
| "get (GRef r) dflt s =
     fst (or_default dflt
       (case validate_order r of
          Inl e \<Rightarrow> Inl e
        | Inr us \<Rightarrow>
            (case collect_ok (map (\<lambda>u. got_one (getitem (KRef (RUuid u)) s)) us) of
               Inl e \<Rightarrow> Inl e | Inr es \<Rightarrow> got_of es), ()))"

section \<open>Writing\<close>

definition pile_include :: "'a itemarg list \<Rightarrow> 'a pile \<Rightarrow> (unit, 'a pile) eff" where
  "pile_include is s =
     (case validate_collections (item_type s) (strict_type s) is of
        Inl e \<Rightarrow> (Inl e, s)
      | Inr d \<Rightarrow>
          (case pg_include (RSeq (map RUuid (dkeys d))) (progression s) of
             (Inl e, p) \<Rightarrow> (Inl e, s\<lparr>progression := p\<rparr>)
           | (Inr _, p) \<Rightarrow> (Inr (), s\<lparr>progression := p, collections := dupdate (collections s) d\<rparr>)))"

text \<open>
  \<open>_pop\<close>.  For an index or a slice the ids come from \<open>self.progression[key]\<close>; a slice yields a new
  \<open>Progression\<close> object (of id \<open>u\<close>), and that object itself is what is then passed to \<open>exclude\<close>.
\<close>

fun pop :: "uuid \<Rightarrow> pkey \<Rightarrow> bool \<Rightarrow> 'a pile \<Rightarrow> ('a got, 'a pile) eff" where
  "pop u (KInt i) dflt s =
     or_default dflt
       (case pg_getitem i (progression s) of
          Inl e \<Rightarrow> (Inl e, s)
        | Inr k \<Rightarrow>
            (case pg_exclude (RSeq [RUuid k]) (progression s) of
               (Inl e, p) \<Rightarrow> (Inl e, s\<lparr>progression := p\<rparr>)
             | (Inr _, p) \<Rightarrow>
                 (case pop_keys [k] (collections s) of
                    (Inl e, d) \<Rightarrow> (Inl e, s\<lparr>progression := p, collections := d\<rparr>)
                  | (Inr es, d) \<Rightarrow> (Inr (One (hd es)), s\<lparr>progression := p, collections := d\<rparr>))))"
| "pop u (KSlice sl) dflt s =
     or_default dflt
       (case pg_getslice u sl (progression s) of
          Inl e \<Rightarrow> (Inl e, s)
        | Inr pops \<Rightarrow>
            (case pg_exclude (RObs (OUuid (pg_id pops))) (progression s) of
               (Inl e, p) \<Rightarrow> (Inl e, s\<lparr>progression := p\<rparr>)
             | (Inr _, p) \<Rightarrow>
                 (case pop_keys (order pops) (collections s) of
                    (Inl e, d) \<Rightarrow> (Inl e, s\<lparr>progression := p, collections := d\<rparr>)
                  | (Inr es, d) \<Rightarrow>
                      (let s' = s\<lparr>progression := p, collections := d\<rparr>
                       in if length es > 1
                          then (case pile_like u s es of
                                  Inl e \<Rightarrow> (Inl e, s')
                                | Inr q \<Rightarrow> (Inr (Many (map snd (collections q))), s'))
                          else (Inr (One (hd es)), s')))))"
| "pop u (KRef r) dflt s =
     or_default dflt
       (case validate_order r of
          Inl e \<Rightarrow> (Inl e, s)
        | Inr ks \<Rightarrow>
            (case pg_exclude (RSeq (map RUuid ks)) (progression s) of
               (Inl e, p) \<Rightarrow> (Inl e, s\<lparr>progression := p\<rparr>)
             | (Inr _, p) \<Rightarrow>
                 (case pop_keys ks (collections s) of
                    (Inl e, d) \<Rightarrow> (Inl e, s\<lparr>progression := p, collections := d\<rparr>)
                  | (Inr es, d) \<Rightarrow> (got_of es, s\<lparr>progression := p, collections := d\<rparr>))))"

text \<open>\<open>remove\<close> refuses an index or a slice and an item that is not in the pile.\<close>

definition pile_remove :: "pkey \<Rightarrow> 'a pile \<Rightarrow> (unit, 'a pile) eff" where
  "pile_remove k s =
     (case k of
        KRef r \<Rightarrow>
          if pile_contains r s
          then (case pop 0 (KRef r) False s of
                  (Inl e, s') \<Rightarrow> (Inl e, s') | (Inr _, s') \<Rightarrow> (Inr (), s'))
          else (Inl ItemNotFoundError, s)
      | _ \<Rightarrow> (Inl TypeError, s))"

definition pile_exclude :: "ref \<Rightarrow> 'a pile \<Rightarrow> (unit, 'a pile) eff" where
  "pile_exclude r s =
     (case filter (\<lambda>i. pile_contains i s) (to_list_ref r) of
        [] \<Rightarrow> (Inr (), s)
      | xs \<Rightarrow> (case pop 0 (KRef (RSeq xs)) False s of
                 (Inl e, s') \<Rightarrow> (Inl e, s') | (Inr _, s') \<Rightarrow> (Inr (), s')))"

definition pile_clear :: "'a pile \<Rightarrow> 'a pile" where
  "pile_clear s = s\<lparr>collections := [], progression := pg_clear (progression s)\<rparr>"

fun update_loop :: "'a elem list \<Rightarrow> 'a pile \<Rightarrow> (unit, 'a pile) eff" where
  "update_loop [] s = (Inr (), s)"
| "update_loop (e # es) s =
     (if dhas (collections s) (eid e)
      then update_loop es (s\<lparr>collections := dset (eid e) e (collections s)\<rparr>)
      else (case pile_include [IElem e] s of
              (Inl err, s') \<Rightarrow> (Inl err, s')
            | (Inr _, s') \<Rightarrow> update_loop es s'))"

definition pile_update :: "'a itemarg list \<Rightarrow> 'a pile \<Rightarrow> (unit, 'a pile) eff" where
  "pile_update is s =
     (case validate_collections (item_type s) (strict_type s) is of
        Inl e \<Rightarrow> (Inl e, s)
      | Inr d \<Rightarrow> update_loop (map snd d) s)"

definition pile_append :: "'a itemarg \<Rightarrow> 'a pile \<Rightarrow> (unit, 'a pile) eff" where
  "pile_append i s = pile_update [i] s"

definition pile_insert :: "int \<Rightarrow> 'a itemarg list \<Rightarrow> 'a pile \<Rightarrow> (unit, 'a pile) eff" where
  "pile_insert i is s =
     (case validate_collections (item_type s) (strict_type s) is of
        Inl e \<Rightarrow> (Inl e, s)
      | Inr d \<Rightarrow>
          if list_ex (\<lambda>k. pile_contains (RUuid k) s) (dkeys d) then (Inl ItemExistsError, s)
          else (case pg_insert i (RSeq (map RUuid (dkeys d))) (progression s) of
                  (Inl e, p) \<Rightarrow> (Inl e, s\<lparr>progression := p\<rparr>)
                | (Inr _, p) \<Rightarrow>
                    (Inr (), s\<lparr>progression := p, collections := dupdate (collections s) d\<rparr>)))"

text \<open>
  \<open>_setitem\<close> at an index or a slice: the ids found there are replaced in the progression by the new
  ids, then removed from the dict, then the new elements are added.  Any failure is a ValueError.
\<close>

definition replace_at ::
    "uuid list \<Rightarrow> (unit, progression) eff \<Rightarrow> 'a items \<Rightarrow> 'a pile \<Rightarrow> (unit, 'a pile) eff" where
  "replace_at old assigned d s =
     (case assigned of
        (Inl _, p) \<Rightarrow> (Inl ValueError, s\<lparr>progression := p\<rparr>)
      | (Inr _, p) \<Rightarrow>
          (case pop_keys old (collections s) of
             (Inl _, c) \<Rightarrow> (Inl ValueError, s\<lparr>progression := p, collections := c\<rparr>)
           | (Inr _, c) \<Rightarrow> (Inr (), s\<lparr>progression := p, collections := dupdate c d\<rparr>)))"

fun setitem :: "pkey \<Rightarrow> 'a itemarg list \<Rightarrow> 'a pile \<Rightarrow> (unit, 'a pile) eff" where
  "setitem k is s =
     (case validate_collections (item_type s) (strict_type s) is of
        Inl e \<Rightarrow> (Inl e, s)
      | Inr d \<Rightarrow>
          if list_ex (\<lambda>k. pile_contains (RUuid k) s) (dkeys d) then (Inl ItemExistsError, s)
          else (let new = RSeq (map RUuid (dkeys d))
                in (case k of
                      KInt i \<Rightarrow>
                        (case pg_getitem i (progression s) of
                           Inl _ \<Rightarrow> (Inl ValueError, s)
                         | Inr old \<Rightarrow>
                             replace_at [old] (pg_setitem i new (progression s)) d s)
                    | KSlice sl \<Rightarrow>
                        (case pg_getslice 0 sl (progression s) of
                           Inl _ \<Rightarrow> (Inl ValueError, s)
                         | Inr old \<Rightarrow>
                             replace_at (order old) (pg_setslice sl new (progression s)) d s)
                    | KRef r \<Rightarrow>
                        (let ks = to_list_ref r;
                             ks' = (case ks of
                                      RSeq _ # _ \<Rightarrow> concat (map (\<lambda>k. case k of RSeq xs \<Rightarrow> xs
                                                                       | RNone \<Rightarrow> [] | _ \<Rightarrow> [k]) ks)
                                    | _ \<Rightarrow> ks)
                         in if ks = [] then (Inl IndexError, s)
                            else if length ks' \<noteq> length d then (Inl KeyError, s)
                            else (case collect_ok (map get_id ks') of
                                    Inl e \<Rightarrow> (Inl e, s)
                                  | Inr us \<Rightarrow>
                                      if \<not> list_all (dhas d) us then (Inl KeyError, s)
                                      else (case pg_append (RSeq ks') (progression s) of
                                              (Inl e, p) \<Rightarrow> (Inl e, s\<lparr>progression := p\<rparr>)
                                            | (Inr _, p) \<Rightarrow>
                                                (Inr (), s\<lparr>progression := p,
                                                   collections := dupdate (collections s) d\<rparr>)))))))"

section \<open>Set operations, filters and dumping\<close>

text \<open>\<open>list(other)\<close> iterates the other pile, which may raise.\<close>

definition ior :: "'a pile \<Rightarrow> 'a pile \<Rightarrow> (unit, 'a pile) eff" where
  "ior s t =
     (case pile_values t of
        Inl e \<Rightarrow> (Inl e, s)
      | Inr es \<Rightarrow>
          (case validate_collections (item_type s) (strict_type s) (map IElem es) of
             Inl e \<Rightarrow> (Inl e, s)
           | Inr d \<Rightarrow> pile_include (map (IElem \<circ> snd) d) s))"

definition pile_or :: "uuid \<Rightarrow> 'a pile \<Rightarrow> 'a pile \<Rightarrow> pyerr + 'a pile" where
  "pile_or u s t =
     (case pile_values s of
        Inl e \<Rightarrow> Inl e
      | Inr es \<Rightarrow>
          (case validate_collections (item_type s) (strict_type s) (map IElem es) of
             Inl e \<Rightarrow> Inl e
           | Inr d \<Rightarrow>
               (case validate_progression u (OList (map RUuid (order (progression s)))) d of
                  Inl e \<Rightarrow> Inl e
                | Inr p \<Rightarrow>
                    (let r = \<lparr>collections = d, item_type = item_type s, progression = p,
                              strict_type = strict_type s\<rparr>
                     in (case pile_values t of
                           Inl e \<Rightarrow> Inl e
                         | Inr fs \<Rightarrow>
                             (case pile_include (map IElem fs) r of
                                (Inl e, _) \<Rightarrow> Inl e | (Inr _, r') \<Rightarrow> Inr r'))))))"

definition elem_ref :: "'a elem \<Rightarrow> ref" where
  "elem_ref e = RObs (OUuid (eid e))"

definition ixor :: "'a pile \<Rightarrow> 'a pile \<Rightarrow> (unit, 'a pile) eff" where
  "ixor s t =
     (case pile_values t of
        Inl e \<Rightarrow> (Inl e, s)
      | Inr es \<Rightarrow>
          (let common = filter (\<lambda>e. pile_contains (elem_ref e) s) es;
               rest = filter (\<lambda>e. eid e \<notin> set (map eid common)) es
           in (case pile_exclude (RSeq (map elem_ref common)) s of
                 (Inl e, s1) \<Rightarrow> (Inl e, s1)
               | (Inr _, s1) \<Rightarrow> pile_include (map IElem rest) s1)))"

definition pile_xor :: "uuid \<Rightarrow> 'a pile \<Rightarrow> 'a pile \<Rightarrow> pyerr + 'a pile" where
  "pile_xor u s t =
     (case pile_values t of
        Inl e \<Rightarrow> Inl e
      | Inr fs \<Rightarrow>
          (case pile_values s of
             Inl e \<Rightarrow> Inl e
           | Inr es \<Rightarrow>
               (let common = map eid (filter (\<lambda>e. pile_contains (elem_ref e) s) fs)
                in pile_like u s (filter (\<lambda>e. eid e \<notin> set common) es
                                  @ filter (\<lambda>e. eid e \<notin> set common) fs))))"

definition iand :: "'a pile \<Rightarrow> 'a pile \<Rightarrow> (unit, 'a pile) eff" where
  "iand s t =
     (case pile_values s of
        Inl e \<Rightarrow> (Inl e, s)
      | Inr es \<Rightarrow>
          pile_exclude (RSeq (map elem_ref (filter (\<lambda>e. \<not> pile_contains (elem_ref e) t) es))) s)"

definition pile_and :: "uuid \<Rightarrow> 'a pile \<Rightarrow> 'a pile \<Rightarrow> pyerr + 'a pile" where
  "pile_and u s t =
     (case pile_values s of
        Inl e \<Rightarrow> Inl e
      | Inr es \<Rightarrow> pile_like u s (filter (\<lambda>e. pile_contains (elem_ref e) t) es))"

definition pile_filter :: "uuid \<Rightarrow> ('a elem \<Rightarrow> bool) \<Rightarrow> 'a pile \<Rightarrow> pyerr + 'a pile" where
  "pile_filter u P s =
     (case pile_values s of Inl e \<Rightarrow> Inl e | Inr es \<Rightarrow> pile_like u s (filter P es))"

definition has_type :: "string set \<Rightarrow> bool \<Rightarrow> 'a elem \<Rightarrow> bool" where
  "has_type T strict e = (if strict then etype e \<in> T else list_ex (\<lambda>c. c \<in> T) (emro e))"

text \<open>The loop of \<open>filter_by_type\<close>: the count is compared after each item, whether it matched or not.\<close>

fun type_loop ::
    "string set \<Rightarrow> bool \<Rightarrow> int option \<Rightarrow> 'a pile \<Rightarrow> uuid list \<Rightarrow> 'a elem list \<Rightarrow> pyerr + 'a elem list" where
  "type_loop T strict num s [] out = Inr out"
| "type_loop T strict num s (k # ks) out =
     (case pile_lookup s k of
        Inl e \<Rightarrow> Inl e
      | Inr x \<Rightarrow>
          (let out' = (if has_type T strict x then out @ [x] else out)
           in if num = Some (int (length out')) then Inr out'
              else type_loop T strict num s ks out'))"

definition filter_by_type ::
    "string set \<Rightarrow> bool \<Rightarrow> bool \<Rightarrow> int option \<Rightarrow> 'a pile \<Rightarrow> pyerr + 'a elem list" where
  "filter_by_type T strict reverse num s =
     type_loop T strict num s (if reverse then rev (pile_keys s) else pile_keys s) []"

text \<open>
  The second half of \<open>adump(clear=True)\<close>: the ids recorded when the snapshot was taken are removed from
  whatever the pile is by then (\<open>pop(uid, None)\<close> tolerates the ones already gone).
\<close>

definition adump_clear :: "uuid list \<Rightarrow> 'a pile \<Rightarrow> 'a pile" where
  "adump_clear snapshot s =
     s\<lparr>progression := snd (pg_exclude (RSeq (map RUuid snapshot)) (progression s)),
       collections := fold ddel snapshot (collections s)\<rparr>"

text \<open>The header of the CSV serialisation: the keys of all records, first occurrence first.\<close>

fun csv_header :: "string list list \<Rightarrow> string list \<Rightarrow> string list" where
  "csv_header [] seen = seen"
| "csv_header (r # rs) seen =
     csv_header rs (fold (\<lambda>k acc. if k \<in> set acc then acc else acc @ [k]) r seen)"

section \<open>Agreement of the dict and the progression\<close>

definition well_keyed :: "'a items \<Rightarrow> bool" where
  "well_keyed d \<longleftrightarrow> distinct (dkeys d) \<and> list_all (\<lambda>(k, e). eid e = k) d"

definition wf_pile :: "'a pile \<Rightarrow> bool" where
  "wf_pile s \<longleftrightarrow>
     well_keyed (collections s) \<and> synced (progression s) \<and> distinct (order (progression s)) \<and>
     set (order (progression s)) = set (dkeys (collections s))"

text \<open>The elements of a pile in its order: what the pile is an implementation of.\<close>

definition elems :: "'a pile \<Rightarrow> 'a elem list" where
  "elems s = map (\<lambda>k. the (dget (collections s) k)) (pile_keys s)"

lemma well_keyed_Nil [simp]: "well_keyed []"
  by (simp add: well_keyed_def)

lemma well_keyed_distinct [simp]: "well_keyed d \<Longrightarrow> distinct (dkeys d)"
  by (simp add: well_keyed_def)

lemma well_keyed_eid: "well_keyed d \<Longrightarrow> dget d k = Some e \<Longrightarrow> eid e = k"
  by (auto simp: well_keyed_def list_all_iff dest: map_of_SomeD)

lemma well_keyedI:
  assumes "distinct (dkeys d)" and eid: "\<And>k e. dget d k = Some e \<Longrightarrow> eid e = k"
  shows "well_keyed d"
proof -
  have "eid e = k" if "(k, e) \<in> set d" for k e
    by (rule eid) (rule map_of_is_SomeI[OF assms(1) that])
  then show ?thesis using assms(1) by (auto simp: well_keyed_def list_all_iff)
qed

lemma well_keyed_dset [simp]: "well_keyed d \<Longrightarrow> eid e = k \<Longrightarrow> well_keyed (dset k e d)"
  by (rule well_keyedI) (auto simp: well_keyed_eid split: if_splits)

lemma well_keyed_ddel [simp]: "well_keyed d \<Longrightarrow> well_keyed (ddel k d)"
  by (rule well_keyedI) (auto simp: well_keyed_eid split: if_splits)

lemma well_keyed_dupdate [simp]: "well_keyed d \<Longrightarrow> well_keyed e \<Longrightarrow> well_keyed (dupdate d e)"
  by (rule well_keyedI) (simp, simp split: option.splits add: well_keyed_eid)

lemma well_keyed_eids: "well_keyed d \<Longrightarrow> map (eid \<circ> snd) d = dkeys d"
  by (auto simp: well_keyed_def list_all_iff)

lemma validate_items_keyed:
  "validate_items ty strict is acc = Inr d \<Longrightarrow> well_keyed acc \<Longrightarrow> well_keyed d"
  by (induction ty strict "is" acc rule: validate_items.induct) (auto split: sum.splits)

lemma validate_collections_keyed: "validate_collections ty strict is = Inr d \<Longrightarrow> well_keyed d"
  unfolding validate_collections_def by (erule validate_items_keyed) simp

lemma admit_ok: "admit ty strict i = Inr e \<Longrightarrow> type_ok ty strict (emro e)"
  by (cases "(ty, strict, i)" rule: admit.cases) (auto split: if_splits)

lemma validate_items_types:
  "validate_items ty strict is acc = Inr d \<Longrightarrow> list_all (\<lambda>(_, e). type_ok ty strict (emro e)) acc
    \<Longrightarrow> distinct (dkeys acc) \<Longrightarrow> list_all (\<lambda>(_, e). type_ok ty strict (emro e)) d"
proof (induction ty strict "is" acc rule: validate_items.induct)
  case (2 ty strict i "is" acc)
  then obtain x where x: "admit ty strict i = Inr x" by (auto split: sum.splits)
  have "list_all (\<lambda>(_, e). type_ok ty strict (emro e)) (dset (eid x) x acc)"
  proof -
    have "(k, e) \<in> set acc \<or> e = x" if "(k, e) \<in> set (dset (eid x) x acc)" for k e
      using that "2.prems"(3) by (metis dget_dset distinct_dset map_of_SomeD map_of_is_SomeI option.inject)
    then show ?thesis using "2.prems"(2) admit_ok[OF x] by (fastforce simp: list_all_iff)
  qed
  then show ?case using 2 x by simp
qed simp

lemma validate_items_elems:
  "validate_items ty strict (map IElem es) acc =
     (if list_all (\<lambda>e. type_ok ty strict (emro e)) es
      then Inr (fold (\<lambda>e d. dset (eid e) e d) es acc) else Inl ValidationError)"
  by (induction es arbitrary: acc) auto

lemma validate_collections_one:
  "validate_collections ty strict [IElem e] =
     (if type_ok ty strict (emro e) then Inr [(eid e, e)] else Inl ValidationError)"
  by (simp add: validate_collections_def)

lemma wf_pileD:
  assumes "wf_pile s"
  shows "well_keyed (collections s)" "synced (progression s)" "distinct (order (progression s))"
    "set (order (progression s)) = fst ` set (collections s)"
  using assms by (simp_all add: wf_pile_def)

lemma pile_contains_wf:
  "wf_pile s \<Longrightarrow> pile_contains r s =
     (case validate_order r of Inl _ \<Rightarrow> False | Inr us \<Rightarrow> set us \<subseteq> fst ` set (collections s))"
  by (auto simp: pile_contains_def pg_contains_spec wf_pileD(2,4) split: sum.split)

lemma pile_keys_wf: "wf_pile s \<Longrightarrow> set (pile_keys s) = fst ` set (collections s)"
  by (simp add: pile_keys_def wf_pileD)

lemma collect_ok_lookup:
  "list_all (dhas (collections s)) ks \<Longrightarrow>
   collect_ok (map (pile_lookup s) ks) = Inr (map (\<lambda>k. the (dget (collections s) k)) ks)"
proof (induction ks)
  case (Cons k ks)
  then obtain e where "dget (collections s) k = Some e" by (auto simp: dget_Some_iff simp del: set_map)
  with Cons show ?case by (simp add: pile_lookup_def)
qed simp

lemma pile_values_wf: "wf_pile s \<Longrightarrow> pile_values s = Inr (elems s)"
  unfolding pile_values_def elems_def
  by (rule collect_ok_lookup) (simp add: list_all_iff pile_keys_wf)

lemma elems_eids: "wf_pile s \<Longrightarrow> map eid (elems s) = pile_keys s"
proof -
  assume wf: "wf_pile s"
  have "eid (the (dget (collections s) k)) = k" if "k \<in> set (pile_keys s)" for k
  proof -
    have "dhas (collections s) k" using that wf by (simp add: pile_keys_wf)
    then obtain e where "dget (collections s) k = Some e" by (metis dget_Some_iff)
    then show ?thesis using well_keyed_eid wf_pileD(1)[OF wf] by fastforce
  qed
  then show ?thesis by (auto simp: elems_def intro: map_idI)
qed

lemma wf_pile_sizes: "wf_pile s \<Longrightarrow> pile_len s = pile_size s"
  by (metis distinct_card length_dkeys_set pile_len_def pile_size_def well_keyed_distinct wf_pileD)

lemma dhas_fold_ddel: "dget (fold ddel ks d) k = (if k \<in> set ks then None else dget d k)"
  by (induction ks arbitrary: d) auto

lemma keys_fold_ddel: "fst ` set (fold ddel ks d) = fst ` set d - set ks"
  by (induction ks arbitrary: d) auto

lemma well_keyed_fold_ddel [simp]: "well_keyed d \<Longrightarrow> well_keyed (fold ddel ks d)"
  by (induction ks arbitrary: d) auto

lemma pop_keys_ok:
  "distinct ks \<Longrightarrow> set ks \<subseteq> fst ` set d \<Longrightarrow>
   pop_keys ks d = (Inr (map (\<lambda>k. the (dget d k)) ks), fold ddel ks d)"
proof (induction ks arbitrary: d)
  case (Cons k ks)
  then obtain e where e: "dget d k = Some e"
    by (metis dget_Some_iff insert_subset list.set_map list.simps(15))
  have "pop_keys ks (ddel k d) = (Inr (map (\<lambda>k'. the (dget (ddel k d) k')) ks), fold ddel ks (ddel k d))"
    using Cons by (intro Cons.IH) auto
  moreover have "map (\<lambda>k'. the (dget (ddel k d) k')) ks = map (\<lambda>k. the (dget d k)) ks"
    using Cons.prems(1) by auto
  ultimately show ?case using e by simp
qed simp

subsection \<open>The operations keep it\<close>

lemma wf_pileI:
  "well_keyed (collections s) \<Longrightarrow> synced (progression s) \<Longrightarrow> distinct (order (progression s)) \<Longrightarrow>
   set (order (progression s)) = fst ` set (collections s) \<Longrightarrow> wf_pile s"
  by (simp add: wf_pile_def)

text \<open>The common shape of the writers: a new dict and a new progression for it.\<close>

lemma wf_pile_update:
  assumes "well_keyed d" "synced p" "distinct (order p)" "set (order p) = fst ` set d"
  shows "wf_pile (s\<lparr>progression := p, collections := d\<rparr>)"
  using assms by (intro wf_pileI) simp_all

lemma pile_include_result:
  assumes "wf_pile s" "validate_collections (item_type s) (strict_type s) is = Inr d"
  shows "fst (pile_include is s) = Inr ()"
    "collections (snd (pile_include is s)) = dupdate (collections s) d"
    "pile_keys (snd (pile_include is s)) =
       pile_keys s @ filter (\<lambda>k. k \<notin> set (pile_keys s)) (dkeys d)"
    "item_type (snd (pile_include is s)) = item_type s"
    "strict_type (snd (pile_include is s)) = strict_type s"
    "wf_pile (snd (pile_include is s))"
proof -
  note wf = wf_pileD[OF assms(1)]
  have kd: "well_keyed d" using assms(2) by (rule validate_collections_keyed)
  obtain b p where inc: "pg_include (RSeq (map RUuid (dkeys d))) (progression s) = (b, p)"
    by fastforce
  note ord = pg_include_order[OF synced_members_ok[OF wf(2)] validate_order_uuids[of "dkeys d"],
      unfolded inc fst_conv snd_conv]
  have eq: "pile_include is s = (Inr (), s\<lparr>progression := p, collections := dupdate (collections s) d\<rparr>)"
    using assms(2) inc ord(2) by (simp add: pile_include_def)
  have op: "order p = order (progression s) @ filter (\<lambda>k. k \<notin> set (order (progression s))) (dkeys d)"
    using ord(1) fresh_ids_distinct[OF well_keyed_distinct[OF kd]] by simp
  show "fst (pile_include is s) = Inr ()"
    "collections (snd (pile_include is s)) = dupdate (collections s) d"
    "pile_keys (snd (pile_include is s)) =
       pile_keys s @ filter (\<lambda>k. k \<notin> set (pile_keys s)) (dkeys d)"
    "item_type (snd (pile_include is s)) = item_type s"
    "strict_type (snd (pile_include is s)) = strict_type s"
    using eq op by (simp_all add: pile_keys_def)
  show "wf_pile (snd (pile_include is s))"
    unfolding eq snd_conv
    using ord(3) op wf kd well_keyed_distinct[OF kd]
    by (intro wf_pile_update) (auto intro: distinct_filter)
qed

lemma wf_pile_include [intro]: "wf_pile s \<Longrightarrow> wf_pile (snd (pile_include is s))"
proof (cases "validate_collections (item_type s) (strict_type s) is")
  case (Inl e)
  then show "wf_pile s \<Longrightarrow> ?thesis" by (simp add: pile_include_def)
next
  case (Inr d)
  then show "wf_pile s \<Longrightarrow> ?thesis" using pile_include_result(6) by blast
qed

lemma pile_include_one:
  assumes "wf_pile s" "type_ok (item_type s) (strict_type s) (emro e)"
  shows "fst (pile_include [IElem e] s) = Inr ()"
    "collections (snd (pile_include [IElem e] s)) = dset (eid e) e (collections s)"
    "pile_keys (snd (pile_include [IElem e] s)) =
       pile_keys s @ (if eid e \<in> set (pile_keys s) then [] else [eid e])"
  using pile_include_result[OF assms(1), of "[IElem e]" "[(eid e, e)]"] assms(2)
  by (simp_all add: validate_collections_one)

lemma wf_replace_same:
  "wf_pile s \<Longrightarrow> eid e \<in> fst ` set (collections s) \<Longrightarrow>
   wf_pile (s\<lparr>collections := dset (eid e) e (collections s)\<rparr>)"
  by (intro wf_pileI) (auto simp: wf_pileD)

lemma wf_update_loop: "wf_pile s \<Longrightarrow> wf_pile (snd (update_loop es s))"
proof (induction es s rule: update_loop.induct)
  case (2 e es s)
  show ?case
  proof (cases "dhas (collections s) (eid e)")
    case True
    then show ?thesis using 2 wf_replace_same by auto
  next
    case False
    then show ?thesis
      using 2 wf_pile_include[OF "2.prems", of "[IElem e]"]
      by (auto split: prod.split sum.split)
  qed
qed simp

lemma wf_pile_update_op [intro]: "wf_pile s \<Longrightarrow> wf_pile (snd (pile_update is s))"
  by (auto simp: pile_update_def wf_update_loop split: sum.split)

lemma synced_fold_insert:
  "synced p \<Longrightarrow> synced (snd (pg_insert i (RSeq (map RUuid us)) p))"
  by (rule pg_insert_last(2)) simp_all

lemma pg_insert_set:
  assumes "validate_order r = Inr us"
  shows "set (order (snd (pg_insert i r p))) = set us \<union> set (order p)"
    "distinct us \<Longrightarrow> distinct (order p) \<Longrightarrow> set us \<inter> set (order p) = {} \<Longrightarrow>
       distinct (order (snd (pg_insert i r p)))"
proof -
  have ms: "mset (py_insert i x xs) = add_mset x (mset xs)" for x and xs :: "uuid list"
    by (simp add: py_insert_def Let_def) (metis append_take_drop_id mset_append union_commute)
  have m: "mset (fold (py_insert i) vs xs) = mset vs + mset xs" for vs xs :: "uuid list"
    by (induction vs arbitrary: xs) (simp_all add: ms)
  have o: "mset (order (snd (pg_insert i r p))) = mset (us @ order p)"
    using assms by (simp add: pg_insert_def Let_def order_fold_insert m)
  then show "set (order (snd (pg_insert i r p))) = set us \<union> set (order p)"
    by (metis set_append set_mset_mset)
  show "distinct us \<Longrightarrow> distinct (order p) \<Longrightarrow> set us \<inter> set (order p) = {} \<Longrightarrow>
       distinct (order (snd (pg_insert i r p)))"
    using mset_eq_imp_distinct_iff[OF o] by simp
qed

lemma wf_pile_insert [intro]:
  assumes "wf_pile s"
  shows "wf_pile (snd (pile_insert i is s))"
proof (cases "validate_collections (item_type s) (strict_type s) is")
  case (Inl e)
  then show ?thesis using assms by (simp add: pile_insert_def)
next
  case (Inr d)
  note wf = wf_pileD[OF assms]
  have kd: "well_keyed d" using Inr by (rule validate_collections_keyed)
  show ?thesis
  proof (cases "list_ex (\<lambda>k. pile_contains (RUuid k) s) (dkeys d)")
    case True
    then show ?thesis using Inr assms by (simp add: pile_insert_def)
  next
    case False
    then have new: "set (dkeys d) \<inter> set (order (progression s)) = {}"
      using assms wf(4) by (auto simp: list_ex_iff pile_contains_wf)
    note v = validate_order_uuids[of "dkeys d"]
    obtain r p where ins: "pg_insert i (RSeq (map RUuid (dkeys d))) (progression s) = (r, p)"
      by fastforce
    have r: "r = Inr ()" and sp: "synced p"
      and op: "set (order p) = set (dkeys d) \<union> set (order (progression s))" "distinct (order p)"
      using pg_insert_last(2,3)[OF wf(2) v, where i = i] pg_insert_set[OF v, where i = i and p = "progression s"]
        wf(3) new kd ins by auto
    have "pile_insert i is s =
        (Inr (), s\<lparr>progression := p, collections := dupdate (collections s) d\<rparr>)"
      using Inr False ins r by (simp add: pile_insert_def)
    moreover have "wf_pile (s\<lparr>progression := p, collections := dupdate (collections s) d\<rparr>)"
      using wf kd sp op by (intro wf_pile_update) auto
    ultimately show ?thesis by simp
  qed
qed

lemma pile_insert_end:
  assumes "wf_pile s" "type_ok (item_type s) (strict_type s) (emro e)" "eid e \<notin> set (pile_keys s)"
  shows "fst (pile_insert (int (pile_len s)) [IElem e] s) = Inr ()"
    "collections (snd (pile_insert (int (pile_len s)) [IElem e] s)) = dset (eid e) e (collections s)"
    "pile_keys (snd (pile_insert (int (pile_len s)) [IElem e] s)) = pile_keys s @ [eid e]"
proof -
  note wf = wf_pileD[OF assms(1)]
  have len: "pile_len s = length (order (progression s))"
    using wf_pile_sizes[OF assms(1)] by (simp add: pile_size_def)
  have nc: "\<not> pile_contains (RUuid (eid e)) s"
    using assms(1,3) by (simp add: pile_contains_wf pile_keys_wf)
  obtain r p where ins: "pg_insert (int (pile_len s)) (RSeq [RUuid (eid e)]) (progression s) = (r, p)"
    by fastforce
  have "r = Inr ()" "order p = order (progression s) @ [eid e]"
    using pg_insert_last(1)[OF wf(2), of "RSeq [RUuid (eid e)]" "[eid e]"]
      pg_insert_last(3)[OF wf(2), of "RSeq [RUuid (eid e)]" "[eid e]" "int (pile_len s)"] ins len
    by auto
  then show "fst (pile_insert (int (pile_len s)) [IElem e] s) = Inr ()"
    "collections (snd (pile_insert (int (pile_len s)) [IElem e] s)) = dset (eid e) e (collections s)"
    "pile_keys (snd (pile_insert (int (pile_len s)) [IElem e] s)) = pile_keys s @ [eid e]"
    using assms(2) nc ins
    by (simp_all add: pile_insert_def validate_collections_one pile_keys_def)
qed

text \<open>Removing ids from the dict and from the progression together.\<close>

lemma exclude_nonempty:
  "validate_order r = Inr us \<Longrightarrow> us \<noteq> [] \<Longrightarrow>
   pg_exclude r p = (Inr (length (order (drop_ids us p)) < length (order p)), drop_ids us p)"
  by (simp add: pg_exclude_def Let_def)

definition without :: "uuid list \<Rightarrow> 'a pile \<Rightarrow> 'a pile" where
  "without ks s =
     s\<lparr>progression := (if ks = [] then progression s else drop_ids ks (progression s)),
       collections := fold ddel ks (collections s)\<rparr>"

lemma wf_without [intro]: "wf_pile s \<Longrightarrow> wf_pile (without ks s)"
  unfolding without_def
  by (rule wf_pile_update) (auto simp: wf_pileD keys_fold_ddel)

lemma pile_keys_without [simp]:
  "pile_keys (without ks s) = filter (\<lambda>k. k \<notin> set ks) (pile_keys s)"
  by (simp add: without_def pile_keys_def)

lemma dget_without [simp]:
  "dget (collections (without ks s)) k = (if k \<in> set ks then None else dget (collections s) k)"
  by (simp add: without_def dhas_fold_ddel)

lemma without_types [simp]:
  "item_type (without ks s) = item_type s" "strict_type (without ks s) = strict_type s"
  by (simp_all add: without_def)

lemma pop_refs_result:
  assumes "wf_pile s" "validate_order r = Inr ks" "distinct ks" "set ks \<subseteq> set (pile_keys s)"
  shows "pop u (KRef r) dflt s =
    or_default dflt (got_of (map (\<lambda>k. the (dget (collections s) k)) ks), without ks s)"
proof -
  have "pop_keys ks (collections s) =
      (Inr (map (\<lambda>k. the (dget (collections s) k)) ks), fold ddel ks (collections s))"
    using assms(3,4) pile_keys_wf[OF assms(1)] by (intro pop_keys_ok) simp_all
  then show ?thesis
    using assms(2) by (cases "ks = []") (simp_all add: exclude_nonempty without_def pg_exclude_def)
qed

lemma pop_one_result:
  assumes "wf_pile s" "dget (collections s) k = Some e"
  shows "pop u (KRef (RUuid k)) dflt s = (Inr (One e), without [k] s)"
proof -
  have "k \<in> set (pile_keys s)" using dgetD[OF assms(2)] by (simp add: pile_keys_wf[OF assms(1)])
  then have "pop u (KRef (RUuid k)) dflt s =
      or_default dflt (got_of (map (\<lambda>k. the (dget (collections s) k)) [k]), without [k] s)"
    by (intro pop_refs_result[OF assms(1)]) simp_all
  then show ?thesis using assms(2) by (simp add: got_of_def or_default_def)
qed

lemma wf_pop_one [intro]: "wf_pile s \<Longrightarrow> wf_pile (snd (pop u (KRef (RUuid k)) dflt s))"
proof (cases "dget (collections s) k")
  case None
  assume wf: "wf_pile s"
  have pk: "pop_keys [k] (collections s) = (Inl KeyError, collections s)" using None by simp
  have "snd (pop u (KRef (RUuid k)) dflt s) =
      s\<lparr>progression := drop_ids [k] (progression s), collections := collections s\<rparr>"
    using pk by (simp add: exclude_nonempty[of _ "[k]"] or_default_def del: pop_keys.simps)
  moreover have "k \<notin> fst ` set (collections s)" using None by (simp add: map_of_eq_None_iff)
  then have "wf_pile (s\<lparr>progression := drop_ids [k] (progression s), collections := collections s\<rparr>)"
    using wf_pileD[OF wf] by (intro wf_pile_update) auto
  ultimately show ?thesis by simp
next
  case (Some e)
  then show "wf_pile s \<Longrightarrow> ?thesis" using pop_one_result wf_without by fastforce
qed

lemma wf_pop_index [intro]: "wf_pile s \<Longrightarrow> wf_pile (snd (pop u (KInt i) dflt s))"
proof -
  assume wf: "wf_pile s"
  show ?thesis
  proof (cases "pg_getitem i (progression s)")
    case (Inl e)
    then show ?thesis using wf by (simp add: or_default_def)
  next
    case (Inr k)
    then obtain j where "j < length (order (progression s))" "k = order (progression s) ! j"
      by (auto simp: pg_getitem_def py_get_def split: option.splits dest: py_idx_less)
    then have "k \<in> fst ` set (collections s)" using wf_pileD(4)[OF wf] by fastforce
    then have pk: "pop_keys [k] (collections s) =
        (Inr [the (dget (collections s) k)], ddel k (collections s))"
      using pop_keys_ok[of "[k]" "collections s"] by simp
    have "snd (pop u (KInt i) dflt s) = without [k] s"
      using Inr pk
      by (simp add: or_default_def without_def exclude_nonempty[of _ "[k]"] del: pop_keys.simps)
    then show ?thesis using wf_without[OF wf] by simp
  qed
qed

lemma pg_clear_synced: "members_ok p \<Longrightarrow> synced p \<Longrightarrow> synced (pg_clear p) \<and> order (pg_clear p) = []"
  by (auto simp: pg_clear_def md_clear_def md_sync_def synced_def)

lemma wf_pile_clear [intro]: "wf_pile s \<Longrightarrow> wf_pile (pile_clear s)"
proof -
  assume "wf_pile s"
  then have "synced (pg_clear (progression s)) \<and> order (pg_clear (progression s)) = []"
    by (intro pg_clear_synced) (simp_all add: wf_pileD)
  then show ?thesis by (intro wf_pileI) (simp_all add: pile_clear_def)
qed

lemma adump_clear_without: "adump_clear ks s = without ks s"
  by (simp add: adump_clear_def without_def exclude_nonempty) (simp add: pg_exclude_def)

lemma ids_of_elem_refs [simp]:
  "collect_ok (map (ids_of \<circ> elem_ref) es) = Inr (map (\<lambda>e. [eid e]) es)"
  by (induction es) (auto simp: elem_ref_def)

lemma concat_eids [simp]: "concat (map (\<lambda>e. [eid e]) es) = map eid es"
  by (induction es) simp_all

lemma validate_elem_refs: "validate_order (RSeq (map elem_ref es)) = Inr (map eid es)"
  by simp

lemma pile_contains_elem [simp]:
  "wf_pile s \<Longrightarrow> pile_contains (elem_ref e) s \<longleftrightarrow> eid e \<in> set (pile_keys s)"
  by (simp add: pile_contains_wf elem_ref_def pile_keys_wf)

lemma pile_exclude_elems:
  assumes "wf_pile s" "distinct (map eid es)"
  shows "snd (pile_exclude (RSeq (map elem_ref es)) s) =
    without (map eid (filter (\<lambda>e. eid e \<in> set (pile_keys s)) es)) s"
    "fst (pile_exclude (RSeq (map elem_ref es)) s) = Inr ()"
proof -
  let ?in = "filter (\<lambda>e. eid e \<in> set (pile_keys s)) es"
  have f: "filter (\<lambda>i. pile_contains i s) (map elem_ref es) = map elem_ref ?in"
    using assms(1) by (simp add: filter_map o_def)
  have d: "distinct (map eid ?in)" using assms(2) by (rule distinct_map_filter)
  have w0: "without [] s = s" by (simp add: without_def)
  have p: "pop 0 (KRef (RSeq (map elem_ref ?in))) False s =
      or_default False (got_of (map (\<lambda>k. the (dget (collections s) k)) (map eid ?in)),
        without (map eid ?in) s)"
    using d by (intro pop_refs_result[OF assms(1)]) auto
  have got: "\<exists>x. got_of xs = Inr x" if "xs \<noteq> []" for xs :: "'a elem list"
    using that by (auto simp: got_of_def split: list.split)
  show "snd (pile_exclude (RSeq (map elem_ref es)) s) = without (map eid ?in) s"
    "fst (pile_exclude (RSeq (map elem_ref es)) s) = Inr ()"
    using got[of "map (\<lambda>k. the (dget (collections s) k)) (map eid ?in)"] p w0
    by (cases "?in"; auto simp: pile_exclude_def to_list_ref_def f or_default_def simp del: pop.simps)+
qed

subsection \<open>Any sequence of calls\<close>

text \<open>
  A reference whose ids are each named once.  \<open>pop\<close> takes its ids out of the order together but out of
  the dict one by one, so the ids of a reference to several must moreover all be in the pile; \<open>exclude\<close>
  selects those first.
\<close>

definition names_once :: "ref \<Rightarrow> bool" where
  "names_once r \<longleftrightarrow> (case validate_order r of Inl _ \<Rightarrow> True | Inr us \<Rightarrow> distinct us)"

definition all_there :: "ref \<Rightarrow> 'a pile \<Rightarrow> bool" where
  "all_there r s \<longleftrightarrow>
     (case validate_order r of Inl _ \<Rightarrow> True | Inr us \<Rightarrow> length us \<le> 1 \<or> set us \<subseteq> set (pile_keys s))"

datatype 'a pile_op =
    PlInclude "'a itemarg list" | PlUpdate "'a itemarg list" | PlAppend "'a itemarg"
  | PlInsert int "'a itemarg list" | PlPopIndex int bool | PlPop ref bool | PlRemove pkey | PlExclude ref
  | PlClear | PlDumpClear "uuid list" | PlIor "'a pile" | PlIand "'a pile"

fun pile_step :: "'a pile \<Rightarrow> 'a pile_op \<Rightarrow> 'a pile" where
  "pile_step s (PlInclude is) = snd (pile_include is s)"
| "pile_step s (PlUpdate is) = snd (pile_update is s)"
| "pile_step s (PlAppend i) = snd (pile_append i s)"
| "pile_step s (PlInsert i is) = snd (pile_insert i is s)"
| "pile_step s (PlPopIndex i d) = snd (pop 0 (KInt i) d s)"
| "pile_step s (PlPop r d) = snd (pop 0 (KRef r) d s)"
| "pile_step s (PlRemove k) = snd (pile_remove k s)"
| "pile_step s (PlExclude r) = snd (pile_exclude r s)"
| "pile_step s PlClear = pile_clear s"
| "pile_step s (PlDumpClear ks) = adump_clear ks s"
| "pile_step s (PlIor t) = snd (ior s t)"
| "pile_step s (PlIand t) = snd (iand s t)"

fun clean_call :: "'a pile \<Rightarrow> 'a pile_op \<Rightarrow> bool" where
  "clean_call s (PlPop r d) \<longleftrightarrow> names_once r \<and> all_there r s"
| "clean_call s (PlRemove (KRef r)) \<longleftrightarrow> names_once r"
| "clean_call s (PlExclude r) \<longleftrightarrow> names_once (RSeq (filter (\<lambda>i. pile_contains i s) (to_list_ref r)))"
| "clean_call s _ \<longleftrightarrow> True"

text \<open>
  The orders a new pile may be given: none, a progression in step with itself, ids each named once
  (two different references to one id would pass \<open>_validate_order\<close>).
\<close>

fun clean_order :: "order_arg \<Rightarrow> bool" where
  "clean_order ONone \<longleftrightarrow> True"
| "clean_order (OProg p) \<longleftrightarrow> synced p"
| "clean_order (ODict (Some p) rs) \<longleftrightarrow> synced p"
| "clean_order (ODict None rs) \<longleftrightarrow> names_once (RSeq rs)"
| "clean_order (OList rs) \<longleftrightarrow> names_once (RSeq rs)"

text \<open>The piles that can be built: \<open>^=\<close> needs the other pile to be built in the same way.\<close>

inductive pile_built :: "'a pile \<Rightarrow> bool" where
  fresh: "mk_pile u is ts ord strict = Inr s \<Longrightarrow> clean_order ord \<Longrightarrow> pile_built s"
| call: "pile_built s \<Longrightarrow> clean_call s op \<Longrightarrow> pile_built (pile_step s op)"
| symmetric_difference: "pile_built s \<Longrightarrow> pile_built t \<Longrightarrow> pile_built (snd (ixor s t))"

lemma distinct_elems: "wf_pile s \<Longrightarrow> distinct (map eid (elems s))"
  by (simp add: elems_eids) (simp add: pile_keys_def wf_pileD)

lemma wf_pop_ref:
  assumes wf: "wf_pile s" and once: "names_once r" and there: "all_there r s"
  shows "wf_pile (snd (pop u (KRef r) d s))"
proof (cases "validate_order r")
  case (Inl e)
  then show ?thesis using wf by (simp add: or_default_def)
next
  case (Inr us)
  show ?thesis
  proof (cases "set us \<subseteq> set (pile_keys s)")
    case True
    have "distinct us" using once Inr by (simp add: names_once_def)
    then have "snd (pop u (KRef r) d s) = without us s"
      using pop_refs_result[OF wf Inr _ True, of u d] by (simp add: or_default_def split: sum.split)
    then show ?thesis using wf_without[OF wf] by simp
  next
    case False
    then have "length us \<le> 1" "us \<noteq> []" using there Inr by (auto simp: all_there_def)
    then obtain k where "us = [k]" by (cases us) auto
    then have "pop u (KRef r) d s = pop u (KRef (RUuid k)) d s" using Inr by simp
    then show ?thesis using wf_pop_one[OF wf, of u k d] by (simp del: pop.simps)
  qed
qed

lemma collected_member:
  "collect_ok (map f xs) = Inr uss \<Longrightarrow> us \<in> set uss \<Longrightarrow> \<exists>x \<in> set xs. f x = Inr us"
  by (induction xs arbitrary: uss) (auto simp: collect_ok_Cons split: sum.splits)

lemma ids_of_order: "ids_of r = Inr us \<Longrightarrow> validate_order r = Inr us"
  by (cases r) auto

lemma contained_there:
  assumes "wf_pile s" "\<And>x. x \<in> set xs \<Longrightarrow> pile_contains x s"
  shows "all_there (RSeq xs) s"
proof -
  have "set us \<subseteq> set (pile_keys s)" if us: "validate_order (RSeq xs) = Inr us" for us
  proof
    fix k assume "k \<in> set us"
    then obtain uss vs where "collect_ok (map ids_of xs) = Inr uss" "vs \<in> set uss" "k \<in> set vs"
      using us by (cases "collect_ok (map ids_of xs)") auto
    then obtain x where "x \<in> set xs" "validate_order x = Inr vs" using collected_member ids_of_order by metis
    then show "k \<in> set (pile_keys s)"
      using assms(2)[of x] \<open>k \<in> set vs\<close> by (auto simp: pile_contains_wf[OF assms(1)] pile_keys_wf[OF assms(1)])
  qed
  then show ?thesis by (auto simp: all_there_def split: sum.split)
qed

lemma wf_ixor:
  assumes "wf_pile s" "wf_pile t"
  shows "wf_pile (snd (ixor s t))"
proof -
  let ?c = "filter (\<lambda>e. pile_contains (elem_ref e) s) (elems t)"
  have d: "distinct (map eid ?c)" using distinct_elems[OF assms(2)] by (rule distinct_map_filter)
  note ex = pile_exclude_elems[OF assms(1) d]
  obtain r s1 where e: "pile_exclude (RSeq (map elem_ref ?c)) s = (r, s1)" by fastforce
  then have "wf_pile s1" "r = Inr ()" using ex assms(1) by (auto simp: e wf_without)
  then show ?thesis using assms(2) e by (auto simp: ixor_def pile_values_wf Let_def)
qed

lemma pile_step_wf: "wf_pile s \<Longrightarrow> clean_call s op \<Longrightarrow> wf_pile (pile_step s op)"
proof (cases op)
  case (PlIor t)
  then show "wf_pile s \<Longrightarrow> ?thesis" by (auto simp: ior_def split: sum.split)
next
  case (PlIand t)
  assume wf: "wf_pile s"
  have d: "distinct (map eid (filter (\<lambda>e. \<not> pile_contains (elem_ref e) t) (elems s)))"
    using distinct_elems[OF wf] by (rule distinct_map_filter)
  show ?thesis
    using pile_exclude_elems(1)[OF wf d] wf by (auto simp: PlIand iand_def pile_values_wf)
next
  case (PlRemove k)
  assume wf: "wf_pile s" and ok: "clean_call s op"
  show ?thesis
  proof (cases k)
    case (KRef r)
    have "wf_pile (snd (pop 0 (KRef r) False s))" if "pile_contains r s"
    proof (rule wf_pop_ref[OF wf])
      show "names_once r" using ok PlRemove KRef by simp
      show "all_there r s"
        using that pile_contains_wf[OF wf] pile_keys_wf[OF wf] by (auto simp: all_there_def split: sum.split)
    qed
    then show ?thesis using wf
      by (auto simp: PlRemove KRef pile_remove_def split: prod.split sum.split simp del: pop.simps)
  qed (simp_all add: PlRemove pile_remove_def wf)
next
  case (PlExclude r)
  assume wf: "wf_pile s" and ok: "clean_call s op"
  let ?xs = "filter (\<lambda>i. pile_contains i s) (to_list_ref r)"
  have "wf_pile (snd (pop 0 (KRef (RSeq ?xs)) False s))"
    using ok PlExclude by (intro wf_pop_ref[OF wf] contained_there[OF wf]) auto
  then show ?thesis using wf
    by (auto simp: PlExclude pile_exclude_def split: list.split prod.split sum.split simp del: pop.simps)
next
  case (PlPopIndex i d)
  then show "wf_pile s \<Longrightarrow> ?thesis" using wf_pop_index by (simp del: pop.simps)
next
  case (PlPop r d)
  then show "wf_pile s \<Longrightarrow> clean_call s op \<Longrightarrow> ?thesis"
    using wf_pop_ref[of s r 0 d] by (simp del: pop.simps)
qed (auto simp: pile_append_def adump_clear_without)

interpretation pile_ops: stepping "\<lambda>s op. if clean_call s op then pile_step s op else s" wf_pile
  by unfold_locales (simp add: pile_step_wf)

lemma check_order_ok:
  assumes "check_order vs d = Inr x" "well_keyed d" "collect_ok (map get_id vs) = Inr us" "distinct us"
  shows "set us = fst ` set d"
proof -
  have len: "collect_ok rs = Inr xs \<Longrightarrow> length xs = length rs" for rs :: "(pyerr + uuid) list" and xs
    by (induction rs arbitrary: xs rule: collect_ok.induct) (auto split: sum.splits)
  have "length us = length d" "set us \<subseteq> fst ` set d"
    using assms len[OF assms(3)]
    by (auto simp: check_order_def list_all_iff split: if_splits)
  moreover have "card (set us) = length us" using assms(4) by (rule distinct_card)
  ultimately show ?thesis
    by (intro card_subset_eq) (auto simp: length_dkeys_set[OF well_keyed_distinct[OF assms(2)]])
qed

lemma get_ids_uuids: "collect_ok (map get_id (map RUuid ks)) = Inr ks"
  by (induction ks) (simp_all add: get_id_def)

lemma get_ids_order: "collect_ok (map get_id rs) = Inr us \<Longrightarrow> validate_order (RSeq rs) = Inr us"
proof (induction rs arbitrary: us)
  case (Cons x rs)
  have "get_id x = Inr k \<Longrightarrow> ids_of x = Inr [k]" for k by (cases x) (auto simp: get_id_def)
  then show ?case using Cons by (auto simp: collect_ok_Cons split: sum.splits)
qed simp

text \<open>What the validators let through.\<close>

lemma mk_pile_clean:
  assumes mk: "mk_pile u is ts ord strict = Inr s" and cl: "clean_order ord"
  shows "wf_pile s"
proof -
  obtain ty d p where d: "validate_collections ty strict is = Inr d" and p: "validate_progression u ord d = Inr p"
    and s: "s = \<lparr>collections = d, item_type = ty, progression = p, strict_type = strict\<rparr>"
    using mk by (auto simp: mk_pile_def split: sum.splits)
  note kd = validate_collections_keyed[OF d]
  have list: "synced p \<and> distinct (order p) \<and> set (order p) = fst ` set d"
    if c: "check_order rs d = Inr x" and o: "names_once (RSeq rs)" and pr: "prog u (RSeq rs) None = Inr p" for rs x
  proof -
    obtain us where us: "collect_ok (map get_id rs) = Inr us" using c by (auto simp: check_order_def split: if_splits sum.splits)
    have v: "validate_order (RSeq rs) = Inr us" by (rule get_ids_order[OF us])
    then have "p = mk_progression u None us" using pr by (simp add: prog_def del: validate_order_simps)
    moreover have "distinct us" using o v by (simp add: names_once_def del: validate_order_simps)
    ultimately show ?thesis using check_order_ok[OF c kd us] by simp
  qed
  have own: "synced p \<and> distinct (order p) \<and> set (order p) = fst ` set d"
    if c: "check_order (map RUuid (order q)) d = Inr x" and o: "synced q"
      and pr: "(if order q = [] then prog u (RSeq []) None else Inr q) = Inr p" for q x
  proof -
    have dq: "distinct (order q)" using c by (auto simp: check_order_def distinct_map split: if_splits)
    have "order p = order q \<and> synced p" using pr o by (auto simp: prog_def split: if_splits)
    then show ?thesis using check_order_ok[OF c kd get_ids_uuids dq] dq by simp
  qed
  have all: "synced q \<and> distinct (order q) \<and> set (order q) = fst ` set d"
    if "q = mk_progression u None (dkeys d)" for q
    using that well_keyed_distinct[OF kd] by simp
  have "synced p \<and> distinct (order p) \<and> set (order p) = fst ` set d"
  proof (cases ord)
    case ONone
    then show ?thesis using p all by (simp add: validate_progression_def)
  next
    case (OProg q)
    show ?thesis
    proof (cases "order q = []")
      case True
      then show ?thesis using p OProg all by (simp add: validate_progression_def)
    next
      case False
      then show ?thesis using p cl OProg own[of q]
        by (simp add: validate_progression_def Let_def split: sum.splits)
    qed
  next
    case (ODict q rs)
    show ?thesis
    proof (cases q)
      case None
      then show ?thesis using p cl ODict list[of rs]
        by (simp add: validate_progression_def Let_def split: sum.splits)
    next
      case (Some q')
      then show ?thesis using p cl ODict own[of q']
        by (simp add: validate_progression_def Let_def split: sum.splits)
    qed
  next
    case (OList rs)
    show ?thesis
    proof (cases "rs = []")
      case True
      then show ?thesis using p OList all by (simp add: validate_progression_def)
    next
      case False
      then show ?thesis using p cl OList list[of rs]
        by (simp add: validate_progression_def Let_def split: sum.splits)
    qed
  qed
  then show ?thesis using kd by (intro wf_pileI) (simp_all add: s)
qed

lemma pile_built_wf: "pile_built s \<Longrightarrow> wf_pile s"
  by (induction rule: pile_built.induct) (auto intro: mk_pile_clean wf_ixor pile_step_wf)

subsection \<open>A pile as a keyed collection\<close>

definition plook :: "'a pile \<Rightarrow> uuid \<Rightarrow> 'a elem option" where
  "plook s k = dget (collections s) k"

definition paccepts :: "'a pile \<Rightarrow> 'a elem \<Rightarrow> bool" where
  "paccepts s e \<longleftrightarrow> type_ok (item_type s) (strict_type s) (emro e) \<and> eid e \<notin> set (pile_keys s)"

definition pput :: "'a elem \<Rightarrow> 'a pile \<Rightarrow> 'a pile" where
  "pput e s = snd (pile_insert (int (pile_len s)) [IElem e] s)"

definition pdel :: "uuid \<Rightarrow> 'a pile \<Rightarrow> 'a pile" where
  "pdel k s = snd (pop 0 (KRef (RUuid k)) False s)"

lemma pile_insert_refused:
  assumes "wf_pile s" "\<not> paccepts s e"
  shows "pile_insert (int (pile_len s)) [IElem e] s =
    (Inl (if type_ok (item_type s) (strict_type s) (emro e) then ItemExistsError else ValidationError), s)"
  using assms
  by (auto simp: pile_insert_def validate_collections_one paccepts_def pile_contains_wf pile_keys_wf)

lemma pile_insert_end_eq:
  assumes "wf_pile s" "paccepts s e"
  shows "pile_insert (int (pile_len s)) [IElem e] s = (Inr (), pput e s)"
  using pile_insert_end(1)[OF assms(1), of e] assms(2)
  by (cases "pile_insert (int (pile_len s)) [IElem e] s") (auto simp: pput_def paccepts_def)

lemma pop_absent:
  assumes "wf_pile s" "dget (collections s) k = None"
  shows "fst (pop u (KRef (RUuid k)) False s) = Inl ItemNotFoundError"
    "collections (snd (pop u (KRef (RUuid k)) False s)) = collections s"
    "pile_keys (snd (pop u (KRef (RUuid k)) False s)) = filter (\<lambda>x. x \<noteq> k) (pile_keys s)"
proof -
  have pk: "pop_keys [k] (collections s) = (Inl KeyError, collections s)" using assms(2) by simp
  then show "fst (pop u (KRef (RUuid k)) False s) = Inl ItemNotFoundError"
    "collections (snd (pop u (KRef (RUuid k)) False s)) = collections s"
    "pile_keys (snd (pop u (KRef (RUuid k)) False s)) = filter (\<lambda>x. x \<noteq> k) (pile_keys s)"
    by (simp_all add: exclude_nonempty[of _ "[k]"] or_default_def pile_keys_def del: pop_keys.simps)
qed

lemma pop_present:
  "wf_pile s \<Longrightarrow> plook s k = Some e \<Longrightarrow> pop 0 (KRef (RUuid k)) False s = (Inr (One e), pdel k s)"
  unfolding plook_def pdel_def using pop_one_result[of s k e 0 False] by simp

interpretation pstore: keyed_store wf_pile plook pile_keys eid paccepts pput pdel
proof unfold_locales
  fix s :: "'a pile" and k k' :: uuid and e :: "'a elem"
  assume wf: "wf_pile s"
  show "plook s k = Some e \<Longrightarrow> eid e = k"
    unfolding plook_def using well_keyed_eid[OF wf_pileD(1)[OF wf]] by blast
  show "(k \<in> set (pile_keys s)) = (plook s k \<noteq> None)"
    by (simp add: plook_def pile_keys_wf[OF wf] map_of_eq_None_iff)
  show "wf_pile (pput e s)" "wf_pile (pdel k s)"
    unfolding pput_def pdel_def using wf_pile_insert[OF wf] wf_pop_one[OF wf] by blast+
  show "\<not> paccepts s e \<Longrightarrow> pput e s = s"
    using pile_insert_refused[OF wf] by (simp add: pput_def)
  show "paccepts s e \<Longrightarrow> eid e \<notin> set (pile_keys s)" by (simp add: paccepts_def)
  show "paccepts s e \<Longrightarrow> plook (pput e s) k = (if k = eid e then Some e else plook s k)"
    "paccepts s e \<Longrightarrow> pile_keys (pput e s) = pile_keys s @ [eid e]"
    using pile_insert_end[OF wf, of e] by (simp_all add: paccepts_def pput_def plook_def)
  show "plook (pdel k s) k' = (if k' = k then None else plook s k')"
    "pile_keys (pdel k s) = filter (\<lambda>x. x \<noteq> k) (pile_keys s)"
    using pop_absent(2,3)[OF wf, of k 0] pop_one_result[OF wf, of k _ 0 False]
    by (cases "dget (collections s) k"; simp add: pdel_def plook_def del: pop.simps)+
qed

section \<open>What the operations do to the sequence of elements\<close>

lemma elems_include:
  assumes "wf_pile s" "validate_collections (item_type s) (strict_type s) is = Inr d"
  shows "elems (snd (pile_include is s)) =
    map (\<lambda>e. case dget d (eid e) of None \<Rightarrow> e | Some e' \<Rightarrow> e') (elems s)
      @ map snd (filter (\<lambda>(k, _). k \<notin> set (pile_keys s)) d)"
proof -
  note inc = pile_include_result[OF assms]
  have kd: "well_keyed d" using assms(2) by (rule validate_collections_keyed)
  have look: "dget (collections (snd (pile_include is s))) k =
      (case dget d k of None \<Rightarrow> dget (collections s) k | Some e \<Rightarrow> Some e)" for k
    using inc(2) kd by simp
  have old: "map (\<lambda>k. the (dget (collections (snd (pile_include is s))) k)) (pile_keys s) =
      map (\<lambda>e. case dget d (eid e) of None \<Rightarrow> e | Some e' \<Rightarrow> e') (elems s)"
  proof -
    have "the (dget (collections (snd (pile_include is s))) (eid e)) =
        (case dget d (eid e) of None \<Rightarrow> e | Some e' \<Rightarrow> e')" if e: "e \<in> set (elems s)" for e
    proof -
      obtain k where k: "k \<in> set (pile_keys s)" "e = the (dget (collections s) k)"
        using e by (auto simp: elems_def)
      then obtain e' where "dget (collections s) k = Some e'"
        using pile_keys_wf[OF assms(1)] by (metis dget_Some_iff list.set_map)
      then have "dget (collections s) (eid e) = Some e"
        using k well_keyed_eid[OF wf_pileD(1)[OF assms(1)]] by fastforce
      then show ?thesis by (simp add: look split: option.split)
    qed
    then have "map (\<lambda>k. the (dget (collections (snd (pile_include is s))) k)) (map eid (elems s)) =
        map (\<lambda>e. case dget d (eid e) of None \<Rightarrow> e | Some e' \<Rightarrow> e') (elems s)"
      by simp
    then show ?thesis by (simp add: elems_eids[OF assms(1)])
  qed
  have new: "map (\<lambda>k. the (dget (collections (snd (pile_include is s))) k)) (filter P (dkeys d)) =
      map snd (filter (\<lambda>(k, _). P k) d)" for P
  proof -
    have "the (case dget d k of None \<Rightarrow> dget (collections s) k | Some e \<Rightarrow> Some e) = e"
      if "(k, e) \<in> set d" for k e
      using map_of_is_SomeI[OF well_keyed_distinct[OF kd] that] by simp
    then show ?thesis
      by (auto simp: look filter_map o_def case_prod_unfold)
  qed
  show ?thesis
    unfolding elems_def[of "snd (pile_include is s)"] inc(3) map_append old new ..
qed

lemma type_loop_spec:
  assumes "list_all (dhas (collections s)) ks"
  shows "type_loop T strict None s ks out =
      Inr (out @ filter (has_type T strict) (map (\<lambda>k. the (dget (collections s) k)) ks))"
    "length out < n \<Longrightarrow> type_loop T strict (Some (int n)) s ks out =
      Inr (out @ take (n - length out)
             (filter (has_type T strict) (map (\<lambda>k. the (dget (collections s) k)) ks)))"
  using assms
proof (induction ks arbitrary: out)
  case (Cons k ks)
  {
    case 1
    then obtain e where "dget (collections s) k = Some e" by (auto simp: dget_Some_iff simp del: set_map)
    then show ?case using 1 Cons.IH(1) by (simp add: pile_lookup_def Let_def)
  next
    case 2
    then obtain e where e: "dget (collections s) k = Some e"
      by (auto simp: dget_Some_iff simp del: set_map)
    let ?out = "if has_type T strict e then out @ [e] else out"
    have "length ?out < n \<Longrightarrow> type_loop T strict (Some (int n)) s ks ?out =
      Inr (?out @ take (n - length ?out)
             (filter (has_type T strict) (map (\<lambda>k. the (dget (collections s) k)) ks)))"
      using 2 by (intro Cons.IH(2)) simp_all
    then show ?case
      using 2 e by (auto simp: pile_lookup_def Let_def take_Cons' Suc_diff_le)
  }
qed simp_all

text \<open>A pile of given elements without a restriction, for concrete instances.\<close>

definition pile_of :: "uuid \<Rightarrow> 'a elem list \<Rightarrow> 'a pile" where
  "pile_of u es =
     \<lparr>collections = map (\<lambda>e. (eid e, e)) es, item_type = None,
      progression = mk_progression u None (map eid es), strict_type = False\<rparr>"

lemma pile_of_wf [simp]: "distinct (map eid es) \<Longrightarrow> wf_pile (pile_of u es)"
  by (intro wf_pileI) (auto simp: pile_of_def well_keyed_def list_all_iff o_def image_image)

text \<open>
  A slice taken out with \<open>pop\<close>: the ids are deleted from the dict, but \<open>exclude\<close> is given the
  progression object of the slice, whose only id is its own, so the order keeps them all.
\<close>

lemma pop_slice_state:
  assumes "wf_pile s" "slice_idxs (length (pile_keys s)) sl = Inr js" "js \<noteq> []" "distinct js"
    "u \<notin> set (pile_keys s)"
  shows "pile_keys (snd (pop u (KSlice sl) dflt s)) = pile_keys s"
    "collections (snd (pop u (KSlice sl) dflt s)) =
       fold ddel (map (nth (pile_keys s)) js) (collections s)"
proof -
  let ?ks = "map (nth (order (progression s))) js"
  note wf = wf_pileD[OF assms(1)]
  have lt: "\<forall>j \<in> set js. j < length (order (progression s))"
    using assms(2) slice_idxs_less by (auto simp: pile_keys_def)
  have gs: "pg_getslice u sl (progression s) = Inr (mk_progression u None ?ks)"
    using assms(2,3) by (cases js) (auto simp: pg_getslice_def py_get_slice_def pile_keys_def)
  have "distinct ?ks"
    using assms(4) lt wf(3) by (auto simp: distinct_map inj_on_def nth_eq_iff_index_eq)
  moreover have "set ?ks \<subseteq> fst ` set (collections s)" using lt wf(4) by force
  ultimately have pk: "pop_keys ?ks (collections s) =
      (Inr (map (\<lambda>k. the (dget (collections s) k)) ?ks), fold ddel ?ks (collections s))"
    by (rule pop_keys_ok)
  have id: "pg_id (mk_progression u None ?ks) = u"
    by (simp add: mk_progression_def rebuild_members_def)
  have ex: "pg_exclude (RObs (OUuid u)) (progression s) =
      (Inr (length (order (drop_ids [u] (progression s))) < length (order (progression s))),
       drop_ids [u] (progression s))"
    by (rule exclude_nonempty) simp_all
  have o: "order (drop_ids [u] (progression s)) = order (progression s)"
    using assms(5) by (auto simp: pile_keys_def intro: filter_True)
  have "snd (pop u (KSlice sl) dflt s) =
      s\<lparr>progression := drop_ids [u] (progression s), collections := fold ddel ?ks (collections s)\<rparr>"
    using gs pk ex id by (auto simp: or_default_def Let_def split: sum.split)
  then show "pile_keys (snd (pop u (KSlice sl) dflt s)) = pile_keys s"
    "collections (snd (pop u (KSlice sl) dflt s)) =
       fold ddel (map (nth (pile_keys s)) js) (collections s)"
    using o by (simp_all add: pile_keys_def del: order_simps)
qed

section \<open>Properties\<close>

text \<open>
  C1. The two halves of a pile agree.  Take any pile that is built by its constructor (with no order, a
  progression in step with its own id set, or a list of ids each named once) and then changed by any
  sequence of includes, updates, appends, inserts, pops of an index or of references, removals,
  exclusions, clears, clearing dumps, and in-place unions, intersections and symmetric differences, failing calls included; the other pile of a
  symmetric difference is built in the same way, and a reference to several ids names each of them once
  and, where it is popped, only ids of the pile (\<open>pop_half_done\<close> shows what becomes of others).  Then
  the order lists every stored element exactly once: sizes agree, no id repeats, iteration raises
  nothing and yields the elements in progression order, and membership coincides with lookup.
\<close>

theorem pile_agreement:
  assumes "pile_built s"
  shows "pile_len s = pile_size s \<and> distinct (pile_keys s) \<and>
    (\<exists>es. pile_values s = Inr es \<and> map eid es = pile_keys s) \<and>
    (\<forall>k. pile_contains (RUuid k) s = is_ok (pile_lookup s k))"
proof -
  have wf: "wf_pile s" using assms by (rule pile_built_wf)
  have "pile_contains (RUuid k) s = is_ok (pile_lookup s k)" for k
    using wf dgetD[of "collections s" k]
    by (auto simp: pile_contains_wf pile_lookup_def map_of_eq_None_iff split: option.split)
  then show ?thesis
    using wf_pile_sizes[OF wf] pile_values_wf[OF wf] elems_eids[OF wf] wf_pileD(3)[OF wf]
    by (simp add: pile_keys_def)
qed

text \<open>Includes, a removal of two ids at once, and a symmetric difference with another pile.\<close>

definition ex_pile :: "uuid list \<Rightarrow> unit pile" where
  "ex_pile ks = pile_step (pile_of 0 []) (PlInclude (map (\<lambda>k. IElem (Elem k [''Node''] ())) ks))"

lemma ex_pile_built: "pile_built (ex_pile ks)"
proof -
  have "mk_pile 0 ([] :: unit itemarg list) None ONone False = Inr (pile_of 0 [])"
    by (simp add: mk_pile_def validate_item_type_def validate_collections_def validate_progression_def pile_of_def)
  then have "pile_built (pile_of 0 ([] :: unit elem list))" by (rule pile_built.fresh) simp
  then show ?thesis unfolding ex_pile_def by (rule pile_built.call) simp
qed

theorem pile_agreement_witness:
  "let s = snd (ixor (pile_step (ex_pile [4, 5, 6, 7]) (PlRemove (KRef (RSeq [RUuid 6, RUuid 4])))) (ex_pile [7, 8]))
   in pile_keys s = [5, 8] \<and> pile_len s = pile_size s \<and> distinct (pile_keys s)"
proof -
  let ?s = "snd (ixor (pile_step (ex_pile [4, 5, 6, 7]) (PlRemove (KRef (RSeq [RUuid 6, RUuid 4])))) (ex_pile [7, 8]))"
  have "clean_call (ex_pile [4, 5, 6, 7]) (PlRemove (KRef (RSeq [RUuid 6, RUuid 4])))" by code_simp
  then have "pile_built ?s" by (intro pile_built.symmetric_difference pile_built.call ex_pile_built)
  note agree = pile_agreement[OF this]
  have "pile_keys ?s = [5, 8]" by code_simp
  then show ?thesis unfolding Let_def using agree by blast
qed

text \<open>
  Where the halves part: a pop (or an \<open>exclude\<close>) of several ids of which one is missing or named twice
  stops half-way through the dict, after all of them have left the order; and an order that names one
  id in two ways is accepted by the constructor.
\<close>

lemma pop_half_done:
  "let s = snd (pop 0 (KRef (RSeq [RUuid 6, RUuid 4])) True (ex_pile [4, 5]))
   in pile_keys s = [5] \<and> dkeys (collections s) = [4, 5]"
  "let s = snd (pile_exclude (RSeq [RUuid 4, RUuid 4, RUuid 5]) (ex_pile [4, 5, 7]))
   in pile_keys s = [7] \<and> dkeys (collections s) = [5, 7]"
  by code_simp+

lemma order_names_twice:
  "(case mk_pile 0 [IElem (Elem 4 [''Node''] ()), IElem (Elem 5 [''Node''] ())] None
       (OList [RUuid 4, RObs (OUuid 4)]) False of
      Inl e \<Rightarrow> False | Inr s \<Rightarrow> pile_keys s = [4, 4] \<and> dkeys (collections s) = [4, 5])"
  by code_simp

text \<open>
  \<open>include\<close> refines "replace the elements already there, append the new ones": seen as a sequence of
  elements, the pile keeps its order, an element whose id is given again is replaced in place, and
  the other given elements follow at the end in the order they were given.
\<close>

theorem include_refines:
  assumes "wf_pile s" "validate_collections (item_type s) (strict_type s) is = Inr d"
  shows "fst (pile_include is s) = Inr () \<and>
    pile_values (snd (pile_include is s)) =
      Inr (map (\<lambda>e. case dget d (eid e) of None \<Rightarrow> e | Some e' \<Rightarrow> e') (elems s)
           @ map snd (filter (\<lambda>(k, _). k \<notin> set (map eid (elems s))) d))"
  using pile_include_result(1,6)[OF assms] elems_include[OF assms]
  by (simp add: pile_values_wf elems_eids[OF assms(1)])

theorem include_refines_witness:
  "pile_values (snd (pile_include
       [IElem (Elem 7 [''Node''] ''c''), IElem (Elem 4 [''Node''] ''z'')]
       (pile_of 0 [Elem 4 [''Node''] ''a'', Elem 5 [''Node''] ''b'']))) =
     Inr [Elem 4 [''Node''] ''z'', Elem 5 [''Node''] ''b'', Elem 7 [''Node''] ''c'']"
  using include_refines[of "pile_of 0 [Elem 4 [''Node''] ''a'', Elem 5 [''Node''] ''b'']"
      "[IElem (Elem 7 [''Node''] ''c''), IElem (Elem 4 [''Node''] ''z'')]"
      "[(7, Elem 7 [''Node''] ''c''), (4, Elem 4 [''Node''] ''z'')]"]
  by (simp add: validate_collections_def type_ok_def pile_of_def elems_def pile_keys_def
      well_keyed_def wf_pile_def)

text \<open>
  \<open>pop\<close> with a reference to distinct elements of the pile returns exactly those, in the order of the
  reference (one element alone, several as a list), and removes them from both halves; the others keep
  their order and the pile stays in agreement.
\<close>

theorem pop_takes_out:
  assumes "wf_pile s" "validate_order r = Inr ks" "ks \<noteq> []" "distinct ks"
    "set ks \<subseteq> set (pile_keys s)"
  shows "(\<exists>es. map eid es = ks \<and> set es \<subseteq> set (elems s) \<and>
      fst (pop u (KRef r) dflt s) = Inr (case es of [e] \<Rightarrow> One e | _ \<Rightarrow> Many es)) \<and>
    pile_values (snd (pop u (KRef r) dflt s)) = Inr (filter (\<lambda>e. eid e \<notin> set ks) (elems s)) \<and>
    wf_pile (snd (pop u (KRef r) dflt s))"
proof -
  let ?es = "map (\<lambda>k. the (dget (collections s) k)) ks"
  have eid: "eid (the (dget (collections s) k)) = k" if "k \<in> set (pile_keys s)" for k
    using that elems_eids[OF assms(1)] by (simp add: elems_def) (metis map_eq_conv map_ident o_apply)
  have res: "pop u (KRef r) dflt s = or_default dflt (got_of ?es, without ks s)"
    by (rule pop_refs_result) fact+
  have got: "got_of ?es = Inr (case ?es of [e] \<Rightarrow> One e | _ \<Rightarrow> Many ?es)"
    using assms(3) by (cases ks rule: remdups_adj.cases) (simp_all add: got_of_def)
  have "wf_pile (without ks s)" using assms(1) by (rule wf_without)
  moreover have "elems (without ks s) = filter (\<lambda>e. eid e \<notin> set ks) (elems s)"
    unfolding elems_def pile_keys_without filter_map
    by (auto simp: eid o_def intro!: map_cong filter_cong)
  moreover have "map eid ?es = ks" using assms(5) eid by (auto intro!: map_idI)
  moreover have "set ?es \<subseteq> set (elems s)" using assms(5) by (auto simp: elems_def)
  ultimately have "map eid ?es = ks \<and> set ?es \<subseteq> set (elems s) \<and>
      fst (pop u (KRef r) dflt s) = Inr (case ?es of [e] \<Rightarrow> One e | _ \<Rightarrow> Many ?es)"
    and "pile_values (snd (pop u (KRef r) dflt s)) = Inr (filter (\<lambda>e. eid e \<notin> set ks) (elems s))"
    and "wf_pile (snd (pop u (KRef r) dflt s))"
    using res got by (simp_all add: or_default_def pile_values_wf del: pop.simps)
  then show ?thesis by blast
qed

theorem pop_takes_out_witness:
  "pile_values (snd (pop 9 (KRef (RSeq [RUuid 6, RUuid 4])) False
     (pile_of 0 [Elem 4 [''Node''] (), Elem 5 [''Node''] (), Elem 6 [''Node''] ()]))) =
   Inr [Elem 5 [''Node''] ()]"
  using pop_takes_out[of "pile_of 0 [Elem 4 [''Node''] (), Elem 5 [''Node''] (), Elem 6 [''Node''] ()]"
      "RSeq [RUuid 6, RUuid 4]" "[6, 4]" 9 False]
  by (simp add: pile_of_def elems_def pile_keys_def well_keyed_def wf_pile_def del: pop.simps)

text \<open>
  \<open>pop\<close> of a slice tears the halves of a pile apart: the elements selected by the slice leave the
  dict, but all their ids stay in the progression (the slice is passed to \<open>exclude\<close> as a
  \<open>Progression\<close> object, whose own id is the only one excluded), so the size still counts them,
  membership still reports them and iteration raises a KeyError.
\<close>

theorem pop_slice_leaves_ids:
  fixes dflt :: bool
  assumes "wf_pile s" "slice_idxs (length (pile_keys s)) sl = Inr js" "js \<noteq> []" "distinct js"
    "u \<notin> set (pile_keys s)"
  defines "s' \<equiv> snd (pop u (KSlice sl) dflt s)"
  shows "pile_keys s' = pile_keys s \<and>
    (\<forall>j \<in> set js. pile_lookup s' (pile_keys s ! j) = Inl KeyError) \<and>
    pile_values s' = Inl KeyError"
proof -
  note st = pop_slice_state[OF assms(1-5), of dflt, folded s'_def]
  have gone: "\<forall>j \<in> set js. pile_lookup s' (pile_keys s ! j) = Inl KeyError"
    by (simp add: pile_lookup_def st(2) dhas_fold_ddel)
  have bad: "collect_ok (map (pile_lookup s') ks) = Inl KeyError"
    if "k \<in> set ks" "pile_lookup s' k = Inl KeyError" for k ks
    using that
  proof (induction ks)
    case (Cons a ks)
    then show ?case
      by (cases "pile_lookup s' a") (auto simp: pile_lookup_def split: option.splits)
  qed simp
  obtain j where j: "j \<in> set js" using assms(3) by fastforce
  then have "pile_keys s ! j \<in> set (pile_keys s)" using assms(2) slice_idxs_less by fastforce
  then show ?thesis using gone st(1) bad j unfolding pile_values_def by metis
qed

theorem pop_slice_leaves_ids_witness:
  "pile_keys (snd (pop 9 (KSlice (Slice (Some 0) (Some 2) None)) False
     (pile_of 0 [Elem 4 [''Node''] (), Elem 5 [''Node''] (), Elem 6 [''Node''] ()]))) = [4, 5, 6] \<and>
   pile_values (snd (pop 9 (KSlice (Slice (Some 0) (Some 2) None)) False
     (pile_of 0 [Elem 4 [''Node''] (), Elem 5 [''Node''] (), Elem 6 [''Node''] ()]))) = Inl KeyError"
proof -
  let ?s = "pile_of 0 [Elem 4 [''Node''] (), Elem 5 [''Node''] (), Elem 6 [''Node''] ()]"
  have k: "pile_keys ?s = [4, 5, 6]" by (simp add: pile_of_def pile_keys_def)
  have "slice_idxs (length (pile_keys ?s)) (Slice (Some 0) (Some 2) None) = Inr [0, 1]"
    unfolding k by code_simp
  from pop_slice_leaves_ids[OF _ this, of 9 False] show ?thesis by (simp add: k del: pop.simps)
qed

text \<open>
  \<open>filter_by_type\<close> on a pile in agreement returns the matching elements in the requested direction:
  all of them without a bound, the first \<open>n\<close> of them for a bound \<open>n > 0\<close>.
\<close>

theorem filter_by_type_first:
  assumes "wf_pile s"
  shows "filter_by_type T strict rv None s =
      Inr (filter (has_type T strict) (if rv then rev (elems s) else elems s)) \<and>
    (\<forall>n > 0. filter_by_type T strict rv (Some (int n)) s =
      Inr (take n (filter (has_type T strict) (if rv then rev (elems s) else elems s))))"
proof -
  let ?ks = "if rv then rev (pile_keys s) else pile_keys s"
  have "list_all (dhas (collections s)) ?ks"
    using pile_keys_wf[OF assms] by (simp add: list_all_iff)
  moreover have "map (\<lambda>k. the (dget (collections s) k)) ?ks = (if rv then rev (elems s) else elems s)"
    by (simp add: elems_def rev_map)
  ultimately show ?thesis
    using type_loop_spec(1)[of s ?ks T strict "[]"] type_loop_spec(2)[of s ?ks "[]" _ T strict]
    by (simp add: filter_by_type_def)
qed

theorem filter_by_type_first_witness:
  "filter_by_type {''Event''} False True (Some 1)
     (pile_of 0 [Elem 4 [''Chat'', ''Event''] (), Elem 5 [''Node''] (), Elem 6 [''Event''] ()]) =
   Inr [Elem 6 [''Event''] ()]"
  using filter_by_type_first[of
      "pile_of 0 [Elem 4 [''Chat'', ''Event''] (), Elem 5 [''Node''] (), Elem 6 [''Event''] ()]"
      "{''Event''}" False True, THEN conjunct2, rule_format, of 1]
  by (simp add: pile_of_def elems_def pile_keys_def has_type_def well_keyed_def wf_pile_def)

end
