(* ===== verification/Item_Flow.thy ===== *)
theory Item_Flow
  imports Pile
begin

text \<open>
  \<open>lionagi/protocols/generic/flow.py\<close>: a pile of items, a pile of progressions over them, and an index
  from names to progression ids.

  A progression is an element whose payload is its state; changing one in place changes the stored
  element (\<open>upd_prog\<close>), which is how the flow's methods and other holders of the object act on it.
  Other holders can rename a progression (\<open>FRename\<close>), which leaves the index stale.  Lookup may
  repair the index, so it returns the flow it leaves.  (De)serialisation of the piles is outside.

  The lemmas show that no call leaves a progression referring to an item that is not in the flow, and
  that lookup by name finds a progression of that name whenever there is one, however stale the
  index is.
\<close>

section \<open>State\<close>

record 'a flow =
  flow_items :: "'a pile"
  progs :: "progression pile"
  prog_names :: "(string, uuid) pydict"

text \<open>How a caller names a progression: by text, by id, or by the object itself.\<close>

datatype prog_key = KName string | KUuid uuid | KObj uuid

abbreviation named :: "progression \<Rightarrow> bool" where
  "named p \<equiv> pg_name p \<notin> {None, Some ''''}"

section \<open>Construction\<close>

definition refs_ok :: "'a pile \<Rightarrow> progression \<Rightarrow> bool" where
  "refs_ok its p \<longleftrightarrow> list_all (\<lambda>u. u \<in> set (pile_keys its)) (order p)"

fun index_progression_names ::
    "progression elem list \<Rightarrow> (string, uuid) pydict \<Rightarrow> pyerr + (string, uuid) pydict" where
  "index_progression_names [] names = Inr names"
| "index_progression_names (e # es) names =
     (case pg_name (ebody e) of
        None \<Rightarrow> index_progression_names es names
      | Some n \<Rightarrow>
          if n = '''' then index_progression_names es names
          else if dhas names n then Inl ItemExistsError
          else index_progression_names es (dset n (eid e) names))"

text \<open>\<open>from_dict\<close> on decoded piles; an empty pile is replaced by a new, unrestricted one.\<close>

definition flow_from :: "'a pile \<Rightarrow> progression pile \<Rightarrow> uuid \<Rightarrow> uuid \<Rightarrow> pyerr + 'a flow" where
  "flow_from its ps u v =
     (let its' = (if pile_is_empty its then pile_of u [] else its);
          ps' = (if pile_is_empty ps then pile_of v [] else ps)
      in (case pile_values ps' of
            Inl e \<Rightarrow> Inl e
          | Inr es \<Rightarrow>
              if list_ex (\<lambda>e. \<not> refs_ok its' (ebody e)) es then Inl ItemNotFoundError
              else (case index_progression_names es [] of
                      Inl e \<Rightarrow> Inl e
                    | Inr names \<Rightarrow>
                        Inr \<lparr>flow_items = its', progs = ps', prog_names = names\<rparr>)))"

section \<open>Progressions\<close>

definition set_body :: "'b \<Rightarrow> 'b elem \<Rightarrow> 'b elem" where
  "set_body b e = Elem (eid e) (emro e) b"

definition upd_prog :: "uuid \<Rightarrow> ('b \<Rightarrow> 'b) \<Rightarrow> 'b pile \<Rightarrow> 'b pile" where
  "upd_prog u f ps =
     (case dget (collections ps) u of
        None \<Rightarrow> ps
      | Some e \<Rightarrow> ps\<lparr>collections := dset u (set_body (f (ebody e)) e) (collections ps)\<rparr>)"

definition prog_at :: "uuid \<Rightarrow> 'a flow \<Rightarrow> pyerr + uuid" where
  "prog_at u s = map_sum id (\<lambda>_. u) (not_found (pile_lookup (progs s) u))"

definition name_of :: "uuid \<Rightarrow> 'a flow \<Rightarrow> string option" where
  "name_of u s =
     (case dget (collections (progs s)) u of None \<Rightarrow> None | Some e \<Rightarrow> pg_name (ebody e))"

text \<open>\<open>ID.get_id(key)\<close> and the lookup, with every failure reported as not found.\<close>

definition prog_by_text :: "string \<Rightarrow> 'a flow \<Rightarrow> pyerr + uuid" where
  "prog_by_text n s =
     (case get_id (RStr n) of
        Inl _ \<Rightarrow> Inl ItemNotFoundError
      | Inr u \<Rightarrow> (case prog_at u s of Inl _ \<Rightarrow> Inl ItemNotFoundError | Inr v \<Rightarrow> Inr v))"

definition scan_name :: "string \<Rightarrow> 'a flow \<Rightarrow> (uuid, 'a flow) eff" where
  "scan_name n s =
     (case pile_values (progs s) of
        Inl e \<Rightarrow> (Inl e, s)
      | Inr es \<Rightarrow>
          (case find (\<lambda>e. pg_name (ebody e) = Some n) es of
             Some e \<Rightarrow> (Inr (eid e), s\<lparr>prog_names := dset n (eid e) (prog_names s)\<rparr>)
           | None \<Rightarrow> (prog_by_text n s, s)))"

fun get_progression :: "prog_key \<Rightarrow> 'a flow \<Rightarrow> (uuid, 'a flow) eff" where
  "get_progression (KName n) s =
     (case dget (prog_names s) n of
        None \<Rightarrow> scan_name n s
      | Some u \<Rightarrow>
          if name_of u s = Some n then (Inr u, s)
          else scan_name n (s\<lparr>prog_names := ddel n (prog_names s)\<rparr>))"
| "get_progression (KUuid u) s = (prog_at u s, s)"
| "get_progression (KObj u) s = (prog_at u s, s)"

definition add_progression :: "progression elem \<Rightarrow> 'a flow \<Rightarrow> (unit, 'a flow) eff" where
  "add_progression e s =
     (let p = ebody e
      in if named p \<and> dhas (prog_names s) (the (pg_name p)) then (Inl ItemExistsError, s)
         else if \<not> refs_ok (flow_items s) p then (Inl ItemNotFoundError, s)
         else (case pile_include [IElem e] (progs s) of
                 (Inl err, ps) \<Rightarrow> (Inl err, s\<lparr>progs := ps\<rparr>)
               | (Inr _, ps) \<Rightarrow>
                   (Inr (), s\<lparr>progs := ps,
                      prog_names := (if named p then dset (the (pg_name p)) (eid e) (prog_names s)
                                     else prog_names s)\<rparr>)))"

definition purge_name_index :: "uuid \<Rightarrow> 'a flow \<Rightarrow> 'a flow" where
  "purge_name_index u s = s\<lparr>prog_names := filter (\<lambda>(_, v). v \<noteq> u) (prog_names s)\<rparr>"

definition drop_prog :: "uuid \<Rightarrow> 'a flow \<Rightarrow> (unit, 'a flow) eff" where
  "drop_prog u s =
     (case pop 0 (KRef (RUuid u)) False (progs (purge_name_index u s)) of
        (Inl e, ps) \<Rightarrow> (Inl e, (purge_name_index u s)\<lparr>progs := ps\<rparr>)
      | (Inr _, ps) \<Rightarrow> (Inr (), (purge_name_index u s)\<lparr>progs := ps\<rparr>))"

definition remove_progression :: "prog_key \<Rightarrow> 'a flow \<Rightarrow> (unit, 'a flow) eff" where
  "remove_progression k s =
     (case get_progression k s of
        (Inl e, s1) \<Rightarrow> (Inl e, s1)
      | (Inr u, s1) \<Rightarrow> drop_prog u s1)"

section \<open>Items\<close>

fun resolve_all :: "prog_key list \<Rightarrow> 'a flow \<Rightarrow> (uuid list, 'a flow) eff" where
  "resolve_all [] s = (Inr [], s)"
| "resolve_all (k # ks) s =
     (case get_progression k s of
        (Inl e, s1) \<Rightarrow> (Inl e, s1)
      | (Inr u, s1) \<Rightarrow>
          (case resolve_all ks s1 of
             (Inl e, s2) \<Rightarrow> (Inl e, s2)
           | (Inr us, s2) \<Rightarrow> (Inr (u # us), s2)))"

definition add_item :: "'a elem \<Rightarrow> prog_key list \<Rightarrow> 'a flow \<Rightarrow> (unit, 'a flow) eff" where
  "add_item x ks s =
     (case resolve_all ks s of
        (Inl e, s1) \<Rightarrow> (Inl e, s1)
      | (Inr us, s1) \<Rightarrow>
          (case pile_include [IElem x] (flow_items s1) of
             (Inl e, its) \<Rightarrow> (Inl e, s1\<lparr>flow_items := its\<rparr>)
           | (Inr _, its) \<Rightarrow>
               (Inr (), s1\<lparr>flow_items := its,
                  progs := fold (\<lambda>u. upd_prog u (\<lambda>p. snd (pg_append (elem_ref x) p))) us (progs s1)\<rparr>)))"

definition forget_id :: "uuid \<Rightarrow> progression \<Rightarrow> progression" where
  "forget_id x p =
     (case pg_contains (RUuid x) p of
        (True, p1) \<Rightarrow> snd (pg_exclude (RUuid x) p1)
      | (False, p1) \<Rightarrow> p1)"

definition remove_item :: "ref \<Rightarrow> 'a flow \<Rightarrow> (unit, 'a flow) eff" where
  "remove_item r s =
     (case get_id r of
        Inl e \<Rightarrow> (Inl e, s)
      | Inr x \<Rightarrow>
          (case pile_values (progs s) of
             Inl e \<Rightarrow> (Inl e, s)
           | Inr es \<Rightarrow>
               (let s1 = s\<lparr>progs := fold (\<lambda>u. upd_prog u (forget_id x)) (map eid es) (progs s)\<rparr>
                in (case pop 0 (KRef (RUuid x)) False (flow_items s1) of
                      (Inl e, its) \<Rightarrow> (Inl e, s1\<lparr>flow_items := its\<rparr>)
                    | (Inr _, its) \<Rightarrow> (Inr (), s1\<lparr>flow_items := its\<rparr>)))))"

definition flow_clear :: "'a flow \<Rightarrow> 'a flow" where
  "flow_clear s =
     s\<lparr>flow_items := pile_clear (flow_items s), progs := pile_clear (progs s), prog_names := []\<rparr>"

section \<open>Changing progressions in place\<close>

lemma set_body_simps [simp]:
  "eid (set_body b e) = eid e" "ebody (set_body b e) = b" "emro (set_body b e) = emro e"
  by (simp_all add: set_body_def)

lemma dget_upd_prog [simp]:
  "dget (collections (upd_prog u f ps)) k =
     (if k = u then map_option (\<lambda>e. set_body (f (ebody e)) e) (dget (collections ps) u)
      else dget (collections ps) k)"
  by (simp add: upd_prog_def split: option.split)

lemma pile_keys_upd_prog [simp]: "pile_keys (upd_prog u f ps) = pile_keys ps"
  by (simp add: upd_prog_def pile_keys_def split: option.split)

lemma wf_upd_prog [intro]: "wf_pile ps \<Longrightarrow> wf_pile (upd_prog u f ps)"
proof (cases "dget (collections ps) u")
  case (Some e)
  assume wf: "wf_pile ps"
  have "eid e = u" using well_keyed_eid[OF wf_pileD(1)[OF wf] Some] .
  moreover have "u \<in> fst ` set (collections ps)" using dgetD[OF Some] by simp
  ultimately show ?thesis
    using wf_replace_same[OF wf, of "set_body (f (ebody e)) e"] Some by (simp add: upd_prog_def)
qed (simp add: upd_prog_def)

lemma wf_fold_upd_prog: "wf_pile ps \<Longrightarrow> wf_pile (fold (\<lambda>u. upd_prog u f) us ps)"
  by (induction us arbitrary: ps) auto

lemma pile_keys_fold_upd [simp]: "pile_keys (fold (\<lambda>u. upd_prog u f) us ps) = pile_keys ps"
  by (induction us arbitrary: ps) auto

lemma dget_fold_upd_prog:
  "distinct us \<Longrightarrow> dget (collections (fold (\<lambda>u. upd_prog u f) us ps)) k =
     (if k \<in> set us then map_option (\<lambda>e. set_body (f (ebody e)) e) (dget (collections ps) k)
      else dget (collections ps) k)"
  by (induction us arbitrary: ps) auto

definition bodies_sat :: "(progression \<Rightarrow> bool) \<Rightarrow> progression pile \<Rightarrow> bool" where
  "bodies_sat P ps \<longleftrightarrow> (\<forall>k e. dget (collections ps) k = Some e \<longrightarrow> P (ebody e))"

lemma bodies_sat_mono: "bodies_sat P ps \<Longrightarrow> (\<And>p. P p \<Longrightarrow> Q p) \<Longrightarrow> bodies_sat Q ps"
  by (auto simp: bodies_sat_def)

lemma bodies_sat_upd: "bodies_sat P ps \<Longrightarrow> (\<And>p. P p \<Longrightarrow> P (f p)) \<Longrightarrow> bodies_sat P (upd_prog u f ps)"
  by (auto simp: bodies_sat_def)

lemma bodies_sat_fold:
  "bodies_sat P ps \<Longrightarrow> (\<And>p. P p \<Longrightarrow> P (f p)) \<Longrightarrow> bodies_sat P (fold (\<lambda>u. upd_prog u f) us ps)"
  by (induction us arbitrary: ps) (auto intro: bodies_sat_upd)

lemma bodies_sat_all:
  assumes "bodies_sat P ps" "wf_pile ps" "\<And>p. P p \<Longrightarrow> Q (f p)"
  shows "bodies_sat Q (fold (\<lambda>u. upd_prog u f) (pile_keys ps) ps)"
proof -
  have d: "distinct (pile_keys ps)" using wf_pileD(3)[OF assms(2)] by (simp add: pile_keys_def)
  have "k \<in> set (pile_keys ps)" if "dget (collections ps) k = Some e" for k e
    using dgetD[OF that] by (simp add: pile_keys_wf[OF assms(2)])
  then show ?thesis
    using assms(1,3) unfolding bodies_sat_def dget_fold_upd_prog[OF d] by (auto split: if_splits)
qed

section \<open>References stay inside the flow\<close>

definition flow_inv :: "'a flow \<Rightarrow> bool" where
  "flow_inv s \<longleftrightarrow>
     wf_pile (flow_items s) \<and> wf_pile (progs s) \<and>
     bodies_sat (\<lambda>p. members_ok p \<and> refs_ok (flow_items s) p) (progs s)"

lemma flow_inv_names [simp]: "flow_inv (s\<lparr>prog_names := n\<rparr>) = flow_inv s"
  by (simp add: flow_inv_def)

lemma same_names [simp]: "\<exists>n. s = s\<lparr>prog_names := n\<rparr>" for s :: "'a flow"
  by (rule exI[of _ "prog_names s"]) simp

lemma get_progression_state:
  "\<exists>n. snd (get_progression k s) = s\<lparr>prog_names := n\<rparr>"
proof (cases k)
  case (KName m)
  have scan: "\<exists>n. snd (scan_name m t) = t\<lparr>prog_names := n\<rparr>" for t :: "'a flow"
    by (auto simp: scan_name_def split: sum.split option.split)
  have "\<exists>n. snd (scan_name m (s\<lparr>prog_names := d\<rparr>)) = s\<lparr>prog_names := n\<rparr>" for d
    using scan[of "s\<lparr>prog_names := d\<rparr>"] by auto
  then show ?thesis
    using scan[of s] KName by (auto split: option.split)
qed simp_all

lemma resolve_all_state: "\<exists>n. snd (resolve_all ks s) = s\<lparr>prog_names := n\<rparr>"
proof (induction ks arbitrary: s)
  case (Cons k ks)
  obtain r s1 where g: "get_progression k s = (r, s1)" by fastforce
  then obtain n where "s1 = s\<lparr>prog_names := n\<rparr>" using get_progression_state[of k s] by auto
  moreover obtain m where "snd (resolve_all ks s1) = s1\<lparr>prog_names := m\<rparr>" using Cons by blast
  ultimately show ?case using g by (cases r) (auto split: prod.splits sum.splits)
qed simp

lemma refs_ok_iff: "refs_ok its p \<longleftrightarrow> set (order p) \<subseteq> set (pile_keys its)"
  by (auto simp: refs_ok_def list_all_iff)

lemma pile_include_keys:
  assumes "wf_pile s"
  shows "set (pile_keys s) \<subseteq> set (pile_keys (snd (pile_include is s)))"
    "fst (pile_include [IElem e] s) = Inr () \<Longrightarrow>
       set (pile_keys (snd (pile_include [IElem e] s))) = insert (eid e) (set (pile_keys s))"
proof -
  show "set (pile_keys s) \<subseteq> set (pile_keys (snd (pile_include is s)))"
    using pile_include_result(3)[OF assms, of "is"]
    by (cases "validate_collections (item_type s) (strict_type s) is")
       (auto simp: pile_include_def)
  show "fst (pile_include [IElem e] s) = Inr () \<Longrightarrow>
       set (pile_keys (snd (pile_include [IElem e] s))) = insert (eid e) (set (pile_keys s))"
    using pile_include_one(3)[OF assms, of e]
    by (cases "type_ok (item_type s) (strict_type s) (emro e)")
       (auto simp: pile_include_def validate_collections_one)
qed

lemma bodies_sat_include:
  assumes "wf_pile ps" "bodies_sat P ps" "P (ebody e)"
  shows "bodies_sat P (snd (pile_include [IElem e] ps))"
proof (cases "type_ok (item_type ps) (strict_type ps) (emro e)")
  case True
  then show ?thesis
    using assms by (simp add: bodies_sat_def pile_include_one(2))
next
  case False
  then show ?thesis using assms(2) by (simp add: pile_include_def validate_collections_one)
qed

lemma bodies_sat_without: "bodies_sat P ps \<Longrightarrow> bodies_sat P (without ks ps)"
  by (auto simp: bodies_sat_def split: if_splits)

lemma bodies_sat_pop_one:
  "wf_pile ps \<Longrightarrow> bodies_sat P ps \<Longrightarrow> bodies_sat P (snd (pop u (KRef (RUuid k)) d ps))"
proof (cases "dget (collections ps) k")
  case None
  then have "pop_keys [k] (collections ps) = (Inl KeyError, collections ps)" by simp
  then have "collections (snd (pop u (KRef (RUuid k)) d ps)) = collections ps"
    by (simp add: exclude_nonempty[of _ "[k]"] or_default_def del: pop_keys.simps)
  then show "bodies_sat P ps \<Longrightarrow> ?thesis" by (simp add: bodies_sat_def del: pop.simps)
next
  case (Some e)
  then show "wf_pile ps \<Longrightarrow> bodies_sat P ps \<Longrightarrow> ?thesis"
    using pop_one_result[of ps k e u d] bodies_sat_without by (metis snd_conv)
qed

lemma pop_one_keys:
  "wf_pile s \<Longrightarrow> set (pile_keys (snd (pop u (KRef (RUuid k)) d s))) = set (pile_keys s) - {k}"
proof (cases "dget (collections s) k")
  case None
  assume wf: "wf_pile s"
  from None have "pop_keys [k] (collections s) = (Inl KeyError, collections s)" by simp
  then have "pile_keys (snd (pop u (KRef (RUuid k)) d s)) = filter (\<lambda>x. x \<noteq> k) (pile_keys s)"
    by (simp add: exclude_nonempty[of _ "[k]"] or_default_def pile_keys_def del: pop_keys.simps)
  then show ?thesis by auto
next
  case (Some e)
  assume "wf_pile s"
  from pop_one_result[OF this Some, of u d]
  have "snd (pop u (KRef (RUuid k)) d s) = without [k] s" by simp
  then have "pile_keys (snd (pop u (KRef (RUuid k)) d s)) = filter (\<lambda>x. x \<noteq> k) (pile_keys s)"
    by (simp del: pop.simps)
  then show ?thesis by auto
qed

datatype 'a flow_op =
    FAdd uuid "string list" "string option" "uuid list" "pg_op list"
  | FRemoveProg prog_key | FGet prog_key | FAddItem "'a elem" "prog_key list" | FRemoveItem ref
  | FClear | FRename uuid "string option"

text \<open>
  A progression handed to \<open>add_progression\<close> was built and mutated elsewhere, in any way its interface
  allows.
\<close>

definition built_prog :: "uuid \<Rightarrow> string list \<Rightarrow> string option \<Rightarrow> uuid list \<Rightarrow> pg_op list \<Rightarrow> progression elem" where
  "built_prog u mro nm xs ops = Elem u mro (foldl pg_step (mk_progression u nm xs) ops)"

fun flow_step :: "'a flow \<Rightarrow> 'a flow_op \<Rightarrow> 'a flow" where
  "flow_step s (FAdd u mro nm xs ops) = snd (add_progression (built_prog u mro nm xs ops) s)"
| "flow_step s (FRemoveProg k) = snd (remove_progression k s)"
| "flow_step s (FGet k) = snd (get_progression k s)"
| "flow_step s (FAddItem x ks) = snd (add_item x ks s)"
| "flow_step s (FRemoveItem r) = snd (remove_item r s)"
| "flow_step s FClear = flow_clear s"
| "flow_step s (FRename u nm) = s\<lparr>progs := upd_prog u (\<lambda>p. p\<lparr>pg_name := nm\<rparr>) (progs s)\<rparr>"

lemma flow_invI:
  "wf_pile (flow_items s) \<Longrightarrow> wf_pile (progs s) \<Longrightarrow>
   bodies_sat (\<lambda>p. members_ok p \<and> refs_ok (flow_items s) p) (progs s) \<Longrightarrow> flow_inv s"
  by (simp add: flow_inv_def)

lemma flow_invD:
  assumes "flow_inv s"
  shows "wf_pile (flow_items s)" "wf_pile (progs s)"
    "bodies_sat (\<lambda>p. members_ok p \<and> refs_ok (flow_items s) p) (progs s)"
  using assms by (simp_all add: flow_inv_def)

lemma add_progression_inv:
  assumes "flow_inv s"
  shows "flow_inv (snd (add_progression (built_prog u mro nm xs ops) s))"
proof -
  let ?e = "built_prog u mro nm xs ops"
  have ok: "members_ok (ebody ?e)" by (simp add: built_prog_def prog_run_ok)
  note inv = flow_invD[OF assms]
  have "flow_inv (s\<lparr>progs := snd (pile_include [IElem ?e] (progs s))\<rparr>)"
    if "refs_ok (flow_items s) (ebody ?e)"
    using that inv ok by (intro flow_invI) (auto intro: bodies_sat_include)
  then have "flow_inv (s\<lparr>progs := snd (pile_include [IElem ?e] (progs s)), prog_names := n\<rparr>)"
    if "refs_ok (flow_items s) (ebody ?e)" for n
    using that flow_inv_names by blast
  then show ?thesis
    using assms inv ok
    by (auto simp: add_progression_def Let_def flow_inv_def intro: bodies_sat_include
        split: prod.split sum.split dest: prod_eqI)
qed

lemma drop_prog_inv:
  assumes "flow_inv s"
  shows "flow_inv (snd (drop_prog u s))"
proof -
  note inv = flow_invD[OF assms]
  obtain r ps where p: "pop 0 (KRef (RUuid u)) False (progs s) = (r, ps)" by fastforce
  have "wf_pile ps" using wf_pop_one[OF inv(2), of 0 u False] unfolding p by simp
  moreover have "bodies_sat (\<lambda>p. members_ok p \<and> refs_ok (flow_items s) p) ps"
    using bodies_sat_pop_one[OF inv(2,3), of 0 u False] unfolding p by simp
  moreover have "\<exists>n. snd (drop_prog u s) = s\<lparr>prog_names := n, progs := ps\<rparr>"
    using p by (cases r) (auto simp: drop_prog_def purge_name_index_def simp del: pop.simps)
  ultimately show ?thesis using inv(1) by (auto simp: flow_inv_def)
qed

lemma get_progression_inv: "flow_inv s \<Longrightarrow> flow_inv (snd (get_progression k s))"
  using get_progression_state[of k s] by auto

lemma remove_progression_inv: "flow_inv s \<Longrightarrow> flow_inv (snd (remove_progression k s))"
proof -
  assume "flow_inv s"
  obtain r s1 where g: "get_progression k s = (r, s1)" by fastforce
  then have "flow_inv s1" using get_progression_inv[OF \<open>flow_inv s\<close>, of k] by simp
  then show ?thesis using g drop_prog_inv by (cases r) (auto simp: remove_progression_def)
qed

lemma add_item_inv:
  assumes "flow_inv s"
  shows "flow_inv (snd (add_item x ks s))"
proof -
  obtain r s1 where g: "resolve_all ks s = (r, s1)" by fastforce
  then obtain n where s1: "s1 = s\<lparr>prog_names := n\<rparr>" using resolve_all_state[of ks s] by auto
  with assms have inv1: "flow_inv s1" by simp
  note inv = flow_invD[OF inv1]
  obtain q its where inc: "pile_include [IElem x] (flow_items s1) = (q, its)" by fastforce
  have wf: "wf_pile its" using wf_pile_include[OF inv(1), of "[IElem x]"] inc by simp
  have sub: "set (pile_keys (flow_items s1)) \<subseteq> set (pile_keys its)"
    using pile_include_keys(1)[OF inv(1), of "[IElem x]"] inc by simp
  have b: "bodies_sat (\<lambda>p. members_ok p \<and> refs_ok its p) (progs s1)"
    by (rule bodies_sat_mono[OF inv(3)]) (use sub in \<open>auto simp: refs_ok_iff\<close>)
  have "members_ok (snd (pg_append (elem_ref x) p)) \<and> refs_ok its (snd (pg_append (elem_ref x) p))"
    if "members_ok p \<and> refs_ok its p" "eid x \<in> set (pile_keys its)" for p
  proof
    show "members_ok (snd (pg_append (elem_ref x) p))" using that(1) pg_append_ok by blast
    show "refs_ok its (snd (pg_append (elem_ref x) p))"
      using that by (auto simp: refs_ok_iff pg_append_def elem_ref_def Let_def)
  qed
  moreover have "eid x \<in> set (pile_keys its)" if "q = Inr ()"
    using pile_include_keys(2)[OF inv(1), of x] inc that by simp
  ultimately have "flow_inv (s1\<lparr>flow_items := its,
      progs := fold (\<lambda>u. upd_prog u (\<lambda>p. snd (pg_append (elem_ref x) p))) us (progs s1)\<rparr>)"
    if "q = Inr ()" for us
    using that wf inv(2) b
    by (intro flow_invI) (auto intro: wf_fold_upd_prog bodies_sat_fold)
  moreover have "flow_inv (s1\<lparr>flow_items := its\<rparr>)"
    using wf inv(2) b by (intro flow_invI) auto
  ultimately show ?thesis
    using g inc inv1 by (cases r; cases q) (auto simp: add_item_def)
qed

lemma forget_id_facts:
  assumes "members_ok p"
  shows "members_ok (forget_id x p)" "order (forget_id x p) = filter (\<lambda>u. u \<noteq> x) (order p)"
proof -
  obtain b p1 where c: "pg_contains (RUuid x) p = (b, p1)" by fastforce
  have b: "b = (x \<in> set (order p))" using pg_contains_spec[OF assms, of "RUuid x"] c by simp
  have o: "order p1 = order p" using order_pg_contains[of "RUuid x" p] c by simp
  have s: "synced p1" using assms c by (auto simp: pg_contains_def Let_def)
  show "order (forget_id x p) = filter (\<lambda>u. u \<noteq> x) (order p)"
    using c b o pg_exclude_uuids[of "RUuid x" "[x]" p1]
    by (cases b) (auto simp: forget_id_def intro!: filter_True[symmetric])
  show "members_ok (forget_id x p)"
    using c s pg_exclude_synced[of "RUuid x" "[x]" p1]
    by (cases b) (auto simp: forget_id_def)
qed

lemma remove_item_inv:
  assumes "flow_inv s"
  shows "flow_inv (snd (remove_item r s))"
proof (cases "get_id r")
  case (Inl e)
  then show ?thesis using assms by (simp add: remove_item_def)
next
  case (Inr x)
  note inv = flow_invD[OF assms]
  let ?ps = "fold (\<lambda>u. upd_prog u (forget_id x)) (pile_keys (progs s)) (progs s)"
  obtain q its where p: "pop 0 (KRef (RUuid x)) False (flow_items s) = (q, its)" by fastforce
  have wf: "wf_pile its" using wf_pop_one[OF inv(1), of 0 x False] unfolding p by simp
  have ks: "set (pile_keys its) = set (pile_keys (flow_items s)) - {x}"
    using pop_one_keys[OF inv(1), of 0 x False] unfolding p by simp
  have "bodies_sat (\<lambda>p. members_ok p \<and> refs_ok its p) ?ps"
    by (rule bodies_sat_all[OF inv(3,2)]) (auto simp: forget_id_facts refs_ok_iff ks)
  then have "flow_inv (s\<lparr>progs := ?ps, flow_items := its\<rparr>)"
    using wf inv(2) by (intro flow_invI) (auto intro: wf_fold_upd_prog)
  moreover have "map eid (elems (progs s)) = pile_keys (progs s)" using elems_eids[OF inv(2)] .
  ultimately show ?thesis
    using Inr p pile_values_wf[OF inv(2)]
    by (cases q) (auto simp: remove_item_def Let_def simp del: pop.simps)
qed

lemma flow_step_inv: "flow_inv s \<Longrightarrow> flow_inv (flow_step s op)"
proof (cases op)
  case (FAdd u mro nm xs ops)
  then show "flow_inv s \<Longrightarrow> ?thesis" by (simp add: add_progression_inv)
next
  case FClear
  have "bodies_sat P (pile_clear ps)" for P ps by (simp add: bodies_sat_def pile_clear_def)
  then show "flow_inv s \<Longrightarrow> ?thesis"
    using FClear by (auto simp: flow_inv_def flow_clear_def)
next
  case (FRename u nm)
  have "bodies_sat (\<lambda>p. members_ok p \<and> refs_ok its p) (upd_prog u (\<lambda>p. p\<lparr>pg_name := nm\<rparr>) ps)"
    if "bodies_sat (\<lambda>p. members_ok p \<and> refs_ok its p) ps" for its :: "'a pile" and ps
    using that by (rule bodies_sat_upd) (simp add: members_ok_def refs_ok_def)
  then show "flow_inv s \<Longrightarrow> ?thesis" using FRename by (auto simp: flow_inv_def)
qed (simp_all add: remove_progression_inv get_progression_inv add_item_inv remove_item_inv)

interpretation flow_ops: stepping flow_step flow_inv
  by unfold_locales (rule flow_step_inv)

section \<open>Lookup by name\<close>

lemma find_in_set: "find P xs = Some x \<Longrightarrow> x \<in> set xs \<and> P x"
  by (induction xs) (auto split: if_splits)

lemma elems_dget: "wf_pile s \<Longrightarrow> e \<in> set (elems s) \<longleftrightarrow> dget (collections s) (eid e) = Some e"
proof -
  assume wf: "wf_pile s"
  show ?thesis
  proof
    assume "e \<in> set (elems s)"
    then obtain k where k: "k \<in> set (pile_keys s)" "e = the (dget (collections s) k)"
      by (auto simp: elems_def)
    then obtain e' where "dget (collections s) k = Some e'"
      using pile_keys_wf[OF wf] by (metis dget_Some_iff list.set_map)
    then show "dget (collections s) (eid e) = Some e"
      using k well_keyed_eid[OF wf_pileD(1)[OF wf]] by fastforce
  next
    assume a: "dget (collections s) (eid e) = Some e"
    then have "eid e \<in> set (pile_keys s)" using dgetD[OF a] by (simp add: pile_keys_wf[OF wf])
    then show "e \<in> set (elems s)" using a by (force simp: elems_def)
  qed
qed

lemma name_of_elem:
  "wf_pile (progs s) \<Longrightarrow> name_of u s = Some n \<longleftrightarrow> (\<exists>e \<in> set (elems (progs s)). eid e = u \<and> pg_name (ebody e) = Some n)"
proof -
  assume wf: "wf_pile (progs s)"
  have "e \<in> set (elems (progs s)) \<and> eid e = u" if "dget (collections (progs s)) u = Some e" for e
    using that well_keyed_eid[OF wf_pileD(1)[OF wf] that] elems_dget[OF wf, of e] by simp
  then show ?thesis by (auto simp: name_of_def elems_dget[OF wf] split: option.splits)
qed

lemma scan_name_spec:
  assumes "wf_pile (progs s)" "name_of u s = Some n"
  shows "\<exists>v. fst (scan_name n s) = Inr v \<and> name_of v s = Some n"
proof -
  obtain e where e: "e \<in> set (elems (progs s))" "pg_name (ebody e) = Some n"
    using assms name_of_elem by blast
  then obtain e' where f: "find (\<lambda>e. pg_name (ebody e) = Some n) (elems (progs s)) = Some e'"
    using find_None_iff[of "\<lambda>e. pg_name (ebody e) = Some n" "elems (progs s)"] by fastforce
  then have "name_of (eid e') s = Some n"
    using find_in_set[OF f] name_of_elem[OF assms(1)] by blast
  then show ?thesis using f by (simp add: scan_name_def pile_values_wf[OF assms(1)])
qed

lemma name_of_names [simp]: "name_of u (s\<lparr>prog_names := d\<rparr>) = name_of u s"
  by (simp add: name_of_def)

lemma get_by_name:
  assumes "wf_pile (progs s)" "name_of u s = Some n"
  shows "\<exists>v. fst (get_progression (KName n) s) = Inr v \<and> name_of v s = Some n"
  using scan_name_spec[OF assms] scan_name_spec[of "s\<lparr>prog_names := ddel n (prog_names s)\<rparr>" u n] assms
  by (auto split: option.split)

lemma scan_name_index: "pg_name (ebody e) = Some n \<Longrightarrow> find (\<lambda>e. pg_name (ebody e) = Some n) es = Some e \<Longrightarrow>
   pile_values (progs s) = Inr es \<Longrightarrow>
   scan_name n s = (Inr (eid e), s\<lparr>prog_names := dset n (eid e) (prog_names s)\<rparr>)"
  by (simp add: scan_name_def)

section \<open>Properties\<close>

text \<open>
  C14. Referential integrity.  After any sequence of calls on an empty flow, and of renamings of its
  progressions behind its back, every id in every progression of the flow is the id of an item of the
  flow; \<open>remove_item\<close> takes the id out of all of them, and \<open>add_item\<close> and \<open>add_progression\<close> add only
  known ids.
\<close>

theorem flow_references_resolve:
  fixes u v :: uuid and ops :: "'a flow_op list"
  defines "s \<equiv> foldl flow_step \<lparr>flow_items = pile_of u [], progs = pile_of v [], prog_names = []\<rparr> ops"
  shows "\<forall>k e x. dget (collections (progs s)) k = Some e \<and> x \<in> set (order (ebody e)) \<longrightarrow>
    is_ok (pile_lookup (flow_items s) x) \<and> pile_contains (RUuid x) (flow_items s)"
proof -
  have "bodies_sat P (pile_of v [])" for P by (simp add: bodies_sat_def pile_of_def)
  then have "flow_inv \<lparr>flow_items = pile_of u [], progs = pile_of v [], prog_names = []\<rparr>"
    by (intro flow_invI) simp_all
  then have inv: "flow_inv s" unfolding s_def by (rule flow_ops.run_inv)
  have "is_ok (pile_lookup (flow_items s) x)" if "x \<in> set (pile_keys (flow_items s))" for x
  proof -
    have "dhas (collections (flow_items s)) x" using that pile_keys_wf[OF flow_invD(1)[OF inv]] by simp
    then show ?thesis by (auto simp: pile_lookup_def dget_Some_iff simp del: set_map)
  qed
  moreover have "pile_contains (RUuid x) (flow_items s)" if "x \<in> set (pile_keys (flow_items s))" for x
    using that flow_invD(1)[OF inv] by (simp add: pile_contains_wf pile_keys_wf)
  moreover have "set (order (ebody e)) \<subseteq> set (pile_keys (flow_items s))"
    if "dget (collections (progs s)) k = Some e" for k e
    using that flow_invD(3)[OF inv] by (auto simp: bodies_sat_def refs_ok_iff)
  ultimately show ?thesis by blast
qed

theorem flow_references_resolve_witness:
  "is_ok (pile_lookup (flow_items (foldl flow_step
       \<lparr>flow_items = pile_of 0 [], progs = pile_of 1 [], prog_names = []\<rparr>
       [FAddItem (Elem 7 [''Node''] ()) [], FAdd 20 [''Progression''] (Some ''todo'') [7] []])) 7)"
proof -
  let ?ops = "[FAddItem (Elem 7 [''Node''] ()) [], FAdd 20 [''Progression''] (Some ''todo'') [7] []]"
  have "map_option (\<lambda>e. order (ebody e)) (dget (collections (progs (foldl flow_step
      \<lparr>flow_items = pile_of 0 [], progs = pile_of 1 [], prog_names = []\<rparr> ?ops))) 20) = Some [7]"
    by code_simp
  then show ?thesis using flow_references_resolve[of 0 1 ?ops] by fastforce
qed

text \<open>
  Lookup by name heals the name index.  Whatever the index holds (an entry left behind by a
  renaming or a removal, or none at all), if some progression of the flow currently has the name,
  \<open>get_progression\<close> returns a progression that has it, leaves an index entry for the name that points
  to the progression it returned, and changes nothing but the index.
\<close>

theorem lookup_by_name_heals:
  assumes "wf_pile (progs s)" "name_of u s = Some n"
  shows "\<exists>v. fst (get_progression (KName n) s) = Inr v \<and> name_of v s = Some n \<and>
    dget (prog_names (snd (get_progression (KName n) s))) n = Some v \<and>
    flow_items (snd (get_progression (KName n) s)) = flow_items s \<and>
    progs (snd (get_progression (KName n) s)) = progs s"
proof -
  have scan: "\<exists>v. fst (scan_name n t) = Inr v \<and> name_of v t = Some n \<and>
      dget (prog_names (snd (scan_name n t))) n = Some v \<and>
      flow_items (snd (scan_name n t)) = flow_items t \<and> progs (snd (scan_name n t)) = progs t"
    if t: "wf_pile (progs t)" "name_of u t = Some n" for t :: "'a flow"
  proof -
    obtain x where "x \<in> set (elems (progs t))" "pg_name (ebody x) = Some n"
      using t(2) unfolding name_of_elem[OF t(1)] by blast
    then obtain e where f: "find (\<lambda>e. pg_name (ebody e) = Some n) (elems (progs t)) = Some e"
      using find_None_iff[of "\<lambda>e. pg_name (ebody e) = Some n" "elems (progs t)"] by fastforce
    then have "pg_name (ebody e) = Some n" "name_of (eid e) t = Some n"
      using find_in_set[OF f] name_of_elem[OF t(1)] by blast+
    then show ?thesis
      using scan_name_index[OF _ f pile_values_wf[OF t(1)]] by simp
  qed
  show ?thesis
    using scan[OF assms] scan[of "s\<lparr>prog_names := ddel n (prog_names s)\<rparr>"] assms
    by (auto split: option.split)
qed

theorem lookup_by_name_heals_witness:
  "\<exists>v. fst (get_progression (KName ''b'')
      \<lparr>flow_items = pile_of 0 ([] :: unit elem list),
       progs = pile_of 1 [Elem 20 [''Progression''] (mk_progression 20 (Some ''b'') [])],
       prog_names = [(''b'', 99), (''a'', 20)]\<rparr>) = Inr v"
  using lookup_by_name_heals[of "\<lparr>flow_items = pile_of 0 ([] :: unit elem list),
       progs = pile_of 1 [Elem 20 [''Progression''] (mk_progression 20 (Some ''b'') [])],
       prog_names = [(''b'', 99), (''a'', 20)]\<rparr>" 20 "''b''"]
  by (auto simp: name_of_def pile_of_def mk_progression_def rebuild_members_def well_keyed_def
      wf_pile_def synced_def simp del: get_progression.simps)

end
