(* ===== verification/Graph.thy ===== *)
theory Graph
  imports Pile
begin

text \<open>
  \<open>lionagi/protocols/graph/graph.py\<close> and \<open>edge.py\<close>: a directed multigraph.

  Nodes and edges live in two piles; \<open>mapping\<close> (\<open>node_edge_mapping\<close>) gives for each node the incoming
  and outgoing edges with the node at their other end; two caches hold neighbour lists.  An edge is
  an element whose payload is the record \<open>edge\<close> (\<open>eprops\<close> stands for its other properties).  Every
  mutator is synchronised and is one step here; a node or edge argument that is not of the class is
  recognised by its class names.  The recursion of \<open>is_acyclic\<close> takes the interpreter's remaining
  recursion depth (a \<open>RecursionError\<close> is a RuntimeError); the worklist loops take fuel.  Export to
  networkx and drawing are outside.

  The lemmas show that mapping, edges and caches stay consistent under every mutator, and what the
  traversals compute.
\<close>

section \<open>State\<close>

record ('c, 'p) edge =
  ehead :: uuid
  etail :: uuid
  econd :: "'c option"
  elabel :: "string list option"
  eprops :: 'p

type_synonym links = "(uuid, uuid) pydict"

record adj =
  ins :: links
  outs :: links

record ('n, 'c, 'p) graph =
  nodes :: "'n pile"
  edges :: "('c, 'p) edge pile"
  mapping :: "(uuid, adj) pydict"
  pred_cache :: "(uuid, 'n elem list) pydict"
  succ_cache :: "(uuid, 'n elem list) pydict"

definition no_links :: adj where
  "no_links = \<lparr>ins = [], outs = []\<rparr>"

section \<open>Access to the mapping\<close>

definition adj_of :: "('n, 'c, 'p) graph \<Rightarrow> uuid \<Rightarrow> pyerr + adj" where
  "adj_of g n = (case dget (mapping g) n of None \<Rightarrow> Inl KeyError | Some a \<Rightarrow> Inr a)"

definition link :: "uuid \<Rightarrow> uuid \<Rightarrow> links \<Rightarrow> pyerr + links" where
  "link e n d = Inr (dset e n d)"

definition unlink :: "uuid \<Rightarrow> links \<Rightarrow> pyerr + links" where
  "unlink e d = (if dhas d e then Inr (ddel e d) else Inl KeyError)"

definition on_ins :: "uuid \<Rightarrow> (links \<Rightarrow> pyerr + links) \<Rightarrow> ('n, 'c, 'p) graph \<Rightarrow> (unit, ('n, 'c, 'p) graph) eff" where
  "on_ins n f g =
     (case adj_of g n of
        Inl e \<Rightarrow> (Inl e, g)
      | Inr a \<Rightarrow> (case f (ins a) of
                    Inl e \<Rightarrow> (Inl e, g)
                  | Inr d \<Rightarrow> (Inr (), g\<lparr>mapping := dset n (a\<lparr>ins := d\<rparr>) (mapping g)\<rparr>)))"

definition on_outs :: "uuid \<Rightarrow> (links \<Rightarrow> pyerr + links) \<Rightarrow> ('n, 'c, 'p) graph \<Rightarrow> (unit, ('n, 'c, 'p) graph) eff" where
  "on_outs n f g =
     (case adj_of g n of
        Inl e \<Rightarrow> (Inl e, g)
      | Inr a \<Rightarrow> (case f (outs a) of
                    Inl e \<Rightarrow> (Inl e, g)
                  | Inr d \<Rightarrow> (Inr (), g\<lparr>mapping := dset n (a\<lparr>outs := d\<rparr>) (mapping g)\<rparr>)))"

definition invalidate :: "uuid list \<Rightarrow> ('n, 'c, 'p) graph \<Rightarrow> ('n, 'c, 'p) graph" where
  "invalidate ns g =
     g\<lparr>pred_cache := fold ddel ns (pred_cache g), succ_cache := fold ddel ns (succ_cache g)\<rparr>"

definition edge_at :: "('n, 'c, 'p) graph \<Rightarrow> uuid \<Rightarrow> pyerr + ('c, 'p) edge elem" where
  "edge_at g k = not_found (pile_lookup (edges g) k)"

definition node_at :: "('n, 'c, 'p) graph \<Rightarrow> uuid \<Rightarrow> pyerr + 'n elem" where
  "node_at g k = not_found (pile_lookup (nodes g) k)"

definition has_node :: "('n, 'c, 'p) graph \<Rightarrow> uuid \<Rightarrow> bool" where
  "has_node g n = pile_contains (RUuid n) (nodes g)"

text \<open>\<open>ID.get_id\<close> and the membership test most operations start with.\<close>

definition with_node ::
    "ref \<Rightarrow> ('n, 'c, 'p) graph \<Rightarrow> (uuid \<Rightarrow> ('a, ('n, 'c, 'p) graph) eff) \<Rightarrow> ('a, ('n, 'c, 'p) graph) eff" where
  "with_node r g f =
     (case get_id r of
        Inl e \<Rightarrow> (Inl e, g)
      | Inr n \<Rightarrow> if has_node g n then f n else (Inl RelationError, g))"

section \<open>Construction\<close>

fun index_edges :: "('c, 'p) edge elem list \<Rightarrow> ('n, 'c, 'p) graph \<Rightarrow> (unit, ('n, 'c, 'p) graph) eff" where
  "index_edges [] g = (Inr (), g)"
| "index_edges (e # es) g =
     then_do (on_outs (ehead (ebody e)) (link (eid e) (etail (ebody e))) g) (\<lambda>_ g1.
     then_do (on_ins (etail (ebody e)) (link (eid e) (ehead (ebody e))) g1) (\<lambda>_ g2.
     index_edges es g2))"

definition mk_graph ::
    "'n pile \<Rightarrow> ('c, 'p) edge pile \<Rightarrow> pyerr + ('n, 'c, 'p) graph" where
  "mk_graph ns es =
     (case pile_values ns of
        Inl e \<Rightarrow> Inl e
      | Inr vs \<Rightarrow>
          (let g = \<lparr>nodes = ns, edges = es,
                    mapping = fold (\<lambda>v m. if dhas m (eid v) then m else dset (eid v) no_links m) vs [],
                    pred_cache = [], succ_cache = []\<rparr>
           in (case pile_values es of
                 Inl e \<Rightarrow> Inl e
               | Inr ws \<Rightarrow> (case index_edges ws g of (Inl e, _) \<Rightarrow> Inl e | (Inr _, g') \<Rightarrow> Inr g'))))"

section \<open>Mutators\<close>

definition add_node :: "'n elem \<Rightarrow> ('n, 'c, 'p) graph \<Rightarrow> (unit, ('n, 'c, 'p) graph) eff" where
  "add_node v g =
     (if ''Node'' \<notin> set (emro v) then (Inl RelationError, g)
      else (case pile_insert (int (pile_len (nodes g))) [IElem v] (nodes g) of
              (Inl e, ns) \<Rightarrow>
                (Inl (if e = ItemExistsError then RelationError else e), g\<lparr>nodes := ns\<rparr>)
            | (Inr _, ns) \<Rightarrow>
                (Inr (), g\<lparr>nodes := ns, mapping := dset (eid v) no_links (mapping g)\<rparr>)))"

definition add_edge :: "('c, 'p) edge elem \<Rightarrow> ('n, 'c, 'p) graph \<Rightarrow> (unit, ('n, 'c, 'p) graph) eff" where
  "add_edge e g =
     (let h = ehead (ebody e); t = etail (ebody e)
      in if ''Edge'' \<notin> set (emro e) then (Inl RelationError, g)
         else if \<not> has_node g h \<or> \<not> has_node g t then (Inl RelationError, g)
         else (case pile_insert (int (pile_len (edges g))) [IElem e] (edges g) of
                 (Inl err, es) \<Rightarrow>
                   (Inl (if err = ItemExistsError then RelationError else err), g\<lparr>edges := es\<rparr>)
               | (Inr _, es) \<Rightarrow>
                   then_do (on_outs h (link (eid e) t) (g\<lparr>edges := es\<rparr>)) (\<lambda>_ g1.
                   then_do (on_ins t (link (eid e) h) g1) (\<lambda>_ g2.
                   (Inr (), invalidate [h, t] g2)))))"

definition pop_edge :: "uuid \<Rightarrow> ('n, 'c, 'p) graph \<Rightarrow> (unit, ('n, 'c, 'p) graph) eff" where
  "pop_edge k g =
     (case pop 0 (KRef (RUuid k)) False (edges g) of
        (Inl e, es) \<Rightarrow> (Inl e, g\<lparr>edges := es\<rparr>)
      | (Inr _, es) \<Rightarrow> (Inr (), g\<lparr>edges := es\<rparr>))"

text \<open>The two loops of \<open>remove_node\<close>, over the links into and out of the node.\<close>

fun cut_in :: "links \<Rightarrow> ('n, 'c, 'p) graph \<Rightarrow> (unit, ('n, 'c, 'p) graph) eff" where
  "cut_in [] g = (Inr (), g)"
| "cut_in ((k, n) # ks) g =
     then_do (on_outs n (unlink k) g) (\<lambda>_ g1.
     then_do (pop_edge k g1) (\<lambda>_ g2.
     cut_in ks (invalidate [n] g2)))"

fun cut_out :: "links \<Rightarrow> ('n, 'c, 'p) graph \<Rightarrow> (unit, ('n, 'c, 'p) graph) eff" where
  "cut_out [] g = (Inr (), g)"
| "cut_out ((k, n) # ks) g =
     then_do (on_ins n (unlink k) g) (\<lambda>_ g1.
     then_do (pop_edge k g1) (\<lambda>_ g2.
     cut_out ks (invalidate [n] g2)))"

definition pop_node :: "uuid \<Rightarrow> ('n, 'c, 'p) graph \<Rightarrow> ('n elem, ('n, 'c, 'p) graph) eff" where
  "pop_node n g =
     (if dhas (mapping g) n
      then (let g1 = g\<lparr>mapping := ddel n (mapping g)\<rparr>
            in (case pop 0 (KRef (RUuid n)) False (nodes g1) of
                  (Inr (One v), ns) \<Rightarrow> (Inr v, g1\<lparr>nodes := ns\<rparr>)
                | (Inr _, ns) \<Rightarrow> (Inl OtherException, g1\<lparr>nodes := ns\<rparr>)
                | (Inl e, ns) \<Rightarrow> (Inl e, g1\<lparr>nodes := ns\<rparr>)))
      else (Inl KeyError, g))"

definition remove_node :: "ref \<Rightarrow> ('n, 'c, 'p) graph \<Rightarrow> ('n elem, ('n, 'c, 'p) graph) eff" where
  "remove_node r g =
     with_node r g (\<lambda>n.
       case adj_of g n of
         Inl e \<Rightarrow> (Inl e, g)
       | Inr a \<Rightarrow>
           then_do (cut_in (ins a) g) (\<lambda>_ g1.
             case adj_of g1 n of
               Inl e \<Rightarrow> (Inl e, g1)
             | Inr b \<Rightarrow>
                 then_do (cut_out (outs b) g1) (\<lambda>_ g2.
                 pop_node n (invalidate [n] g2))))"

definition remove_edge :: "ref \<Rightarrow> ('n, 'c, 'p) graph \<Rightarrow> (unit, ('n, 'c, 'p) graph) eff" where
  "remove_edge r g =
     (case get_id r of
        Inl e \<Rightarrow> (Inl e, g)
      | Inr k \<Rightarrow>
          if \<not> pile_contains (RUuid k) (edges g) then (Inl RelationError, g)
          else (case edge_at g k of
                  Inl e \<Rightarrow> (Inl e, g)
                | Inr e \<Rightarrow>
                    (let h = ehead (ebody e); t = etail (ebody e)
                     in then_do (on_outs h (unlink k) g) (\<lambda>_ g1.
                        then_do (on_ins t (unlink k) g1) (\<lambda>_ g2.
                        pop_edge k (invalidate [h, t] g2))))))"

text \<open>An attribute assignment on an edge object of the graph.\<close>

definition upd_edge ::
    "uuid \<Rightarrow> (('c, 'p) edge \<Rightarrow> ('c, 'p) edge) \<Rightarrow> ('n, 'c, 'p) graph \<Rightarrow> (unit, ('n, 'c, 'p) graph) eff" where
  "upd_edge k f g =
     (case edge_at g k of
        Inl e \<Rightarrow> (Inl e, g)
      | Inr e \<Rightarrow>
          (Inr (), g\<lparr>edges := (edges g)\<lparr>collections :=
             dset k (Elem (eid e) (emro e) (f (ebody e))) (collections (edges g))\<rparr>\<rparr>))"

fun move_in :: "uuid \<Rightarrow> links \<Rightarrow> ('n, 'c, 'p) graph \<Rightarrow> (unit, ('n, 'c, 'p) graph) eff" where
  "move_in new [] g = (Inr (), g)"
| "move_in new ((k, h) # ks) g =
     then_do (upd_edge k (\<lambda>e. e\<lparr>etail := new\<rparr>) g) (\<lambda>_ g1.
     then_do (on_ins new (link k h) g1) (\<lambda>_ g2.
     then_do (on_outs h (link k new) g2) (\<lambda>_ g3.
     move_in new ks (invalidate [h] g3))))"

fun move_out :: "uuid \<Rightarrow> links \<Rightarrow> ('n, 'c, 'p) graph \<Rightarrow> (unit, ('n, 'c, 'p) graph) eff" where
  "move_out new [] g = (Inr (), g)"
| "move_out new ((k, t) # ks) g =
     then_do (upd_edge k (\<lambda>e. e\<lparr>ehead := new\<rparr>) g) (\<lambda>_ g1.
     then_do (on_outs new (link k t) g1) (\<lambda>_ g2.
     then_do (on_ins t (link k new) g2) (\<lambda>_ g3.
     move_out new ks (invalidate [t] g3))))"

definition insert_new_node :: "'n elem \<Rightarrow> ('n, 'c, 'p) graph \<Rightarrow> (unit, ('n, 'c, 'p) graph) eff" where
  "insert_new_node v g =
     (if has_node g (eid v) then (Inl RelationError, g)
      else (case pile_insert (int (pile_len (nodes g))) [IElem v] (nodes g) of
              (Inl e, ns) \<Rightarrow> (Inl e, g\<lparr>nodes := ns\<rparr>)
            | (Inr _, ns) \<Rightarrow>
                (Inr (), g\<lparr>nodes := ns, mapping := dset (eid v) no_links (mapping g)\<rparr>)))"

definition replace_node :: "ref \<Rightarrow> 'n elem \<Rightarrow> ('n, 'c, 'p) graph \<Rightarrow> ('n elem, ('n, 'c, 'p) graph) eff" where
  "replace_node r v g =
     with_node r g (\<lambda>old.
       then_do (insert_new_node v g) (\<lambda>_ g1.
         case adj_of g1 old of
           Inl e \<Rightarrow> (Inl e, g1)
         | Inr a \<Rightarrow>
             then_do (move_in (eid v) (ins a) g1) (\<lambda>_ g2.
               case adj_of g2 old of
                 Inl e \<Rightarrow> (Inl e, g2)
               | Inr b \<Rightarrow>
                   then_do (move_out (eid v) (outs b) g2) (\<lambda>_ g3.
                   pop_node old (invalidate [old, eid v] g3)))))"

definition edge_mro :: "string list" where
  "edge_mro = [''Edge'', ''Element'', ''Observable'']"

text \<open>
  The copy of an edge that \<open>splice_after\<close> makes: an empty label list is falsy and is dropped.
\<close>

definition respliced :: "uuid \<Rightarrow> uuid \<Rightarrow> uuid \<Rightarrow> ('c, 'p) edge \<Rightarrow> ('c, 'p) edge elem" where
  "respliced u new t old =
     Elem u edge_mro
       \<lparr>ehead = new, etail = t, econd = econd old,
        elabel = (if elabel old = Some [] then None else elabel old), eprops = eprops old\<rparr>"

definition insert_edge :: "('c, 'p) edge elem \<Rightarrow> ('n, 'c, 'p) graph \<Rightarrow> (unit, ('n, 'c, 'p) graph) eff" where
  "insert_edge e g =
     (case pile_insert (int (pile_len (edges g))) [IElem e] (edges g) of
        (Inl err, es) \<Rightarrow> (Inl err, g\<lparr>edges := es\<rparr>)
      | (Inr _, es) \<Rightarrow> (Inr (), g\<lparr>edges := es\<rparr>))"

text \<open>The loop of \<open>splice_after\<close>; \<open>fresh\<close> supplies the ids of the new edges.\<close>

fun splice_loop ::
    "uuid \<Rightarrow> uuid \<Rightarrow> (nat \<Rightarrow> uuid) \<Rightarrow> nat \<Rightarrow> links \<Rightarrow> ('n, 'c, 'p) graph
      \<Rightarrow> (uuid list, ('n, 'c, 'p) graph) eff" where
  "splice_loop a new fresh i [] g = (Inr [], g)"
| "splice_loop a new fresh i ((k, t) # ks) g =
     (case edge_at g k of
        Inl e \<Rightarrow> (Inl e, g)
      | Inr old \<Rightarrow>
          (let u = fresh i
           in then_do (insert_edge (respliced u new t (ebody old)) g) (\<lambda>_ g1.
              then_do (on_outs new (link u t) g1) (\<lambda>_ g2.
              then_do (on_ins t (link u new) g2) (\<lambda>_ g3.
              then_do (on_ins t (unlink k) g3) (\<lambda>_ g4.
              then_do (on_outs a (unlink k) g4) (\<lambda>_ g5.
              then_do (pop_edge k g5) (\<lambda>_ g6.
              then_do (splice_loop a new fresh (Suc i) ks (invalidate [t] g6)) (\<lambda>us g7.
              (Inr (u # us), g7))))))))))"

definition splice_after ::
    "(nat \<Rightarrow> uuid) \<Rightarrow> 'p \<Rightarrow> ref \<Rightarrow> 'n elem \<Rightarrow> ('n, 'c, 'p) graph \<Rightarrow> (uuid list, ('n, 'c, 'p) graph) eff" where
  "splice_after fresh none r v g =
     with_node r g (\<lambda>a.
       then_do (insert_new_node v g) (\<lambda>_ g1.
         case adj_of g1 a of
           Inl e \<Rightarrow> (Inl e, g1)
         | Inr x \<Rightarrow>
             then_do (splice_loop a (eid v) fresh 1 (outs x) g1) (\<lambda>us g2.
             then_do (insert_edge (Elem (fresh 0) edge_mro
               \<lparr>ehead = a, etail = eid v, econd = None, elabel = None, eprops = none\<rparr>) g2) (\<lambda>_ g3.
             then_do (on_outs a (link (fresh 0) (eid v)) g3) (\<lambda>_ g4.
             then_do (on_ins (eid v) (link (fresh 0) a) g4) (\<lambda>_ g5.
             (Inr (fresh 0 # us), invalidate [a, eid v] g5)))))))"

section \<open>Readers\<close>

datatype direction = Both | DIn | DOut

text \<open>\<open>Pile(result, item_type={\<dots>})\<close>: repeated elements collapse.\<close>

definition as_pile :: "string \<Rightarrow> 'b elem list \<Rightarrow> pyerr + 'b elem list" where
  "as_pile cls es = map_sum id (map snd) (validate_collections (Some {cls}) False (map IElem es))"

definition find_node_edge ::
    "ref \<Rightarrow> direction \<Rightarrow> ('n, 'c, 'p) graph \<Rightarrow> pyerr + ('c, 'p) edge elem list" where
  "find_node_edge r d g =
     fst (with_node r g (\<lambda>n.
       (case adj_of g n of
          Inl e \<Rightarrow> Inl e
        | Inr a \<Rightarrow>
            (case collect_ok (map (edge_at g)
                    ((if d \<in> {Both, DIn} then dkeys (ins a) else [])
                     @ (if d \<in> {Both, DOut} then dkeys (outs a) else []))) of
               Inl e \<Rightarrow> Inl e
             | Inr es \<Rightarrow> as_pile ''Edge'' es), g)))"

definition get_predecessors :: "ref \<Rightarrow> ('n, 'c, 'p) graph \<Rightarrow> pyerr + 'n elem list" where
  "get_predecessors r g =
     (case find_node_edge r DIn g of
        Inl e \<Rightarrow> Inl e
      | Inr es \<Rightarrow>
          (case collect_ok (map (\<lambda>e. node_at g (ehead (ebody e))) es) of
             Inl e \<Rightarrow> Inl e | Inr ns \<Rightarrow> as_pile ''Node'' ns))"

definition get_successors :: "ref \<Rightarrow> ('n, 'c, 'p) graph \<Rightarrow> pyerr + 'n elem list" where
  "get_successors r g =
     (case find_node_edge r DOut g of
        Inl e \<Rightarrow> Inl e
      | Inr es \<Rightarrow>
          (case collect_ok (map (\<lambda>e. node_at g (etail (ebody e))) es) of
             Inl e \<Rightarrow> Inl e | Inr ns \<Rightarrow> as_pile ''Node'' ns))"

definition predecessor_ids :: "ref \<Rightarrow> ('n, 'c, 'p) graph \<Rightarrow> pyerr + uuid list" where
  "predecessor_ids r g = fst (with_node r g (\<lambda>n. (map_sum id (map snd \<circ> ins) (adj_of g n), g)))"

definition successor_ids :: "ref \<Rightarrow> ('n, 'c, 'p) graph \<Rightarrow> pyerr + uuid list" where
  "successor_ids r g = fst (with_node r g (\<lambda>n. (map_sum id (map snd \<circ> outs) (adj_of g n), g)))"

definition get_predecessors_cached ::
    "ref \<Rightarrow> ('n, 'c, 'p) graph \<Rightarrow> ('n elem list, ('n, 'c, 'p) graph) eff" where
  "get_predecessors_cached r g =
     (case get_id r of
        Inl e \<Rightarrow> (Inl e, g)
      | Inr n \<Rightarrow>
          (case dget (pred_cache g) n of
             Some vs \<Rightarrow> (Inr vs, g)
           | None \<Rightarrow>
               if \<not> has_node g n then (Inl RelationError, g)
               else (case adj_of g n of
                       Inl e \<Rightarrow> (Inl e, g)
                     | Inr a \<Rightarrow>
                         (case collect_ok (map (node_at g) (map snd (ins a))) of
                            Inl e \<Rightarrow> (Inl e, g)
                          | Inr vs \<Rightarrow> (Inr vs, g\<lparr>pred_cache := dset n vs (pred_cache g)\<rparr>)))))"

definition get_successors_cached ::
    "ref \<Rightarrow> ('n, 'c, 'p) graph \<Rightarrow> ('n elem list, ('n, 'c, 'p) graph) eff" where
  "get_successors_cached r g =
     (case get_id r of
        Inl e \<Rightarrow> (Inl e, g)
      | Inr n \<Rightarrow>
          (case dget (succ_cache g) n of
             Some vs \<Rightarrow> (Inr vs, g)
           | None \<Rightarrow>
               if \<not> has_node g n then (Inl RelationError, g)
               else (case adj_of g n of
                       Inl e \<Rightarrow> (Inl e, g)
                     | Inr a \<Rightarrow>
                         (case collect_ok (map (node_at g) (map snd (outs a))) of
                            Inl e \<Rightarrow> (Inl e, g)
                          | Inr vs \<Rightarrow> (Inr vs, g\<lparr>succ_cache := dset n vs (succ_cache g)\<rparr>)))))"

definition get_heads :: "('n, 'c, 'p) graph \<Rightarrow> pyerr + 'n elem list" where
  "get_heads g =
     (case collect_ok (map (\<lambda>(n, _). node_at g n) (filter (\<lambda>(_, a). ins a = []) (mapping g))) of
        Inl e \<Rightarrow> Inl e | Inr vs \<Rightarrow> as_pile ''Node'' vs)"

definition get_tails :: "('n, 'c, 'p) graph \<Rightarrow> pyerr + 'n elem list" where
  "get_tails g =
     (case collect_ok (map (\<lambda>(n, _). node_at g n) (filter (\<lambda>(_, a). outs a = []) (mapping g))) of
        Inl e \<Rightarrow> Inl e | Inr vs \<Rightarrow> as_pile ''Node'' vs)"

definition graph_contains :: "ref \<Rightarrow> ('n, 'c, 'p) graph \<Rightarrow> bool" where
  "graph_contains r g \<longleftrightarrow> pile_contains r (nodes g) \<or> pile_contains r (edges g)"

section \<open>Traversals\<close>

type_synonym colours = "(uuid, nat) pydict"

text \<open>
  The nested function \<open>visit\<close> of \<open>is_acyclic\<close> (0 unvisited, 1 on the stack, 2 done).  The first argument
  is the number of frames the interpreter still allows.
\<close>

fun visit_edges ::
    "(uuid \<Rightarrow> colours \<Rightarrow> (bool, colours) eff) \<Rightarrow> ('n, 'c, 'p) graph \<Rightarrow> uuid list \<Rightarrow> colours
      \<Rightarrow> (bool, colours) eff" where
  "visit_edges f g [] c = (Inr True, c)"
| "visit_edges f g (k # ks) c =
     (case edge_at g k of
        Inl e \<Rightarrow> (Inl e, c)
      | Inr e \<Rightarrow>
          then_do (f (etail (ebody e)) c) (\<lambda>ok c1.
          if ok then visit_edges f g ks c1 else (Inr False, c1)))"

fun visit :: "nat \<Rightarrow> ('n, 'c, 'p) graph \<Rightarrow> uuid \<Rightarrow> colours \<Rightarrow> (bool, colours) eff" where
  "visit 0 g n c = (Inl RuntimeError, c)"
| "visit (Suc d) g n c =
     (case dget c n of
        None \<Rightarrow> (Inl KeyError, c)
      | Some m \<Rightarrow>
          if m = 2 then (Inr True, c)
          else if m = 1 then (Inr False, c)
          else (let c1 = dset n 1 c
                in (case adj_of g n of
                      Inl e \<Rightarrow> (Inl e, c1)
                    | Inr a \<Rightarrow>
                        then_do (visit_edges (visit d g) g (dkeys (outs a)) c1) (\<lambda>ok c2.
                        if ok then (Inr True, dset n 2 c2) else (Inr False, c2)))))"

fun visit_all :: "nat \<Rightarrow> ('n, 'c, 'p) graph \<Rightarrow> uuid list \<Rightarrow> colours \<Rightarrow> pyerr + bool" where
  "visit_all d g [] c = Inr True"
| "visit_all d g (n # ns) c =
     (case visit d g n c of
        (Inl e, _) \<Rightarrow> Inl e
      | (Inr False, _) \<Rightarrow> Inr False
      | (Inr True, c1) \<Rightarrow> visit_all d g ns c1)"

definition is_acyclic :: "nat \<Rightarrow> ('n, 'c, 'p) graph \<Rightarrow> pyerr + bool" where
  "is_acyclic depth g =
     (let ids = order (progression (nodes g))
      in visit_all depth g (rev ids) (fold (\<lambda>n c. dset n 0 c) ids []))"

text \<open>\<open>topological_sort\<close>: the inner loop over the out edges of a node, and the queue.\<close>

fun relax ::
    "('n, 'c, 'p) graph \<Rightarrow> uuid list \<Rightarrow> uuid list \<Rightarrow> (uuid, int) pydict
      \<Rightarrow> pyerr + uuid list \<times> (uuid, int) pydict" where
  "relax g [] q d = Inr (q, d)"
| "relax g (k # ks) q d =
     (case edge_at g k of
        Inl e \<Rightarrow> Inl e
      | Inr e \<Rightarrow>
          (let t = etail (ebody e)
           in (case dget d t of
                 None \<Rightarrow> Inl KeyError
               | Some n \<Rightarrow> relax g ks (if n - 1 = 0 then q @ [t] else q) (dset t (n - 1) d))))"

fun kahn ::
    "nat \<Rightarrow> ('n, 'c, 'p) graph \<Rightarrow> uuid list \<Rightarrow> (uuid, int) pydict \<Rightarrow> 'n elem list
      \<Rightarrow> (pyerr + 'n elem list) option" where
  "kahn fuel g [] d res = Some (Inr res)"
| "kahn 0 g (n # q) d res = None"
| "kahn (Suc fuel) g (n # q) d res =
     (case node_at g n of
        Inl e \<Rightarrow> Some (Inl e)
      | Inr v \<Rightarrow>
          (case adj_of g n of
             Inl e \<Rightarrow> Some (Inl e)
           | Inr a \<Rightarrow>
               (case relax g (dkeys (outs a)) q d of
                  Inl e \<Rightarrow> Some (Inl e)
                | Inr (q', d') \<Rightarrow> kahn fuel g q' d' (res @ [v]))))"

definition topological_sort :: "nat \<Rightarrow> ('n, 'c, 'p) graph \<Rightarrow> (pyerr + 'n elem list) option" where
  "topological_sort fuel g =
     (let d = map (\<lambda>(n, a). (n, int (length (ins a)))) (mapping g);
          q = map fst (filter (\<lambda>(_, k). k = 0) d)
      in (case kahn fuel g q d [] of
            None \<Rightarrow> None
          | Some (Inl e) \<Rightarrow> Some (Inl e)
          | Some (Inr res) \<Rightarrow>
              Some (if length res \<noteq> length (mapping g) then Inl ValueError else Inr res)))"

text \<open>
  \<open>find_path\<close>: breadth first.  \<open>chk\<close> is the asynchronous edge condition (constantly true without
  \<open>check_conditions\<close>); the path is read off the parent links from the end.
\<close>

type_synonym parents = "(uuid, uuid \<times> uuid) pydict"

fun walk_back ::
    "nat \<Rightarrow> ('n, 'c, 'p) graph \<Rightarrow> parents \<Rightarrow> uuid \<Rightarrow> ('c, 'p) edge elem list
      \<Rightarrow> (pyerr + ('c, 'p) edge elem list) option" where
  "walk_back fuel g par n path =
     (case dget par n of
        None \<Rightarrow> Some (Inr path)
      | Some (p, k) \<Rightarrow>
          (case fuel of
             0 \<Rightarrow> None
           | Suc f \<Rightarrow>
               (case edge_at g k of
                  Inl e \<Rightarrow> Some (Inl e)
                | Inr e \<Rightarrow> walk_back f g par p (e # path))))"

fun explore ::
    "(('c, 'p) edge elem \<Rightarrow> pyerr + bool) \<Rightarrow> ('n, 'c, 'p) graph \<Rightarrow> uuid \<Rightarrow> uuid \<Rightarrow> uuid list
      \<Rightarrow> uuid list \<Rightarrow> parents \<Rightarrow> uuid list \<Rightarrow> pyerr + bool \<times> uuid list \<times> parents \<times> uuid list" where
  "explore chk g goal cur [] q par vis = Inr (False, q, par, vis)"
| "explore chk g goal cur (k # ks) q par vis =
     (case edge_at g k of
        Inl e \<Rightarrow> Inl e
      | Inr e \<Rightarrow>
          (let t = etail (ebody e)
           in if t \<in> set vis then explore chk g goal cur ks q par vis
              else (case chk e of
                      Inl err \<Rightarrow> Inl err
                    | Inr False \<Rightarrow> explore chk g goal cur ks q par vis
                    | Inr True \<Rightarrow>
                        (let par' = dset t (cur, k) par
                         in if t = goal then Inr (True, q @ [t], par', t # vis)
                            else explore chk g goal cur ks (q @ [t]) par' (t # vis)))))"

fun bfs ::
    "nat \<Rightarrow> (('c, 'p) edge elem \<Rightarrow> pyerr + bool) \<Rightarrow> ('n, 'c, 'p) graph \<Rightarrow> uuid \<Rightarrow> uuid list \<Rightarrow> parents
      \<Rightarrow> uuid list \<Rightarrow> (pyerr + ('c, 'p) edge elem list option) option" where
  "bfs fuel chk g goal [] par vis = Some (Inr None)"
| "bfs 0 chk g goal (n # q) par vis = None"
| "bfs (Suc fuel) chk g goal (n # q) par vis =
     (case adj_of g n of
        Inl e \<Rightarrow> Some (Inl e)
      | Inr a \<Rightarrow>
          (case explore chk g goal n (dkeys (outs a)) q par vis of
             Inl e \<Rightarrow> Some (Inl e)
           | Inr (True, _, par', _) \<Rightarrow>
               map_option (map_sum id Some) (walk_back (length par') g par' goal [])
           | Inr (False, q', par', vis') \<Rightarrow> bfs fuel chk g goal q' par' vis'))"

definition find_path ::
    "nat \<Rightarrow> (('c, 'p) edge elem \<Rightarrow> pyerr + bool) \<Rightarrow> bool \<Rightarrow> ref \<Rightarrow> ref \<Rightarrow> ('n, 'c, 'p) graph
      \<Rightarrow> (pyerr + ('c, 'p) edge elem list option) option" where
  "find_path fuel chk check start goal g =
     (case (get_id start, get_id goal) of
        (Inl e, _) \<Rightarrow> Some (Inl e)
      | (_, Inl e) \<Rightarrow> Some (Inl e)
      | (Inr s, Inr t) \<Rightarrow>
          if \<not> has_node g s \<or> \<not> has_node g t then Some (Inl RelationError)
          else if s = t then Some (Inr (Some []))
          else bfs fuel (if check then chk else (\<lambda>_. Inr True)) g t [s] [] [s])"

section \<open>The mapping mirrors the edges\<close>

text \<open>The ends of an edge, and the links into and out of a node that a set of edges calls for.\<close>

type_synonym ends = "uuid \<rightharpoonup> uuid \<times> uuid"

definition ends_of :: "('n, 'c, 'p) graph \<Rightarrow> ends" where
  "ends_of g k = map_option (\<lambda>e. (ehead (ebody e), etail (ebody e))) (plook (edges g) k)"

definition in_links :: "ends \<Rightarrow> uuid \<Rightarrow> uuid \<rightharpoonup> uuid" where
  "in_links ev n k = (case ev k of Some (h, t) \<Rightarrow> if t = n then Some h else None | None \<Rightarrow> None)"

definition out_links :: "ends \<Rightarrow> uuid \<Rightarrow> uuid \<rightharpoonup> uuid" where
  "out_links ev n k = (case ev k of Some (h, t) \<Rightarrow> if h = n then Some t else None | None \<Rightarrow> None)"

definition caches_ok :: "uuid set \<Rightarrow> ('n, 'c, 'p) graph \<Rightarrow> bool" where
  "caches_ok D g \<longleftrightarrow>
     (\<forall>n vs. dget (pred_cache g) n = Some vs \<and> n \<notin> D \<longrightarrow>
        (\<exists>a. dget (mapping g) n = Some a \<and> map (plook (nodes g)) (map snd (ins a)) = map Some vs)) \<and>
     (\<forall>n vs. dget (succ_cache g) n = Some vs \<and> n \<notin> D \<longrightarrow>
        (\<exists>a. dget (mapping g) n = Some a \<and> map (plook (nodes g)) (map snd (outs a)) = map Some vs))"

text \<open>
  \<open>gmap g D M I K\<close>: the mapping has the nodes \<open>M\<close> with the links \<open>I\<close> and \<open>K\<close>, and the caches are right
  except perhaps for the nodes \<open>D\<close>.
\<close>

definition gmap ::
    "('n, 'c, 'p) graph \<Rightarrow> uuid set \<Rightarrow> uuid set \<Rightarrow> (uuid \<Rightarrow> uuid \<rightharpoonup> uuid) \<Rightarrow> (uuid \<Rightarrow> uuid \<rightharpoonup> uuid) \<Rightarrow> bool" where
  "gmap g D M I K \<longleftrightarrow>
     distinct (dkeys (mapping g)) \<and> fst ` set (mapping g) = M \<and>
     (\<forall>n a. dget (mapping g) n = Some a \<longrightarrow>
        distinct (dkeys (ins a)) \<and> distinct (dkeys (outs a)) \<and> dget (ins a) = I n \<and> dget (outs a) = K n) \<and>
     caches_ok D g"

definition graph_inv :: "('n, 'c, 'p) graph \<Rightarrow> bool" where
  "graph_inv g \<longleftrightarrow>
     wf_pile (nodes g) \<and> wf_pile (edges g) \<and>
     type_ok (item_type (edges g)) (strict_type (edges g)) edge_mro \<and>
     gmap g {} (set (pile_keys (nodes g))) (in_links (ends_of g)) (out_links (ends_of g)) \<and>
     (\<forall>k h t. ends_of g k = Some (h, t) \<longrightarrow> h \<in> set (pile_keys (nodes g)) \<and> t \<in> set (pile_keys (nodes g)))"

lemma graph_invD:
  assumes "graph_inv g"
  shows "wf_pile (nodes g)" "wf_pile (edges g)"
    "type_ok (item_type (edges g)) (strict_type (edges g)) edge_mro"
    "gmap g {} (set (pile_keys (nodes g))) (in_links (ends_of g)) (out_links (ends_of g))"
    "ends_of g k = Some (h, t) \<Longrightarrow> h \<in> set (pile_keys (nodes g))"
    "ends_of g k = Some (h, t) \<Longrightarrow> t \<in> set (pile_keys (nodes g))"
  using assms by (auto simp: graph_inv_def)

subsection \<open>Link calculus\<close>

lemma in_links_add:
  "ev k = None \<Longrightarrow> in_links (ev(k \<mapsto> (h, t))) = (in_links ev)(t := (in_links ev t)(k \<mapsto> h))"
  by (rule ext)+ (auto simp: in_links_def)

lemma out_links_add:
  "ev k = None \<Longrightarrow> out_links (ev(k \<mapsto> (h, t))) = (out_links ev)(h := (out_links ev h)(k \<mapsto> t))"
  by (rule ext)+ (auto simp: out_links_def)

lemma in_links_del:
  "ev k = Some (h, t) \<Longrightarrow> in_links (ev(k := None)) = (in_links ev)(t := (in_links ev t)(k := None))"
  by (rule ext)+ (auto simp: in_links_def)

lemma out_links_del:
  "ev k = Some (h, t) \<Longrightarrow> out_links (ev(k := None)) = (out_links ev)(h := (out_links ev h)(k := None))"
  by (rule ext)+ (auto simp: out_links_def)

lemma in_links_Some: "in_links ev n k = Some h \<longleftrightarrow> ev k = Some (h, n)"
  by (auto simp: in_links_def split: option.splits)

lemma out_links_Some: "out_links ev n k = Some t \<longleftrightarrow> ev k = Some (n, t)"
  by (auto simp: out_links_def split: option.splits)

lemma caches_ok_mono: "caches_ok D g \<Longrightarrow> D \<subseteq> D' \<Longrightarrow> caches_ok D' g"
  unfolding caches_ok_def by blast

lemma gmap_mono: "gmap g D M I K \<Longrightarrow> D \<subseteq> D' \<Longrightarrow> gmap g D' M I K"
  unfolding gmap_def using caches_ok_mono by blast

lemma gmap_adj:
  assumes "gmap g D M I K" "n \<in> M"
  obtains a where "dget (mapping g) n = Some a" "adj_of g n = Inr a"
    "distinct (dkeys (ins a))" "distinct (dkeys (outs a))" "dget (ins a) = I n" "dget (outs a) = K n"
proof -
  have "dhas (mapping g) n" using assms by (auto simp: gmap_def)
  then obtain a where "dget (mapping g) n = Some a" by (auto simp: dget_Some_iff simp del: set_map)
  then show thesis using that[of a] assms(1) by (auto simp: gmap_def adj_of_def)
qed

lemma adj_of_Inr: "adj_of g n = Inr a \<longleftrightarrow> dget (mapping g) n = Some a"
  by (auto simp: adj_of_def split: option.split)

lemma gmap_set_adj:
  assumes "gmap g D M I K" "n \<in> M" "distinct (dkeys (ins a))" "distinct (dkeys (outs a))"
  shows "gmap (g\<lparr>mapping := dset n a (mapping g)\<rparr>) (insert n D) M
    (I(n := dget (ins a))) (K(n := dget (outs a)))"
  using assms unfolding gmap_def caches_ok_def by auto

text \<open>The four link updates: they succeed, and change one entry.\<close>

lemma on_ins_gmap:
  assumes "gmap g D M I K" "n \<in> M"
    and "\<And>d. distinct (dkeys d) \<Longrightarrow> dget d = I n \<Longrightarrow> \<exists>d'. f d = Inr d' \<and> distinct (dkeys d') \<and> dget d' = J"
  shows "\<exists>g'. on_ins n f g = (Inr (), g') \<and> gmap g' (insert n D) M (I(n := J)) K \<and>
    nodes g' = nodes g \<and> edges g' = edges g"
proof -
  from assms(1,2) obtain a where a: "adj_of g n = Inr a" "distinct (dkeys (ins a))"
    "distinct (dkeys (outs a))" "dget (ins a) = I n" "dget (outs a) = K n"
    by (rule gmap_adj)
  with assms(3) obtain d where d: "f (ins a) = Inr d" "distinct (dkeys d)" "dget d = J" by blast
  have "K(n := K n) = K" by simp
  then show ?thesis
    using gmap_set_adj[OF assms(1,2), of "a\<lparr>ins := d\<rparr>"] a d by (simp add: on_ins_def)
qed

lemma on_outs_gmap:
  assumes "gmap g D M I K" "n \<in> M"
    and "\<And>d. distinct (dkeys d) \<Longrightarrow> dget d = K n \<Longrightarrow> \<exists>d'. f d = Inr d' \<and> distinct (dkeys d') \<and> dget d' = J"
  shows "\<exists>g'. on_outs n f g = (Inr (), g') \<and> gmap g' (insert n D) M I (K(n := J)) \<and>
    nodes g' = nodes g \<and> edges g' = edges g"
proof -
  from assms(1,2) obtain a where a: "adj_of g n = Inr a" "distinct (dkeys (ins a))"
    "distinct (dkeys (outs a))" "dget (ins a) = I n" "dget (outs a) = K n"
    by (rule gmap_adj)
  with assms(3) obtain d where d: "f (outs a) = Inr d" "distinct (dkeys d)" "dget d = J" by blast
  have "I(n := I n) = I" by simp
  then show ?thesis
    using gmap_set_adj[OF assms(1,2), of "a\<lparr>outs := d\<rparr>"] a d by (simp add: on_outs_def)
qed

lemma link_dict: "distinct (dkeys d) \<Longrightarrow> dget d = m \<Longrightarrow>
    \<exists>d'. link k x d = Inr d' \<and> distinct (dkeys d') \<and> dget d' = m(k \<mapsto> x)"
  by (auto simp: link_def fun_eq_iff)

lemma unlink_dict: "m k \<noteq> None \<Longrightarrow> distinct (dkeys d) \<Longrightarrow> dget d = m \<Longrightarrow>
    \<exists>d'. unlink k d = Inr d' \<and> distinct (dkeys d') \<and> dget d' = m(k := None)"
proof -
  assume a: "m k \<noteq> None" "distinct (dkeys d)" "dget d = m"
  then have "dhas d k" by (auto dest: dgetD)
  then show ?thesis using a by (auto simp: unlink_def fun_eq_iff)
qed

lemma ends_of_edges: "edges g' = edges g \<Longrightarrow> ends_of g' = ends_of g"
  by (simp add: ends_of_def fun_eq_iff)

lemma gmap_edges [simp]: "gmap (g\<lparr>edges := es\<rparr>) D M I K = gmap g D M I K"
  by (simp add: gmap_def caches_ok_def)

lemma gmap_invalidate:
  "gmap g D M I K \<Longrightarrow> gmap (invalidate ns g) (D - set ns) M I K"
  by (auto simp: gmap_def caches_ok_def invalidate_def dhas_fold_ddel split: if_splits)

lemma invalidate_simps [simp]:
  "nodes (invalidate ns g) = nodes g" "edges (invalidate ns g) = edges g"
  "mapping (invalidate ns g) = mapping g"
  by (simp_all add: invalidate_def)

subsection \<open>Steps on nodes, edges and mapping together\<close>

definition gst ::
    "('n, 'c, 'p) graph \<Rightarrow> 'n pile \<Rightarrow> ends \<Rightarrow> uuid set \<Rightarrow> uuid set \<Rightarrow> (uuid \<Rightarrow> uuid \<rightharpoonup> uuid)
      \<Rightarrow> (uuid \<Rightarrow> uuid \<rightharpoonup> uuid) \<Rightarrow> bool" where
  "gst g ns ev D M I K \<longleftrightarrow>
     gmap g D M I K \<and> nodes g = ns \<and> wf_pile (edges g) \<and>
     type_ok (item_type (edges g)) (strict_type (edges g)) edge_mro \<and> ends_of g = ev"

lemma gstI:
  "gmap g D M I K \<Longrightarrow> nodes g = ns \<Longrightarrow> wf_pile (edges g) \<Longrightarrow>
   type_ok (item_type (edges g)) (strict_type (edges g)) edge_mro \<Longrightarrow> ends_of g = ev \<Longrightarrow>
   gst g ns ev D M I K"
  by (simp add: gst_def)

lemma gstD:
  assumes "gst g ns ev D M I K"
  shows "gmap g D M I K" "nodes g = ns" "wf_pile (edges g)"
    "type_ok (item_type (edges g)) (strict_type (edges g)) edge_mro" "ends_of g = ev"
  using assms by (simp_all add: gst_def)

lemma gst_carry:
  "gst g ns ev D M I K \<Longrightarrow> gmap g' D' M' I' K' \<Longrightarrow> nodes g' = nodes g \<Longrightarrow> edges g' = edges g \<Longrightarrow>
   gst g' ns ev D' M' I' K'"
  using ends_of_edges[of g' g] by (simp add: gst_def)

lemma gst_mono: "gst g ns ev D M I K \<Longrightarrow> D \<subseteq> D' \<Longrightarrow> gst g ns ev D' M I K"
  unfolding gst_def using gmap_mono by blast

lemma gst_invalidate: "gst g ns ev D M I K \<Longrightarrow> gst (invalidate xs g) ns ev (D - set xs) M I K"
  by (rule gst_carry) (auto dest: gstD intro: gmap_invalidate)

text \<open>Dirtying a node and then invalidating it leaves at most what was dirty before.\<close>

lemma gst_invalidate_one:
  assumes "gst g ns ev (insert n (insert m D)) M I K" "m \<in> insert n D"
  shows "gst (invalidate [n] g) ns ev D M I K"
  by (rule gst_mono[OF gst_invalidate[OF assms(1)]]) (use assms(2) in auto)

lemma gst_link_in:
  assumes "gst g ns ev D M I K" "n \<in> M"
  shows "\<exists>g'. on_ins n (link k x) g = (Inr (), g') \<and> gst g' ns ev (insert n D) M (I(n := (I n)(k \<mapsto> x))) K"
proof -
  note r = on_ins_gmap[OF gstD(1)[OF assms(1)] assms(2), of "link k x" "(I n)(k \<mapsto> x)"]
  from r[OF link_dict] gst_carry[OF assms(1)] show ?thesis by blast
qed

lemma gst_link_out:
  assumes "gst g ns ev D M I K" "n \<in> M"
  shows "\<exists>g'. on_outs n (link k x) g = (Inr (), g') \<and> gst g' ns ev (insert n D) M I (K(n := (K n)(k \<mapsto> x)))"
proof -
  note r = on_outs_gmap[OF gstD(1)[OF assms(1)] assms(2), of "link k x" "(K n)(k \<mapsto> x)"]
  from r[OF link_dict] gst_carry[OF assms(1)] show ?thesis by blast
qed

lemma gst_unlink_in:
  assumes "gst g ns ev D M I K" "n \<in> M" "I n k \<noteq> None"
  shows "\<exists>g'. on_ins n (unlink k) g = (Inr (), g') \<and> gst g' ns ev (insert n D) M (I(n := (I n)(k := None))) K"
proof -
  note r = on_ins_gmap[OF gstD(1)[OF assms(1)] assms(2), of "unlink k" "(I n)(k := None)"]
  from r[OF unlink_dict[where m = "I n" and k = k, OF assms(3)]] gst_carry[OF assms(1)] show ?thesis by blast
qed

lemma gst_unlink_out:
  assumes "gst g ns ev D M I K" "n \<in> M" "K n k \<noteq> None"
  shows "\<exists>g'. on_outs n (unlink k) g = (Inr (), g') \<and> gst g' ns ev (insert n D) M I (K(n := (K n)(k := None)))"
proof -
  note r = on_outs_gmap[OF gstD(1)[OF assms(1)] assms(2), of "unlink k" "(K n)(k := None)"]
  from r[OF unlink_dict[where m = "K n" and k = k, OF assms(3)]] gst_carry[OF assms(1)] show ?thesis by blast
qed

lemma pile_types_pput [simp]:
  "wf_pile s \<Longrightarrow> item_type (pput e s) = item_type s"
  "wf_pile s \<Longrightarrow> strict_type (pput e s) = strict_type s"
  by (auto simp: pput_def pile_insert_def split: sum.split prod.split)

lemma pile_types_pdel [simp]:
  assumes "wf_pile s"
  shows "item_type (pdel k s) = item_type s" "strict_type (pdel k s) = strict_type s"
proof -
  have "item_type (pdel k s) = item_type s \<and> strict_type (pdel k s) = strict_type s"
  proof (cases "dget (collections s) k")
    case None
    then have "pop_keys [k] (collections s) = (Inl KeyError, collections s)" by simp
    then show ?thesis
      by (simp add: pdel_def exclude_nonempty[of _ "[k]"] or_default_def del: pop_keys.simps)
  next
    case (Some e)
    then show ?thesis using pop_one_result[OF assms Some, of 0 False] by (simp add: pdel_def)
  qed
  then show "item_type (pdel k s) = item_type s" "strict_type (pdel k s) = strict_type s" by auto
qed

lemma ends_pput:
  "wf_pile (edges g) \<Longrightarrow> paccepts (edges g) e \<Longrightarrow>
   ends_of (g\<lparr>edges := pput e (edges g)\<rparr>) = (ends_of g)(eid e \<mapsto> (ehead (ebody e), etail (ebody e)))"
  by (rule ext) (simp add: ends_of_def pstore.put_look)

lemma ends_pdel:
  "wf_pile (edges g) \<Longrightarrow> ends_of (g\<lparr>edges := pdel k (edges g)\<rparr>) = (ends_of g)(k := None)"
  by (rule ext) (simp add: ends_of_def pstore.del_look)

lemma ends_mem: "wf_pile (edges g) \<Longrightarrow> k \<in> set (pile_keys (edges g)) \<longleftrightarrow> ends_of g k \<noteq> None"
  by (simp add: ends_of_def pstore.ids_look)

lemma gst_pop_edge:
  assumes "gst g ns ev D M I K" "ev k = Some x"
  shows "\<exists>g'. pop_edge k g = (Inr (), g') \<and> gst g' ns (ev(k := None)) D M I K"
proof -
  note st = gstD[OF assms(1)]
  have "plook (edges g) k \<noteq> None" using assms(2) st(5) by (auto simp: ends_of_def)
  then obtain e where "plook (edges g) k = Some e" by blast
  then have "pop_edge k g = (Inr (), g\<lparr>edges := pdel k (edges g)\<rparr>)"
    unfolding pop_edge_def using pop_present[OF st(3)] by simp
  moreover have "gst (g\<lparr>edges := pdel k (edges g)\<rparr>) ns (ev(k := None)) D M I K"
    using st by (intro gstI) (simp_all add: ends_pdel pstore.del_inv)
  ultimately show ?thesis by blast
qed

lemma edge_at_ends: "ends_of g k = Some (h, t) \<Longrightarrow>
    \<exists>e. edge_at g k = Inr e \<and> plook (edges g) k = Some e \<and> ehead (ebody e) = h \<and> etail (ebody e) = t"
  by (auto simp: ends_of_def edge_at_def pile_lookup_def plook_def not_found_def)

lemma gst_insert_edge:
  assumes "gst g ns ev D M I K" "ev (eid e) = None" "emro e = edge_mro"
  shows "\<exists>g'. insert_edge e g = (Inr (), g') \<and>
    gst g' ns (ev(eid e \<mapsto> (ehead (ebody e), etail (ebody e)))) D M I K"
proof -
  note st = gstD[OF assms(1)]
  have acc: "paccepts (edges g) e"
    using assms st by (simp add: paccepts_def ends_mem)
  have "insert_edge e g = (Inr (), g\<lparr>edges := pput e (edges g)\<rparr>)"
    unfolding insert_edge_def pile_insert_end_eq[OF st(3) acc] by simp
  moreover have "gst (g\<lparr>edges := pput e (edges g)\<rparr>) ns
      (ev(eid e \<mapsto> (ehead (ebody e), etail (ebody e)))) D M I K"
    using st acc by (intro gstI) (simp_all add: ends_pput pstore.put_inv)
  ultimately show ?thesis by blast
qed

lemma gst_upd_edge:
  assumes "gst g ns ev D M I K" "ev k = Some (h, t)"
    and "\<And>b. ehead b = h \<Longrightarrow> etail b = t \<Longrightarrow> ehead (f b) = h' \<and> etail (f b) = t'"
  shows "\<exists>g'. upd_edge k f g = (Inr (), g') \<and> gst g' ns (ev(k \<mapsto> (h', t'))) D M I K"
proof -
  note st = gstD[OF assms(1)]
  from assms(2) st(5) obtain e where e: "edge_at g k = Inr e" "plook (edges g) k = Some e"
    "ehead (ebody e) = h" "etail (ebody e) = t" using edge_at_ends by metis
  let ?e = "Elem (eid e) (emro e) (f (ebody e))"
  let ?g = "g\<lparr>edges := (edges g)\<lparr>collections := dset k ?e (collections (edges g))\<rparr>\<rparr>"
  have k: "eid e = k" using pstore.look_key[OF st(3) e(2)] .
  have m: "eid ?e \<in> fst ` set (collections (edges g))"
    using e(2) dgetD[of "collections (edges g)" k] by (simp add: plook_def k)
  have "wf_pile (edges ?g)" using wf_replace_same[OF st(3) m] by (simp add: k)
  moreover have "ends_of ?g = ev(k \<mapsto> (h', t'))"
    using assms(3)[OF e(3,4)] st(5)
    by (auto simp: ends_of_def plook_def fun_eq_iff)
  ultimately show ?thesis using st e(1) by (auto simp: upd_edge_def intro!: gstI)
qed

subsection \<open>The mutators\<close>

definition less_edges :: "ends \<Rightarrow> uuid set \<Rightarrow> ends" where
  "less_edges ev S k = (if k \<in> S then None else ev k)"

lemma less_edges_simps [simp]:
  "less_edges ev {} = ev" "less_edges (ev(k := None)) S = less_edges ev (insert k S)"
  by (rule ext; simp add: less_edges_def)+

lemma other_key:
  assumes "distinct (dkeys ((k, x) # ks))" "\<forall>(k', y) \<in> set ((k, x) # ks). P k' y"
    "\<And>k' y. k' \<noteq> k \<Longrightarrow> P k' y \<Longrightarrow> Q k' y"
  shows "\<forall>(k', y) \<in> set ks. Q k' y"
proof clarify
  fix k' y
  assume m: "(k', y) \<in> set ks"
  then have "k' \<in> fst ` set ks" by force
  then have "k' \<noteq> k" using assms(1) by auto
  moreover have "P k' y" using m assms(2) by auto
  ultimately show "Q k' y" by (rule assms(3))
qed

lemma cut_in_gst:
  assumes "gst g ns ev D M ((in_links ev)(n := J)) (out_links ev)" "distinct (dkeys ks)"
    "\<forall>(k, h) \<in> set ks. ev k = Some (h, n) \<and> h \<in> M"
  shows "\<exists>g'. cut_in ks g = (Inr (), g') \<and>
    gst g' ns (less_edges ev (fst ` set ks)) D M ((in_links (less_edges ev (fst ` set ks)))(n := J))
      (out_links (less_edges ev (fst ` set ks)))"
  using assms
proof (induction ks arbitrary: g ev)
  case (Cons p ks)
  obtain k h where p: "p = (k, h)" by fastforce
  with Cons.prems have ev: "ev k = Some (h, n)" and h: "h \<in> M" by auto
  then have "out_links ev h k \<noteq> None" by (simp add: out_links_def)
  from gst_unlink_out[OF Cons.prems(1) h this] obtain g1 where g1:
    "on_outs h (unlink k) g = (Inr (), g1)"
    "gst g1 ns ev (insert h D) M ((in_links ev)(n := J)) (out_links (ev(k := None)))"
    unfolding out_links_del[of ev k h n, OF ev] by blast
  from gst_pop_edge[OF g1(2) ev] obtain g2 where g2: "pop_edge k g1 = (Inr (), g2)"
    "gst g2 ns (ev(k := None)) (insert h D) M ((in_links ev)(n := J)) (out_links (ev(k := None)))"
    by blast
  have "(in_links ev)(n := J) = (in_links (ev(k := None)))(n := J)"
    by (simp add: in_links_del[of ev k h n, OF ev])
  then have a: "gst (invalidate [h] g2) ns (ev(k := None)) D M ((in_links (ev(k := None)))(n := J))
      (out_links (ev(k := None)))"
    using gst_invalidate_one[of g2 ns "ev(k := None)" h h D] g2(2) by simp
  have dk: "distinct (dkeys ks)" using Cons.prems(2) by simp
  have b: "\<forall>(k', h) \<in> set ks. (ev(k := None)) k' = Some (h, n) \<and> h \<in> M"
    by (rule other_key[OF Cons.prems(2)[unfolded p] Cons.prems(3)[unfolded p]]) auto
  note step = Cons.IH[OF a dk b]
  have "fst ` set (p # ks) = insert k (fst ` set ks)" by (simp add: p)
  with step show ?case
    unfolding p cut_in.simps g1(1) then_do_simps g2(1) less_edges_simps by simp
qed simp

lemma cut_out_gst:
  assumes "gst g ns ev D M ((in_links ev)(n := J)) ((out_links ev)(n := K))" "distinct (dkeys ks)"
    "\<forall>(k, t) \<in> set ks. ev k = Some (n, t) \<and> t \<in> M \<and> t \<noteq> n"
  shows "\<exists>g'. cut_out ks g = (Inr (), g') \<and>
    gst g' ns (less_edges ev (fst ` set ks)) D M ((in_links (less_edges ev (fst ` set ks)))(n := J))
      ((out_links (less_edges ev (fst ` set ks)))(n := K))"
  using assms
proof (induction ks arbitrary: g ev)
  case (Cons p ks)
  obtain k t where p: "p = (k, t)" by fastforce
  with Cons.prems have ev: "ev k = Some (n, t)" and t: "t \<in> M" "t \<noteq> n" by auto
  then have "((in_links ev)(n := J)) t k \<noteq> None" by (simp add: in_links_def)
  note un = gst_unlink_in[OF Cons.prems(1) t(1) this]
  have eq: "((in_links ev)(n := J))(t := (((in_links ev)(n := J)) t)(k := None)) =
      (in_links (ev(k := None)))(n := J)"
    using t(2) ev by (intro ext) (auto simp: in_links_def)
  from un obtain g1 where g1:
    "on_ins t (unlink k) g = (Inr (), g1)"
    "gst g1 ns ev (insert t D) M ((in_links (ev(k := None)))(n := J)) ((out_links ev)(n := K))"
    unfolding eq by blast
  from gst_pop_edge[OF g1(2) ev] obtain g2 where g2: "pop_edge k g1 = (Inr (), g2)"
    "gst g2 ns (ev(k := None)) (insert t D) M ((in_links (ev(k := None)))(n := J))
      ((out_links ev)(n := K))"
    by blast
  have "(out_links ev)(n := K) = (out_links (ev(k := None)))(n := K)"
    by (simp add: out_links_del[of ev k n t, OF ev])
  then have a: "gst (invalidate [t] g2) ns (ev(k := None)) D M ((in_links (ev(k := None)))(n := J))
      ((out_links (ev(k := None)))(n := K))"
    using gst_invalidate_one[of g2 ns "ev(k := None)" t t D] g2(2) by simp
  have dk: "distinct (dkeys ks)" using Cons.prems(2) by simp
  have b: "\<forall>(k', t) \<in> set ks. (ev(k := None)) k' = Some (n, t) \<and> t \<in> M \<and> t \<noteq> n"
    by (rule other_key[OF Cons.prems(2)[unfolded p] Cons.prems(3)[unfolded p]]) auto
  note step = Cons.IH[OF a dk b]
  have "fst ` set (p # ks) = insert k (fst ` set ks)" by (simp add: p)
  with step show ?case
    unfolding p cut_out.simps g1(1) then_do_simps g2(1) less_edges_simps by simp
qed simp

lemma move_in_gst:
  assumes "gst g ns ev D M ((in_links ev)(old := J)) (out_links ev)" "distinct (dkeys ks)"
    "\<forall>(k, h) \<in> set ks. ev k = Some (h, old) \<and> h \<in> M" "new \<in> M" "new \<noteq> old" "new \<in> D"
  shows "\<exists>g'. move_in new ks g = (Inr (), g') \<and>
    (let ev' = (\<lambda>k. if k \<in> fst ` set ks then map_option (\<lambda>(h, t). (h, new)) (ev k) else ev k)
     in gst g' ns ev' D M ((in_links ev')(old := J)) (out_links ev'))"
  using assms
proof (induction ks arbitrary: g ev)
  case (Cons p ks)
  obtain k h where p: "p = (k, h)" by fastforce
  with Cons.prems have ev: "ev k = Some (h, old)" and h: "h \<in> M" by auto
  let ?ev = "ev(k \<mapsto> (h, new))"
  have "\<exists>g1. upd_edge k (\<lambda>e. e\<lparr>etail := new\<rparr>) g = (Inr (), g1) \<and>
      gst g1 ns ?ev D M ((in_links ev)(old := J)) (out_links ev)"
    by (rule gst_upd_edge[OF Cons.prems(1) ev]) simp
  then obtain g1 where g1:
    "upd_edge k (\<lambda>e. e\<lparr>etail := new\<rparr>) g = (Inr (), g1)"
    "gst g1 ns ?ev D M ((in_links ev)(old := J)) (out_links ev)" by blast
  have "((in_links ev)(old := J))(new := (((in_links ev)(old := J)) new)(k \<mapsto> h)) =
      (in_links ?ev)(old := J)"
    using ev Cons.prems(5) by (intro ext) (auto simp: in_links_def)
  with gst_link_in[OF g1(2) Cons.prems(4), of k h] obtain g2 where g2:
    "on_ins new (link k h) g1 = (Inr (), g2)"
    "gst g2 ns ?ev (insert new D) M ((in_links ?ev)(old := J)) (out_links ev)" by auto
  have "(out_links ev)(h := (out_links ev h)(k \<mapsto> new)) = out_links ?ev"
    using ev by (intro ext) (auto simp: out_links_def)
  with gst_link_out[OF g2(2) h, of k new] obtain g3 where g3:
    "on_outs h (link k new) g2 = (Inr (), g3)"
    "gst g3 ns ?ev (insert h (insert new D)) M ((in_links ?ev)(old := J)) (out_links ?ev)" by auto
  have a: "gst (invalidate [h] g3) ns ?ev D M ((in_links ?ev)(old := J)) (out_links ?ev)"
    using gst_mono[OF gst_invalidate[OF g3(2), of "[h]"], of D] Cons.prems(6) by auto
  have dk: "distinct (dkeys ks)" using Cons.prems(2) by simp
  have b: "\<forall>(k', h) \<in> set ks. ?ev k' = Some (h, old) \<and> h \<in> M"
    by (rule other_key[OF Cons.prems(2)[unfolded p] Cons.prems(3)[unfolded p]]) auto
  note step = Cons.IH[OF a dk b Cons.prems(4-6)]
  have "(\<lambda>k'. if k' \<in> fst ` set ks then map_option (\<lambda>(h, t). (h, new)) (?ev k') else ?ev k') =
      (\<lambda>k'. if k' \<in> fst ` set (p # ks) then map_option (\<lambda>(h, t). (h, new)) (ev k') else ev k')"
    using ev p by auto
  with step show ?case
    unfolding p move_in.simps g1(1) then_do_simps g2(1) g3(1) by simp
qed simp

lemma move_out_gst:
  assumes "gst g ns ev D M ((in_links ev)(old := J)) ((out_links ev)(old := K))" "distinct (dkeys ks)"
    "\<forall>(k, t) \<in> set ks. ev k = Some (old, t) \<and> t \<in> M \<and> t \<noteq> old" "new \<in> M" "new \<noteq> old" "new \<in> D"
  shows "\<exists>g'. move_out new ks g = (Inr (), g') \<and>
    (let ev' = (\<lambda>k. if k \<in> fst ` set ks then map_option (\<lambda>(h, t). (new, t)) (ev k) else ev k)
     in gst g' ns ev' D M ((in_links ev')(old := J)) ((out_links ev')(old := K)))"
  using assms
proof (induction ks arbitrary: g ev)
  case (Cons p ks)
  obtain k t where p: "p = (k, t)" by fastforce
  with Cons.prems have ev: "ev k = Some (old, t)" and t: "t \<in> M" "t \<noteq> old" by auto
  let ?ev = "ev(k \<mapsto> (new, t))"
  have "\<exists>g1. upd_edge k (\<lambda>e. e\<lparr>ehead := new\<rparr>) g = (Inr (), g1) \<and>
      gst g1 ns ?ev D M ((in_links ev)(old := J)) ((out_links ev)(old := K))"
    by (rule gst_upd_edge[OF Cons.prems(1) ev]) simp
  then obtain g1 where g1:
    "upd_edge k (\<lambda>e. e\<lparr>ehead := new\<rparr>) g = (Inr (), g1)"
    "gst g1 ns ?ev D M ((in_links ev)(old := J)) ((out_links ev)(old := K))" by blast
  have "((out_links ev)(old := K))(new := (((out_links ev)(old := K)) new)(k \<mapsto> t)) =
      (out_links ?ev)(old := K)"
    using ev Cons.prems(5) by (intro ext) (auto simp: out_links_def)
  with gst_link_out[OF g1(2) Cons.prems(4), of k t] obtain g2 where g2:
    "on_outs new (link k t) g1 = (Inr (), g2)"
    "gst g2 ns ?ev (insert new D) M ((in_links ev)(old := J)) ((out_links ?ev)(old := K))" by auto
  have "((in_links ev)(old := J))(t := (((in_links ev)(old := J)) t)(k \<mapsto> new)) =
      (in_links ?ev)(old := J)"
    using ev t by (intro ext) (auto simp: in_links_def)
  with gst_link_in[OF g2(2) t(1), of k new] obtain g3 where g3:
    "on_ins t (link k new) g2 = (Inr (), g3)"
    "gst g3 ns ?ev (insert t (insert new D)) M ((in_links ?ev)(old := J)) ((out_links ?ev)(old := K))"
    by auto
  have a: "gst (invalidate [t] g3) ns ?ev D M ((in_links ?ev)(old := J)) ((out_links ?ev)(old := K))"
    using gst_mono[OF gst_invalidate[OF g3(2), of "[t]"], of D] Cons.prems(6) by auto
  have dk: "distinct (dkeys ks)" using Cons.prems(2) by simp
  have b: "\<forall>(k', t) \<in> set ks. ?ev k' = Some (old, t) \<and> t \<in> M \<and> t \<noteq> old"
    by (rule other_key[OF Cons.prems(2)[unfolded p] Cons.prems(3)[unfolded p]]) auto
  note step = Cons.IH[OF a dk b Cons.prems(4-6)]
  have "(\<lambda>k'. if k' \<in> fst ` set ks then map_option (\<lambda>(h, t). (new, t)) (?ev k') else ?ev k') =
      (\<lambda>k'. if k' \<in> fst ` set (p # ks) then map_option (\<lambda>(h, t). (new, t)) (ev k') else ev k')"
    using ev p by auto
  with step show ?case
    unfolding p move_out.simps g1(1) then_do_simps g2(1) g3(1) by simp
qed simp

lemma gmap_cong:
  assumes "gmap g D M I K" "\<And>n. n \<in> M \<Longrightarrow> I n = I' n \<and> K n = K' n"
  shows "gmap g D M I' K'"
proof -
  have "n \<in> M" if "dget (mapping g) n = Some a" for n a
    using dgetD[OF that] assms(1) by (auto simp: gmap_def)
  then show ?thesis using assms unfolding gmap_def by (metis (no_types, lifting))
qed

lemma gst_cong: "gst g ns ev D M I K \<Longrightarrow> (\<And>n. n \<in> M \<Longrightarrow> I n = I' n \<and> K n = K' n) \<Longrightarrow> gst g ns ev D M I' K'"
  unfolding gst_def using gmap_cong by blast

lemma graph_inv_gst:
  "graph_inv g \<longleftrightarrow> wf_pile (nodes g) \<and>
     gst g (nodes g) (ends_of g) {} (set (pile_keys (nodes g))) (in_links (ends_of g)) (out_links (ends_of g)) \<and>
     (\<forall>k h t. ends_of g k = Some (h, t) \<longrightarrow> {h, t} \<subseteq> set (pile_keys (nodes g)))"
  by (auto simp: graph_inv_def gst_def)

lemma map_plook_del:
  "wf_pile ns \<Longrightarrow> n \<notin> set xs \<Longrightarrow> map (plook (pdel n ns)) xs = map (plook ns) xs"
  by (auto simp: pstore.del_look)

lemma map_plook_put:
  "wf_pile ns \<Longrightarrow> map (plook ns) xs = map Some vs \<Longrightarrow> map (plook (pput v ns)) xs = map Some vs"
proof -
  assume wf: "wf_pile ns" and m: "map (plook ns) xs = map Some vs"
  have "plook (pput v ns) x = plook ns x" if "x \<in> set xs" for x
  proof (cases "paccepts ns v")
    case True
    have "plook ns x \<in> set (map Some vs)" using that m by (metis image_eqI list.set_map)
    then have "x \<in> set (pile_keys ns)" using pstore.ids_look[OF wf] by auto
    then show ?thesis using pstore.accepts_new[OF wf True] True wf by (auto simp: pstore.put_look)
  next
    case False
    then show ?thesis using pstore.put_refused[OF wf] by simp
  qed
  then show ?thesis using m by (metis map_eq_conv)
qed

lemma links_values:
  assumes "gmap g D M I K" "dget (mapping g) m = Some a"
  shows "x \<in> set (map snd (ins a)) \<Longrightarrow> \<exists>k. I m k = Some x"
    "x \<in> set (map snd (outs a)) \<Longrightarrow> \<exists>k. K m k = Some x"
proof -
  from assms have d: "distinct (dkeys (ins a))" "distinct (dkeys (outs a))"
    "dget (ins a) = I m" "dget (outs a) = K m" by (auto simp: gmap_def)
  show "x \<in> set (map snd (ins a)) \<Longrightarrow> \<exists>k. I m k = Some x"
    "x \<in> set (map snd (outs a)) \<Longrightarrow> \<exists>k. K m k = Some x"
    using map_of_is_SomeI[OF d(1)] map_of_is_SomeI[OF d(2)] unfolding d(3,4) by fastforce+
qed

lemma gst_pop_node:
  assumes "gst g ns ev D M I K" "wf_pile ns" "plook ns n = Some v" "n \<in> M"
    "dget (pred_cache g) n = None" "dget (succ_cache g) n = None"
    "\<And>m k. m \<in> M - {n} \<Longrightarrow> I m k \<noteq> Some n \<and> K m k \<noteq> Some n"
  shows "\<exists>g'. pop_node n g = (Inr v, g') \<and> gst g' (pdel n ns) ev D (M - {n}) I K"
proof -
  note st = gstD[OF assms(1)]
  let ?g = "g\<lparr>mapping := ddel n (mapping g), nodes := pdel n ns\<rparr>"
  have has: "dhas (mapping g) n" using st(1) assms(4) by (auto simp: gmap_def)
  have ca: "caches_ok D g" using st(1) by (simp add: gmap_def)
  have notin: "n \<notin> set (map snd (ins a)) \<and> n \<notin> set (map snd (outs a))"
    if "dget (mapping g) m = Some a" "m \<noteq> n" for m a
  proof -
    have "m \<in> M" using dgetD[OF that(1)] st(1) by (auto simp: gmap_def)
    then show ?thesis using links_values[OF st(1) that(1)] assms(7) that(2) by blast
  qed
  have pd: "map (plook (pdel n ns)) (map snd (ins a)) = map (plook (nodes g)) (map snd (ins a)) \<and>
      map (plook (pdel n ns)) (map snd (outs a)) = map (plook (nodes g)) (map snd (outs a))"
    if "dget (mapping g) m = Some a" "m \<noteq> n" for m a
    unfolding st(2) using notin[OF that] by (intro conjI map_plook_del[OF assms(2)]) auto
  have "caches_ok D ?g"
    unfolding caches_ok_def
  proof (intro conjI allI impI; elim conjE)
    fix m vs
    assume c: "dget (pred_cache ?g) m = Some vs" "m \<notin> D"
    then have mn: "m \<noteq> n" using assms(5) by auto
    have "dget (pred_cache g) m = Some vs" using c(1) by simp
    then obtain a where "dget (mapping g) m = Some a"
      "map (plook (nodes g)) (map snd (ins a)) = map Some vs"
      using ca[unfolded caches_ok_def, THEN conjunct1, rule_format, of m vs] c(2) by blast
    then show "\<exists>a. dget (mapping ?g) m = Some a \<and> map (plook (nodes ?g)) (map snd (ins a)) = map Some vs"
      using pd mn by (auto simp del: map_map map_eq_conv)
  next
    fix m vs
    assume c: "dget (succ_cache ?g) m = Some vs" "m \<notin> D"
    then have mn: "m \<noteq> n" using assms(6) by auto
    have "dget (succ_cache g) m = Some vs" using c(1) by simp
    then obtain a where "dget (mapping g) m = Some a"
      "map (plook (nodes g)) (map snd (outs a)) = map Some vs"
      using ca[unfolded caches_ok_def, THEN conjunct2, rule_format, of m vs] c(2) by blast
    then show "\<exists>a. dget (mapping ?g) m = Some a \<and> map (plook (nodes ?g)) (map snd (outs a)) = map Some vs"
      using pd mn by (auto simp del: map_map map_eq_conv)
  qed
  then have "gmap ?g D (M - {n}) I K" using st(1) by (auto simp: gmap_def)
  then have "gst ?g (pdel n ns) ev D (M - {n}) I K"
    using st by (intro gstI) (auto simp: ends_of_def)
  moreover have "pop_node n g = (Inr v, ?g)"
    using has pop_present[OF assms(2,3)] st(2) by (simp add: pop_node_def Let_def del: pop.simps)
  ultimately show ?thesis by blast
qed

lemma gst_start:
  "graph_inv g \<Longrightarrow>
   gst g (nodes g) (ends_of g) {} (set (pile_keys (nodes g))) (in_links (ends_of g)) (out_links (ends_of g))"
  by (simp add: graph_inv_gst)

text \<open>The invariant of a state whose links are those of its edges.\<close>

lemma graph_inv_of_gst:
  assumes "gst g ns ev {} M (in_links ev) (out_links ev)" "wf_pile ns" "set (pile_keys ns) = M"
    "\<And>k h t. ev k = Some (h, t) \<Longrightarrow> h \<in> M \<and> t \<in> M"
  shows "graph_inv g"
  using assms gstD[OF assms(1)] by (auto simp: graph_inv_gst)

lemma in_dict_entries:
  assumes "gmap g D M (in_links ev) K" "adj_of g n = Inr a"
  shows "distinct (dkeys (ins a))" "(k, h) \<in> set (ins a) \<longleftrightarrow> ev k = Some (h, n)"
proof -
  from assms have d: "distinct (dkeys (ins a))" "dget (ins a) = in_links ev n"
    by (auto simp: gmap_def adj_of_Inr)
  show "distinct (dkeys (ins a))" by fact
  show "(k, h) \<in> set (ins a) \<longleftrightarrow> ev k = Some (h, n)"
    using in_links_Some[of ev n k h] map_of_is_SomeI[OF d(1)] map_of_SomeD[of "ins a" k h]
    unfolding d(2) by auto
qed

lemma out_dict_entries:
  assumes "gmap g D M I K" "adj_of g n = Inr a" "K n = out_links ev n"
  shows "distinct (dkeys (outs a))" "(k, t) \<in> set (outs a) \<longleftrightarrow> ev k = Some (n, t)"
proof -
  from assms have d: "distinct (dkeys (outs a))" "dget (outs a) = out_links ev n"
    by (auto simp: gmap_def adj_of_Inr)
  show "distinct (dkeys (outs a))" by fact
  show "(k, t) \<in> set (outs a) \<longleftrightarrow> ev k = Some (n, t)"
    using out_links_Some[of ev n k t] map_of_is_SomeI[OF d(1)] map_of_SomeD[of "outs a" k t]
    unfolding d(2) by auto
qed

lemma has_node_iff: "wf_pile (nodes g) \<Longrightarrow> has_node g n \<longleftrightarrow> n \<in> set (pile_keys (nodes g))"
  by (simp add: has_node_def pile_contains_wf pile_keys_wf)

lemma adj_present: "gst g ns ev D M I K \<Longrightarrow> n \<in> M \<Longrightarrow> \<exists>a. adj_of g n = Inr a"
  using gmap_adj[OF gstD(1)] by metis

definition incident_free :: "ends \<Rightarrow> uuid \<Rightarrow> ends" where
  "incident_free ev n k =
     (case ev k of None \<Rightarrow> None | Some (h, t) \<Rightarrow> if h = n \<or> t = n then None else Some (h, t))"

lemma remove_node_result:
  assumes "graph_inv g" "get_id r = Inr n" "plook (nodes g) n = Some v"
  shows "\<exists>g'. remove_node r g = (Inr v, g') \<and> graph_inv g' \<and> nodes g' = pdel n (nodes g) \<and>
    ends_of g' = incident_free (ends_of g) n"
proof -
  note inv = graph_invD[OF assms(1)]
  let ?N = "set (pile_keys (nodes g))" and ?ev = "ends_of g"
  have n: "n \<in> ?N" using pstore.ids_look[OF inv(1)] assms(3) by auto
  note g0 = gst_start[OF assms(1)]
  from adj_present[OF g0 n] obtain a where a: "adj_of g n = Inr a" by blast
  note ia = in_dict_entries[OF gstD(1)[OF g0] a]
  let ?S = "fst ` set (ins a)" and ?ev1 = "less_edges ?ev (fst ` set (ins a))"
  have S: "k \<in> ?S \<longleftrightarrow> (\<exists>h. ?ev k = Some (h, n))" for k using ia(2) by force
  have g0': "gst g (nodes g) ?ev {} ?N ((in_links ?ev)(n := in_links ?ev n)) (out_links ?ev)"
    using g0 by simp
  have "\<forall>(k, h) \<in> set (ins a). ?ev k = Some (h, n) \<and> h \<in> ?N" using ia(2) inv(5) by blast
  from cut_in_gst[OF g0' ia(1) this] obtain g1 where g1: "cut_in (ins a) g = (Inr (), g1)"
    "gst g1 (nodes g) ?ev1 {} ?N ((in_links ?ev1)(n := in_links ?ev n)) (out_links ?ev1)" by blast
  from adj_present[OF g1(2) n] obtain b where b: "adj_of g1 n = Inr b" by blast
  note ob = out_dict_entries[OF gstD(1)[OF g1(2)] b refl]
  let ?T = "fst ` set (outs b)" and ?ev2 = "less_edges ?ev1 (fst ` set (outs b))"
  have T: "k \<in> ?T \<longleftrightarrow> (\<exists>t. ?ev1 k = Some (n, t))" for k using ob(2) by force
  have g1': "gst g1 (nodes g) ?ev1 {} ?N ((in_links ?ev1)(n := in_links ?ev n))
      ((out_links ?ev1)(n := out_links ?ev1 n))" using g1(2) by simp
  have "\<forall>(k, t) \<in> set (outs b). ?ev1 k = Some (n, t) \<and> t \<in> ?N \<and> t \<noteq> n"
    using ob(2) inv(6) S by (fastforce simp: less_edges_def split: if_splits)
  from cut_out_gst[OF g1' ob(1) this] obtain g2 where g2: "cut_out (outs b) g1 = (Inr (), g2)"
    "gst g2 (nodes g) ?ev2 {} ?N ((in_links ?ev2)(n := in_links ?ev n))
      ((out_links ?ev2)(n := out_links ?ev1 n))" by blast
  have ev2: "?ev2 = incident_free ?ev n"
    by (rule ext) (auto simp: less_edges_def incident_free_def S T split: option.splits)
  have inc: "incident_free ?ev n k = Some (h, t) \<longleftrightarrow> ?ev k = Some (h, t) \<and> h \<noteq> n \<and> t \<noteq> n" for k h t
    by (auto simp: incident_free_def split: option.splits if_splits)
  have g3: "gst (invalidate [n] g2) (nodes g) (incident_free ?ev n) {} ?N
      ((in_links (incident_free ?ev n))(n := in_links ?ev n))
      ((out_links (incident_free ?ev n))(n := out_links ?ev1 n))"
    using gst_mono[OF gst_invalidate[OF g2(2), of "[n]"], of "{}"] by (simp add: ev2)
  have "\<exists>g'. pop_node n (invalidate [n] g2) = (Inr v, g') \<and>
      gst g' (pdel n (nodes g)) (incident_free ?ev n) {} (?N - {n})
       ((in_links (incident_free ?ev n))(n := in_links ?ev n))
       ((out_links (incident_free ?ev n))(n := out_links ?ev1 n))"
    by (rule gst_pop_node[OF g3 inv(1) assms(3) n])
       (auto simp: invalidate_def in_links_Some out_links_Some inc)
  then obtain g' where g': "pop_node n (invalidate [n] g2) = (Inr v, g')"
    "gst g' (pdel n (nodes g)) (incident_free ?ev n) {} (?N - {n})
       ((in_links (incident_free ?ev n))(n := in_links ?ev n))
       ((out_links (incident_free ?ev n))(n := out_links ?ev1 n))" by blast
  have "gst g' (pdel n (nodes g)) (incident_free ?ev n) {} (?N - {n})
       (in_links (incident_free ?ev n)) (out_links (incident_free ?ev n))"
    by (rule gst_cong[OF g'(2)]) auto
  then have "graph_inv g'"
    by (rule graph_inv_of_gst)
       (use inv(5,6) pstore.del_inv[OF inv(1)] pstore.del_ids[OF inv(1)] in \<open>auto simp: inc\<close>)
  moreover have "remove_node r g = (Inr v, g')"
    using assms(2) n inv(1) a g1(1) b g2(1) g'(1)
    by (simp add: remove_node_def with_node_def has_node_iff)
  ultimately show ?thesis using gstD(2,5)[OF g'(2)] by blast
qed

lemma gmap_fresh:
  assumes "gmap g D M I K" "n \<notin> M" "wf_pile (nodes g)" "I n = Map.empty" "K n = Map.empty"
    "dget (pred_cache g) n = None" "dget (succ_cache g) n = None"
  shows "gmap (g\<lparr>nodes := pput v (nodes g), mapping := dset n no_links (mapping g)\<rparr>) D (insert n M) I K"
proof -
  let ?g = "g\<lparr>nodes := pput v (nodes g), mapping := dset n no_links (mapping g)\<rparr>"
  have ca: "caches_ok D g" using assms(1) by (simp add: gmap_def)
  have "caches_ok D ?g"
    unfolding caches_ok_def
  proof (intro conjI allI impI; elim conjE)
    fix m vs
    assume c: "dget (pred_cache ?g) m = Some vs" "m \<notin> D"
    then have mn: "m \<noteq> n" using assms(6) by auto
    have "dget (pred_cache g) m = Some vs" using c(1) by simp
    then obtain a where "dget (mapping g) m = Some a"
      "map (plook (nodes g)) (map snd (ins a)) = map Some vs"
      using ca[unfolded caches_ok_def, THEN conjunct1, rule_format, of m vs] c(2) by blast
    then show "\<exists>a. dget (mapping ?g) m = Some a \<and> map (plook (nodes ?g)) (map snd (ins a)) = map Some vs"
      using map_plook_put[OF assms(3)] mn by (auto simp del: map_map map_eq_conv)
  next
    fix m vs
    assume c: "dget (succ_cache ?g) m = Some vs" "m \<notin> D"
    then have mn: "m \<noteq> n" using assms(7) by auto
    have "dget (succ_cache g) m = Some vs" using c(1) by simp
    then obtain a where "dget (mapping g) m = Some a"
      "map (plook (nodes g)) (map snd (outs a)) = map Some vs"
      using ca[unfolded caches_ok_def, THEN conjunct2, rule_format, of m vs] c(2) by blast
    then show "\<exists>a. dget (mapping ?g) m = Some a \<and> map (plook (nodes ?g)) (map snd (outs a)) = map Some vs"
      using map_plook_put[OF assms(3)] mn by (auto simp del: map_map map_eq_conv)
  qed
  then show ?thesis using assms by (auto simp: gmap_def no_links_def)
qed

text \<open>A node that is not in the graph has no links and no cache entry.\<close>

lemma absent_node:
  assumes "graph_inv g" "n \<notin> set (pile_keys (nodes g))"
  shows "in_links (ends_of g) n = Map.empty" "out_links (ends_of g) n = Map.empty"
    "dget (pred_cache g) n = None" "dget (succ_cache g) n = None"
proof -
  note inv = graph_invD[OF assms(1)]
  show "in_links (ends_of g) n = Map.empty" "out_links (ends_of g) n = Map.empty"
    using inv(5,6) assms(2) by (auto simp: in_links_def out_links_def fun_eq_iff split: option.split)
  have "dget (mapping g) n = None"
    using inv(4) assms(2) by (auto simp: gmap_def map_of_eq_None_iff)
  moreover have "caches_ok {} g" using inv(4) by (simp add: gmap_def)
  ultimately show "dget (pred_cache g) n = None" "dget (succ_cache g) n = None"
    unfolding caches_ok_def by (metis empty_iff option.distinct(1) option.exhaust)+
qed

lemma fresh_node_gst:
  assumes "graph_inv g" "paccepts (nodes g) v"
  defines "g' \<equiv> g\<lparr>nodes := pput v (nodes g), mapping := dset (eid v) no_links (mapping g)\<rparr>"
  shows "gst g' (pput v (nodes g)) (ends_of g) {} (insert (eid v) (set (pile_keys (nodes g))))
      (in_links (ends_of g)) (out_links (ends_of g))"
    "graph_inv g'"
proof -
  note inv = graph_invD[OF assms(1)]
  have new: "eid v \<notin> set (pile_keys (nodes g))" using assms(2) by (simp add: paccepts_def)
  note ab = absent_node[OF assms(1) new]
  have "gmap g' {} (insert (eid v) (set (pile_keys (nodes g)))) (in_links (ends_of g)) (out_links (ends_of g))"
    unfolding g'_def by (rule gmap_fresh[OF inv(4) new inv(1) ab])
  moreover have "ends_of g' = ends_of g" by (simp add: g'_def ends_of_def fun_eq_iff)
  ultimately show *: "gst g' (pput v (nodes g)) (ends_of g) {} (insert (eid v) (set (pile_keys (nodes g))))
      (in_links (ends_of g)) (out_links (ends_of g))"
    using inv(2,3) by (intro gstI) (simp_all add: g'_def)
  show "graph_inv g'"
    by (rule graph_inv_of_gst[OF *])
       (use inv(5,6) pstore.put_inv[OF inv(1)] pstore.put_ids[OF inv(1) assms(2)] in auto)
qed

lemma same_nodes [simp]: "g\<lparr>nodes := nodes g\<rparr> = g" "g\<lparr>edges := edges g\<rparr> = g"
  by simp_all

lemma add_node_result:
  assumes "graph_inv g"
  shows "paccepts (nodes g) v \<Longrightarrow> ''Node'' \<in> set (emro v) \<Longrightarrow>
      add_node v g = (Inr (), g\<lparr>nodes := pput v (nodes g), mapping := dset (eid v) no_links (mapping g)\<rparr>)"
    "\<not> paccepts (nodes g) v \<or> ''Node'' \<notin> set (emro v) \<Longrightarrow>
      \<exists>e. add_node v g = (Inl e, g)"
  using pile_insert_end_eq[OF graph_invD(1)[OF assms], of v]
    pile_insert_refused[OF graph_invD(1)[OF assms], of v]
  by (auto simp: add_node_def)

lemma insert_new_node_result:
  assumes "graph_inv g"
  shows "paccepts (nodes g) v \<Longrightarrow>
      insert_new_node v g = (Inr (), g\<lparr>nodes := pput v (nodes g), mapping := dset (eid v) no_links (mapping g)\<rparr>)"
    "\<not> paccepts (nodes g) v \<Longrightarrow> \<exists>e. insert_new_node v g = (Inl e, g)"
  using pile_insert_end_eq[OF graph_invD(1)[OF assms], of v]
    pile_insert_refused[OF graph_invD(1)[OF assms], of v]
  by (auto simp: insert_new_node_def has_node_iff[OF graph_invD(1)[OF assms]] paccepts_def)

lemma add_edge_result:
  assumes "graph_inv g" "''Edge'' \<in> set (emro e)" "paccepts (edges g) e"
    "ehead (ebody e) \<in> set (pile_keys (nodes g))" "etail (ebody e) \<in> set (pile_keys (nodes g))"
  shows "\<exists>g'. add_edge e g = (Inr (), g') \<and> graph_inv g' \<and> nodes g' = nodes g \<and>
    ends_of g' = (ends_of g)(eid e \<mapsto> (ehead (ebody e), etail (ebody e)))"
proof -
  note inv = graph_invD[OF assms(1)]
  let ?h = "ehead (ebody e)" and ?t = "etail (ebody e)" and ?N = "set (pile_keys (nodes g))"
  let ?ev = "(ends_of g)(eid e \<mapsto> (?h, ?t))" and ?ge = "g\<lparr>edges := pput e (edges g)\<rparr>"
  have new: "ends_of g (eid e) = None"
    using assms(3) ends_mem[OF inv(2), of "eid e"]
    by (cases "ends_of g (eid e)") (auto simp: paccepts_def)
  have "gst ?ge (nodes g) ?ev {} ?N (in_links (ends_of g)) (out_links (ends_of g))"
    using inv(2-4) assms(3) by (intro gstI) (simp_all add: ends_pput pstore.put_inv)
  from gst_link_out[OF this assms(4), of "eid e" ?t] obtain g1 where g1:
    "on_outs ?h (link (eid e) ?t) ?ge = (Inr (), g1)"
    "gst g1 (nodes g) ?ev {?h} ?N (in_links (ends_of g)) (out_links ?ev)"
    unfolding out_links_add[of "ends_of g", OF new, of ?h ?t, symmetric] by blast
  from gst_link_in[OF g1(2) assms(5), of "eid e" ?h] obtain g2 where g2:
    "on_ins ?t (link (eid e) ?h) g1 = (Inr (), g2)"
    "gst g2 (nodes g) ?ev {?t, ?h} ?N (in_links ?ev) (out_links ?ev)"
    unfolding in_links_add[of "ends_of g", OF new, of ?h ?t, symmetric] by blast
  have g3: "gst (invalidate [?h, ?t] g2) (nodes g) ?ev {} ?N (in_links ?ev) (out_links ?ev)"
    using gst_mono[OF gst_invalidate[OF g2(2), of "[?h, ?t]"], of "{}"] by auto
  have "graph_inv (invalidate [?h, ?t] g2)"
    by (rule graph_inv_of_gst[OF g3]) (use inv(1,5,6) assms(4,5) in \<open>auto split: if_splits\<close>)
  moreover have "add_edge e g = (Inr (), invalidate [?h, ?t] g2)"
    using assms g1(1) g2(1) pile_insert_end_eq[OF inv(2) assms(3)]
    by (simp add: add_edge_def has_node_iff[OF inv(1)] Let_def)
  ultimately show ?thesis using gstD(2,5)[OF g3] by blast
qed

lemma add_edge_refused:
  assumes "graph_inv g"
    "''Edge'' \<notin> set (emro e) \<or> \<not> paccepts (edges g) e \<or>
     ehead (ebody e) \<notin> set (pile_keys (nodes g)) \<or> etail (ebody e) \<notin> set (pile_keys (nodes g))"
  shows "\<exists>x. add_edge e g = (Inl x, g)"
  using assms(2) pile_insert_refused[OF graph_invD(2)[OF assms(1)], of e]
  by (auto simp: add_edge_def has_node_iff[OF graph_invD(1)[OF assms(1)]] Let_def)

text \<open>The two outcomes of adding a node or an edge.\<close>

lemma add_node_cases:
  assumes inv: "graph_inv g" and n: "''Node'' \<in> set (emro v)"
  obtains (refused) e where "add_node v g = (Inl e, g)"
  | (added) g' where "add_node v g = (Inr (), g')" "graph_inv g'" "eid v \<notin> set (pile_keys (nodes g))"
      "pile_keys (nodes g') = pile_keys (nodes g) @ [eid v]" "ends_of g' = ends_of g"
proof (cases "paccepts (nodes g) v")
  case True
  let ?g' = "g\<lparr>nodes := pput v (nodes g), mapping := dset (eid v) no_links (mapping g)\<rparr>"
  have "ends_of ?g' = ends_of g" by (rule ends_of_edges) simp
  then show thesis
    using add_node_result(1)[OF inv True n] fresh_node_gst(2)[OF inv True] True
      pstore.put_ids[OF graph_invD(1)[OF inv] True]
    by (intro added[of ?g']) (simp_all add: paccepts_def)
next
  case False
  then show thesis using add_node_result(2)[OF inv, of v] refused by blast
qed

lemma add_edge_cases:
  assumes inv: "graph_inv g" and c: "''Edge'' \<in> set (emro e)"
  obtains (refused) x where "add_edge e g = (Inl x, g)"
  | (added) g' where "add_edge e g = (Inr (), g')" "graph_inv g'" "nodes g' = nodes g" "ends_of g (eid e) = None"
      "ehead (ebody e) \<in> set (pile_keys (nodes g))" "etail (ebody e) \<in> set (pile_keys (nodes g))"
      "ends_of g' = (ends_of g)(eid e \<mapsto> (ehead (ebody e), etail (ebody e)))"
proof (cases "paccepts (edges g) e \<and> ehead (ebody e) \<in> set (pile_keys (nodes g)) \<and>
    etail (ebody e) \<in> set (pile_keys (nodes g))")
  case True
  then have "eid e \<notin> set (pile_keys (edges g))" by (simp add: paccepts_def)
  then have "ends_of g (eid e) = None" using ends_mem[OF graph_invD(2)[OF inv], of "eid e"] by blast
  then show thesis using add_edge_result[OF inv c] True added by metis
next
  case False
  then show thesis using add_edge_refused[OF inv] refused by blast
qed

lemma remove_edge_result:
  assumes "graph_inv g" "get_id r = Inr k" "ends_of g k = Some (h, t)"
  shows "\<exists>g'. remove_edge r g = (Inr (), g') \<and> graph_inv g' \<and> nodes g' = nodes g \<and>
    ends_of g' = (ends_of g)(k := None)"
proof -
  note inv = graph_invD[OF assms(1)]
  let ?N = "set (pile_keys (nodes g))" and ?ev = "(ends_of g)(k := None)"
  from edge_at_ends[OF assms(3)] obtain e where e: "edge_at g k = Inr e"
    "ehead (ebody e) = h" "etail (ebody e) = t" by blast
  have h: "h \<in> ?N" and t: "t \<in> ?N" using inv(5,6) assms(3) by blast+
  note g0 = gst_start[OF assms(1)]
  have "out_links (ends_of g) h k \<noteq> None" using assms(3) by (simp add: out_links_def)
  from gst_unlink_out[OF g0 h this] obtain g1 where g1: "on_outs h (unlink k) g = (Inr (), g1)"
    "gst g1 (nodes g) (ends_of g) {h} ?N (in_links (ends_of g)) (out_links ?ev)"
    unfolding out_links_del[of "ends_of g", OF assms(3), symmetric] by blast
  have "in_links (ends_of g) t k \<noteq> None" using assms(3) by (simp add: in_links_def)
  from gst_unlink_in[OF g1(2) t this] obtain g2 where g2: "on_ins t (unlink k) g1 = (Inr (), g2)"
    "gst g2 (nodes g) (ends_of g) {t, h} ?N (in_links ?ev) (out_links ?ev)"
    unfolding in_links_del[of "ends_of g", OF assms(3), symmetric] by blast
  have "gst (invalidate [h, t] g2) (nodes g) (ends_of g) {} ?N (in_links ?ev) (out_links ?ev)"
    using gst_mono[OF gst_invalidate[OF g2(2), of "[h, t]"], of "{}"] by auto
  from gst_pop_edge[OF this assms(3)] obtain g3 where g3:
    "pop_edge k (invalidate [h, t] g2) = (Inr (), g3)"
    "gst g3 (nodes g) ?ev {} ?N (in_links ?ev) (out_links ?ev)" by blast
  have "graph_inv g3"
    by (rule graph_inv_of_gst[OF g3(2)]) (use inv(1,5,6) in \<open>auto split: if_splits\<close>)
  moreover have "pile_contains (RUuid k) (edges g)"
    using ends_mem[OF inv(2), of k] assms(3) by (simp add: pile_contains_wf[OF inv(2)] pile_keys_wf[OF inv(2)])
  then have "remove_edge r g = (Inr (), g3)"
    using assms(2) e g1(1) g2(1) g3(1) by (simp add: remove_edge_def Let_def)
  ultimately show ?thesis using gstD(2,5)[OF g3(2)] by blast
qed

text \<open>The edges after a node has been put in the place of another one.\<close>

definition redirect :: "uuid \<Rightarrow> uuid \<Rightarrow> uuid \<Rightarrow> uuid" where
  "redirect old new n = (if n = old then new else n)"

definition redirect_ends :: "uuid \<Rightarrow> uuid \<Rightarrow> ends \<Rightarrow> ends" where
  "redirect_ends old new ev k = map_option (map_prod (redirect old new) (redirect old new)) (ev k)"

lemma replace_node_result:
  assumes "graph_inv g" "get_id r = Inr old" "plook (nodes g) old = Some v" "paccepts (nodes g) w"
  shows "\<exists>g'. replace_node r w g = (Inr v, g') \<and> graph_inv g' \<and>
    nodes g' = pdel old (pput w (nodes g)) \<and> ends_of g' = redirect_ends old (eid w) (ends_of g)"
proof -
  note inv = graph_invD[OF assms(1)]
  let ?new = "eid w" and ?N = "set (pile_keys (nodes g))" and ?ev = "ends_of g"
  let ?ns = "pput w (nodes g)" and ?M = "insert (eid w) (set (pile_keys (nodes g)))"
  have old: "old \<in> ?N" using pstore.ids_look[OF inv(1)] assms(3) by auto
  have new: "?new \<notin> ?N" using assms(4) by (simp add: paccepts_def)
  then have ne: "?new \<noteq> old" using old by blast
  obtain g1 where g1: "insert_new_node w g = (Inr (), g1)"
    "gst g1 ?ns ?ev {} ?M (in_links ?ev) (out_links ?ev)"
    using insert_new_node_result(1)[OF assms(1,4)] fresh_node_gst(1)[OF assms(1,4)] by blast
  have oldM: "old \<in> ?M" using old by simp
  from adj_present[OF g1(2) oldM] obtain a where a: "adj_of g1 old = Inr a" by blast
  note ia = in_dict_entries[OF gstD(1)[OF g1(2)] a]
  let ?J = "in_links ?ev old"
  have g1': "gst g1 ?ns ?ev {?new} ?M ((in_links ?ev)(old := ?J)) (out_links ?ev)"
    using gst_mono[OF g1(2), of "{?new}"] by simp
  have "\<forall>(k, h) \<in> set (ins a). ?ev k = Some (h, old) \<and> h \<in> ?M" using ia(2) inv(5) by blast
  note mi = move_in_gst[OF g1' ia(1) this _ ne, of, simplified]
  define ev2 where "ev2 = (\<lambda>k. if k \<in> fst ` set (ins a) then map_option (\<lambda>(h, t). (h, ?new)) (?ev k) else ?ev k)"
  from mi obtain g2 where g2: "move_in ?new (ins a) g1 = (Inr (), g2)"
    "gst g2 ?ns ev2 {?new} ?M ((in_links ev2)(old := ?J)) (out_links ev2)"
    unfolding ev2_def Let_def by auto
  have S: "k \<in> fst ` set (ins a) \<longleftrightarrow> (\<exists>h. ?ev k = Some (h, old))" for k using ia(2) by force
  have ev2: "ev2 k = map_option (\<lambda>(h, t). (h, redirect old ?new t)) (?ev k)" for k
    using S[of k] by (cases "?ev k") (auto simp: ev2_def redirect_def)
  from adj_present[OF g2(2) oldM] obtain b where b: "adj_of g2 old = Inr b" by blast
  note ob = out_dict_entries[OF gstD(1)[OF g2(2)] b refl]
  let ?K = "out_links ev2 old"
  have g2': "gst g2 ?ns ev2 {?new} ?M ((in_links ev2)(old := ?J)) ((out_links ev2)(old := ?K))"
    using g2(2) by simp
  have tail2: "t \<in> ?M \<and> t \<noteq> old" if "ev2 k = Some (h, t)" for k h t
    using that inv(6) ne by (auto simp: ev2 redirect_def split: if_splits)
  have "\<forall>(k, t) \<in> set (outs b). ev2 k = Some (old, t) \<and> t \<in> ?M \<and> t \<noteq> old"
    using ob(2) tail2 by blast
  note mo = move_out_gst[OF g2' ob(1) this _ ne, of, simplified]
  define ev3 where "ev3 = (\<lambda>k. if k \<in> fst ` set (outs b) then map_option (\<lambda>(h, t). (?new, t)) (ev2 k) else ev2 k)"
  from mo obtain g3 where g3: "move_out ?new (outs b) g2 = (Inr (), g3)"
    "gst g3 ?ns ev3 {?new} ?M ((in_links ev3)(old := ?J)) ((out_links ev3)(old := ?K))"
    unfolding ev3_def Let_def by auto
  have T: "k \<in> fst ` set (outs b) \<longleftrightarrow> (\<exists>t. ev2 k = Some (old, t))" for k using ob(2) by force
  have ev3: "ev3 = redirect_ends old ?new ?ev"
  proof
    fix k
    show "ev3 k = redirect_ends old ?new ?ev k"
      using T[of k] ev2[of k] by (cases "?ev k") (auto simp: ev3_def redirect_ends_def redirect_def)
  qed
  have no: "h \<noteq> old \<and> t \<noteq> old" if "ev3 k = Some (h, t)" for k h t
    using that ne by (auto simp: ev3 redirect_ends_def redirect_def split: if_splits)
  have g4: "gst (invalidate [old, ?new] g3) ?ns ev3 {} ?M ((in_links ev3)(old := ?J))
      ((out_links ev3)(old := ?K))"
    by (rule gst_mono[OF gst_invalidate[OF g3(2), of "[old, ?new]"], of "{}"]) simp
  have lk: "plook ?ns old = Some v"
    using pstore.put_look[OF inv(1) assms(4)] assms(3) ne by simp
  have "\<exists>g'. pop_node old (invalidate [old, ?new] g3) = (Inr v, g') \<and>
      gst g' (pdel old ?ns) ev3 {} (?M - {old}) ((in_links ev3)(old := ?J)) ((out_links ev3)(old := ?K))"
    by (rule gst_pop_node[OF g4 pstore.put_inv[OF inv(1)] lk oldM])
       (auto simp: invalidate_def in_links_Some out_links_Some dest: no)
  then obtain g' where g': "pop_node old (invalidate [old, ?new] g3) = (Inr v, g')"
    "gst g' (pdel old ?ns) ev3 {} (?M - {old}) ((in_links ev3)(old := ?J)) ((out_links ev3)(old := ?K))"
    by blast
  have g5: "gst g' (pdel old ?ns) ev3 {} (?M - {old}) (in_links ev3) (out_links ev3)"
    by (rule gst_cong[OF g'(2)]) auto
  have ids: "pile_keys (pdel old ?ns) = filter (\<lambda>x. x \<noteq> old) (pile_keys (nodes g) @ [?new])"
    using pstore.del_ids[OF pstore.put_inv[OF inv(1)]] pstore.put_ids[OF inv(1) assms(4)] by simp
  have "graph_inv g'"
  proof (rule graph_inv_of_gst[OF g5])
    show "h \<in> ?M - {old} \<and> t \<in> ?M - {old}" if "ev3 k = Some (h, t)" for k h t
      using that no[OF that] inv(5,6) by (auto simp: ev3 redirect_ends_def redirect_def split: if_splits)
  qed (use pstore.del_inv[OF pstore.put_inv[OF inv(1)]] ids in auto)
  moreover have "replace_node r w g = (Inr v, g')"
    using assms(2) old g1(1) a g2(1) b g3(1) g'(1)
    by (simp add: replace_node_def with_node_def has_node_iff[OF inv(1)])
  ultimately show ?thesis using gstD(2,5)[OF g'(2)] ev3 by blast
qed

text \<open>The edges after \<open>splice_after\<close>'s loop.\<close>

fun splice_ends :: "uuid \<Rightarrow> (nat \<Rightarrow> uuid) \<Rightarrow> nat \<Rightarrow> links \<Rightarrow> ends \<Rightarrow> ends" where
  "splice_ends new fresh i [] ev = ev"
| "splice_ends new fresh i ((k, t) # ks) ev =
     splice_ends new fresh (Suc i) ks ((ev(fresh i \<mapsto> (new, t)))(k := None))"

lemma splice_loop_gst:
  assumes "gst g ns ev D M (in_links ev) (out_links ev)" "distinct (dkeys ks)"
    "\<forall>(k, t) \<in> set ks. ev k = Some (a, t) \<and> t \<in> M" "a \<in> M" "new \<in> M" "{a, new} \<subseteq> D" "a \<noteq> new"
    "\<forall>j. i \<le> j \<and> j < i + length ks \<longrightarrow> ev (fresh j) = None" "inj fresh"
  shows "\<exists>us g'. splice_loop a new fresh i ks g = (Inr us, g') \<and>
    (let ev' = splice_ends new fresh i ks ev in gst g' ns ev' D M (in_links ev') (out_links ev'))"
  using assms
proof (induction ks arbitrary: g ev i)
  case (Cons p ks)
  obtain k t where p: "p = (k, t)" by fastforce
  with Cons.prems have ev: "ev k = Some (a, t)" and t: "t \<in> M" by auto
  have u: "ev (fresh i) = None" using Cons.prems(8) by simp
  then have uk: "fresh i \<noteq> k" using ev by auto
  let ?u = "fresh i"
  let ?ev1 = "ev(?u \<mapsto> (new, t))"
  let ?ev2 = "?ev1(k := None)"
  have k1: "?ev1 k = Some (a, t)" using ev uk by auto
  from edge_at_ends[of g k a t] ev gstD(5)[OF Cons.prems(1)] obtain old where
    old: "edge_at g k = Inr old" by metis
  let ?e = "respliced ?u new t (ebody old)"
  have "\<exists>g1. insert_edge ?e g = (Inr (), g1) \<and> gst g1 ns ?ev1 D M (in_links ev) (out_links ev)"
    using gst_insert_edge[OF Cons.prems(1), of ?e] u by (simp add: respliced_def del: fun_upd_apply)
  then obtain g1 where g1: "insert_edge ?e g = (Inr (), g1)"
    "gst g1 ns ?ev1 D M (in_links ev) (out_links ev)" by blast
  from gst_link_out[OF g1(2) Cons.prems(5), of ?u t] obtain g2 where g2:
    "on_outs new (link ?u t) g1 = (Inr (), g2)"
    "gst g2 ns ?ev1 (insert new D) M (in_links ev) (out_links ?ev1)"
    unfolding out_links_add[of ev, OF u, of new t, symmetric] by blast
  from gst_link_in[OF g2(2) t, of ?u new] obtain g3 where g3:
    "on_ins t (link ?u new) g2 = (Inr (), g3)"
    "gst g3 ns ?ev1 (insert t (insert new D)) M (in_links ?ev1) (out_links ?ev1)"
    unfolding in_links_add[of ev, OF u, of new t, symmetric] by blast
  have "in_links ?ev1 t k \<noteq> None" using k1 by (simp add: in_links_def)
  from gst_unlink_in[OF g3(2) t this] obtain g4 where g4: "on_ins t (unlink k) g3 = (Inr (), g4)"
    "gst g4 ns ?ev1 (insert t (insert t (insert new D))) M (in_links ?ev2) (out_links ?ev1)"
    unfolding in_links_del[of ?ev1, OF k1, symmetric] by blast
  have "out_links ?ev1 a k \<noteq> None" using k1 by (simp add: out_links_def)
  from gst_unlink_out[OF g4(2) Cons.prems(4) this] obtain g5 where g5:
    "on_outs a (unlink k) g4 = (Inr (), g5)"
    "gst g5 ns ?ev1 (insert a (insert t (insert t (insert new D)))) M (in_links ?ev2) (out_links ?ev2)"
    unfolding out_links_del[of ?ev1, OF k1, symmetric] by blast
  from gst_pop_edge[OF g5(2) k1] obtain g6 where g6: "pop_edge k g5 = (Inr (), g6)"
    "gst g6 ns ?ev2 (insert a (insert t (insert t (insert new D)))) M (in_links ?ev2) (out_links ?ev2)"
    by blast
  have g7: "gst (invalidate [t] g6) ns ?ev2 D M (in_links ?ev2) (out_links ?ev2)"
    by (rule gst_mono[OF gst_invalidate[OF g6(2), of "[t]"]]) (use Cons.prems(6) in auto)
  have dk: "distinct (dkeys ks)" using Cons.prems(2) by simp
  have rest: "\<forall>(k', t) \<in> set ks. ?ev2 k' = Some (a, t) \<and> t \<in> M"
    using Cons.prems(8)
    by (intro other_key[OF Cons.prems(2)[unfolded p] Cons.prems(3)[unfolded p]]) auto
  have fr: "\<forall>j. Suc i \<le> j \<and> j < Suc i + length ks \<longrightarrow> ?ev2 (fresh j) = None"
    using Cons.prems(8) by (auto simp: inj_eq[OF Cons.prems(9)])
  from Cons.IH[OF g7 dk rest Cons.prems(4-7) fr Cons.prems(9)]
  show ?case
    unfolding p splice_loop.simps old Let_def sum.case g1(1) then_do_simps g2(1) g3(1) g4(1) g5(1) g6(1)
      splice_ends.simps
    by auto
qed simp

lemma splice_ends_spec:
  assumes "distinct (dkeys ks)" "\<forall>(k, t) \<in> set ks. ev k = Some (a, t)"
    "\<forall>j. i \<le> j \<and> j < i + length ks \<longrightarrow> ev (fresh j) = None" "inj fresh" "a \<noteq> new"
  shows "splice_ends new fresh i ks ev k' = Some (h, t') \<longleftrightarrow>
    (ev k' = Some (h, t') \<and> k' \<notin> fst ` set ks) \<or>
    (\<exists>j < length ks. k' = fresh (i + j) \<and> h = new \<and> t' = snd (ks ! j))"
  using assms
proof (induction new fresh i ks ev rule: splice_ends.induct)
  case (2 new fresh i k t ks ev)
  let ?ev = "(ev(fresh i \<mapsto> (new, t)))(k := None)"
  have rest: "\<forall>(k', t) \<in> set ks. ?ev k' = Some (a, t)"
    using "2.prems"(3) by (intro other_key[OF "2.prems"(1,2)]) auto
  have fr: "\<forall>j. Suc i \<le> j \<and> j < Suc i + length ks \<longrightarrow> ?ev (fresh j) = None"
    using "2.prems"(3) by (auto simp: inj_eq[OF "2.prems"(4)])
  have fk: "fresh i \<notin> fst ` set ((k, t) # ks)"
    using "2.prems"(2,3) by force
  have split: "(\<exists>j < length ((k, t) # ks). P j) \<longleftrightarrow> P 0 \<or> (\<exists>j < length ks. P (Suc j))" for P
    by (auto simp: less_Suc_eq_0_disj)
  have "splice_ends new fresh (Suc i) ks ?ev k' = Some (h, t') \<longleftrightarrow>
      (?ev k' = Some (h, t') \<and> k' \<notin> fst ` set ks) \<or>
      (\<exists>j < length ks. k' = fresh (Suc i + j) \<and> h = new \<and> t' = snd (ks ! j))"
    using "2.prems" rest fr by (intro "2.IH") auto
  moreover have "(?ev k' = Some (h, t') \<and> k' \<notin> fst ` set ks) \<longleftrightarrow>
      (ev k' = Some (h, t') \<and> k' \<notin> fst ` set ((k, t) # ks)) \<or> (k' = fresh i \<and> h = new \<and> t' = t)"
    using fk "2.prems"(3) by auto
  ultimately show ?case unfolding splice_ends.simps split by auto
qed simp

lemma splice_after_result:
  assumes "graph_inv g" "get_id r = Inr a" "a \<in> set (pile_keys (nodes g))" "paccepts (nodes g) w"
    "\<forall>j. ends_of g (fresh j) = None" "inj fresh"
  shows "\<exists>us g' ks. splice_after fresh none r w g = (Inr us, g') \<and> graph_inv g' \<and>
    nodes g' = pput w (nodes g) \<and>
    distinct (dkeys ks) \<and> (\<forall>k t. (k, t) \<in> set ks \<longleftrightarrow> ends_of g k = Some (a, t)) \<and>
    ends_of g' = (splice_ends (eid w) fresh 1 ks (ends_of g))(fresh 0 \<mapsto> (a, eid w))"
proof -
  note inv = graph_invD[OF assms(1)]
  let ?new = "eid w" and ?ns = "pput w (nodes g)" and ?M = "insert (eid w) (set (pile_keys (nodes g)))"
  have ne: "a \<noteq> ?new" using assms(3,4) by (auto simp: paccepts_def)
  obtain g1 where g1: "insert_new_node w g = (Inr (), g1)"
    "gst g1 ?ns (ends_of g) {} ?M (in_links (ends_of g)) (out_links (ends_of g))"
    using insert_new_node_result(1)[OF assms(1,4)] fresh_node_gst(1)[OF assms(1,4)] by blast
  have aM: "a \<in> ?M" using assms(3) by simp
  from adj_present[OF g1(2) aM] obtain x where x: "adj_of g1 a = Inr x" by blast
  note ox = out_dict_entries[OF gstD(1)[OF g1(2)] x refl]
  have ks: "\<forall>(k, t) \<in> set (outs x). ends_of g k = Some (a, t) \<and> t \<in> ?M" using ox(2) inv(6) by blast
  define ev1 where "ev1 = splice_ends ?new fresh 1 (outs x) (ends_of g)"
  from splice_loop_gst[OF gst_mono[OF g1(2), of "{a, ?new}"] ox(1) ks aM _ _ ne _ assms(6), of 1] assms(5)
  obtain us g2 where g2: "splice_loop a ?new fresh 1 (outs x) g1 = (Inr us, g2)"
    "gst g2 ?ns ev1 {a, ?new} ?M (in_links ev1) (out_links ev1)"
    unfolding ev1_def Let_def by auto
  have spec: "ev1 k' = Some (h, t') \<longleftrightarrow> (ends_of g k' = Some (h, t') \<and> k' \<notin> fst ` set (outs x)) \<or>
    (\<exists>j < length (outs x). k' = fresh (1 + j) \<and> h = ?new \<and> t' = snd (outs x ! j))" for k' h t'
    unfolding ev1_def by (rule splice_ends_spec[OF ox(1) _ _ assms(6) ne]) (use ks assms(5) in auto)
  have f0: "ev1 (fresh 0) = None"
    using spec[of "fresh 0"] assms(5) by (cases "ev1 (fresh 0)") (auto simp: inj_eq[OF assms(6)])
  let ?link = "Elem (fresh 0) edge_mro
      \<lparr>ehead = a, etail = ?new, econd = None, elabel = None, eprops = none\<rparr>"
  let ?ev = "ev1(fresh 0 \<mapsto> (a, ?new))"
  have "\<exists>g3. insert_edge ?link g2 = (Inr (), g3) \<and>
      gst g3 ?ns ?ev {a, ?new} ?M (in_links ev1) (out_links ev1)"
    using gst_insert_edge[OF g2(2), of ?link] f0 by (simp del: fun_upd_apply)
  then obtain g3 where g3: "insert_edge ?link g2 = (Inr (), g3)"
    "gst g3 ?ns ?ev {a, ?new} ?M (in_links ev1) (out_links ev1)" by blast
  from gst_link_out[OF g3(2) aM, of "fresh 0" ?new] obtain g4 where g4:
    "on_outs a (link (fresh 0) ?new) g3 = (Inr (), g4)"
    "gst g4 ?ns ?ev (insert a {a, ?new}) ?M (in_links ev1) (out_links ?ev)"
    unfolding out_links_add[of ev1, OF f0, of a ?new, symmetric] by blast
  have nM: "?new \<in> ?M" by simp
  from gst_link_in[OF g4(2) nM, of "fresh 0" a] obtain g5 where g5:
    "on_ins ?new (link (fresh 0) a) g4 = (Inr (), g5)"
    "gst g5 ?ns ?ev (insert ?new (insert a {a, ?new})) ?M (in_links ?ev) (out_links ?ev)"
    unfolding in_links_add[of ev1, OF f0, of a ?new, symmetric] by blast
  have g6: "gst (invalidate [a, ?new] g5) ?ns ?ev {} ?M (in_links ?ev) (out_links ?ev)"
    by (rule gst_mono[OF gst_invalidate[OF g5(2), of "[a, ?new]"]]) auto
  have "h \<in> ?M \<and> t \<in> ?M" if "?ev k = Some (h, t)" for k h t
  proof (cases "k = fresh 0")
    case False
    then have "ev1 k = Some (h, t)" using that by simp
    then consider "ends_of g k = Some (h, t)" | j where "j < length (outs x)" "h = ?new" "t = snd (outs x ! j)"
      unfolding spec by blast
    then show ?thesis
    proof cases
      case 2
      then have "(fst (outs x ! j), t) \<in> set (outs x)" by (simp add: 2(3))
      then show ?thesis using ks 2(2) by auto
    qed (use inv(5,6) in auto)
  qed (use that aM in auto)
  then have "graph_inv (invalidate [a, ?new] g5)"
    using pstore.put_inv[OF inv(1)] pstore.put_ids[OF inv(1) assms(4)]
    by (intro graph_inv_of_gst[OF g6]) auto
  moreover have "splice_after fresh none r w g = (Inr (fresh 0 # us), invalidate [a, ?new] g5)"
    using assms(2,3) g1(1) x g2(1) g3(1) g4(1) g5(1)
    by (simp add: splice_after_def with_node_def has_node_iff[OF inv(1)])
  ultimately show ?thesis using gstD(2,5)[OF g6] ox unfolding ev1_def by blast
qed

subsection \<open>Refusals, caches and construction\<close>

lemma ends_of_upd [simp]:
  "ends_of (g\<lparr>pred_cache := c\<rparr>) = ends_of g" "ends_of (g\<lparr>succ_cache := c\<rparr>) = ends_of g"
  by (rule ext; simp add: ends_of_def)+

lemma collect_ok_node_at:
  "map (plook (nodes g)) xs = map Some vs \<Longrightarrow> collect_ok (map (node_at g) xs) = Inr vs"
proof (induction xs arbitrary: vs)
  case (Cons x xs)
  then obtain v vs' where "vs = v # vs'" "plook (nodes g) x = Some v"
    "map (plook (nodes g)) xs = map Some vs'" by (cases vs) auto
  then have "node_at g x = Inr v"
    by (simp add: node_at_def pile_lookup_def plook_def not_found_def)
  moreover have "collect_ok (map (node_at g) xs) = Inr vs'"
    using Cons.IH \<open>map (plook (nodes g)) xs = map Some vs'\<close> by blast
  ultimately have "node_at g x = Inr v" "collect_ok (map (node_at g) xs) = Inr vs'" by simp_all
  then show ?case using \<open>vs = v # vs'\<close> by simp
qed simp

lemma plook_values:
  "wf_pile s \<Longrightarrow> set xs \<subseteq> set (pile_keys s) \<Longrightarrow> \<exists>vs. map (plook s) xs = map Some vs"
proof (induction xs)
  case (Cons x xs)
  then obtain vs v where "map (plook s) xs = map Some vs" "plook s x = Some v"
    using pstore.ids_look[of s x] by auto
  then have "map (plook s) (x # xs) = map Some (v # vs)" by simp
  then show ?case by blast
qed simp

lemma neighbours_known:
  assumes "graph_inv g" "dget (mapping g) n = Some a"
  shows "set (map snd (ins a)) \<subseteq> set (pile_keys (nodes g))"
    "set (map snd (outs a)) \<subseteq> set (pile_keys (nodes g))"
proof -
  note inv = graph_invD[OF assms(1)]
  show "set (map snd (ins a)) \<subseteq> set (pile_keys (nodes g))"
    using links_values(1)[OF inv(4) assms(2)] inv(5) by (metis in_links_Some subsetI)
  show "set (map snd (outs a)) \<subseteq> set (pile_keys (nodes g))"
    using links_values(2)[OF inv(4) assms(2)] inv(6) by (metis out_links_Some subsetI)
qed

text \<open>
  The cached readers return what is read from the mapping now, and leave a consistent graph.
\<close>

lemma cached_predecessors:
  assumes "graph_inv g" "get_id r = Inr n" "dget (mapping g) n = Some a"
  shows "\<exists>vs. fst (get_predecessors_cached r g) = Inr vs \<and>
      map (plook (nodes g)) (map snd (ins a)) = map Some vs"
    "graph_inv (snd (get_predecessors_cached r g))"
proof -
  note inv = graph_invD[OF assms(1)]
  have n: "has_node g n"
    using dgetD[OF assms(3)] inv(4) by (simp add: has_node_iff[OF inv(1)] gmap_def)
  from plook_values[OF inv(1) neighbours_known(1)[OF assms(1,3)]] obtain vs where
    vs: "map (plook (nodes g)) (map snd (ins a)) = map Some vs" by blast
  note rd = collect_ok_node_at[OF vs]
  have ca: "caches_ok {} g" using inv(4) by (simp add: gmap_def)
  have c: "map (plook (nodes g)) (map snd (ins a)) = map Some ws" if "dget (pred_cache g) n = Some ws" for ws
    using ca[unfolded caches_ok_def, THEN conjunct1, rule_format, of n ws] that assms(3)
    by (auto simp del: map_map map_eq_conv)
  show "\<exists>vs. fst (get_predecessors_cached r g) = Inr vs \<and>
      map (plook (nodes g)) (map snd (ins a)) = map Some vs"
    using assms(2,3) n rd vs c
    by (auto simp: get_predecessors_cached_def adj_of_def simp del: map_map map_eq_conv split: option.split)
  have "caches_ok {} (g\<lparr>pred_cache := dset n vs (pred_cache g)\<rparr>)"
    using ca vs assms(3) unfolding caches_ok_def by (auto simp del: map_map map_eq_conv)
  then have "graph_inv (g\<lparr>pred_cache := dset n vs (pred_cache g)\<rparr>)"
    using assms(1) by (simp add: graph_inv_def gmap_def)
  then show "graph_inv (snd (get_predecessors_cached r g))"
    using assms n rd
    by (auto simp: get_predecessors_cached_def adj_of_def simp del: map_map map_eq_conv split: option.split)
qed

lemma cached_successors:
  assumes "graph_inv g" "get_id r = Inr n" "dget (mapping g) n = Some a"
  shows "\<exists>vs. fst (get_successors_cached r g) = Inr vs \<and>
      map (plook (nodes g)) (map snd (outs a)) = map Some vs"
    "graph_inv (snd (get_successors_cached r g))"
proof -
  note inv = graph_invD[OF assms(1)]
  have n: "has_node g n"
    using dgetD[OF assms(3)] inv(4) by (simp add: has_node_iff[OF inv(1)] gmap_def)
  from plook_values[OF inv(1) neighbours_known(2)[OF assms(1,3)]] obtain vs where
    vs: "map (plook (nodes g)) (map snd (outs a)) = map Some vs" by blast
  note rd = collect_ok_node_at[OF vs]
  have ca: "caches_ok {} g" using inv(4) by (simp add: gmap_def)
  have c: "map (plook (nodes g)) (map snd (outs a)) = map Some ws" if "dget (succ_cache g) n = Some ws" for ws
    using ca[unfolded caches_ok_def, THEN conjunct2, rule_format, of n ws] that assms(3)
    by (auto simp del: map_map map_eq_conv)
  show "\<exists>vs. fst (get_successors_cached r g) = Inr vs \<and>
      map (plook (nodes g)) (map snd (outs a)) = map Some vs"
    using assms(2,3) n rd vs c
    by (auto simp: get_successors_cached_def adj_of_def simp del: map_map map_eq_conv split: option.split)
  have "caches_ok {} (g\<lparr>succ_cache := dset n vs (succ_cache g)\<rparr>)"
    using ca vs assms(3) unfolding caches_ok_def by (auto simp del: map_map map_eq_conv)
  then have "graph_inv (g\<lparr>succ_cache := dset n vs (succ_cache g)\<rparr>)"
    using assms(1) by (simp add: graph_inv_def gmap_def)
  then show "graph_inv (snd (get_successors_cached r g))"
    using assms n rd
    by (auto simp: get_successors_cached_def adj_of_def simp del: map_map map_eq_conv split: option.split)
qed

text \<open>A reader of a node that is not in the graph changes nothing.\<close>

lemma cached_absent:
  assumes "graph_inv g" "get_id r = Inr n" "dget (mapping g) n = None"
  shows "get_predecessors_cached r g = (Inl RelationError, g)"
    "get_successors_cached r g = (Inl RelationError, g)"
proof -
  note inv = graph_invD[OF assms(1)]
  have n: "n \<notin> set (pile_keys (nodes g))"
    using assms(3) inv(4) by (auto simp: gmap_def map_of_eq_None_iff)
  then show "get_predecessors_cached r g = (Inl RelationError, g)"
    "get_successors_cached r g = (Inl RelationError, g)"
    using absent_node(3,4)[OF assms(1) n] assms(2)
    by (simp_all add: get_predecessors_cached_def get_successors_cached_def has_node_iff[OF inv(1)])
qed

definition empty_graph :: "('n, 'c, 'p) graph" where
  "empty_graph =
     \<lparr>nodes = (pile_of 0 [])\<lparr>item_type := Some {''Node''}\<rparr>,
      edges = (pile_of 0 [])\<lparr>item_type := Some {''Edge''}\<rparr>,
      mapping = [], pred_cache = [], succ_cache = []\<rparr>"

lemma wf_empty_pile:
  "wf_pile \<lparr>collections = [], item_type = t, progression = mk_progression u None [], strict_type = b\<rparr>"
  by (intro wf_pileI) simp_all

lemma empty_graph_inv: "graph_inv empty_graph"
  by (simp add: graph_inv_def empty_graph_def gmap_def caches_ok_def ends_of_def plook_def
      pile_keys_def pile_of_def type_ok_def edge_mro_def wf_empty_pile)

section \<open>Any sequence of calls\<close>

datatype ('n, 'c, 'p) graph_op =
    GAddNode "'n elem" | GAddEdge "('c, 'p) edge elem" | GRemoveNode ref | GRemoveEdge ref
  | GReplace ref "'n elem" | GSplice "nat \<Rightarrow> uuid" 'p ref "'n elem" | GPreds ref | GSuccs ref

text \<open>
  The steps of a graph.  The ids of the edges made by \<open>splice_after\<close> come from \<open>uuid4\<close>: \<open>base + i\<close> for
  a base above all ids in use stands for ids that are new and different from each other.
\<close>

definition fresh_base :: "('n, 'c, 'p) graph \<Rightarrow> nat" where
  "fresh_base g = Suc (sum_list (pile_keys (edges g)))"

fun graph_step :: "('n, 'c, 'p) graph \<Rightarrow> ('n, 'c, 'p) graph_op \<Rightarrow> ('n, 'c, 'p) graph" where
  "graph_step g (GAddNode v) = snd (add_node v g)"
| "graph_step g (GAddEdge e) = snd (add_edge e g)"
| "graph_step g (GRemoveNode r) = snd (remove_node r g)"
| "graph_step g (GRemoveEdge r) = snd (remove_edge r g)"
| "graph_step g (GReplace r w) = snd (replace_node r w g)"
| "graph_step g (GSplice f none r w) = snd (splice_after (\<lambda>i. fresh_base g + i) none r w g)"
| "graph_step g (GPreds r) = snd (get_predecessors_cached r g)"
| "graph_step g (GSuccs r) = snd (get_successors_cached r g)"

lemma fresh_base_new: "wf_pile (edges g) \<Longrightarrow> ends_of g (fresh_base g + j) = None"
proof (rule ccontr)
  assume "wf_pile (edges g)" "ends_of g (fresh_base g + j) \<noteq> None"
  then have "fresh_base g + j \<in> set (pile_keys (edges g))" using ends_mem by blast
  then have "fresh_base g + j \<le> sum_list (pile_keys (edges g))" by (rule member_le_sum_list) simp_all
  then show False by (simp add: fresh_base_def)
qed

lemma with_node_refused:
  "(\<And>n. get_id r \<noteq> Inr n \<or> \<not> has_node g n) \<Longrightarrow> \<exists>e. with_node r g f = (Inl e, g)"
  by (cases "get_id r") (auto simp: with_node_def)

lemma node_lookup: "wf_pile (nodes g) \<Longrightarrow> has_node g n \<Longrightarrow> \<exists>v. plook (nodes g) n = Some v"
  using pstore.ids_look[of "nodes g" n] by (auto simp: has_node_iff)

lemma replace_refused:
  assumes "graph_inv g" "\<not> paccepts (nodes g) w"
  shows "\<exists>e. replace_node r w g = (Inl e, g)" "\<exists>e. splice_after f p r w g = (Inl e, g)"
proof -
  from insert_new_node_result(2)[OF assms] obtain e where "insert_new_node w g = (Inl e, g)" by blast
  then show "\<exists>e. replace_node r w g = (Inl e, g)" "\<exists>e. splice_after f p r w g = (Inl e, g)"
    by (auto simp: replace_node_def splice_after_def with_node_def split: sum.split)
qed

lemma remove_edge_refused:
  assumes "graph_inv g" "\<And>k h t. get_id r = Inr k \<Longrightarrow> ends_of g k \<noteq> Some (h, t)"
  shows "\<exists>e. remove_edge r g = (Inl e, g)"
proof (cases "get_id r")
  case (Inr k)
  then have "ends_of g k = None" using assms(2) by (cases "ends_of g k") auto
  then have "k \<notin> set (pile_keys (edges g))" using ends_mem[OF graph_invD(2)[OF assms(1)]] by blast
  then show ?thesis
    using Inr graph_invD(2)[OF assms(1)]
    by (simp add: remove_edge_def pile_contains_wf pile_keys_wf)
qed (simp add: remove_edge_def)

lemma graph_step_inv:
  assumes "graph_inv g"
  shows "graph_inv (graph_step g op)"
proof -
  note inv = graph_invD[OF assms]
  have node: "(\<exists>n v. get_id r = Inr n \<and> plook (nodes g) n = Some v) \<or>
      (\<forall>f. \<exists>e. with_node r g f = (Inl e, g))" for r
    using with_node_refused[of r g] node_lookup[OF inv(1)] by metis
  show ?thesis
  proof (cases op)
    case (GAddNode v)
    show ?thesis
      using add_node_result[OF assms, of v] fresh_node_gst(2)[OF assms, of v] assms
      by (cases "paccepts (nodes g) v \<and> ''Node'' \<in> set (emro v)") (auto simp: GAddNode)
  next
    case (GAddEdge e)
    show ?thesis
      using add_edge_result[OF assms, of e] add_edge_refused[OF assms, of e] assms
      unfolding GAddEdge graph_step.simps by (metis snd_conv)
  next
    case (GRemoveNode r)
    show ?thesis
    proof (cases "\<exists>n v. get_id r = Inr n \<and> plook (nodes g) n = Some v")
      case True
      then obtain n v g' where "remove_node r g = (Inr v, g')" "graph_inv g'"
        using remove_node_result[OF assms, of r] by blast
      then show ?thesis by (simp add: GRemoveNode)
    next
      case False
      then obtain e where "remove_node r g = (Inl e, g)"
        using node[of r] unfolding remove_node_def by blast
      then show ?thesis using assms by (simp add: GRemoveNode)
    qed
  next
    case (GRemoveEdge r)
    show ?thesis
      using remove_edge_result[OF assms, of r] remove_edge_refused[OF assms, of r] assms
      unfolding GRemoveEdge graph_step.simps by (metis snd_conv)
  next
    case (GReplace r w)
    show ?thesis
    proof (cases "(\<exists>n v. get_id r = Inr n \<and> plook (nodes g) n = Some v) \<and> paccepts (nodes g) w")
      case True
      then obtain n v g' where "replace_node r w g = (Inr v, g')" "graph_inv g'"
        using replace_node_result[OF assms, of r _ _ w] by blast
      then show ?thesis by (simp add: GReplace)
    next
      case False
      then obtain e where "replace_node r w g = (Inl e, g)"
        using node[of r] replace_refused(1)[OF assms, of w r] unfolding replace_node_def by blast
      then show ?thesis using assms by (simp add: GReplace)
    qed
  next
    case (GSplice f none r w)
    let ?f = "\<lambda>i. fresh_base g + i"
    have "inj ?f" by (simp add: inj_def)
    moreover have "\<forall>j. ends_of g (?f j) = None" using fresh_base_new[OF inv(2)] by blast
    ultimately have ok: "\<exists>us g'. splice_after ?f none r w g = (Inr us, g') \<and> graph_inv g'"
      if "get_id r = Inr n" "plook (nodes g) n = Some v" "paccepts (nodes g) w" for n v
      using splice_after_result[OF assms that(1) _ that(3), of ?f none] that(2)
        pstore.ids_look[OF inv(1), of n] by auto
    show ?thesis
    proof (cases "paccepts (nodes g) w")
      case True
      show ?thesis
      proof (cases "\<exists>n v. get_id r = Inr n \<and> plook (nodes g) n = Some v")
        case c: True
        then show ?thesis using ok[OF _ _ True] by (fastforce simp: GSplice)
      next
        case False
        then obtain e where "splice_after ?f none r w g = (Inl e, g)"
          using node[of r] unfolding splice_after_def by blast
        then show ?thesis using assms by (simp add: GSplice)
      qed
    next
      case False
      then show ?thesis using replace_refused(2)[OF assms, of w ?f none r] assms by (auto simp: GSplice)
    qed
  next
    case (GPreds r)
    show ?thesis
    proof (cases "get_id r")
      case (Inl e)
      then show ?thesis using assms by (simp add: GPreds get_predecessors_cached_def)
    next
      case (Inr n)
      then show ?thesis
        using cached_predecessors(2)[OF assms Inr] cached_absent(1)[OF assms Inr] assms
        by (cases "dget (mapping g) n") (simp_all add: GPreds)
    qed
  next
    case (GSuccs r)
    show ?thesis
    proof (cases "get_id r")
      case (Inl e)
      then show ?thesis using assms by (simp add: GSuccs get_successors_cached_def)
    next
      case (Inr n)
      then show ?thesis
        using cached_successors(2)[OF assms Inr] cached_absent(2)[OF assms Inr] assms
        by (cases "dget (mapping g) n") (simp_all add: GSuccs)
    qed
  qed
qed

interpretation graph_ops: stepping graph_step graph_inv
  by unfold_locales (rule graph_step_inv)

section \<open>Properties\<close>

abbreviation run_graph :: "('n, 'c, 'p) graph_op list \<Rightarrow> ('n, 'c, 'p) graph" where
  "run_graph ops \<equiv> foldl graph_step empty_graph ops"

lemma run_graph_inv: "graph_inv (run_graph ops)"
  by (rule graph_ops.run_inv) (rule empty_graph_inv)

lemma adj_at: "graph_inv g \<Longrightarrow> n \<in> set (pile_keys (nodes g)) \<Longrightarrow> \<exists>a. dget (mapping g) n = Some a"
  using gmap_adj[OF graph_invD(4)] by metis

text \<open>
  C2. The adjacency mapping mirrors the edges.  After any sequence of \<open>add_node\<close>, \<open>add_edge\<close>,
  \<open>remove_node\<close>, \<open>remove_edge\<close>, \<open>replace_node\<close>, \<open>splice_after\<close> and cached reads on an empty graph,
  refused calls included: the mapping has exactly the nodes of the graph, the incoming links of a node
  are exactly the edges whose tail it is (each with its head), the outgoing links exactly the edges
  whose head it is, and both ends of every edge are nodes of the graph.
\<close>

theorem mapping_mirrors_edges:
  fixes ops :: "('n, 'c, 'p) graph_op list"
  defines "g \<equiv> run_graph ops"
  shows "set (dkeys (mapping g)) = set (pile_keys (nodes g)) \<and>
    (\<forall>n a k x. dget (mapping g) n = Some a \<longrightarrow>
      (dget (ins a) k = Some x \<longleftrightarrow>
         (\<exists>e. plook (edges g) k = Some e \<and> ehead (ebody e) = x \<and> etail (ebody e) = n)) \<and>
      (dget (outs a) k = Some x \<longleftrightarrow>
         (\<exists>e. plook (edges g) k = Some e \<and> ehead (ebody e) = n \<and> etail (ebody e) = x))) \<and>
    (\<forall>k e. plook (edges g) k = Some e \<longrightarrow>
       has_node g (ehead (ebody e)) \<and> has_node g (etail (ebody e)))"
proof -
  have inv: "graph_inv g" unfolding g_def by (rule run_graph_inv)
  note i = graph_invD[OF inv]
  have e: "ends_of g k = Some (h, t) \<longleftrightarrow>
      (\<exists>e. plook (edges g) k = Some e \<and> ehead (ebody e) = h \<and> etail (ebody e) = t)" for k h t
    by (auto simp: ends_of_def)
  have links: "dget (ins a) = in_links (ends_of g) n \<and> dget (outs a) = out_links (ends_of g) n"
    if "dget (mapping g) n = Some a" for n a
    using i(4) that by (simp add: gmap_def)
  have "set (dkeys (mapping g)) = set (pile_keys (nodes g))" using i(4) by (simp add: gmap_def)
  moreover have "has_node g (ehead (ebody x)) \<and> has_node g (etail (ebody x))"
    if "plook (edges g) k = Some x" for k x
    using i(5,6)[of k] that by (simp add: has_node_iff[OF i(1)] ends_of_def)
  ultimately show ?thesis using links by (simp add: in_links_Some out_links_Some e)
qed

theorem mapping_mirrors_edges_witness:
  "has_node (run_graph [GAddNode (Elem 1 [''Node''] ()), GAddNode (Elem 2 [''Node''] ()),
      GAddEdge (Elem 5 edge_mro \<lparr>ehead = 1, etail = 2, econd = None, elabel = None, eprops = ()\<rparr>)
        :: (unit, unit, unit) graph_op]) 2"
proof -
  let ?ops = "[GAddNode (Elem 1 [''Node''] ()), GAddNode (Elem 2 [''Node''] ()),
      GAddEdge (Elem 5 edge_mro \<lparr>ehead = 1, etail = 2, econd = None, elabel = None, eprops = ()\<rparr>)]
      :: (unit, unit, unit) graph_op list"
  have "map_option (etail \<circ> ebody) (plook (edges (run_graph ?ops)) 5) = Some 2" by code_simp
  then show ?thesis using mapping_mirrors_edges[of ?ops] by fastforce
qed

text \<open>
  C32. The neighbour caches are never stale.  In every graph reached by such calls, for a node of the
  graph the cached readers return one node per link in the mapping as it is now, in the order of the
  links and with the stored node objects, whether the answer comes from the cache or is computed; for
  any other id they fail with a RelationError.
\<close>

theorem caches_never_stale:
  fixes ops :: "('n, 'c, 'p) graph_op list"
  defines "g \<equiv> run_graph ops"
  assumes "get_id r = Inr n"
  shows "case dget (mapping g) n of
      None \<Rightarrow> fst (get_predecessors_cached r g) = Inl RelationError \<and>
        fst (get_successors_cached r g) = Inl RelationError
    | Some a \<Rightarrow>
        (\<exists>ps ss. fst (get_predecessors_cached r g) = Inr ps \<and>
           map (plook (nodes g)) (map snd (ins a)) = map Some ps \<and>
           fst (get_successors_cached r g) = Inr ss \<and>
           map (plook (nodes g)) (map snd (outs a)) = map Some ss)"
proof -
  have inv: "graph_inv g" unfolding g_def by (rule run_graph_inv)
  show ?thesis
  proof (cases "dget (mapping g) n")
    case None
    then show ?thesis using cached_absent[OF inv assms(2)] by simp
  next
    case (Some a)
    then show ?thesis
      using cached_predecessors(1)[OF inv assms(2) Some] cached_successors(1)[OF inv assms(2) Some]
      unfolding Some option.case by blast
  qed
qed

definition ex_edge :: "uuid \<Rightarrow> uuid \<Rightarrow> uuid \<Rightarrow> (unit, unit, unit) graph_op" where
  "ex_edge k h t =
     GAddEdge (Elem k edge_mro \<lparr>ehead = h, etail = t, econd = None, elabel = None, eprops = ()\<rparr>)"

definition ex_node :: "uuid \<Rightarrow> (unit, unit, unit) graph_op" where
  "ex_node n = GAddNode (Elem n [''Node''] ())"

theorem caches_never_stale_witness:
  "fst (get_predecessors_cached (RUuid 3)
     (run_graph [ex_node 1, ex_node 2, ex_node 3, ex_edge 5 1 3, GPreds (RUuid 3),
        ex_edge 6 2 3, GRemoveNode (RUuid 1)])) = Inr [Elem 2 [''Node''] ()]"
proof -
  let ?ops = "[ex_node 1, ex_node 2, ex_node 3, ex_edge 5 1 3, GPreds (RUuid 3), ex_edge 6 2 3,
    GRemoveNode (RUuid 1)]"
  have m: "dget (mapping (run_graph ?ops)) 3 = Some \<lparr>ins = [(6, 2)], outs = []\<rparr>"
    and n: "plook (nodes (run_graph ?ops)) 2 = Some (Elem 2 [''Node''] ())" by code_simp+
  define G where "G = run_graph ?ops"
  have "get_id (RUuid 3) = Inr 3" by (simp add: get_id_def)
  from caches_never_stale[OF this, of ?ops] show ?thesis
    unfolding m option.case unfolding G_def[symmetric] using n[folded G_def] by auto
qed

text \<open>
  \<open>remove_node\<close> returns the node and leaves exactly the rest of the graph: the other nodes in their
  order, and the edges that do not touch the node, self-loops and parallel edges included.
\<close>

theorem remove_node_cuts:
  fixes ops :: "('n, 'c, 'p) graph_op list"
  defines "g \<equiv> run_graph ops"
  assumes "get_id r = Inr n" "plook (nodes g) n = Some v"
  shows "\<exists>g'. remove_node r g = (Inr v, g') \<and>
    pile_keys (nodes g') = filter (\<lambda>m. m \<noteq> n) (pile_keys (nodes g)) \<and>
    (\<forall>k h t. ends_of g' k = Some (h, t) \<longleftrightarrow> ends_of g k = Some (h, t) \<and> h \<noteq> n \<and> t \<noteq> n)"
proof -
  have inv: "graph_inv g" unfolding g_def by (rule run_graph_inv)
  from remove_node_result[OF inv assms(2,3)] pstore.del_ids[OF graph_invD(1)[OF inv], of n]
  show ?thesis by (auto simp: incident_free_def split: option.splits if_splits)
qed

theorem remove_node_cuts_witness:
  "\<exists>g'. remove_node (RUuid 2) (run_graph [ex_node 1, ex_node 2, ex_node 3, ex_edge 5 1 2, ex_edge 6 2 2,
       ex_edge 7 1 3]) = (Inr (Elem 2 [''Node''] ()), g') \<and> ends_of g' 7 = Some (1, 3)"
proof -
  let ?ops = "[ex_node 1, ex_node 2, ex_node 3, ex_edge 5 1 2, ex_edge 6 2 2, ex_edge 7 1 3]"
  have i: "get_id (RUuid 2) = Inr 2" by (simp add: get_id_def)
  have "plook (nodes (run_graph ?ops)) 2 = Some (Elem 2 [''Node''] ())"
    "ends_of (run_graph ?ops) 7 = Some (1, 3)" by code_simp+
  with remove_node_cuts[OF i, of ?ops] show ?thesis by auto
qed

text \<open>
  \<open>replace_node\<close> with a new node puts it in the place of the old one: it returns the old node, the
  new node comes last in the node order, and every edge keeps its identity with the old id replaced
  by the new one at both ends (self-loops of the old node become self-loops of the new one).
\<close>

theorem replace_node_redirects:
  fixes ops :: "('n, 'c, 'p) graph_op list"
  defines "g \<equiv> run_graph ops"
  assumes "get_id r = Inr old" "plook (nodes g) old = Some v" "paccepts (nodes g) w"
  shows "\<exists>g'. replace_node r w g = (Inr v, g') \<and>
    pile_keys (nodes g') = filter (\<lambda>m. m \<noteq> old) (pile_keys (nodes g)) @ [eid w] \<and>
    (\<forall>k. ends_of g' k =
      map_option (\<lambda>(h, t). (if h = old then eid w else h, if t = old then eid w else t)) (ends_of g k))"
proof -
  have inv: "graph_inv g" unfolding g_def by (rule run_graph_inv)
  note wf = graph_invD(1)[OF inv]
  have "old \<in> set (pile_keys (nodes g))" using pstore.ids_look[OF wf] assms(3) by auto
  then have ne: "eid w \<noteq> old" using assms(4) by (auto simp: paccepts_def)
  have "pile_keys (pdel old (pput w (nodes g))) = filter (\<lambda>m. m \<noteq> old) (pile_keys (nodes g)) @ [eid w]"
    using pstore.del_ids[OF pstore.put_inv[OF wf]] pstore.put_ids[OF wf assms(4)] ne by simp
  then show ?thesis
    using replace_node_result[OF inv assms(2-4)]
    by (auto simp: redirect_ends_def redirect_def map_prod_def)
qed

theorem replace_node_redirects_witness:
  "\<exists>g'. replace_node (RUuid 2) (Elem 9 [''Node''] ())
       (run_graph [ex_node 1, ex_node 2, ex_edge 5 1 2, ex_edge 6 2 2]) = (Inr (Elem 2 [''Node''] ()), g') \<and>
     ends_of g' 5 = Some (1, 9) \<and> ends_of g' 6 = Some (9, 9)"
proof -
  let ?ops = "[ex_node 1, ex_node 2, ex_edge 5 1 2, ex_edge 6 2 2]"
  have i: "get_id (RUuid 2) = Inr 2" by (simp add: get_id_def)
  have l: "plook (nodes (run_graph ?ops)) 2 = Some (Elem 2 [''Node''] ())"
    and p: "paccepts (nodes (run_graph ?ops)) (Elem 9 [''Node''] ())"
    and e: "ends_of (run_graph ?ops) 5 = Some (1, 2)" "ends_of (run_graph ?ops) 6 = Some (2, 2)"
    by code_simp+
  from replace_node_redirects[OF i l p] e show ?thesis by auto
qed

text \<open>
  \<open>splice_after\<close> inserts the new node right behind the anchor: afterwards the only edge that leaves
  the anchor is the new link to the new node, the new node leads exactly where the anchor led (one new
  edge per old one), and every edge that did not leave the anchor is untouched.
\<close>

theorem splice_after_rewires:
  fixes ops :: "('n, 'c, 'p) graph_op list"
  defines "g \<equiv> run_graph ops"
  assumes "get_id r = Inr a" "a \<in> set (pile_keys (nodes g))" "paccepts (nodes g) w"
    "\<forall>j. ends_of g (fresh j) = None" "inj fresh"
  shows "\<exists>us g'. splice_after fresh none r w g = (Inr us, g') \<and>
    pile_keys (nodes g') = pile_keys (nodes g) @ [eid w] \<and>
    (\<forall>k t. ends_of g' k = Some (a, t) \<longleftrightarrow> k = fresh 0 \<and> t = eid w) \<and>
    {t. \<exists>k. ends_of g' k = Some (eid w, t)} = {t. \<exists>k. ends_of g k = Some (a, t)} \<and>
    (\<forall>k h t. h \<noteq> a \<and> h \<noteq> eid w \<longrightarrow> (ends_of g' k = Some (h, t) \<longleftrightarrow> ends_of g k = Some (h, t)))"
proof -
  have inv: "graph_inv g" unfolding g_def by (rule run_graph_inv)
  note wf = graph_invD(1)[OF inv]
  from splice_after_result[OF inv assms(2-6), of none] obtain us g' ks where
    s: "splice_after fresh none r w g = (Inr us, g')" "nodes g' = pput w (nodes g)"
    "distinct (dkeys ks)" "\<forall>k t. (k, t) \<in> set ks \<longleftrightarrow> ends_of g k = Some (a, t)"
    "ends_of g' = (splice_ends (eid w) fresh 1 ks (ends_of g))(fresh 0 \<mapsto> (a, eid w))"
    by blast
  have ne: "a \<noteq> eid w" and nw: "ends_of g k \<noteq> Some (eid w, t)" for k t
    using assms(3,4) graph_invD(5)[OF inv, of k "eid w" t] by (auto simp: paccepts_def)
  have keys: "k \<in> fst ` set ks \<longleftrightarrow> (\<exists>t. ends_of g k = Some (a, t))" for k using s(4) by force
  have sp: "splice_ends (eid w) fresh 1 ks (ends_of g) k = Some (h, t) \<longleftrightarrow>
    (ends_of g k = Some (h, t) \<and> h \<noteq> a) \<or>
    (\<exists>j < length ks. k = fresh (1 + j) \<and> h = eid w \<and> t = snd (ks ! j))" for k h t
  proof -
    have "\<forall>(k, t) \<in> set ks. ends_of g k = Some (a, t)" using s(4) by blast
    from splice_ends_spec[OF s(3) this _ assms(6) ne, of 1 k h t] show ?thesis
      using keys[of k] assms(5) by auto
  qed
  have ev: "ends_of g' k = Some (h, t) \<longleftrightarrow>
    (k = fresh 0 \<and> h = a \<and> t = eid w) \<or> (ends_of g k = Some (h, t) \<and> h \<noteq> a) \<or>
    (\<exists>j < length ks. k = fresh (Suc j) \<and> h = eid w \<and> t = snd (ks ! j))" for k h t
    using assms(5) sp[of k h t] by (auto simp: s(5) inj_eq[OF assms(6)])
  have "t \<in> snd ` set ks \<longleftrightarrow> (\<exists>k. ends_of g k = Some (a, t))" for t using s(4) by force
  moreover have "(\<exists>j < length ks. t = snd (ks ! j)) \<longleftrightarrow> t \<in> snd ` set ks" for t
    by (auto simp: set_conv_nth)
  ultimately have "(\<exists>j < length ks. t = snd (ks ! j)) \<longleftrightarrow> (\<exists>k. ends_of g k = Some (a, t))" for t
    by simp
  then have "{t. \<exists>k. ends_of g' k = Some (eid w, t)} = {t. \<exists>k. ends_of g k = Some (a, t)}"
    using ne nw by (auto simp: ev)
  then show ?thesis
    using s(1,2) pstore.put_ids[OF wf assms(4)] ne nw by (auto simp: ev)
qed

theorem splice_after_rewires_witness:
  "\<exists>us g'. splice_after (\<lambda>i. 100 + i) () (RUuid 1) (Elem 9 [''Node''] ())
       (run_graph [ex_node 1, ex_node 2, ex_edge 5 1 2]) = (Inr us, g') \<and>
     ends_of g' 100 = Some (1, 9) \<and> pile_keys (nodes g') = [1, 2, 9]"
proof -
  let ?ops = "[ex_node 1, ex_node 2, ex_edge 5 1 2]"
  have i: "get_id (RUuid 1) = Inr 1" by (simp add: get_id_def)
  have k: "pile_keys (nodes (run_graph ?ops)) = [1, 2]" "pile_keys (edges (run_graph ?ops)) = [5]"
    and p: "paccepts (nodes (run_graph ?ops)) (Elem 9 [''Node''] ())"
    by code_simp+
  have f: "\<forall>j. ends_of (run_graph ?ops) (100 + j) = None"
  proof
    fix j :: nat
    have "100 + j \<notin> set (pile_keys (edges (run_graph ?ops)))" unfolding k(2) by simp
    then show "ends_of (run_graph ?ops) (100 + j) = None"
      using ends_mem[OF graph_invD(2)[OF run_graph_inv[of ?ops]]] by blast
  qed
  have m: "1 \<in> set (pile_keys (nodes (run_graph ?ops)))" unfolding k by simp
  have inj: "inj (\<lambda>i. 100 + i :: nat)" by (simp add: inj_def)
  from splice_after_rewires[OF i m p f inj, of "()"] k(1) show ?thesis by fastforce
qed

text \<open>
  \<open>get_predecessors_cached\<close> is documented as semantically identical to \<open>get_predecessors\<close>; with two
  parallel edges it is not: the cached reader lists the predecessor once per edge, the other reader
  (which builds a \<open>Pile\<close>) once.
\<close>

theorem cached_repeats_parallel:
  "get_predecessors (RUuid 2) (run_graph [ex_node 1, ex_node 2, ex_edge 5 1 2, ex_edge 6 1 2]) =
     Inr [Elem 1 [''Node''] ()] \<and>
   fst (get_predecessors_cached (RUuid 2)
     (run_graph [ex_node 1, ex_node 2, ex_edge 5 1 2, ex_edge 6 1 2])) =
     Inr [Elem 1 [''Node''] (), Elem 1 [''Node''] ()]"
  by code_simp

end
