(* ===== verification/Graph_Search.thy ===== *)
theory Graph_Search
  imports Graph
begin

text \<open>
  What the traversals of \<open>lionagi/protocols/graph/graph.py\<close> compute.  \<open>is_acyclic\<close> (depth first, three
  colours), \<open>topological_sort\<close> (Kahn's algorithm) and \<open>find_path\<close> (breadth first) are defined in
  \<open>Graph\<close>; here each is shown to agree with the relation \<open>arcs\<close> of its graph, with the fuel (or
  recursion depth) that is enough: the number of nodes.
\<close>

section \<open>The relation of a graph\<close>

definition arcs :: "('n, 'c, 'p) graph \<Rightarrow> (uuid \<times> uuid) set" where
  "arcs g = {(h, t). \<exists>k. ends_of g k = Some (h, t)}"

definition verts :: "('n, 'c, 'p) graph \<Rightarrow> uuid set" where
  "verts g = set (pile_keys (nodes g))"

lemma finite_verts [simp]: "finite (verts g)"
  by (simp add: verts_def)

lemma arcs_verts: "graph_inv g \<Longrightarrow> (h, t) \<in> arcs g \<Longrightarrow> h \<in> verts g \<and> t \<in> verts g"
  unfolding arcs_def verts_def using graph_invD(5,6) by blast

lemma finite_arcs: "graph_inv g \<Longrightarrow> finite (arcs g)"
  by (rule finite_subset[of _ "verts g \<times> verts g"]) (auto dest: arcs_verts)

text \<open>The out edges of a node as the loops read them: keys from the mapping, tails from the edge pile.\<close>

definition reads :: "('n, 'c, 'p) graph \<Rightarrow> links \<Rightarrow> bool" where
  "reads g ks \<longleftrightarrow> (\<forall>(k, t) \<in> set ks. \<exists>e. edge_at g k = Inr e \<and> plook (edges g) k = Some e \<and> etail (ebody e) = t)"

lemma out_reads:
  assumes "graph_inv g" "n \<in> verts g"
  obtains a where "adj_of g n = Inr a" "reads g (outs a)" "distinct (dkeys (outs a))"
    "\<And>k t. (k, t) \<in> set (outs a) \<longleftrightarrow> ends_of g k = Some (n, t)"
    "snd ` set (outs a) = arcs g `` {n}"
proof -
  note inv = graph_invD[OF assms(1)]
  from adj_present[OF gst_start[OF assms(1)]] assms(2) obtain a where a: "adj_of g n = Inr a"
    by (auto simp: verts_def)
  note o = out_dict_entries[OF inv(4) a refl]
  have "reads g (outs a)"
    unfolding reads_def using o(2) edge_at_ends[of g] by fastforce
  moreover have "snd ` set (outs a) = arcs g `` {n}"
    using o(2) by (force simp: arcs_def)
  ultimately show thesis using that[of a] a o by blast
qed

section \<open>Depth first\<close>

lemma ex_bools [simp]: "\<exists>b. \<not> b" "\<exists>b::bool. b"
  by (rule exI[of _ False], simp) (rule exI[of _ True], simp)

fun vlist :: "(uuid \<Rightarrow> colours \<Rightarrow> (bool, colours) eff) \<Rightarrow> uuid list \<Rightarrow> colours \<Rightarrow> (bool, colours) eff" where
  "vlist f [] c = (Inr True, c)"
| "vlist f (t # ts) c = then_do (f t c) (\<lambda>ok c1. if ok then vlist f ts c1 else (Inr False, c1))"

lemma visit_edges_vlist: "reads g ks \<Longrightarrow> visit_edges f g (dkeys ks) c = vlist f (map snd ks) c"
proof (induction ks arbitrary: c)
  case (Cons p ks)
  then show ?case by (cases p) (fastforce simp: reads_def then_do_def split: sum.split prod.split)
qed simp

definition black :: "colours \<Rightarrow> uuid set" where "black c = {v. dget c v = Some 2}"
definition grey :: "colours \<Rightarrow> uuid set" where "grey c = {v. dget c v = Some 1}"
definition white :: "colours \<Rightarrow> uuid set" where "white c = {v. dget c v = Some 0}"

lemma colour_updates:
  "black (dset n 2 c) = insert n (black c)" "n \<notin> black c \<Longrightarrow> black (dset n 1 c) = black c"
  "grey (dset n 1 c) = insert n (grey c)" "grey (dset n 2 c) = grey c - {n}"
  "white (dset n 1 c) = white c - {n}" "white (dset n 2 c) = white c - {n}"
  by (auto simp: black_def grey_def white_def split: if_splits)

text \<open>
  The state of the search: every node has a colour, nothing reachable from a finished node is
  unfinished, and no finished node lies on a cycle.
\<close>

definition search_inv :: "('n, 'c, 'p) graph \<Rightarrow> colours \<Rightarrow> bool" where
  "search_inv g c \<longleftrightarrow>
     (\<forall>v. v \<in> verts g \<longleftrightarrow> v \<in> white c \<union> grey c \<union> black c) \<and>
     (\<forall>v \<in> black c. arcs g `` {v} \<subseteq> black c) \<and>
     (\<forall>v \<in> black c. (v, v) \<notin> (arcs g)\<^sup>+)"

definition visited_ok :: "('n, 'c, 'p) graph \<Rightarrow> uuid set \<Rightarrow> colours \<Rightarrow> colours \<Rightarrow> bool" where
  "visited_ok g ts c c' \<longleftrightarrow>
     search_inv g c' \<and> ts \<subseteq> black c' \<and> black c \<subseteq> black c' \<and> grey c' = grey c \<and> white c' \<subseteq> white c"

definition cyclic :: "('n, 'c, 'p) graph \<Rightarrow> bool" where
  "cyclic g \<longleftrightarrow> (\<exists>v. (v, v) \<in> (arcs g)\<^sup>+)"

lemma colours_disjoint:
  "v \<in> black c \<Longrightarrow> v \<notin> grey c" "v \<in> white c \<Longrightarrow> v \<notin> grey c" "v \<in> white c \<Longrightarrow> v \<notin> black c"
  by (auto simp: black_def grey_def white_def)

lemma white_finite: "search_inv g c \<Longrightarrow> finite (white c)"
  by (rule finite_subset[of _ "verts g"]) (auto simp: search_inv_def)

lemma black_closed: "search_inv g c \<Longrightarrow> v \<in> black c \<Longrightarrow> (v, w) \<in> (arcs g)\<^sup>* \<Longrightarrow> w \<in> black c"
  by (rotate_tac 2, induction rule: rtrancl_induct) (auto simp: search_inv_def)

lemma finish_node:
  assumes "search_inv g c" "n \<in> grey c" "arcs g `` {n} \<subseteq> black c"
  shows "search_inv g (dset n 2 c)"
proof -
  have "(n, n) \<notin> (arcs g)\<^sup>+"
  proof
    assume "(n, n) \<in> (arcs g)\<^sup>+"
    then obtain m where "(n, m) \<in> arcs g" "(m, n) \<in> (arcs g)\<^sup>*" by (meson tranclD)
    then have "n \<in> black c" using black_closed[OF assms(1)] assms(3) by blast
    then show False using assms(2) colours_disjoint(1) by blast
  qed
  then show ?thesis
    using assms unfolding search_inv_def colour_updates by blast
qed

lemma visited_trans:
  "visited_ok g A c c1 \<Longrightarrow> visited_ok g B c1 c2 \<Longrightarrow> visited_ok g (A \<union> B) c c2"
  unfolding visited_ok_def by blast

lemma vlist_spec:
  assumes step: "\<And>n c. search_inv g c \<Longrightarrow> n \<in> verts g \<Longrightarrow> \<forall>w \<in> grey c. (w, n) \<in> (arcs g)\<^sup>+ \<Longrightarrow>
      card (white c) < d \<Longrightarrow> \<exists>b c'. f n c = (Inr b, c') \<and>
        (if b then visited_ok g {n} c c' else cyclic g)"
    and "search_inv g c" "\<forall>t \<in> set ts. t \<in> verts g \<and> (\<forall>w \<in> grey c. (w, t) \<in> (arcs g)\<^sup>+)"
    and "card (white c) < d"
  shows "\<exists>b c'. vlist f ts c = (Inr b, c') \<and> (if b then visited_ok g (set ts) c c' else cyclic g)"
  using assms(2-)
proof (induction ts arbitrary: c)
  case Nil
  then show ?case by (simp add: visited_ok_def ex_bool_eq)
next
  case (Cons t ts)
  then obtain b c1 where s: "f t c = (Inr b, c1)" "if b then visited_ok g {t} c c1 else cyclic g"
    using step[of c t] by auto
  show ?case
  proof (cases b)
    case False
    then show ?thesis using s by simp
  next
    case True
    then have v: "visited_ok g {t} c c1" using s(2) by simp
    then have "card (white c1) < d"
      using Cons.prems(3) card_mono[OF white_finite[OF Cons.prems(1)], of "white c1"]
      by (simp add: visited_ok_def)
    then obtain b' c2 where r: "vlist f ts c1 = (Inr b', c2)"
      "if b' then visited_ok g (set ts) c1 c2 else cyclic g"
      using Cons.IH[of c1] v Cons.prems(2) by (auto simp: visited_ok_def)
    then show ?thesis using s(1) True visited_trans[OF v, of "set ts" c2] by (cases b') auto
  qed
qed

lemma visit_spec:
  assumes "graph_inv g" "search_inv g c" "n \<in> verts g" "\<forall>w \<in> grey c. (w, n) \<in> (arcs g)\<^sup>+"
    "card (white c) < d"
  shows "\<exists>b c'. visit d g n c = (Inr b, c') \<and> (if b then visited_ok g {n} c c' else cyclic g)"
  using assms(2-)
proof (induction d arbitrary: n c)
  case (Suc d)
  from Suc.prems(1,2) consider "n \<in> black c" | "n \<in> grey c" | "n \<in> white c"
    by (auto simp: search_inv_def)
  then show ?case
  proof cases
    case 1
    then show ?thesis using Suc.prems(1) by (auto simp: black_def visited_ok_def)
  next
    case 2
    then have "cyclic g" using Suc.prems(3) by (auto simp: cyclic_def)
    then show ?thesis using 2 by (auto simp: grey_def)
  next
    case 3
    then have nb: "n \<notin> black c" "n \<notin> grey c" using colours_disjoint by blast+
    let ?c = "dset n 1 c"
    from out_reads[OF assms(1) Suc.prems(2)] obtain a where a: "adj_of g n = Inr a"
      "reads g (outs a)" "snd ` set (outs a) = arcs g `` {n}" by metis
    have inv1: "search_inv g ?c"
      using Suc.prems(1,2) nb unfolding search_inv_def colour_updates(2)[OF nb(1)] colour_updates by blast
    have "card (white ?c) < card (white c)"
      unfolding colour_updates by (rule card_Diff1_less[OF white_finite[OF Suc.prems(1)] 3])
    then have lt: "card (white ?c) < d" using Suc.prems(4) by simp
    have "\<forall>t \<in> set (map snd (outs a)). t \<in> verts g \<and> (\<forall>w \<in> grey ?c. (w, t) \<in> (arcs g)\<^sup>+)"
    proof
      fix t
      assume "t \<in> set (map snd (outs a))"
      then have nt: "(n, t) \<in> arcs g" using a(3) by auto
      then have "(w, t) \<in> (arcs g)\<^sup>+" if "w \<in> grey ?c" for w
        using that Suc.prems(3) unfolding colour_updates by (auto intro: trancl_into_trancl)
      then show "t \<in> verts g \<and> (\<forall>w \<in> grey ?c. (w, t) \<in> (arcs g)\<^sup>+)"
        using arcs_verts[OF assms(1) nt] by blast
    qed
    from vlist_spec[where f = "visit d g" and d = d and g = g, OF Suc.IH inv1 this lt] obtain b c2 where
      v: "vlist (visit d g) (map snd (outs a)) ?c = (Inr b, c2)"
      "if b then visited_ok g (set (map snd (outs a))) ?c c2 else cyclic g" by blast
    have dg: "dget c n = Some 0" using 3 by (simp add: white_def)
    show ?thesis
    proof (cases b)
      case False
      then show ?thesis using v dg a(1) by (simp add: visit_edges_vlist[OF a(2)])
    next
      case True
      then have ok: "visited_ok g (arcs g `` {n}) ?c c2" using v(2) a(3) by simp
      then have "search_inv g c2" "n \<in> grey c2" "arcs g `` {n} \<subseteq> black c2"
        unfolding visited_ok_def colour_updates by blast+
      then have "search_inv g (dset n 2 c2)" by (rule finish_node)
      then have "visited_ok g {n} c (dset n 2 c2)"
        using ok nb unfolding visited_ok_def colour_updates(2)[OF nb(1)] colour_updates by blast
      then show ?thesis using True v(1) dg a(1) by (simp add: visit_edges_vlist[OF a(2)])
    qed
  qed
qed simp

lemma visit_all_spec:
  assumes "graph_inv g" "search_inv g c" "grey c = {}" "set ns \<subseteq> verts g" "card (verts g) < d"
  shows "\<exists>b. visit_all d g ns c = Inr b \<and>
    (if b then \<exists>c'. search_inv g c' \<and> set ns \<union> black c \<subseteq> black c' else cyclic g)"
  using assms(2-4)
proof (induction ns arbitrary: c)
  case (Cons n ns)
  have "white c \<subseteq> verts g" using Cons.prems(1) by (auto simp: search_inv_def)
  then have "card (white c) < d" using assms(5) card_mono[OF finite_verts[of g], of "white c"] by simp
  then obtain b c1 where v: "visit d g n c = (Inr b, c1)"
    "if b then visited_ok g {n} c c1 else cyclic g"
    using visit_spec[OF assms(1) Cons.prems(1), of n d] Cons.prems(2,3) by auto
  show ?case
  proof (cases b)
    case True
    then obtain b' where "visit_all d g ns c1 = Inr b'"
      "if b' then \<exists>c'. search_inv g c' \<and> set ns \<union> black c1 \<subseteq> black c' else cyclic g"
      using Cons.IH[of c1] Cons.prems v(2) by (auto simp: visited_ok_def)
    moreover have "n \<in> black c1" "black c \<subseteq> black c1" using v(2) True by (simp_all add: visited_ok_def)
    moreover have "visit_all d g (n # ns) c = visit_all d g ns c1" using v(1) True by simp
    ultimately show ?thesis by (cases b') (simp_all, blast)
  qed (use v in simp)
qed auto

lemma initial_colours: "dget (fold (\<lambda>n c. dset n (0::nat) c) ns c) v = (if v \<in> set ns then Some 0 else dget c v)"
  by (induction ns arbitrary: c) auto

lemma is_acyclic_spec:
  assumes "graph_inv g" "card (verts g) < d"
  shows "is_acyclic d g = Inr (\<not> cyclic g)"
proof -
  let ?ids = "order (progression (nodes g))"
  let ?c = "fold (\<lambda>n c. dset n (0::nat) c) ?ids []"
  have v: "set ?ids = verts g" by (simp add: verts_def pile_keys_def)
  have "search_inv g ?c" "grey ?c = {}"
    by (auto simp: search_inv_def white_def grey_def black_def initial_colours v)
  from visit_all_spec[OF assms(1) this _ assms(2), of "rev ?ids"] obtain b where
    b: "visit_all d g (rev ?ids) ?c = Inr b"
    "if b then \<exists>c'. search_inv g c' \<and> set (rev ?ids) \<union> black ?c \<subseteq> black c' else cyclic g"
    using v by auto
  have "\<not> cyclic g" if "search_inv g c'" "verts g \<subseteq> black c'" for c'
  proof
    assume "cyclic g"
    then obtain x where x: "(x, x) \<in> (arcs g)\<^sup>+" by (auto simp: cyclic_def)
    then obtain y where "(x, y) \<in> arcs g" by (meson tranclD)
    then have "x \<in> black c'" using that(2) arcs_verts[OF assms(1)] by blast
    then show False using x that(1) by (auto simp: search_inv_def)
  qed
  moreover have "is_acyclic d g = Inr b" using b(1) by (simp add: is_acyclic_def)
  ultimately show ?thesis using b(2) v by (cases b) auto
qed

section \<open>Kahn's algorithm\<close>

fun rlist :: "uuid list \<Rightarrow> uuid list \<Rightarrow> (uuid, int) pydict \<Rightarrow> pyerr + uuid list \<times> (uuid, int) pydict" where
  "rlist [] q d = Inr (q, d)"
| "rlist (t # ts) q d =
     (case dget d t of
        None \<Rightarrow> Inl KeyError
      | Some n \<Rightarrow> rlist ts (if n - 1 = 0 then q @ [t] else q) (dset t (n - 1) d))"

lemma relax_rlist: "reads g ks \<Longrightarrow> relax g (dkeys ks) q d = rlist (map snd ks) q d"
proof (induction ks arbitrary: q d)
  case (Cons p ks)
  then show ?case by (cases p) (fastforce simp: reads_def Let_def split: option.split)
qed simp

text \<open>
  A degree that covers all the decrements to come reaches zero exactly when they use it up, and then
  the node is queued once.
\<close>

lemma rlist_spec:
  assumes "\<forall>t \<in> set ts. \<exists>n. dget d t = Some n \<and> int (count_list ts t) \<le> n"
  shows "\<exists>new d'. rlist ts q d = Inr (q @ new, d') \<and> distinct new \<and>
    set new = {t \<in> set ts. dget d t = Some (int (count_list ts t))} \<and>
    (\<forall>v. dget d' v = map_option (\<lambda>n. n - int (count_list ts v)) (dget d v))"
  using assms
proof (induction ts arbitrary: q d)
  case Nil
  then show ?case by (simp add: option.map_ident)
next
  case (Cons t ts)
  then obtain n where n: "dget d t = Some n" "int (count_list (t # ts) t) \<le> n" by auto
  let ?d = "dset t (n - 1) d" and ?q = "if n - 1 = 0 then q @ [t] else q"
  have "\<forall>t' \<in> set ts. \<exists>m. dget ?d t' = Some m \<and> int (count_list ts t') \<le> m"
  proof
    fix t'
    assume t': "t' \<in> set ts"
    then obtain m where "dget d t' = Some m" "int (count_list (t # ts) t') \<le> m" using Cons.prems by auto
    then show "\<exists>m. dget ?d t' = Some m \<and> int (count_list ts t') \<le> m" using n by auto
  qed
  from Cons.IH[OF this, of ?q] obtain new d' where r: "rlist ts ?q ?d = Inr (?q @ new, d')"
    "distinct new" "set new = {t' \<in> set ts. dget ?d t' = Some (int (count_list ts t'))}"
    "\<forall>v. dget d' v = map_option (\<lambda>m. m - int (count_list ts v)) (dget ?d v)" by blast
  have d': "\<forall>v. dget d' v = map_option (\<lambda>m. m - int (count_list (t # ts) v)) (dget d v)"
    using r(4) n(1) by auto
  show ?case
  proof (cases "n = 1")
    case True
    then have "count_list ts t = 0" using n(2) by simp
    then have nt: "t \<notin> set ts" by (simp add: count_list_0_iff)
    have "rlist (t # ts) q d = Inr (q @ (t # new), d')" using r(1) n(1) True by simp
    moreover have "distinct (t # new)" using r(2,3) nt by auto
    moreover have "set (t # new) = {t' \<in> set (t # ts). dget d t' = Some (int (count_list (t # ts) t'))}"
      using r(3) nt n(1) True by (auto simp: count_list_0_iff)
    ultimately show ?thesis using d' by blast
  next
    case False
    then have "rlist (t # ts) q d = Inr (q @ new, d')" using r(1) n(1) by simp
    moreover have "set new = {t' \<in> set (t # ts). dget d t' = Some (int (count_list (t # ts) t'))}"
    proof -
      have "t \<in> set new \<longleftrightarrow> n = int (count_list (t # ts) t)"
        using r(3) n False by (cases "t \<in> set ts") (auto simp: count_list_0_iff)
      moreover have "t' \<in> set new \<longleftrightarrow> t' \<in> set ts \<and> dget d t' = Some (int (count_list (t # ts) t'))"
        if "t' \<noteq> t" for t' using r(3) that by auto
      ultimately show ?thesis using n(1) by auto
    qed
    ultimately show ?thesis using d' r(2) by blast
  qed
qed

text \<open>The number of edges into a node from nodes not yet output.\<close>

definition rem :: "('n, 'c, 'p) graph \<Rightarrow> uuid set \<Rightarrow> uuid \<Rightarrow> nat" where
  "rem g R v = card {k. \<exists>h. ends_of g k = Some (h, v) \<and> h \<notin> R}"

lemma finite_edge_ids: "graph_inv g \<Longrightarrow> finite {k. \<exists>x. ends_of g k = Some x}"
  by (rule finite_subset[of _ "set (pile_keys (edges g))"]) (auto simp: ends_mem graph_invD)

lemma rem_finite: "graph_inv g \<Longrightarrow> finite {k. \<exists>h. ends_of g k = Some (h, v) \<and> h \<notin> R}"
  by (rule finite_subset[OF _ finite_edge_ids]) auto

lemma rem_zero: "graph_inv g \<Longrightarrow> rem g R v = 0 \<longleftrightarrow> (\<forall>h. (h, v) \<in> arcs g \<longrightarrow> h \<in> R)"
  by (auto simp: rem_def card_eq_0_iff rem_finite arcs_def)

lemma count_map_snd: "distinct (dkeys ks) \<Longrightarrow> count_list (map snd ks) v = card {k. (k, v) \<in> set ks}"
proof (induction ks)
  case (Cons p ks)
  obtain k t where p: "p = (k, t)" by fastforce
  have f: "finite {k. (k, v) \<in> set ks}"
    by (rule finite_subset[of _ "fst ` set ks"]) force+
  show ?case
  proof (cases "t = v")
    case True
    have "k \<notin> {k. (k, v) \<in> set ks}" using Cons.prems p by force
    moreover have "{k'. (k', v) \<in> set (p # ks)} = insert k {k. (k, v) \<in> set ks}" using p True by auto
    ultimately show ?thesis using Cons f p True by simp
  next
    case False
    then have "{k'. (k', v) \<in> set (p # ks)} = {k. (k, v) \<in> set ks}" using p by auto
    then show ?thesis using Cons p False by simp
  qed
qed simp

lemma rem_insert:
  assumes "graph_inv g" "n \<notin> R" "\<And>k t. (k, t) \<in> set ks \<longleftrightarrow> ends_of g k = Some (n, t)"
    "distinct (dkeys ks)"
  shows "rem g R v = rem g (insert n R) v + count_list (map snd ks) v"
proof -
  let ?A = "{k. \<exists>h. ends_of g k = Some (h, v) \<and> h \<notin> insert n R}" and ?B = "{k. (k, v) \<in> set ks}"
  have "{k. \<exists>h. ends_of g k = Some (h, v) \<and> h \<notin> R} = ?A \<union> ?B" using assms(2,3) by auto
  moreover have "?A \<inter> ?B = {}" using assms(3) by auto
  moreover have "finite ?B" by (rule finite_subset[of _ "fst ` set ks"]) force+
  ultimately show ?thesis
    using card_Un_disjoint[OF rem_finite[OF assms(1), of v "insert n R"], of ?B]
    by (simp add: rem_def count_map_snd[OF assms(4)])
qed

text \<open>Every node is preceded in the list by all its predecessors.\<close>

definition topo :: "('n, 'c, 'p) graph \<Rightarrow> uuid list \<Rightarrow> bool" where
  "topo g rs \<longleftrightarrow> (\<forall>i < length rs. \<forall>h. (h, rs ! i) \<in> arcs g \<longrightarrow> h \<in> set (take i rs))"

lemma topo_snoc:
  "topo g rs \<Longrightarrow> (\<And>h. (h, n) \<in> arcs g \<Longrightarrow> h \<in> set rs) \<Longrightarrow> topo g (rs @ [n])"
  by (auto simp: topo_def nth_append less_Suc_eq)

lemma first_pos:
  "t \<in> set xs \<Longrightarrow>
   length (takeWhile (\<lambda>x. x \<noteq> t) xs) < length xs \<and> xs ! length (takeWhile (\<lambda>x. x \<noteq> t) xs) = t"
  by (induction xs) auto

lemma topo_acyclic:
  assumes "graph_inv g" "topo g rs" "set rs = verts g"
  shows "\<not> cyclic g"
proof -
  define pos where "pos v = length (takeWhile (\<lambda>x. x \<noteq> v) rs)" for v
  have lt: "pos h < pos t" if "(h, t) \<in> arcs g" for h t
  proof -
    have t: "t \<in> set rs" using arcs_verts[OF assms(1) that] assms(3) by simp
    then have p: "pos t < length rs" "rs ! pos t = t" unfolding pos_def using first_pos[OF t] by simp_all
    then have "h \<in> set (take (pos t) rs)" using assms(2) that by (auto simp: topo_def)
    then obtain i where "i < length (take (pos t) rs)" "take (pos t) rs ! i = h"
      by (meson in_set_conv_nth)
    then have i: "i < pos t" "rs ! i = h" by simp_all
    have "pos h \<le> i"
    proof (rule ccontr)
      assume "\<not> pos h \<le> i"
      then have "i < length (takeWhile (\<lambda>x. x \<noteq> h) rs)" by (simp add: pos_def)
      from takeWhile_nth[OF this] nth_mem[OF this]
      have "rs ! i \<in> set (takeWhile (\<lambda>x. x \<noteq> h) rs)" by simp
      then show False using i(2) set_takeWhileD by fastforce
    qed
    then show ?thesis using i(1) by simp
  qed
  have "pos h < pos t" if "(h, t) \<in> (arcs g)\<^sup>+" for h t
    using that by (induction rule: trancl_induct) (auto dest: lt)
  then show ?thesis by (auto simp: cyclic_def)
qed

definition kahn_inv ::
    "('n, 'c, 'p) graph \<Rightarrow> uuid list \<Rightarrow> (uuid, int) pydict \<Rightarrow> uuid list \<Rightarrow> bool" where
  "kahn_inv g q d rs \<longleftrightarrow>
     distinct (rs @ q) \<and> set (rs @ q) \<subseteq> verts g \<and>
     (\<forall>v \<in> verts g. dget d v = Some (int (rem g (set rs) v))) \<and>
     (\<forall>v \<in> verts g. v \<in> set (rs @ q) \<longleftrightarrow> rem g (set rs) v = 0) \<and>
     topo g rs"

lemma kahn_step:
  assumes "graph_inv g" "kahn_inv g (n # q) d rs" "adj_of g n = Inr a" "reads g (outs a)"
    "distinct (dkeys (outs a))" "\<And>k t. (k, t) \<in> set (outs a) \<longleftrightarrow> ends_of g k = Some (n, t)"
  shows "\<exists>q' d'. relax g (dkeys (outs a)) q d = Inr (q', d') \<and> kahn_inv g q' d' (rs @ [n])"
proof -
  let ?ts = "map snd (outs a)" and ?R = "set rs"
  have n: "n \<notin> ?R" "n \<in> verts g" and rn: "rem g ?R n = 0" and dq: "distinct (rs @ n # q)"
    and sub: "set (rs @ n # q) \<subseteq> verts g"
    using assms(2) by (auto simp: kahn_inv_def)
  have split: "rem g ?R v = rem g (insert n ?R) v + count_list ?ts v" for v
    by (rule rem_insert[OF assms(1) n(1) assms(6,5)])
  have tv: "t \<in> verts g" if "t \<in> set ?ts" for t
    using that assms(6) graph_invD(6)[OF assms(1)] by (auto simp: verts_def)
  have dg: "dget d v = Some (int (rem g ?R v))" if "v \<in> verts g" for v
    using assms(2) that by (simp add: kahn_inv_def)
  have "\<forall>t \<in> set ?ts. \<exists>m. dget d t = Some m \<and> int (count_list ?ts t) \<le> m"
  proof
    fix t
    assume "t \<in> set ?ts"
    then show "\<exists>m. dget d t = Some m \<and> int (count_list ?ts t) \<le> m"
      using dg[OF tv] split[of t] by simp
  qed
  from rlist_spec[OF this, of q] obtain new d' where r: "rlist ?ts q d = Inr (q @ new, d')"
    "distinct new" "set new = {t \<in> set ?ts. dget d t = Some (int (count_list ?ts t))}"
    "\<forall>v. dget d' v = map_option (\<lambda>m. m - int (count_list ?ts v)) (dget d v)" by blast
  have new: "v \<in> set new \<longleftrightarrow> v \<in> set ?ts \<and> rem g (insert n ?R) v = 0" for v
  proof (cases "v \<in> set ?ts")
    case True
    have "v \<in> set new \<longleftrightarrow> rem g ?R v = count_list ?ts v" using r(3) dg[OF tv[OF True]] True by simp
    also have "\<dots> \<longleftrightarrow> rem g (insert n ?R) v = 0" using split[of v] by linarith
    finally show ?thesis using True by blast
  qed (use r(3) in blast)
  have pos: "v \<in> set ?ts \<Longrightarrow> rem g ?R v \<noteq> 0" for v
  proof -
    assume "v \<in> set ?ts"
    then have "count_list ?ts v \<noteq> 0" by (simp only: count_list_0_iff) simp
    then show ?thesis using split[of v] by linarith
  qed
  have zero: "v \<in> set (rs @ n # q) \<longleftrightarrow> rem g ?R v = 0" if "v \<in> verts g" for v
    using assms(2) that by (simp add: kahn_inv_def)
  have "kahn_inv g (q @ new) d' (rs @ [n])"
    unfolding kahn_inv_def
  proof (intro conjI ballI)
    have "v \<notin> set new" if "v \<in> set (rs @ n # q)" for v
    proof -
      have "rem g ?R v = 0" using that zero[of v] sub by blast
      then show ?thesis using pos[of v] new[of v] by blast
    qed
    then show "distinct ((rs @ [n]) @ q @ new)" using dq r(2) by auto
    show "set ((rs @ [n]) @ q @ new) \<subseteq> verts g" using sub tv new by auto
    show "dget d' v = Some (int (rem g (set (rs @ [n])) v))" if "v \<in> verts g" for v
      using r(4) dg[OF that] split[of v] by simp
    show "(v \<in> set ((rs @ [n]) @ q @ new)) = (rem g (set (rs @ [n])) v = 0)" if "v \<in> verts g" for v
    proof -
      have "rem g (set (rs @ [n])) v = rem g (insert n ?R) v" by simp
      moreover have "v \<in> set ((rs @ [n]) @ q @ new) \<longleftrightarrow> rem g ?R v = 0 \<or> v \<in> set new"
        using zero[OF that] by auto
      moreover have "rem g ?R v = 0 \<Longrightarrow> rem g (insert n ?R) v = 0" using split[of v] by linarith
      moreover have "v \<notin> set ?ts \<Longrightarrow> rem g ?R v = rem g (insert n ?R) v"
        using split[of v] count_list_0_iff[of ?ts v] by linarith
      ultimately show ?thesis using new[of v] by metis
    qed
    have "h \<in> set rs" if "(h, n) \<in> arcs g" for h
      using rn that rem_zero[OF assms(1), of ?R n] by blast
    then show "topo g (rs @ [n])" using assms(2) by (intro topo_snoc) (auto simp: kahn_inv_def)
  qed
  then show ?thesis using r(1) relax_rlist[OF assms(4)] by auto
qed

lemma kahn_spec:
  assumes "graph_inv g" "kahn_inv g q d rs" "card (verts g) - length rs \<le> fuel"
    "map (plook (nodes g)) rs = map Some res"
  shows "\<exists>rs' res'. kahn fuel g q d res = Some (Inr res') \<and> map (plook (nodes g)) rs' = map Some res' \<and>
    (\<exists>d'. kahn_inv g [] d' rs')"
  using assms(2-)
proof (induction fuel arbitrary: q d rs res)
  case 0
  have "distinct (rs @ q)" "set (rs @ q) \<subseteq> verts g" using "0.prems"(1) by (auto simp: kahn_inv_def)
  then have "length (rs @ q) \<le> card (verts g)"
    by (metis card_mono distinct_card finite_verts)
  then have "length q = 0" using "0.prems"(2) unfolding length_append by linarith
  then have "q = []" by simp
  then show ?case using "0.prems" by auto
next
  case (Suc fuel)
  show ?case
  proof (cases q)
    case Nil
    then show ?thesis using Suc.prems by auto
  next
    case (Cons n q')
    then have nv: "n \<in> verts g" using Suc.prems(1) by (auto simp: kahn_inv_def)
    from out_reads[OF assms(1) nv] obtain a where a: "adj_of g n = Inr a" "reads g (outs a)"
      "distinct (dkeys (outs a))" "\<And>k t. (k, t) \<in> set (outs a) \<longleftrightarrow> ends_of g k = Some (n, t)" by metis
    from kahn_step[OF assms(1) Suc.prems(1)[unfolded Cons] a] obtain q2 d2 where
      r: "relax g (dkeys (outs a)) q' d = Inr (q2, d2)" "kahn_inv g q2 d2 (rs @ [n])" by blast
    obtain v where v: "plook (nodes g) n = Some v"
      using nv pstore.ids_look[OF graph_invD(1)[OF assms(1)], of n] by (auto simp: verts_def)
    then have na: "node_at g n = Inr v"
      by (simp add: node_at_def pile_lookup_def plook_def not_found_def)
    have "map (plook (nodes g)) (rs @ [n]) = map Some (res @ [v])" using Suc.prems(3) v by simp
    from Suc.IH[OF r(2) _ this] Suc.prems(2) show ?thesis
      using Cons na a(1) r(1) by simp
  qed
qed

lemma no_source_cyclic:
  assumes "graph_inv g" "S \<noteq> {}" "\<forall>v \<in> S. \<exists>u \<in> S. (u, v) \<in> arcs g"
  shows "cyclic g"
proof (rule ccontr)
  assume "\<not> cyclic g"
  then have "acyclic (arcs g)" by (simp add: acyclic_def cyclic_def)
  then have "wf (arcs g)" by (rule finite_acyclic_wf[OF finite_arcs[OF assms(1)]])
  moreover obtain x where "x \<in> S" using assms(2) by blast
  ultimately obtain z where "z \<in> S" "\<And>y. (y, z) \<in> arcs g \<Longrightarrow> y \<notin> S" by (rule wfE_min) blast
  then show False using assms(3) by blast
qed

lemma kahn_end:
  assumes "graph_inv g" "kahn_inv g [] d rs"
  shows "length rs = card (verts g) \<longleftrightarrow> \<not> cyclic g" "length rs = card (verts g) \<Longrightarrow> set rs = verts g"
proof -
  have k: "distinct rs" "set rs \<subseteq> verts g" "topo g rs"
    and z: "\<And>v. v \<in> verts g \<Longrightarrow> v \<in> set rs \<longleftrightarrow> rem g (set rs) v = 0"
    using assms(2) by (auto simp: kahn_inv_def)
  show full: "length rs = card (verts g) \<Longrightarrow> set rs = verts g"
    using k(1,2) by (metis card_subset_eq distinct_card finite_verts)
  have "cyclic g" if "length rs \<noteq> card (verts g)"
  proof (rule no_source_cyclic[OF assms(1), of "verts g - set rs"])
    have "set rs \<noteq> verts g" using that distinct_card[OF k(1)] by auto
    then show "verts g - set rs \<noteq> {}" using k(2) by blast
    show "\<forall>v \<in> verts g - set rs. \<exists>u \<in> verts g - set rs. (u, v) \<in> arcs g"
      using z rem_zero[OF assms(1)] arcs_verts[OF assms(1)] by blast
  qed
  moreover have "\<not> cyclic g" if "length rs = card (verts g)"
    by (rule topo_acyclic[OF assms(1) k(3) full[OF that]])
  ultimately show "length rs = card (verts g) \<longleftrightarrow> \<not> cyclic g" by blast
qed

lemma kahn_start:
  assumes "graph_inv g"
  defines "d \<equiv> map (\<lambda>(n, a). (n, int (length (ins a)))) (mapping g)"
  shows "kahn_inv g (map fst (filter (\<lambda>(_, k). k = 0) d)) d []"
proof -
  note inv = graph_invD[OF assms(1)]
  have keys: "dkeys d = dkeys (mapping g)" by (simp add: d_def case_prod_unfold o_def)
  have dist: "distinct (dkeys d)" and dom: "set (dkeys d) = verts g"
    using inv(4) unfolding keys by (simp_all add: gmap_def verts_def)
  have val: "dget d v = Some (int (rem g {} v))" if v: "v \<in> verts g" for v
  proof -
    obtain a where a: "dget (mapping g) v = Some a" using adj_at[OF assms(1)] v by (auto simp: verts_def)
    then have "(v, a) \<in> set (mapping g)" by (rule map_of_SomeD)
    then have "(v, int (length (ins a))) \<in> set d" by (force simp: d_def)
    then have "dget d v = Some (int (length (ins a)))" by (rule map_of_is_SomeI[OF dist])
    moreover have "adj_of g v = Inr a" using a by (simp add: adj_of_def)
    note ia = in_dict_entries[OF inv(4) this]
    have "{k. \<exists>h. ends_of g k = Some (h, v) \<and> h \<notin> {}} = fst ` set (ins a)" using ia(2) by force
    then have "rem g {} v = length (ins a)"
      using ia(1) by (simp add: rem_def length_dkeys_set)
    ultimately show ?thesis by simp
  qed
  let ?q = "map fst (filter (\<lambda>(_, k). k = 0) d)"
  have "distinct ?q" using dist by (simp add: distinct_map_filter)
  moreover have q: "v \<in> set ?q \<longleftrightarrow> v \<in> verts g \<and> rem g {} v = 0" for v
  proof -
    have "v \<in> set ?q \<longleftrightarrow> dget d v = Some 0"
      using map_of_is_SomeI[OF dist, of v 0] map_of_SomeD[of d v 0] by force
    then show ?thesis using val[of v] dom dgetD[of d v 0] by (auto simp del: set_map)
  qed
  moreover have "topo g []" by (simp add: topo_def)
  ultimately show ?thesis using val by (auto simp: kahn_inv_def)
qed

lemma topological_sort_spec:
  assumes "graph_inv g" "card (verts g) \<le> fuel"
  shows "if cyclic g then topological_sort fuel g = Some (Inl ValueError)
    else \<exists>vs rs. topological_sort fuel g = Some (Inr vs) \<and> map (plook (nodes g)) rs = map Some vs \<and>
      distinct rs \<and> set rs = verts g \<and> topo g rs"
proof -
  let ?d = "map (\<lambda>(n, a). (n, int (length (ins a)))) (mapping g)"
  from kahn_spec[OF assms(1) kahn_start[OF assms(1)], of fuel "[]"] assms(2) obtain rs vs d' where
    k: "kahn fuel g (map fst (filter (\<lambda>(_, k). k = 0) ?d)) ?d [] = Some (Inr vs)"
    "map (plook (nodes g)) rs = map Some vs" "kahn_inv g [] d' rs" by auto
  have "length (mapping g) = card (verts g)"
    using graph_invD(4)[OF assms(1)] by (simp add: gmap_def verts_def length_dkeys_set)
  moreover have "length vs = length rs" using k(2) by (metis length_map)
  ultimately have t: "topological_sort fuel g =
      Some (if length rs \<noteq> card (verts g) then Inl ValueError else Inr vs)"
    using k(1) by (simp add: topological_sort_def Let_def)
  show ?thesis
    using t k(2,3) kahn_end[OF assms(1) k(3)] by (auto simp: kahn_inv_def)
qed

section \<open>Breadth first\<close>

text \<open>A path: a chain of edges of the graph that all satisfy the condition.\<close>

fun is_path :: "('n, 'c, 'p) graph \<Rightarrow> (('c, 'p) edge elem \<Rightarrow> bool) \<Rightarrow> uuid \<Rightarrow> ('c, 'p) edge elem list \<Rightarrow> uuid \<Rightarrow> bool" where
  "is_path g P s [] t \<longleftrightarrow> s = t"
| "is_path g P s (e # es) t \<longleftrightarrow>
     plook (edges g) (eid e) = Some e \<and> ehead (ebody e) = s \<and> P e \<and> is_path g P (etail (ebody e)) es t"

lemma is_path_snoc:
  "is_path g P s (es @ [e]) t \<longleftrightarrow>
     is_path g P s es (ehead (ebody e)) \<and> plook (edges g) (eid e) = Some e \<and> P e \<and> etail (ebody e) = t"
  by (induction es arbitrary: s) auto

definition steps :: "('n, 'c, 'p) graph \<Rightarrow> (('c, 'p) edge elem \<Rightarrow> bool) \<Rightarrow> (uuid \<times> uuid) set" where
  "steps g P = {(h, t). \<exists>k e. plook (edges g) k = Some e \<and> ehead (ebody e) = h \<and> etail (ebody e) = t \<and> P e}"

text \<open>The parent links form a tree rooted at the start, in the order of discovery.\<close>

definition tree :: "('n, 'c, 'p) graph \<Rightarrow> (('c, 'p) edge elem \<Rightarrow> bool) \<Rightarrow> uuid \<Rightarrow> parents \<Rightarrow> bool" where
  "tree g P s par \<longleftrightarrow>
     distinct (dkeys par) \<and> s \<notin> fst ` set par \<and>
     (\<forall>i < length par. case par ! i of (v, (p, k)) \<Rightarrow>
        (p = s \<or> p \<in> set (take i (dkeys par))) \<and>
        (\<exists>e. plook (edges g) k = Some e \<and> ehead (ebody e) = p \<and> etail (ebody e) = v \<and> P e))"

lemma tree_snoc:
  assumes "tree g P s par" "v \<noteq> s" "v \<notin> fst ` set par" "p = s \<or> p \<in> fst ` set par"
    "plook (edges g) k = Some e" "ehead (ebody e) = p" "etail (ebody e) = v" "P e"
  shows "tree g P s (dset v (p, k) par)" "dkeys (dset v (p, k) par) = dkeys par @ [v]"
proof -
  have "dset v x par = par @ [(v, x)]" for x
    using assms(3) by (induction par) auto
  then show "tree g P s (dset v (p, k) par)" "dkeys (dset v (p, k) par) = dkeys par @ [v]"
    using assms unfolding tree_def
    by (auto simp: nth_append less_Suc_eq split: prod.splits if_splits)
qed

lemma edge_at_look: "plook (edges g) k = Some e \<Longrightarrow> edge_at g k = Inr e"
  by (simp add: edge_at_def pile_lookup_def plook_def not_found_def)

lemma walk_back_spec:
  assumes "graph_inv g" "tree g P s par" "n = s \<or> (\<exists>i < fuel. i < length par \<and> n = fst (par ! i))"
  shows "\<exists>es. walk_back fuel g par n path = Some (Inr (es @ path)) \<and> is_path g P s es n"
  using assms(3)
proof (induction fuel arbitrary: n path)
  case 0
  then show ?case using assms(2) by (auto simp: tree_def map_of_eq_None_iff[symmetric])
next
  case (Suc fuel)
  show ?case
  proof (cases "n = s")
    case True
    then have "dget par n = None" using assms(2) by (auto simp: tree_def map_of_eq_None_iff)
    then show ?thesis using True by auto
  next
    case False
    then obtain i where i: "i < Suc fuel" "i < length par" "n = fst (par ! i)" using Suc.prems by blast
    obtain p k where pk: "par ! i = (n, (p, k))" using i(3) by (metis prod.collapse)
    have d: "dget par n = Some (p, k)"
      using map_of_is_SomeI[of par n "(p, k)"] nth_mem[OF i(2)] pk assms(2) by (auto simp: tree_def)
    have t: "p = s \<or> p \<in> set (take i (dkeys par))"
      "\<exists>e. plook (edges g) k = Some e \<and> ehead (ebody e) = p \<and> etail (ebody e) = n \<and> P e"
      using assms(2) i(2) pk unfolding tree_def by fastforce+
    then obtain e where e: "plook (edges g) k = Some e" "ehead (ebody e) = p" "etail (ebody e) = n" "P e"
      by blast
    have "p = s \<or> (\<exists>j < fuel. j < length par \<and> p = fst (par ! j))"
    proof (cases "p = s")
      case False
      then have "p \<in> set (take i (dkeys par))" using t(1) by blast
      then obtain j where "j < length (take i (dkeys par))" "take i (dkeys par) ! j = p"
        by (meson in_set_conv_nth)
      then have "j < i" "j < length par" "p = fst (par ! j)" using i(2) by auto
      moreover from this i(1) have "j < fuel" by linarith
      ultimately show ?thesis by blast
    qed simp
    from Suc.IH[OF this, of "e # path"] obtain es where
      es: "walk_back fuel g par p (e # path) = Some (Inr (es @ e # path))" "is_path g P s es p" by blast
    have "eid e = k" using pstore.look_key[OF graph_invD(2)[OF assms(1)] e(1)] .
    then have "is_path g P s (es @ [e]) n" using es(2) e by (simp add: is_path_snoc)
    moreover have "walk_back (Suc fuel) g par n path = Some (Inr ((es @ [e]) @ path))"
      using d edge_at_look[OF e(1)] es(1) by simp
    ultimately show ?thesis by blast
  qed
qed

text \<open>
  The search: \<open>vis\<close> is the start and everything with a parent, everything that left the queue has all
  its successors visited, the goal is not visited yet.
\<close>

definition explored ::
    "('n, 'c, 'p) graph \<Rightarrow> (('c, 'p) edge elem \<Rightarrow> bool) \<Rightarrow> uuid set \<Rightarrow> uuid list \<Rightarrow> uuid list \<Rightarrow> bool" where
  "explored g P busy q vis \<longleftrightarrow> (\<forall>v \<in> set vis - set q - busy. steps g P `` {v} \<subseteq> set vis)"

lemma explored_simps:
  "explored g P b q vis \<Longrightarrow> explored g P b (q @ [t]) (t # vis)"
  "explored g P {} (n # q) vis \<Longrightarrow> explored g P {n} q vis"
  "explored g P {n} q vis \<Longrightarrow> steps g P `` {n} \<subseteq> set vis \<Longrightarrow> explored g P {} q vis"
  "explored g P {} [] vis \<Longrightarrow> v \<in> set vis \<Longrightarrow> (v, w) \<in> steps g P \<Longrightarrow> w \<in> set vis"
  unfolding explored_def by auto

definition bfs_inv ::
    "('n, 'c, 'p) graph \<Rightarrow> (('c, 'p) edge elem \<Rightarrow> bool) \<Rightarrow> uuid \<Rightarrow> uuid \<Rightarrow> uuid set \<Rightarrow> uuid list \<Rightarrow> parents
      \<Rightarrow> uuid list \<Rightarrow> bool" where
  "bfs_inv g P s goal busy q par vis \<longleftrightarrow>
     tree g P s par \<and> set vis = insert s (fst ` set par) \<and> set q \<subseteq> set vis \<and>
     set vis \<subseteq> verts g \<and> goal \<notin> set vis \<and>
     explored g P busy q vis"

lemma explore_spec:
  assumes "graph_inv g" "reads g ks" "\<forall>(k, t) \<in> set ks. ends_of g k = Some (cur, t)"
    "\<And>e. chk e = Inr (P e)" "bfs_inv g P s goal {cur} q par vis" "cur \<in> set vis"
  shows "\<exists>b q' par' vis'. explore chk g goal cur (dkeys ks) q par vis = Inr (b, q', par', vis') \<and>
    (if b then tree g P s par' \<and> goal \<in> fst ` set par'
     else bfs_inv g P s goal {cur} q' par' vis' \<and> set vis \<subseteq> set vis' \<and>
       (\<forall>(k, t) \<in> set ks. \<forall>e. plook (edges g) k = Some e \<and> P e \<longrightarrow> t \<in> set vis') \<and>
       length q' + card (verts g - set vis') \<le> length q + card (verts g - set vis))"
  using assms(2,3,5,6)
proof (induction ks arbitrary: q par vis)
  case (Cons p ks)
  obtain k t where p: "p = (k, t)" by fastforce
  obtain e where e: "edge_at g k = Inr e" "plook (edges g) k = Some e" "etail (ebody e) = t"
    using Cons.prems(1) p by (auto simp: reads_def)
  have ek: "ends_of g k = Some (cur, t)" using Cons.prems(2) p by auto
  then have h: "ehead (ebody e) = cur" using e(2) by (auto simp: ends_of_def)
  have tv: "t \<in> verts g" using graph_invD(6)[OF assms(1) ek] by (simp add: verts_def)
  have rest: "reads g ks" "\<forall>(k, t) \<in> set ks. ends_of g k = Some (cur, t)"
    using Cons.prems(1,2) by (auto simp: reads_def)
  note inv = Cons.prems(3)[unfolded bfs_inv_def]
  show ?case
  proof (cases "t \<in> set vis \<or> \<not> P e")
    case True
    then have ex: "explore chk g goal cur (dkeys (p # ks)) q par vis = explore chk g goal cur (dkeys ks) q par vis"
      using e(1,3) p assms(4)[of e] by auto
    have seen: "\<forall>e'. plook (edges g) k = Some e' \<and> P e' \<longrightarrow> t \<in> set vis" using True e(2) by auto
    from Cons.IH[OF rest Cons.prems(3,4)] obtain b q' par' vis' where
      r: "explore chk g goal cur (dkeys ks) q par vis = Inr (b, q', par', vis')"
      "if b then tree g P s par' \<and> goal \<in> fst ` set par'
       else bfs_inv g P s goal {cur} q' par' vis' \<and> set vis \<subseteq> set vis' \<and>
         (\<forall>(k, t) \<in> set ks. \<forall>e. plook (edges g) k = Some e \<and> P e \<longrightarrow> t \<in> set vis') \<and>
         length q' + card (verts g - set vis') \<le> length q + card (verts g - set vis)" by blast
    show ?thesis
    proof (cases b)
      case False
      then have "\<forall>(k, t) \<in> set (p # ks). \<forall>e. plook (edges g) k = Some e \<and> P e \<longrightarrow> t \<in> set vis'"
        using r(2) seen unfolding p by auto
      then show ?thesis unfolding ex r(1) using r(2) False by simp
    qed (use ex r in simp)
  next
    case False
    let ?par = "dset t (cur, k) par"
    have ts: "t \<noteq> s" "t \<notin> fst ` set par" using False inv by auto
    have cp: "cur = s \<or> cur \<in> fst ` set par" using Cons.prems(4) inv by auto
    have Pe: "P e" using False by simp
    have tr: "tree g P s ?par" "dkeys ?par = dkeys par @ [t]"
      using tree_snoc[of g P s par t cur k e] inv ts cp e(2,3) h Pe by auto
    show ?thesis
    proof (cases "t = goal")
      case True
      then have "explore chk g goal cur (dkeys (p # ks)) q par vis = Inr (True, q @ [t], ?par, t # vis)"
        using e(1,3) p assms(4)[of e] False by (simp add: Let_def)
      then show ?thesis using tr(1) True by auto
    next
      case ng: False
      then have ex: "explore chk g goal cur (dkeys (p # ks)) q par vis =
          explore chk g goal cur (dkeys ks) (q @ [t]) ?par (t # vis)"
        using e(1,3) p assms(4)[of e] False by (simp add: Let_def)
      have bi: "bfs_inv g P s goal {cur} (q @ [t]) ?par (t # vis)"
        using inv tr(1) tv ng explored_simps(1)[of g P "{cur}" q vis t] unfolding bfs_inv_def by auto
      have "verts g - set (t # vis) = (verts g - set vis) - {t}" by auto
      then have c: "card (verts g - set vis) = Suc (card (verts g - set (t # vis)))"
        using card_Suc_Diff1[of "verts g - set vis" t] tv False by simp
      from Cons.IH[OF rest bi] Cons.prems(4) obtain b q' par' vis' where
        r: "explore chk g goal cur (dkeys ks) (q @ [t]) ?par (t # vis) = Inr (b, q', par', vis')"
        "if b then tree g P s par' \<and> goal \<in> fst ` set par'
         else bfs_inv g P s goal {cur} q' par' vis' \<and> set (t # vis) \<subseteq> set vis' \<and>
           (\<forall>(k, t) \<in> set ks. \<forall>e. plook (edges g) k = Some e \<and> P e \<longrightarrow> t \<in> set vis') \<and>
           length q' + card (verts g - set vis') \<le> length (q @ [t]) + card (verts g - set (t # vis))"
        by (metis (no_types, lifting) list.set_intros(2))
      show ?thesis unfolding ex r(1) using r(2) c p by (cases b) auto
    qed
  qed
qed (auto intro: exI[of _ False])

lemma bfs_inv_finish:
  assumes "bfs_inv g P s goal {n} q par vis" "steps g P `` {n} \<subseteq> set vis"
  shows "bfs_inv g P s goal {} q par vis"
proof -
  have "explored g P {n} q vis" using assms(1) by (simp add: bfs_inv_def)
  from explored_simps(3)[OF this assms(2)] show ?thesis using assms(1) by (auto simp: bfs_inv_def)
qed

lemma bfs_done:
  assumes "bfs_inv g P s goal {} [] par vis"
  shows "(s, goal) \<notin> (steps g P)\<^sup>*"
proof
  have closed: "w \<in> set vis" if "v \<in> set vis" "(v, w) \<in> steps g P" for v w
    using that assms explored_simps(4) unfolding bfs_inv_def by blast
  assume "(s, goal) \<in> (steps g P)\<^sup>*"
  then have "goal \<in> set vis"
    by (induction rule: rtrancl_induct) (use assms closed in \<open>simp_all add: bfs_inv_def\<close>)
  then show False using assms by (simp add: bfs_inv_def)
qed

lemma bfs_spec:
  assumes "graph_inv g" "\<And>e. chk e = Inr (P e)" "bfs_inv g P s goal {} q par vis"
    "length q + card (verts g - set vis) \<le> fuel"
  shows "(\<exists>es. bfs fuel chk g goal q par vis = Some (Inr (Some es)) \<and> is_path g P s es goal) \<or>
    (bfs fuel chk g goal q par vis = Some (Inr None) \<and> (s, goal) \<notin> (steps g P)\<^sup>*)"
  using assms(3,4)
proof (induction fuel arbitrary: q par vis)
  case 0
  then have "q = []" by simp
  then show ?case using 0 bfs_done[of g P s goal par vis] by simp
next
  case (Suc fuel)
  show ?case
  proof (cases q)
    case Nil
    have "(s, goal) \<notin> (steps g P)\<^sup>*" by (rule bfs_done) (use Suc.prems(1) Nil in simp)
    then show ?thesis using Nil by simp
  next
    case (Cons n q')
    then have nvis: "n \<in> set vis" using Suc.prems(1) by (auto simp: bfs_inv_def)
    then have nv: "n \<in> verts g" using Suc.prems(1) by (auto simp: bfs_inv_def)
    from out_reads[OF assms(1) nv] obtain a where a: "adj_of g n = Inr a" "reads g (outs a)"
      "\<And>k t. (k, t) \<in> set (outs a) \<longleftrightarrow> ends_of g k = Some (n, t)" by metis
    have "bfs_inv g P s goal {n} q' par vis"
      using Suc.prems(1) explored_simps(2) unfolding Cons bfs_inv_def by auto
    moreover have "\<forall>(k, t) \<in> set (outs a). ends_of g k = Some (n, t)" using a(3) by blast
    ultimately obtain b q2 par2 vis2 where
      x: "explore chk g goal n (dkeys (outs a)) q' par vis = Inr (b, q2, par2, vis2)"
      "if b then tree g P s par2 \<and> goal \<in> fst ` set par2
       else bfs_inv g P s goal {n} q2 par2 vis2 \<and> set vis \<subseteq> set vis2 \<and>
         (\<forall>(k, t) \<in> set (outs a). \<forall>e. plook (edges g) k = Some e \<and> P e \<longrightarrow> t \<in> set vis2) \<and>
         length q2 + card (verts g - set vis2) \<le> length q' + card (verts g - set vis)"
      using explore_spec[where chk = chk and P = P and cur = n, OF assms(1) a(2) _ assms(2)] nvis by blast
    show ?thesis
    proof (cases b)
      case True
      then have t: "tree g P s par2" "goal \<in> fst ` set par2" using x(2) by auto
      then obtain x where x2: "x \<in> set par2" "goal = fst x" by auto
      from x2(1) obtain j where "j < length par2" "par2 ! j = x" by (auto simp: in_set_conv_nth)
      with x2(2) obtain i where "i < length par2" "goal = fst (par2 ! i)" by blast
      with walk_back_spec[OF assms(1) t(1), of goal "length par2" "[]"] obtain es where
        "walk_back (length par2) g par2 goal [] = Some (Inr es)" "is_path g P s es goal" by auto
      then show ?thesis using Cons a(1) x(1) True by simp
    next
      case False
      then have y: "bfs_inv g P s goal {n} q2 par2 vis2" "set vis \<subseteq> set vis2"
        "\<forall>(k, t) \<in> set (outs a). \<forall>e. plook (edges g) k = Some e \<and> P e \<longrightarrow> t \<in> set vis2"
        "length q2 + card (verts g - set vis2) \<le> length q' + card (verts g - set vis)"
        using x(2) by auto
      have "steps g P `` {n} \<subseteq> set vis2"
      proof
        fix t
        assume "t \<in> steps g P `` {n}"
        then obtain k e where e: "plook (edges g) k = Some e" "ehead (ebody e) = n"
          "etail (ebody e) = t" "P e" by (auto simp: steps_def)
        then have "(k, t) \<in> set (outs a)" by (simp add: a(3) ends_of_def)
        then show "t \<in> set vis2" using y(3) e by auto
      qed
      then have "bfs_inv g P s goal {} q2 par2 vis2"
        by (rule bfs_inv_finish[OF y(1)])
      from Suc.IH[OF this] y(4) Suc.prems(2) show ?thesis
        using Cons a(1) x(1) False by simp
    qed
  qed
qed

section \<open>Properties\<close>

lemma cyclic_acyclic: "\<not> cyclic g \<longleftrightarrow> acyclic (arcs g)"
  by (simp add: cyclic_def acyclic_def)

text \<open>
  C10. \<open>is_acyclic\<close> decides acyclicity.  On every graph reached by calls on an empty one it raises nothing
  and answers exactly whether the relation of its edges has no cycle (self-loops included), as soon as
  the interpreter allows one more frame than there are nodes.
\<close>

theorem is_acyclic_decides:
  fixes ops :: "('n, 'c, 'p) graph_op list"
  defines "g \<equiv> run_graph ops"
  assumes "card (set (pile_keys (nodes g))) < depth"
  shows "is_acyclic depth g = Inr (acyclic (arcs g))"
proof -
  have "graph_inv g" unfolding g_def by (rule run_graph_inv)
  then show ?thesis
    using is_acyclic_spec[of g depth] assms(2) by (simp add: verts_def cyclic_acyclic)
qed

theorem is_acyclic_decides_witness:
  "acyclic (arcs (run_graph [ex_node 1, ex_node 2, ex_edge 5 1 2])) \<and>
   \<not> acyclic (arcs (run_graph [ex_node 1, ex_node 2, ex_edge 5 1 2, ex_edge 6 2 1]))"
proof -
  let ?a = "[ex_node 1, ex_node 2, ex_edge 5 1 2]"
  let ?b = "[ex_node 1, ex_node 2, ex_edge 5 1 2, ex_edge 6 2 1]"
  have a: "card (set (pile_keys (nodes (run_graph ?a)))) < 3" "is_acyclic 3 (run_graph ?a) = Inr True"
    and b: "card (set (pile_keys (nodes (run_graph ?b)))) < 3" "is_acyclic 3 (run_graph ?b) = Inr False"
    by code_simp+
  have eq: "x = y" if "r = Inr x" "r = Inr y" for r :: "pyerr + bool" and x y using that by simp
  from eq[OF is_acyclic_decides[OF a(1)] a(2)] eq[OF is_acyclic_decides[OF b(1)] b(2)]
  show ?thesis by blast
qed

text \<open>
  C8. \<open>topological_sort\<close> terminates within as many rounds as there are nodes and is right both ways: on
  a graph with a cycle it raises a ValueError, on any other it returns every node exactly once, each
  after all its predecessors.
\<close>

theorem topological_sort_correct:
  fixes ops :: "('n, 'c, 'p) graph_op list"
  defines "g \<equiv> run_graph ops"
  assumes "card (set (pile_keys (nodes g))) \<le> fuel"
  shows "if acyclic (arcs g)
    then \<exists>vs. topological_sort fuel g = Some (Inr vs) \<and> distinct (map eid vs) \<and>
        set (map eid vs) = set (pile_keys (nodes g)) \<and> set vs \<subseteq> set (elems (nodes g)) \<and>
        (\<forall>i < length vs. \<forall>h. (h, eid (vs ! i)) \<in> arcs g \<longrightarrow> h \<in> set (take i (map eid vs)))
    else topological_sort fuel g = Some (Inl ValueError)"
proof (cases "acyclic (arcs g)")
  case False
  have "graph_inv g" unfolding g_def by (rule run_graph_inv)
  then show ?thesis
    using topological_sort_spec[of g fuel] assms(2) False by (simp add: verts_def cyclic_acyclic[symmetric])
next
  case True
  have inv: "graph_inv g" unfolding g_def by (rule run_graph_inv)
  note wf = graph_invD(1)[OF inv]
  from topological_sort_spec[OF inv, of fuel] assms(2) True obtain vs rs where
    t: "topological_sort fuel g = Some (Inr vs)" "map (plook (nodes g)) rs = map Some vs"
    "distinct rs" "set rs = verts g" "topo g rs"
    by (auto simp: verts_def cyclic_acyclic[symmetric])
  have len: "length vs = length rs" using t(2) by (metis length_map)
  have nth: "plook (nodes g) (rs ! i) = Some (vs ! i)" if "i < length rs" for i
    using t(2) that len by (metis nth_map)
  then have "eid (vs ! i) = rs ! i" if "i < length rs" for i
    using pstore.look_key[OF wf] that by blast
  then have ids: "map eid vs = rs" using len by (intro nth_equalityI) simp_all
  have "v \<in> set (elems (nodes g))" if v: "v \<in> set vs" for v
  proof -
    obtain i where i: "i < length rs" "v = vs ! i" using v len by (metis in_set_conv_nth)
    have m: "rs ! i \<in> set (pile_keys (nodes g))"
      using t(4) nth_mem[OF i(1)] by (simp add: verts_def)
    have "the (dget (collections (nodes g)) (rs ! i)) = v"
      using nth[OF i(1)] i(2) by (simp add: plook_def)
    then show ?thesis using m unfolding elems_def by force
  qed
  then have "set vs \<subseteq> set (elems (nodes g))" by blast
  moreover have "\<forall>i < length vs. \<forall>h. (h, eid (vs ! i)) \<in> arcs g \<longrightarrow> h \<in> set (take i (map eid vs))"
    using t(5) len ids unfolding topo_def by (metis nth_map)
  ultimately show ?thesis using True t(1,3,4) ids by (auto simp: verts_def)
qed

theorem topological_sort_correct_witness:
  "topological_sort 3 (run_graph [ex_node 3, ex_node 1, ex_node 2, ex_edge 5 1 2, ex_edge 6 2 3]) =
     Some (Inr [Elem 1 [''Node''] (), Elem 2 [''Node''] (), Elem 3 [''Node''] ()]) \<and>
   acyclic (arcs (run_graph [ex_node 3, ex_node 1, ex_node 2, ex_edge 5 1 2, ex_edge 6 2 3]))"
proof -
  let ?ops = "[ex_node 3, ex_node 1, ex_node 2, ex_edge 5 1 2, ex_edge 6 2 3]"
  have c: "card (set (pile_keys (nodes (run_graph ?ops)))) \<le> 3"
    and t: "topological_sort 3 (run_graph ?ops) =
      Some (Inr [Elem 1 [''Node''] (), Elem 2 [''Node''] (), Elem 3 [''Node''] ()])" by code_simp+
  from topological_sort_correct[OF c] have "acyclic (arcs (run_graph ?ops))"
    unfolding t by (cases "acyclic (arcs (run_graph ?ops))") (simp_all del: foldl_Cons)
  then show ?thesis using t by blast
qed

text \<open>
  C9. \<open>find_path\<close> between two nodes returns a chain of edges of the graph from the start to the end, all
  of whose conditions hold, whenever there is one, and None exactly when there is none; as many rounds
  as there are nodes are enough.  (Without \<open>check_conditions\<close> every edge counts.)
\<close>

theorem find_path_correct:
  fixes ops :: "('n, 'c, 'p) graph_op list" and P :: "('c, 'p) edge elem \<Rightarrow> bool" and check :: bool
  defines "g \<equiv> run_graph ops"
  assumes "get_id rs = Inr s" "get_id rt = Inr t" "s \<in> set (pile_keys (nodes g))"
    "t \<in> set (pile_keys (nodes g))" "card (set (pile_keys (nodes g))) \<le> fuel"
  defines "Q \<equiv> (\<lambda>e. check \<longrightarrow> P e)"
  shows "(\<exists>es. find_path fuel (\<lambda>e. Inr (P e)) check rs rt g = Some (Inr (Some es)) \<and> is_path g Q s es t) \<or>
    (find_path fuel (\<lambda>e. Inr (P e)) check rs rt g = Some (Inr None) \<and> (s, t) \<notin> (steps g Q)\<^sup>*)"
proof -
  have inv: "graph_inv g" unfolding g_def by (rule run_graph_inv)
  have nodes: "has_node g s" "has_node g t" using assms(4,5) by (simp_all add: has_node_iff[OF graph_invD(1)[OF inv]])
  show ?thesis
  proof (cases "s = t")
    case True
    then show ?thesis using assms(2,3) nodes by (simp add: find_path_def)
  next
    case False
    have b: "bfs_inv g Q s t {} [s] [] [s]"
      using False assms(4) by (auto simp: bfs_inv_def tree_def verts_def explored_def)
    have "card (verts g - {s}) < card (verts g)"
      by (rule card_Diff1_less) (use assms(4) in \<open>simp_all add: verts_def\<close>)
    then have f: "length [s] + card (verts g - set [s]) \<le> fuel" using assms(6) by (simp add: verts_def)
    have chk: "(if check then (\<lambda>e. Inr (P e)) else (\<lambda>_. Inr True)) e = Inr (Q e)" for e
      by (simp add: Q_def)
    from bfs_spec[OF inv chk b f] show ?thesis
      using assms(2,3) nodes False by (simp add: find_path_def)
  qed
qed

theorem find_path_correct_witness:
  "\<exists>es. find_path 3 (\<lambda>e. Inr True) False (RUuid 1) (RUuid 3)
      (run_graph [ex_node 1, ex_node 2, ex_node 3, ex_edge 5 1 2, ex_edge 6 2 3]) = Some (Inr (Some es)) \<and>
     map eid es = [5, 6]"
proof -
  let ?ops = "[ex_node 1, ex_node 2, ex_node 3, ex_edge 5 1 2, ex_edge 6 2 3]"
  have i: "get_id (RUuid 1) = Inr 1" "get_id (RUuid 3) = Inr 3" by (simp_all add: get_id_def)
  have m: "1 \<in> set (pile_keys (nodes (run_graph ?ops)))" "3 \<in> set (pile_keys (nodes (run_graph ?ops)))"
    "card (set (pile_keys (nodes (run_graph ?ops)))) \<le> 3" by code_simp+
  have "map_option (map_sum id (map_option (map eid)))
    (find_path 3 (\<lambda>e. Inr True) False (RUuid 1) (RUuid 3) (run_graph ?ops)) = Some (Inr (Some [5, 6]))"
    by code_simp
  with find_path_correct[OF i m, of "\<lambda>_. True" False] show ?thesis by fastforce
qed

end
