(* ===== verification/Events.thy ===== *)
theory Events
  imports Prelude
begin

text \<open>
  Events and their execution state: \<open>lionagi/protocols/generic/event.py\<close>.

  An exception object is its class name, its message and whether it is an \<open>Exception\<close> (as opposed to
  a bare \<open>BaseException\<close> such as a cancellation); an \<open>ExceptionGroup\<close> has its object identity, its
  class name, its message and its members.  \<open>invoke\<close> and \<open>stream\<close> take the body of the event (the
  method a subclass overrides) and the two readings of the clock as arguments; the body sees the event
  and may change it.  The lemmas show that a pending event ends in exactly one terminal status, that a
  terminal event is never run again, that a waiter on the completion event is never left behind, and
  that errors accumulate in order up to the cap.
\<close>

section \<open>Statuses, exceptions, execution state\<close>

datatype event_status =
    PENDING | PROCESSING | COMPLETED | FAILED | SKIPPED | CANCELLED | ABORTED

fun status_text :: "event_status \<Rightarrow> string" where
  "status_text PENDING = ''pending''"
| "status_text PROCESSING = ''processing''"
| "status_text COMPLETED = ''completed''"
| "status_text FAILED = ''failed''"
| "status_text SKIPPED = ''skipped''"
| "status_text CANCELLED = ''cancelled''"
| "status_text ABORTED = ''aborted''"

definition all_statuses :: "event_status list" where
  "all_statuses = [PENDING, PROCESSING, COMPLETED, FAILED, SKIPPED, CANCELLED, ABORTED]"

definition status_of_text :: "string \<Rightarrow> event_status option" where
  "status_of_text t = find (\<lambda>s. status_text s = t) all_statuses"

definition terminal :: "event_status \<Rightarrow> bool" where
  "terminal s \<longleftrightarrow> s \<in> {COMPLETED, FAILED, CANCELLED, ABORTED, SKIPPED}"

datatype exc =
    Exc (exc_name: string) (exc_msg: string) (plain: bool)
  | Group (gid: nat) (exc_name: string) (exc_msg: string) (members: "exc list")

fun is_exception :: "exc \<Rightarrow> bool" where
  "is_exception (Exc _ _ b) = b"
| "is_exception (Group _ _ _ _) = True"

text \<open>The \<open>error\<close> slot: nothing, an exception object, or text.\<close>

datatype err = NoError | Err exc | ErrText string

text \<open>A slot that starts as the sentinel \<open>Unset\<close>.\<close>

datatype 'a slot = Unset | SetNone | SetTo 'a

record 'r execution =
  status :: event_status
  duration :: "int slot"
  response :: "'r option"
  error :: err
  retryable :: "bool slot"

definition fresh_execution :: "'r execution" where
  "fresh_execution =
     \<lparr>status = PENDING, duration = Unset, response = None, error = NoError, retryable = Unset\<rparr>"

section \<open>Accumulating errors\<close>

definition type_error :: exc where
  "type_error = Exc ''TypeError'' ''Cannot nest BaseExceptions in an ExceptionGroup'' True"

text \<open>The constructor \<open>ExceptionGroup(msg, excs)\<close> of Python: every member must be an \<open>Exception\<close>.\<close>

definition mk_group :: "nat \<Rightarrow> string \<Rightarrow> exc list \<Rightarrow> exc + exc" where
  "mk_group i msg xs =
     (if list_all is_exception xs then Inr (Group i ''ExceptionGroup'' msg xs) else Inl type_error)"

definition max_errors :: nat where
  "max_errors = 100"

definition add_error :: "nat \<Rightarrow> exc \<Rightarrow> 'r execution \<Rightarrow> (exc + unit) \<times> 'r execution" where
  "add_error i x ex =
     (case error ex of
        NoError \<Rightarrow> (Inr (), ex\<lparr>error := Err x\<rparr>)
      | Err (Group _ _ msg xs) \<Rightarrow>
          if length xs \<ge> max_errors then (Inr (), ex)
          else (case mk_group i msg (xs @ [x]) of
                  Inl e \<Rightarrow> (Inl e, ex)
                | Inr g \<Rightarrow> (Inr (), ex\<lparr>error := Err g\<rparr>))
      | Err y \<Rightarrow>
          (case mk_group i ''multiple errors'' [y, x] of
             Inl e \<Rightarrow> (Inl e, ex)
           | Inr g \<Rightarrow> (Inr (), ex\<lparr>error := Err g\<rparr>))
      | ErrText _ \<Rightarrow> (Inr (), ex\<lparr>error := Err x\<rparr>))"

text \<open>A run of \<open>add_error\<close> calls, with the identities of the groups they may build.\<close>

fun add_errors :: "(nat \<times> exc) list \<Rightarrow> 'r execution \<Rightarrow> (exc + unit) \<times> 'r execution" where
  "add_errors [] ex = (Inr (), ex)"
| "add_errors ((i, x) # xs) ex =
     (case add_error i x ex of (Inl e, ex') \<Rightarrow> (Inl e, ex') | (Inr _, ex') \<Rightarrow> add_errors xs ex')"

subsection \<open>Serialising an error\<close>

text \<open>The dicts \<open>to_dict\<close> puts under \<open>error\<close>.\<close>

datatype err_doc =
    DLeaf string string
  | DGroup string string "err_doc list"
  | DDeep nat \<comment> \<open>nesting depth exceeded, with the number of members cut off\<close>
  | DCircular

fun dec :: "nat \<Rightarrow> string" where
  "dec n = (if n < 10 then [char_of (48 + n)] else dec (n div 10) @ [char_of (48 + n mod 10)])"

declare dec.simps [simp del]

text \<open>\<open>str(exc)\<close>; a group counts its members.\<close>

fun exc_str :: "exc \<Rightarrow> string" where
  "exc_str (Exc _ m _) = m"
| "exc_str (Group _ _ m xs) =
     m @ '' ('' @ dec (length xs) @ '' sub-exception'' @ (if length xs = 1 then '''' else ''s'') @ '')''"

definition max_depth :: nat where
  "max_depth = 100"

fun serialize_group :: "nat \<Rightarrow> nat set \<Rightarrow> exc \<Rightarrow> err_doc" where
  "serialize_group d seen (Exc n m b) = DLeaf n m"
| "serialize_group d seen (Group i n m xs) =
     (if d > max_depth then DDeep (length xs)
      else if i \<in> seen then DCircular
      else DGroup n (exc_str (Group i n m xs)) (map (serialize_group (Suc d) (insert i seen)) xs))"

datatype error_value = NoValue | TextValue string | DocValue err_doc

definition error_doc :: "err \<Rightarrow> error_value" where
  "error_doc e =
     (case e of
        NoError \<Rightarrow> NoValue
      | ErrText t \<Rightarrow> TextValue t
      | Err x \<Rightarrow> DocValue (serialize_group 0 {} x))"

section \<open>Events\<close>

datatype 'm meta = Original string int | MetaVal 'm

record ('p, 'm, 'r) event =
  ident :: string
  created :: int
  payload :: 'p
  metadata :: "(string, 'm meta) pydict"
  execution :: "'r execution"
  streaming :: bool
  completion :: "bool option" \<comment> \<open>the lazily created completion event, and whether it is set\<close>

abbreviation ev_status :: "('p, 'm, 'r) event \<Rightarrow> event_status" where
  "ev_status ev \<equiv> status (execution ev)"

definition on_execution ::
    "('r execution \<Rightarrow> 'r execution) \<Rightarrow> ('p, 'm, 'r) event \<Rightarrow> ('p, 'm, 'r) event" where
  "on_execution f ev = ev\<lparr>execution := f (execution ev)\<rparr>"

definition completion_event :: "('p, 'm, 'r) event \<Rightarrow> bool \<times> ('p, 'm, 'r) event" where
  "completion_event ev =
     (case completion ev of
        Some b \<Rightarrow> (b, ev)
      | None \<Rightarrow> let b = terminal (ev_status ev) in (b, ev\<lparr>completion := Some b\<rparr>))"

definition put_status :: "event_status \<Rightarrow> ('p, 'm, 'r) event \<Rightarrow> ('p, 'm, 'r) event" where
  "put_status s ev =
     (let ev1 = on_execution (\<lambda>ex. ex\<lparr>status := s\<rparr>) ev
      in if terminal s \<and> completion ev \<noteq> None then ev1\<lparr>completion := Some True\<rparr> else ev1)"

datatype status_arg = StEnum event_status | StText string | StOther

definition set_status :: "status_arg \<Rightarrow> ('p, 'm, 'r) event \<Rightarrow> (unit, ('p, 'm, 'r) event) eff" where
  "set_status a ev =
     (case a of
        StEnum s \<Rightarrow> (Inr (), put_status s ev)
      | StText t \<Rightarrow>
          (case status_of_text t of
             None \<Rightarrow> (Inl ValueError, ev)
           | Some s \<Rightarrow> (Inr (), put_status s ev))
      | StOther \<Rightarrow> (Inl ValueError, ev))"

text \<open>
  What follows the body in \<open>invoke\<close> and \<open>stream\<close>: \<open>FAILED\<close> is set before the error is stored,
  \<open>CANCELLED\<close> after it, and the duration is written whatever happens.
\<close>

definition conclude ::
    "nat \<Rightarrow> int \<Rightarrow> exc + unit \<Rightarrow> ('p, 'm, 'r) event \<Rightarrow> (exc + unit) \<times> ('p, 'm, 'r) event" where
  "conclude i dt out ev =
     (let (res, ev') =
        (case out of
           Inr _ \<Rightarrow> (Inr (), put_status COMPLETED ev)
         | Inl x \<Rightarrow>
             if is_exception x
             then (let ev1 = put_status FAILED ev; (r, ex) = add_error i x (execution ev1)
                   in (r, ev1\<lparr>execution := ex\<rparr>))
             else (case add_error i x (execution ev) of
                     (Inl e, ex) \<Rightarrow> (Inl e, ev\<lparr>execution := ex\<rparr>)
                   | (Inr _, ex) \<Rightarrow> (Inl x, put_status CANCELLED (ev\<lparr>execution := ex\<rparr>))))
      in (res, on_execution (\<lambda>ex. ex\<lparr>duration := SetTo dt\<rparr>) ev'))"

type_synonym ('p, 'm, 'r) body =
  "('p, 'm, 'r) event \<Rightarrow> (exc + 'r) \<times> ('p, 'm, 'r) event"

definition invoke ::
    "('p, 'm, 'r) body \<Rightarrow> nat \<Rightarrow> int \<Rightarrow> ('p, 'm, 'r) event \<Rightarrow> (exc + unit) \<times> ('p, 'm, 'r) event" where
  "invoke body i dt ev =
     (if ev_status ev \<noteq> PENDING then (Inr (), ev)
      else (case body (on_execution (\<lambda>ex. ex\<lparr>status := PROCESSING\<rparr>) ev) of
              (Inl x, ev1) \<Rightarrow> conclude i dt (Inl x) ev1
            | (Inr r, ev1) \<Rightarrow> conclude i dt (Inr ()) (on_execution (\<lambda>ex. ex\<lparr>response := Some r\<rparr>) ev1)))"

text \<open>
  The body of a stream yields chunks, each with the event as it stands at that yield, and then ends or
  raises; a consumer that closes the stream after \<open>k\<close> of them makes the generator raise
  \<open>GeneratorExit\<close> at the \<open>k\<close>-th yield.
\<close>

definition generator_exit :: exc where
  "generator_exit = Exc ''GeneratorExit'' [] False"

type_synonym ('p, 'm, 'r, 'c) stream_body =
  "('p, 'm, 'r) event \<Rightarrow> ('c \<times> ('p, 'm, 'r) event) list \<times> (exc + unit) \<times> ('p, 'm, 'r) event"

definition stream ::
    "('p, 'm, 'r, 'c) stream_body \<Rightarrow> nat option \<Rightarrow> nat \<Rightarrow> int \<Rightarrow> ('p, 'm, 'r) event
      \<Rightarrow> 'c list \<times> (exc + unit) \<times> ('p, 'm, 'r) event" where
  "stream body closed_after i dt ev =
     (if terminal (ev_status ev) then ([], Inr (), ev)
      else (case body (on_execution (\<lambda>ex. ex\<lparr>status := PROCESSING\<rparr>) ev) of
              (cs, out, ev1) \<Rightarrow>
                (case closed_after of
                   Some (Suc k) \<Rightarrow>
                     if k < length cs
                     then (map fst (take (Suc k) cs), conclude i dt (Inl generator_exit) (snd (cs ! k)))
                     else (map fst cs, conclude i dt out ev1)
                 | _ \<Rightarrow> (map fst cs, conclude i dt out ev1))))"

definition assert_completed :: "('p, 'm, 'r) event \<Rightarrow> pyerr + unit" where
  "assert_completed ev = (if ev_status ev = COMPLETED then Inr () else Inl RuntimeError)"

text \<open>\<open>as_fresh_event\<close>: the id and the creation time of the clone are the arguments.\<close>

definition as_fresh_event ::
    "string \<Rightarrow> int \<Rightarrow> bool \<Rightarrow> ('p, 'm, 'r) event \<Rightarrow> ('p, 'm, 'r) event" where
  "as_fresh_event u now copy_meta ev =
     \<lparr>ident = u, created = now, payload = payload ev,
      metadata = dset ''original'' (Original (ident ev) (created ev))
                   (if copy_meta then metadata ev else []),
      execution = fresh_execution, streaming = streaming ev, completion = None\<rparr>"

section \<open>Settling\<close>

text \<open>The error slot can take \<open>x\<close>: \<open>add_error\<close> does not raise.\<close>

definition storable :: "exc \<Rightarrow> 'r execution \<Rightarrow> bool" where
  "storable x ex = (fst (add_error 0 x ex) = Inr ())"

lemma add_error_storable:
  "fst (add_error i x ex) = (if storable x ex then Inr () else Inl type_error)"
  by (auto simp: storable_def add_error_def mk_group_def split: err.splits exc.splits)

lemma add_error_status [simp]: "status (snd (add_error i x ex)) = status ex"
  and add_error_response [simp]: "response (snd (add_error i x ex)) = response ex"
  and add_error_duration [simp]: "duration (snd (add_error i x ex)) = duration ex"
  by (auto simp: add_error_def mk_group_def split: err.splits exc.splits)

lemma add_errors_frame:
  "status (snd (add_errors xs ex)) = status ex \<and> response (snd (add_errors xs ex)) = response ex
    \<and> duration (snd (add_errors xs ex)) = duration ex"
proof (induction xs ex rule: add_errors.induct)
  case (2 i x xs ex)
  then show ?case using add_error_status[of i x ex] add_error_response[of i x ex]
      add_error_duration[of i x ex]
    by (cases "add_error i x ex") (auto split: sum.splits)
qed simp

lemma storable_status [simp]: "storable x (ex\<lparr>status := s\<rparr>) = storable x ex"
  by (auto simp: storable_def add_error_def mk_group_def split: err.splits exc.splits)

lemma storable_first [simp]: "error ex = NoError \<Longrightarrow> storable x ex"
  by (simp add: storable_def add_error_def)

lemma put_status_simps [simp]:
  "execution (put_status s ev) = (execution ev)\<lparr>status := s\<rparr>"
  "completion (put_status s ev) =
     (if terminal s \<and> completion ev \<noteq> None then Some True else completion ev)"
  by (simp_all add: put_status_def on_execution_def Let_def)

lemma on_execution_simps [simp]:
  "execution (on_execution f ev) = f (execution ev)"
  "completion (on_execution f ev) = completion ev"
  by (simp_all add: on_execution_def)

lemma terminal_simps [simp]:
  "terminal COMPLETED" "terminal FAILED" "terminal CANCELLED" "terminal ABORTED" "terminal SKIPPED"
  "\<not> terminal PENDING" "\<not> terminal PROCESSING"
  by (simp_all add: terminal_def)

text \<open>The status a body's outcome leads to, and what leaves \<open>invoke\<close>.\<close>

fun settled :: "exc + 'a \<Rightarrow> event_status" where
  "settled (Inr _) = COMPLETED"
| "settled (Inl x) = (if is_exception x then FAILED else CANCELLED)"

fun escapes :: "exc + 'a \<Rightarrow> exc + unit" where
  "escapes (Inr _) = Inr ()"
| "escapes (Inl x) = (if is_exception x then Inr () else Inl x)"

lemma settled_terminal [simp]: "terminal (settled out)"
  by (cases out) simp_all

lemma conclude_settles:
  assumes "\<And>x. out = Inl x \<Longrightarrow> storable x (execution ev)"
  shows "fst (conclude i dt out ev) = escapes out \<and>
    ev_status (snd (conclude i dt out ev)) = settled out \<and>
    duration (execution (snd (conclude i dt out ev))) = SetTo dt \<and>
    response (execution (snd (conclude i dt out ev))) = response (execution ev) \<and>
    completion (snd (conclude i dt out ev)) = map_option (\<lambda>_. True) (completion ev)"
proof (cases out)
  case (Inr u)
  then show ?thesis by (cases "completion ev") (auto simp: conclude_def)
next
  case (Inl x)
  let ?f = "(execution ev)\<lparr>status := FAILED\<rparr>"
  have ok: "fst (add_error i x (execution ev)) = Inr ()" "fst (add_error i x ?f) = Inr ()"
    using assms[OF Inl] by (simp_all add: add_error_storable)
  show ?thesis
  proof (cases "is_exception x")
    case True
    then show ?thesis
      using ok(2) add_error_status[of i x ?f] add_error_response[of i x ?f]
      by (cases "completion ev"; cases "add_error i x ?f") (auto simp: conclude_def Inl)
  next
    case False
    then show ?thesis
      using ok(1) add_error_response[of i x "execution ev"]
      by (cases "completion ev"; cases "add_error i x (execution ev)") (auto simp: conclude_def Inl)
  qed
qed

text \<open>
  What an error slot holds after one more exception: the exception itself if there was no exception
  object before; else a group whose members are what was noted before, in order, and the exception,
  unless the group is full.
\<close>

fun noted :: "err \<Rightarrow> exc list" where
  "noted (Err (Exc n m b)) = [Exc n m b]"
| "noted (Err (Group i n m xs)) = xs"
| "noted _ = []"

definition kept :: "exc \<Rightarrow> err \<Rightarrow> err \<Rightarrow> bool" where
  "kept x old new \<longleftrightarrow>
     (case old of
        Err y \<Rightarrow>
          if length (noted old) < max_errors
          then (\<exists>i n m. new = Err (Group i n m (noted old @ [x]))) else new = old
      | _ \<Rightarrow> new = Err x)"

lemma add_error_kept: "storable x ex \<Longrightarrow> kept x (error ex) (error (snd (add_error i x ex)))"
  by (auto simp: storable_def add_error_def mk_group_def kept_def max_errors_def split: err.splits exc.splits if_splits)

lemma conclude_kept:
  assumes "storable x (execution ev)"
  shows "kept x (error (execution ev)) (error (execution (snd (conclude i dt (Inl x) ev))))"
proof -
  let ?f = "(execution ev)\<lparr>status := FAILED\<rparr>"
  have k: "kept x (error (execution ev)) (error (snd (add_error i x ?f)))"
    "kept x (error (execution ev)) (error (snd (add_error i x (execution ev))))"
    using add_error_kept[of x ?f i] add_error_kept[of x "execution ev" i] assms by simp_all
  have "fst (add_error i x (execution ev)) = Inr ()" using assms by (simp add: add_error_storable)
  then show ?thesis
    using k by (cases "add_error i x ?f"; cases "add_error i x (execution ev)") (auto simp: conclude_def Let_def)
qed

lemma conclude_quiet [simp]: "error (execution (snd (conclude i dt (Inr u) ev))) = error (execution ev)"
  by (simp add: conclude_def)

lemma invoke_idle: "ev_status ev \<noteq> PENDING \<Longrightarrow> invoke body i dt ev = (Inr (), ev)"
  by (simp add: invoke_def)

lemma stream_idle: "terminal (ev_status ev) \<Longrightarrow> stream sb k i dt ev = ([], Inr (), ev)"
  by (simp add: stream_def)

section \<open>Steps\<close>

text \<open>
  What can happen to an event: it is run (its body notes some errors through \<open>add_error\<close> and then
  returns or raises), streamed, an error is noted, its completion event is asked for; and, from outside,
  its status is assigned.
\<close>

datatype 'r run_op =
    Run "(nat \<times> exc) list" "exc + 'r" nat int
  | StreamAll "(nat \<times> exc) list" "exc + unit" nat int
  | Note nat exc
  | Await

definition noting :: "(nat \<times> exc) list \<Rightarrow> ('p, 'm, 'r) event \<Rightarrow> ('p, 'm, 'r) event" where
  "noting xs = on_execution (\<lambda>ex. snd (add_errors xs ex))"

fun run_step :: "('p, 'm, 'r) event \<Rightarrow> 'r run_op \<Rightarrow> ('p, 'm, 'r) event" where
  "run_step ev (Run xs out i dt) = snd (invoke (\<lambda>e. (out, noting xs e)) i dt ev)"
| "run_step ev (StreamAll xs out i dt) =
     snd (snd (stream (\<lambda>e. ([] :: (unit \<times> ('p, 'm, 'r) event) list, out, noting xs e)) None i dt ev))"
| "run_step ev (Note i x) = on_execution (\<lambda>ex. snd (add_error i x ex)) ev"
| "run_step ev Await = snd (completion_event ev)"

datatype 'r ev_op = RunOp "'r run_op" | Assign status_arg

fun ev_step :: "('p, 'm, 'r) event \<Rightarrow> 'r ev_op \<Rightarrow> ('p, 'm, 'r) event" where
  "ev_step ev (RunOp r) = run_step ev r"
| "ev_step ev (Assign a) = snd (set_status a ev)"

text \<open>Nobody waits on the completion event of an event that is over.\<close>

definition waiters_ok :: "('p, 'm, 'r) event \<Rightarrow> bool" where
  "waiters_ok ev \<longleftrightarrow> (terminal (ev_status ev) \<longrightarrow> completion ev \<noteq> Some False)"

lemma noting_simps [simp]:
  "completion (noting xs ev) = completion ev" "ev_status (noting xs ev) = ev_status ev"
  "response (execution (noting xs ev)) = response (execution ev)"
  "duration (execution (noting xs ev)) = duration (execution ev)"
  using add_errors_frame by (auto simp: noting_def)

lemma waiters_put: "waiters_ok (put_status s ev)"
  by (auto simp: waiters_ok_def)

lemma waiters_over: "\<not> terminal (ev_status ev) \<Longrightarrow> waiters_ok ev"
  by (simp add: waiters_ok_def)

lemma waiters_execution:
  "status ex = ev_status ev \<Longrightarrow> waiters_ok (ev\<lparr>execution := ex\<rparr>) = waiters_ok ev"
  by (simp add: waiters_ok_def)

lemma waiters_on_execution:
  "status (f (execution ev)) = ev_status ev \<Longrightarrow> waiters_ok (on_execution f ev) = waiters_ok ev"
  by (simp add: waiters_ok_def)

lemma conclude_waiters:
  assumes "\<not> terminal (ev_status ev)"
  shows "waiters_ok (snd (conclude i dt out ev))"
proof (cases out)
  case (Inr u)
  then show ?thesis by (simp add: conclude_def waiters_on_execution waiters_put)
next
  case (Inl x)
  let ?f = "put_status FAILED ev"
  have "waiters_ok (?f\<lparr>execution := snd (add_error i x (execution ?f))\<rparr>)"
    using waiters_put[of FAILED ev] by (subst waiters_execution) simp_all
  moreover have "waiters_ok (ev\<lparr>execution := snd (add_error i x (execution ev))\<rparr>)"
    using assms by (subst waiters_execution) (simp_all add: waiters_over)
  ultimately show ?thesis
    by (cases "add_error i x (execution ?f)"; cases "add_error i x (execution ev)")
       (auto simp: conclude_def Inl Let_def waiters_on_execution waiters_put split: sum.splits)
qed

lemma run_waiters: "waiters_ok ev \<Longrightarrow> waiters_ok (run_step ev r)"
proof (cases r)
  case (Run xs out i dt)
  assume w: "waiters_ok ev"
  show ?thesis
  proof (cases "ev_status ev = PENDING")
    case True
    then show ?thesis
      by (cases out) (auto simp: Run invoke_def intro!: conclude_waiters)
  qed (simp add: Run invoke_idle w)
next
  case (StreamAll xs out i dt)
  assume w: "waiters_ok ev"
  show ?thesis
  proof (cases "terminal (ev_status ev)")
    case False
    then show ?thesis by (auto simp: StreamAll stream_def intro!: conclude_waiters)
  qed (simp add: StreamAll stream_idle w)
next
  case (Note i x)
  assume "waiters_ok ev"
  then show ?thesis by (simp add: Note waiters_on_execution)
next
  case Await
  assume "waiters_ok ev"
  then show ?thesis by (auto simp: Await completion_event_def waiters_ok_def Let_def split: option.splits)
qed

lemma step_waiters: "waiters_ok ev \<Longrightarrow> waiters_ok (ev_step ev op)"
proof (cases op)
  case (Assign a)
  assume "waiters_ok ev"
  then show ?thesis
    by (auto simp: Assign set_status_def waiters_put split: status_arg.splits option.splits)
qed (simp add: run_waiters)

interpretation ev_ops: stepping ev_step waiters_ok
  by unfold_locales (rule step_waiters)

definition over :: "('p, 'm, 'r) event \<Rightarrow> bool" where
  "over ev \<longleftrightarrow> terminal (ev_status ev)"

definition result_of :: "('p, 'm, 'r) event \<Rightarrow> event_status \<times> 'r option \<times> int slot" where
  "result_of ev = (ev_status ev, response (execution ev), duration (execution ev))"

lemma run_over: "over ev \<Longrightarrow> result_of (run_step ev r) = result_of ev"
proof (cases r)
  case (Run xs out i dt)
  assume "over ev"
  then have "ev_status ev \<noteq> PENDING" by (auto simp: over_def)
  then show ?thesis by (simp add: Run invoke_idle)
next
  case (StreamAll xs out i dt)
  assume "over ev"
  then show ?thesis by (simp add: StreamAll stream_idle over_def)
qed (auto simp: result_of_def completion_event_def Let_def split: option.splits)

interpretation ev_runs: stepping_final run_step waiters_ok over result_of
proof unfold_locales
  fix ev :: "('p, 'm, 'r) event" and r
  show "waiters_ok ev \<Longrightarrow> waiters_ok (run_step ev r)" by (rule run_waiters)
  show "over ev \<Longrightarrow> result_of (run_step ev r) = result_of ev" by (rule run_over)
  show "over ev \<Longrightarrow> over (run_step ev r)"
    using run_over[of ev r] by (simp add: over_def result_of_def)
qed

section \<open>Properties\<close>

text \<open>
  C33.  \<open>invoke\<close> on a pending event settles it, whatever its body does: it ends \<open>COMPLETED\<close> with the
  body's result and the errors the body noted, \<open>FAILED\<close> on an \<open>Exception\<close> (which is not raised) or
  \<open>CANCELLED\<close> on any other exception (which is raised again).  The exception is kept in the error slot:
  alone if no exception was there, else at the end of the group of those the body noted, up to the cap
  of 100 members, beyond which it is dropped.  The duration is set, a waiter is released, and a second
  \<open>invoke\<close> does nothing.  The hypothesis on the error slot is what \<open>ExceptionGroup\<close> asks for.
\<close>

theorem invoke_settles:
  assumes "ev_status ev = PENDING"
    and "body (on_execution (\<lambda>ex. ex\<lparr>status := PROCESSING\<rparr>) ev) = (out, ev1)"
    and "\<And>x. out = Inl x \<Longrightarrow> storable x (execution ev1)"
  shows "fst (invoke body i dt ev) = escapes out
    \<and> ev_status (snd (invoke body i dt ev)) = settled out
    \<and> (case out of Inl x \<Rightarrow> kept x (error (execution ev1)) (error (execution (snd (invoke body i dt ev))))
       | Inr r \<Rightarrow> error (execution (snd (invoke body i dt ev))) = error (execution ev1))
    \<and> duration (execution (snd (invoke body i dt ev))) = SetTo dt
    \<and> (\<forall>r. out = Inr r \<longrightarrow> response (execution (snd (invoke body i dt ev))) = Some r)
    \<and> completion (snd (invoke body i dt ev)) = map_option (\<lambda>_. True) (completion ev1)
    \<and> invoke body' j dt' (snd (invoke body i dt ev)) = (Inr (), snd (invoke body i dt ev))"
proof -
  have main: "fst (invoke body i dt ev) = escapes out
    \<and> ev_status (snd (invoke body i dt ev)) = settled out
    \<and> (case out of Inl x \<Rightarrow> kept x (error (execution ev1)) (error (execution (snd (invoke body i dt ev))))
       | Inr r \<Rightarrow> error (execution (snd (invoke body i dt ev))) = error (execution ev1))
    \<and> duration (execution (snd (invoke body i dt ev))) = SetTo dt
    \<and> (\<forall>r. out = Inr r \<longrightarrow> response (execution (snd (invoke body i dt ev))) = Some r)
    \<and> completion (snd (invoke body i dt ev)) = map_option (\<lambda>_. True) (completion ev1)"
  proof (cases out)
    case (Inl x)
    have "invoke body i dt ev = conclude i dt (Inl x) ev1"
      using assms(1,2) by (simp add: invoke_def Inl)
    then show ?thesis using conclude_settles[of "Inl x" ev1 i dt] conclude_kept[of x ev1 i dt] assms(3) by (simp add: Inl)
  next
    case (Inr r)
    have "invoke body i dt ev = conclude i dt (Inr ()) (on_execution (\<lambda>ex. ex\<lparr>response := Some r\<rparr>) ev1)"
      using assms(1,2) by (simp add: invoke_def Inr)
    then show ?thesis
      using conclude_settles[of "Inr ()" "on_execution (\<lambda>ex. ex\<lparr>response := Some r\<rparr>) ev1" i dt]
      by (simp add: Inr)
  qed
  then have "terminal (ev_status (snd (invoke body i dt ev)))" by simp
  then have "ev_status (snd (invoke body i dt ev)) \<noteq> PENDING" by (auto simp: terminal_def)
  with main show ?thesis by (simp add: invoke_idle)
qed

text \<open>
  C34.  No lost wake-up: through any sequence of runs, streams, noted errors, status assignments and
  requests for the completion event, an event in a terminal status never has its completion event
  unset; and once it is over, runs and streams never change its status, response or duration again.
\<close>

theorem no_lost_wakeup:
  assumes "waiters_ok ev"
  shows "waiters_ok (foldl ev_step ev ops)
    \<and> (over ev \<longrightarrow> result_of (foldl run_step ev rs) = result_of ev)"
  using assms ev_ops.run_inv ev_runs.run_final by blast

definition ex_event :: "(unit, unit, nat) event" where
  "ex_event =
     \<lparr>ident = ''e'', created = 0, payload = (), metadata = [], execution = fresh_execution,
      streaming = False, completion = Some False\<rparr>"

theorem invoke_settles_witness:
  "ev_status (snd (invoke (\<lambda>e. (Inr 5, e)) 0 3 ex_event)) = COMPLETED
    \<and> response (execution (snd (invoke (\<lambda>e. (Inr 5, e)) 0 3 ex_event))) = Some 5
    \<and> ev_status (snd (invoke (\<lambda>e. (Inl type_error, e)) 0 3 ex_event)) = FAILED
    \<and> error (execution (snd (invoke (\<lambda>e. (Inl type_error, e)) 0 3 ex_event))) = Err type_error"
proof -
  let ?run = "on_execution (\<lambda>ex. ex\<lparr>status := PROCESSING\<rparr>) ex_event"
  show ?thesis
    using invoke_settles[of ex_event "\<lambda>e. (Inr 5, e)" "Inr 5" ?run 0 3 "\<lambda>e. (Inr 6, e)" 0 4]
      invoke_settles[of ex_event "\<lambda>e. (Inl type_error, e)" "Inl type_error" ?run 0 3 "\<lambda>e. (Inr 6, e)" 0 4]
    by (simp add: ex_event_def fresh_execution_def kept_def type_error_def)
qed

theorem no_lost_wakeup_witness:
  "waiters_ok (foldl ev_step ex_event [RunOp (Run [] (Inr 5) 0 3), Assign (StText ''failed''), RunOp Await])
    \<and> result_of (foldl run_step (put_status SKIPPED ex_event) [Run [] (Inr 5) 0 3, StreamAll [] (Inr ()) 1 2])
        = result_of (put_status SKIPPED ex_event)"
proof -
  have fresh: "waiters_ok ex_event"
    by (rule waiters_over) (simp add: ex_event_def fresh_execution_def)
  have "over (put_status SKIPPED ex_event)" by (simp add: over_def)
  then show ?thesis
    using no_lost_wakeup[OF fresh] no_lost_wakeup[OF waiters_put[of SKIPPED ex_event]] by blast
qed

section \<open>Errors\<close>

text \<open>What a run of \<open>add_error\<close> leaves when the first error is not itself a group.\<close>

fun piled_up :: "exc list \<Rightarrow> err \<Rightarrow> bool" where
  "piled_up [] e = (e = NoError)"
| "piled_up [x] e = (e = Err x)"
| "piled_up xs e = (\<exists>g. e = Err (Group g ''ExceptionGroup'' ''multiple errors'' (take max_errors xs)))"

lemma piled_up_snoc:
  assumes "piled_up (map snd xs) (error ex)" "list_all is_exception (map snd xs)" "is_exception x"
    and "xs \<noteq> [] \<longrightarrow> (\<exists>n m b. snd (hd xs) = Exc n m b)"
  shows "fst (add_error i x ex) = Inr () \<and> piled_up (map snd xs @ [x]) (error (snd (add_error i x ex)))"
proof (cases "map snd xs")
  case Nil
  with assms show ?thesis by (simp add: add_error_def)
next
  case (Cons y ys)
  with assms(4) obtain n m b where y: "y = Exc n m b" by (cases xs) auto
  show ?thesis
  proof (cases ys)
    case Nil
    with Cons assms y show ?thesis by (simp add: add_error_def mk_group_def max_errors_def)
  next
    case (Cons z zs)
    let ?l = "y # z # zs"
    have l: "map snd xs = ?l" using \<open>map snd xs = y # ys\<close> Cons by simp
    with assms(1) obtain g where
      g: "error ex = Err (Group g ''ExceptionGroup'' ''multiple errors'' (take max_errors ?l))" by auto
    have shape: "?l @ [x] = y # z # (zs @ [x])" by simp
    show ?thesis
    proof (cases "length (take max_errors ?l) \<ge> max_errors")
      case True
      then have full: "take max_errors (?l @ [x]) = take max_errors ?l"
        by (simp only: take_append) simp
      have "add_error i x ex = (Inr (), ex)" using g True by (simp add: add_error_def)
      then show ?thesis using g full unfolding l shape by (simp only: piled_up.simps) auto
    next
      case False
      then have more: "take max_errors (?l @ [x]) = ?l @ [x]" "take max_errors ?l = ?l"
        by (simp_all only: take_append) simp_all
      have "list_all is_exception (?l @ [x])" using assms(2,3) l by simp
      then have "add_error i x ex
          = (Inr (), ex\<lparr>error := Err (Group i ''ExceptionGroup'' ''multiple errors'' (?l @ [x]))\<rparr>)"
        using g False more(2) by (simp only: add_error_def mk_group_def g err.case exc.case) simp
      then show ?thesis using more(1) unfolding l shape by (simp only: piled_up.simps) simp
    qed
  qed
qed

lemma add_errors_append:
  "fst (add_errors xs ex) = Inr () \<Longrightarrow>
     add_errors (xs @ ys) ex = add_errors ys (snd (add_errors xs ex))"
  by (induction xs ex rule: add_errors.induct) (auto split: sum.splits prod.splits)

text \<open>
  Errors accumulate: noting a list of exceptions on a fresh execution never raises and leaves no
  error, the single error, or one \<open>ExceptionGroup\<close> holding the first hundred of them in the order
  they were noted.
\<close>

theorem errors_accumulate:
  assumes "error ex = NoError" "list_all is_exception (map snd xs)"
    and "xs \<noteq> [] \<Longrightarrow> snd (hd xs) = Exc n m b"
  shows "fst (add_errors xs ex) = Inr () \<and> piled_up (map snd xs) (error (snd (add_errors xs ex)))"
  using assms
proof (induction xs rule: rev_induct)
  case (snoc p xs)
  obtain i x where p: "p = (i, x)" by force
  have first: "xs \<noteq> [] \<Longrightarrow> snd (hd xs) = Exc n m b"
    using snoc.prems(3) by (cases xs) auto
  have IH: "fst (add_errors xs ex) = Inr ()" "piled_up (map snd xs) (error (snd (add_errors xs ex)))"
    using snoc.IH[OF snoc.prems(1) _ first] snoc.prems(2) by auto
  have step: "fst (add_error i x (snd (add_errors xs ex))) = Inr ()
      \<and> piled_up (map snd xs @ [x]) (error (snd (add_error i x (snd (add_errors xs ex)))))"
    using snoc.prems(2) first by (intro piled_up_snoc[OF IH(2)]) (auto simp: p)
  then show ?case
    by (cases "add_error i x (snd (add_errors xs ex))") (auto simp: p add_errors_append[OF IH(1)])
qed simp

theorem errors_accumulate_witness:
  "piled_up [Exc ''ValueError'' ''a'' True, Exc ''KeyError'' ''b'' True]
     (error (snd (add_errors [(1, Exc ''ValueError'' ''a'' True), (2, Exc ''KeyError'' ''b'' True)]
       (fresh_execution :: nat execution))))"
  using errors_accumulate[of "fresh_execution :: nat execution"
      "[(1, Exc ''ValueError'' ''a'' True), (2, Exc ''KeyError'' ''b'' True)]" "''ValueError''" "''a''" True]
  by (simp add: fresh_execution_def)

text \<open>
  A cancellation that arrives while an exception object is stored is lost: \<open>ExceptionGroup\<close>
  refuses it, so \<open>invoke\<close> raises a TypeError in its place, the event stays \<open>PROCESSING\<close> with its waiter
  unreleased, and a later \<open>invoke\<close> leaves it so.
\<close>

theorem cancellation_lost:
  assumes "ev_status ev = PENDING" "\<not> is_exception x"
    and "body (on_execution (\<lambda>ex. ex\<lparr>status := PROCESSING\<rparr>) ev) = (Inl x, ev1)"
    and "error (execution ev1) = Err (Exc n m b)" "ev_status ev1 = PROCESSING"
  shows "fst (invoke body i dt ev) = Inl type_error
    \<and> ev_status (snd (invoke body i dt ev)) = PROCESSING
    \<and> completion (snd (invoke body i dt ev)) = completion ev1
    \<and> invoke body' j dt' (snd (invoke body i dt ev)) = (Inr (), snd (invoke body i dt ev))"
proof -
  have "add_error i x (execution ev1) = (Inl type_error, execution ev1)"
    using assms(2,4) by (cases x) (simp_all add: add_error_def mk_group_def)
  then have "invoke body i dt ev = (Inl type_error, on_execution (\<lambda>ex. ex\<lparr>duration := SetTo dt\<rparr>) ev1)"
    using assms(1-3) by (simp add: invoke_def conclude_def)
  then show ?thesis using assms(5) by (simp add: invoke_idle)
qed

definition ex_cancelled :: "(unit, unit, nat) body" where
  "ex_cancelled e =
     (Inl (Exc ''CancelledError'' [] False), noting [(0, Exc ''ValueError'' ''a'' True)] e)"

theorem cancellation_lost_witness:
  "fst (invoke ex_cancelled 1 3 ex_event) = Inl type_error
    \<and> ev_status (snd (invoke ex_cancelled 1 3 ex_event)) = PROCESSING"
  using cancellation_lost[of ex_event "Exc ''CancelledError'' [] False" ex_cancelled
      "noting [(0, Exc ''ValueError'' ''a'' True)] (on_execution (\<lambda>ex. ex\<lparr>status := PROCESSING\<rparr>) ex_event)"
      "''ValueError''" "''a''" True 1 3 ex_cancelled 0 0]
  by (simp add: ex_cancelled_def ex_event_def fresh_execution_def noting_def add_error_def on_execution_def)

end
