(* ===== verification/Processing.thy ===== *)
theory Processing
  imports Events Pile "HOL-Library.Multiset"
begin

text \<open>
  Processors and executors: \<open>lionagi/protocols/generic/processor.py\<close>, with the rate-limited processor
  of \<open>lionagi/service/rate_limited_processor.py\<close>.

  The queue holds references to events.  Everything the overridable hooks read or change is the \<open>gate\<close>
  of the processor: the events themselves (a map from references to events) and, for the rate-limited
  processor, its counters.  \<open>process_loop\<close> is the body of the task group of \<open>process\<close>: it returns the
  references started and those denied for good, in order; the tasks then run, in an order the event
  loop chooses (\<open>sched\<close>).  Which exceptions that escape a task the task group raises on, and what its
  cancellation leaves of the tasks that have not ended, are the parameters \<open>group_raises\<close> and \<open>halted\<close>.
  A hook is one atomic step, and the tasks run after the loop has ended.  (While the hook of the rate
  limiter waits for its lock the event loop may already begin tasks; neither the loop nor the hooks of the
  two classes read what the task of another event writes.)  The lemmas show that \<open>process\<close> loses and invents nothing, keeps to its
  capacity and the queue's order, that \<open>join\<close> drains a queue whose events are permitted, that the rate
  limiter never starts more than its budget, and where it starves.
\<close>

section \<open>Processor\<close>

record ('e, 'p) processor =
  queue :: "'e list"
  capacity :: int
  queue_capacity :: int
  refresh_time :: int
  max_queue_size :: int
  execution_mode :: bool
  stopped :: bool
  concurrency :: "nat option"
  gate :: 'p

definition mk_processor ::
    "int \<Rightarrow> int \<Rightarrow> nat option \<Rightarrow> int \<Rightarrow> 'p \<Rightarrow> pyerr + ('e, 'p) processor" where
  "mk_processor cap refresh limit maxq g =
     (if cap < 1 then Inl ValueError
      else if refresh \<le> 0 then Inl ValueError
      else if maxq < 0 then Inl ValueError
      else Inr \<lparr>queue = [], capacity = cap, queue_capacity = cap, refresh_time = refresh,
                max_queue_size = maxq, execution_mode = False, stopped = False,
                concurrency = (if limit = Some 0 then None else limit), gate = g\<rparr>)"

text \<open>\<open>asyncio.Queue(maxsize)\<close>: a size of 0 is no bound.\<close>

definition queue_full :: "('e, 'p) processor \<Rightarrow> bool" where
  "queue_full p \<longleftrightarrow>
     (if max_queue_size p = 0 then False else int (length (queue p)) \<ge> max_queue_size p)"

definition try_enqueue :: "'e \<Rightarrow> ('e, 'p) processor \<Rightarrow> bool \<times> ('e, 'p) processor" where
  "try_enqueue e p = (if queue_full p then (False, p) else (True, p\<lparr>queue := queue p @ [e]\<rparr>))"

text \<open>\<open>enqueue\<close> waits while the queue is full (\<open>None\<close>).\<close>

definition enqueue :: "'e \<Rightarrow> ('e, 'p) processor \<Rightarrow> ('e, 'p) processor option" where
  "enqueue e p = (if queue_full p then None else Some (p\<lparr>queue := queue p @ [e]\<rparr>))"

definition stop :: "('e, 'p) processor \<Rightarrow> ('e, 'p) processor" where
  "stop p = p\<lparr>stopped := True\<rparr>"

definition start :: "('e, 'p) processor \<Rightarrow> ('e, 'p) processor" where
  "start p = p\<lparr>stopped := False\<rparr>"

text \<open>
  A hook sees the queue size, the event and the gate.  \<open>permit\<close> is \<open>request_permission\<close>, \<open>deny\<close> is
  \<open>handle_denied\<close> (True: the event is done with).
\<close>

type_synonym ('e, 'p) hook = "nat \<Rightarrow> 'e \<Rightarrow> 'p \<Rightarrow> (pyerr + bool) \<times> 'p"

function process_loop ::
    "('e, 'p) hook \<Rightarrow> ('e, 'p) hook \<Rightarrow> ('e, 'p) processor \<Rightarrow> nat \<Rightarrow> 'e list \<Rightarrow> 'e list
      \<Rightarrow> (pyerr + unit) \<times> ('e, 'p) processor \<times> 'e list \<times> 'e list" where
  "process_loop permit deny p deferred started denied =
     (if capacity p > 0 then
        (case queue p of
           [] \<Rightarrow> (Inr (), p, started, denied)
         | e # q \<Rightarrow>
             (case permit (length q) e (gate p) of
                (Inl err, g) \<Rightarrow> (Inl err, p\<lparr>queue := q, gate := g\<rparr>, started, denied)
              | (Inr True, g) \<Rightarrow>
                  process_loop permit deny (p\<lparr>queue := q, gate := g, capacity := capacity p - 1\<rparr>)
                    0 (started @ [e]) denied
              | (Inr False, g) \<Rightarrow>
                  (case deny (length q) e g of
                     (Inl err, g') \<Rightarrow> (Inl err, p\<lparr>queue := q, gate := g'\<rparr>, started, denied)
                   | (Inr True, g') \<Rightarrow>
                       process_loop permit deny (p\<lparr>queue := q, gate := g', capacity := capacity p - 1\<rparr>)
                         deferred started (denied @ [e])
                   | (Inr False, g') \<Rightarrow>
                       if Suc deferred \<ge> Suc (length q)
                       then (Inr (), p\<lparr>queue := q @ [e], gate := g'\<rparr>, started, denied)
                       else process_loop permit deny (p\<lparr>queue := q @ [e], gate := g'\<rparr>)
                              (Suc deferred) started denied)))
      else (Inr (), p, started, denied))"
  by pat_completeness auto
termination
  by (relation "measures [\<lambda>(_, _, p, _). nat (capacity p),
                          \<lambda>(_, _, p, d, _). length (queue p) - d]") auto

declare process_loop.simps [simp del]

text \<open>
  The environment of a processor: its hooks, what the task of an event does, the order in which the event
  loop completes the tasks, whether the task group raises on an exception that escapes a task, and what
  its cancellation leaves of the tasks that have not ended (some were never begun, some are cancelled at
  an await).
\<close>

record ('e, 'p) env =
  permit :: "('e, 'p) hook"
  deny :: "('e, 'p) hook"
  run :: "'e \<Rightarrow> 'p \<Rightarrow> (exc + unit) \<times> 'p"
  sched :: "'e list \<Rightarrow> 'e list"
  group_raises :: "exc \<Rightarrow> bool"
  halted :: "'e list \<Rightarrow> 'p \<Rightarrow> 'p"

text \<open>The tasks of the group; the first exception the group raises on cancels the rest.\<close>

fun run_tasks :: "('e, 'p) env \<Rightarrow> 'e list \<Rightarrow> 'p \<Rightarrow> bool \<times> 'p" where
  "run_tasks v [] g = (True, g)"
| "run_tasks v (e # es) g =
     (case run v e g of
        (Inl x, g1) \<Rightarrow> if group_raises v x then (False, halted v es g1) else run_tasks v es g1
      | (Inr _, g1) \<Rightarrow> run_tasks v es g1)"

text \<open>
  A hook that raises leaves the body of the task group: the tasks started so far are cancelled and the
  group raises an \<open>ExceptionGroup\<close>, as it does for an exception that escapes a task.
\<close>

definition process ::
    "('e, 'p) env \<Rightarrow> ('e, 'p) processor \<Rightarrow> (unit, ('e, 'p) processor) eff" where
  "process v p =
     (case process_loop (permit v) (deny v) p 0 [] [] of
        (Inl _, p1, started, denied) \<Rightarrow> (Inl OtherException, p1\<lparr>gate := halted v started (gate p1)\<rparr>)
      | (Inr _, p1, started, denied) \<Rightarrow>
          (case run_tasks v (sched v started) (gate p1) of
             (quiet, g) \<Rightarrow>
               (let p2 = p1\<lparr>gate := g\<rparr>
                in if \<not> quiet then (Inl OtherException, p2)
                   else (Inr (), if started @ denied \<noteq> [] then p2\<lparr>capacity := queue_capacity p2\<rparr> else p2))))"

text \<open>
  \<open>join\<close>, with a bound on its rounds; \<open>pause\<close> is what the rest of the program does to the processor
  while \<open>join\<close> sleeps after a round without progress.  \<open>None\<close>: still not drained after that many rounds.
\<close>

fun join :: "('e, 'p) env \<Rightarrow> (('e, 'p) processor \<Rightarrow> ('e, 'p) processor) \<Rightarrow> nat
    \<Rightarrow> ('e, 'p) processor \<Rightarrow> (unit, ('e, 'p) processor) eff option" where
  "join v pause n p =
     (if queue p = [] then Some (Inr (), p)
      else case n of
             0 \<Rightarrow> None
           | Suc m \<Rightarrow>
               (case process v p of
                  (Inl e, p1) \<Rightarrow> Some (Inl e, p1)
                | (Inr _, p1) \<Rightarrow>
                    join v pause m
                      (if queue p1 \<noteq> [] \<and> length (queue p1) \<ge> length (queue p) then pause p1 else p1)))"

declare join.simps [simp del]

text \<open>\<open>execute\<close>: one element of the list per sleep, what happens to the processor during it.\<close>

fun execute_rounds :: "('e, 'p) env \<Rightarrow> (('e, 'p) processor \<Rightarrow> ('e, 'p) processor) list
    \<Rightarrow> ('e, 'p) processor \<Rightarrow> (unit, ('e, 'p) processor) eff option" where
  "execute_rounds v naps p =
     (if stopped p then Some (Inr (), p\<lparr>execution_mode := False\<rparr>)
      else case naps of
             [] \<Rightarrow> None
           | nap # rest \<Rightarrow>
               (case process v p of
                  (Inl e, p1) \<Rightarrow> Some (Inl e, p1)
                | (Inr _, p1) \<Rightarrow> execute_rounds v rest (nap p1)))"

definition execute :: "('e, 'p) env \<Rightarrow> (('e, 'p) processor \<Rightarrow> ('e, 'p) processor) list
    \<Rightarrow> ('e, 'p) processor \<Rightarrow> (unit, ('e, 'p) processor) eff option" where
  "execute v naps p = execute_rounds v naps (start (p\<lparr>execution_mode := True\<rparr>))"

subsection \<open>The hooks of the base class\<close>

definition always :: "('e, 'p) hook" where
  "always n e g = (Inr True, g)"

definition skip_denied :: "('e, 'e \<Rightarrow> ('q, 'm, 'r) event) hook" where
  "skip_denied n e h = (Inr True, h(e := put_status SKIPPED (h e)))"

text \<open>The task of an event: its stream consumed to the end, or its \<open>invoke\<close>.\<close>

definition run_event ::
    "('e \<Rightarrow> ('q, 'm, 'r) body) \<Rightarrow> ('e \<Rightarrow> ('q, 'm, 'r, 'c) stream_body) \<Rightarrow> ('e \<Rightarrow> int)
      \<Rightarrow> 'e \<Rightarrow> ('e \<Rightarrow> ('q, 'm, 'r) event) \<Rightarrow> (exc + unit) \<times> ('e \<Rightarrow> ('q, 'm, 'r) event)" where
  "run_event bodies streams dt e h =
     (let (r, ev) = (if streaming (h e) then snd (stream (streams e) None 0 (dt e) (h e))
                     else invoke (bodies e) 0 (dt e) (h e))
      in (r, h(e := ev)))"

section \<open>The rate limiter\<close>

record 'h limits =
  limit_requests :: "int option"
  limit_tokens :: "int option"
  available_requests :: "int option"
  available_tokens :: "int option"
  events :: 'h

definition mk_limits :: "int option \<Rightarrow> int option \<Rightarrow> 'h \<Rightarrow> 'h limits" where
  "mk_limits lr lt h =
     \<lparr>limit_requests = lr, limit_tokens = lt, available_requests = lr, available_tokens = lt, events = h\<rparr>"

text \<open>Truthiness of an optional number.\<close>

definition truthy :: "int option \<Rightarrow> bool" where
  "truthy t = (case t of None \<Rightarrow> False | Some n \<Rightarrow> n \<noteq> 0)"

definition short_of :: "int option \<Rightarrow> int option \<Rightarrow> bool" where
  "short_of avail need =
     (case avail of None \<Rightarrow> False | Some a \<Rightarrow> truthy need \<and> a < the need)"

definition charge :: "int option \<Rightarrow> int option \<Rightarrow> int option" where
  "charge avail need = (if truthy need then map_option (\<lambda>a. a - the need) avail else avail)"

definition rl_permit :: "int \<Rightarrow> ('e \<Rightarrow> int option) \<Rightarrow> ('e, 'h limits) hook" where
  "rl_permit qcap tokens n e g =
     (if available_requests g = None \<and> available_tokens g = None then (Inr (int n < qcap), g)
      else if (case available_requests g of None \<Rightarrow> False | Some r \<Rightarrow> r < 1) then (Inr False, g)
      else if short_of (available_tokens g) (tokens e) then (Inr False, g)
      else (Inr True,
            g\<lparr>available_requests := map_option (\<lambda>r. r - 1) (available_requests g),
              available_tokens := charge (available_tokens g) (tokens e)\<rparr>))"

definition rl_denied :: "('e, 'h limits) hook" where
  "rl_denied n e g = (Inr False, g)"

text \<open>One turn of the replenisher: the counters are reset, and deferred work is driven again.\<close>

definition refill :: "'h limits \<Rightarrow> 'h limits" where
  "refill g =
     g\<lparr>available_requests := (if limit_requests g \<noteq> None then limit_requests g else available_requests g),
       available_tokens := (if limit_tokens g \<noteq> None then limit_tokens g else available_tokens g)\<rparr>"

definition replenish ::
    "('e, 'h limits) env \<Rightarrow> ('e, 'h limits) processor \<Rightarrow> (unit, ('e, 'h limits) processor) eff" where
  "replenish v p =
     (let p1 = p\<lparr>gate := refill (gate p)\<rparr>
      in if queue p1 \<noteq> [] then process v p1 else (Inr (), p1))"

text \<open>The replenisher until it is stopped or an exception ends it; one nap per interval.\<close>

fun replenishing :: "('e, 'h limits) env \<Rightarrow> (('e, 'h limits) processor \<Rightarrow> ('e, 'h limits) processor) list
    \<Rightarrow> ('e, 'h limits) processor \<Rightarrow> ('e, 'h limits) processor" where
  "replenishing v [] p = p"
| "replenishing v (nap # naps) p =
     (if stopped p then p
      else case replenish v (nap p) of
             (Inl _, p1) \<Rightarrow> p1
           | (Inr _, p1) \<Rightarrow> replenishing v naps p1)"

definition replenish_task :: "('e, 'h limits) env \<Rightarrow> (('e, 'h limits) processor \<Rightarrow> ('e, 'h limits) processor) list
    \<Rightarrow> ('e, 'h limits) processor \<Rightarrow> ('e, 'h limits) processor" where
  "replenish_task v naps p = replenishing v naps (start p)"

section \<open>Executor\<close>

record ('a, 'p) executor =
  pending :: progression
  pile :: "'a pile"
  proc :: "(uuid, 'p) processor option"

datatype forward_result = Done | Waiting | Raised pyerr

lemma pg_popleft_len: "pg_popleft p = (Inr k, p') \<Longrightarrow> pg_len p' < pg_len p"
  by (auto simp: pg_popleft_def md_popleft_def md_sync_def pg_len_def split: if_splits list.splits prod.splits sum.splits)

text \<open>The first loop of \<open>forward\<close>; it waits where the processor's queue is full.\<close>

function forward_loop :: "('a, 'p) executor \<Rightarrow> (uuid, 'p) processor \<Rightarrow> forward_result \<times> ('a, 'p) executor" where
  "forward_loop x p =
     (if pg_len (pending x) > 0 then
        (case pg_popleft (pending x) of
           (Inl e, pd) \<Rightarrow> (Raised e, x\<lparr>pending := pd, proc := Some p\<rparr>)
         | (Inr k, pd) \<Rightarrow>
             (case not_found (pile_lookup (pile x) k) of
                Inl e \<Rightarrow> (Raised e, x\<lparr>pending := pd, proc := Some p\<rparr>)
              | Inr ev \<Rightarrow>
                  (case enqueue (eid ev) p of
                     None \<Rightarrow> (Waiting, x\<lparr>pending := pd, proc := Some p\<rparr>)
                   | Some p1 \<Rightarrow> forward_loop (x\<lparr>pending := pd\<rparr>) p1)))
      else (Done, x\<lparr>proc := Some p\<rparr>))"
  by pat_completeness auto
termination
  by (relation "measure (\<lambda>(x, _). pg_len (pending x))") (auto dest: pg_popleft_len[OF sym])

declare forward_loop.simps [simp del]

definition forward :: "(uuid, 'p) env \<Rightarrow> ('a, 'p) executor \<Rightarrow> forward_result \<times> ('a, 'p) executor" where
  "forward v x =
     (case proc x of
        None \<Rightarrow> (if pg_len (pending x) = 0 then (Raised AttributeError, x)
                 else (case pg_popleft (pending x) of
                         (Inl e, pd) \<Rightarrow> (Raised e, x\<lparr>pending := pd\<rparr>)
                       | (Inr k, pd) \<Rightarrow>
                           (case not_found (pile_lookup (pile x) k) of
                              Inl e \<Rightarrow> (Raised e, x\<lparr>pending := pd\<rparr>)
                            | Inr _ \<Rightarrow> (Raised AttributeError, x\<lparr>pending := pd\<rparr>))))
      | Some p \<Rightarrow>
          (case forward_loop x p of
             (Done, x1) \<Rightarrow>
               (case process v (the (proc x1)) of
                  (Inl e, p2) \<Rightarrow> (Raised e, x1\<lparr>proc := Some p2\<rparr>)
                | (Inr _, p2) \<Rightarrow> (Done, x1\<lparr>proc := Some p2\<rparr>))
           | (r, x1) \<Rightarrow> (r, x1)))"

definition exec_append :: "'a itemarg \<Rightarrow> ref \<Rightarrow> ('a, 'p) executor \<Rightarrow> (unit, ('a, 'p) executor) eff" where
  "exec_append i r x =
     (case pile_include [i] (pile x) of
        (Inl e, s) \<Rightarrow> (Inl e, x\<lparr>pile := s\<rparr>)
      | (Inr _, s) \<Rightarrow>
          (case pg_include r (pending x) of
             (Inl e, pd) \<Rightarrow> (Inl e, x\<lparr>pile := s, pending := pd\<rparr>)
           | (Inr _, pd) \<Rightarrow> (Inr (), x\<lparr>pile := s, pending := pd\<rparr>)))"

definition events_with :: "(uuid \<Rightarrow> event_status) \<Rightarrow> event_status \<Rightarrow> uuid \<Rightarrow> ('a, 'p) executor \<Rightarrow> pyerr + 'a pile" where
  "events_with st s u x = pile_filter u (\<lambda>e. st (eid e) = s) (pile x)"

definition count_status :: "(uuid \<Rightarrow> event_status) \<Rightarrow> uuid list \<Rightarrow> (string, nat) pydict" where
  "count_status st ks =
     fold (\<lambda>k d. let t = status_text (st k)
                 in dset t (Suc (case dget d t of None \<Rightarrow> 0 | Some n \<Rightarrow> n)) d) ks []"

definition status_counts :: "(uuid \<Rightarrow> event_status) \<Rightarrow> ('a, 'p) executor \<Rightarrow> pyerr + (string, nat) pydict" where
  "status_counts st x = map_sum id (\<lambda>es. count_status st (map eid es)) (pile_values (pile x))"

fun pop_each :: "uuid list \<Rightarrow> 'a pile \<Rightarrow> (unit, 'a pile) eff" where
  "pop_each [] s = (Inr (), s)"
| "pop_each (k # ks) s =
     (case pop 0 (KRef (RUuid k)) False s of
        (Inl e, s1) \<Rightarrow> (Inl e, s1)
      | (Inr _, s1) \<Rightarrow> pop_each ks s1)"

definition cleanup_completed :: "(uuid \<Rightarrow> event_status) \<Rightarrow> ('a, 'p) executor \<Rightarrow> (nat, ('a, 'p) executor) eff" where
  "cleanup_completed st x =
     (case pile_values (pile x) of
        Inl e \<Rightarrow> (Inl e, x)
      | Inr es \<Rightarrow>
          (let ks = map eid (filter (\<lambda>e. st (eid e) = COMPLETED) es)
           in case pop_each ks (pile x) of
                (Inl e, s) \<Rightarrow> (Inl e, x\<lparr>pile := s\<rparr>)
              | (Inr _, s) \<Rightarrow> (Inr (length ks), x\<lparr>pile := s\<rparr>)))"

section \<open>The loop as a relation\<close>

text \<open>
  One rule per way an iteration can go; \<open>loops pm dn p d r a b p1\<close>: from \<open>p\<close> with \<open>d\<close> deferrals so far
  the loop ends with \<open>r\<close> in \<open>p1\<close>, having started \<open>a\<close> and denied \<open>b\<close>.
\<close>

inductive loops ::
    "('e, 'p) hook \<Rightarrow> ('e, 'p) hook \<Rightarrow> ('e, 'p) processor \<Rightarrow> nat \<Rightarrow> pyerr + unit \<Rightarrow> 'e list \<Rightarrow> 'e list
      \<Rightarrow> ('e, 'p) processor \<Rightarrow> bool"
  for pm dn :: "('e, 'p) hook" where
  finish: "\<not> 0 < capacity p \<or> queue p = [] \<Longrightarrow> loops pm dn p d (Inr ()) [] [] p"
| permit_raises: "0 < capacity p \<Longrightarrow> queue p = e # q \<Longrightarrow> pm (length q) e (gate p) = (Inl err, g)
    \<Longrightarrow> loops pm dn p d (Inl err) [] [] (p\<lparr>queue := q, gate := g\<rparr>)"
| begin_task: "0 < capacity p \<Longrightarrow> queue p = e # q \<Longrightarrow> pm (length q) e (gate p) = (Inr True, g)
    \<Longrightarrow> loops pm dn (p\<lparr>queue := q, gate := g, capacity := capacity p - 1\<rparr>) 0 r a b p1
    \<Longrightarrow> loops pm dn p d r (e # a) b p1"
| deny_raises: "0 < capacity p \<Longrightarrow> queue p = e # q \<Longrightarrow> pm (length q) e (gate p) = (Inr False, g)
    \<Longrightarrow> dn (length q) e g = (Inl err, g')
    \<Longrightarrow> loops pm dn p d (Inl err) [] [] (p\<lparr>queue := q, gate := g'\<rparr>)"
| skip: "0 < capacity p \<Longrightarrow> queue p = e # q \<Longrightarrow> pm (length q) e (gate p) = (Inr False, g)
    \<Longrightarrow> dn (length q) e g = (Inr True, g')
    \<Longrightarrow> loops pm dn (p\<lparr>queue := q, gate := g', capacity := capacity p - 1\<rparr>) d r a b p1
    \<Longrightarrow> loops pm dn p d r a (e # b) p1"
| all_deferred: "0 < capacity p \<Longrightarrow> queue p = e # q \<Longrightarrow> pm (length q) e (gate p) = (Inr False, g)
    \<Longrightarrow> dn (length q) e g = (Inr False, g') \<Longrightarrow> length q \<le> d
    \<Longrightarrow> loops pm dn p d (Inr ()) [] [] (p\<lparr>queue := q @ [e], gate := g'\<rparr>)"
| defer_one: "0 < capacity p \<Longrightarrow> queue p = e # q \<Longrightarrow> pm (length q) e (gate p) = (Inr False, g)
    \<Longrightarrow> dn (length q) e g = (Inr False, g') \<Longrightarrow> d < length q
    \<Longrightarrow> loops pm dn (p\<lparr>queue := q @ [e], gate := g'\<rparr>) (Suc d) r a b p1
    \<Longrightarrow> loops pm dn p d r a b p1"

lemma process_loop_loops:
  "\<exists>r a b p1. process_loop pm dn p d st de = (r, p1, st @ a, de @ b) \<and> loops pm dn p d r a b p1"
proof (induction pm dn p d st de rule: process_loop.induct)
  case (1 pm dn p d st de)
  note unfold = process_loop.simps[of pm dn p d st de]
  show ?case
  proof (cases "0 < capacity p \<and> queue p \<noteq> []")
    case False
    then show ?thesis by (auto simp: unfold intro: loops.finish split: list.splits)
  next
    case True
    then obtain e q where q: "queue p = e # q" and c: "0 < capacity p" by (cases "queue p") auto
    obtain x g where x: "pm (length q) e (gate p) = (x, g)" by force
    obtain y g' where y: "dn (length q) e g = (y, g')" by force
    note IH = "1.IH"[OF c q x[symmetric]]
    consider err where "x = Inl err" | "x = Inr True" | err where "x = Inr False" "y = Inl err"
      | "x = Inr False" "y = Inr True" | "x = Inr False" "y = Inr False" by (metis sum.exhaust)
    then show ?thesis
    proof cases
      case (1 err)
      then show ?thesis using c q x loops.permit_raises[OF c q, of pm err g] by (auto simp: unfold)
    next
      case 2
      then show ?thesis using IH(1)[OF 2 refl] c q x
        by (auto simp: unfold intro!: loops.begin_task[OF c q])
    next
      case (3 err)
      then show ?thesis using c q x y loops.deny_raises[OF c q, of pm g dn err g'] by (auto simp: unfold)
    next
      case 4
      then show ?thesis using IH(2)[OF 4(1) refl y[symmetric] 4(2) refl] c q x y
        by (auto simp: unfold intro!: loops.skip[OF c q])
    next
      case 5
      show ?thesis
      proof (cases "Suc (length q) \<le> Suc d")
        case True
        then show ?thesis using 5 c q x y loops.all_deferred[OF c q, of pm g dn g' d] by (auto simp: unfold)
      next
        case False
        then show ?thesis using IH(3)[OF 5(1) refl y[symmetric] 5(2) refl] 5 c q x y
          by (auto simp: unfold intro!: loops.defer_one[OF c q])
      qed
    qed
  qed
qed

lemma process_loopD:
  "process_loop pm dn p d [] [] = (r, p1, a, b) \<Longrightarrow> loops pm dn p d r a b p1"
  using process_loop_loops[of pm dn p d "[]" "[]"] by auto

text \<open>
  The account of a run: what it started and denied is taken from the queue, one event at most is lost
  (the one a hook raised on), the capacity pays for what was taken.
\<close>

definition accounts ::
    "('e, 'p) processor \<Rightarrow> 'e list \<Rightarrow> 'e list \<Rightarrow> pyerr + unit \<Rightarrow> ('e, 'p) processor \<Rightarrow> bool" where
  "accounts p a b r p1 \<longleftrightarrow>
     (\<exists>lost. mset (queue p) = mset a + mset b + mset (queue p1) + lost
       \<and> size lost = (if r = Inr () then 0 else 1))
     \<and> capacity p1 = capacity p - int (length a + length b)
     \<and> (a @ b \<noteq> [] \<longrightarrow> 0 \<le> capacity p1)
     \<and> queue_capacity p1 = queue_capacity p"

lemma loops_accounts: "loops pm dn p d r a b p1 \<Longrightarrow> accounts p a b r p1"
proof (induction rule: loops.induct)
  case (permit_raises p e q err g d)
  then show ?case by (auto simp: accounts_def intro: exI[of _ "{#e#}"])
next
  case (deny_raises p e q g err g' d)
  then show ?case by (auto simp: accounts_def intro: exI[of _ "{#e#}"])
qed (auto simp: accounts_def)

section \<open>Draining\<close>

lemma loops_fifo:
  assumes "loops pm dn p d r a b p1" "pm = always"
  shows "r = Inr () \<and> b = [] \<and> a = take (nat (capacity p)) (queue p)
    \<and> queue p1 = drop (nat (capacity p)) (queue p) \<and> gate p1 = gate p
    \<and> queue_capacity p1 = queue_capacity p
    \<and> capacity p1 = capacity p - int (length a)"
  using assms
proof (induction rule: loops.induct)
  case (begin_task p e q g d r a b p1)
  moreover from begin_task.hyps(1) have "nat (capacity p) = Suc (nat (capacity p - 1))" by simp
  ultimately show ?case by (simp add: always_def)
qed (auto simp: always_def)

text \<open>Tasks that nothing escapes from, as long as the gate keeps an invariant.\<close>

lemma run_tasks_quiet:
  assumes "\<And>e g. e \<in> E \<Longrightarrow> I g \<Longrightarrow> fst (run v e g) = Inr () \<and> I (snd (run v e g))"
  shows "set es \<subseteq> E \<Longrightarrow> I g \<Longrightarrow>
    run_tasks v es g = (True, fold (\<lambda>e g. snd (run v e g)) es g) \<and> I (fold (\<lambda>e g. snd (run v e g)) es g)"
proof (induction es arbitrary: g)
  case (Cons e es)
  then show ?case using assms[of e g] Cons.IH[of "snd (run v e g)"] by (cases "run v e g") simp
qed simp

lemma process_all_permitted:
  assumes "permit v = always" "\<And>e g. e \<in> E \<Longrightarrow> I g \<Longrightarrow> fst (run v e g) = Inr () \<and> I (snd (run v e g))"
    and "set (sched v (take (nat (capacity p)) (queue p))) \<subseteq> E" "I (gate p)"
  shows "fst (process v p) = Inr ()
    \<and> queue (snd (process v p)) = drop (nat (capacity p)) (queue p)
    \<and> gate (snd (process v p))
        = fold (\<lambda>e g. snd (run v e g)) (sched v (take (nat (capacity p)) (queue p))) (gate p)
    \<and> I (gate (snd (process v p)))
    \<and> queue_capacity (snd (process v p)) = queue_capacity p
    \<and> (0 < capacity p \<longrightarrow> queue p \<noteq> [] \<longrightarrow> capacity (snd (process v p)) = queue_capacity p)"
proof -
  obtain r p1 a b where pl: "process_loop (permit v) (deny v) p 0 [] [] = (r, p1, a, b)"
    by (metis prod_cases4)
  from loops_fifo[OF process_loopD[OF pl] assms(1)] have
    l: "r = Inr ()" "b = []" "a = take (nat (capacity p)) (queue p)"
      "queue p1 = drop (nat (capacity p)) (queue p)" "gate p1 = gate p"
      "queue_capacity p1 = queue_capacity p" by simp_all
  have t: "run_tasks v (sched v a) (gate p) = (True, fold (\<lambda>e g. snd (run v e g)) (sched v a) (gate p))"
    "I (fold (\<lambda>e g. snd (run v e g)) (sched v a) (gate p))"
    using run_tasks_quiet[of E I v "sched v a" "gate p", OF assms(2)] assms(3,4) l(3) by simp_all
  show ?thesis using pl l t by (auto simp: process_def Let_def)
qed

text \<open>
  An error slot that an \<open>Exception\<close> can be added to: whatever exception it holds is an \<open>Exception\<close>, with
  all its members.  Bodies keep slots so and raise \<open>Exception\<close>s only.
\<close>

definition sound_slot :: "err \<Rightarrow> bool" where
  "sound_slot s \<longleftrightarrow>
     (case s of
        Err (Exc n m b) \<Rightarrow> b
      | Err (Group i n m xs) \<Rightarrow> list_all is_exception xs
      | _ \<Rightarrow> True)"

abbreviation slot :: "('q, 'm, 'r) event \<Rightarrow> err" where
  "slot ev \<equiv> error (execution ev)"

lemma sound_storable: "sound_slot (error ex) \<Longrightarrow> is_exception x \<Longrightarrow> storable x ex"
  by (auto simp: sound_slot_def storable_def add_error_def mk_group_def split: err.splits exc.splits)

definition tame :: "(exc + 'a) \<Rightarrow> ('q, 'm, 'r) event \<Rightarrow> bool" where
  "tame out ev \<longleftrightarrow> sound_slot (slot ev) \<and> (\<forall>x. out = Inl x \<longrightarrow> is_exception x)"

definition tame_bodies ::
    "('e \<Rightarrow> ('q, 'm, 'r) body) \<Rightarrow> ('e \<Rightarrow> ('q, 'm, 'r, 'c) stream_body) \<Rightarrow> bool" where
  "tame_bodies bodies streams \<longleftrightarrow>
     (\<forall>e ev. sound_slot (slot ev) \<longrightarrow>
        tame (fst (bodies e ev)) (snd (bodies e ev)) \<and>
        tame (fst (snd (streams e ev))) (snd (snd (streams e ev))))"

definition done_ok :: "event_status \<Rightarrow> bool" where
  "done_ok s \<longleftrightarrow> s \<in> {COMPLETED, FAILED}"

text \<open>What the body of an event answers when the event is run.\<close>

definition outcome_of ::
    "('e \<Rightarrow> ('q, 'm, 'r) body) \<Rightarrow> ('e \<Rightarrow> ('q, 'm, 'r, 'c) stream_body) \<Rightarrow> 'e \<Rightarrow> ('q, 'm, 'r) event \<Rightarrow> exc + unit" where
  "outcome_of bodies streams e ev =
     (let ev0 = on_execution (\<lambda>ex. ex\<lparr>status := PROCESSING\<rparr>) ev
      in if streaming ev then fst (snd (streams e ev0)) else map_sum id (\<lambda>_. ()) (fst (bodies e ev0)))"

lemma conclude_tame:
  assumes "tame out ev"
  shows "fst (conclude i dt out ev) = Inr ()" "ev_status (snd (conclude i dt out ev)) = settled out"
    "done_ok (settled out)"
proof -
  have "storable x (execution ev)" if "out = Inl x" for x using assms that sound_storable by (auto simp: tame_def)
  then show "fst (conclude i dt out ev) = Inr ()" "ev_status (snd (conclude i dt out ev)) = settled out"
    "done_ok (settled out)"
    using conclude_settles[of out ev i dt] assms by (cases out; auto simp: tame_def done_ok_def)+
qed

text \<open>The task of an event, on a pending one and on one that is over.\<close>

lemma run_event_tame:
  assumes "tame_bodies bodies streams"
  shows "ev_status (h e) = PENDING \<Longrightarrow> sound_slot (slot (h e)) \<Longrightarrow>
      fst (run_event bodies streams dt e h) = Inr () \<and>
      ev_status (snd (run_event bodies streams dt e h) e) = settled (outcome_of bodies streams e (h e)) \<and>
      done_ok (settled (outcome_of bodies streams e (h e)))"
    and "done_ok (ev_status (h e)) \<Longrightarrow> run_event bodies streams dt e h = (Inr (), h)"
    and "e' \<noteq> e \<Longrightarrow> snd (run_event bodies streams dt e h) e' = h e'"
    and "h e = h' e \<Longrightarrow> snd (run_event bodies streams dt e h) e = snd (run_event bodies streams dt e h') e"
proof -
  let ?ev = "on_execution (\<lambda>ex. ex\<lparr>status := PROCESSING\<rparr>) (h e)"
  show "fst (run_event bodies streams dt e h) = Inr () \<and>
      ev_status (snd (run_event bodies streams dt e h) e) = settled (outcome_of bodies streams e (h e)) \<and>
      done_ok (settled (outcome_of bodies streams e (h e)))"
    if p: "ev_status (h e) = PENDING" and s: "sound_slot (slot (h e))"
  proof -
    have t: "tame (fst (bodies e ?ev)) (snd (bodies e ?ev))"
      "tame (fst (snd (streams e ?ev))) (snd (snd (streams e ?ev)))"
      using assms s by (simp_all add: tame_bodies_def)
    show ?thesis
    proof (cases "streaming (h e)")
      case True
      obtain cs out ev1 where b: "streams e ?ev = (cs, out, ev1)" by (metis prod_cases3)
      then have "tame out ev1" using t(2) by simp
      from conclude_tame(1,2)[OF this, of 0 "dt e"] conclude_tame(3)[OF this] show ?thesis
        using True p b by (simp add: run_event_def stream_def outcome_of_def Let_def split: prod.split) auto
    next
      case False
      obtain out ev1 where b: "bodies e ?ev = (out, ev1)" by force
      then have t1: "tame out ev1" using t(1) by simp
      show ?thesis
      proof (cases out)
        case (Inl x)
        then have "tame (Inl x :: exc + unit) ev1" using t1 by (simp add: tame_def)
        from conclude_tame(1,2)[OF this, of 0 "dt e"] conclude_tame(3)[OF this] show ?thesis
          using False p b Inl by (simp add: run_event_def invoke_def outcome_of_def Let_def split: prod.split) auto
      next
        case (Inr y)
        then have "tame (Inr () :: exc + unit) (on_execution (\<lambda>ex. ex\<lparr>response := Some y\<rparr>) ev1)"
          using t1 by (simp add: tame_def)
        from conclude_tame(1,2)[OF this, of 0 "dt e"] conclude_tame(3)[OF this] show ?thesis
          using False p b Inr by (simp add: run_event_def invoke_def outcome_of_def Let_def split: prod.split) auto
      qed
    qed
  qed
  show "run_event bodies streams dt e h = (Inr (), h)" if "done_ok (ev_status (h e))"
    using that by (auto simp: run_event_def done_ok_def invoke_idle stream_idle)
  show "snd (run_event bodies streams dt e h) e' = h e'" if "e' \<noteq> e"
    using that by (simp add: run_event_def split: prod.splits)
  show "snd (run_event bodies streams dt e h) e = snd (run_event bodies streams dt e h') e" if "h e = h' e"
    using that by (simp add: run_event_def split: prod.splits)
qed

text \<open>
  How far a set of events has come from the heap \<open>h0\<close>: those of \<open>D\<close> have had their run, the others are
  as they were.
\<close>

definition run_so_far ::
    "('e \<Rightarrow> ('q, 'm, 'r) body) \<Rightarrow> ('e \<Rightarrow> ('q, 'm, 'r, 'c) stream_body) \<Rightarrow> ('e \<Rightarrow> int)
      \<Rightarrow> ('e \<Rightarrow> ('q, 'm, 'r) event) \<Rightarrow> 'e set \<Rightarrow> ('e \<Rightarrow> ('q, 'm, 'r) event) \<Rightarrow> bool" where
  "run_so_far bodies streams dt h0 D h \<longleftrightarrow>
     (\<forall>e. h e = (if e \<in> D then snd (run_event bodies streams dt e h0) e else h0 e))"

definition startable :: "'e set \<Rightarrow> ('e \<Rightarrow> ('q, 'm, 'r) event) \<Rightarrow> bool" where
  "startable E h \<longleftrightarrow> (\<forall>e \<in> E. ev_status (h e) = PENDING \<and> sound_slot (slot (h e)))"

lemma run_event_so_far:
  assumes "tame_bodies bodies streams" "startable E h0" "e \<in> E" "run_so_far bodies streams dt h0 D h" "D \<subseteq> E"
  shows "fst (run_event bodies streams dt e h) = Inr () \<and>
    run_so_far bodies streams dt h0 (insert e D) (snd (run_event bodies streams dt e h))"
proof -
  note t = run_event_tame[OF assms(1), where dt = dt]
  have p: "ev_status (h0 e) = PENDING" "sound_slot (slot (h0 e))" using assms(2,3) by (auto simp: startable_def)
  show ?thesis
  proof (cases "e \<in> D")
    case True
    then have he: "h e = snd (run_event bodies streams dt e h0) e" using assms(4) by (simp add: run_so_far_def)
    then have "done_ok (ev_status (h e))" using t(1)[of h0 e] p by simp
    then show ?thesis using t(2)[of h e] assms(4) True by (simp add: insert_absorb)
  next
    case False
    then have he: "h e = h0 e" using assms(4) by (simp add: run_so_far_def)
    have "snd (run_event bodies streams dt e h) e' = (if e' \<in> insert e D then snd (run_event bodies streams dt e' h0) e' else h0 e')"
      for e' using t(3)[of e' e h] t(4)[of h e h0, OF he] assms(4) by (cases "e' = e") (auto simp: run_so_far_def)
    then show ?thesis using t(1)[of h e] p he by (simp add: run_so_far_def)
  qed
qed

lemma fold_so_far:
  assumes "tame_bodies bodies streams" "startable E h0"
  shows "set es \<subseteq> E \<Longrightarrow> D \<subseteq> E \<Longrightarrow> run_so_far bodies streams dt h0 D h \<Longrightarrow>
    run_so_far bodies streams dt h0 (D \<union> set es) (fold (\<lambda>e g. snd (run_event bodies streams dt e g)) es h)"
proof (induction es arbitrary: D h)
  case (Cons e es)
  then show ?case
    using run_event_so_far[OF assms, of e dt D h] Cons.IH[of "insert e D" "snd (run_event bodies streams dt e h)"] by simp
qed simp

lemma join_drains:
  fixes v :: "('e, 'e \<Rightarrow> ('q, 'm, 'r) event) env"
  assumes v: "permit v = always" "run v = run_event bodies streams dt" and t: "tame_bodies bodies streams"
    and sched: "\<And>xs. set (sched v xs) = set xs" and st: "startable E h0"
  shows "1 \<le> queue_capacity p \<Longrightarrow> capacity p = queue_capacity p
    \<Longrightarrow> length (queue p) \<le> n * nat (queue_capacity p)
    \<Longrightarrow> set (queue p) \<subseteq> E \<Longrightarrow> D \<subseteq> E \<Longrightarrow> run_so_far bodies streams dt h0 D (gate p)
    \<Longrightarrow> \<exists>p'. join v pause n p = Some (Inr (), p') \<and> queue p' = []
          \<and> run_so_far bodies streams dt h0 (D \<union> set (queue p)) (gate p')"
proof (induction n arbitrary: p D)
  case 0
  then show ?case by (subst join.simps) auto
next
  case (Suc n)
  show ?case
  proof (cases "queue p = []")
    case True
    then show ?thesis using Suc.prems by (subst join.simps) auto
  next
    case False
    let ?k = "nat (capacity p)" and ?p1 = "snd (process v p)"
    let ?D = "D \<union> set (take ?k (queue p))"
    let ?I = "\<lambda>h. \<exists>D. D \<subseteq> E \<and> run_so_far bodies streams dt h0 D h"
    have step: "fst (run v e g) = Inr () \<and> ?I (snd (run v e g))" if e: "e \<in> E" and g: "?I g" for e g
    proof -
      obtain D' where "D' \<subseteq> E" "run_so_far bodies streams dt h0 D' g" using g by blast
      then show ?thesis using run_event_so_far[OF t st e, of dt D' g] e v(2) by (metis insert_subset)
    qed
    have sub: "set (take ?k (queue p)) \<subseteq> E" using Suc.prems(4) set_take_subset by fastforce
    note pr = process_all_permitted[of v E ?I p, OF v(1) step]
    have pr: "fst (process v p) = Inr ()" "queue ?p1 = drop ?k (queue p)"
      "gate ?p1 = fold (\<lambda>e g. snd (run v e g)) (sched v (take ?k (queue p))) (gate p)"
      "queue_capacity ?p1 = queue_capacity p" "capacity ?p1 = queue_capacity p"
      using pr sub sched Suc.prems(1,2,5,6) False by auto
    have far: "run_so_far bodies streams dt h0 ?D (gate ?p1)"
      using fold_so_far[OF t st, of "sched v (take ?k (queue p))" D dt "gate p"] sub sched Suc.prems(5,6) pr(3) v(2) by simp
    have shorter: "length (queue ?p1) < length (queue p)"
      using pr False Suc.prems(1,2) by (simp add: length_greater_0_conv[symmetric] del: length_greater_0_conv)
    have len: "length (queue ?p1) \<le> n * nat (queue_capacity p)"
      using pr Suc.prems(1-3) by simp
    have split: "set (queue p) = set (take ?k (queue p)) \<union> set (queue ?p1)"
      using pr(2) by (metis append_take_drop_id set_append)
    obtain p' where p': "join v pause n ?p1 = Some (Inr (), p')" "queue p' = []"
      "run_so_far bodies streams dt h0 (?D \<union> set (queue ?p1)) (gate p')"
      using Suc.IH[of ?p1 ?D] pr len far sub split Suc.prems(1,4,5) by auto
    have one_round: "join v pause (Suc n) p = join v pause n q1"
      if "process v p = (Inr (), q1)" "length (queue q1) < length (queue p)" for q1
      using that False by (subst join.simps) simp
    have "process v p = (Inr (), ?p1)" using pr(1) by (metis prod.collapse)
    then have "join v pause (Suc n) p = join v pause n ?p1" using shorter by (rule one_round)
    then show ?thesis using p' split by (simp add: Un_assoc)
  qed
qed

section \<open>Budgets\<close>

text \<open>Several calls of \<open>process\<close> in a row: everything they started, and the processor after them.\<close>

fun drives :: "('e, 'p) env \<Rightarrow> nat \<Rightarrow> ('e, 'p) processor \<Rightarrow> 'e list \<times> ('e, 'p) processor" where
  "drives v 0 p = ([], p)"
| "drives v (Suc n) p =
     (case process_loop (permit v) (deny v) p 0 [] [] of
        (r, p1, a, b) \<Rightarrow>
          (case drives v n (snd (process v p)) of (a', p') \<Rightarrow> (a @ a', p')))"

lemma process_queue:
  "process_loop (permit v) (deny v) p 0 [] [] = (r, p1, a, b) \<Longrightarrow> queue (snd (process v p)) = queue p1"
  by (auto simp: process_def Let_def split: sum.splits prod.splits)

text \<open>What neither a task nor its cancellation changes is as the loop left it.\<close>

lemma process_keeps:
  assumes "\<And>e g. f (snd (run v e g)) = f g" "\<And>es g. f (halted v es g) = f g"
    and "process_loop (permit v) (deny v) p 0 [] [] = (r, p1, a, b)"
  shows "f (gate (snd (process v p))) = f (gate p1)"
proof -
  have "f (snd (run_tasks v es g)) = f g" for es g
  proof (induction es arbitrary: g)
    case (Cons e es)
    then show ?case using assms(1)[of e g] assms(2) by (cases "run v e g"; cases "fst (run v e g)") auto
  qed simp
  from this[of "sched v a" "gate p1"] show ?thesis
    using assms(2,3) by (cases r; cases "run_tasks v (sched v a) (gate p1)") (auto simp: process_def Let_def)
qed

text \<open>
  A gate that charges every event it lets through to a budget (\<open>None\<close>: unlimited), and the lemma that
  the loop stays within it.
\<close>

locale budgeted =
  fixes pm dn :: "('e, 'p) hook"
    and left :: "'p \<Rightarrow> int option"
    and cost :: "'e \<Rightarrow> int"
  assumes granted: "pm n e g = (Inr True, g') \<Longrightarrow> left g = Some l \<Longrightarrow> 0 \<le> l
      \<Longrightarrow> left g' = Some (l - cost e) \<and> cost e \<le> l"
    and refused: "pm n e g = (Inr False, g') \<Longrightarrow> left g' = left g"
    and failed: "pm n e g = (Inl err, g') \<Longrightarrow> left g' = left g"
    and denied: "dn n e g = (x, g') \<Longrightarrow> left g' = left g"
begin

lemma loops_budget:
  "loops pm dn p d r a b p1 \<Longrightarrow> left (gate p) = Some l \<Longrightarrow> 0 \<le> l
    \<Longrightarrow> left (gate p1) = Some (l - sum_list (map cost a)) \<and> sum_list (map cost a) \<le> l"
proof (induction arbitrary: l rule: loops.induct)
  case (begin_task p e q g d r a b p1)
  from granted[OF begin_task.hyps(3) begin_task.prems] have "left g = Some (l - cost e)" "0 \<le> l - cost e" by auto
  then show ?case using begin_task.IH[of "l - cost e"] by simp
next
  case (skip p e q g g' d r a b p1)
  have "left g' = Some l" using refused[OF skip.hyps(3)] denied[OF skip.hyps(4)] skip.prems by simp
  then show ?case using skip.IH[of l] skip.prems by simp
next
  case (defer_one p e q g g' d r a b p1)
  have "left g' = Some l" using refused[OF defer_one.hyps(3)] denied[OF defer_one.hyps(4)] defer_one.prems by simp
  then show ?case using defer_one.IH[of l] defer_one.prems by simp
next
  case (deny_raises p e q g err g' d)
  then show ?case using refused[OF deny_raises.hyps(3)] denied[OF deny_raises.hyps(4)] by simp
next
  case (all_deferred p e q g g' d)
  then show ?case using refused[OF all_deferred.hyps(3)] denied[OF all_deferred.hyps(4)] by simp
next
  case (permit_raises p e q err g d)
  then show ?case using failed[OF permit_raises.hyps(3)] by simp
qed simp

lemma drives_budget:
  assumes "permit v = pm" "deny v = dn" "\<And>e g. left (snd (run v e g)) = left g" "\<And>es g. left (halted v es g) = left g"
  shows "drives v n p = (a, p') \<Longrightarrow> left (gate p) = Some l \<Longrightarrow> 0 \<le> l
    \<Longrightarrow> left (gate p') = Some (l - sum_list (map cost a)) \<and> sum_list (map cost a) \<le> l"
proof (induction n arbitrary: p a l)
  case (Suc n)
  obtain r p1 b c where pl: "process_loop (permit v) (deny v) p 0 [] [] = (r, p1, b, c)"
    by (metis prod_cases4)
  obtain a' where a': "drives v n (snd (process v p)) = (a', p')" "a = b @ a'"
    using Suc.prems(1) pl by (auto split: prod.splits)
  note bud = loops_budget[OF process_loopD[OF pl, unfolded assms(1,2)] Suc.prems(2,3)]
  have "left (gate (snd (process v p))) = Some (l - sum_list (map cost b))"
    using bud process_keeps[of left v, OF assms(3,4) pl] by simp
  from Suc.IH[OF a'(1) this] bud a'(2) show ?case by simp
qed simp

end

definition token_cost :: "('e \<Rightarrow> int option) \<Rightarrow> 'e \<Rightarrow> int" where
  "token_cost tokens e = (if truthy (tokens e) then the (tokens e) else 0)"

interpretation requests_budget: budgeted "rl_permit qcap tokens" rl_denied available_requests "\<lambda>_. 1"
  for qcap tokens
  by unfold_locales (auto simp: rl_permit_def rl_denied_def split: if_splits)

interpretation tokens_budget: budgeted "rl_permit qcap tokens" rl_denied available_tokens "token_cost tokens"
  for qcap tokens
  by unfold_locales
     (auto simp: rl_permit_def rl_denied_def token_cost_def charge_def short_of_def split: if_splits)

section \<open>A stalled queue\<close>

lemma all_refused:
  assumes "\<And>e. pm m e (gate p) = (Inr False, gate p)" "dn = rl_denied"
  shows "0 < capacity p \<Longrightarrow> length (queue p) = Suc m \<Longrightarrow> d \<le> m
    \<Longrightarrow> process_loop pm dn p d [] [] = (Inr (), p\<lparr>queue := rotate (Suc m - d) (queue p)\<rparr>, [], [])"
  using assms(1)
proof (induction "m - d" arbitrary: p d)
  case 0
  then obtain e q where q: "queue p = e # q" "length q = m" by (cases "queue p") auto
  then show ?case using 0 assms(2)
    by (subst process_loop.simps) (simp add: rl_denied_def)
next
  case (Suc k)
  then obtain e q where q: "queue p = e # q" "length q = m" by (cases "queue p") auto
  have less: "d < m" using Suc.hyps(2) by simp
  let ?p = "p\<lparr>queue := q @ [e]\<rparr>"
  have "process_loop pm dn p d [] [] = process_loop pm dn ?p (Suc d) [] []"
    using Suc.prems less q assms(2) by (subst process_loop.simps) (simp add: rl_denied_def)
  also have "\<dots> = (Inr (), ?p\<lparr>queue := rotate (Suc m - Suc d) (queue ?p)\<rparr>, [], [])"
    using Suc q by (intro Suc.hyps(1)) auto
  also have "rotate (Suc m - Suc d) (queue ?p) = rotate (Suc m - d) (queue p)"
  proof -
    have "Suc m - d = Suc (Suc m - Suc d)" using Suc.hyps(2) by simp
    then show ?thesis using q by (simp only: rotate_Suc rotate1_rotate_swap) simp
  qed
  finally show ?case by simp
qed

lemma process_stalls:
  assumes "permit v = rl_permit (queue_capacity p) tokens" "deny v = rl_denied"
    and "available_requests (gate p) = None" "available_tokens (gate p) = None"
    and "0 < capacity p" "queue_capacity p < int (length (queue p))" "0 \<le> queue_capacity p"
    and "sched v [] = []"
  shows "process v p = (Inr (), p)"
proof -
  obtain m where m: "length (queue p) = Suc m" using assms(6,7) by (cases "queue p") auto
  have "process_loop (permit v) (deny v) p 0 [] [] = (Inr (), p\<lparr>queue := rotate (Suc m - 0) (queue p)\<rparr>, [], [])"
    using assms m by (intro all_refused) (auto simp: rl_permit_def)
  moreover have "rotate (Suc m) (queue p) = queue p" using m rotate_id[of "Suc m" "queue p"] by simp
  ultimately have "process_loop (permit v) (deny v) p 0 [] [] = (Inr (), p, [], [])" by simp
  then show ?thesis using assms(8) by (simp add: process_def Let_def)
qed

section \<open>Forwarding\<close>

lemma pg_popleft_order:
  "members_ok pd \<Longrightarrow> order pd = k # ks \<Longrightarrow>
     \<exists>pd'. pg_popleft pd = (Inr k, pd') \<and> order pd' = ks \<and> members_ok pd'"
  using pg_popleft_ok[of pd] by (auto simp: pg_popleft_def md_popleft_def md_sync_def)

lemma forward_loop_all:
  "members_ok (pending x) \<Longrightarrow> set (order (pending x)) \<subseteq> set (dkeys (collections (pile x)))
    \<Longrightarrow> well_keyed (collections (pile x)) \<Longrightarrow> max_queue_size p = 0
    \<Longrightarrow> \<exists>x'. forward_loop x p = (Done, x') \<and> order (pending x') = [] \<and> pile x' = pile x
          \<and> proc x' = Some (p\<lparr>queue := queue p @ order (pending x)\<rparr>)"
proof (induction "order (pending x)" arbitrary: x p)
  case Nil
  then show ?case by (subst forward_loop.simps) (simp add: pg_len_def)
next
  case (Cons k ks)
  obtain pd where pd: "pg_popleft (pending x) = (Inr k, pd)" "order pd = ks" "members_ok pd"
    using pg_popleft_order[OF Cons.prems(1) Cons.hyps(2)[symmetric]] by blast
  have "dhas (collections (pile x)) k" using Cons.prems(2) Cons.hyps(2)[symmetric] by auto
  then obtain ev where ev: "dget (collections (pile x)) k = Some ev"
    using dget_Some_iff[of k "collections (pile x)"] by blast
  have eid: "eid ev = k" using well_keyed_eid[OF Cons.prems(3) ev] .
  have "forward_loop x p = forward_loop (x\<lparr>pending := pd\<rparr>) (p\<lparr>queue := queue p @ [k]\<rparr>)"
    using pd ev eid Cons.hyps(2)[symmetric] Cons.prems(4)
    by (subst forward_loop.simps)
       (simp add: pg_len_def pile_lookup_def not_found_def enqueue_def queue_full_def)
  moreover have "\<exists>x'. forward_loop (x\<lparr>pending := pd\<rparr>) (p\<lparr>queue := queue p @ [k]\<rparr>) = (Done, x')
      \<and> order (pending x') = [] \<and> pile x' = pile (x\<lparr>pending := pd\<rparr>)
      \<and> proc x' = Some ((p\<lparr>queue := queue p @ [k]\<rparr>)\<lparr>queue := queue (p\<lparr>queue := queue p @ [k]\<rparr>)
          @ order (pending (x\<lparr>pending := pd\<rparr>))\<rparr>)"
    using Cons.prems Cons.hyps(2)[symmetric] pd by (intro Cons.hyps(1)) auto
  ultimately show ?case using pd Cons.hyps(2)[symmetric] by auto
qed

section \<open>Properties\<close>

text \<open>
  C35.  \<open>process\<close> keeps the books whatever its permission hooks do: what it started, what it denied and
  what it leaves queued are together exactly what was queued (one event is lost if and only if a hook
  raised on it), it never takes more than its capacity, and a round that does not raise leaves it with
  a positive capacity, so it cannot wedge itself.
\<close>

theorem process_accounts:
  assumes "process_loop (permit v) (deny v) p 0 [] [] = (r, p1, started, refused)"
  shows "accounts p started refused r p1
    \<and> queue (snd (process v p)) = queue p1
    \<and> (1 \<le> capacity p \<and> 1 \<le> queue_capacity p \<and> fst (process v p) = Inr ()
        \<longrightarrow> 1 \<le> capacity (snd (process v p)))"
proof -
  have acc: "accounts p started refused r p1"
    using loops_accounts[OF process_loopD[OF assms]] .
  moreover have "1 \<le> capacity (snd (process v p))"
    if "1 \<le> capacity p" "1 \<le> queue_capacity p" "fst (process v p) = Inr ()"
    using that acc assms
    by (auto simp: process_def accounts_def Let_def split: prod.splits sum.splits if_splits)
  ultimately show ?thesis using process_queue[OF assms] by blast
qed

text \<open>
  C36.  \<open>join\<close> drains: when permission is never refused and the bodies raise \<open>Exception\<close>s only (and keep
  the error slot such that an \<open>Exception\<close> can be added to it), a queue of pending events is empty after at
  most \<open>n\<close> rounds, \<open>n\<close> times the capacity covering its length, in whatever order the event loop schedules
  the tasks.  Every event in it has then been run exactly once, its state being what its own run makes of
  it: \<open>COMPLETED\<close> if its body returned, \<open>FAILED\<close> if it raised; and no other event was touched.
\<close>

theorem join_runs_all:
  fixes v :: "('e, 'e \<Rightarrow> ('q, 'm, 'r) event) env"
  assumes "permit v = always" "run v = run_event bodies streams dt" "tame_bodies bodies streams"
    and "\<And>xs. set (sched v xs) = set xs"
    and "1 \<le> queue_capacity p" "capacity p = queue_capacity p"
    and "length (queue p) \<le> n * nat (queue_capacity p)"
    and "\<And>e. e \<in> set (queue p) \<Longrightarrow> ev_status (gate p e) = PENDING \<and> sound_slot (slot (gate p e))"
  shows "\<exists>p'. join v pause n p = Some (Inr (), p') \<and> queue p' = []
    \<and> (\<forall>e \<in> set (queue p). gate p' e = snd (run_event bodies streams dt e (gate p)) e
        \<and> ev_status (gate p' e) = (case outcome_of bodies streams e (gate p e) of Inl _ \<Rightarrow> FAILED | Inr _ \<Rightarrow> COMPLETED))
    \<and> (\<forall>e. e \<notin> set (queue p) \<longrightarrow> gate p' e = gate p e)"
proof -
  have st: "startable (set (queue p)) (gate p)" using assms(8) by (simp add: startable_def)
  obtain p' where p': "join v pause n p = Some (Inr (), p')" "queue p' = []"
    "run_so_far bodies streams dt (gate p) (set (queue p)) (gate p')"
    using join_drains[OF assms(1-4) st assms(5-7), of "{}" pause] by (auto simp: run_so_far_def)
  have "settled out = (case out of Inl _ \<Rightarrow> FAILED | Inr _ \<Rightarrow> COMPLETED)" if "done_ok (settled out)" for out :: "exc + unit"
    using that by (cases out) (auto simp: done_ok_def split: if_splits)
  then show ?thesis
    using p' run_event_tame(1)[OF assms(3), of "gate p" _ dt] st
    by (intro exI[of _ p']) (simp add: run_so_far_def startable_def)
qed

text \<open>
  C37.  The rate limit holds, each limit by itself: between two refills of its counters, however often
  it is driven and whatever is queued, the rate-limited processor starts at most the requests that were
  available when requests are limited, and events that need together at most the tokens that were
  available when tokens are limited, whether or not the other limit is set; and its counters say exactly
  what is left.  (The tasks themselves leave the counters alone.)
\<close>

theorem rate_limit_respected:
  assumes "permit v = rl_permit qcap tokens" "deny v = rl_denied"
    and "\<And>e g. available_requests (snd (run v e g)) = available_requests g
      \<and> available_tokens (snd (run v e g)) = available_tokens g"
    and "\<And>es g. available_requests (halted v es g) = available_requests g
      \<and> available_tokens (halted v es g) = available_tokens g"
    and "drives v n p = (started, p')"
  shows "(\<forall>L. available_requests (gate p) = Some L \<longrightarrow> 0 \<le> L \<longrightarrow>
       int (length started) \<le> L \<and> available_requests (gate p') = Some (L - int (length started)))
    \<and> (\<forall>T. available_tokens (gate p) = Some T \<longrightarrow> 0 \<le> T \<longrightarrow>
       sum_list (map (token_cost tokens) started) \<le> T
       \<and> available_tokens (gate p') = Some (T - sum_list (map (token_cost tokens) started)))"
proof -
  have len: "sum_list (map (\<lambda>_. 1 :: int) started) = int (length started)" by (induction started) auto
  have "available_requests (gate p') = Some (L - sum_list (map (\<lambda>_. 1) started)) \<and> sum_list (map (\<lambda>_. 1) started) \<le> L"
    if "available_requests (gate p) = Some L" "0 \<le> L" for L
    using requests_budget.drives_budget[OF assms(1,2) _ _ assms(5) that] assms(3,4) by blast
  moreover have "available_tokens (gate p') = Some (T - sum_list (map (token_cost tokens) started))
      \<and> sum_list (map (token_cost tokens) started) \<le> T"
    if "available_tokens (gate p) = Some T" "0 \<le> T" for T
    using tokens_budget.drives_budget[OF assms(1,2) _ _ assms(5) that] assms(3,4) by blast
  ultimately show ?thesis using len by simp
qed

text \<open>
  A backlog beyond the capacity stalls a processor without limits for good: with more events
  queued than its capacity, every permission is refused, \<open>process\<close> ends without changing anything, the
  replenisher's turn changes nothing either, and \<open>join\<close> is not done after any number of rounds.
\<close>

theorem unlimited_backlog_stalls:
  assumes "permit v = rl_permit (queue_capacity p) tokens" "deny v = rl_denied"
    and "gate p = mk_limits None None h"
    and "1 \<le> capacity p" "0 \<le> queue_capacity p" "queue_capacity p < int (length (queue p))"
    and "sched v [] = []"
  shows "process v p = (Inr (), p) \<and> replenish v p = (Inr (), p) \<and> join v id n p = None"
proof -
  have stall: "process v p = (Inr (), p)"
    using assms by (intro process_stalls[where tokens = tokens]) (simp_all add: mk_limits_def)
  have "queue p \<noteq> []" using assms(5,6) by auto
  moreover have "p\<lparr>gate := refill (gate p)\<rparr> = p" using assms(3) by (simp add: refill_def mk_limits_def)
  moreover have "join v id n p = None" if "queue p \<noteq> []"
    using that stall by (induction n) (subst join.simps, simp)+
  ultimately show ?thesis using stall by (simp add: replenish_def Let_def)
qed

text \<open>
  \<open>forward\<close> hands over everything that is pending, in its order: with an unbounded queue and the
  pending events stored, the whole pending list goes to the end of the processor's queue before it is
  driven, and nothing stays pending.
\<close>

theorem forward_hands_over:
  assumes "members_ok (pending x)" "wf_pile (pile x)"
    and "set (order (pending x)) \<subseteq> set (pile_keys (pile x))"
    and "proc x = Some p" "max_queue_size p = 0"
  shows "order (pending (snd (forward v x))) = [] \<and> pile (snd (forward v x)) = pile x
    \<and> proc (snd (forward v x)) = Some (snd (process v (p\<lparr>queue := queue p @ order (pending x)\<rparr>)))"
proof -
  have "well_keyed (collections (pile x))" "set (order (pending x)) \<subseteq> set (dkeys (collections (pile x)))"
    using assms(2,3) by (auto simp: wf_pile_def pile_keys_def)
  then obtain x1 where x1: "forward_loop x p = (Done, x1)" "order (pending x1) = []" "pile x1 = pile x"
    "proc x1 = Some (p\<lparr>queue := queue p @ order (pending x)\<rparr>)"
    using forward_loop_all[OF assms(1)] assms(5) by blast
  obtain r p2 where p2: "process v (p\<lparr>queue := queue p @ order (pending x)\<rparr>) = (r, p2)" by force
  show ?thesis using assms(4) x1 p2 by (cases r) (auto simp: forward_def)
qed

section \<open>Witnesses\<close>

definition ex_heap :: "nat \<Rightarrow> (unit, unit, nat) event" where
  "ex_heap _ = ex_event"

text \<open>The body of event 2 fails.\<close>

definition ex_bodies :: "nat \<Rightarrow> (unit, unit, nat) body" where
  "ex_bodies e ev = (if e = 2 then Inl type_error else Inr 1, ev)"

definition ex_streams :: "nat \<Rightarrow> (unit, unit, nat, unit) stream_body" where
  "ex_streams e ev = ([], Inr (), ev)"

definition ex_env :: "(nat, nat \<Rightarrow> (unit, unit, nat) event) env" where
  "ex_env =
     \<lparr>permit = always, deny = skip_denied, run = run_event ex_bodies ex_streams (\<lambda>_. 2),
      sched = rev, group_raises = (\<lambda>_. True), halted = (\<lambda>_ h. h)\<rparr>"

definition ex_proc :: "nat list \<Rightarrow> int \<Rightarrow> 'p \<Rightarrow> (nat, 'p) processor" where
  "ex_proc q c g =
     \<lparr>queue = q, capacity = c, queue_capacity = c, refresh_time = 1, max_queue_size = 0,
      execution_mode = False, stopped = False, concurrency = None, gate = g\<rparr>"

theorem process_accounts_witness:
  "accounts (ex_proc [4, 2, 3] 2 ex_heap) [4, 2] [] (Inr ())
     (ex_proc [4, 2, 3] 2 ex_heap\<lparr>queue := [3], capacity := 0\<rparr>)
   \<and> queue (snd (process ex_env (ex_proc [4, 2, 3] 2 ex_heap))) = [3]"
proof -
  have "process_loop (permit ex_env) (deny ex_env) (ex_proc [4, 2, 3] 2 ex_heap) 0 [] []
      = (Inr (), ex_proc [4, 2, 3] 2 ex_heap\<lparr>queue := [3], capacity := 0\<rparr>, [4, 2], [])"
    by (simp add: process_loop.simps ex_env_def ex_proc_def always_def)
  moreover have "queue (ex_proc [4, 2, 3] 2 ex_heap\<lparr>queue := [3], capacity := 0\<rparr>) = [3]" by simp
  ultimately show ?thesis using process_accounts by metis
qed

theorem join_runs_all_witness:
  "\<exists>p'. join ex_env id 2 (ex_proc [1, 2, 3] 2 ex_heap) = Some (Inr (), p') \<and> queue p' = []
     \<and> ev_status (gate p' 1) = COMPLETED \<and> ev_status (gate p' 2) = FAILED \<and> ev_status (gate p' 4) = PENDING"
proof -
  have tame: "tame_bodies ex_bodies ex_streams"
    by (simp add: tame_bodies_def tame_def ex_bodies_def ex_streams_def type_error_def)
  show ?thesis
    using join_runs_all[of ex_env ex_bodies ex_streams "\<lambda>_. 2" "ex_proc [1, 2, 3] 2 ex_heap" 2 id, OF _ _ tame]
    by (auto simp: ex_env_def ex_proc_def ex_heap_def ex_event_def fresh_execution_def sound_slot_def
        outcome_of_def ex_bodies_def)
qed

definition ex_limited :: "(nat, unit limits) env" where
  "ex_limited =
     \<lparr>permit = rl_permit 9 (\<lambda>_. Some 10), deny = rl_denied, run = (\<lambda>_ g. (Inr (), g)), sched = id,
      group_raises = (\<lambda>_. True), halted = (\<lambda>_ g. g)\<rparr>"

lemma ex_drives:
  "drives ex_limited 2 (ex_proc [1, 2, 3] 9 (mk_limits (Some 5) (Some 25) ()))
     = ([1, 2], ex_proc [3] 9 (mk_limits (Some 5) (Some 25) ()\<lparr>available_requests := Some 3, available_tokens := Some 5\<rparr>))"
  "drives ex_limited 2 (ex_proc [1, 2, 3] 9 (mk_limits None (Some 25) ()))
     = ([1, 2], ex_proc [3] 9 (mk_limits None (Some 25) ()\<lparr>available_tokens := Some 5\<rparr>))"
  by (simp_all add: numeral_2_eq_2 ex_limited_def ex_proc_def mk_limits_def process_def process_loop.simps
      rl_permit_def rl_denied_def charge_def short_of_def truthy_def Let_def)

theorem rate_limit_respected_witness:
  "fst (drives ex_limited 2 (ex_proc [1, 2, 3] 9 (mk_limits (Some 5) (Some 25) ()))) = [1, 2] \<and>
   int (length [1, 2 :: nat]) \<le> 5 \<and> sum_list (map (token_cost (\<lambda>_. Some 10)) [1, 2 :: nat]) \<le> 25 \<and>
   fst (drives ex_limited 2 (ex_proc [1, 2, 3] 9 (mk_limits None (Some 25) ()))) = [1, 2]"
proof -
  note r = rate_limit_respected[of ex_limited 9 "\<lambda>_. Some 10", OF _ _ _ _ ex_drives(1)]
    rate_limit_respected[of ex_limited 9 "\<lambda>_. Some 10", OF _ _ _ _ ex_drives(2)]
  show ?thesis using r ex_drives by (simp add: ex_limited_def ex_proc_def mk_limits_def)
qed

theorem unlimited_backlog_stalls_witness:
  "join (ex_limited\<lparr>permit := rl_permit 2 (\<lambda>_. None)\<rparr>) id 7 (ex_proc [1, 2, 3] 2 (mk_limits None None ())) = None"
  using unlimited_backlog_stalls[of "ex_limited\<lparr>permit := rl_permit 2 (\<lambda>_. None)\<rparr>"
      "ex_proc [1, 2, 3] 2 (mk_limits None None ())" "\<lambda>_. None" "()" 7]
  by (simp add: ex_limited_def ex_proc_def)

theorem forward_hands_over_witness:
  "order (pending (snd (forward ex_env
     \<lparr>pending = mk_progression 90 None [4], pile = pile_of 91 [Elem 4 [''Event''] ()],
      proc = Some (ex_proc [] 2 ex_heap)\<rparr>))) = []"
proof -
  have "pile_keys (pile_of 91 [Elem 4 [''Event''] ()]) = [4]"
    by (simp add: pile_of_def pile_keys_def mk_progression_def)
  then show ?thesis
    using forward_hands_over[of "\<lparr>pending = mk_progression 90 None [4], pile = pile_of 91 [Elem 4 [''Event''] ()],
      proc = Some (ex_proc [] 2 ex_heap)\<rparr>" "ex_proc [] 2 ex_heap" ex_env]
    by (simp add: ex_proc_def mk_progression_def)
qed

end
