(* ===== verification/Resilience.thy ===== *)
theory Resilience
  imports Prelude Complex_Main
begin

text \<open>
  Circuit breaker and retry: \<open>lionagi/service/resilience.py\<close> and \<open>retry\<close> of
  \<open>lionagi/ln/concurrency/patterns.py\<close>.

  Times and delays are rationals.  An exception is the list of its class names in method resolution
  order, so that \<open>isinstance\<close> is membership.  A breaker call is two steps, the admission
  (\<open>check_state\<close>) and the settling of the outcome, because other calls run in between; \<open>execute\<close>
  composes them for a call that runs alone.  The lemmas show that the breaker moves only along
  \<open>CLOSED \<rightarrow> OPEN \<rightarrow> HALF_OPEN \<rightarrow> CLOSED | OPEN\<close> under any interleaving, that it fails fast while open,
  that it never lets more probes through than configured, and how it can refuse for ever; and that
  retry makes at most the configured number of calls with bounded delays.
\<close>

section \<open>Circuit breaker\<close>

datatype circuit_state = CLOSED | OPEN | HALF_OPEN

datatype 'a outcome = Returned 'a | Raised "string list"

record breaker =
  failure_threshold :: int
  recovery_time :: rat
  half_open_max_calls :: int
  excluded_exceptions :: "string list"
  failure_count :: int
  state :: circuit_state
  last_failure_time :: rat
  half_open_calls :: int
  successes :: nat
  failures :: nat
  rejected :: nat
  state_changes :: "(rat \<times> circuit_state \<times> circuit_state) list"

definition mk_breaker :: "int \<Rightarrow> rat \<Rightarrow> int \<Rightarrow> string list option \<Rightarrow> breaker" where
  "mk_breaker threshold recovery half_max excl =
     \<lparr>failure_threshold = threshold, recovery_time = recovery, half_open_max_calls = half_max,
      excluded_exceptions = (case excl of None \<Rightarrow> [] | Some xs \<Rightarrow> xs),
      failure_count = 0, state = CLOSED, last_failure_time = 0, half_open_calls = 0,
      successes = 0, failures = 0, rejected = 0, state_changes = []\<rparr>"

definition change_state :: "rat \<Rightarrow> circuit_state \<Rightarrow> breaker \<Rightarrow> breaker" where
  "change_state now new b =
     (if new = state b then b
      else let b1 = b\<lparr>state := new, state_changes := state_changes b @ [(now, state b, new)]\<rparr>
           in case new of
                HALF_OPEN \<Rightarrow> b1\<lparr>half_open_calls := 0\<rparr>
              | CLOSED \<Rightarrow> b1\<lparr>failure_count := 0\<rparr>
              | OPEN \<Rightarrow> b1)"

definition reject :: "breaker \<Rightarrow> breaker" where
  "reject b = b\<lparr>rejected := rejected b + 1\<rparr>"

definition check_state :: "rat \<Rightarrow> breaker \<Rightarrow> bool \<times> breaker" where
  "check_state now b =
     (if state b = OPEN \<and> now - last_failure_time b < recovery_time b then (False, reject b)
      else let b1 = (if state b = OPEN then change_state now HALF_OPEN b else b)
           in if state b1 = HALF_OPEN
              then if half_open_calls b1 \<ge> half_open_max_calls b1 then (False, reject b1)
                   else (True, b1\<lparr>half_open_calls := half_open_calls b1 + 1\<rparr>)
              else (True, b1))"

definition is_instance :: "string list \<Rightarrow> string list \<Rightarrow> bool" where
  "is_instance mro classes \<longleftrightarrow> list_ex (\<lambda>c. c \<in> set mro) classes"

definition on_success :: "rat \<Rightarrow> breaker \<Rightarrow> breaker" where
  "on_success now b =
     (let b1 = b\<lparr>successes := successes b + 1\<rparr>
      in if state b1 = HALF_OPEN then change_state now CLOSED b1 else b1)"

definition on_failure :: "rat \<Rightarrow> breaker \<Rightarrow> breaker" where
  "on_failure now b =
     (let b1 = b\<lparr>failure_count := failure_count b + 1, last_failure_time := now,
                 failures := failures b + 1\<rparr>
      in if (state b1 = CLOSED \<and> failure_count b1 \<ge> failure_threshold b1) \<or> state b1 = HALF_OPEN
         then change_state now OPEN b1 else b1)"

text \<open>
  The settling of a call: only an \<open>Exception\<close> is caught, and an excluded one is not counted; a
  cancellation passes through untouched.
\<close>

definition settle :: "rat \<Rightarrow> 'a outcome \<Rightarrow> breaker \<Rightarrow> breaker" where
  "settle now out b =
     (case out of
        Returned _ \<Rightarrow> on_success now b
      | Raised mro \<Rightarrow>
          if ''Exception'' \<in> set mro \<and> \<not> is_instance mro (excluded_exceptions b)
          then on_failure now b else b)"

text \<open>
  \<open>execute\<close>: admission at \<open>t0\<close>, the rejection message reads the clock at \<open>t0'\<close>, the call ends at \<open>t1\<close>.
  A rejected call carries its \<open>retry_after\<close>.
\<close>

datatype 'a call_result = Value 'a | Escaped "string list" | Rejected rat

definition execute :: "rat \<Rightarrow> rat \<Rightarrow> rat \<Rightarrow> 'a outcome \<Rightarrow> breaker \<Rightarrow> 'a call_result \<times> breaker" where
  "execute t0 t0' t1 out b =
     (case check_state t0 b of
        (False, b1) \<Rightarrow> (Rejected (recovery_time b1 - (t0' - last_failure_time b1)), b1)
      | (True, b1) \<Rightarrow>
          ((case out of Returned x \<Rightarrow> Value x | Raised mro \<Rightarrow> Escaped mro), settle t1 out b1))"

text \<open>Interleaved calls: any order of admissions and settlements.\<close>

datatype 'a breaker_op = Enter rat | Leave rat "'a outcome"

fun breaker_step :: "breaker \<Rightarrow> 'a breaker_op \<Rightarrow> breaker" where
  "breaker_step b (Enter t) = snd (check_state t b)"
| "breaker_step b (Leave t out) = settle t out b"

subsection \<open>The automaton\<close>

definition legal :: "circuit_state \<Rightarrow> circuit_state \<Rightarrow> bool" where
  "legal a b \<longleftrightarrow> (a, b) \<in> {(CLOSED, OPEN), (OPEN, HALF_OPEN), (HALF_OPEN, CLOSED), (HALF_OPEN, OPEN)}"

fun chain :: "circuit_state \<Rightarrow> (rat \<times> circuit_state \<times> circuit_state) list \<Rightarrow> circuit_state \<Rightarrow> bool" where
  "chain a [] c = (a = c)"
| "chain a ((_, x, y) # xs) c = (x = a \<and> legal x y \<and> chain y xs c)"

lemma chain_snoc: "chain a (xs @ [(t, x, y)]) c \<longleftrightarrow> chain a xs x \<and> legal x y \<and> c = y"
  by (induction xs arbitrary: a) auto

definition breaker_inv :: "breaker \<Rightarrow> bool" where
  "breaker_inv b \<longleftrightarrow>
     chain CLOSED (state_changes b) (state b) \<and> 0 \<le> half_open_calls b
     \<and> (state b = HALF_OPEN \<longrightarrow> half_open_calls b \<le> max 0 (half_open_max_calls b))
     \<and> (state b = CLOSED \<longrightarrow> failure_count b < max 1 (failure_threshold b))"

lemma change_state_simps [simp]:
  "state (change_state t s b) = s"
  "half_open_max_calls (change_state t s b) = half_open_max_calls b"
  "failure_threshold (change_state t s b) = failure_threshold b"
  "recovery_time (change_state t s b) = recovery_time b"
  "last_failure_time (change_state t s b) = last_failure_time b"
  "excluded_exceptions (change_state t s b) = excluded_exceptions b"
  by (auto simp: change_state_def Let_def split: circuit_state.splits)

lemma change_state_inv:
  assumes "chain CLOSED (state_changes b) (state b)" "0 \<le> half_open_calls b" "legal (state b) s"
  shows "breaker_inv (change_state t s b)"
  using assms
  by (cases s) (auto simp: breaker_inv_def change_state_def chain_snoc Let_def legal_def)

lemma reject_inv [simp]: "breaker_inv (reject b) = breaker_inv b"
  by (simp add: reject_def breaker_inv_def)

lemma breaker_invD:
  assumes "breaker_inv b"
  shows "chain CLOSED (state_changes b) (state b)" "0 \<le> half_open_calls b"
  using assms by (simp_all add: breaker_inv_def)

lemma check_state_inv: "breaker_inv b \<Longrightarrow> breaker_inv (snd (check_state t b))"
proof -
  assume inv: "breaker_inv b"
  let ?h = "change_state t HALF_OPEN b"
  have half: "breaker_inv ?h" if "state b = OPEN"
    using change_state_inv[of b HALF_OPEN t] breaker_invD[OF inv] that by (simp add: legal_def)
  have count: "breaker_inv (c\<lparr>half_open_calls := half_open_calls c + 1\<rparr>)"
    if "breaker_inv c" "state c = HALF_OPEN" "half_open_calls c < half_open_max_calls c" for c
    using that by (auto simp: breaker_inv_def)
  show ?thesis
    using inv half count[of b] count[of ?h]
    by (auto simp: check_state_def Let_def not_le)
qed

lemma settle_inv: "breaker_inv b \<Longrightarrow> breaker_inv (settle t out b)"
proof -
  assume inv: "breaker_inv b"
  have ok: "breaker_inv (on_success t b)"
    using inv change_state_inv[of "b\<lparr>successes := successes b + 1\<rparr>" CLOSED t]
    by (auto simp: on_success_def Let_def breaker_inv_def legal_def)
  have fail: "breaker_inv (on_failure t b)"
    using inv change_state_inv[of "b\<lparr>failure_count := failure_count b + 1, last_failure_time := t,
        failures := failures b + 1\<rparr>" OPEN t]
    by (auto simp: on_failure_def Let_def breaker_inv_def legal_def)
  show ?thesis using inv ok fail by (auto simp: settle_def split: outcome.splits)
qed

lemma step_breaker_inv: "breaker_inv b \<Longrightarrow> breaker_inv (breaker_step b op)"
  by (cases op) (auto intro: check_state_inv settle_inv)

interpretation breaker_ops: stepping breaker_step breaker_inv
  by unfold_locales (rule step_breaker_inv)

lemma mk_breaker_inv [simp]: "breaker_inv (mk_breaker n r h x)"
  by (simp add: breaker_inv_def mk_breaker_def)

lemma settle_open:
  "state b = OPEN \<Longrightarrow> state (settle t out b) = OPEN \<and> recovery_time (settle t out b) = recovery_time b"
  by (auto simp: settle_def on_success_def on_failure_def Let_def split: outcome.splits)

lemma settle_config [simp]:
  "failure_threshold (settle t out b) = failure_threshold b"
  "recovery_time (settle t out b) = recovery_time b"
  "excluded_exceptions (settle t out b) = excluded_exceptions b"
  "half_open_max_calls (settle t out b) = half_open_max_calls b"
  by (auto simp: settle_def on_success_def on_failure_def Let_def split: outcome.splits)

text \<open>An exception the breaker counts.\<close>

definition counted :: "string list \<Rightarrow> breaker \<Rightarrow> bool" where
  "counted mro b \<longleftrightarrow> ''Exception'' \<in> set mro \<and> \<not> is_instance mro (excluded_exceptions b)"

definition fail_at :: "rat \<Rightarrow> string list \<Rightarrow> breaker \<Rightarrow> breaker" where
  "fail_at t mro b = settle t (Raised mro :: unit outcome) b"

lemma settle_counted:
  "counted mro b \<Longrightarrow> fail_at t mro b = on_failure t b"
  by (simp add: fail_at_def settle_def counted_def)

lemma failures_accumulate:
  assumes "counted mro b" "state b = CLOSED" "failure_count b < max 1 (failure_threshold b)" "ts \<noteq> []"
  shows "let b' = foldl (\<lambda>b t. fail_at t mro b) b ts
         in state b' = (if failure_threshold b \<le> failure_count b + int (length ts) then OPEN else CLOSED)
            \<and> failure_count b' = failure_count b + int (length ts)
            \<and> last_failure_time b' = last ts \<and> recovery_time b' = recovery_time b
            \<and> counted mro b'"
  using assms(4)
proof (induction ts rule: rev_induct)
  case (snoc t ts)
  show ?case
  proof (cases "ts = []")
    case True
    then show ?thesis using assms(1-3)
      by (auto simp: settle_counted on_failure_def Let_def counted_def change_state_def)
  next
    case False
    let ?b = "foldl (\<lambda>b t. fail_at t mro b) b ts"
    have IH: "state ?b = (if failure_threshold b \<le> failure_count b + int (length ts) then OPEN else CLOSED)"
      "failure_count ?b = failure_count b + int (length ts)" "recovery_time ?b = recovery_time b" "counted mro ?b"
      using snoc.IH[OF False] by (simp_all add: Let_def)
    have thr: "failure_threshold ?b = failure_threshold b"
      by (induction ts rule: rev_induct) (simp_all add: fail_at_def)
    show ?thesis using IH thr
      by (auto simp: settle_counted on_failure_def Let_def counted_def change_state_def)
  qed
qed simp

text \<open>Calls that end without being counted, and the admissions among some operations.\<close>

fun uncounted :: "breaker \<Rightarrow> 'a breaker_op \<Rightarrow> bool" where
  "uncounted b (Enter _) \<longleftrightarrow> True"
| "uncounted b (Leave _ (Returned _)) \<longleftrightarrow> False"
| "uncounted b (Leave _ (Raised mro)) \<longleftrightarrow> \<not> counted mro b"

fun admissions :: "'a breaker_op list \<Rightarrow> nat" where
  "admissions [] = 0"
| "admissions (Enter _ # ops) = Suc (admissions ops)"
| "admissions (Leave _ _ # ops) = admissions ops"

text \<open>While nothing is counted, a half-open breaker only fills its slots.\<close>

lemma slots_fill:
  "state b = HALF_OPEN \<Longrightarrow> half_open_max_calls b = int k \<Longrightarrow> half_open_calls b = int (min k n) \<Longrightarrow>
   list_all (uncounted b) ops \<Longrightarrow>
     state (foldl breaker_step b ops) = HALF_OPEN \<and> half_open_max_calls (foldl breaker_step b ops) = int k \<and>
     half_open_calls (foldl breaker_step b ops) = int (min k (n + admissions ops))"
proof (induction ops arbitrary: b n)
  case (Cons op ops)
  have same: "uncounted b' = (uncounted b :: 'a breaker_op \<Rightarrow> bool)" if "excluded_exceptions b' = excluded_exceptions b" for b'
  proof
    fix op' :: "'a breaker_op"
    show "uncounted b' op' = uncounted b op'" using that by (cases "(b, op')" rule: uncounted.cases) (simp_all add: counted_def)
  qed
  show ?case
  proof (cases op)
    case (Enter t)
    let ?b = "snd (check_state t b)"
    have "state ?b = HALF_OPEN" "half_open_max_calls ?b = int k" "half_open_calls ?b = int (min k (Suc n))"
      "excluded_exceptions ?b = excluded_exceptions b"
      using Cons.prems(1-3) by (auto simp: check_state_def reject_def Let_def)
    then show ?thesis using Cons.IH[of ?b "Suc n"] Cons.prems(4) same[of ?b] Enter by simp
  next
    case (Leave t out)
    then obtain mro where "out = Raised mro" "\<not> counted mro b" using Cons.prems(4) by (cases out) auto
    then have "settle t out b = b" by (auto simp: settle_def counted_def)
    then show ?thesis using Cons.IH[OF Cons.prems(1-3)] Cons.prems(4) Leave by simp
  qed
qed simp

section \<open>Retry\<close>

record retry_config =
  attempts :: int
  base_delay :: rat
  max_delay :: rat
  backoff_factor :: rat
  retry_on :: "string list"
  jitter :: rat

text \<open>
  What one run meets: the outcome of each call, the random numbers, the deadline in force, the clock
  when it is compared with the deadline and after the sleep, and the cancellation exception.
\<close>

record 'a surroundings =
  call :: "nat \<Rightarrow> 'a outcome"
  rand :: "nat \<Rightarrow> rat"
  deadline :: "rat option"
  clock_before :: "nat \<Rightarrow> rat"
  clock_after :: "nat \<Rightarrow> rat"
  cancelled_mro :: "string list"

definition delay_of :: "retry_config \<Rightarrow> rat \<Rightarrow> nat \<Rightarrow> rat" where
  "delay_of c r attempt =
     (let d = min (max_delay c) (base_delay c * backoff_factor c ^ (attempt - 1))
      in if jitter c \<noteq> 0 then d * (1 + r * jitter c) else d)"

text \<open>The loop; \<open>k\<close> calls have failed so far.  Result, requested delays, number of calls made.\<close>

function retry_loop :: "retry_config \<Rightarrow> 'a surroundings \<Rightarrow> nat \<Rightarrow> 'a outcome \<times> rat list \<times> nat" where
  "retry_loop c v k =
     (case call v k of
        Returned x \<Rightarrow> (Returned x, [], k + 1)
      | Raised mro \<Rightarrow>
          if \<not> is_instance mro (retry_on c) then (Raised mro, [], k + 1)
          else if int (k + 1) \<ge> attempts c then (Raised mro, [], k + 1)
          else (let d = delay_of c (rand v k) (k + 1)
                in case deadline v of
                     None \<Rightarrow> (case retry_loop c v (k + 1) of (out, ds, n) \<Rightarrow> (out, d # ds, n))
                   | Some D \<Rightarrow>
                       if D - clock_before v k \<le> 0 then (Raised mro, [], k + 1)
                       else if clock_after v k \<ge> D then (Raised mro, [d], k + 1)
                       else (case retry_loop c v (k + 1) of (out, ds, n) \<Rightarrow> (out, d # ds, n))))"
  by pat_completeness auto
termination
  by (relation "measure (\<lambda>(c, _, k). nat (attempts c) - k)") auto

declare retry_loop.simps [simp del]

definition retry :: "retry_config \<Rightarrow> 'a surroundings \<Rightarrow> pyerr + 'a outcome \<times> rat list \<times> nat" where
  "retry c v =
     (if attempts c < 1 then Inl ValueError
      else if base_delay c \<le> 0 then Inl ValueError
      else if max_delay c < 0 then Inl ValueError
      else if jitter c < 0 then Inl ValueError
      else if backoff_factor c < 1 then Inl ValueError
      else if is_instance (cancelled_mro v) (retry_on c) then Inl ValueError
      else Inr (retry_loop c v 0))"

text \<open>
  \<open>retry_with_backoff\<close>: excluded exceptions are wrapped in a private \<open>BaseException\<close> that no
  \<open>retry_on\<close> can name, and unwrapped at the end.
\<close>

definition excluded_mro :: "string list" where
  "excluded_mro = [''retry_with_backoff.<locals>._Excluded'', ''BaseException'', ''object'']"

definition guard_call :: "string list \<Rightarrow> 'a outcome \<Rightarrow> 'a outcome" where
  "guard_call excl out =
     (case out of
        Returned x \<Rightarrow> Returned x
      | Raised mro \<Rightarrow> if is_instance mro excl then Raised excluded_mro else Raised mro)"

definition retry_with_backoff ::
    "int \<Rightarrow> bool \<Rightarrow> string list \<Rightarrow> retry_config \<Rightarrow> 'a surroundings
      \<Rightarrow> pyerr + 'a outcome \<times> rat list \<times> nat" where
  "retry_with_backoff max_retries jittered excl c v =
     (let c1 = c\<lparr>attempts := max_retries + 1, jitter := (if jittered then jitter c else 0)\<rparr>
      in if excl \<noteq> []
         then (case retry c1 (v\<lparr>call := guard_call excl \<circ> call v\<rparr>) of
                 Inl e \<Rightarrow> Inl e
               | Inr (out, ds, n) \<Rightarrow> Inr (if out = Raised excluded_mro then call v (n - 1) else out, ds, n))
         else retry c1 v)"

definition mk_retry_config :: "rat \<Rightarrow> rat \<Rightarrow> rat \<Rightarrow> string list \<Rightarrow> rat \<Rightarrow> pyerr + retry_config" where
  "mk_retry_config base maxd factor on jit =
     (if factor < 1 then Inl ValueError
      else Inr \<lparr>attempts = 0, base_delay = base, max_delay = maxd, backoff_factor = factor,
                retry_on = on, jitter = jit\<rparr>)"

subsection \<open>What the loop does\<close>

definition retryable :: "string list \<Rightarrow> 'a outcome \<Rightarrow> bool" where
  "retryable classes out =
     (case out of Returned _ \<Rightarrow> False | Raised mro \<Rightarrow> is_instance mro classes)"

text \<open>The report of a run that started after \<open>k\<close> failures and made \<open>n\<close> calls in all.\<close>

definition retry_report ::
    "retry_config \<Rightarrow> 'a surroundings \<Rightarrow> nat \<Rightarrow> 'a outcome \<times> rat list \<times> nat \<Rightarrow> bool" where
  "retry_report c v k res \<longleftrightarrow>
     (case res of (out, ds, n) \<Rightarrow>
        k < n \<and> out = call v (n - 1) \<and> (\<forall>j. k \<le> j \<and> j + 1 < n \<longrightarrow> retryable (retry_on c) (call v j))
        \<and> (int n < attempts c \<longrightarrow> deadline v = None \<longrightarrow> \<not> retryable (retry_on c) out)
        \<and> (int k < attempts c \<longrightarrow> int n \<le> attempts c)
        \<and> length ds \<le> n - k
        \<and> (\<forall>d \<in> set ds. \<exists>j a. d = delay_of c (rand v j) a))"

lemma retry_report_now:
  assumes "out = call v k" "\<not> retryable (retry_on c) out \<or> int (k + 1) \<ge> attempts c \<or> deadline v \<noteq> None"
    and "ds = [] \<or> ds = [delay_of c (rand v k) (k + 1)]"
  shows "retry_report c v k (out, ds, k + 1)"
  using assms by (auto simp: retry_report_def) blast+

lemma retry_report_later:
  assumes "retryable (retry_on c) (call v k)" "int (k + 1) < attempts c"
    and "retry_report c v (k + 1) (out, ds, n)"
  shows "retry_report c v k (out, delay_of c (rand v k) (k + 1) # ds, n)"
proof -
  have "retryable (retry_on c) (call v j)" if "k \<le> j" "j + 1 < n" for j
    using assms(1,3) that by (cases "j = k") (auto simp: retry_report_def)
  then show ?thesis using assms(2,3) by (auto simp: retry_report_def)
qed

lemma retry_loop_report: "retry_report c v k (retry_loop c v k)"
proof (induction c v k rule: retry_loop.induct)
  case (1 c v k)
  note unfold = retry_loop.simps[of c v k]
  show ?case
  proof (cases "call v k")
    case (Returned x)
    then show ?thesis
      using retry_report_now[of "Returned x" v k c "[]"] by (simp add: unfold retryable_def)
  next
    case (Raised mro)
    obtain out ds n where rest: "retry_loop c v (k + 1) = (out, ds, n)" by (metis prod_cases3)
    show ?thesis
    proof (cases "is_instance mro (retry_on c) \<and> int (k + 1) < attempts c")
      case False
      then show ?thesis
        using Raised retry_report_now[of "Raised mro" v k c "[]"]
        by (auto simp: unfold retryable_def not_less)
    next
      case True
      then have go: "is_instance mro (retry_on c)" "int (k + 1) < attempts c" by simp_all
      have later: "retry_report c v k (out, delay_of c (rand v k) (k + 1) # ds, n)"
        if "retry_report c v (k + 1) (retry_loop c v (k + 1))"
        using retry_report_later[of c v k out ds n] that rest go Raised by (simp add: retryable_def)
      show ?thesis
      proof (cases "deadline v")
        case None
        then show ?thesis using later "1.IH"(1)[OF Raised _ _ refl None] go rest Raised
          by (simp add: unfold Let_def)
      next
        case (Some D)
        have now: "retry_report c v k (Raised mro, ds', k + 1)"
          if "ds' = [] \<or> ds' = [delay_of c (rand v k) (k + 1)]" for ds'
          using retry_report_now[of "Raised mro" v k c ds'] that Raised Some by simp
        show ?thesis using now later "1.IH"(2)[OF Raised _ _ refl Some] go rest Raised Some
          by (auto simp: unfold Let_def)
      qed
    qed
  qed
qed

lemma delay_bounds:
  assumes "0 < base_delay c" "0 \<le> max_delay c" "1 \<le> backoff_factor c" "0 \<le> jitter c"
    and "0 \<le> r" "r \<le> 1"
  shows "0 \<le> delay_of c r a \<and> delay_of c r a \<le> max_delay c * (1 + jitter c)"
proof -
  let ?d = "min (max_delay c) (base_delay c * backoff_factor c ^ (a - 1))"
  have pos: "0 \<le> ?d" using assms(1-3) by simp
  have d: "?d \<le> max_delay c" by simp
  have "0 \<le> r * jitter c" "r * jitter c \<le> jitter c"
    using assms(4-6) by (simp_all add: mult_left_le_one_le)
  then have "?d * (1 + r * jitter c) \<le> max_delay c * (1 + jitter c)" "0 \<le> ?d * (1 + r * jitter c)"
    using pos d assms(2) by (auto intro!: mult_mono)
  moreover have "max_delay c \<le> max_delay c * (1 + jitter c)"
    using assms(2,4) by (simp add: mult_le_cancel_left1)
  ultimately show ?thesis using pos d by (auto simp: delay_of_def Let_def)
qed

definition retried :: "retry_config \<Rightarrow> string list \<Rightarrow> 'a outcome \<Rightarrow> bool" where
  "retried c excl out \<longleftrightarrow> retryable (retry_on c) out \<and> \<not> retryable excl out"

section \<open>Properties\<close>

text \<open>
  Under any interleaving of admissions and outcomes the breaker moves only along the edges of its
  automaton (its log of state changes is a path from \<open>CLOSED\<close> to the current state), the probes
  admitted in a half-open period never exceed the configured number, and a closed breaker is always
  below its failure threshold.
\<close>

theorem breaker_automaton:
  assumes "b = foldl breaker_step (mk_breaker n r h x) ops"
  shows "chain CLOSED (state_changes b) (state b)
    \<and> (state b = HALF_OPEN \<longrightarrow> half_open_calls b \<le> max 0 (half_open_max_calls b))
    \<and> (state b = CLOSED \<longrightarrow> failure_count b < max 1 (failure_threshold b))"
  using breaker_ops.run_inv[OF mk_breaker_inv, of n r h x ops]
  unfolding assms breaker_inv_def by blast

theorem breaker_automaton_witness:
  "state (foldl breaker_step (mk_breaker 1 30 1 None) [Leave 5 (Raised [''ValueError'', ''Exception'']), Enter 40 :: nat breaker_op])
     = HALF_OPEN
   \<and> half_open_calls (foldl breaker_step (mk_breaker 1 30 1 None)
        [Leave 5 (Raised [''ValueError'', ''Exception'']), Enter 40 :: nat breaker_op])
      \<le> max 0 (half_open_max_calls (foldl breaker_step (mk_breaker 1 30 1 None)
        [Leave 5 (Raised [''ValueError'', ''Exception'']), Enter 40 :: nat breaker_op]))"
proof -
  let ?ops = "[Leave 5 (Raised [''ValueError'', ''Exception'']), Enter 40 :: nat breaker_op]"
  have "state (foldl breaker_step (mk_breaker 1 30 1 None) ?ops) = HALF_OPEN"
    by (simp add: mk_breaker_def settle_def is_instance_def on_failure_def change_state_def check_state_def Let_def)
  then show ?thesis using breaker_automaton[OF refl, of 1 30 1 None ?ops] by blast
qed

text \<open>
  The breaker trips at its threshold and then fails fast: counted failures of a closed breaker
  open it exactly when they reach the threshold, and while the recovery time since the last of them has
  not passed, a call is rejected with the remaining time, without being made and without changing
  anything but the number of rejections.
\<close>

theorem breaker_trips:
  assumes "state b = CLOSED" "failure_count b < max 1 (failure_threshold b)" "counted mro b" "ts \<noteq> []"
  shows "let b' = foldl (\<lambda>b t. fail_at t mro b) b ts
    in state b' = (if failure_threshold b \<le> failure_count b + int (length ts) then OPEN else CLOSED)
       \<and> (state b' = OPEN \<and> t - last ts < recovery_time b \<longrightarrow>
            execute t t' t1 out b' = (Rejected (recovery_time b - (t' - last ts)), reject b'))"
  using failures_accumulate[OF assms(3,1,2,4)]
  by (auto simp: Let_def execute_def check_state_def reject_def)

theorem breaker_trips_witness:
  "execute 20 21 22 (Returned 7 :: nat outcome)
     (foldl (\<lambda>b t. fail_at t [''ValueError'', ''Exception''] b) (mk_breaker 2 30 1 None) [4, 6])
   = (Rejected 15, reject (foldl (\<lambda>b t. fail_at t [''ValueError'', ''Exception''] b) (mk_breaker 2 30 1 None) [4, 6]))"
proof -
  have closed: "state (mk_breaker 2 30 1 None) = CLOSED" "failure_count (mk_breaker 2 30 1 None) = 0"
    "failure_threshold (mk_breaker 2 30 1 None) = 2" "recovery_time (mk_breaker 2 30 1 None) = 30"
    "counted [''ValueError'', ''Exception''] (mk_breaker 2 30 1 None)"
    by (simp_all add: mk_breaker_def counted_def is_instance_def)
  show ?thesis
    using breaker_trips[of "mk_breaker 2 30 1 None" "[''ValueError'', ''Exception'']" "[4, 6]" 20 21 22 "Returned 7 :: nat outcome"] closed
    by (simp add: Let_def)
qed

text \<open>
  C38.  Probes that end uncounted wedge the breaker.  Let the recovery time of an open breaker have
  passed when a call comes, let it be followed by calls entering and ending in any interleaving, and let
  every call that ends in this time raise an excluded exception or be cancelled (calls in flight from
  before included).  Then the breaker stays \<open>HALF_OPEN\<close>, and no slot is ever given back: the slots taken
  are as many as there were calls, up to \<open>half_open_max_calls\<close>.  Once there were that many, every call
  that comes is rejected, however late, changing nothing but the count of rejections.
\<close>

theorem probe_wedges_breaker:
  fixes ops :: "'a breaker_op list"
  assumes "state b = OPEN" "recovery_time b \<le> t0 - last_failure_time b" "half_open_max_calls b = int k"
    and "list_all (uncounted b) ops" "b' = foldl breaker_step b (Enter t0 # ops)"
  shows "state b' = HALF_OPEN \<and> half_open_calls b' = int (min k (Suc (admissions ops))) \<and>
    (k \<le> Suc (admissions ops) \<longrightarrow> (\<forall>t. check_state t b' = (False, reject b')))"
proof -
  let ?b = "snd (check_state t0 b)"
  have b: "state ?b = HALF_OPEN" "half_open_max_calls ?b = int k" "half_open_calls ?b = int (min k 1)"
    "excluded_exceptions ?b = excluded_exceptions b"
    using assms(1-3) by (auto simp: check_state_def change_state_def reject_def Let_def)
  have "uncounted ?b op = uncounted b op" for op :: "'a breaker_op"
    using b(4) by (cases "(b, op)" rule: uncounted.cases) (simp_all add: counted_def)
  then have "list_all (uncounted ?b) ops" using assms(4) by (simp add: list_all_iff)
  from slots_fill[OF b(1-3) this] assms(5) have
    f: "state b' = HALF_OPEN" "half_open_max_calls b' = int k" "half_open_calls b' = int (min k (Suc (admissions ops)))"
    by simp_all
  then show ?thesis by (simp add: check_state_def Let_def)
qed

text \<open>Two slots: one probe is cancelled, one raises an excluded exception.\<close>

theorem probe_wedges_breaker_witness:
  "fst (check_state 1000000 (foldl breaker_step (mk_breaker 1 30 2 (Some [''KeyError''])\<lparr>state := OPEN, last_failure_time := 5\<rparr>)
      (Enter 40 # [Leave 41 (Raised [''CancelledError'', ''BaseException'']), Enter 50,
        Leave 51 (Raised [''KeyError'', ''Exception'']) :: nat breaker_op]))) = False"
  using probe_wedges_breaker[of "mk_breaker 1 30 2 (Some [''KeyError''])\<lparr>state := OPEN, last_failure_time := 5\<rparr>" 40 2
      "[Leave 41 (Raised [''CancelledError'', ''BaseException'']), Enter 50,
        Leave 51 (Raised [''KeyError'', ''Exception'']) :: nat breaker_op]", OF _ _ _ _ refl]
  by (simp add: mk_breaker_def counted_def is_instance_def)

text \<open>
  Retry is bounded and exact: \<open>retry_with_backoff\<close> makes between one and \<open>max_retries + 1\<close> calls,
  every call before the last raised an exception that is retried and not excluded, what comes out is the
  outcome of the last call, without a deadline it stops early only on an outcome that is not retried,
  and every delay is between 0 and \<open>max_delay\<close> stretched by the jitter.
\<close>

theorem retry_bounded:
  assumes "retry_with_backoff max_retries jittered excl c v = Inr (out, ds, n)"
    and "\<And>i. 0 \<le> rand v i \<and> rand v i \<le> 1"
    and "\<not> is_instance excluded_mro (retry_on c)" "\<And>i. call v i \<noteq> Raised excluded_mro"
  shows "1 \<le> n \<and> int n \<le> max_retries + 1 \<and> out = call v (n - 1)
    \<and> (\<forall>i. i + 1 < n \<longrightarrow> retried c excl (call v i))
    \<and> (int n < max_retries + 1 \<and> deadline v = None \<longrightarrow> \<not> retried c excl out)
    \<and> (\<forall>d \<in> set ds. 0 \<le> d \<and> d \<le> max_delay c * (1 + (if jittered then jitter c else 0)))"
proof -
  let ?c = "c\<lparr>attempts := max_retries + 1, jitter := (if jittered then jitter c else 0)\<rparr>"
  let ?v = "if excl \<noteq> [] then v\<lparr>call := guard_call excl \<circ> call v\<rparr> else v"
  obtain out' where run: "retry ?c ?v = Inr (out', ds, n)"
    and out: "out = (if excl \<noteq> [] \<and> out' = Raised excluded_mro then call v (n - 1) else out')"
    using assms(1) by (auto simp: retry_with_backoff_def Let_def split: if_splits sum.splits)
  have valid: "1 \<le> attempts ?c" "0 < base_delay c" "0 \<le> max_delay c" "0 \<le> jitter ?c" "1 \<le> backoff_factor c"
    and loop: "retry_loop ?c ?v 0 = (out', ds, n)"
    using run by (simp_all add: retry_def split: if_splits)
  have guard: "call ?v i = guard_call excl (call v i)" for i
    by (auto simp: guard_call_def is_instance_def split: outcome.splits)
  have same: "retryable (retry_on c) (call ?v i) \<longleftrightarrow> retried c excl (call v i)" for i
    unfolding guard retried_def using assms(3)
    by (auto simp: guard_call_def retryable_def split: outcome.splits)
  have rep: "retry_report ?c ?v 0 (out', ds, n)" using retry_loop_report[of ?c ?v 0] loop by simp
  have n: "0 < n" "int n \<le> max_retries + 1" "out' = call ?v (n - 1)"
    and early: "\<And>i. i + 1 < n \<Longrightarrow> retried c excl (call v i)"
    and last: "int n < max_retries + 1 \<Longrightarrow> deadline v = None \<Longrightarrow> \<not> retried c excl (call v (n - 1))"
    and ds: "\<And>d. d \<in> set ds \<Longrightarrow> \<exists>i a. d = delay_of ?c (rand v i) a"
    using rep valid(1) same by (auto simp: retry_report_def split: if_splits)
  have res: "out = call v (n - 1)"
    using out n(3) guard[of "n - 1"] assms(4)[of "n - 1"]
    by (auto simp: guard_call_def is_instance_def split: outcome.splits if_splits)
  have "0 \<le> d \<and> d \<le> max_delay c * (1 + jitter ?c)" if mem: "d \<in> set ds" for d
  proof -
    obtain i a where d: "d = delay_of ?c (rand v i) a" using ds[OF mem] by blast
    show ?thesis
      unfolding d using delay_bounds[of ?c "rand v i" a] valid assms(2)[of i] by simp
  qed
  then show ?thesis using n early last res by auto
qed

definition ex_retry :: retry_config where
  "ex_retry = \<lparr>attempts = 0, base_delay = 1, max_delay = 3, backoff_factor = 2,
    retry_on = [''TimeoutError''], jitter = 1\<rparr>"

definition ex_calls :: "nat surroundings" where
  "ex_calls = \<lparr>call = (\<lambda>i. if i = 2 then Returned 9 else Raised [''TimeoutError'', ''Exception'']),
    rand = (\<lambda>_. 1), deadline = None, clock_before = (\<lambda>_. 0), clock_after = (\<lambda>_. 0),
    cancelled_mro = [''CancelledError'', ''BaseException'']\<rparr>"

theorem retry_bounded_witness:
  "retry_with_backoff 4 True [''ValueError''] ex_retry ex_calls = Inr (Returned 9, [2, 4], 3)
   \<and> \<not> retried ex_retry [''ValueError''] (Returned 9 :: nat outcome)"
proof -
  have run: "retry_with_backoff 4 True [''ValueError''] ex_retry ex_calls = Inr (Returned 9, [2, 4], 3)"
    by (simp add: retry_with_backoff_def retry_def ex_retry_def ex_calls_def retry_loop.simps
        guard_call_def is_instance_def delay_of_def excluded_mro_def Let_def)
  have env: "0 \<le> rand ex_calls i \<and> rand ex_calls i \<le> 1" "call ex_calls i \<noteq> Raised excluded_mro"
    "\<not> is_instance excluded_mro (retry_on ex_retry)" "deadline ex_calls = None" for i
    by (simp_all add: ex_calls_def ex_retry_def is_instance_def excluded_mro_def)
  have "\<not> retried ex_retry [''ValueError''] (Returned 9 :: nat outcome)"
  proof -
    have "int 3 < 4 + 1 \<and> deadline ex_calls = None
        \<longrightarrow> \<not> retried ex_retry [''ValueError''] (Returned 9 :: nat outcome)"
      using retry_bounded[OF run env(1,3,2)] by blast
    then show ?thesis using env(4) by simp
  qed
  then show ?thesis using run by blast
qed

end
