(* ===== verification/Lndl_Lexer.thy ===== *)
theory Lndl_Lexer
  imports Prelude
begin

text \<open>
  The LNDL tokenizer: \<open>lionagi/lndl/lexer.py\<close>.

  The state of the lexer is the text from the current position on, the line and the column.
  Characters are the code points 0 to 255, classified as Python's \<open>str\<close> methods classify them.
  \<open>lex_step\<close> is one iteration of the loop of \<open>tokenize\<close>: the token it appends, if any, the flag
  \<open>in_out_block\<close> and the state after it.  The lemmas show that each iteration consumes at least one
  character, where every token lies in the text, and that printing tokens and lexing them again gives
  the same tokens, strings with all their escapes included.
\<close>

section \<open>Character classes\<close>

definition is_alpha :: "char \<Rightarrow> bool" where
  "is_alpha c \<longleftrightarrow>
     (let n = code c in
      65 \<le> n \<and> n \<le> 90 \<or> 97 \<le> n \<and> n \<le> 122 \<or> n = 170 \<or> n = 181 \<or> n = 186
      \<or> 192 \<le> n \<and> n \<le> 214 \<or> 216 \<le> n \<and> n \<le> 246 \<or> 248 \<le> n)"

definition is_digit :: "char \<Rightarrow> bool" where
  "is_digit c \<longleftrightarrow> (let n = code c in 48 \<le> n \<and> n \<le> 57 \<or> n = 178 \<or> n = 179 \<or> n = 185)"

definition is_alnum :: "char \<Rightarrow> bool" where
  "is_alnum c \<longleftrightarrow> is_alpha c \<or> is_digit c \<or> code c \<in> {188, 189, 190}"

definition newline :: char where "newline = CHR 0x0A"
definition backslash :: char where "backslash = CHR 0x5C"
definition dquote :: char where "dquote = CHR 0x22"
definition squote :: char where "squote = CHR 0x27"

definition is_blank :: "char \<Rightarrow> bool" where
  "is_blank c \<longleftrightarrow> c \<in> {CHR '' '', CHR 0x09, CHR 0x0D}"

definition is_ident :: "char \<Rightarrow> bool" where
  "is_ident c \<longleftrightarrow> is_alnum c \<or> c = CHR ''_''"

section \<open>Tokens\<close>

datatype token_type =
    LVAR_OPEN | LVAR_CLOSE | LACT_OPEN | LACT_CLOSE | OUT_OPEN | OUT_CLOSE | ID | NUM | STRING
  | DOT | COMMA | COLON | LBRACKET | RBRACKET | LPAREN | RPAREN | GT | NEWLINE | EOF

record token =
  ttype :: token_type
  tvalue :: string
  tline :: int
  tcolumn :: int

section \<open>State\<close>

record lexer =
  rest :: string
  line :: int
  column :: int

definition mk_lexer :: "string \<Rightarrow> lexer" where
  "mk_lexer text = \<lparr>rest = text, line = 1, column = 1\<rparr>"

definition current_char :: "lexer \<Rightarrow> char option" where
  "current_char s = (case rest s of [] \<Rightarrow> None | c # _ \<Rightarrow> Some c)"

definition peek_char :: "nat \<Rightarrow> lexer \<Rightarrow> char option" where
  "peek_char k s = (if k < length (rest s) then Some (rest s ! k) else None)"

definition advance :: "lexer \<Rightarrow> lexer" where
  "advance s =
     (if current_char s = Some newline then s\<lparr>rest := tl (rest s), line := line s + 1, column := 0\<rparr>
      else s\<lparr>rest := tl (rest s), column := column s + 1\<rparr>)"

lemma rest_advance [simp]: "rest (advance s) = tl (rest s)"
  by (simp add: advance_def)

text \<open>The reading loops: as long as the current character satisfies \<open>P\<close>, it is taken.\<close>

function read_while :: "(char \<Rightarrow> bool) \<Rightarrow> lexer \<Rightarrow> string \<times> lexer" where
  "read_while P s =
     (case rest s of
        [] \<Rightarrow> ([], s)
      | c # _ \<Rightarrow>
          if P c then (case read_while P (advance s) of (r, s') \<Rightarrow> (c # r, s')) else ([], s))"
  by pat_completeness auto
termination
  by (relation "measure (\<lambda>(_, s). length (rest s))") auto

declare read_while.simps [simp del]

definition skip_whitespace :: "lexer \<Rightarrow> lexer" where
  "skip_whitespace s = snd (read_while is_blank s)"

definition read_identifier :: "lexer \<Rightarrow> string \<times> lexer" where
  "read_identifier s = read_while is_ident s"

definition is_num_char :: "char \<Rightarrow> bool" where
  "is_num_char c \<longleftrightarrow> is_digit c \<or> c = CHR ''.''"

definition is_sign :: "char \<Rightarrow> bool" where
  "is_sign c \<longleftrightarrow> c = CHR ''+'' \<or> c = CHR ''-''"

text \<open>The exponent is taken only when digits follow it.\<close>

definition exponent_ahead :: "lexer \<Rightarrow> bool" where
  "exponent_ahead s \<longleftrightarrow>
     (case current_char s of
        None \<Rightarrow> False
      | Some c \<Rightarrow>
          (c = CHR ''e'' \<or> c = CHR ''E'') \<and>
          (case peek_char 1 s of
             None \<Rightarrow> False
           | Some d \<Rightarrow>
               if is_sign d then (case peek_char 2 s of None \<Rightarrow> False | Some d' \<Rightarrow> is_digit d')
               else is_digit d))"

definition read_exponent :: "lexer \<Rightarrow> string \<times> lexer" where
  "read_exponent s =
     (if exponent_ahead s
      then (let c = hd (rest s); s1 = advance s;
                (sg, s2) = (case current_char s1 of
                              None \<Rightarrow> ([], s1)
                            | Some d \<Rightarrow> if is_sign d then ([d], advance s1) else ([], s1));
                (ds, s3) = read_while is_digit s2
            in (c # sg @ ds, s3))
      else ([], s))"

definition read_number :: "lexer \<Rightarrow> string \<times> lexer" where
  "read_number s =
     (let (ds, s1) = read_while is_num_char s; (ex, s2) = read_exponent s1 in (ds @ ex, s2))"

definition unescape :: "char \<Rightarrow> char" where
  "unescape c =
     (if c = CHR ''n'' then newline
      else if c = CHR ''t'' then CHR 0x09
      else if c = CHR ''r'' then CHR 0x0D
      else c)"

function read_string_body :: "char \<Rightarrow> lexer \<Rightarrow> string \<times> lexer" where
  "read_string_body q s =
     (case rest s of
        [] \<Rightarrow> ([], s)
      | c # _ \<Rightarrow>
          if c = q then ([], s)
          else if c = backslash
          then (let s1 = advance s
                in case rest s1 of
                     [] \<Rightarrow> ([], s1)
                   | d # _ \<Rightarrow>
                       (case read_string_body q (advance s1) of (r, s') \<Rightarrow> (unescape d # r, s')))
          else (case read_string_body q (advance s) of (r, s') \<Rightarrow> (c # r, s')))"
  by pat_completeness auto
termination
  by (relation "measure (\<lambda>(_, s). length (rest s))") auto

declare read_string_body.simps [simp del]

definition read_string :: "lexer \<Rightarrow> string \<times> lexer" where
  "read_string s =
     (let q = hd (rest s); (r, s1) = read_string_body q (advance s)
      in (r, if current_char s1 = Some q then advance s1 else s1))"

section \<open>One iteration\<close>

definition tok :: "token_type \<Rightarrow> string \<Rightarrow> lexer \<Rightarrow> token" where
  "tok ty v s = \<lparr>ttype = ty, tvalue = v, tline = line s, tcolumn = column s\<rparr>"

definition jump :: "nat \<Rightarrow> lexer \<Rightarrow> lexer" where
  "jump k s = s\<lparr>rest := drop k (rest s), column := column s + int k\<rparr>"

definition punctuation :: "char \<Rightarrow> token_type option" where
  "punctuation c =
     (if c = CHR ''.'' then Some DOT
      else if c = CHR '','' then Some COMMA
      else if c = CHR '':'' then Some COLON
      else if c = CHR ''['' then Some LBRACKET
      else if c = CHR '']'' then Some RBRACKET
      else if c = CHR ''('' then Some LPAREN
      else if c = CHR '')'' then Some RPAREN
      else if c = CHR ''}'' then Some OUT_CLOSE
      else if c = CHR ''>'' then Some GT
      else None)"

definition lex_tag :: "lexer \<Rightarrow> token option \<times> lexer" where
  "lex_tag s =
     (if take 7 (rest s) = ''</lvar>'' then (Some (tok LVAR_CLOSE ''</lvar>'' s), jump 7 s)
      else if take 7 (rest s) = ''</lact>'' then (Some (tok LACT_CLOSE ''</lact>'' s), jump 7 s)
      else if take 5 (rest s) = ''<lvar'' then (Some (tok LVAR_OPEN ''<lvar'' s), jump 5 s)
      else if take 5 (rest s) = ''<lact'' then (Some (tok LACT_OPEN ''<lact'' s), jump 5 s)
      else (None, advance s))"

definition next_is_digit :: "lexer \<Rightarrow> bool" where
  "next_is_digit s = (case peek_char 1 s of None \<Rightarrow> False | Some d \<Rightarrow> is_digit d)"

definition lex_step :: "bool \<Rightarrow> char \<Rightarrow> lexer \<Rightarrow> token option \<times> bool \<times> lexer" where
  "lex_step in_out c s =
     (if is_blank c then (None, in_out, skip_whitespace s)
      else if c = newline then (Some (tok NEWLINE [newline] s), in_out, advance s)
      else if c = CHR ''<'' then (case lex_tag s of (t, s') \<Rightarrow> (t, in_out, s'))
      else if take 4 (rest s) = ''OUT{'' then (Some (tok OUT_OPEN ''OUT{'' s), True, jump 4 s)
      else if is_alpha c \<or> c = CHR ''_''
        then (case read_identifier s of (v, s') \<Rightarrow> (Some (tok ID v s), in_out, s'))
      else if c = CHR ''-'' \<and> in_out \<and> next_is_digit s
        then (case read_number (advance s) of (v, s') \<Rightarrow> (Some (tok NUM (CHR ''-'' # v) s), in_out, s'))
      else if is_digit c
        then (case read_number s of (v, s') \<Rightarrow> (Some (tok NUM v s), in_out, s'))
      else if (c = dquote \<or> c = squote) \<and> in_out
        then (case read_string s of (v, s') \<Rightarrow> (Some (tok STRING v s), in_out, s'))
      else (map_option (\<lambda>ty. tok ty [c] s) (punctuation c),
            (if c = CHR ''}'' then False else in_out), advance s))"

subsection \<open>Progress\<close>

definition ends_shorter :: "lexer \<Rightarrow> lexer \<Rightarrow> bool" where
  "ends_shorter s' s \<longleftrightarrow> length (rest s') < length (rest s)"

lemma read_while_length: "length (rest (snd (read_while P s))) \<le> length (rest s)"
proof (induction P s rule: read_while.induct)
  case (1 P s)
  show ?case
  proof (cases "rest s")
    case (Cons c r)
    show ?thesis
    proof (cases "P c")
      case True
      then show ?thesis using "1.IH"[OF Cons True] Cons
        by (subst read_while.simps) (auto split: prod.splits)
    qed (subst read_while.simps, simp add: Cons)
  qed (subst read_while.simps, simp)
qed

lemma read_while_shorter:
  "rest s = c # r \<Longrightarrow> P c \<Longrightarrow> length (rest (snd (read_while P s))) < length (rest s)"
  using read_while_length[of P "advance s"]
  by (subst read_while.simps) (auto split: prod.splits)

lemma read_exponent_length: "length (rest (snd (read_exponent s))) \<le> length (rest s)"
  using read_while_length[of is_digit "advance s"] read_while_length[of is_digit "advance (advance s)"]
  by (auto simp: read_exponent_def Let_def split: prod.splits option.splits)

lemma read_number_length: "length (rest (snd (read_number s))) \<le> length (rest s)"
proof -
  obtain ds s1 where a: "read_while is_num_char s = (ds, s1)" by force
  show ?thesis using read_while_length[of is_num_char s] read_exponent_length[of s1] a
    by (auto simp: read_number_def Let_def split: prod.splits)
qed

lemma read_number_shorter:
  assumes "rest s = c # r" "is_digit c"
  shows "length (rest (snd (read_number s))) < length (rest s)"
proof -
  obtain ds s1 where a: "read_while is_num_char s = (ds, s1)" by force
  have "length (rest s1) < length (rest s)"
    using read_while_shorter[OF assms(1), of is_num_char] assms(2) a by (simp add: is_num_char_def)
  then show ?thesis using read_exponent_length[of s1] a
    by (auto simp: read_number_def Let_def split: prod.splits)
qed

lemma read_string_body_length: "length (rest (snd (read_string_body q s))) \<le> length (rest s)"
proof (induction q s rule: read_string_body.induct)
  case (1 q s)
  note unfold = read_string_body.simps[of q s]
  show ?case
  proof (cases "rest s")
    case (Cons c r)
    consider "c = q" | "c \<noteq> q" "c = backslash" | "c \<noteq> q" "c \<noteq> backslash" by blast
    then show ?thesis
    proof cases
      case 2
      show ?thesis
      proof (cases r)
        case (Cons d r')
        then have "length (rest (snd (read_string_body q (advance (advance s))))) \<le> length (rest (advance (advance s)))"
          using "1.IH"(1)[OF \<open>rest s = c # r\<close> 2 refl] \<open>rest s = c # r\<close> by simp
        then show ?thesis using \<open>rest s = c # r\<close> Cons 2 unfold by (auto split: prod.splits)
      qed (use Cons 2 unfold in simp)
    next
      case 3
      then show ?thesis using "1.IH"(2)[OF Cons 3] Cons unfold by (auto split: prod.splits)
    qed (use Cons unfold in simp)
  qed (simp add: unfold)
qed

lemma read_string_shorter: "rest s \<noteq> [] \<Longrightarrow> length (rest (snd (read_string s))) < length (rest s)"
proof -
  assume ne: "rest s \<noteq> []"
  obtain r s1 where body: "read_string_body (hd (rest s)) (advance s) = (r, s1)" by force
  have "length (rest s1) \<le> length (rest s) - 1"
    using read_string_body_length[of "hd (rest s)" "advance s"] body by simp
  moreover have "0 < length (rest s)" using ne by simp
  ultimately have "length (rest s1) < length (rest s)" by linarith
  then show ?thesis using body by (auto simp: read_string_def Let_def)
qed

lemma jump_shorter: "0 < k \<Longrightarrow> rest s \<noteq> [] \<Longrightarrow> length (rest (jump k s)) < length (rest s)"
  by (simp add: jump_def)

lemma advance_shorter: "rest s \<noteq> [] \<Longrightarrow> length (rest (advance s)) < length (rest s)"
  by simp

lemma lex_tag_shorter: "rest s \<noteq> [] \<Longrightarrow> length (rest (snd (lex_tag s))) < length (rest s)"
  unfolding lex_tag_def using jump_shorter[of 7 s] jump_shorter[of 5 s] advance_shorter[of s]
  by (simp only: snd_conv split: if_split) simp

lemma lex_step_shorter:
  assumes "rest s = c # r"
  shows "length (rest (snd (snd (lex_step b c s)))) < length (rest s)"
proof -
  have ne: "rest s \<noteq> []" using assms by simp
  obtain t1 s1 where 1: "lex_tag s = (t1, s1)" by force
  obtain t2 s2 where 2: "read_identifier s = (t2, s2)" by force
  obtain t3 s3 where 3: "read_number (advance s) = (t3, s3)" by force
  obtain t4 s4 where 4: "read_number s = (t4, s4)" by force
  obtain t5 s5 where 5: "read_string s = (t5, s5)" by force
  have blank: "length (rest (skip_whitespace s)) < length (rest s)" if "is_blank c"
    using read_while_shorter[of s c r is_blank, OF assms that] by (simp add: skip_whitespace_def)
  have ident: "length (rest s2) < length (rest s)" if "is_alpha c \<or> c = CHR ''_''"
    using read_while_shorter[OF assms, of is_ident] that 2
    by (auto simp: read_identifier_def is_ident_def is_alnum_def)
  have num: "length (rest s4) < length (rest s)" if "is_digit c"
    using read_number_shorter[OF assms that] 4 by simp
  have minus: "length (rest s3) < length (rest s)"
    using read_number_length[of "advance s"] advance_shorter[OF ne] 3 by simp
  have str: "length (rest s5) < length (rest s)" using read_string_shorter[OF ne] 5 by simp
  have tag: "length (rest s1) < length (rest s)" using lex_tag_shorter[OF ne] 1 by simp
  have four: "length (rest (jump 4 s)) < length (rest s)" using jump_shorter[OF _ ne] by simp
  show ?thesis
    unfolding lex_step_def 1 2 3 4 5
    using blank ident num minus str tag four advance_shorter[OF ne]
    by (simp only: prod.case snd_conv split: if_split) blast
qed

lemma lex_step_less:
  "(t, b', s') = lex_step b c s \<Longrightarrow> rest s = c # r \<Longrightarrow> length (rest s') < Suc (length r)"
  using lex_step_shorter[of s c r b] by (metis length_Cons snd_conv)

function lex_loop :: "bool \<Rightarrow> lexer \<Rightarrow> token list" where
  "lex_loop in_out s =
     (case rest s of
        [] \<Rightarrow> [tok EOF [] s]
      | c # _ \<Rightarrow>
          (case lex_step in_out c s of
             (Some t, b, s') \<Rightarrow> t # lex_loop b s'
           | (None, b, s') \<Rightarrow> lex_loop b s'))"
  by pat_completeness auto
termination
  by (relation "measure (\<lambda>(_, s). length (rest s))") (auto dest: lex_step_less)

declare lex_loop.simps [simp del]

definition tokenize :: "string \<Rightarrow> token list" where
  "tokenize text = lex_loop False (mk_lexer text)"

section \<open>Where the tokens lie\<close>

text \<open>
  The position the lexer reports after the prefix \<open>pre\<close>: the column counts from 1 on the first line
  and from 0 on every later one.
\<close>

definition line_after :: "string \<Rightarrow> int" where
  "line_after pre = 1 + int (count_list pre newline)"

definition column_after :: "string \<Rightarrow> int" where
  "column_after pre =
     (if newline \<in> set pre then int (length (takeWhile (\<lambda>c. c \<noteq> newline) (rev pre)))
      else 1 + int (length pre))"

definition at_prefix :: "string \<Rightarrow> string \<Rightarrow> lexer \<Rightarrow> bool" where
  "at_prefix text pre s \<longleftrightarrow>
     text = pre @ rest s \<and> line s = line_after pre \<and> column s = column_after pre"

lemma at_prefix_start [simp]: "at_prefix text [] (mk_lexer text)"
  by (simp add: at_prefix_def mk_lexer_def line_after_def column_after_def)

lemma at_prefix_advance:
  assumes "at_prefix text pre s" "rest s = c # r"
  shows "at_prefix text (pre @ [c]) (advance s)"
  using assms
  by (auto simp: at_prefix_def advance_def current_char_def line_after_def column_after_def)

text \<open>\<open>w\<close> is what lies between \<open>s\<close> and \<open>s'\<close>.\<close>

definition consumed :: "lexer \<Rightarrow> string \<Rightarrow> lexer \<Rightarrow> bool" where
  "consumed s w s' \<longleftrightarrow>
     rest s = w @ rest s' \<and>
     (\<forall>text pre. at_prefix text pre s \<longrightarrow> at_prefix text (pre @ w) s')"

lemma consumed_refl [simp]: "consumed s [] s"
  by (simp add: consumed_def)

lemma consumed_advance: "rest s = c # r \<Longrightarrow> consumed s [c] (advance s)"
  using at_prefix_advance by (auto simp: consumed_def)

lemma consumed_trans: "consumed s v s1 \<Longrightarrow> consumed s1 w s2 \<Longrightarrow> consumed s (v @ w) s2"
  by (simp add: consumed_def) (metis append.assoc)

lemma consumed_step: "rest s = c # r \<Longrightarrow> consumed (advance s) w s2 \<Longrightarrow> consumed s (c # w) s2"
  using consumed_trans[OF consumed_advance, of s c r w s2] by simp

lemma consumed_jump:
  "take k (rest s) = w \<Longrightarrow> length w = k \<Longrightarrow> newline \<notin> set w \<Longrightarrow> consumed s w (jump k s)"
proof (induction k arbitrary: s w)
  case 0
  then show ?case by (simp add: jump_def)
next
  case (Suc k)
  then obtain c r where r: "rest s = c # r" by (cases "rest s") auto
  have w: "w = c # take k r" using Suc.prems(1) r by simp
  have "consumed (advance s) (take k r) (jump k (advance s))"
    using Suc.IH[of "advance s" "take k r"] Suc.prems r w by simp
  moreover have "jump k (advance s) = jump (Suc k) s"
    using Suc.prems(3) r w by (auto simp: jump_def advance_def current_char_def)
  ultimately show ?case using consumed_step[OF r, of "take k r" "jump (Suc k) s"] w by simp
qed

lemma consumed_read_while: "read_while P s = (v, s') \<Longrightarrow> consumed s v s'"
proof (induction P s arbitrary: v rule: read_while.induct)
  case (1 P s)
  note unfold = read_while.simps[of P s]
  show ?case
  proof (cases "rest s")
    case (Cons c r)
    show ?thesis
    proof (cases "P c")
      case True
      then obtain v' where "read_while P (advance s) = (v', s')" "v = c # v'"
        using 1(2) Cons unfold by (auto split: prod.splits)
      then show ?thesis using "1.IH"[OF Cons True] consumed_step[OF Cons] by blast
    qed (use 1(2) Cons unfold in simp)
  qed (use 1(2) unfold in simp)
qed

lemma consumed_read_exponent: "read_exponent s = (v, s') \<Longrightarrow> consumed s v s'"
proof (cases "exponent_ahead s")
  case True
  assume run: "read_exponent s = (v, s')"
  from True obtain c r where r: "rest s = c # r"
    by (cases "rest s") (auto simp: exponent_ahead_def current_char_def)
  obtain d r' where r': "r = d # r'"
    using True r by (cases r) (auto simp: exponent_ahead_def current_char_def peek_char_def split: if_splits)
  let ?s1 = "advance s"
  obtain ds s3 where ds: "read_while is_digit (if is_sign d then advance ?s1 else ?s1) = (ds, s3)" by force
  have "consumed (if is_sign d then advance ?s1 else ?s1) ds s3" using ds by (rule consumed_read_while)
  moreover have "rest ?s1 = d # r'" using r r' by simp
  ultimately have "consumed ?s1 ((if is_sign d then [d] else []) @ ds) s3"
    using consumed_step[of ?s1 d r' ds s3] by (cases "is_sign d") auto
  then have "consumed s (c # (if is_sign d then [d] else []) @ ds) s3" by (rule consumed_step[OF r])
  moreover have "v = c # (if is_sign d then [d] else []) @ ds \<and> s' = s3"
    using run True ds r r' by (cases "is_sign d") (auto simp: read_exponent_def current_char_def)
  ultimately show ?thesis by simp
qed (auto simp: read_exponent_def)

lemma consumed_read_number: "read_number s = (v, s') \<Longrightarrow> consumed s v s'"
  by (auto simp: read_number_def Let_def split: prod.splits
      intro: consumed_trans consumed_read_while consumed_read_exponent)

lemma consumed_string_body:
  "read_string_body q s = (v, s') \<Longrightarrow> \<exists>w. consumed s w s'"
proof (induction q s arbitrary: v rule: read_string_body.induct)
  case (1 q s)
  note unfold = read_string_body.simps[of q s] and run = 1(3)
  show ?case
  proof (cases "rest s")
    case Nil
    then have "s' = s" using run unfold by simp
    then show ?thesis using consumed_refl by blast
  next
    case (Cons c r)
    consider "c = q" | "c \<noteq> q" "c = backslash" "r = []"
      | d r' where "c \<noteq> q" "c = backslash" "r = d # r'" | "c \<noteq> q" "c \<noteq> backslash"
      by (cases r) auto
    then show ?thesis
    proof cases
      case 1
      then have "s' = s" using run Cons unfold by simp
      then show ?thesis using consumed_refl by blast
    next
      case 2
      then have "s' = advance s" using run Cons unfold by simp
      then show ?thesis using consumed_advance[OF Cons] by blast
    next
      case (3 d r')
      have d: "rest (advance s) = d # r'" using Cons 3 by simp
      obtain v' where "read_string_body q (advance (advance s)) = (v', s')"
        using run Cons 3 unfold by (auto split: prod.splits)
      then obtain w where "consumed (advance (advance s)) w s'"
        using "1.IH"(1)[OF Cons 3(1,2) refl d] by blast
      then show ?thesis using consumed_step[OF Cons consumed_step[OF d]] by blast
    next
      case 4
      obtain v' where "read_string_body q (advance s) = (v', s')"
        using run Cons 4 unfold by (auto split: prod.splits)
      then show ?thesis using "1.IH"(2)[OF Cons 4] consumed_step[OF Cons] by blast
    qed
  qed
qed

lemma consumed_read_string: "rest s = c # r \<Longrightarrow> read_string s = (v, s') \<Longrightarrow> \<exists>w. consumed s w s'"
proof -
  assume r: "rest s = c # r" and run: "read_string s = (v, s')"
  obtain b s1 where b: "read_string_body c (advance s) = (b, s1)" by force
  then obtain w where w: "consumed (advance s) w s1" using consumed_string_body by blast
  have s': "s' = (if current_char s1 = Some c then advance s1 else s1)"
    using run r b by (simp add: read_string_def Let_def)
  show ?thesis
  proof (cases "current_char s1 = Some c")
    case True
    then obtain r1 where "rest s1 = c # r1" by (auto simp: current_char_def split: list.splits)
    then have "consumed (advance s) (w @ [c]) (advance s1)"
      using w consumed_advance consumed_trans by blast
    then show ?thesis using consumed_step[OF r] s' True by auto
  qed (use consumed_step[OF r w] s' in auto)
qed

text \<open>
  A token is located at a prefix of the text when its line and column are those after the prefix and
  its text follows there; a string literal differs from its text by the quotes and the escapes, and
  a string starts with its quote.
\<close>

definition located :: "string \<Rightarrow> token \<Rightarrow> bool" where
  "located text t \<longleftrightarrow>
     (\<exists>pre suf. text = pre @ suf \<and> tline t = line_after pre \<and> tcolumn t = column_after pre \<and>
        (if ttype t = STRING then suf \<noteq> [] \<and> hd suf \<in> {dquote, squote}
         else take (length (tvalue t)) suf = tvalue t))"

lemma located_tok:
  assumes "at_prefix text pre s" "ty \<noteq> STRING" "take (length v) (rest s) = v"
  shows "located text (tok ty v s)"
  unfolding located_def
  by (rule exI[of _ pre], rule exI[of _ "rest s"]) (use assms in \<open>auto simp: at_prefix_def tok_def\<close>)

lemma located_consumed:
  assumes "at_prefix text pre s" "ty \<noteq> STRING" "consumed s v s'"
  shows "located text (tok ty v s)"
  using assms by (intro located_tok) (auto simp: consumed_def)

lemma consumed_at: "consumed s w s' \<Longrightarrow> at_prefix text pre s \<Longrightarrow> at_prefix text (pre @ w) s'"
  by (simp add: consumed_def)

text \<open>What one iteration does: it consumes text, and the token it appends lies where it began.\<close>

definition sound_step :: "lexer \<Rightarrow> token option \<times> lexer \<Rightarrow> bool" where
  "sound_step s r \<longleftrightarrow>
     (\<exists>w. consumed s w (snd r)) \<and>
     (\<forall>t text pre. fst r = Some t \<longrightarrow> at_prefix text pre s \<longrightarrow> located text t \<and> ttype t \<noteq> EOF)"

lemma sound_none: "consumed s w s' \<Longrightarrow> sound_step s (None, s')"
  by (auto simp: sound_step_def)

lemma sound_tok: "consumed s v s' \<Longrightarrow> ty \<notin> {STRING, EOF} \<Longrightarrow> sound_step s (Some (tok ty v s), s')"
  using located_consumed[of _ _ s ty v s'] by (auto simp: sound_step_def) (simp add: tok_def)

lemma sound_jump:
  assumes "take k (rest s) = v" "length v = k" "newline \<notin> set v" "ty \<notin> {STRING, EOF}"
  shows "sound_step s (Some (tok ty v s), jump k s)"
  using sound_tok[OF consumed_jump[OF assms(1,2,3)] assms(4)] .

lemma sound_tag: "rest s = c # r \<Longrightarrow> sound_step s (lex_tag s)"
  using sound_jump[where k = 7 and s = s and ty = LVAR_CLOSE and v = "''</lvar>''"]
    sound_jump[where k = 7 and s = s and ty = LACT_CLOSE and v = "''</lact>''"]
    sound_jump[where k = 5 and s = s and ty = LVAR_OPEN and v = "''<lvar''"]
    sound_jump[where k = 5 and s = s and ty = LACT_OPEN and v = "''<lact''"]
    sound_none[OF consumed_advance, of s c r]
  by (simp add: lex_tag_def newline_def)

lemma sound_step_string:
  assumes "rest s = c # r" "c = dquote \<or> c = squote" "read_string s = (v, s')"
  shows "sound_step s (Some (tok STRING v s), s')"
proof -
  obtain w where "consumed s w s'" using consumed_read_string[OF assms(1,3)] by blast
  moreover have "located whole (tok STRING v s)" if "at_prefix whole pre s" for whole pre
    unfolding located_def
    by (rule exI[of _ pre], rule exI[of _ "rest s"])
       (use assms that in \<open>auto simp: at_prefix_def tok_def\<close>)
  ultimately show ?thesis by (auto simp: sound_step_def tok_def)
qed

lemma lex_step_sound:
  assumes r: "rest s = c # r" and step: "lex_step b c s = (t, b', s')"
  shows "sound_step s (t, s')"
proof -
  obtain t1 s1 where 1: "lex_tag s = (t1, s1)" by force
  obtain t2 s2 where 2: "read_identifier s = (t2, s2)" by force
  obtain t3 s3 where 3: "read_number (advance s) = (t3, s3)" by force
  obtain t4 s4 where 4: "read_number s = (t4, s4)" by force
  obtain t5 s5 where 5: "read_string s = (t5, s5)" by force
  obtain t6 s6 where 6: "read_while is_blank s = (t6, s6)" by force
  have blank: "sound_step s (None, skip_whitespace s)"
    using sound_none[OF consumed_read_while[OF 6]] 6 by (simp add: skip_whitespace_def)
  have nl: "sound_step s (Some (tok NEWLINE [newline] s), advance s)" if "c = newline"
    using sound_tok[OF consumed_advance[OF r], of NEWLINE] that by simp
  have tag: "sound_step s (t1, s1)" using sound_tag[OF r] 1 by simp
  have out: "sound_step s (Some (tok OUT_OPEN ''OUT{'' s), jump 4 s)" if "take 4 (rest s) = ''OUT{''"
    using sound_jump[OF that] by (simp add: newline_def)
  have ident: "sound_step s (Some (tok ID t2 s), s2)"
    using sound_tok[OF consumed_read_while] 2 by (simp add: read_identifier_def)
  have minus: "sound_step s (Some (tok NUM (CHR ''-'' # t3) s), s3)" if "c = CHR ''-''"
    using sound_tok[OF consumed_step[OF r consumed_read_number[OF 3]]] that by simp
  have num: "sound_step s (Some (tok NUM t4 s), s4)"
    using sound_tok[OF consumed_read_number[OF 4]] by simp
  have str: "sound_step s (Some (tok STRING t5 s), s5)" if "c = dquote \<or> c = squote"
    using sound_step_string[OF r that 5] .
  have punct: "sound_step s (map_option (\<lambda>ty. tok ty [c] s) (punctuation c), advance s)"
  proof (cases "punctuation c")
    case (Some ty)
    then have "ty \<notin> {STRING, EOF}" by (auto simp: punctuation_def split: if_splits)
    then show ?thesis using sound_tok[OF consumed_advance[OF r], of ty] Some by simp
  qed (simp add: sound_none[OF consumed_advance[OF r]])
  have "sound_step s (fst (lex_step b c s), snd (snd (lex_step b c s)))"
    unfolding lex_step_def 1 2 3 4 5
    using blank nl tag out ident minus num str punct
    by (simp only: prod.case fst_conv snd_conv split: if_split) blast
  then show ?thesis using step by simp
qed

lemma lex_loop_sound:
  "at_prefix text pre s \<Longrightarrow>
     (\<forall>t \<in> set (lex_loop b s). located text t) \<and>
     (\<exists>ts e. lex_loop b s = ts @ [e] \<and> ttype e = EOF \<and> (\<forall>t \<in> set ts. ttype t \<noteq> EOF))"
proof (induction b s arbitrary: pre rule: lex_loop.induct)
  case (1 b s)
  note unfold = lex_loop.simps[of b s]
  show ?case
  proof (cases "rest s")
    case Nil
    have "located text (tok EOF [] s)" using located_tok[OF 1(3), of EOF "[]"] by simp
    moreover have "ttype (tok EOF [] s) = EOF" by (simp add: tok_def)
    ultimately show ?thesis using Nil unfold by simp
  next
    case (Cons c r)
    obtain t b' s' where step: "lex_step b c s = (t, b', s')" by (metis prod_cases3)
    have sound: "sound_step s (t, s')" by (rule lex_step_sound[OF Cons step])
    then obtain w where "consumed s w s'" by (auto simp: sound_step_def)
    then have here: "at_prefix text (pre @ w) s'" using 1(3) by (rule consumed_at)
    show ?thesis
    proof (cases t)
      case None
      then show ?thesis using "1.IH"(1)[OF Cons step[symmetric] None refl here] Cons unfold step by simp
    next
      case (Some a)
      have a: "located text a" "ttype a \<noteq> EOF" using sound Some 1(3) by (auto simp: sound_step_def)
      obtain ts e where "lex_loop b' s' = ts @ [e]" "ttype e = EOF" "\<forall>t \<in> set ts. ttype t \<noteq> EOF"
        and "\<forall>t \<in> set (lex_loop b' s'). located text t"
        using "1.IH"(2)[OF Cons step[symmetric] Some refl here] by blast
      moreover have "lex_loop b s = a # lex_loop b' s'" using Cons unfold step Some by simp
      ultimately show ?thesis using a
        by (intro conjI exI[of _ "a # ts"] exI[of _ e]) auto
    qed
  qed
qed

text \<open>
  \<open>Lexer.tokenize\<close> reports where every token lies: the text splits at the token's start so that
  its line and column are those the lexer counts for the part before it, and the token's value
  follows there (a string literal's opening quote does).  The stream ends with the one EOF token.
\<close>

theorem tokens_located:
  "\<exists>ts e. tokenize text = ts @ [e] \<and> ttype e = EOF \<and> (\<forall>t \<in> set ts. ttype t \<noteq> EOF) \<and>
     (\<forall>t \<in> set (ts @ [e]).
        \<exists>pre suf. text = pre @ suf \<and> tline t = line_after pre \<and> tcolumn t = column_after pre \<and>
          (if ttype t = STRING then suf \<noteq> [] \<and> hd suf \<in> {dquote, squote}
           else take (length (tvalue t)) suf = tvalue t))"
  using lex_loop_sound[OF at_prefix_start, where b = False]
  unfolding tokenize_def located_def by metis

lemma tokens_located_witness:
  "let text = [CHR ''a'', CHR 0x0A] @ ''<lact 7''; t = tokenize text ! 3 in
     map ttype (tokenize text) = [ID, NEWLINE, LACT_OPEN, NUM, EOF]
     \<and> map tcolumn (tokenize text) = [1, 2, 0, 6, 7]
     \<and> (\<exists>pre suf. text = pre @ suf \<and> tline t = line_after pre \<and> tcolumn t = column_after pre
            \<and> take (length (tvalue t)) suf = tvalue t)"
proof -
  let ?text = "[CHR ''a'', CHR 0x0A] @ ''<lact 7''"
  let ?t = "tokenize ?text ! 3"
  have types: "map ttype (tokenize ?text) = [ID, NEWLINE, LACT_OPEN, NUM, EOF]" by code_simp
  have columns: "map tcolumn (tokenize ?text) = [1, 2, 0, 6, 7]" by code_simp
  have "length (tokenize ?text) = 5" using arg_cong[OF types, of length] by simp
  then have mem: "?t \<in> set (tokenize ?text)" by simp
  have "ttype ?t = map ttype (tokenize ?text) ! 3"
    using \<open>length (tokenize ?text) = 5\<close> by simp
  then have num: "ttype ?t \<noteq> STRING" unfolding types by simp
  obtain ts e where "tokenize ?text = ts @ [e]" "\<forall>t \<in> set (ts @ [e]).
        \<exists>pre suf. ?text = pre @ suf \<and> tline t = line_after pre \<and> tcolumn t = column_after pre \<and>
          (if ttype t = STRING then suf \<noteq> [] \<and> hd suf \<in> {dquote, squote}
           else take (length (tvalue t)) suf = tvalue t)"
    using tokens_located[of ?text] by blast
  then have "\<exists>pre suf. ?text = pre @ suf \<and> tline ?t = line_after pre \<and> tcolumn ?t = column_after pre \<and>
          (if ttype ?t = STRING then suf \<noteq> [] \<and> hd suf \<in> {dquote, squote}
           else take (length (tvalue ?t)) suf = tvalue ?t)"
    using mem by (simp only:)
  then have "\<exists>pre suf. ?text = pre @ suf \<and> tline ?t = line_after pre \<and> tcolumn ?t = column_after pre
      \<and> take (length (tvalue ?t)) suf = tvalue ?t"
    using num by (simp only: if_False)
  then show ?thesis unfolding Let_def using types columns by (intro conjI)
qed

section \<open>Printing and lexing again\<close>

definition escape :: "char \<Rightarrow> string" where
  "escape c =
     (if c = newline then [backslash, CHR ''n'']
      else if c = CHR 0x09 then [backslash, CHR ''t'']
      else if c = CHR 0x0D then [backslash, CHR ''r'']
      else if c = backslash \<or> c = dquote then [backslash, c]
      else [c])"

definition print_token :: "token_type \<Rightarrow> string \<Rightarrow> string" where
  "print_token ty v = (if ty = STRING then dquote # concat (map escape v) @ [dquote] else v)"

definition number_text :: "string \<Rightarrow> bool" where
  "number_text v \<longleftrightarrow>
     (\<exists>ds ex. v = ds @ ex \<and> ds \<noteq> [] \<and> is_digit (hd ds) \<and> list_all is_num_char ds \<and>
        (ex = [] \<or>
         (\<exists>e sg es. ex = e # sg @ es \<and> e \<in> {CHR ''e'', CHR ''E''} \<and>
            sg \<in> {[], ''+'', ''-''} \<and> es \<noteq> [] \<and> list_all is_digit es)))"

definition tag_text :: "token_type \<Rightarrow> string option" where
  "tag_text ty =
     (case ty of
        LVAR_OPEN \<Rightarrow> Some ''<lvar''
      | LVAR_CLOSE \<Rightarrow> Some ''</lvar>''
      | LACT_OPEN \<Rightarrow> Some ''<lact''
      | LACT_CLOSE \<Rightarrow> Some ''</lact>''
      | OUT_OPEN \<Rightarrow> Some ''OUT{''
      | NEWLINE \<Rightarrow> Some [newline]
      | _ \<Rightarrow> None)"

text \<open>The text of a token, given whether it lies in an OUT block.\<close>

definition token_text :: "bool \<Rightarrow> token_type \<Rightarrow> string \<Rightarrow> bool" where
  "token_text in_out ty v \<longleftrightarrow>
     (case ty of
        ID \<Rightarrow> v \<noteq> [] \<and> (is_alpha (hd v) \<or> hd v = CHR ''_'') \<and> list_all is_ident v
      | NUM \<Rightarrow> number_text v \<or> in_out \<and> (\<exists>v'. v = CHR ''-'' # v' \<and> number_text v')
      | STRING \<Rightarrow> in_out
      | EOF \<Rightarrow> False
      | _ \<Rightarrow> tag_text ty = Some v \<or> (\<exists>c. v = [c] \<and> punctuation c = Some ty))"

definition flag_after :: "bool \<Rightarrow> token_type \<Rightarrow> bool" where
  "flag_after in_out ty = (if ty = OUT_OPEN then True else if ty = OUT_CLOSE then False else in_out)"

fun token_texts :: "bool \<Rightarrow> (token_type \<times> string) list \<Rightarrow> bool" where
  "token_texts b [] \<longleftrightarrow> True"
| "token_texts b ((ty, v) # ts) \<longleftrightarrow> token_text b ty v \<and> token_texts (flag_after b ty) ts"

definition print_tokens :: "(token_type \<times> string) list \<Rightarrow> string" where
  "print_tokens ts = concat (map (\<lambda>(ty, v). print_token ty v @ '' '') ts)"

lemma read_while_exact:
  "rest s = v @ r \<Longrightarrow> list_all P v \<Longrightarrow> r = [] \<or> \<not> P (hd r) \<Longrightarrow>
   \<exists>s'. read_while P s = (v, s') \<and> rest s' = r"
proof (induction v arbitrary: s)
  case Nil
  then show ?case by (subst read_while.simps) (auto split: list.split)
next
  case (Cons c v)
  have "rest (advance s) = v @ r" "list_all P v" using Cons.prems by simp_all
  then obtain s' where "read_while P (advance s) = (v, s')" "rest s' = r"
    using Cons.IH[of "advance s"] Cons.prems(3) by blast
  then show ?case using Cons.prems by (subst read_while.simps) simp
qed

lemma read_string_body_exact:
  "rest s = concat (map escape v) @ dquote # r \<Longrightarrow>
   \<exists>s'. read_string_body dquote s = (v, s') \<and> rest s' = dquote # r"
proof (induction v arbitrary: s)
  case Nil
  then show ?case by (subst read_string_body.simps) simp
next
  case (Cons c v)
  have ne: "backslash \<noteq> dquote" by (simp add: backslash_def dquote_def)
  show ?case
  proof (cases "escape c = [c]")
    case True
    then have plain: "c \<noteq> dquote" "c \<noteq> backslash" by (auto simp: escape_def split: if_splits)
    have "rest (advance s) = concat (map escape v) @ dquote # r" using Cons.prems True by simp
    then obtain s' where "read_string_body dquote (advance s) = (v, s')" "rest s' = dquote # r"
      using Cons.IH by blast
    then show ?thesis using Cons.prems True plain by (subst read_string_body.simps) simp
  next
    case False
    then obtain d where d: "escape c = [backslash, d]" "unescape d = c"
      by (auto simp: escape_def unescape_def newline_def backslash_def dquote_def split: if_splits)
    have "rest (advance (advance s)) = concat (map escape v) @ dquote # r" using Cons.prems d by simp
    then obtain s' where "read_string_body dquote (advance (advance s)) = (v, s')" "rest s' = dquote # r"
      using Cons.IH by blast
    then show ?thesis using Cons.prems d ne by (subst read_string_body.simps) simp
  qed
qed

lemma read_string_exact:
  assumes "rest s = print_token STRING v @ r"
  shows "\<exists>s'. read_string s = (v, s') \<and> rest s' = r"
proof -
  have "rest (advance s) = concat (map escape v) @ dquote # r" using assms by (simp add: print_token_def)
  then obtain s' where "read_string_body dquote (advance s) = (v, s')" "rest s' = dquote # r"
    using read_string_body_exact by blast
  then show ?thesis using assms
    by (simp add: read_string_def print_token_def current_char_def)
qed

lemma is_alpha_facts:
  "is_alpha c \<Longrightarrow> \<not> is_blank c \<and> c \<noteq> newline \<and> c \<noteq> CHR ''<'' \<and> c \<noteq> CHR ''-'' \<and> c \<noteq> CHR ''{''"
  by (auto simp: is_alpha_def is_blank_def newline_def)

lemma is_digit_facts:
  "is_digit c \<Longrightarrow>
     \<not> is_blank c \<and> c \<noteq> newline \<and> c \<noteq> CHR ''<'' \<and> c \<noteq> CHR ''-'' \<and> c \<noteq> CHR ''{'' \<and> c \<noteq> CHR ''O''
     \<and> \<not> is_alpha c \<and> c \<noteq> CHR ''_'' \<and> \<not> is_sign c"
  by (auto simp: Let_def is_digit_def is_alpha_def is_blank_def newline_def is_sign_def)

lemma is_ident_brace: "is_ident c \<Longrightarrow> c \<noteq> CHR ''{''"
  by (auto simp: is_ident_def is_alnum_def is_alpha_def is_digit_def)

lemma not_out_open:
  assumes "list_all is_ident v"
  shows "take 4 (v @ '' '' @ r) \<noteq> ''OUT{''"
proof
  assume eq: "take 4 (v @ '' '' @ r) = ''OUT{''"
  show False
  proof (cases "4 \<le> length v")
    case True
    then have "take 4 v = ''OUT{''" using eq by simp
    then have "CHR ''{'' \<in> set v" using set_take_subset[of 4 v] by auto
    then show False using assms is_ident_brace by (auto simp: list_all_iff)
  next
    case False
    then have "CHR '' '' \<in> set (take 4 (v @ '' '' @ r))" by (auto simp: take_Cons')
    then show False unfolding eq by simp
  qed
qed

lemma read_exponent_exact:
  assumes "rest s = e # sg @ es @ '' '' @ r" "e \<in> {CHR ''e'', CHR ''E''}"
    "sg \<in> {[], ''+'', ''-''}" "es \<noteq> []" "list_all is_digit es"
  shows "\<exists>s'. read_exponent s = (e # sg @ es, s') \<and> rest s' = '' '' @ r"
proof -
  obtain d es' where es: "es = d # es'" "is_digit d" using assms(4,5) by (cases es) auto
  have blank: "\<not> is_digit CHR '' ''" by (simp add: is_digit_def)
  have d: "\<not> is_sign d" using es(2) is_digit_facts by blast
  let ?s2 = "if sg = [] then advance s else advance (advance s)"
  have "rest ?s2 = es @ '' '' @ r" using assms(1,3) by auto
  then obtain s' where s': "read_while is_digit ?s2 = (es, s')" "rest s' = '' '' @ r"
    using read_while_exact[of ?s2 es "'' '' @ r" is_digit] assms(5) blank by auto
  have ahead: "exponent_ahead s"
    using assms(1,2,3) es d
    by (auto simp: exponent_ahead_def current_char_def peek_char_def is_sign_def)
  consider "sg = []" | c where "sg = [c]" "is_sign c" using assms(3) by (auto simp: is_sign_def)
  then have "read_exponent s = (e # sg @ es, s')"
  proof cases
    case 1
    then show ?thesis using ahead assms(1) es d s'(1) by (simp add: read_exponent_def current_char_def)
  next
    case (2 c)
    then show ?thesis using ahead assms(1) s'(1) by (simp add: read_exponent_def current_char_def)
  qed
  then show ?thesis using s'(2) by blast
qed

lemma read_number_exact:
  assumes "number_text v" "rest s = v @ '' '' @ r"
  shows "\<exists>s'. read_number s = (v, s') \<and> rest s' = '' '' @ r"
proof -
  obtain ds ex where v: "v = ds @ ex" "list_all is_num_char ds"
    and ex: "ex = [] \<or> (\<exists>e sg es. ex = e # sg @ es \<and> e \<in> {CHR ''e'', CHR ''E''} \<and>
            sg \<in> {[], ''+'', ''-''} \<and> es \<noteq> [] \<and> list_all is_digit es)"
    using assms(1) unfolding number_text_def by blast
  have stop: "\<not> is_num_char (hd (ex @ '' '' @ r))"
    using ex by (auto simp: is_num_char_def is_digit_def)
  then obtain s1 where s1: "read_while is_num_char s = (ds, s1)" "rest s1 = ex @ '' '' @ r"
    using read_while_exact[of s ds "ex @ '' '' @ r" is_num_char] assms(2) v by auto
  have "\<exists>s'. read_exponent s1 = (ex, s') \<and> rest s' = '' '' @ r"
  proof (cases "ex = []")
    case True
    then have "\<not> exponent_ahead s1" using s1(2) by (simp add: exponent_ahead_def current_char_def)
    then show ?thesis using True s1(2) by (simp add: read_exponent_def)
  next
    case False
    then show ?thesis using ex s1(2) read_exponent_exact[of s1] by fastforce
  qed
  then show ?thesis using s1(1) v(1) by (auto simp: read_number_def)
qed

text \<open>The kind and the value of a token.\<close>

abbreviation kind :: "token \<Rightarrow> token_type \<times> string" where
  "kind t \<equiv> (ttype t, tvalue t)"

lemma lex_step_ident:
  assumes "rest s = v @ '' '' @ r" "token_text b ID v"
  shows "\<exists>t s'. lex_step b (hd v) s = (Some t, b, s') \<and> kind t = (ID, v) \<and> rest s' = '' '' @ r"
proof -
  have v: "v \<noteq> []" "is_alpha (hd v) \<or> hd v = CHR ''_''" "list_all is_ident v"
    using assms(2) by (simp_all add: token_text_def)
  obtain s' where s': "read_identifier s = (v, s')" "rest s' = '' '' @ r"
    using read_while_exact[OF assms(1) v(3)]
    by (auto simp: read_identifier_def is_ident_def is_alnum_def is_alpha_def is_digit_def)
  have c: "\<not> is_blank (hd v)" "hd v \<noteq> newline" "hd v \<noteq> CHR ''<''"
    using v(2) is_alpha_facts[of "hd v"] by (auto simp: is_blank_def newline_def)
  have "lex_step b (hd v) s = (Some (tok ID v s), b, s')"
    unfolding lex_step_def using c v(2) not_out_open[OF v(3), of r] assms(1) s'(1)
    by (simp only: if_False if_True prod.case)
  then show ?thesis using s'(2) by (simp add: tok_def)
qed

lemma lex_step_number:
  assumes "rest s = v @ '' '' @ r" "token_text b NUM v"
  shows "\<exists>t s'. lex_step b (hd v) s = (Some t, b, s') \<and> kind t = (NUM, v) \<and> rest s' = '' '' @ r"
proof -
  have start: "\<exists>d w. x = d # w \<and> is_digit d" if "number_text x" for x
    using that by (auto simp: number_text_def neq_Nil_conv)
  consider "number_text v" | v' where "b" "v = CHR ''-'' # v'" "number_text v'"
    using assms(2) by (auto simp: token_text_def)
  then show ?thesis
  proof cases
    case 1
    then obtain d w where d: "v = d # w" "is_digit d" using start by blast
    obtain s' where s': "read_number s = (v, s')" "rest s' = '' '' @ r"
      using read_number_exact[OF 1 assms(1)] by blast
    have "take 4 (rest s) \<noteq> ''OUT{''" using assms(1) d is_digit_facts[of d] by auto
    then have "lex_step b d s = (Some (tok NUM v s), b, s')"
      unfolding lex_step_def using is_digit_facts[OF d(2)] d(2) s'(1)
      by (simp only: if_False if_True prod.case simp_thms)
    then show ?thesis using s'(2) d by (simp add: tok_def)
  next
    case (2 v')
    obtain d w where d: "v' = d # w" "is_digit d" using start 2(3) by blast
    have "rest (advance s) = v' @ '' '' @ r" using assms(1) 2(2) by simp
    then obtain s' where s': "read_number (advance s) = (v', s')" "rest s' = '' '' @ r"
      using read_number_exact[OF 2(3)] by blast
    have "next_is_digit s" using assms(1) 2(2) d by (simp add: next_is_digit_def peek_char_def)
    then have "lex_step b CHR ''-'' s = (Some (tok NUM v s), b, s')"
      using assms(1) 2 s'(1)
      by (simp add: lex_step_def is_blank_def newline_def is_alpha_def)
    then show ?thesis using s'(2) 2 by (simp add: tok_def)
  qed
qed

lemma lex_step_string:
  assumes "rest s = print_token STRING v @ '' '' @ r" "token_text b STRING v"
  shows "\<exists>t s'. lex_step b dquote s = (Some t, b, s') \<and> kind t = (STRING, v) \<and> rest s' = '' '' @ r"
proof -
  obtain s' where s': "read_string s = (v, s')" "rest s' = '' '' @ r"
    using read_string_exact[OF assms(1)] by blast
  have b using assms(2) by (simp add: token_text_def)
  have "take 4 (rest s) \<noteq> ''OUT{''" using assms(1) by (simp add: print_token_def dquote_def)
  moreover have "\<not> is_blank dquote" "dquote \<noteq> newline" "dquote \<noteq> CHR ''<''" "\<not> is_alpha dquote"
    "dquote \<noteq> CHR ''_''" "dquote \<noteq> CHR ''-''" "\<not> is_digit dquote"
    by (simp_all add: dquote_def is_blank_def newline_def is_alpha_def is_digit_def)
  ultimately have "lex_step b dquote s = (Some (tok STRING v s), b, s')"
    unfolding lex_step_def using s'(1) \<open>b\<close>
    by (simp only: if_False if_True prod.case simp_thms)
  then show ?thesis using s'(2) by (simp add: tok_def)
qed

lemma lex_step_fixed:
  assumes "rest s = v @ '' '' @ r" "tag_text ty = Some v"
  shows "\<exists>t s'. lex_step b (hd v) s = (Some t, flag_after b ty, s') \<and> kind t = (ty, v) \<and> rest s' = '' '' @ r"
proof -
  have tag: "\<exists>t s'. lex_step b CHR ''<'' s = (Some t, b, s') \<and> kind t = (ty, v) \<and> rest s' = '' '' @ r"
    if "lex_tag s = (Some (tok ty v s), jump k s)" "length v = k" for k
    using that assms(1) by (simp add: lex_step_def tok_def jump_def is_blank_def newline_def)
  consider "ty = LVAR_OPEN" "v = ''<lvar''" | "ty = LVAR_CLOSE" "v = ''</lvar>''"
    | "ty = LACT_OPEN" "v = ''<lact''" | "ty = LACT_CLOSE" "v = ''</lact>''"
    | "ty = OUT_OPEN" "v = ''OUT{''" | "ty = NEWLINE" "v = [newline]"
    using assms(2) by (cases ty) (simp_all add: tag_text_def)
  then show ?thesis
  proof cases
    case 5
    then show ?thesis using assms(1)
      by (simp add: lex_step_def tok_def jump_def is_blank_def newline_def flag_after_def)
  next
    case 6
    then show ?thesis using assms(1)
      by (simp add: lex_step_def tok_def is_blank_def newline_def flag_after_def)
  qed (use tag[of 5] tag[of 7] assms(1) in \<open>simp_all add: lex_tag_def flag_after_def\<close>)
qed

lemma punctuation_cases:
  assumes "punctuation c = Some ty"
  obtains "c = CHR ''.''" "ty = DOT" | "c = CHR '',''" "ty = COMMA" | "c = CHR '':''" "ty = COLON"
    | "c = CHR ''[''" "ty = LBRACKET" | "c = CHR '']''" "ty = RBRACKET" | "c = CHR ''(''" "ty = LPAREN"
    | "c = CHR '')''" "ty = RPAREN" | "c = CHR ''}''" "ty = OUT_CLOSE" | "c = CHR ''>''" "ty = GT"
  using assms unfolding punctuation_def by (simp only: option.inject split: if_split_asm) simp_all

lemma punctuation_facts:
  assumes "punctuation c = Some ty"
  shows "\<not> is_blank c \<and> c \<noteq> newline \<and> c \<noteq> CHR ''<'' \<and> c \<noteq> CHR ''O'' \<and> \<not> is_alpha c \<and> c \<noteq> CHR ''_'' \<and>
    c \<noteq> CHR ''-'' \<and> \<not> is_digit c \<and> c \<noteq> dquote \<and> c \<noteq> squote \<and>
    ty \<noteq> OUT_OPEN \<and> (c = CHR ''}'' \<longleftrightarrow> ty = OUT_CLOSE)"
  using assms
  by (rule punctuation_cases)
     (simp_all add: is_blank_def newline_def is_alpha_def is_digit_def dquote_def squote_def)

lemma lex_step_punctuation:
  assumes "rest s = [c] @ '' '' @ r" "punctuation c = Some ty"
  shows "\<exists>t s'. lex_step b c s = (Some t, flag_after b ty, s') \<and> kind t = (ty, [c]) \<and> rest s' = '' '' @ r"
proof -
  note c = punctuation_facts[OF assms(2)]
  have "take 4 (rest s) \<noteq> ''OUT{''" using assms(1) c by simp
  then have "lex_step b c s =
      (Some (tok ty [c] s), (if c = CHR ''}'' then False else b), advance s)"
    unfolding lex_step_def using c assms(2)
    by (simp only: if_False simp_thms option.map)
  then show ?thesis using c assms(1) by (simp add: tok_def flag_after_def)
qed

lemma print_token_start:
  assumes "token_text b ty v"
  shows "\<exists>c w. print_token ty v = c # w \<and> \<not> is_blank c"
proof -
  have num: "\<exists>d w. x = d # w \<and> \<not> is_blank d" if "number_text x" for x
    using that is_digit_facts by (fastforce simp: number_text_def neq_Nil_conv)
  show ?thesis
  proof (cases "ty = NUM")
    case True
    then show ?thesis using assms num by (auto simp: token_text_def print_token_def is_blank_def)
  next
    case False
    show ?thesis
    proof (cases "ty = ID")
      case True
      then show ?thesis using assms is_alpha_facts
        by (auto simp: token_text_def print_token_def is_blank_def neq_Nil_conv)
    next
      case False
      then show ?thesis using assms \<open>ty \<noteq> NUM\<close>
        by (cases ty)
           (auto simp: token_text_def print_token_def is_blank_def dquote_def newline_def tag_text_def
             punctuation_def split: if_splits)
    qed
  qed
qed

text \<open>Lexing one printed token.\<close>

lemma lex_step_printed:
  assumes "token_text b ty v" "rest s = print_token ty v @ '' '' @ r"
  shows "\<exists>t s'. lex_step b (hd (print_token ty v)) s = (Some t, flag_after b ty, s') \<and> kind t = (ty, v)
           \<and> rest s' = '' '' @ r"
proof -
  consider "ty = ID" | "ty = NUM" | "ty = STRING" | "tag_text ty = Some v"
    | c where "v = [c]" "punctuation c = Some ty"
    using assms(1) by (cases ty) (auto simp: token_text_def)
  then show ?thesis
  proof cases
    case 1
    then show ?thesis using lex_step_ident[of s v r b] assms by (simp add: print_token_def flag_after_def)
  next
    case 2
    then show ?thesis using lex_step_number[of s v r b] assms by (simp add: print_token_def flag_after_def)
  next
    case 3
    then show ?thesis using lex_step_string[of s v r b] assms by (simp add: print_token_def flag_after_def)
  next
    case 4
    then have "ty \<noteq> STRING" by (auto simp: tag_text_def)
    then show ?thesis using lex_step_fixed[OF _ 4, of s r b] assms(2) by (simp add: print_token_def)
  next
    case (5 c)
    then have "ty \<noteq> STRING" by (auto simp: punctuation_def split: if_splits)
    then show ?thesis using lex_step_punctuation[OF _ 5(2), of s r b] assms(2) 5(1)
      by (simp add: print_token_def)
  qed
qed

lemma lex_loop_blank:
  assumes "rest s = '' '' @ r" "r = [] \<or> \<not> is_blank (hd r)"
  shows "\<exists>s'. lex_loop b s = lex_loop b s' \<and> rest s' = r"
proof -
  have blank: "is_blank CHR '' ''" by (simp add: is_blank_def)
  then obtain s' where s': "read_while is_blank s = ('' '', s')" "rest s' = r"
    using read_while_exact[OF assms(1), of is_blank] assms(2) by auto
  have "lex_step b CHR '' '' s = (None, b, s')"
    using s'(1) blank by (simp add: lex_step_def skip_whitespace_def)
  then have "lex_loop b s = lex_loop b s'" using assms(1) by (subst lex_loop.simps) simp
  then show ?thesis using s'(2) by blast
qed

lemma lex_loop_printed:
  "token_texts b ts \<Longrightarrow> rest s = print_tokens ts \<Longrightarrow>
   map kind (lex_loop b s) = ts @ [(EOF, [])]"
proof (induction b ts arbitrary: s rule: token_texts.induct)
  case (1 b)
  then show ?case by (subst lex_loop.simps) (simp add: print_tokens_def tok_def)
next
  case (2 b ty v ts)
  let ?r = "print_tokens ts"
  have this_one: "token_text b ty v" and later: "token_texts (flag_after b ty) ts" using "2.prems"(1) by simp_all
  have here: "rest s = print_token ty v @ '' '' @ ?r" using "2.prems"(2) by (simp add: print_tokens_def)
  obtain t s1 where step: "lex_step b (hd (print_token ty v)) s = (Some t, flag_after b ty, s1)"
    "kind t = (ty, v)" "rest s1 = '' '' @ ?r"
    using lex_step_printed[OF this_one here] by blast
  have "?r = [] \<or> \<not> is_blank (hd ?r)"
  proof (cases ts)
    case (Cons p ts')
    obtain ty' v' where "p = (ty', v')" by force
    then show ?thesis using later Cons print_token_start[of _ ty' v'] by (fastforce simp: print_tokens_def)
  qed (simp add: print_tokens_def)
  then obtain s2 where s2: "lex_loop (flag_after b ty) s1 = lex_loop (flag_after b ty) s2" "rest s2 = ?r"
    using lex_loop_blank[OF step(3)] by blast
  obtain c w where "print_token ty v = c # w" using print_token_start[OF this_one] by blast
  then have "lex_loop b s = t # lex_loop (flag_after b ty) s1"
    using here step(1) by (subst lex_loop.simps) simp
  then show ?case using "2.IH"[OF later s2(2)] s2(1) step(2) by simp
qed

text \<open>
  C40. Printing tokens with a blank after each and lexing the text gives back the same kinds and
  values and the EOF token: identifiers, numbers with sign, point and exponent, tags, punctuation,
  and, in an OUT block, string literals of any characters, whose escapes the lexer undoes.
\<close>

theorem tokens_round_trip:
  "token_texts False ts \<Longrightarrow>
   map (\<lambda>t. (ttype t, tvalue t)) (tokenize (print_tokens ts)) = ts @ [(EOF, [])]"
  unfolding tokenize_def by (rule lex_loop_printed) (simp_all add: mk_lexer_def)

definition ex_tokens :: "(token_type \<times> string) list" where
  "ex_tokens =
     [(OUT_OPEN, ''OUT{''), (ID, ''a''), (COLON, '':''), (STRING, [dquote, newline, backslash]), (COMMA, '',''),
      (OUT_CLOSE, ''}'')]"

lemma tokens_round_trip_witness:
  "map (\<lambda>t. (ttype t, tvalue t)) (tokenize (print_tokens ex_tokens)) = ex_tokens @ [(EOF, [])]"
proof (rule tokens_round_trip)
  show "token_texts False ex_tokens"
    by (simp add: ex_tokens_def token_text_def tag_text_def punctuation_def flag_after_def is_alpha_def
        is_ident_def is_alnum_def)
qed

end
