(* ===== verification/Lndl_Parser.thy ===== *)
theory Lndl_Parser
  imports Lndl_Lexer
begin

text \<open>
  The LNDL parser: \<open>lionagi/lndl/parser.py\<close> and the nodes of \<open>lionagi/lndl/ast.py\<close>.

  The state is the parser's position, as the tokens from it on up to the EOF token that ends every
  stream of the lexer, the source text the tag contents are cut from, and the names already warned
  about.  Each method returns \<open>Inl\<close> the \<open>ParseError\<close> or \<open>Inr\<close> the value and the parser after it.
\<close>

section \<open>Syntax trees\<close>

text \<open>
  A value of an OUT block.  \<open>VFloat m e\<close> stands for the float Python reads from a literal of the
  exact value \<open>m * 10 ^ e\<close>: the rounding to a double is outside the model, and the sign of \<open>-0.0\<close>
  is lost.
\<close>

datatype oval = VStr string | VInt int | VFloat int int | VBool bool | VList "oval list"

type_synonym out_block = "(string, oval) pydict"

text \<open>\<open>Lvar model field alias content\<close> and \<open>RLvar alias content extra_id\<close>.\<close>

datatype lvar = Lvar string string string string | RLvar string string "string option"

record lact =
  lact_model :: "string option"
  lact_field :: "string option"
  lact_alias :: string
  lact_call :: string
  lact_extra_id :: "string option"

record program =
  lvars :: "lvar list"
  lacts :: "lact list"
  program_out :: "out_block option"

fun lvar_alias :: "lvar \<Rightarrow> string" where
  "lvar_alias (Lvar _ _ a _) = a"
| "lvar_alias (RLvar a _ _) = a"

section \<open>Parser state and errors\<close>

datatype parse_error =
    Expected token_type token
  | Invalid_number string token
  | No_source token
  | Duplicate_alias string token
  | Unclosed_lvar token
  | Unclosed_lact token
  | No_content token
  | Too_deep token

text \<open>\<open>eof_line\<close> and \<open>eof_column\<close> locate the EOF token at the end of the stream.\<close>

record parser =
  ahead :: "token list"
  eof_line :: int
  eof_column :: int
  source_text :: "string option"
  warned :: "string list"

type_synonym 'a parsed = "parse_error + 'a \<times> parser"

definition and_then :: "'a parsed \<Rightarrow> ('a \<Rightarrow> parser \<Rightarrow> 'b parsed) \<Rightarrow> 'b parsed" where
  "and_then m f = (case m of Inl e \<Rightarrow> Inl e | Inr (x, p) \<Rightarrow> f x p)"

lemma and_then_simps [simp]: "and_then (Inl e) f = Inl e" "and_then (Inr (x, p)) f = f x p"
  by (simp_all add: and_then_def)

lemma and_then_Inr [simp]:
  "and_then m f = Inr r \<longleftrightarrow> (\<exists>x p. m = Inr (x, p) \<and> f x p = Inr r)"
  by (auto simp: and_then_def split: sum.splits prod.splits)

lemma and_then_cong [fundef_cong]:
  "m = m' \<Longrightarrow> (\<And>x p. m' = Inr (x, p) \<Longrightarrow> f x p = g x p) \<Longrightarrow> and_then m f = and_then m' g"
  by (auto simp: and_then_def split: sum.splits prod.splits)

definition mk_parser :: "token list \<Rightarrow> string option \<Rightarrow> string list \<Rightarrow> parser" where
  "mk_parser ts src ws =
     \<lparr>ahead = butlast ts, eof_line = tline (last ts), eof_column = tcolumn (last ts),
      source_text = src, warned = ws\<rparr>"

definition current_token :: "parser \<Rightarrow> token" where
  "current_token p =
     (case ahead p of
        [] \<Rightarrow> \<lparr>ttype = EOF, tvalue = [], tline = eof_line p, tcolumn = eof_column p\<rparr>
      | t # _ \<Rightarrow> t)"

definition next_token :: "parser \<Rightarrow> parser" where
  "next_token p = p\<lparr>ahead := tl (ahead p)\<rparr>"

definition expect :: "token_type \<Rightarrow> parser \<Rightarrow> token parsed" where
  "expect ty p =
     (let t = current_token p in if ttype t \<noteq> ty then Inl (Expected ty t) else Inr (t, next_token p))"

definition match :: "token_type list \<Rightarrow> parser \<Rightarrow> bool" where
  "match tys p \<longleftrightarrow> ttype (current_token p) \<in> set tys"

definition size_ahead :: "parser \<Rightarrow> nat" where
  "size_ahead p = length (ahead p)"

lemma size_next: "size_ahead (next_token p) \<le> size_ahead p"
  by (simp add: size_ahead_def next_token_def)

lemma size_next_less: "\<not> match [EOF] p \<Longrightarrow> size_ahead (next_token p) < size_ahead p"
  by (cases "ahead p") (auto simp: size_ahead_def next_token_def match_def current_token_def)

lemma size_next_match: "match [ty] p \<Longrightarrow> ty \<noteq> EOF \<Longrightarrow> size_ahead (next_token p) < size_ahead p"
  using size_next_less[of p] by (auto simp: match_def)

lemma match_not_eof: "match tys p \<Longrightarrow> EOF \<notin> set tys \<Longrightarrow> \<not> match [EOF] p"
  by (auto simp: match_def)

lemma size_expect: "expect ty p = Inr (t, q) \<Longrightarrow> ty \<noteq> EOF \<Longrightarrow> size_ahead q < size_ahead p"
  using size_next_less[of p] by (auto simp: expect_def Let_def match_def split: if_splits)

function skip_newlines :: "parser \<Rightarrow> parser" where
  "skip_newlines p = (if match [NEWLINE] p then skip_newlines (next_token p) else p)"
  by pat_completeness auto
termination
  by (relation "measure size_ahead") (auto intro!: size_next_match)

declare skip_newlines.simps [simp del]

lemma size_skip: "size_ahead (skip_newlines p) \<le> size_ahead p"
proof (induction p rule: skip_newlines.induct)
  case (1 p)
  then show ?case using size_next[of p] by (subst skip_newlines.simps) auto
qed

text \<open>The loop that walks to the closing tag: the EOF token when it meets the end first.\<close>

function skip_to :: "token_type \<Rightarrow> parser \<Rightarrow> token + parser" where
  "skip_to ty p =
     (if match [ty] p then Inr p
      else if match [EOF] p then Inl (current_token p)
      else skip_to ty (next_token p))"
  by pat_completeness auto
termination
  by (relation "measure (size_ahead \<circ> snd)") (auto intro: size_next_less)

declare skip_to.simps [simp del]

text \<open>The continuation of a dotted name: \<open>.X\<close> as long as it follows; a dot without a name is dropped.\<close>

function dotted :: "string \<Rightarrow> parser \<Rightarrow> string \<times> parser" where
  "dotted name p =
     (if match [DOT] p
      then (let p1 = next_token p
            in if match [ID] p1 then dotted (name @ ''.'' @ tvalue (current_token p1)) (next_token p1)
               else (name, p1))
      else (name, p))"
  by pat_completeness auto
termination
  by (relation "measure (size_ahead \<circ> snd)")
     (auto intro: le_less_trans[OF size_next size_next_match])

declare dotted.simps [simp del]

lemma size_dotted: "size_ahead (snd (dotted name p)) \<le> size_ahead p"
proof (induction name p rule: dotted.induct)
  case (1 name p)
  show ?case
  proof (cases "match [DOT] p")
    case True
    have "size_ahead (next_token (next_token p)) \<le> size_ahead p" "size_ahead (next_token p) \<le> size_ahead p"
      using size_next[of p] size_next[of "next_token p"] by simp_all
    then show ?thesis using "1.IH"[OF True refl] True
      by (subst dotted.simps) (auto simp: Let_def)
  qed (subst dotted.simps, simp)
qed

section \<open>Number literals\<close>

definition dec_text :: "string \<Rightarrow> bool" where
  "dec_text ds \<longleftrightarrow> ds \<noteq> [] \<and> list_all dec_digit ds"

definition signed :: "string \<Rightarrow> int \<times> string" where
  "signed v =
     (case v of
        c # r \<Rightarrow> if c = CHR ''-'' then (-1, r) else if c = CHR ''+'' then (1, r) else (1, v)
      | [] \<Rightarrow> (1, []))"

definition int_digits_limit :: nat where "int_digits_limit = 4300"

text \<open>\<open>int\<close> and \<open>float\<close> on the texts the lexer makes NUM tokens of: \<open>None\<close> where they raise \<open>ValueError\<close>.\<close>

definition py_int :: "string \<Rightarrow> oval option" where
  "py_int v =
     (case signed v of (sg, ds) \<Rightarrow>
        if dec_text ds \<and> length ds \<le> int_digits_limit then Some (VInt (sg * dec_value ds)) else None)"

definition exponent_char :: "char \<Rightarrow> bool" where
  "exponent_char c \<longleftrightarrow> c = CHR ''e'' \<or> c = CHR ''E''"

definition exponent_value :: "string \<Rightarrow> int option" where
  "exponent_value ex =
     (case ex of
        [] \<Rightarrow> Some 0
      | _ # x \<Rightarrow> (case signed x of (sg, ds) \<Rightarrow> if dec_text ds then Some (sg * dec_value ds) else None))"

text \<open>A decimal at or above this rounds to infinity.\<close>

definition float_bound :: int where "float_bound = 2 ^ 1024 - 2 ^ 970"

definition is_finite :: "int \<Rightarrow> int \<Rightarrow> bool" where
  "is_finite m e \<longleftrightarrow>
     (if 0 \<le> e then abs m * 10 ^ nat e < float_bound else abs m < float_bound * 10 ^ nat (- e))"

definition py_float :: "string \<Rightarrow> oval option" where
  "py_float v =
     (case signed v of (sg, body) \<Rightarrow>
        (let mant = takeWhile (\<lambda>c. \<not> exponent_char c) body;
             whole = takeWhile (\<lambda>c. c \<noteq> CHR ''.'') mant;
             frac = tl (dropWhile (\<lambda>c. c \<noteq> CHR ''.'') mant)
         in case exponent_value (dropWhile (\<lambda>c. \<not> exponent_char c) body) of
              None \<Rightarrow> None
            | Some e \<Rightarrow>
                if dec_text (whole @ frac) \<and> is_finite (dec_value (whole @ frac)) (e - int (length frac))
                then Some (VFloat (sg * dec_value (whole @ frac)) (e - int (length frac)))
                else None))"

definition coerce_num :: "token \<Rightarrow> parse_error + oval" where
  "coerce_num t =
     (case (if list_ex (\<lambda>c. c = CHR ''.'' \<or> exponent_char c) (tvalue t) then py_float (tvalue t)
            else py_int (tvalue t)) of
        None \<Rightarrow> Inl (Invalid_number (tvalue t) t)
      | Some v \<Rightarrow> Inr v)"

section \<open>Cutting the content of a tag out of the source\<close>

definition drop_prefix :: "string \<Rightarrow> string \<Rightarrow> string option" where
  "drop_prefix w v = (if take (length w) v = w then Some (drop (length w) v) else None)"

text \<open>\<open>\s+\<close> and the words of the pattern, \<open>\s*>\<close>, and the shortest text up to the closing tag.\<close>

fun re_words :: "string list \<Rightarrow> string \<Rightarrow> string option" where
  "re_words [] v = drop_prefix ''>'' (dropWhile is_space v)"
| "re_words (w # ws) v =
     (if v \<noteq> [] \<and> is_space (hd v)
      then (case drop_prefix w (dropWhile is_space v) of None \<Rightarrow> None | Some r \<Rightarrow> re_words ws r)
      else None)"

fun before :: "string \<Rightarrow> string \<Rightarrow> string option" where
  "before w [] = (if w = [] then Some [] else None)"
| "before w (c # v) =
     (if take (length w) (c # v) = w then Some [] else map_option (Cons c) (before w v))"

definition re_match :: "string \<Rightarrow> string list \<Rightarrow> string \<Rightarrow> string \<Rightarrow> string option" where
  "re_match opening ws closing v =
     (case drop_prefix opening v of
        None \<Rightarrow> None
      | Some r \<Rightarrow> (case re_words ws r of None \<Rightarrow> None | Some r' \<Rightarrow> before closing r'))"

fun re_search :: "string \<Rightarrow> string list \<Rightarrow> string \<Rightarrow> string \<Rightarrow> string option" where
  "re_search opening ws closing [] = re_match opening ws closing []"
| "re_search opening ws closing (c # v) =
     (case re_match opening ws closing (c # v) of
        Some g \<Rightarrow> Some g
      | None \<Rightarrow> re_search opening ws closing v)"

text \<open>The text of \<open>source\<close> the tag's pattern captures, stripped, or the error for its absence.\<close>

definition tag_content ::
  "string \<Rightarrow> string \<Rightarrow> (token \<Rightarrow> parse_error) \<Rightarrow> string list \<Rightarrow> parser \<Rightarrow> parse_error + string" where
  "tag_content opening closing unclosed ws p =
     (case source_text p of
        None \<Rightarrow> Inl (No_source (current_token p))
      | Some src \<Rightarrow>
          if src = [] then Inl (No_source (current_token p))
          else case re_search opening ws closing src of
                 Some g \<Rightarrow> Inr (strip g)
               | None \<Rightarrow>
                   if before closing src = None then Inl (unclosed (current_token p))
                   else Inl (No_content (current_token p)))"

section \<open>Tags\<close>

text \<open>The names in an opening tag: \<open>model.field alias\<close>, \<open>model.field\<close>, \<open>extra alias\<close> or \<open>alias\<close>.\<close>

record tag_head =
  head_model :: "string option"
  head_field :: "string option"
  head_alias :: string
  head_extra :: "string option"
  head_explicit :: bool

definition parse_head :: "string \<Rightarrow> parser \<Rightarrow> tag_head parsed" where
  "parse_head first p =
     (if match [DOT] p
      then and_then (expect ID (next_token p)) (\<lambda>t p.
             if match [ID] p
             then Inr (\<lparr>head_model = Some first, head_field = Some (tvalue t),
                        head_alias = tvalue (current_token p), head_extra = None, head_explicit = True\<rparr>,
                       next_token p)
             else Inr (\<lparr>head_model = Some first, head_field = Some (tvalue t),
                        head_alias = tvalue t, head_extra = None, head_explicit = False\<rparr>, p))
      else if match [ID] p
      then Inr (\<lparr>head_model = None, head_field = None, head_alias = tvalue (current_token p),
                 head_extra = Some first, head_explicit = True\<rparr>, next_token p)
      else Inr (\<lparr>head_model = None, head_field = None, head_alias = first, head_extra = None,
                 head_explicit = False\<rparr>, p))"

definition truthy :: "string option \<Rightarrow> bool" where
  "truthy x \<longleftrightarrow> x \<noteq> None \<and> x \<noteq> Some []"

definition py_or :: "string option \<Rightarrow> string option \<Rightarrow> string option" where
  "py_or x y = (if truthy x then x else y)"

definition model_words :: "tag_head \<Rightarrow> string list" where
  "model_words h =
     (the (head_model h) @ ''.'' @ the (head_field h)) # (if head_explicit h then [head_alias h] else [])"

definition raw_words :: "tag_head \<Rightarrow> string list" where
  "raw_words h = (if truthy (head_extra h) then [the (head_extra h), head_alias h] else [head_alias h])"

definition lvar_words :: "tag_head \<Rightarrow> string list" where
  "lvar_words h = (if head_model h = None then raw_words h else model_words h)"

definition lact_words :: "tag_head \<Rightarrow> string list" where
  "lact_words h = (if truthy (head_model h) then model_words h else raw_words h)"

definition mk_lvar :: "tag_head \<Rightarrow> string \<Rightarrow> lvar" where
  "mk_lvar h c =
     (case head_model h of
        None \<Rightarrow> RLvar (head_alias h) c (head_extra h)
      | Some m \<Rightarrow> Lvar m (the (head_field h)) (head_alias h) c)"

text \<open>
  A tag from its opening token to its closing one; \<open>ws\<close> gives the words of the pattern its content
  is searched with.
\<close>

definition parse_tag ::
  "token_type \<Rightarrow> token_type \<Rightarrow> string \<Rightarrow> string \<Rightarrow> (token \<Rightarrow> parse_error) \<Rightarrow> (tag_head \<Rightarrow> string list)
     \<Rightarrow> parser \<Rightarrow> (tag_head \<times> string) parsed" where
  "parse_tag open_ty close_ty opening closing unclosed ws p =
     and_then (expect open_ty p) (\<lambda>_ p.
     and_then (expect ID (skip_newlines p)) (\<lambda>t p.
     and_then (parse_head (tvalue t) p) (\<lambda>h p.
     and_then (expect GT p) (\<lambda>_ p.
       (let p = skip_newlines p
        in case tag_content opening closing unclosed (ws h) p of
             Inl e \<Rightarrow> Inl e
           | Inr c \<Rightarrow>
               (case skip_to close_ty p of
                  Inl t \<Rightarrow> Inl (unclosed t)
                | Inr p \<Rightarrow> and_then (expect close_ty p) (\<lambda>_ p. Inr ((h, c), p))))))))"

definition parse_lvar :: "parser \<Rightarrow> lvar parsed" where
  "parse_lvar p =
     and_then (parse_tag LVAR_OPEN LVAR_CLOSE ''<lvar'' ''</lvar>'' Unclosed_lvar lvar_words p)
       (\<lambda>(h, c) p. Inr (mk_lvar h c, p))"

definition python_reserved :: "string list" where
  "python_reserved =
     [''and'', ''as'', ''assert'', ''async'', ''await'', ''break'', ''class'', ''continue'', ''def'', ''del'',
      ''elif'', ''else'', ''except'', ''finally'', ''for'', ''from'', ''global'', ''if'', ''import'', ''in'',
      ''is'', ''lambda'', ''nonlocal'', ''not'', ''or'', ''pass'', ''raise'', ''return'', ''try'', ''while'',
      ''with'', ''yield'', ''print'', ''input'', ''open'', ''len'', ''range'', ''list'', ''dict'', ''set'',
      ''tuple'', ''str'', ''int'', ''float'', ''bool'', ''type'']"

text \<open>A reserved action name is warned about once: it enters \<open>_warned_action_names\<close>.\<close>

definition warn_reserved :: "string \<Rightarrow> parser \<Rightarrow> parser" where
  "warn_reserved a p =
     (if a \<in> set python_reserved \<and> a \<notin> set (warned p) then p\<lparr>warned := warned p @ [a]\<rparr> else p)"

definition parse_lact :: "parser \<Rightarrow> lact parsed" where
  "parse_lact p =
     and_then (parse_tag LACT_OPEN LACT_CLOSE ''<lact'' ''</lact>'' Unclosed_lact lact_words p)
       (\<lambda>(h, c) p.
          Inr (\<lparr>lact_model = head_model h, lact_field = head_field h, lact_alias = head_alias h,
                lact_call = c, lact_extra_id = head_extra h\<rparr>,
               warn_reserved (head_alias h) p))"

section \<open>The OUT block\<close>

definition max_out_nesting_depth :: nat where "max_out_nesting_depth = 32"

text \<open>\<open>skip_newlines\<close> and the optional comma after an item.\<close>

definition skip_comma :: "parser \<Rightarrow> parser" where
  "skip_comma p = (let p1 = skip_newlines p in if match [COMMA] p1 then next_token p1 else p1)"

definition close_list :: "parser \<Rightarrow> parser" where
  "close_list p = (if match [RBRACKET] p then next_token p else p)"

text \<open>An item of a bracketed list other than a nested list; any other token is skipped.\<close>

definition flat_item :: "parser \<Rightarrow> oval list parsed" where
  "flat_item p =
     (let t = current_token p; p1 = next_token p
      in if match [ID] p then (case dotted (tvalue t) p1 of (name, p2) \<Rightarrow> Inr ([VStr name], p2))
         else if match [STRING] p then Inr ([VStr (tvalue t)], p1)
         else if match [NUM] p then (case coerce_num t of Inl e \<Rightarrow> Inl e | Inr v \<Rightarrow> Inr ([v], p1))
         else Inr ([], p1))"

lemma size_comma: "size_ahead (skip_comma p) \<le> size_ahead p"
  using size_skip[of p] size_next[of "skip_newlines p"] by (simp add: skip_comma_def Let_def)

lemma size_close: "size_ahead (close_list p) \<le> size_ahead p"
  by (simp add: close_list_def size_next)

lemma size_flat_item:
  "flat_item p = Inr (vs, q) \<Longrightarrow> \<not> match [EOF] p \<Longrightarrow> size_ahead q < size_ahead p"
  using size_next_less[of p] size_dotted[of "tvalue (current_token p)" "next_token p"]
  by (auto simp: flat_item_def Let_def split: if_splits prod.splits sum.splits)

function parse_out_list :: "nat \<Rightarrow> parser \<Rightarrow> oval list parsed"
  and out_items :: "nat \<Rightarrow> parser \<Rightarrow> oval list parsed" where
  "parse_out_list depth p =
     (if max_out_nesting_depth \<le> depth then Inl (Too_deep (current_token p))
      else and_then (expect LBRACKET p) (\<lambda>_ p1. out_items depth (skip_newlines p1)))"
| "out_items depth p =
     (let p1 = skip_newlines p
      in if match [RBRACKET, EOF] p then Inr ([], close_list p)
         else if match [RBRACKET, EOF] p1 then Inr ([], close_list p1)
         else and_then
                (if match [LBRACKET] p1
                 then and_then (parse_out_list (Suc depth) p1) (\<lambda>g p2. Inr ([VList g], p2))
                 else flat_item p1)
                (\<lambda>vs p2. and_then (out_items depth (skip_comma p2)) (\<lambda>rest p3. Inr (vs @ rest, p3))))"
  by pat_completeness auto

lemma size_out:
  "parse_out_list_out_items_dom (Inl (d, p)) \<Longrightarrow>
     \<forall>v q. parse_out_list d p = Inr (v, q) \<longrightarrow> size_ahead q < size_ahead p"
  "parse_out_list_out_items_dom (Inr (d', p')) \<Longrightarrow>
     \<forall>v q. out_items d' p' = Inr (v, q) \<longrightarrow> size_ahead q \<le> size_ahead p'"
proof (induction rule: parse_out_list_out_items.pinduct)
  case (1 d p)
  show ?case
  proof (intro allI impI)
    fix v q assume run: "parse_out_list d p = Inr (v, q)"
    then obtain t p1 where p1: "\<not> max_out_nesting_depth \<le> d" "expect LBRACKET p = Inr (t, p1)"
      "out_items d (skip_newlines p1) = Inr (v, q)"
      by (auto simp: parse_out_list.psimps[OF 1(1)] split: if_splits)
    then have "size_ahead q \<le> size_ahead (skip_newlines p1)" using "1.IH" by blast
    then show "size_ahead q < size_ahead p" using size_skip[of p1] size_expect[OF p1(2)] by simp
  qed
next
  case (2 d p)
  let ?p1 = "skip_newlines p"
  show ?case
  proof (intro allI impI)
    fix v q assume run: "out_items d p = Inr (v, q)"
    note unfold = out_items.psimps[OF 2(1), unfolded Let_def]
    show "size_ahead q \<le> size_ahead p"
    proof (cases "match [RBRACKET, EOF] p \<or> match [RBRACKET, EOF] ?p1")
      case True
      then have "q = close_list p \<or> q = close_list ?p1" using run unfold by (auto split: if_splits)
      then show ?thesis using size_close[of p] size_close[of ?p1] size_skip[of p] by auto
    next
      case False
      let ?item = "if match [LBRACKET] ?p1
         then and_then (parse_out_list (Suc d) ?p1) (\<lambda>g p2. Inr ([VList g], p2)) else flat_item ?p1"
      obtain vs p2 rs where p2: "?item = Inr (vs, p2)" "out_items d (skip_comma p2) = Inr (rs, q)"
        using run False unfold by (auto simp del: if_split)
      have "\<not> match [EOF] ?p1" using False by (auto simp: match_def)
      then have "size_ahead p2 < size_ahead ?p1"
        using p2(1) "2.IH"(1)[OF refl] False size_flat_item[of ?p1 vs p2] by (auto split: if_splits)
      moreover have "size_ahead q \<le> size_ahead (skip_comma p2)"
        using "2.IH"(2)[OF refl _ _ p2(1)] False p2(2) by blast
      ultimately show ?thesis using size_comma[of p2] size_skip[of p] by simp
    qed
  qed
qed

lemma size_item:
  assumes "match [LBRACKET] p \<Longrightarrow> parse_out_list_out_items_dom (Inl (Suc d, p))"
    and "(if match [LBRACKET] p then and_then (parse_out_list (Suc d) p) (\<lambda>g p2. Inr ([VList g], p2))
          else flat_item p) = Inr (vs, q)"
    and "\<not> match [EOF] p"
  shows "size_ahead q < size_ahead p"
  using assms size_out(1) size_flat_item[of p vs q] by (auto split: if_splits)

lemma out_total: "All parse_out_list_out_items_dom"
proof (rule "parse_out_list_out_items.termination"[where R =
      "measure (\<lambda>x. case x of Inl (d, p) \<Rightarrow> 2 * size_ahead p | Inr (d, p) \<Rightarrow> Suc (2 * size_ahead p))"],
    goal_cases)
  case (2 d p t p1)
  then have "size_ahead p1 < size_ahead p" using size_expect by blast
  then show ?case using size_skip[of p1] by simp
next
  case (3 d p p1)
  then show ?case using size_skip[of p] by (simp add: le_imp_less_Suc)
next
  case (4 d p p1 vs q)
  then have "\<not> match [EOF] p1" by (auto simp: match_def)
  then have "size_ahead q < size_ahead p1" using 4(4,5) by (intro size_item) auto
  then show ?case using size_comma[of q] size_skip[of p] 4(1) by simp
qed simp

termination parse_out_list
  by (rule out_total)

declare parse_out_list.simps [simp del] out_items.simps [simp del]

lemma size_out_list: "parse_out_list d p = Inr (v, q) \<Longrightarrow> size_ahead q < size_ahead p"
  using size_out(1) out_total by blast

text \<open>The spec name an alias was declared under: the first tag with that alias, lacts before lvars.\<close>

definition lact_spec :: "lact \<Rightarrow> string option" where
  "lact_spec la = py_or (py_or (lact_field la) (lact_model la)) (lact_extra_id la)"

fun lvar_spec :: "lvar \<Rightarrow> string option" where
  "lvar_spec (Lvar m f _ _) = py_or (py_or (Some f) (Some m)) None"
| "lvar_spec (RLvar _ _ e) = e"

definition resolve_alias_to_spec :: "lvar list \<Rightarrow> lact list \<Rightarrow> string \<Rightarrow> string option" where
  "resolve_alias_to_spec lvs las a =
     (case find (\<lambda>la. lact_alias la = a) las of
        Some la \<Rightarrow> lact_spec la
      | None \<Rightarrow>
          (case find (\<lambda>lv. lvar_alias lv = a) lvs of
             Some lv \<Rightarrow> lvar_spec lv
           | None \<Rightarrow> None))"

text \<open>The spec an anonymous group binds to is that of its first alias, at most one level down.\<close>

fun group_spec :: "(string \<Rightarrow> string option) \<Rightarrow> oval list \<Rightarrow> string option" where
  "group_spec res (VStr a # _) = res a"
| "group_spec res (VList (VStr a # _) # _) = res a"
| "group_spec res _ = None"

definition add_group :: "(string \<Rightarrow> string option) \<Rightarrow> oval list \<Rightarrow> out_block \<Rightarrow> out_block" where
  "add_group res g fs =
     (let spec = group_spec res g
      in if truthy spec
         then (case dget fs (the spec) of
                 Some (VList existing) \<Rightarrow> dset (the spec) (VList (existing @ [VList g])) fs
               | _ \<Rightarrow> dset (the spec) (VList [VList g]) fs)
         else fs)"

definition shortcut_spec :: "(string \<Rightarrow> string option) \<Rightarrow> string \<Rightarrow> string" where
  "shortcut_spec res name =
     (case res name of
        Some spec \<Rightarrow> spec
      | None \<Rightarrow>
          if CHR ''.'' \<in> set name then takeWhile (\<lambda>c. c \<noteq> CHR ''.'') name else name)"

definition add_shortcut :: "(string \<Rightarrow> string option) \<Rightarrow> string \<Rightarrow> out_block \<Rightarrow> out_block" where
  "add_shortcut res name fs =
     (let spec = shortcut_spec res name
      in case dget fs spec of
           None \<Rightarrow> dset spec (VList [VStr name]) fs
         | Some (VList xs) \<Rightarrow> dset spec (VList (xs @ [VStr name])) fs
         | Some _ \<Rightarrow> fs)"

text \<open>The value after the colon; \<open>None\<close> when no value starts there, and the token is skipped.\<close>

definition field_value :: "parser \<Rightarrow> oval option parsed" where
  "field_value p =
     (let t = current_token p; p1 = next_token p
      in if match [LBRACKET] p then and_then (parse_out_list 0 p) (\<lambda>g p. Inr (Some (VList g), p))
         else if match [STRING] p then Inr (Some (VStr (tvalue t)), p1)
         else if match [NUM] p then (case coerce_num t of Inl e \<Rightarrow> Inl e | Inr v \<Rightarrow> Inr (Some v, p1))
         else if match [ID] p
         then (if map lower (tvalue t) = ''true'' then Inr (Some (VBool True), p1)
               else if map lower (tvalue t) = ''false'' then Inr (Some (VBool False), p1)
               else (case dotted (tvalue t) p1 of (name, p2) \<Rightarrow> Inr (Some (VList [VStr name]), p2)))
         else Inr (None, p1))"

definition set_field :: "string \<Rightarrow> oval option \<Rightarrow> out_block \<Rightarrow> out_block" where
  "set_field name v fs = (case v of None \<Rightarrow> fs | Some x \<Rightarrow> dset name x fs)"

text \<open>One iteration of the loop over the block's entries.\<close>

definition out_entry :: "(string \<Rightarrow> string option) \<Rightarrow> out_block \<Rightarrow> parser \<Rightarrow> out_block parsed" where
  "out_entry res fs p =
     (if match [LBRACKET] p
      then and_then (parse_out_list 0 p) (\<lambda>g p1. Inr (add_group res g fs, skip_comma p1))
      else if \<not> match [ID] p then Inr (fs, next_token p)
      else case dotted (tvalue (current_token p)) (next_token p) of (name, p1) \<Rightarrow>
             let p2 = skip_newlines p1
             in if \<not> match [COLON] p2 then Inr (add_shortcut res name fs, skip_comma p2)
                else and_then (expect COLON p2) (\<lambda>_ p3.
                     and_then (field_value (skip_newlines p3)) (\<lambda>v p4.
                       Inr (set_field name v fs, skip_comma p4))))"

lemma size_field_value: "field_value p = Inr (v, q) \<Longrightarrow> size_ahead q \<le> size_ahead p"
  using size_next[of p] size_dotted[of "tvalue (current_token p)" "next_token p"]
  by (auto simp: field_value_def Let_def split: if_splits prod.splits sum.splits
      dest!: size_out_list intro: order.trans less_imp_le)

lemma size_entry:
  assumes "out_entry res fs p = Inr (f, q)" "\<not> match [EOF] p"
  shows "size_ahead q < size_ahead p"
proof -
  have less: "size_ahead (next_token p) < size_ahead p" using assms(2) by (rule size_next_less)
  obtain name p1 where name: "dotted (tvalue (current_token p)) (next_token p) = (name, p1)" by force
  have p1: "size_ahead (skip_newlines p1) < size_ahead p"
    using size_dotted[of "tvalue (current_token p)" "next_token p"] size_skip[of p1] less name by simp
  consider g r where "parse_out_list 0 p = Inr (g, r)" "q = skip_comma r" | "q = next_token p"
    | "q = skip_comma (skip_newlines p1)"
    | t r v r' where "expect COLON (skip_newlines p1) = Inr (t, r)"
        "field_value (skip_newlines r) = Inr (v, r')" "q = skip_comma r'"
    using assms(1) name by (auto simp: out_entry_def Let_def split: if_splits)
  then show ?thesis
  proof cases
    case (1 g r)
    then show ?thesis using size_out_list size_comma[of r] by fastforce
  next
    case (4 t r v r')
    have "size_ahead r < size_ahead (skip_newlines p1)" using size_expect[OF 4(1)] by simp
    then show ?thesis
      using size_field_value[OF 4(2)] size_skip[of r] size_comma[of r'] p1 4(3) by simp
  qed (use less p1 size_comma[of "skip_newlines p1"] in auto)
qed

function out_entries :: "(string \<Rightarrow> string option) \<Rightarrow> out_block \<Rightarrow> parser \<Rightarrow> out_block parsed" where
  "out_entries res fs p =
     (let p1 = skip_newlines p
      in if match [OUT_CLOSE, EOF] p then Inr (fs, p)
         else if match [OUT_CLOSE, EOF] p1 then Inr (fs, p1)
         else and_then (out_entry res fs p1) (\<lambda>f p2. out_entries res f p2))"
  by pat_completeness auto
termination
proof (relation "measure (\<lambda>(_, _, p). size_ahead p)", goal_cases)
  case (2 res fs p p1 f q)
  then have "size_ahead q < size_ahead p1" by (intro size_entry) (auto simp: match_def)
  then show ?case using size_skip[of p] 2(1) by simp
qed simp

declare out_entries.simps [simp del]

definition parse_out_block :: "lvar list \<Rightarrow> lact list \<Rightarrow> parser \<Rightarrow> out_block parsed" where
  "parse_out_block lvs las p =
     and_then (expect OUT_OPEN p) (\<lambda>_ p1.
     and_then (out_entries (resolve_alias_to_spec lvs las) [] (skip_newlines p1)) (\<lambda>fs p2.
       Inr (fs, if match [OUT_CLOSE] p2 then next_token p2 else p2)))"

section \<open>The program\<close>

lemma size_skip_to: "skip_to ty p = Inr q \<Longrightarrow> size_ahead q \<le> size_ahead p"
proof (induction ty p rule: skip_to.induct)
  case (1 ty p)
  show ?case
  proof (cases "match [ty] p \<or> match [EOF] p")
    case False
    have "skip_to ty (next_token p) = Inr q" using 1(2) False by (subst (asm) skip_to.simps) simp
    then show ?thesis using "1.IH" False size_next[of p] by force
  qed (use 1(2) skip_to.simps[of ty p] in \<open>auto split: if_splits\<close>)
qed

lemma size_expect_le: "expect ty p = Inr (t, q) \<Longrightarrow> size_ahead q \<le> size_ahead p"
  using size_next[of p] by (auto simp: expect_def Let_def split: if_splits)

lemma size_head: "parse_head first p = Inr (h, q) \<Longrightarrow> size_ahead q \<le> size_ahead p"
  using size_next[of p] size_expect_le[of ID "next_token p"]
  by (auto simp: parse_head_def split: if_splits intro: order.trans[OF size_next])

lemma parse_tagE:
  assumes "parse_tag oty cty opening closing unclosed ws p = Inr ((h, c), q)"
  obtains t0 p0 t p1 p2 t3 p3 p4 t4 where
    "expect oty p = Inr (t0, p0)" "expect ID (skip_newlines p0) = Inr (t, p1)"
    "parse_head (tvalue t) p1 = Inr (h, p2)" "expect GT p2 = Inr (t3, p3)"
    "tag_content opening closing unclosed (ws h) (skip_newlines p3) = Inr c"
    "skip_to cty (skip_newlines p3) = Inr p4" "expect cty p4 = Inr (t4, q)"
proof -
  obtain t0 p0 t p1 h' p2 t3 p3 where run:
    "expect oty p = Inr (t0, p0)" "expect ID (skip_newlines p0) = Inr (t, p1)"
    "parse_head (tvalue t) p1 = Inr (h', p2)" "expect GT p2 = Inr (t3, p3)"
    "(case tag_content opening closing unclosed (ws h') (skip_newlines p3) of
        Inl e \<Rightarrow> Inl e
      | Inr c' \<Rightarrow>
          (case skip_to cty (skip_newlines p3) of
             Inl t \<Rightarrow> Inl (unclosed t)
           | Inr p4 \<Rightarrow> and_then (expect cty p4) (\<lambda>_ p5. Inr ((h', c'), p5)))) = Inr ((h, c), q)"
    using assms unfolding parse_tag_def Let_def and_then_Inr by blast
  obtain c' p4 where c: "tag_content opening closing unclosed (ws h') (skip_newlines p3) = Inr c'"
    "skip_to cty (skip_newlines p3) = Inr p4"
    using run(5) by (auto split: sum.splits)
  then obtain t4 where "expect cty p4 = Inr (t4, q)" "h' = h" "c' = c" using run(5) by auto
  then show thesis using that run(1-4) c by blast
qed

lemma size_tag:
  assumes "parse_tag oty cty opening closing unclosed ws p = Inr ((h, c), q)" "oty \<noteq> EOF"
  shows "size_ahead q < size_ahead p"
  using assms(1)
proof (cases rule: parse_tagE)
  case (1 t0 p0 t p1 p2 t3 p3 p4 t4)
  have "size_ahead p0 < size_ahead p" using size_expect[OF 1(1) assms(2)] .
  moreover have "size_ahead p1 \<le> size_ahead p0" using size_expect_le[OF 1(2)] size_skip[of p0] by simp
  moreover have "size_ahead p3 \<le> size_ahead p1" using size_head[OF 1(3)] size_expect_le[OF 1(4)] by simp
  moreover have "size_ahead q \<le> size_ahead p3"
    using size_skip_to[OF 1(6)] size_expect_le[OF 1(7)] size_skip[of p3] by simp
  ultimately show ?thesis by simp
qed

lemma size_lvar: "parse_lvar p = Inr (lv, q) \<Longrightarrow> size_ahead q < size_ahead p"
  by (auto simp: parse_lvar_def intro: size_tag)

lemma size_lact: "parse_lact p = Inr (la, q) \<Longrightarrow> size_ahead q < size_ahead p"
  by (auto simp: parse_lact_def size_ahead_def warn_reserved_def split: if_splits
      dest!: size_tag[unfolded size_ahead_def])

function parse_items :: "lvar list \<Rightarrow> lact list \<Rightarrow> parser \<Rightarrow> program parsed" where
  "parse_items lvs las p =
     (let p1 = skip_newlines p; seen = set (map lvar_alias lvs) \<union> set (map lact_alias las);
          prog = \<lparr>lvars = lvs, lacts = las, program_out = None\<rparr>
      in if match [EOF] p then Inr (prog, p)
         else if match [EOF] p1 then Inr (prog, p1)
         else if match [LVAR_OPEN] p1
         then and_then (parse_lvar p1) (\<lambda>lv p2.
                if lvar_alias lv \<in> seen then Inl (Duplicate_alias (lvar_alias lv) (current_token p2))
                else parse_items (lvs @ [lv]) las p2)
         else if match [LACT_OPEN] p1
         then and_then (parse_lact p1) (\<lambda>la p2.
                if lact_alias la \<in> seen then Inl (Duplicate_alias (lact_alias la) (current_token p2))
                else parse_items lvs (las @ [la]) p2)
         else if match [OUT_OPEN] p1
         then and_then (parse_out_block lvs las p1) (\<lambda>b p2. Inr (prog\<lparr>program_out := Some b\<rparr>, p2))
         else parse_items lvs las (next_token p1))"
  by pat_completeness auto
termination
proof (relation "measure (\<lambda>(_, _, p). size_ahead p)", goal_cases)
  case 1
  then show ?case by simp
next
  case (2 lvs las p p1)
  then show ?case using size_lvar[of p1] size_skip[of p] by fastforce
next
  case (3 lvs las p p1)
  then show ?case using size_lact[of p1] size_skip[of p] by fastforce
next
  case (4 lvs las p p1)
  then show ?case using size_next_less[of p1] size_skip[of p] by fastforce
qed

declare parse_items.simps [simp del]

definition parse :: "parser \<Rightarrow> program parsed" where
  "parse p =
     (if source_text p = None then Inl (No_source (current_token p)) else parse_items [] [] p)"

text \<open>\<open>Parser(Lexer(text).tokenize(), source_text=text).parse()\<close>.\<close>

definition parse_text :: "string list \<Rightarrow> string \<Rightarrow> program parsed" where
  "parse_text ws text = parse (mk_parser (tokenize text) (Some text) ws)"

section \<open>What every parsed tag satisfies\<close>

lemma source_next [simp]: "source_text (next_token p) = source_text p"
  by (simp add: next_token_def)

lemma source_skip [simp]: "source_text (skip_newlines p) = source_text p"
proof (induction p rule: skip_newlines.induct)
  case (1 p)
  then show ?case by (subst skip_newlines.simps) simp
qed

lemma source_skip_to: "skip_to ty p = Inr q \<Longrightarrow> source_text q = source_text p"
proof (induction ty p rule: skip_to.induct)
  case (1 ty p)
  then show ?case using skip_to.simps[of ty p] by (auto split: if_splits)
qed

lemma source_expect: "expect ty p = Inr (t, q) \<Longrightarrow> source_text q = source_text p"
  by (auto simp: expect_def Let_def split: if_splits)

lemma source_head: "parse_head first p = Inr (h, q) \<Longrightarrow> source_text q = source_text p"
  by (auto simp: parse_head_def split: if_splits dest!: source_expect)

lemma source_tag:
  assumes "parse_tag oty cty opening closing unclosed ws p = Inr ((h, c), q)"
  shows "source_text q = source_text p"
    and "\<exists>p'. source_text p' = source_text p \<and> tag_content opening closing unclosed (ws h) p' = Inr c"
proof -
  obtain t0 p0 t p1 p2 t3 p3 p4 t4 where run:
    "expect oty p = Inr (t0, p0)" "expect ID (skip_newlines p0) = Inr (t, p1)"
    "parse_head (tvalue t) p1 = Inr (h, p2)" "expect GT p2 = Inr (t3, p3)"
    "tag_content opening closing unclosed (ws h) (skip_newlines p3) = Inr c"
    "skip_to cty (skip_newlines p3) = Inr p4" "expect cty p4 = Inr (t4, q)"
    using assms by (rule parse_tagE)
  have src: "source_text (skip_newlines p3) = source_text p"
    using source_expect[OF run(1)] source_expect[OF run(2)] source_head[OF run(3)] source_expect[OF run(4)]
    by simp
  then show "source_text q = source_text p"
    using source_skip_to[OF run(6)] source_expect[OF run(7)] by simp
  show "\<exists>p'. source_text p' = source_text p \<and> tag_content opening closing unclosed (ws h) p' = Inr c"
    using src run(5) by blast
qed

lemma source_lvar: "parse_lvar p = Inr (lv, q) \<Longrightarrow> source_text q = source_text p"
  by (auto simp: parse_lvar_def dest: source_tag)

lemma source_lact: "parse_lact p = Inr (la, q) \<Longrightarrow> source_text q = source_text p"
  by (auto simp: parse_lact_def warn_reserved_def dest: source_tag split: if_splits)

definition seen_aliases :: "lvar list \<Rightarrow> lact list \<Rightarrow> string set" where
  "seen_aliases lvs las = set (map lvar_alias lvs) \<union> set (map lact_alias las)"

text \<open>A property of the tags read so far that every accepted tag keeps holds of the program.\<close>

lemma parse_items_inv:
  assumes "parse_items lvs las p = Inr (prog, q)" "I lvs las"
    and lvar: "\<And>lvs las p lv q. I lvs las \<Longrightarrow> source_text p = src \<Longrightarrow> parse_lvar p = Inr (lv, q) \<Longrightarrow>
           lvar_alias lv \<notin> seen_aliases lvs las \<Longrightarrow> I (lvs @ [lv]) las"
    and lact: "\<And>lvs las p la q. I lvs las \<Longrightarrow> source_text p = src \<Longrightarrow> parse_lact p = Inr (la, q) \<Longrightarrow>
           lact_alias la \<notin> seen_aliases lvs las \<Longrightarrow> I lvs (las @ [la])"
    and "source_text p = src"
  shows "I (lvars prog) (lacts prog)"
  using assms(1,2,5)
proof (induction lvs las p rule: parse_items.induct)
  case (1 lvs las p)
  let ?p1 = "skip_newlines p"
  note run = 1(4)[unfolded parse_items.simps[of lvs las p] Let_def]
  have src: "source_text ?p1 = src" using 1(6) by simp
  consider "match [EOF] p \<or> match [EOF] ?p1" | "\<not> match [EOF] p" "\<not> match [EOF] ?p1" "match [LVAR_OPEN] ?p1"
    | "\<not> match [EOF] p" "\<not> match [EOF] ?p1" "\<not> match [LVAR_OPEN] ?p1" "match [LACT_OPEN] ?p1"
    | "\<not> match [EOF] p" "\<not> match [EOF] ?p1" "\<not> match [LVAR_OPEN] ?p1" "\<not> match [LACT_OPEN] ?p1"
    by blast
  then show ?case
  proof cases
    case 1
    then have "prog = \<lparr>lvars = lvs, lacts = las, program_out = None\<rparr>" using run by (auto split: if_splits)
    then show ?thesis using "1.prems"(2) by simp
  next
    case 2
    then obtain lv p2 where lv: "parse_lvar ?p1 = Inr (lv, p2)"
      "lvar_alias lv \<notin> set (map lvar_alias lvs) \<union> set (map lact_alias las)"
      "parse_items (lvs @ [lv]) las p2 = Inr (prog, q)"
      using run by (auto split: if_splits)
    have "I (lvs @ [lv]) las" using lvar[OF "1.prems"(2) src lv(1)] lv(2) by (simp add: seen_aliases_def)
    then show ?thesis using "1.IH"(1)[OF refl refl refl 2 lv] source_lvar[OF lv(1)] src by simp
  next
    case 3
    then obtain la p2 where la: "parse_lact ?p1 = Inr (la, p2)"
      "lact_alias la \<notin> set (map lvar_alias lvs) \<union> set (map lact_alias las)"
      "parse_items lvs (las @ [la]) p2 = Inr (prog, q)"
      using run by (auto split: if_splits)
    have "I lvs (las @ [la])" using lact[OF "1.prems"(2) src la(1)] la(2) by (simp add: seen_aliases_def)
    then show ?thesis using "1.IH"(2)[OF refl refl refl 3 la] source_lact[OF la(1)] src by simp
  next
    case 4
    show ?thesis
    proof (cases "match [OUT_OPEN] ?p1")
      case True
      then have "lvars prog = lvs \<and> lacts prog = las" using 4 run by auto
      then show ?thesis using "1.prems"(2) by simp
    next
      case False
      then show ?thesis using "1.IH"(3)[OF refl refl refl 4 False] 4 run "1.prems"(2,3) by simp
    qed
  qed
qed

lemma parse_aliases:
  assumes "parse_items [] [] p = Inr (prog, q)"
  shows "distinct (map lvar_alias (lvars prog) @ map lact_alias (lacts prog))"
  by (rule parse_items_inv[OF assms, where I = "\<lambda>lvs las. distinct (map lvar_alias lvs @ map lact_alias las)"])
     (auto simp: seen_aliases_def)

text \<open>
  \<open>c\<close> is the text of some element of \<open>src\<close> with these names: what lies, stripped, between an opening
  tag that matches and the closing tag after it.
\<close>

definition tag_text_in :: "string \<Rightarrow> string \<Rightarrow> string list \<Rightarrow> string \<Rightarrow> string \<Rightarrow> bool" where
  "tag_text_in opening closing ws src c \<longleftrightarrow>
     (\<exists>pre names body post.
        src = pre @ opening @ names @ body @ closing @ post \<and>
        re_words ws (names @ body @ closing @ post) = Some (body @ closing @ post) \<and>
        before closing (body @ closing @ post) = Some body \<and> c = strip body)"

lemma drop_prefix_Some: "drop_prefix w v = Some r \<longleftrightarrow> v = w @ r"
  by (auto simp: drop_prefix_def) (metis append_take_drop_id)

lemma re_words_suffix: "re_words ws v = Some r \<Longrightarrow> \<exists>names. v = names @ r"
proof (induction ws arbitrary: v)
  case Nil
  then have "dropWhile is_space v = ''>'' @ r" by (simp add: drop_prefix_Some)
  then have "v = (takeWhile is_space v @ ''>'') @ r" by (metis append.assoc takeWhile_dropWhile_id)
  then show ?case by blast
next
  case (Cons w ws)
  then obtain r' where r': "dropWhile is_space v = w @ r'" "re_words ws r' = Some r"
    by (auto simp: drop_prefix_Some split: if_splits option.splits)
  obtain names where "r' = names @ r" using Cons.IH[OF r'(2)] by blast
  then have "v = (takeWhile is_space v @ w @ names) @ r"
    using r'(1) by (metis append.assoc takeWhile_dropWhile_id)
  then show ?case by blast
qed

lemma before_Some: "before w v = Some b \<Longrightarrow> \<exists>post. v = b @ w @ post"
proof (induction v arbitrary: b)
  case (Cons c v)
  show ?case
  proof (cases "take (length w) (c # v) = w")
    case True
    then have "b = [] \<and> c # v = w @ drop (length w) (c # v)"
      using Cons.prems append_take_drop_id[of "length w" "c # v"] by simp
    then show ?thesis by auto
  next
    case False
    then obtain b' where "before w v = Some b'" "b = c # b'" using Cons.prems by auto
    then show ?thesis using Cons.IH by auto
  qed
qed (simp split: if_splits)

lemma re_match_in:
  assumes "re_match opening ws closing v = Some g"
  shows "tag_text_in opening closing ws v (strip g)"
proof -
  obtain r r' where r: "v = opening @ r" "re_words ws r = Some r'" "before closing r' = Some g"
    using assms by (auto simp: re_match_def drop_prefix_Some split: option.splits)
  obtain names where names: "r = names @ r'" using re_words_suffix[OF r(2)] by blast
  obtain post where post: "r' = g @ closing @ post" using before_Some[OF r(3)] by blast
  have "v = [] @ opening @ names @ g @ closing @ post" using r(1) names post by simp
  then show ?thesis using r(2,3) unfolding names post tag_text_in_def by blast
qed

lemma tag_text_in_Cons:
  assumes "tag_text_in opening closing ws v c"
  shows "tag_text_in opening closing ws (a # v) c"
proof -
  obtain pre names body post where v: "v = pre @ opening @ names @ body @ closing @ post"
    and rest: "re_words ws (names @ body @ closing @ post) = Some (body @ closing @ post)"
      "before closing (body @ closing @ post) = Some body" "c = strip body"
    using assms unfolding tag_text_in_def by blast
  have "a # v = (a # pre) @ opening @ names @ body @ closing @ post" using v by simp
  then show ?thesis using rest unfolding tag_text_in_def by blast
qed

lemma re_search_in:
  "re_search opening ws closing v = Some g \<Longrightarrow> tag_text_in opening closing ws v (strip g)"
proof (induction v)
  case (Cons c v)
  show ?case
  proof (cases "re_match opening ws closing (c # v)")
    case None
    then show ?thesis using Cons tag_text_in_Cons by simp
  next
    case (Some g')
    then show ?thesis using Cons.prems re_match_in by simp
  qed
qed (simp add: re_match_in)

lemma tag_content_in:
  "tag_content opening closing unclosed ws p = Inr c \<Longrightarrow> source_text p = Some src \<Longrightarrow>
   tag_text_in opening closing ws src c"
  by (auto simp: tag_content_def re_search_in split: if_splits option.splits)

section \<open>Nesting\<close>

fun depth_of :: "oval \<Rightarrow> nat" where
  "depth_of (VList vs) = Suc (foldr (\<lambda>v n. max (depth_of v) n) vs 0)"
| "depth_of _ = 0"

abbreviation depth_items :: "oval list \<Rightarrow> nat" where
  "depth_items vs \<equiv> foldr (\<lambda>v n. max (depth_of v) n) vs 0"

lemma depth_items_append: "depth_items (vs @ ws) = max (depth_items vs) (depth_items ws)"
  by (induction vs) (auto simp: max.assoc)

lemma coerce_depth: "coerce_num t = Inr v \<Longrightarrow> depth_of v = 0"
  by (auto simp: coerce_num_def py_int_def py_float_def Let_def split: if_splits prod.splits option.splits)

lemma flat_depth: "flat_item p = Inr (vs, q) \<Longrightarrow> depth_items vs = 0"
  by (auto simp: flat_item_def Let_def coerce_depth split: if_splits prod.splits sum.splits)

lemma out_depth:
  "parse_out_list d p = Inr (v, q) \<Longrightarrow> depth_items v + Suc d \<le> max_out_nesting_depth"
  "d' < max_out_nesting_depth \<Longrightarrow> out_items d' p' = Inr (v', q') \<Longrightarrow>
     depth_items v' + Suc d' \<le> max_out_nesting_depth"
proof (induction d p and d' p' arbitrary: v q and v' q' rule: parse_out_list_out_items.induct)
  case (1 d p)
  then show ?case using parse_out_list.simps[of d p] by (auto split: if_splits)
next
  case (2 d p)
  let ?p1 = "skip_newlines p"
  note run = 2(4)[unfolded out_items.simps[of d p] Let_def]
  show ?case
  proof (cases "match [RBRACKET, EOF] p \<or> match [RBRACKET, EOF] ?p1")
    case True
    then show ?thesis using run 2(3) by (auto split: if_splits)
  next
    case False
    then have stop: "\<not> match [RBRACKET, EOF] p" "\<not> match [RBRACKET, EOF] ?p1" by simp_all
    obtain vs p2 rs where p2:
      "(if match [LBRACKET] ?p1 then and_then (parse_out_list (Suc d) ?p1) (\<lambda>g p2. Inr ([VList g], p2))
        else flat_item ?p1) = Inr (vs, p2)"
      "out_items d (skip_comma p2) = Inr (rs, q')" "v' = vs @ rs"
      using run stop by (auto simp del: if_split)
    have "depth_items rs + Suc d \<le> max_out_nesting_depth"
      using "2.IH"(2)[OF refl stop p2(1) 2(3) p2(2)] .
    moreover have "depth_items vs + Suc d \<le> max_out_nesting_depth"
    proof (cases "match [LBRACKET] ?p1")
      case True
      then obtain g where "parse_out_list (Suc d) ?p1 = Inr (g, p2)" "vs = [VList g]" using p2(1) by auto
      then show ?thesis using "2.IH"(1)[OF refl stop True] by fastforce
    next
      case False
      then show ?thesis using p2(1) flat_depth[of ?p1 vs p2] 2(3) by simp
    qed
    ultimately show ?thesis unfolding p2(3) depth_items_append by linarith
  qed
qed

section \<open>Printing an OUT block and parsing it\<close>

lemma code_digit: "d < 10 \<Longrightarrow> code (digit_char d) = 48 + d"
  by (simp add: digit_char_def)

lemma digit_char_is: "d < 10 \<Longrightarrow> dec_digit (digit_char d) \<and> is_digit (digit_char d)"
  by (simp add: dec_digit_def is_digit_def code_digit)

lemma dec_is_digit: "dec_digit c \<Longrightarrow> is_digit c"
  by (simp add: dec_digit_def is_digit_def)

lemma dec_value_snoc: "dec_value (ds @ [c]) = 10 * dec_value ds + (int (code c) - 48)"
  by (simp add: dec_value_def)

lemma nat_text_dec: "dec_text (nat_text n) \<and> dec_value (nat_text n) = int n"
proof (induction n rule: nat_text.induct)
  case (1 n)
  show ?case
  proof (cases "n < 10")
    case True
    then show ?thesis using digit_char_is[of n]
      by (subst (1 2) nat_text.simps) (simp add: dec_text_def dec_value_def code_digit)
  next
    case False
    then have ih: "dec_text (nat_text (n div 10))" "dec_value (nat_text (n div 10)) = int (n div 10)"
      using 1 by simp_all
    have "nat_text n = nat_text (n div 10) @ [digit_char (n mod 10)]"
      using False by (subst nat_text.simps) simp
    moreover have "dec_digit (digit_char (n mod 10))" using digit_char_is by simp
    moreover have "10 * int (n div 10) + int (n mod 10) = int n"
      by (metis mult_div_mod_eq of_nat_add of_nat_mult of_nat_numeral)
    ultimately show ?thesis using ih by (simp add: dec_value_snoc dec_text_def code_digit)
  qed
qed

lemma dec_text_signed:
  assumes "dec_text ds"
  shows "signed (ds @ x) = (1, ds @ x)" "signed ds = (1, ds)"
proof -
  obtain c ds' where "ds = c # ds'" "dec_digit c" using assms by (cases ds) (auto simp: dec_text_def)
  then show "signed (ds @ x) = (1, ds @ x)" "signed ds = (1, ds)"
    by (auto simp: signed_def dec_digit_def)
qed

lemma signed_minus: "signed (CHR ''-'' # x) = (-1, x)"
  by (simp add: signed_def)

lemma signed_int_text: "signed (int_text i) = (if i < 0 then -1 else 1, nat_text (nat (abs i)))"
  using nat_text_dec dec_text_signed(2) by (simp add: int_text_def signed_minus)

lemma py_int_text:
  "length (nat_text (nat (abs i))) \<le> int_digits_limit \<Longrightarrow> py_int (int_text i) = Some (VInt i)"
  using nat_text_dec[of "nat (abs i)"] by (simp add: py_int_def signed_int_text)

definition float_text :: "int \<Rightarrow> int \<Rightarrow> string" where
  "float_text m e = int_text m @ CHR ''e'' # int_text e"

lemma dec_not_exponent: "dec_digit c \<Longrightarrow> \<not> exponent_char c \<and> c \<noteq> CHR ''.'' \<and> c \<noteq> CHR ''-''"
  by (auto simp: dec_digit_def exponent_char_def)

lemma nat_text_chars: "c \<in> set (nat_text n) \<Longrightarrow> dec_digit c"
  using nat_text_dec[of n] by (auto simp: dec_text_def list_all_iff)

lemma py_float_text: "is_finite \<bar>m\<bar> e \<Longrightarrow> py_float (float_text m e) = Some (VFloat m e)"
proof -
  assume fin: "is_finite \<bar>m\<bar> e"
  let ?ds = "nat_text (nat \<bar>m\<bar>)"
  have ds: "dec_text ?ds" "dec_value ?ds = \<bar>m\<bar>" using nat_text_dec by simp_all
  define sg :: int where "sg = (if m < 0 then -1 else 1)"
  have sign: "signed (float_text m e) = (sg, ?ds @ CHR ''e'' # int_text e)"
    using dec_text_signed(1)[OF ds(1)] by (auto simp: float_text_def int_text_def signed_minus sg_def)
  have mant: "takeWhile (\<lambda>c. \<not> exponent_char c) (?ds @ CHR ''e'' # int_text e) = ?ds"
    "dropWhile (\<lambda>c. \<not> exponent_char c) (?ds @ CHR ''e'' # int_text e) = CHR ''e'' # int_text e"
    using nat_text_chars dec_not_exponent
    by (auto simp: exponent_char_def takeWhile_append dropWhile_append)
  have point: "takeWhile (\<lambda>c. c \<noteq> CHR ''.'') ?ds = ?ds" "dropWhile (\<lambda>c. c \<noteq> CHR ''.'') ?ds = []"
    using nat_text_chars dec_not_exponent by (auto simp: takeWhile_eq_all_conv dropWhile_eq_Nil_conv)
  have expo: "exponent_value (CHR ''e'' # int_text e) = Some e"
    using nat_text_dec[of "nat \<bar>e\<bar>"] by (simp add: exponent_value_def signed_int_text)
  have "sg * \<bar>m\<bar> = m" by (simp add: sg_def)
  then show ?thesis
    unfolding py_float_def sign prod.case Let_def mant point expo using ds fin by simp
qed

lemma nat_text_digits:
  "nat_text n \<noteq> []" "is_digit (hd (nat_text n))" "list_all is_digit (nat_text n)"
  "list_all is_num_char (nat_text n)"
  using nat_text_dec[of n] nat_text_chars[of _ n] dec_is_digit
  by (auto simp: dec_text_def list_all_iff is_num_char_def)

lemma number_text_nat: "number_text (nat_text n)"
  unfolding number_text_def
  by (rule exI[of _ "nat_text n"], rule exI[of _ "[]"]) (simp add: nat_text_digits)

lemma number_text_float: "number_text (nat_text n @ CHR ''e'' # int_text e)"
proof -
  let ?sg = "if e < 0 then ''-'' else []" and ?es = "nat_text (nat \<bar>e\<bar>)"
  have "CHR ''e'' # int_text e = CHR ''e'' # ?sg @ ?es" by (simp add: int_text_def)
  then have "\<exists>c sg es. CHR ''e'' # int_text e = c # sg @ es \<and> c \<in> {CHR ''e'', CHR ''E''} \<and>
      sg \<in> {[], ''+'', ''-''} \<and> es \<noteq> [] \<and> list_all is_digit es"
    by (intro exI[of _ "CHR ''e''"] exI[of _ ?sg] exI[of _ ?es]) (simp add: nat_text_digits)
  then show ?thesis
    unfolding number_text_def
    by (intro exI[of _ "nat_text n"] exI[of _ "CHR ''e'' # int_text e"]) (simp add: nat_text_digits)
qed

lemma int_token: "token_text True NUM (int_text i)"
  using number_text_nat by (auto simp: token_text_def int_text_def)

lemma float_token: "token_text True NUM (float_text m e)"
  using number_text_float[of "nat (- m)" e] number_text_float[of "nat m" e]
  by (auto simp: token_text_def float_text_def int_text_def[of m])

text \<open>The tokens of a value, and of a block: every item and every entry is followed by a comma.\<close>

abbreviation comma_token :: "token_type \<times> string" where
  "comma_token \<equiv> (COMMA, '','')"

fun value_tokens :: "oval \<Rightarrow> (token_type \<times> string) list" where
  "value_tokens (VStr v) = [(STRING, v)]"
| "value_tokens (VInt i) = [(NUM, int_text i)]"
| "value_tokens (VFloat m e) = [(NUM, float_text m e)]"
| "value_tokens (VBool b) = [(ID, if b then ''true'' else ''false'')]"
| "value_tokens (VList vs) =
     (LBRACKET, ''['') # concat (map (\<lambda>v. value_tokens v @ [comma_token]) vs) @ [(RBRACKET, '']'')]"

definition entry_tokens :: "string \<Rightarrow> oval \<Rightarrow> (token_type \<times> string) list" where
  "entry_tokens name v = (ID, name) # (COLON, '':'') # value_tokens v @ [comma_token]"

definition block_tokens :: "out_block \<Rightarrow> (token_type \<times> string) list" where
  "block_tokens fs =
     (OUT_OPEN, ''OUT{'') # concat (map (\<lambda>(n, v). entry_tokens n v) fs) @ [(OUT_CLOSE, ''}'')]"

text \<open>
  The values a block can hold: numbers Python reads back, and lists nested at most
  \<open>max_out_nesting_depth\<close> levels; \<open>d\<close> is the depth of the list an item is in.
\<close>

fun item_ok :: "nat \<Rightarrow> oval \<Rightarrow> bool" where
  "item_ok d (VStr v) \<longleftrightarrow> True"
| "item_ok d (VInt i) \<longleftrightarrow> length (nat_text (nat \<bar>i\<bar>)) \<le> int_digits_limit"
| "item_ok d (VFloat m e) \<longleftrightarrow> is_finite \<bar>m\<bar> e"
| "item_ok d (VBool b) \<longleftrightarrow> True"
| "item_ok d (VList vs) \<longleftrightarrow> d < max_out_nesting_depth \<and> list_all (item_ok (Suc d)) vs"

text \<open>What the parser makes of a value: inside a list \<open>true\<close> and \<open>false\<close> are names, so strings.\<close>

fun as_item :: "oval \<Rightarrow> oval" where
  "as_item (VBool b) = VStr (if b then ''true'' else ''false'')"
| "as_item (VList vs) = VList (map as_item vs)"
| "as_item v = v"

definition as_read :: "oval \<Rightarrow> oval" where
  "as_read v = (case v of VBool b \<Rightarrow> VBool b | _ \<Rightarrow> as_item v)"

definition block_read :: "out_block \<Rightarrow> out_block" where
  "block_read fs = map (\<lambda>(n, v). (n, as_read v)) fs"

lemma block_read_simps [simp]:
  "block_read [] = []" "block_read ((n, v) # fs) = (n, as_read v) # block_read fs"
  "block_read (fs @ gs) = block_read fs @ block_read gs" "dkeys (block_read fs) = dkeys fs"
  by (simp_all add: block_read_def case_prod_unfold comp_def)

definition name_ok :: "string \<Rightarrow> bool" where
  "name_ok n \<longleftrightarrow> n \<noteq> [] \<and> (is_alpha (hd n) \<or> hd n = CHR ''_'') \<and> list_all is_ident n"

definition block_ok :: "out_block \<Rightarrow> bool" where
  "block_ok fs \<longleftrightarrow> distinct (dkeys fs) \<and> list_all (\<lambda>(n, v). name_ok n \<and> item_ok 0 v) fs"

lemma token_texts_append:
  "token_texts b ts \<Longrightarrow> list_all (\<lambda>(ty, _). ty \<notin> {OUT_OPEN, OUT_CLOSE}) ts \<Longrightarrow>
   token_texts b (ts @ us) \<longleftrightarrow> token_texts b us"
  by (induction b ts rule: token_texts.induct) (auto simp: flag_after_def)

lemma token_texts_concat:
  "(\<And>x. x \<in> set xs \<Longrightarrow> token_texts b (f x)) \<Longrightarrow>
   (\<And>x. x \<in> set xs \<Longrightarrow> list_all (\<lambda>(ty, _). ty \<notin> {OUT_OPEN, OUT_CLOSE}) (f x)) \<Longrightarrow>
   token_texts b (concat (map f xs)) \<and>
   list_all (\<lambda>(ty, _). ty \<notin> {OUT_OPEN, OUT_CLOSE}) (concat (map f xs))"
  by (induction xs) (simp_all add: token_texts_append)

lemma fixed_tokens:
  "token_text True LBRACKET ''[''" "token_text True RBRACKET '']''" "token_text True COMMA '',''"
  "token_text True COLON '':''" "token_text True OUT_CLOSE ''}''" "token_text False OUT_OPEN ''OUT{''"
  by (simp_all add: token_text_def punctuation_def tag_text_def)

lemma bool_token: "token_text True ID (if b then ''true'' else ''false'')"
  by (simp add: token_text_def is_alpha_def is_ident_def is_alnum_def)

lemma value_token_texts:
  "token_texts True (value_tokens v) \<and> list_all (\<lambda>(ty, _). ty \<notin> {OUT_OPEN, OUT_CLOSE}) (value_tokens v)"
proof (induction v)
  case (VList vs)
  let ?items = "concat (map (\<lambda>v. value_tokens v @ [comma_token]) vs)"
  have "token_texts True ?items \<and> list_all (\<lambda>(ty, _). ty \<notin> {OUT_OPEN, OUT_CLOSE}) ?items"
    using VList by (intro token_texts_concat) (auto simp: token_texts_append fixed_tokens)
  then show ?case by (simp add: fixed_tokens flag_after_def token_texts_append)
qed (simp_all add: int_token float_token bool_token token_text_def[of _ STRING])

definition names_ok :: "out_block \<Rightarrow> bool" where
  "names_ok fs \<longleftrightarrow> list_all (\<lambda>(n, v). name_ok n) fs"

lemma entry_token_texts:
  "name_ok n \<Longrightarrow> token_texts True (entry_tokens n v) \<and>
     list_all (\<lambda>(ty, _). ty \<notin> {OUT_OPEN, OUT_CLOSE}) (entry_tokens n v)"
  using value_token_texts[of v]
  by (simp add: entry_tokens_def name_ok_def token_text_def[of _ ID] flag_after_def fixed_tokens
      token_texts_append)

lemma block_token_texts: "names_ok fs \<Longrightarrow> token_texts False (block_tokens fs)"
proof -
  assume ok: "names_ok fs"
  let ?es = "concat (map (\<lambda>(n, v). entry_tokens n v) fs)"
  have "name_ok (fst x)" if "x \<in> set fs" for x
    using ok that by (auto simp: names_ok_def list_all_iff)
  then have "token_texts True ?es \<and> list_all (\<lambda>(ty, _). ty \<notin> {OUT_OPEN, OUT_CLOSE}) ?es"
    using entry_token_texts by (intro token_texts_concat) (simp_all add: case_prod_unfold)
  then show ?thesis by (simp add: block_tokens_def fixed_tokens flag_after_def token_texts_append)
qed

lemma block_ok_names: "block_ok fs \<Longrightarrow> names_ok fs"
  by (auto simp: block_ok_def names_ok_def list_all_iff)

text \<open>What the parser reads depends on the kinds and values of the tokens ahead only.\<close>

definition kinds :: "parser \<Rightarrow> (token_type \<times> string) list" where
  "kinds p = map kind (ahead p)"

lemma kinds_next [simp]: "kinds (next_token p) = tl (kinds p)"
  by (simp add: kinds_def next_token_def map_tl)

lemma kinds_Cons:
  assumes "kinds p = (ty, v) # ks"
  shows "ttype (current_token p) = ty" "tvalue (current_token p) = v" "match tys p \<longleftrightarrow> ty \<in> set tys"
  using assms by (auto simp: kinds_def current_token_def match_def split: list.splits)

lemma expect_Cons: "kinds p = (ty, v) # ks \<Longrightarrow> expect ty p = Inr (current_token p, next_token p)"
  by (simp add: expect_def kinds_Cons)

lemma skip_newlines_Cons: "kinds p = (ty, v) # ks \<Longrightarrow> ty \<noteq> NEWLINE \<Longrightarrow> skip_newlines p = p"
  by (subst skip_newlines.simps) (simp add: kinds_Cons)

lemma skip_comma_Cons: "kinds p = comma_token # ks \<Longrightarrow> skip_comma p = next_token p"
  using skip_newlines_Cons[of p COMMA] by (simp add: skip_comma_def kinds_Cons)

lemma dotted_Cons: "kinds p = (ty, v) # ks \<Longrightarrow> ty \<noteq> DOT \<Longrightarrow> dotted name p = (name, p)"
  by (subst dotted.simps) (simp add: kinds_Cons)

lemma coerce_int:
  assumes "tvalue t = int_text i" "length (nat_text (nat \<bar>i\<bar>)) \<le> int_digits_limit"
  shows "coerce_num t = Inr (VInt i)"
proof -
  have "\<not> list_ex (\<lambda>c. c = CHR ''.'' \<or> exponent_char c) (int_text i)"
    using nat_text_chars dec_not_exponent by (auto simp: int_text_def list_ex_iff exponent_char_def)
  then show ?thesis using assms py_int_text by (simp add: coerce_num_def)
qed

lemma coerce_float:
  assumes "tvalue t = float_text m e" "is_finite \<bar>m\<bar> e"
  shows "coerce_num t = Inr (VFloat m e)"
proof -
  have "list_ex (\<lambda>c. c = CHR ''.'' \<or> exponent_char c) (float_text m e)"
    by (simp add: float_text_def exponent_char_def)
  then show ?thesis using assms py_float_text by (simp add: coerce_num_def)
qed

text \<open>How a list reads back, given that the lists inside it do.\<close>

definition reads_back :: "oval \<Rightarrow> bool" where
  "reads_back v \<longleftrightarrow>
     (\<forall>vs d p r. v = VList vs \<longrightarrow> item_ok d v \<longrightarrow> kinds p = value_tokens v @ r \<longrightarrow>
        (\<exists>q. parse_out_list d p = Inr (map as_item vs, q) \<and> kinds q = r))"

lemma value_tokens_start:
  "\<exists>ty v ks. value_tokens u = (ty, v) # ks \<and> ty \<notin> {NEWLINE, RBRACKET, EOF}"
  by (cases u) simp_all

lemma item_reads:
  assumes "reads_back u" "item_ok (Suc d) u" "kinds p = value_tokens u @ comma_token # r"
  shows "\<exists>q. (if match [LBRACKET] p then and_then (parse_out_list (Suc d) p) (\<lambda>g p2. Inr ([VList g], p2))
              else flat_item p) = Inr ([as_item u], q) \<and> kinds q = comma_token # r"
proof (cases u)
  case (VStr v)
  then show ?thesis using assms(3) by (auto simp: flat_item_def kinds_Cons)
next
  case (VInt i)
  then show ?thesis using assms(2,3) coerce_int[of "current_token p" i]
    by (auto simp: flat_item_def kinds_Cons)
next
  case (VFloat m e)
  then show ?thesis using assms(2,3) coerce_float[of "current_token p" m e]
    by (auto simp: flat_item_def kinds_Cons)
next
  case (VBool b)
  then have "kinds p = (ID, if b then ''true'' else ''false'') # comma_token # r" using assms(3) by simp
  moreover from this have "kinds (next_token p) = comma_token # r" by simp
  ultimately show ?thesis using VBool dotted_Cons[of "next_token p" COMMA] by (simp add: flat_item_def kinds_Cons)
next
  case (VList vs)
  then obtain q where "parse_out_list (Suc d) p = Inr (map as_item vs, q)" "kinds q = comma_token # r"
    using assms unfolding reads_back_def by blast
  then show ?thesis using VList assms(3) by (simp add: kinds_Cons)
qed

lemma items_read:
  assumes "\<And>u. u \<in> set us \<Longrightarrow> reads_back u" "list_all (item_ok (Suc d)) us"
    "kinds p = concat (map (\<lambda>v. value_tokens v @ [comma_token]) us) @ (RBRACKET, '']'') # r"
  shows "\<exists>q. out_items d p = Inr (map as_item us, q) \<and> kinds q = r"
  using assms
proof (induction us arbitrary: p)
  case Nil
  then have p: "kinds p = (RBRACKET, '']'') # r" by simp
  then show ?case by (subst out_items.simps) (simp add: kinds_Cons[OF p] close_list_def)
next
  case (Cons u us)
  let ?rest = "concat (map (\<lambda>v. value_tokens v @ [comma_token]) us) @ (RBRACKET, '']'') # r"
  have p: "kinds p = value_tokens u @ comma_token # ?rest" using Cons.prems(3) by simp
  obtain ty v ks where start: "value_tokens u = (ty, v) # ks" "ty \<notin> {NEWLINE, RBRACKET, EOF}"
    using value_tokens_start by blast
  have first: "kinds p = (ty, v) # ks @ comma_token # ?rest" using p start by simp
  then have go: "skip_newlines p = p" "\<not> match [RBRACKET, EOF] p"
    using start(2) skip_newlines_Cons[OF first] kinds_Cons(3)[OF first] by auto
  obtain q where q: "(if match [LBRACKET] p
       then and_then (parse_out_list (Suc d) p) (\<lambda>g p2. Inr ([VList g], p2)) else flat_item p) = Inr ([as_item u], q)"
    "kinds q = comma_token # ?rest"
    using item_reads[OF _ _ p, of d] Cons.prems(1,2) by auto
  have "kinds (skip_comma q) = ?rest" using skip_comma_Cons[OF q(2)] q(2) by simp
  then obtain q' where "out_items d (skip_comma q) = Inr (map as_item us, q')" "kinds q' = r"
    using Cons.IH[of "skip_comma q"] Cons.prems(1,2) by auto
  then show ?case using go q(1) by (subst out_items.simps) (simp add: Let_def del: if_split)
qed

lemma lists_read: "reads_back v"
proof (induction v)
  case (VList vs)
  show ?case
    unfolding reads_back_def
  proof (intro allI impI)
    fix us d p r
    assume eq: "VList vs = VList us" and ok: "item_ok d (VList vs)"
      and p: "kinds p = value_tokens (VList vs) @ r"
    let ?items = "concat (map (\<lambda>v. value_tokens v @ [comma_token]) vs) @ (RBRACKET, '']'') # r"
    have p: "kinds p = (LBRACKET, ''['') # ?items" using p by simp
    obtain ty v ks where start: "?items = (ty, v) # ks" "ty \<noteq> NEWLINE"
    proof (cases vs)
      case (Cons u vs')
      obtain ty v ks where "value_tokens u = (ty, v) # ks" "ty \<notin> {NEWLINE, RBRACKET, EOF}"
        using value_tokens_start by blast
      then show thesis using that Cons by simp
    qed (use that in simp)
    have "skip_newlines (next_token p) = next_token p"
      using skip_newlines_Cons[of "next_token p"] start p by simp
    moreover obtain q where "out_items d (next_token p) = Inr (map as_item vs, q)" "kinds q = r"
      using items_read[of vs d "next_token p" r] VList ok p by auto
    ultimately show "\<exists>q. parse_out_list d p = Inr (map as_item us, q) \<and> kinds q = r"
      using eq ok expect_Cons[OF p] by (subst parse_out_list.simps) simp
  qed
qed (simp_all add: reads_back_def)

lemma field_reads:
  assumes "item_ok 0 v" "kinds p = value_tokens v @ comma_token # r"
  shows "\<exists>q. field_value p = Inr (Some (as_read v), q) \<and> kinds q = comma_token # r"
proof (cases v)
  case (VStr w)
  then show ?thesis using assms(2) by (simp add: field_value_def kinds_Cons as_read_def)
next
  case (VInt i)
  then show ?thesis using assms coerce_int[of "current_token p" i]
    by (auto simp: field_value_def kinds_Cons as_read_def)
next
  case (VFloat m e)
  then show ?thesis using assms coerce_float[of "current_token p" m e]
    by (auto simp: field_value_def kinds_Cons as_read_def)
next
  case (VBool b)
  have p: "kinds p = (ID, if b then ''true'' else ''false'') # comma_token # r" using assms(2) VBool by simp
  have "map lower ''true'' = ''true''" "map lower ''false'' = ''false''" by (simp_all add: lower_def)
  then show ?thesis using VBool kinds_Cons[OF p] p
    by (cases b) (simp_all add: field_value_def as_read_def)
next
  case (VList vs)
  then obtain q where "parse_out_list 0 p = Inr (map as_item vs, q)" "kinds q = comma_token # r"
    using assms lists_read[of v] unfolding reads_back_def by blast
  then show ?thesis using VList assms(2) by (simp add: field_value_def kinds_Cons as_read_def)
qed

lemma entry_reads:
  assumes "name_ok n" "item_ok 0 v" "kinds p = entry_tokens n v @ r" "n \<notin> set (dkeys fs)"
  shows "\<exists>q. out_entry res fs p = Inr (fs @ [(n, as_read v)], q) \<and> kinds q = r"
proof -
  let ?p1 = "next_token p"
  have p: "kinds p = (ID, n) # (COLON, '':'') # value_tokens v @ comma_token # r"
    using assms(3) by (simp add: entry_tokens_def)
  have p1: "kinds ?p1 = (COLON, '':'') # value_tokens v @ comma_token # r" using p by simp
  have p2: "kinds (next_token ?p1) = value_tokens v @ comma_token # r" using p1 by simp
  have name: "dotted n ?p1 = (n, ?p1)" "skip_newlines ?p1 = ?p1"
    using dotted_Cons[OF p1] skip_newlines_Cons[OF p1] by simp_all
  obtain ty w ks where "value_tokens v = (ty, w) # ks" "ty \<notin> {NEWLINE, RBRACKET, EOF}"
    using value_tokens_start by blast
  then have "skip_newlines (next_token ?p1) = next_token ?p1" using skip_newlines_Cons p2 by auto
  moreover obtain q where q: "field_value (next_token ?p1) = Inr (Some (as_read v), q)" "kinds q = comma_token # r"
    using field_reads[OF assms(2) p2] by blast
  moreover have "skip_comma q = next_token q" by (rule skip_comma_Cons[OF q(2)])
  ultimately have "out_entry res fs p = Inr (fs @ [(n, as_read v)], next_token q)"
    using name kinds_Cons[OF p] kinds_Cons[OF p1] expect_Cons[OF p1] assms(4)
    by (simp add: out_entry_def set_field_def dset_fresh)
  then show ?thesis using q(2) by simp
qed

lemma entries_read:
  assumes "list_all (\<lambda>(n, v). name_ok n \<and> item_ok 0 v) fs" "distinct (dkeys (done_fs @ fs))"
    "kinds p = concat (map (\<lambda>(n, v). entry_tokens n v) fs) @ (OUT_CLOSE, ''}'') # r"
  shows "\<exists>q. out_entries res done_fs p = Inr (done_fs @ block_read fs, q) \<and> kinds q = (OUT_CLOSE, ''}'') # r"
  using assms
proof (induction fs arbitrary: done_fs p)
  case Nil
  then have p: "kinds p = (OUT_CLOSE, ''}'') # r" by simp
  then show ?case by (subst out_entries.simps) (simp add: kinds_Cons[OF p])
next
  case (Cons e fs)
  obtain n v where e: "e = (n, v)" by force
  let ?rest = "concat (map (\<lambda>(n, v). entry_tokens n v) fs) @ (OUT_CLOSE, ''}'') # r"
  have p: "kinds p = entry_tokens n v @ ?rest" using Cons.prems(3) e by simp
  then have first: "kinds p = (ID, n) # (COLON, '':'') # value_tokens v @ comma_token # ?rest"
    by (simp add: entry_tokens_def)
  obtain q where q: "out_entry res done_fs p = Inr (done_fs @ [(n, as_read v)], q)" "kinds q = ?rest"
    using entry_reads[OF _ _ p, where fs = done_fs and res = res] Cons.prems(1,2) e by auto
  obtain q' where "out_entries res (done_fs @ [(n, as_read v)]) q = Inr ((done_fs @ [(n, as_read v)]) @ block_read fs, q')"
    "kinds q' = (OUT_CLOSE, ''}'') # r"
    using Cons.IH[of "done_fs @ [(n, as_read v)]" q] Cons.prems(1,2) q(2) e by auto
  then show ?case using q(1) e skip_newlines_Cons[OF first] kinds_Cons(3)[OF first]
    by (subst out_entries.simps) simp
qed

lemma block_reads:
  assumes "block_ok fs" "kinds p = block_tokens fs"
  shows "\<exists>q. parse_out_block lvs las p = Inr (block_read fs, q)"
proof -
  let ?rest = "concat (map (\<lambda>(n, v). entry_tokens n v) fs) @ [(OUT_CLOSE, ''}'')]"
  have p: "kinds p = (OUT_OPEN, ''OUT{'') # ?rest" using assms(2) by (simp add: block_tokens_def)
  have "\<exists>ty v ks. ?rest = (ty, v) # ks \<and> ty \<noteq> NEWLINE"
    by (cases fs) (auto simp: entry_tokens_def)
  then have "skip_newlines (next_token p) = next_token p" using skip_newlines_Cons[of "next_token p"] p by auto
  moreover obtain q where "out_entries (resolve_alias_to_spec lvs las) [] (next_token p) = Inr (block_read fs, q)"
    using entries_read[of fs "[]" "next_token p" "[]"] assms(1) p by (auto simp: block_ok_def)
  ultimately show ?thesis using expect_Cons[OF p] by (simp add: parse_out_block_def)
qed

lemma printed_kinds:
  assumes "names_ok fs"
  shows "kinds (mk_parser (tokenize (print_tokens (block_tokens fs))) src ws) = block_tokens fs"
proof -
  have "map kind (tokenize (print_tokens (block_tokens fs))) = block_tokens fs @ [(EOF, [])]"
    unfolding tokenize_def using block_token_texts[OF assms]
    by (intro lex_loop_printed) (simp_all add: mk_lexer_def)
  then show ?thesis by (simp add: kinds_def mk_parser_def map_butlast)
qed

lemma parsed_printed:
  assumes "block_ok fs"
  shows "\<exists>q. parse_text ws (print_tokens (block_tokens fs)) =
           Inr (\<lparr>lvars = [], lacts = [], program_out = Some (block_read fs)\<rparr>, q)"
proof -
  let ?source = "print_tokens (block_tokens fs)"
  let ?p = "mk_parser (tokenize ?source) (Some ?source) ws"
  have p: "kinds ?p = block_tokens fs" by (rule printed_kinds[OF block_ok_names[OF assms]])
  then have first: "kinds ?p = (OUT_OPEN, ''OUT{'') # tl (block_tokens fs)" by (simp add: block_tokens_def)
  obtain q where "parse_out_block [] [] ?p = Inr (block_read fs, q)" using block_reads[OF assms p] by blast
  then have "parse_items [] [] ?p = Inr (\<lparr>lvars = [], lacts = [], program_out = Some (block_read fs)\<rparr>, q)"
    using skip_newlines_Cons[OF first] kinds_Cons(3)[OF first] by (subst parse_items.simps) simp
  then show ?thesis by (simp add: parse_text_def parse_def mk_parser_def)
qed

text \<open>
  C39. An OUT block survives printing and parsing: for fields with distinct identifiers as names, and
  values of strings, integers within Python's digit limit, finite floats (as exact decimals), booleans
  and lists nested up to the parser's limit, the parser applied to the tokens of the printed text
  returns a program of exactly these fields in their order, with one exception that is the parser's:
  a boolean inside a list, at any depth, reads back as the string \<open>true\<close> or \<open>false\<close> (\<open>as_read\<close>), because
  \<open>_parse_out_list\<close> takes every identifier for a name, where a field of its own reads it as a boolean.
\<close>

theorem out_block_round_trip:
  assumes "block_ok fs"
  shows "\<exists>q. parse_text ws (print_tokens (block_tokens fs)) =
           Inr (\<lparr>lvars = [], lacts = [], program_out = Some (map (\<lambda>(n, v). (n, as_read v)) fs)\<rparr>, q)"
  using parsed_printed[OF assms] by (simp add: block_read_def)

definition ex_block :: out_block where
  "ex_block =
     [(''a'', VList [VInt (- 12), VFloat 25 (- 1), VList [VStr [dquote, newline], VBool False]]), (''b_1'', VBool True)]"

theorem out_block_round_trip_witness:
  "\<exists>q. parse_text [] (print_tokens (block_tokens ex_block)) =
         Inr (\<lparr>lvars = [], lacts = [], program_out =
           Some [(''a'', VList [VInt (- 12), VFloat 25 (- 1), VList [VStr [dquote, newline], VStr ''false'']]),
                 (''b_1'', VBool True)]\<rparr>, q)"
proof -
  have digits: "nat_text 12 = ''12''" by code_simp
  have finite: "is_finite 25 (- 1)" by code_simp
  have names: "name_ok ''a''" "name_ok ''b_1''" by code_simp+
  have limits: "max_out_nesting_depth = 32" "int_digits_limit = 4300"
    by (simp_all add: max_out_nesting_depth_def int_digits_limit_def)
  have "block_ok ex_block"
    using digits finite names limits by (auto simp: block_ok_def ex_block_def)
  from out_block_round_trip[OF this, of "[]"] show ?thesis by (simp add: ex_block_def as_read_def)
qed

text \<open>
  Aliases are unique: a program the parser returns names no two of its lvars and lacts alike.
\<close>

theorem aliases_unique:
  assumes "parse_text ws source = Inr (prog, q)"
  shows "distinct (map lvar_alias (lvars prog) @ map lact_alias (lacts prog))"
proof -
  have "parse_items [] [] (mk_parser (tokenize source) (Some source) ws) = Inr (prog, q)"
    using assms by (simp add: parse_text_def parse_def mk_parser_def)
  then show ?thesis by (rule parse_aliases)
qed

definition ex_source :: string where
  "ex_source = ''<lvar a.x y> v </lvar><lact z>f(1)</lact>''"

definition ex_program :: program where
  "ex_program =
     \<lparr>lvars = [Lvar ''a'' ''x'' ''y'' ''v''],
      lacts = [\<lparr>lact_model = None, lact_field = None, lact_alias = ''z'', lact_call = ''f(1)'', lact_extra_id = None\<rparr>],
      program_out = None\<rparr>"

lemma ex_source_parses: "\<exists>q. parse_text [] ex_source = Inr (ex_program, q)"
proof -
  have "(case parse_text [] ex_source of Inl _ \<Rightarrow> False | Inr (prog, _) \<Rightarrow> prog = ex_program)" by code_simp
  then show ?thesis by (auto split: sum.splits)
qed

lemma aliases_unique_witness:
  "\<exists>q. parse_text [] ex_source = Inr (ex_program, q)
     \<and> distinct (map lvar_alias (lvars ex_program) @ map lact_alias (lacts ex_program))"
  using ex_source_parses aliases_unique[of "[]" ex_source ex_program] by blast

fun lvar_in :: "string \<Rightarrow> lvar \<Rightarrow> bool" where
  "lvar_in src (Lvar m f a c) \<longleftrightarrow>
     (\<exists>ws \<in> {[m @ ''.'' @ f], [m @ ''.'' @ f, a]}. tag_text_in ''<lvar'' ''</lvar>'' ws src c)"
| "lvar_in src (RLvar a c e) \<longleftrightarrow>
     (if truthy e then tag_text_in ''<lvar'' ''</lvar>'' [the e, a] src c
      else tag_text_in ''<lvar'' ''</lvar>'' [a] src c)"

definition lact_in :: "string \<Rightarrow> lact \<Rightarrow> bool" where
  "lact_in src la \<longleftrightarrow>
     (let name = the (lact_model la) @ ''.'' @ the (lact_field la);
          wss = (if truthy (lact_model la) then {[name], [name, lact_alias la]}
                 else if truthy (lact_extra_id la) then {[the (lact_extra_id la), lact_alias la]}
                 else {[lact_alias la]})
      in \<exists>ws \<in> wss. tag_text_in ''<lact'' ''</lact>'' ws src (lact_call la))"

lemma parse_lvar_in: "parse_lvar p = Inr (lv, q) \<Longrightarrow> source_text p = Some src \<Longrightarrow> lvar_in src lv"
  by (auto simp: parse_lvar_def mk_lvar_def lvar_words_def model_words_def raw_words_def
      split: option.splits if_splits dest!: source_tag(2) tag_content_in)

lemma parse_lact_in: "parse_lact p = Inr (la, q) \<Longrightarrow> source_text p = Some src \<Longrightarrow> lact_in src la"
  by (auto simp: parse_lact_def lact_in_def lact_words_def model_words_def raw_words_def
      split: if_splits dest!: source_tag(2) tag_content_in)

text \<open>
  The content of every lvar and lact of a parsed program is cut out of the source: it is the
  stripped text between an opening tag of its names and the first closing tag after it.
\<close>

theorem contents_from_source:
  assumes "parse_text ws source = Inr (prog, q)"
  shows "list_all (lvar_in source) (lvars prog) \<and> list_all (lact_in source) (lacts prog)"
proof -
  have "parse_items [] [] (mk_parser (tokenize source) (Some source) ws) = Inr (prog, q)"
    using assms by (simp add: parse_text_def parse_def mk_parser_def)
  then show ?thesis
    by (rule parse_items_inv[where I = "\<lambda>lvs las. list_all (lvar_in source) lvs \<and> list_all (lact_in source) las"
          and src = "Some source"])
       (auto simp: mk_parser_def intro: parse_lvar_in parse_lact_in)
qed

lemma contents_from_source_witness:
  "\<exists>q. parse_text [] ex_source = Inr (ex_program, q)
     \<and> list_all (lvar_in ex_source) (lvars ex_program) \<and> list_all (lact_in ex_source) (lacts ex_program)"
  using ex_source_parses contents_from_source[of "[]" ex_source ex_program] by blast

text \<open>
  The tag a content is cut from need not be the tag that was read: the pattern is searched in the
  whole source, and finds an element of the same names inside the text of an earlier tag.
\<close>

lemma content_of_another_tag:
  "\<exists>q la. parse_text [] ''<lact y>f(<lvar x>bad</lvar>)</lact> <lvar x>good</lvar>'' =
     Inr (\<lparr>lvars = [RLvar ''x'' ''bad'' None], lacts = [la], program_out = None\<rparr>, q)"
proof -
  have "(case parse_text [] ''<lact y>f(<lvar x>bad</lvar>)</lact> <lvar x>good</lvar>'' of
      Inl _ \<Rightarrow> False
    | Inr (prog, _) \<Rightarrow> lvars prog = [RLvar ''x'' ''bad'' None] \<and> length (lacts prog) = 1 \<and> program_out prog = None)"
    by code_simp
  then show ?thesis
    by (auto split: sum.splits simp: length_Suc_conv) (metis program.surjective old.unit.exhaust)
qed

text \<open>A quote in the text of a tag after \<open>OUT{\<close> swallows the closing tag.\<close>

lemma quote_swallows_tag:
  "\<exists>t. parse_text [] (''<lvar x>OUT{ '' @ [dquote] @ ''s</lvar>'') = Inl (Unclosed_lvar t)"
proof -
  have "(case parse_text [] (''<lvar x>OUT{ '' @ [dquote] @ ''s</lvar>'') of
      Inl (Unclosed_lvar _) \<Rightarrow> True | _ \<Rightarrow> False)"
    by code_simp
  then show ?thesis by (auto split: sum.splits parse_error.splits)
qed

text \<open>\<open>n\<close> brackets around a string.\<close>

primrec nest :: "nat \<Rightarrow> oval" where
  "nest 0 = VStr ''x''"
| "nest (Suc n) = VList [nest n]"

lemma nest_ok: "item_ok d (nest n) \<longleftrightarrow> n = 0 \<or> d + n \<le> max_out_nesting_depth"
proof (induction n arbitrary: d)
  case (Suc n)
  have "item_ok d (nest (Suc n)) \<longleftrightarrow> d < max_out_nesting_depth \<and> item_ok (Suc d) (nest n)" by simp
  also have "\<dots> \<longleftrightarrow> d < max_out_nesting_depth \<and> (n = 0 \<or> Suc d + n \<le> max_out_nesting_depth)"
    unfolding Suc.IH ..
  also have "\<dots> \<longleftrightarrow> Suc n = 0 \<or> d + Suc n \<le> max_out_nesting_depth" by linarith
  finally show ?case .
qed simp

lemma nest_too_deep:
  "kinds p = value_tokens (nest (Suc n)) @ r \<Longrightarrow> max_out_nesting_depth < d + Suc n \<Longrightarrow>
   \<exists>t. parse_out_list d p = Inl (Too_deep t)"
proof (induction n arbitrary: d p r)
  case 0
  then show ?case by (subst parse_out_list.simps) auto
next
  case (Suc n)
  show ?case
  proof (cases "max_out_nesting_depth \<le> d")
    case True
    then show ?thesis by (subst parse_out_list.simps) auto
  next
    case False
    let ?p1 = "next_token p"
    have p: "kinds p = (LBRACKET, ''['') # value_tokens (nest (Suc n)) @ comma_token # (RBRACKET, '']'') # r"
      using Suc.prems(1) by simp
    then have p1: "kinds ?p1 = value_tokens (nest (Suc n)) @ comma_token # (RBRACKET, '']'') # r" by simp
    then have first: "kinds ?p1 = (LBRACKET, ''['') # tl (kinds ?p1)" by simp
    obtain t where "parse_out_list (Suc d) ?p1 = Inl (Too_deep t)"
      using Suc.IH[OF p1, of "Suc d"] Suc.prems(2) by auto
    then have "out_items d ?p1 = Inl (Too_deep t)"
      using skip_newlines_Cons[OF first] kinds_Cons(3)[OF first]
      by (subst out_items.simps) simp
    then show ?thesis
      using False expect_Cons[OF p] skip_newlines_Cons[OF first] by (subst parse_out_list.simps) simp
  qed
qed

text \<open>
  Brackets nest up to 32 levels in an OUT block and no deeper: \<open>n\<close> nested brackets read back as
  they were printed when \<open>n\<close> is at most the limit, and raise the nesting error beyond it.
\<close>

theorem nesting_limit:
  "if n \<le> max_out_nesting_depth
   then \<exists>q. parse_text ws (print_tokens (block_tokens [(''a'', nest n)])) =
          Inr (\<lparr>lvars = [], lacts = [], program_out = Some [(''a'', nest n)]\<rparr>, q)
   else \<exists>t. parse_text ws (print_tokens (block_tokens [(''a'', nest n)])) = Inl (Too_deep t)"
proof (cases "n \<le> max_out_nesting_depth")
  case True
  have "name_ok ''a''" by code_simp
  then have "block_ok [(''a'', nest n)]" using True nest_ok[of 0 n] by (simp add: block_ok_def)
  moreover have "as_item (nest n) = nest n" by (induction n) simp_all
  then have "as_read (nest n) = nest n" by (cases n) (simp_all add: as_read_def)
  ultimately show ?thesis using True parsed_printed[of "[(''a'', nest n)]" ws] by simp
next
  case False
  then obtain m where m: "n = Suc m" by (cases n) (auto simp: max_out_nesting_depth_def)
  let ?source = "print_tokens (block_tokens [(''a'', nest n)])"
  let ?p = "mk_parser (tokenize ?source) (Some ?source) ws"
  have "name_ok ''a''" by code_simp
  then have p: "kinds ?p = block_tokens [(''a'', nest n)]"
    using printed_kinds[of "[(''a'', nest n)]"] by (simp add: names_ok_def)
  let ?r = "comma_token # [(OUT_CLOSE, ''}'')]"
  have p0: "kinds ?p = (OUT_OPEN, ''OUT{'') # (ID, ''a'') # (COLON, '':'') # value_tokens (nest n) @ ?r"
    using p by (simp add: block_tokens_def entry_tokens_def)
  let ?p1 = "next_token ?p" and ?p2 = "next_token (next_token ?p)"
  let ?p3 = "next_token (next_token (next_token ?p))"
  have p1: "kinds ?p1 = (ID, ''a'') # (COLON, '':'') # value_tokens (nest n) @ ?r" using p0 by simp
  have p2: "kinds ?p2 = (COLON, '':'') # value_tokens (nest n) @ ?r" using p0 by simp
  have p3: "kinds ?p3 = value_tokens (nest n) @ ?r" using p0 by simp
  then have first: "kinds ?p3 = (LBRACKET, ''['') # tl (kinds ?p3)" using m by simp
  obtain t where "parse_out_list 0 ?p3 = Inl (Too_deep t)"
    using nest_too_deep[of ?p3 m ?r 0] p3 m False by auto
  then have "field_value ?p3 = Inl (Too_deep t)" using kinds_Cons[OF first] by (simp add: field_value_def)
  then have "out_entry (resolve_alias_to_spec [] []) [] ?p1 = Inl (Too_deep t)"
    using dotted_Cons[OF p2] skip_newlines_Cons[OF p2] skip_newlines_Cons[OF first] expect_Cons[OF p2]
      kinds_Cons[OF p1] kinds_Cons[OF p2]
    by (simp add: out_entry_def)
  then have "out_entries (resolve_alias_to_spec [] []) [] ?p1 = Inl (Too_deep t)"
    using skip_newlines_Cons[OF p1] kinds_Cons(3)[OF p1] by (subst out_entries.simps) simp
  then have "parse_out_block [] [] ?p = Inl (Too_deep t)"
    using expect_Cons[OF p0] skip_newlines_Cons[OF p1] by (simp add: parse_out_block_def)
  then have "parse_items [] [] ?p = Inl (Too_deep t)"
    using skip_newlines_Cons[OF p0] kinds_Cons(3)[OF p0] by (subst parse_items.simps) simp
  then show ?thesis using False by (simp add: parse_text_def parse_def mk_parser_def)
qed

end
