(* ===== verification/Lifecycle_Policy.thy ===== *)
theory Lifecycle_Policy
  imports Prelude "HOL-Library.Char_ord" "HOL-Library.List_Lexorder"
begin

text \<open>
  The lifecycle policies: \<open>lionagi/state/lifecycle/policy.py\<close>, the policy dataclasses of
  \<open>models.py\<close> and the vocabularies of \<open>lionagi/state/reasons.py\<close>.

  A policy gives the statuses of an entity type, the declared edges between them and the columns a
  transition may write.  \<open>register\<close> is the registry's validation with its errors in the order of the
  code; \<open>build_default_registry\<close> registers the seven built-in policies and seals the registry.  The
  lemmas show that registration accepts exactly the well-formed policies, that every registry built
  by any sequence of calls holds only such policies, and what the built-in ones declare.
\<close>

section \<open>Policies\<close>

datatype same_status_rule = Append | Noop | Reject

record edge_policy =
  to_status :: string
  actor_types :: "string set option"
  required_patch_fields :: "string set"
  required_guard_fields :: "string set"

definition edge_to :: "string \<Rightarrow> edge_policy" where
  "edge_to s =
     \<lparr>to_status = s, actor_types = None, required_patch_fields = {}, required_guard_fields = {}\<rparr>"

type_synonym edge_map = "(string, edge_policy list) pydict"

record lifecycle_policy =
  entity_type :: string
  table :: string
  statuses :: "string set"
  initial_statuses :: "string set"
  terminal_statuses :: "string set"
  edges :: edge_map
  same_status :: same_status_rule
  patch_fields :: "string set"
  reason_prefixes :: "string set"
  reason_columns :: bool

section \<open>Registration\<close>

datatype policy_error =
    Sealed
  | Entity_registered | Table_registered
  | Initial_outside | Terminal_outside
  | Edge_from_unknown string | Edge_to_unknown string string
  | Patch_outside string string | Guard_outside string string
  | Unknown_entity string

record registry =
  by_entity_type :: "(string, lifecycle_policy) pydict"
  by_table :: "(string, string) pydict"
  sealed :: bool

definition empty_registry :: registry where
  "empty_registry = \<lparr>by_entity_type = [], by_table = [], sealed = False\<rparr>"

definition check_edge :: "lifecycle_policy \<Rightarrow> string \<Rightarrow> edge_policy \<Rightarrow> policy_error option" where
  "check_edge p src e =
     (if to_status e \<notin> statuses p then Some (Edge_to_unknown src (to_status e))
      else if \<not> required_patch_fields e \<subseteq> patch_fields p then Some (Patch_outside src (to_status e))
      else if \<not> required_guard_fields e \<subseteq> patch_fields p then Some (Guard_outside src (to_status e))
      else None)"

fun check_edges :: "lifecycle_policy \<Rightarrow> string \<Rightarrow> edge_policy list \<Rightarrow> policy_error option" where
  "check_edges p src [] = None"
| "check_edges p src (e # es) =
     (case check_edge p src e of None \<Rightarrow> check_edges p src es | Some err \<Rightarrow> Some err)"

fun check_edge_map :: "lifecycle_policy \<Rightarrow> edge_map \<Rightarrow> policy_error option" where
  "check_edge_map p [] = None"
| "check_edge_map p ((src, es) # m) =
     (if src \<notin> statuses p then Some (Edge_from_unknown src)
      else case check_edges p src es of None \<Rightarrow> check_edge_map p m | Some err \<Rightarrow> Some err)"

definition register :: "lifecycle_policy \<Rightarrow> registry \<Rightarrow> policy_error + registry" where
  "register p r =
     (if sealed r then Inl Sealed
      else if dhas (by_entity_type r) (entity_type p) then Inl Entity_registered
      else if dhas (by_table r) (table p) then Inl Table_registered
      else if \<not> initial_statuses p \<subseteq> statuses p then Inl Initial_outside
      else if \<not> terminal_statuses p \<subseteq> statuses p then Inl Terminal_outside
      else case check_edge_map p (edges p) of
             Some err \<Rightarrow> Inl err
           | None \<Rightarrow>
               Inr (r\<lparr>by_entity_type := dset (entity_type p) p (by_entity_type r),
                      by_table := dset (table p) (entity_type p) (by_table r)\<rparr>))"

definition seal :: "registry \<Rightarrow> registry" where
  "seal r = r\<lparr>sealed := True\<rparr>"

definition get_policy :: "string \<Rightarrow> registry \<Rightarrow> policy_error + lifecycle_policy" where
  "get_policy et r =
     (case dget (by_entity_type r) et of None \<Rightarrow> Inl (Unknown_entity et) | Some p \<Rightarrow> Inr p)"

definition is_registered :: "string \<Rightarrow> registry \<Rightarrow> bool" where
  "is_registered et r = dhas (by_entity_type r) et"

definition entity_types :: "registry \<Rightarrow> string set" where
  "entity_types r = set (dkeys (by_entity_type r))"

section \<open>The built-in policies\<close>

definition to_all :: "string list \<Rightarrow> edge_policy list" where
  "to_all ss = map edge_to ss"

definition session_statuses :: "string set" where
  "session_statuses =
     {''running'', ''completed'', ''completed_empty'', ''failed'', ''timed_out'', ''aborted'', ''cancelled''}"

definition session_terminal :: "string set" where
  "session_terminal = {''completed'', ''completed_empty'', ''failed'', ''timed_out'', ''aborted'', ''cancelled''}"

definition session_edges :: edge_map where
  "session_edges = [(''running'', to_all (sorted_list_of_set session_terminal))]"

definition session_policy :: lifecycle_policy where
  "session_policy =
     \<lparr>entity_type = ''session'', table = ''sessions'', statuses = session_statuses,
      initial_statuses = {''running''}, terminal_statuses = session_terminal, edges = session_edges,
      same_status = Append,
      patch_fields = {''ended_at'', ''ended_at_is_approximate'', ''input_tokens'', ''output_tokens'',
        ''total_cost_usd'', ''num_turns'', ''duration_ms'', ''node_metadata''},
      reason_prefixes = {''run'', ''session''}, reason_columns = True\<rparr>"

definition invocation_policy :: lifecycle_policy where
  "invocation_policy =
     \<lparr>entity_type = ''invocation'', table = ''invocations'', statuses = session_statuses,
      initial_statuses = {''running''}, terminal_statuses = session_terminal, edges = session_edges,
      same_status = Append, patch_fields = {''ended_at''}, reason_prefixes = {''run''},
      reason_columns = True\<rparr>"

text \<open>Every nonterminal status may move to every other status.\<close>

definition free_edges :: "string set \<Rightarrow> string set \<Rightarrow> edge_map" where
  "free_edges sts term =
     map (\<lambda>src. (src, to_all (sorted_list_of_set (sts - {src})))) (sorted_list_of_set (sts - term))"

definition show_statuses :: "string set" where
  "show_statuses = {''active'', ''completed'', ''aborted'', ''imported''}"

definition show_terminal :: "string set" where
  "show_terminal = {''completed'', ''aborted''}"

definition show_policy :: lifecycle_policy where
  "show_policy =
     \<lparr>entity_type = ''show'', table = ''shows'', statuses = show_statuses,
      initial_statuses = {''active'', ''imported''}, terminal_statuses = show_terminal,
      edges = free_edges show_statuses show_terminal, same_status = Append,
      patch_fields = {''status_source''}, reason_prefixes = {''show''}, reason_columns = True\<rparr>"

definition play_statuses :: "string set" where
  "play_statuses =
     {''pending'', ''prepared'', ''running'', ''running_complete'', ''gated'', ''gate_failed'', ''redoing'',
      ''merged'', ''escalated'', ''blocked'', ''aborted_after_finish''}"

definition play_terminal :: "string set" where
  "play_terminal = {''merged'', ''escalated'', ''gate_failed'', ''blocked'', ''aborted_after_finish''}"

definition play_policy :: lifecycle_policy where
  "play_policy =
     \<lparr>entity_type = ''play'', table = ''plays'', statuses = play_statuses,
      initial_statuses = {''pending''}, terminal_statuses = play_terminal,
      edges = free_edges play_statuses play_terminal, same_status = Append,
      patch_fields = {''ended_at'', ''exit_code'', ''merge_sha'', ''merged_at'', ''gate_passed'', ''gate_feedback''},
      reason_prefixes = {''play''}, reason_columns = True\<rparr>"

definition team_policy :: lifecycle_policy where
  "team_policy =
     \<lparr>entity_type = ''team'', table = ''teams'', statuses = {''active'', ''archived''},
      initial_statuses = {''active''}, terminal_statuses = {''archived''},
      edges = [(''active'', to_all [''archived''])], same_status = Append, patch_fields = {},
      reason_prefixes = {''team''}, reason_columns = True\<rparr>"

definition schedule_run_statuses :: "string set" where
  "schedule_run_statuses =
     {''queued'', ''waiting_dependency'', ''running'', ''retry_wait'', ''completed'', ''failed'', ''timed_out'',
      ''skipped'', ''cancelled''}"

definition schedule_run_terminal :: "string set" where
  "schedule_run_terminal = {''completed'', ''failed'', ''timed_out'', ''skipped'', ''cancelled''}"

definition schedule_run_edges :: edge_map where
  "schedule_run_edges =
     [(''queued'', to_all [''waiting_dependency'', ''running'', ''skipped'', ''cancelled'']),
      (''waiting_dependency'', to_all [''queued'', ''cancelled'']),
      (''running'', to_all [''completed'', ''failed'', ''timed_out'', ''retry_wait'', ''queued'', ''cancelled'']),
      (''retry_wait'', to_all [''queued'', ''cancelled''])]"

definition schedule_run_policy :: lifecycle_policy where
  "schedule_run_policy =
     \<lparr>entity_type = ''schedule_run'', table = ''schedule_runs'', statuses = schedule_run_statuses,
      initial_statuses = {''queued'', ''running'', ''failed'', ''skipped''},
      terminal_statuses = schedule_run_terminal, edges = schedule_run_edges, same_status = Append,
      patch_fields = {''ended_at'', ''exit_code'', ''error_detail'', ''invocation_id'', ''queued_at'', ''leased_by'',
        ''lease_expires_at'', ''lease_attempts''},
      reason_prefixes = {''run'', ''schedule''}, reason_columns = True\<rparr>"

definition dispatch_statuses :: "string set" where
  "dispatch_statuses = {''pending'', ''delivering'', ''delivered'', ''acked'', ''dead_letter'', ''expired''}"

definition dispatch_terminal :: "string set" where
  "dispatch_terminal = {''delivered'', ''acked'', ''dead_letter'', ''expired''}"

definition dispatch_fields :: "string set" where
  "dispatch_fields = {''attempt'', ''next_attempt_at'', ''last_error''}"

text \<open>The way back to pending, for an operator who resets the delivery columns.\<close>

definition requeue :: edge_policy where
  "requeue =
     \<lparr>to_status = ''pending'', actor_types = Some {''operator''}, required_patch_fields = dispatch_fields,
      required_guard_fields = {}\<rparr>"

definition dispatch_edges :: edge_map where
  "dispatch_edges =
     [(''pending'', to_all [''delivering'', ''expired'', ''acked'']),
      (''delivering'',
         (edge_to ''delivering'')\<lparr>required_guard_fields := {''attempt''}\<rparr> #
         to_all [''pending'', ''delivered'', ''acked'', ''dead_letter'', ''expired'']),
      (''dead_letter'', [requeue]),
      (''expired'', [requeue])]"

definition dispatch_policy :: lifecycle_policy where
  "dispatch_policy =
     \<lparr>entity_type = ''dispatch'', table = ''dispatch_outbox'', statuses = dispatch_statuses,
      initial_statuses = {''pending''}, terminal_statuses = dispatch_terminal, edges = dispatch_edges,
      same_status = Append, patch_fields = dispatch_fields, reason_prefixes = {''dispatch''},
      reason_columns = False\<rparr>"

definition built_in_policies :: "lifecycle_policy list" where
  "built_in_policies =
     [session_policy, invocation_policy, show_policy, play_policy, team_policy, schedule_run_policy,
      dispatch_policy]"

fun register_all :: "lifecycle_policy list \<Rightarrow> registry \<Rightarrow> policy_error + registry" where
  "register_all [] r = Inr r"
| "register_all (p # ps) r = (case register p r of Inl e \<Rightarrow> Inl e | Inr r' \<Rightarrow> register_all ps r')"

definition build_default_registry :: "policy_error + registry" where
  "build_default_registry =
     (case register_all built_in_policies empty_registry of Inl e \<Rightarrow> Inl e | Inr r \<Rightarrow> Inr (seal r))"

section \<open>What registration accepts\<close>

definition edge_ok :: "lifecycle_policy \<Rightarrow> edge_policy \<Rightarrow> bool" where
  "edge_ok p e \<longleftrightarrow>
     to_status e \<in> statuses p \<and> required_patch_fields e \<subseteq> patch_fields p \<and>
     required_guard_fields e \<subseteq> patch_fields p"

definition policy_ok :: "lifecycle_policy \<Rightarrow> bool" where
  "policy_ok p \<longleftrightarrow>
     initial_statuses p \<subseteq> statuses p \<and> terminal_statuses p \<subseteq> statuses p \<and>
     (\<forall>(src, es) \<in> set (edges p). src \<in> statuses p \<and> (\<forall>e \<in> set es. edge_ok p e))"

lemma check_edge_None: "check_edge p src e = None \<longleftrightarrow> edge_ok p e"
  by (auto simp: check_edge_def edge_ok_def)

lemma check_edges_None: "check_edges p src es = None \<longleftrightarrow> (\<forall>e \<in> set es. edge_ok p e)"
proof (induction es)
  case (Cons e es)
  then show ?case using check_edge_None[of p src e] by (cases "check_edge p src e") auto
qed simp

lemma check_edge_map_None:
  "check_edge_map p m = None \<longleftrightarrow>
     (\<forall>(src, es) \<in> set m. src \<in> statuses p \<and> (\<forall>e \<in> set es. edge_ok p e))"
proof (induction p m rule: check_edge_map.induct)
  case (2 p src es m)
  then show ?case using check_edges_None[of p src es] by (cases "check_edges p src es") auto
qed simp

definition add_policy :: "lifecycle_policy \<Rightarrow> registry \<Rightarrow> registry" where
  "add_policy p r =
     r\<lparr>by_entity_type := dset (entity_type p) p (by_entity_type r),
       by_table := dset (table p) (entity_type p) (by_table r)\<rparr>"

lemma register_Inr:
  "register p r = Inr r' \<longleftrightarrow>
     \<not> sealed r \<and> \<not> dhas (by_entity_type r) (entity_type p) \<and> \<not> dhas (by_table r) (table p) \<and>
     policy_ok p \<and> r' = add_policy p r"
proof -
  have "policy_ok p \<longleftrightarrow>
      initial_statuses p \<subseteq> statuses p \<and> terminal_statuses p \<subseteq> statuses p \<and>
      check_edge_map p (edges p) = None"
    unfolding policy_ok_def check_edge_map_None ..
  then show ?thesis
    by (cases "check_edge_map p (edges p)") (auto simp: register_def add_policy_def)
qed

text \<open>
  \<open>PolicyRegistry.register\<close> accepts exactly the well-formed policies of an entity type and a
  table that are free, while the registry is open; what it accepts it returns from \<open>get\<close> and leaves
  every other registration as it was.
\<close>

theorem register_accepts:
  "(is_ok (register p r) \<longleftrightarrow>
      \<not> sealed r \<and> \<not> is_registered (entity_type p) r \<and> \<not> dhas (by_table r) (table p) \<and> policy_ok p) \<and>
   (\<forall>r' et. register p r = Inr r' \<longrightarrow>
      get_policy et r' = (if et = entity_type p then Inr p else get_policy et r))"
proof (intro conjI allI impI)
  show "is_ok (register p r) \<longleftrightarrow>
      \<not> sealed r \<and> \<not> is_registered (entity_type p) r \<and> \<not> dhas (by_table r) (table p) \<and> policy_ok p"
    using register_Inr[of p r] by (cases "register p r") (auto simp: is_registered_def)
next
  fix r' et assume "register p r = Inr r'"
  then have "r' = add_policy p r" by (simp add: register_Inr)
  then show "get_policy et r' = (if et = entity_type p then Inr p else get_policy et r)"
    by (auto simp: get_policy_def add_policy_def)
qed

section \<open>What every registry holds\<close>

datatype registry_call = Register lifecycle_policy | Seal

fun registry_step :: "registry \<Rightarrow> registry_call \<Rightarrow> registry" where
  "registry_step r (Register p) = (case register p r of Inl _ \<Rightarrow> r | Inr r' \<Rightarrow> r')"
| "registry_step r Seal = seal r"

text \<open>Both maps have distinct keys and are inverse to each other through the policies' tables.\<close>

definition registry_ok :: "registry \<Rightarrow> bool" where
  "registry_ok r \<longleftrightarrow>
     distinct (dkeys (by_entity_type r)) \<and> distinct (dkeys (by_table r)) \<and>
     (\<forall>et p. dget (by_entity_type r) et = Some p \<longrightarrow>
        entity_type p = et \<and> policy_ok p \<and> dget (by_table r) (table p) = Some et) \<and>
     (\<forall>tb et. dget (by_table r) tb = Some et \<longrightarrow>
        (\<exists>p. dget (by_entity_type r) et = Some p \<and> table p = tb))"

lemma get_policy_Inr: "get_policy et r = Inr p \<longleftrightarrow> dget (by_entity_type r) et = Some p"
  by (auto simp: get_policy_def split: option.split)

lemma registered:
  assumes "registry_ok r" "get_policy et r = Inr p"
  shows "entity_type p = et" "policy_ok p" "dget (by_table r) (table p) = Some et"
  using assms unfolding registry_ok_def get_policy_Inr by blast+

lemma same_table:
  assumes "registry_ok r" "get_policy et r = Inr p" "get_policy et' r = Inr p'" "table p = table p'"
  shows "et = et'"
  using registered(3)[OF assms(1,2)] registered(3)[OF assms(1,3)] assms(4) by simp

lemma registry_ok_empty [simp]: "registry_ok empty_registry"
  by (simp add: registry_ok_def empty_registry_def)

lemma registry_ok_add:
  assumes "registry_ok r" "\<not> dhas (by_entity_type r) (entity_type p)" "\<not> dhas (by_table r) (table p)"
    "policy_ok p"
  shows "registry_ok (add_policy p r)"
proof -
  have fresh: "dget (by_entity_type r) (entity_type p) = None" "dget (by_table r) (table p) = None"
    using assms(2,3) by (simp_all add: dget_None_iff)
  have old: "entity_type q = et \<and> policy_ok q \<and> dget (by_table r) (table q) = Some et"
    if "dget (by_entity_type r) et = Some q" for et q
    using assms(1) that unfolding registry_ok_def by blast
  have inverse: "\<exists>q. dget (by_entity_type r) et = Some q \<and> table q = tb"
    if "dget (by_table r) tb = Some et" for et tb
    using assms(1) that unfolding registry_ok_def by blast
  have dist: "distinct (dkeys (by_entity_type r))" "distinct (dkeys (by_table r))"
    using assms(1) unfolding registry_ok_def by blast+
  have "entity_type q = et \<and> policy_ok q \<and> dget (by_table (add_policy p r)) (table q) = Some et"
    if "dget (by_entity_type (add_policy p r)) et = Some q" for et q
    using that old[of et q] fresh assms(4) by (auto simp: add_policy_def split: if_splits)
  moreover have "\<exists>q. dget (by_entity_type (add_policy p r)) et = Some q \<and> table q = tb"
    if "dget (by_table (add_policy p r)) tb = Some et" for et tb
    using that inverse[of tb et] fresh by (auto simp: add_policy_def split: if_splits)
  moreover have "distinct (dkeys (by_entity_type (add_policy p r)))" "distinct (dkeys (by_table (add_policy p r)))"
    using dist by (simp_all add: add_policy_def)
  ultimately show ?thesis unfolding registry_ok_def by blast
qed

lemma seal_maps [simp]: "by_entity_type (seal r) = by_entity_type r" "by_table (seal r) = by_table r"
  by (simp_all add: seal_def)

lemma registry_ok_seal: "registry_ok r \<Longrightarrow> registry_ok (seal r)"
  unfolding registry_ok_def seal_maps by assumption

lemma registry_step_ok: "registry_ok r \<Longrightarrow> registry_ok (registry_step r c)"
  by (cases c) (auto simp: register_Inr registry_ok_seal intro: registry_ok_add split: sum.splits)

interpretation registry_calls: stepping_final registry_step registry_ok sealed "\<lambda>r. r"
proof unfold_locales
  fix r c
  show "registry_ok r \<Longrightarrow> registry_ok (registry_step r c)" by (rule registry_step_ok)
  show "sealed r \<Longrightarrow> registry_step r c = r"
    by (cases c) (auto simp: register_def seal_def)
  then show "sealed r \<Longrightarrow> sealed (registry_step r c)" by simp
qed

text \<open>
  C31. Any sequence of registrations and sealings builds a registry in which every policy is filed
  under its own entity type, no two policies share a table, and every policy is well-formed: its
  initial and terminal statuses and both ends of every edge are declared statuses and its edges
  require declared columns only.  Once sealed, a registry never changes.
\<close>

theorem registry_well_formed:
  "let r = foldl registry_step empty_registry cs in
     (\<forall>et p. get_policy et r = Inr p \<longrightarrow> entity_type p = et \<and> policy_ok p) \<and>
     (\<forall>et et' p p'. get_policy et r = Inr p \<longrightarrow> get_policy et' r = Inr p' \<longrightarrow> table p = table p' \<longrightarrow> et = et') \<and>
     (sealed r \<longrightarrow> foldl registry_step r cs' = r)"
proof -
  let ?r = "foldl registry_step empty_registry cs"
  have ok: "registry_ok ?r" by (rule registry_calls.run_inv[OF registry_ok_empty])
  have "entity_type p = et \<and> policy_ok p" if "get_policy et ?r = Inr p" for et p
    using registered[OF ok that] by simp
  moreover have "et = et'"
    if "get_policy et ?r = Inr p" "get_policy et' ?r = Inr p'" "table p = table p'" for et et' p p'
    using same_table[OF ok that] .
  moreover have "foldl registry_step ?r cs' = ?r" if "sealed ?r"
    using registry_calls.run_final[OF ok that] by simp
  ultimately show ?thesis unfolding Let_def by blast
qed

section \<open>The built-in registry\<close>

definition default_registry :: registry where
  "default_registry =
     \<lparr>by_entity_type = map (\<lambda>p. (entity_type p, p)) built_in_policies,
      by_table = map (\<lambda>p. (table p, entity_type p)) built_in_policies, sealed = True\<rparr>"

lemma set_to_all [simp]: "set (to_all ss) = edge_to ` set ss"
  by (simp add: to_all_def)

lemma edge_ok_to [simp]: "edge_ok p (edge_to s) \<longleftrightarrow> s \<in> statuses p"
  by (simp add: edge_ok_def edge_to_def)

lemma to_status_edge_to [simp]: "to_status (edge_to s) = s"
  by (simp add: edge_to_def)

lemma free_edges_targets:
  "finite sts \<Longrightarrow> (src, es) \<in> set (free_edges sts term) \<Longrightarrow>
     src \<in> sts \<and> src \<notin> term \<and> set es = edge_to ` (sts - {src})"
  by (auto simp: free_edges_def)

lemma policy_ok_free:
  assumes "finite sts" "statuses p = sts" "edges p = free_edges sts term"
    "initial_statuses p \<subseteq> sts" "terminal_statuses p \<subseteq> sts"
  shows "policy_ok p"
  using assms free_edges_targets[OF assms(1), of _ _ "term"] by (fastforce simp: policy_ok_def)

lemma finite_statuses: "finite session_terminal" "finite show_statuses" "finite play_statuses"
  by (simp_all add: session_terminal_def show_statuses_def play_statuses_def)

lemma session_ok: "policy_ok session_policy" "policy_ok invocation_policy"
  using finite_statuses(1)
  by (auto simp: policy_ok_def session_policy_def invocation_policy_def session_edges_def)
     (auto simp: session_terminal_def session_statuses_def)

lemma show_ok: "policy_ok show_policy"
  by (rule policy_ok_free[OF finite_statuses(2)])
     (simp_all add: show_policy_def show_statuses_def show_terminal_def)

lemma play_ok: "policy_ok play_policy"
  by (rule policy_ok_free[OF finite_statuses(3)])
     (simp_all add: play_policy_def play_statuses_def play_terminal_def)

lemma team_ok: "policy_ok team_policy"
  by (simp add: policy_ok_def team_policy_def)

lemma schedule_run_ok: "policy_ok schedule_run_policy"
  by (simp add: policy_ok_def schedule_run_policy_def schedule_run_statuses_def schedule_run_terminal_def
      schedule_run_edges_def)

lemma dispatch_ok: "policy_ok dispatch_policy"
  by (simp add: policy_ok_def dispatch_policy_def dispatch_statuses_def dispatch_terminal_def
      dispatch_edges_def requeue_def dispatch_fields_def edge_ok_def edge_to_def)

lemmas built_in_ok = session_ok show_ok play_ok team_ok schedule_run_ok dispatch_ok

lemmas built_in_names =
  session_policy_def invocation_policy_def show_policy_def play_policy_def team_policy_def
  schedule_run_policy_def dispatch_policy_def

lemma register_all_fresh:
  "list_all policy_ok ps \<Longrightarrow> \<not> sealed r \<Longrightarrow>
   distinct (dkeys (by_entity_type r) @ map entity_type ps) \<Longrightarrow> distinct (dkeys (by_table r) @ map table ps) \<Longrightarrow>
   register_all ps r =
     Inr \<lparr>by_entity_type = by_entity_type r @ map (\<lambda>p. (entity_type p, p)) ps,
          by_table = by_table r @ map (\<lambda>p. (table p, entity_type p)) ps, sealed = sealed r\<rparr>"
proof (induction ps arbitrary: r)
  case Nil
  then show ?case by simp
next
  case (Cons p ps)
  have fresh: "dset (entity_type p) p (by_entity_type r) = by_entity_type r @ [(entity_type p, p)]"
    "dset (table p) (entity_type p) (by_table r) = by_table r @ [(table p, entity_type p)]"
    using Cons.prems by (auto simp: dset_fresh)
  have "register p r = Inr (add_policy p r)"
    using Cons.prems by (auto simp: register_Inr)
  moreover have "register_all ps (add_policy p r) =
     Inr \<lparr>by_entity_type = by_entity_type (add_policy p r) @ map (\<lambda>p. (entity_type p, p)) ps,
          by_table = by_table (add_policy p r) @ map (\<lambda>p. (table p, entity_type p)) ps,
          sealed = sealed (add_policy p r)\<rparr>"
    using Cons.prems by (intro Cons.IH) (auto simp: add_policy_def fresh)
  ultimately show ?case by (simp add: add_policy_def fresh)
qed

lemma built_in_distinct:
  "distinct (map entity_type built_in_policies)" "distinct (map table built_in_policies)"
  by (simp_all add: built_in_policies_def built_in_names)

lemma default_registry_built: "build_default_registry = Inr default_registry"
proof -
  have "list_all policy_ok built_in_policies" by (simp add: built_in_policies_def built_in_ok)
  then have "register_all built_in_policies empty_registry =
      Inr \<lparr>by_entity_type = map (\<lambda>p. (entity_type p, p)) built_in_policies,
           by_table = map (\<lambda>p. (table p, entity_type p)) built_in_policies, sealed = False\<rparr>"
    using register_all_fresh[of built_in_policies empty_registry] built_in_distinct
    by (simp add: empty_registry_def)
  then show ?thesis by (simp add: build_default_registry_def seal_def default_registry_def)
qed

lemma get_default:
  "get_policy et default_registry = Inr p \<longleftrightarrow> p \<in> set built_in_policies \<and> entity_type p = et"
proof -
  have "distinct (dkeys (by_entity_type default_registry))"
    using built_in_distinct(1) by (simp add: default_registry_def comp_def)
  then have "dget (by_entity_type default_registry) et = Some p \<longleftrightarrow>
      (et, p) \<in> set (by_entity_type default_registry)"
    by (rule map_of_eq_Some_iff)
  moreover have "(et, p) \<in> set (by_entity_type default_registry) \<longleftrightarrow> p \<in> set built_in_policies \<and> entity_type p = et"
    by (auto simp: default_registry_def)
  ultimately show ?thesis by (simp add: get_policy_Inr)
qed

definition exits :: "lifecycle_policy \<Rightarrow> (string \<times> edge_policy) set" where
  "exits p = {(src, e). \<exists>es. (src, es) \<in> set (edges p) \<and> e \<in> set es}"

lemma exits_free: "finite sts \<Longrightarrow> edges p = free_edges sts term \<Longrightarrow>
   (src, e) \<in> exits p \<longleftrightarrow> src \<in> sts - term \<and> e \<in> edge_to ` (sts - {src})"
  unfolding exits_def free_edges_def by auto

definition leaves_nonterminal :: "lifecycle_policy \<Rightarrow> bool" where
  "leaves_nonterminal p \<longleftrightarrow>
     (\<forall>(src, e) \<in> exits p. src \<notin> terminal_statuses p) \<and>
     (\<forall>src \<in> statuses p - terminal_statuses p. \<exists>e. (src, e) \<in> exits p \<and> to_status e \<in> terminal_statuses p)"

lemma leaves_free:
  assumes "finite (statuses p)" "edges p = free_edges (statuses p) (terminal_statuses p)"
    "terminal_statuses p \<subseteq> statuses p" "terminal_statuses p \<noteq> {}"
  shows "leaves_nonterminal p"
proof -
  obtain t where t: "t \<in> terminal_statuses p" using assms(4) by blast
  have "\<exists>e. (src, e) \<in> exits p \<and> to_status e \<in> terminal_statuses p"
    if "src \<in> statuses p - terminal_statuses p" for src
    using that t assms(3) exits_free[OF assms(1,2), of src "edge_to t"] by (intro exI[of _ "edge_to t"]) auto
  then show ?thesis using exits_free[OF assms(1,2)] by (auto simp: leaves_nonterminal_def)
qed

lemma session_leaves: "leaves_nonterminal session_policy" "leaves_nonterminal invocation_policy"
proof -
  have "exits session_policy = {''running''} \<times> edge_to ` session_terminal"
    "exits invocation_policy = {''running''} \<times> edge_to ` session_terminal"
    using finite_statuses(1)
    by (auto simp: exits_def session_policy_def invocation_policy_def session_edges_def)
  moreover have "''running'' \<notin> session_terminal" "''failed'' \<in> session_terminal"
    "session_statuses - session_terminal = {''running''}"
    by (auto simp: session_terminal_def session_statuses_def)
  ultimately show "leaves_nonterminal session_policy" "leaves_nonterminal invocation_policy"
    unfolding leaves_nonterminal_def
    by (auto simp: session_policy_def invocation_policy_def intro!: bexI[of _ "''failed''"] exI[of _ "edge_to ''failed''"])
qed

lemma show_leaves: "leaves_nonterminal show_policy"
  by (rule leaves_free) (simp_all add: show_policy_def finite_statuses, simp_all add: show_statuses_def show_terminal_def)

lemma play_leaves: "leaves_nonterminal play_policy"
  by (rule leaves_free) (simp_all add: play_policy_def finite_statuses, simp_all add: play_statuses_def play_terminal_def)

lemma team_leaves: "leaves_nonterminal team_policy"
  by (auto simp: leaves_nonterminal_def exits_def team_policy_def)

definition exit_list :: "lifecycle_policy \<Rightarrow> (string \<times> edge_policy) list" where
  "exit_list p = concat (map (\<lambda>(src, es). map (Pair src) es) (edges p))"

lemma exits_list: "exits p = set (exit_list p)"
  by (force simp: exits_def exit_list_def)

lemma leaves_by_list:
  assumes "list_all (\<lambda>(src, e). src \<notin> terminal_statuses p) (exit_list p)"
    "\<forall>src \<in> statuses p - terminal_statuses p.
       list_ex (\<lambda>(src', e). src' = src \<and> to_status e \<in> terminal_statuses p) (exit_list p)"
  shows "leaves_nonterminal p"
  using assms unfolding leaves_nonterminal_def exits_list list_all_iff list_ex_iff by fast

lemma schedule_run_leaves: "leaves_nonterminal schedule_run_policy"
  by (rule leaves_by_list) code_simp+

lemma dispatch_exit_list:
  "list_all (\<lambda>(src, e). src \<in> dispatch_terminal \<longrightarrow> src \<in> {''dead_letter'', ''expired''})
     (exit_list dispatch_policy)"
  "list_ex (\<lambda>(src, e). src = ''pending'' \<and> to_status e = ''acked'') (exit_list dispatch_policy)"
  "list_ex (\<lambda>(src, e). src = ''delivering'' \<and> to_status e = ''acked'') (exit_list dispatch_policy)"
  "dispatch_statuses - dispatch_terminal = {''pending'', ''delivering''}"
  by code_simp+

lemma dispatch_exits:
  assumes "(src, e) \<in> exits dispatch_policy" "src \<in> dispatch_terminal"
  shows "src \<in> {''dead_letter'', ''expired''} \<and> e = requeue"
proof -
  have src: "src \<in> {''dead_letter'', ''expired''}"
    using assms dispatch_exit_list(1) unfolding exits_list list_all_iff by fast
  have "e = requeue" if "(src, e) \<in> set (exit_list dispatch_policy)"
    using that src by (simp add: exit_list_def dispatch_policy_def dispatch_edges_def to_all_def) blast
  then have "e = requeue" using assms(1) exits_list by blast
  then show ?thesis using src by blast
qed

lemma dispatch_ends:
  assumes "src \<in> dispatch_statuses - dispatch_terminal"
  shows "\<exists>e. (src, e) \<in> exits dispatch_policy \<and> to_status e = ''acked''"
proof -
  have "\<exists>e. (''pending'', e) \<in> exits dispatch_policy \<and> to_status e = ''acked''"
    using dispatch_exit_list(2) unfolding exits_list list_ex_iff case_prod_unfold by (metis prod.collapse)
  moreover have "\<exists>e. (''delivering'', e) \<in> exits dispatch_policy \<and> to_status e = ''acked''"
    using dispatch_exit_list(3) unfolding exits_list list_ex_iff case_prod_unfold by (metis prod.collapse)
  moreover have "src \<in> {''pending'', ''delivering''}" using assms unfolding dispatch_exit_list(4) .
  ultimately show ?thesis by blast
qed

lemma built_in_leaves:
  "get_policy et default_registry = Inr p \<Longrightarrow> leaves_nonterminal p \<or> p = dispatch_policy"
  using session_leaves show_leaves play_leaves team_leaves schedule_run_leaves
  by (auto simp: get_default built_in_policies_def)

lemma terminal_exit:
  assumes "get_policy et default_registry = Inr p" "(src, e) \<in> exits p" "src \<in> terminal_statuses p"
  shows "et = ''dispatch'' \<and> src \<in> {''dead_letter'', ''expired''} \<and> e = requeue"
proof -
  have p: "p = dispatch_policy"
    using built_in_leaves[OF assms(1)] assms(2,3) by (auto simp: leaves_nonterminal_def)
  have "entity_type p = et" using assms(1) by (simp add: get_default)
  then have "et = ''dispatch''" unfolding p by (simp add: dispatch_policy_def)
  moreover have "src \<in> dispatch_terminal" using assms(3) unfolding p by (simp add: dispatch_policy_def)
  ultimately show ?thesis using dispatch_exits assms(2) unfolding p by blast
qed

lemma nonterminal_end:
  assumes "get_policy et default_registry = Inr p" "src \<in> statuses p - terminal_statuses p"
  shows "\<exists>e. (src, e) \<in> exits p \<and> to_status e \<in> terminal_statuses p"
  using built_in_leaves[OF assms(1)]
proof
  assume "leaves_nonterminal p"
  then show ?thesis using assms(2) unfolding leaves_nonterminal_def by blast
next
  assume p: "p = dispatch_policy"
  have "src \<in> dispatch_statuses - dispatch_terminal" using assms(2) unfolding p by (simp add: dispatch_policy_def)
  then obtain e where "(src, e) \<in> exits p" "to_status e = ''acked''" using dispatch_ends p by blast
  moreover have "''acked'' \<in> terminal_statuses p"
    unfolding p by (simp add: dispatch_policy_def dispatch_terminal_def)
  ultimately show ?thesis by metis
qed

lemma registered_names:
  "is_registered et default_registry \<longleftrightarrow>
     et \<in> {''session'', ''invocation'', ''show'', ''play'', ''team'', ''schedule_run'', ''dispatch''}"
  by (simp add: is_registered_def default_registry_def built_in_policies_def built_in_names)

text \<open>
  The built-in registry: the seven policies register without error and the registry is sealed.
  In each of them every nonterminal status has a declared edge straight to a terminal one, and no
  edge leaves a terminal status, except that an operator may requeue a dispatch that is dead-lettered
  or expired, resetting its delivery columns.
\<close>

theorem built_in_lifecycles:
  "build_default_registry = Inr default_registry \<and> sealed default_registry \<and>
   (\<forall>et. is_registered et default_registry \<longleftrightarrow>
      et \<in> {''session'', ''invocation'', ''show'', ''play'', ''team'', ''schedule_run'', ''dispatch''}) \<and>
   (\<forall>et p src. get_policy et default_registry = Inr p \<longrightarrow>
      (src \<in> statuses p - terminal_statuses p \<longrightarrow>
         (\<exists>e. (src, e) \<in> exits p \<and> to_status e \<in> terminal_statuses p)) \<and>
      (src \<in> terminal_statuses p \<longrightarrow>
         (\<forall>e. (src, e) \<in> exits p \<longrightarrow>
            et = ''dispatch'' \<and> src \<in> {''dead_letter'', ''expired''} \<and> e = requeue)))"
  using default_registry_built registered_names nonterminal_end terminal_exit
  by (intro conjI allI impI) (simp add: default_registry_def | blast)+

lemma team_registered: "register team_policy empty_registry = Inr (add_policy team_policy empty_registry)"
  by (simp add: register_Inr team_ok) (simp add: empty_registry_def)

theorem register_accepts_witness:
  "get_policy ''team'' (add_policy team_policy empty_registry) = Inr team_policy"
  using register_accepts[of team_policy empty_registry] team_registered by (simp add: team_policy_def)

theorem registry_well_formed_witness:
  "policy_ok team_policy \<and>
   foldl registry_step (foldl registry_step empty_registry [Register team_policy, Seal]) [Register show_policy] =
     foldl registry_step empty_registry [Register team_policy, Seal]"
proof -
  have r: "foldl registry_step empty_registry [Register team_policy, Seal] = seal (add_policy team_policy empty_registry)"
    by (simp add: team_registered)
  have "get_policy ''team'' (seal (add_policy team_policy empty_registry)) = Inr team_policy"
    by (simp add: get_policy_def add_policy_def) (simp add: team_policy_def)
  moreover have "sealed (seal (add_policy team_policy empty_registry))" by (simp add: seal_def)
  ultimately show ?thesis
    using registry_well_formed[of "[Register team_policy, Seal]" "[Register show_policy]"]
    unfolding Let_def r by blast
qed

theorem built_in_lifecycles_witness:
  "(\<exists>e. (''active'', e) \<in> exits team_policy \<and> to_status e \<in> terminal_statuses team_policy) \<and>
   (\<forall>e. (''archived'', e) \<notin> exits team_policy)"
proof -
  have team: "get_policy ''team'' default_registry = Inr team_policy"
    unfolding get_default by (simp add: built_in_policies_def) (simp add: team_policy_def)
  have st: "''active'' \<in> statuses team_policy - terminal_statuses team_policy" "''archived'' \<in> terminal_statuses team_policy"
    by (simp_all add: team_policy_def)
  note law = conjunct2[OF conjunct2[OF conjunct2[OF built_in_lifecycles]], THEN spec[of _ "''team''"],
      THEN spec[of _ team_policy], THEN spec, THEN mp, OF team]
  show ?thesis using law[of "''active''"] law[of "''archived''"] st by simp
qed

end
