(* ===== verification/Lifecycle.thy ===== *)
theory Lifecycle
  imports Lifecycle_Policy Complex_Main
begin

text \<open>
  The lifecycle service: \<open>lionagi/state/lifecycle/service.py\<close> with its records (\<open>models.py\<close>), the
  terminal-event fan-out (\<open>callbacks.py\<close>), the two legacy wrappers (\<open>adapters.py\<close>,
  \<open>lionagi/state/transitions.py\<close>) and the reason vocabulary (\<open>lionagi/state/reasons.py\<close>).

  The database is the tables' rows, the \<open>status_transitions\<close> history and the \<open>admin_events\<close> log; a
  row maps its columns to cells.  The SQL the service issues is modelled by what its statements say:
  the SELECT by id, the UPDATE with its WHERE clauses, the INSERTs.  \<open>between\<close> is what other
  connections commit between the SELECT and the UPDATE of one transition; it is the identity where
  the row is locked.  A raise rolls back what the transaction itself wrote.  Moments and durations are
  exact rationals where the code computes with floats: no rounding is modelled (\<open>settle_end\<close>).
\<close>

section \<open>Rows\<close>

datatype cell = CNull | CNum rat | CText string

type_synonym row = "string \<Rightarrow> cell"

definition cell_true :: "cell \<Rightarrow> bool" where
  "cell_true c = (case c of CNull \<Rightarrow> False | CNum r \<Rightarrow> r \<noteq> 0 | CText s \<Rightarrow> s \<noteq> [])"

definition status_text :: "cell \<Rightarrow> string option" where
  "status_text c = (case c of CText s \<Rightarrow> Some s | _ \<Rightarrow> None)"

definition status_cell :: "string option \<Rightarrow> cell" where
  "status_cell x = (case x of None \<Rightarrow> CNull | Some s \<Rightarrow> CText s)"

text \<open>SQL equality is never true of NULL.\<close>

definition sql_eq :: "cell \<Rightarrow> cell \<Rightarrow> bool" where
  "sql_eq a b \<longleftrightarrow> a \<noteq> CNull \<and> a = b"

section \<open>Commands, outcomes and records\<close>

record reason =
  reason_code :: string
  reason_summary :: string
  evidence_refs :: string
  reason_metadata :: string

record actor =
  actor_type :: string
  actor_id :: "string option"

record override =
  override_actor :: string
  justification :: string

record initial_command =
  init_type :: string
  init_id :: string
  init_status :: string
  init_reason :: reason
  init_actor :: actor

record command =
  cmd_type :: string
  cmd_id :: string
  cmd_status :: string
  cmd_reason :: reason
  cmd_actor :: actor
  expected_statuses :: "string option set option"
  expected_version :: "rat option"
  patch :: "(string, cell) pydict"
  cmd_override :: "override option"

datatype result_kind = Applied | Conflict | Rejected

record outcome =
  result :: result_kind
  previous_status :: "string option"
  current_status :: "string option"
  transition_id :: "string option"

record transition_row =
  row_id :: string
  row_type :: string
  row_entity :: string
  row_previous :: "string option"
  row_status :: string
  row_reason :: reason
  row_actor :: actor
  row_created :: rat

datatype admin_action = Status_transition_rejected | Status_transition_override

record admin_event =
  action :: admin_action
  target :: string
  event_type :: string
  event_previous :: "string option"
  event_status :: string
  event_reason :: string
  event_note :: string
  event_actor :: string
  event_created :: rat

record db =
  rows :: "string \<Rightarrow> string \<Rightarrow> row option"
  history :: "transition_row list"
  admin_events :: "admin_event list"

section \<open>Terminal events\<close>

record correlation =
  invocation_id :: "string option"
  session_id :: "string option"
  schedule_run_id :: "string option"
  run_id :: "string option"

record envelope =
  event_id :: string
  entity_kind :: string
  entity_id :: string
  env_previous :: "string option"
  terminal_status :: string
  env_reason :: string
  occurred_at :: rat
  correlated :: correlation

definition no_correlation :: correlation where
  "no_correlation = \<lparr>invocation_id = None, session_id = None, schedule_run_id = None, run_id = None\<rparr>"

definition correlation_for :: "string \<Rightarrow> string \<Rightarrow> correlation" where
  "correlation_for et eid =
     (if et = ''session'' then no_correlation\<lparr>session_id := Some eid\<rparr>
      else if et = ''invocation'' then no_correlation\<lparr>invocation_id := Some eid\<rparr>
      else if et = ''schedule_run'' then no_correlation\<lparr>schedule_run_id := Some eid\<rparr>
      else no_correlation)"

definition terminal_envelope :: "command \<Rightarrow> string option \<Rightarrow> string \<Rightarrow> rat \<Rightarrow> envelope" where
  "terminal_envelope c prev tid now =
     \<lparr>event_id = tid, entity_kind = cmd_type c, entity_id = cmd_id c, env_previous = prev,
      terminal_status = cmd_status c, env_reason = reason_code (cmd_reason c), occurred_at = now,
      correlated = correlation_for (cmd_type c) (cmd_id c)\<rparr>"

definition execution_entity_kinds :: "string set" where
  "execution_entity_kinds = {''session'', ''invocation'', ''schedule_run'', ''play''}"

record registration =
  handler_name :: string
  handler_kinds :: "string set option"
  handler_ids :: "string set option"
  handler_override :: bool

type_synonym callbacks = "(string, registration) pydict"

definition matches :: "envelope \<Rightarrow> registration \<Rightarrow> bool" where
  "matches env h \<longleftrightarrow>
     (case handler_kinds h of None \<Rightarrow> True | Some ks \<Rightarrow> entity_kind env \<in> ks) \<and>
     (case handler_ids h of None \<Rightarrow> True | Some is \<Rightarrow> entity_id env \<in> is)"

definition register_callback ::
  "string \<Rightarrow> string set option \<Rightarrow> string set option \<Rightarrow> bool \<Rightarrow> callbacks \<Rightarrow> callbacks" where
  "register_callback name kinds is override cbs =
     dset name \<lparr>handler_name = name, handler_kinds = kinds, handler_ids = is, handler_override = override\<rparr> cbs"

definition unregister_callback :: "string \<Rightarrow> callbacks \<Rightarrow> callbacks" where
  "unregister_callback name cbs = ddel name cbs"

text \<open>The handlers an event is delivered to: the matching overrides if there is one.\<close>

definition emit_targets :: "envelope \<Rightarrow> callbacks \<Rightarrow> registration list" where
  "emit_targets env cbs =
     (let targets = filter (matches env) (map snd cbs); overrides = filter handler_override targets
      in if overrides = [] then targets else overrides)"

section \<open>The reason vocabulary\<close>

definition run_reasons :: "string list" where
  "run_reasons =
    [''run.started.ok'', ''run.completed.ok'', ''run.failed.exit_nonzero'', ''run.failed.exception'',
     ''run.failed.provider_retryable'', ''run.failed.provider_nonretryable'',
     ''run.failed.missing_artifact'', ''run.failed.missing_cwd'', ''run.failed.cwd_inherit_refused'',
     ''run.failed.escalated'', ''run.completed_empty.no_evidence'', ''run.completed.finalize_error'',
     ''run.completed.gate_rejected'', ''run.completed.spawn_refused'', ''run.failed.artifact_write'',
     ''run.timed_out.deadline'', ''run.aborted.user'', ''run.cancelled.sigint'',
     ''run.cancelled.sigterm'', ''run.cancelled.system'', ''run.cancelled.orchestrator'',
     ''run.cancelled.manual_kill'', ''run.cancelled.force_kill'', ''run.cancelled.stale_auto'',
     ''run.paused.operator'', ''run.queued.lease_expired'', ''run.failed.lease_attempts_exhausted'',
     ''run.failed.never_dispatched'', ''run.skipped.waiter_cap_exceeded'',
     ''run.skipped.duration_exceeds_lease'']"

definition session_reasons :: "string list" where
  "session_reasons =
    [''session.stale.no_heartbeat'', ''session.orphaned.no_process'', ''session.zombie.stale_locks'',
     ''session.phantom.process_dead'', ''session.phantom.missing_artifacts'',
     ''session.reopened.by_resume'']"

definition play_reasons :: "string list" where
  "play_reasons =
    [''play.pending.created'', ''play.pending.waiting_on_deps'', ''play.pending.ready'',
     ''play.blocked.invalid_deps'', ''play.blocked.dep_failed'', ''play.gate_failed.verdict'',
     ''play.escalated.gate_twice'', ''play.merged.ok'']"

definition show_reasons :: "string list" where
  "show_reasons =
    [''show.active.created'', ''show.blocked.no_ready_plays'', ''show.completed.final_gate'',
     ''show.aborted.operator'', ''show.completed.all_plays_merged'']"

definition schedule_reasons :: "string list" where
  "schedule_reasons =
    [''schedule.queued.created'', ''schedule.fired.due'', ''schedule.skipped.precondition'',
     ''schedule.skipped.overlap'', ''schedule.skipped.missed_fire'', ''schedule.deferred.capacity'',
     ''schedule.budget.exhausted'']"

definition team_reasons :: "string list" where
  "team_reasons =
    [''team.archived.operator'']"

definition dispatch_reasons :: "string list" where
  "dispatch_reasons =
    [''dispatch.pending.enqueued'', ''dispatch.delivering.attempt'',
     ''dispatch.delivered.transport_ok'', ''dispatch.pending.retry_backoff'',
     ''dispatch.dead_letter.max_attempts'', ''dispatch.dead_letter.ack_timeout'',
     ''dispatch.expired.deadline'', ''dispatch.acked.consumer'']"

definition legacy_imported :: string where "legacy_imported = ''legacy.imported''"

definition valid_reason_codes :: "string set" where
  "valid_reason_codes =
     set (run_reasons @ session_reasons @ play_reasons @ show_reasons @ schedule_reasons @ team_reasons
          @ dispatch_reasons) \<union> {legacy_imported}"

definition code_prefix :: "string \<Rightarrow> string" where
  "code_prefix s = takeWhile (\<lambda>c. c \<noteq> CHR ''.'') s"

section \<open>Validation\<close>

definition patch_columns :: "command \<Rightarrow> string set" where
  "patch_columns c = set (dkeys (patch c))"

text \<open>The checks made before the database is touched; \<open>True\<close> is a \<open>LifecycleValidationError\<close>.\<close>

definition command_invalid :: "lifecycle_policy \<Rightarrow> command \<Rightarrow> bool" where
  "command_invalid p c \<longleftrightarrow>
     cmd_id c = [] \<or> actor_type (cmd_actor c) = [] \<or> reason_code (cmd_reason c) = [] \<or> cmd_status c = [] \<or>
     cmd_status c \<notin> statuses p \<or> \<not> patch_columns c \<subseteq> patch_fields p \<or>
     (case cmd_override c of
        None \<Rightarrow> False
      | Some ov \<Rightarrow> override_actor ov = [] \<or> justification ov = [])"

definition declared_edges :: "lifecycle_policy \<Rightarrow> string option \<Rightarrow> edge_policy list" where
  "declared_edges p prev =
     (case prev of
        None \<Rightarrow> []
      | Some s \<Rightarrow> (case dget (edges p) s of None \<Rightarrow> [] | Some es \<Rightarrow> es))"

text \<open>The requirements of a declared edge: its actor types, its patch columns and its race guard.\<close>

definition edge_permits :: "edge_policy \<Rightarrow> string set \<Rightarrow> command \<Rightarrow> bool" where
  "edge_permits e guard_cols c \<longleftrightarrow>
     (case actor_types e of None \<Rightarrow> True | Some ts \<Rightarrow> actor_type (cmd_actor c) \<in> ts) \<and>
     required_patch_fields e \<subseteq> patch_columns c \<and>
     (required_guard_fields e = {} \<or> required_guard_fields e \<subseteq> guard_cols \<or> expected_version c \<noteq> None)"

text \<open>\<open>Allowed b\<close>: the write goes on, \<open>b\<close> telling whether it is an override to be logged.\<close>

datatype verdict = Invalid | Unchanged | Refused | Allowed bool

definition judge ::
  "lifecycle_policy \<Rightarrow> bool \<Rightarrow> bool \<Rightarrow> string set \<Rightarrow> command \<Rightarrow> string option \<Rightarrow> verdict" where
  "judge p enforce reject_undeclared guard_cols c prev =
     (case find (\<lambda>e. to_status e = cmd_status c) (if enforce then declared_edges p prev else []) of
        Some e \<Rightarrow> if edge_permits e guard_cols c then Allowed False else Invalid
      | None \<Rightarrow>
          if prev = Some (cmd_status c)
          then (case same_status p of Noop \<Rightarrow> Unchanged | Reject \<Rightarrow> Refused | Append \<Rightarrow> Allowed False)
          else if enforce
          then (if cmd_override c \<noteq> None then Allowed True
                else if reject_undeclared then Refused else Invalid)
          else if (case prev of None \<Rightarrow> False | Some s \<Rightarrow> s \<in> terminal_statuses p)
          then (if cmd_override c \<noteq> None then Allowed True else Refused)
          else Allowed False)"

section \<open>The end of a session\<close>

definition setdefault :: "string \<Rightarrow> cell \<Rightarrow> (string, cell) pydict \<Rightarrow> (string, cell) pydict" where
  "setdefault k v d = (if dhas d k then d else dset k v d)"

definition ended_cell :: "row \<Rightarrow> (string, cell) pydict \<Rightarrow> cell" where
  "ended_cell r d = (case dget d ''ended_at'' of Some v \<Rightarrow> v | None \<Rightarrow> r ''ended_at'')"

definition measured_here :: "row \<Rightarrow> (string, cell) pydict \<Rightarrow> bool" where
  "measured_here r d \<longleftrightarrow>
     ended_cell r d = CNull \<or> \<not> dhas d ''ended_at'' \<and> cell_true (r ''ended_at_is_approximate'')"

text \<open>The patch before the duration is settled, and the end it records.\<close>

definition end_patch :: "row \<Rightarrow> rat \<Rightarrow> (string, cell) pydict \<Rightarrow> (string, cell) pydict" where
  "end_patch r t d =
     (if measured_here r d
      then dset ''ended_at_is_approximate'' (CNum 0) (dset ''ended_at'' (CNum t) d)
      else setdefault ''ended_at_is_approximate'' (CNum 0) (setdefault ''ended_at'' (ended_cell r d) d))"

definition settle_end :: "row \<Rightarrow> rat \<Rightarrow> (string, cell) pydict \<Rightarrow> pyerr + (string, cell) pydict" where
  "settle_end r t d =
     (if cell_true (the (dget (end_patch r t d) ''ended_at_is_approximate''))
      then Inr (dset ''duration_ms'' CNull (end_patch r t d))
      else if dhas (end_patch r t d) ''duration_ms'' then Inr (end_patch r t d)
      else (case r ''started_at'' of
              CNum s \<Rightarrow>
                (case (if measured_here r d then CNum t else ended_cell r d) of
                   CNum e \<Rightarrow> Inr (dset ''duration_ms'' (CNum (max 0 ((e - s) * 1000))) (end_patch r t d))
                 | _ \<Rightarrow> Inl TypeError)
            | _ \<Rightarrow> Inr (end_patch r t d)))"

section \<open>The transaction\<close>

definition session_ends :: "lifecycle_policy \<Rightarrow> command \<Rightarrow> bool" where
  "session_ends p c \<longleftrightarrow> cmd_type c = ''session'' \<and> cmd_status c \<in> terminal_statuses p"

definition rejected_event :: "command \<Rightarrow> string option \<Rightarrow> rat \<Rightarrow> admin_event" where
  "rejected_event c prev now =
     \<lparr>action = Status_transition_rejected, target = cmd_id c, event_type = cmd_type c,
      event_previous = prev, event_status = cmd_status c, event_reason = reason_code (cmd_reason c),
      event_note = actor_type (cmd_actor c),
      event_actor = (case actor_id (cmd_actor c) of
                       Some a \<Rightarrow> if a = [] then actor_type (cmd_actor c) else a
                     | None \<Rightarrow> actor_type (cmd_actor c)),
      event_created = now\<rparr>"

definition override_event :: "command \<Rightarrow> override \<Rightarrow> string option \<Rightarrow> rat \<Rightarrow> admin_event" where
  "override_event c ov prev now =
     \<lparr>action = Status_transition_override, target = cmd_id c, event_type = cmd_type c,
      event_previous = prev, event_status = cmd_status c, event_reason = reason_code (cmd_reason c),
      event_note = justification ov, event_actor = override_actor ov, event_created = now\<rparr>"

definition log_event :: "admin_event \<Rightarrow> db \<Rightarrow> db" where
  "log_event e d = d\<lparr>admin_events := admin_events d @ [e]\<rparr>"

definition history_row :: "command \<Rightarrow> string option \<Rightarrow> string \<Rightarrow> rat \<Rightarrow> transition_row" where
  "history_row c prev tid now =
     \<lparr>row_id = tid, row_type = cmd_type c, row_entity = cmd_id c, row_previous = prev,
      row_status = cmd_status c, row_reason = cmd_reason c, row_actor = cmd_actor c, row_created = now\<rparr>"

definition set_columns :: "(string, cell) pydict \<Rightarrow> row \<Rightarrow> row" where
  "set_columns d r = foldl (\<lambda>r (k, v). r(k := v)) r d"

definition reason_cells :: "reason \<Rightarrow> (string, cell) pydict" where
  "reason_cells rs =
     [(''status_reason_code'', CText (reason_code rs)), (''status_reason_summary'', CText (reason_summary rs)),
      (''status_evidence_refs'', CText (evidence_refs rs))]"

text \<open>The SET clauses in their order.\<close>

definition updated_row :: "bool \<Rightarrow> command \<Rightarrow> rat \<Rightarrow> row \<Rightarrow> row" where
  "updated_row write_reason c now r =
     set_columns
       ((''status'', CText (cmd_status c)) #
        (if write_reason then reason_cells (cmd_reason c) else []) @
        (''updated_at'', CNum now) # patch c) r"

text \<open>The WHERE clauses.\<close>

definition row_selected :: "command \<Rightarrow> (string, cell) pydict \<Rightarrow> string option \<Rightarrow> row \<Rightarrow> bool" where
  "row_selected c guard prev r \<longleftrightarrow>
     (sql_eq (r ''status'') (status_cell prev) \<or> r ''status'' = CNull \<and> status_cell prev = CNull) \<and>
     (case expected_version c of None \<Rightarrow> True | Some v \<Rightarrow> sql_eq (r ''updated_at'') (CNum v)) \<and>
     list_all (\<lambda>(k, v). sql_eq (r k) v) guard"

definition guarded_write ::
  "string \<Rightarrow> command \<Rightarrow> (string, cell) pydict \<Rightarrow> bool \<Rightarrow> string option \<Rightarrow> rat \<Rightarrow> string \<Rightarrow> db \<Rightarrow> string option \<times> db" where
  "guarded_write tb c guard write_reason prev now tid d =
     (case rows d tb (cmd_id c) of
        None \<Rightarrow> (None, d)
      | Some r \<Rightarrow>
          if row_selected c guard prev r
          then (Some tid,
                d\<lparr>rows := (rows d)(tb := (rows d tb)(cmd_id c \<mapsto> updated_row write_reason c now r)),
                  history := history d @ [history_row c prev tid now]\<rparr>)
          else (None, d))"

text \<open>
  The keyword arguments of \<open>_transition\<close>, and what the environment supplies: the clock, the fresh
  id and the commits of others between the SELECT and the UPDATE.
\<close>

record call_args =
  extra_guard :: "(string, cell) pydict"
  enforce_edges :: bool
  reject_undeclared :: bool
  raise_on_unguarded :: bool
  write_reason :: bool

record env =
  now :: rat
  fresh_id :: string
  between :: "db \<Rightarrow> db"

type_synonym 'a tx = "(pyerr + 'a) \<times> db \<times> envelope list"

definition conflict :: "string option \<Rightarrow> outcome" where
  "conflict prev =
     \<lparr>result = Conflict, previous_status = prev, current_status = prev, transition_id = None\<rparr>"

definition version_stale :: "command \<Rightarrow> row \<Rightarrow> bool" where
  "version_stale c r \<longleftrightarrow> (case expected_version c of None \<Rightarrow> False | Some v \<Rightarrow> r ''updated_at'' \<noteq> CNum v)"

text \<open>The log entry of an override.\<close>

definition log_override :: "command \<Rightarrow> bool \<Rightarrow> string option \<Rightarrow> rat \<Rightarrow> db \<Rightarrow> db" where
  "log_override c logged prev t d =
     (case cmd_override c of
        Some ov \<Rightarrow> if logged then log_event (override_event c ov prev t) d else d
      | None \<Rightarrow> d)"

definition final_patch :: "lifecycle_policy \<Rightarrow> command \<Rightarrow> row \<Rightarrow> rat \<Rightarrow> pyerr + (string, cell) pydict" where
  "final_patch p c r t =
     (if session_ends p c \<and> status_text (r ''status'') \<noteq> Some (cmd_status c) then settle_end r t (patch c)
      else Inr (patch c))"

text \<open>The event emitted after the commit.\<close>

definition final_event :: "lifecycle_policy \<Rightarrow> command \<Rightarrow> string option \<Rightarrow> string \<Rightarrow> rat \<Rightarrow> envelope list" where
  "final_event p c prev tid t =
     (if prev \<noteq> Some (cmd_status c) \<and> cmd_type c \<in> execution_entity_kinds \<and> cmd_status c \<in> terminal_statuses p
      then [terminal_envelope c prev tid t] else [])"

text \<open>What follows the verdict \<open>Allowed logged\<close>; \<open>d1\<close> is the state a raise rolls back to.\<close>

definition commit ::
  "lifecycle_policy \<Rightarrow> command \<Rightarrow> call_args \<Rightarrow> env \<Rightarrow> row \<Rightarrow> bool \<Rightarrow> db \<Rightarrow> outcome tx" where
  "commit p c a e r logged d1 =
     (let prev = status_text (r ''status'') in
      if version_stale c r then (Inr (conflict prev), d1, [])
      else let d2 = log_override c logged prev (now e) d1 in
      if \<not> list_all (\<lambda>(k, v). r k = v) (extra_guard a) then (Inr (conflict prev), d2, [])
      else case final_patch p c r (now e) of
             Inl err \<Rightarrow> (Inl err, d1, [])
           | Inr patch' \<Rightarrow>
               (case guarded_write (table p) (c\<lparr>patch := patch'\<rparr>) (extra_guard a) (write_reason a) prev
                       (now e) (fresh_id e) d2 of
                  (None, d3) \<Rightarrow>
                    if raise_on_unguarded a \<and> expected_statuses c = None \<and> expected_version c = None
                         \<and> extra_guard a = []
                    then (Inl RuntimeError, d1, []) else (Inr (conflict prev), d3, [])
                | (Some tid, d3) \<Rightarrow>
                    (Inr \<lparr>result = Applied, previous_status = prev,
                          current_status = Some (cmd_status c), transition_id = Some tid\<rparr>, d3,
                     final_event p c prev tid (now e))))"

definition transition_in :: "registry \<Rightarrow> command \<Rightarrow> call_args \<Rightarrow> env \<Rightarrow> db \<Rightarrow> outcome tx" where
  "transition_in reg c a e d =
     (case get_policy (cmd_type c) reg of
        Inl _ \<Rightarrow> (Inl ValueError, d, [])
      | Inr p \<Rightarrow>
          if command_invalid p c then (Inl LifecycleValidationError, d, [])
          else case rows d (table p) (cmd_id c) of
                 None \<Rightarrow> (Inl LifecycleNotFoundError, d, [])
               | Some r \<Rightarrow>
                   (let d1 = between e d; prev = status_text (r ''status'') in
                    if (case expected_statuses c of None \<Rightarrow> False | Some S \<Rightarrow> prev \<notin> S)
                    then (Inr (conflict prev), d1, [])
                    else case judge p (enforce_edges a) (reject_undeclared a) (set (dkeys (extra_guard a))) c prev of
                           Invalid \<Rightarrow> (Inl LifecycleValidationError, d1, [])
                         | Unchanged \<Rightarrow>
                             (Inr \<lparr>result = Applied, previous_status = prev,
                                   current_status = Some (cmd_status c), transition_id = None\<rparr>, d1, [])
                         | Refused \<Rightarrow>
                             (Inr \<lparr>result = Rejected, previous_status = prev, current_status = prev,
                                   transition_id = None\<rparr>, log_event (rejected_event c prev (now e)) d1, [])
                         | Allowed logged \<Rightarrow> commit p c a e r logged d1))"

definition valid_actor_types :: "string set" where
  "valid_actor_types =
     {''executor'', ''agent'', ''admin'', ''system'', ''scheduler'', ''operator'', ''webhook''}"

text \<open>The public entry point.\<close>

definition public_args :: "lifecycle_policy \<Rightarrow> call_args" where
  "public_args p =
     \<lparr>extra_guard = [], enforce_edges = True, reject_undeclared = True, raise_on_unguarded = False,
      write_reason = reason_columns p\<rparr>"

definition transition :: "registry \<Rightarrow> command \<Rightarrow> env \<Rightarrow> db \<Rightarrow> outcome tx" where
  "transition reg c e d =
     (if reason_code (cmd_reason c) \<notin> valid_reason_codes then (Inl LifecycleValidationError, d, [])
      else case get_policy (cmd_type c) reg of
             Inl _ \<Rightarrow> (Inl ValueError, d, [])
           | Inr p \<Rightarrow>
               if code_prefix (reason_code (cmd_reason c)) \<notin> reason_prefixes p
                  \<or> actor_id (cmd_actor c) \<in> {None, Some []}
                  \<or> actor_type (cmd_actor c) \<notin> valid_actor_types
               then (Inl LifecycleValidationError, d, [])
               else transition_in reg c (public_args p) e d)"

section \<open>Initial history\<close>

definition initial_row :: "initial_command \<Rightarrow> string \<Rightarrow> rat \<Rightarrow> transition_row" where
  "initial_row c tid t =
     \<lparr>row_id = tid, row_type = init_type c, row_entity = init_id c, row_previous = None,
      row_status = init_status c, row_reason = init_reason c, row_actor = init_actor c, row_created = t\<rparr>"

definition initialize_in_transaction ::
  "registry \<Rightarrow> initial_command \<Rightarrow> rat \<Rightarrow> string \<Rightarrow> db \<Rightarrow> (pyerr + string) \<times> db" where
  "initialize_in_transaction reg c t tid d =
     (case get_policy (init_type c) reg of
        Inl _ \<Rightarrow> (Inl ValueError, d)
      | Inr p \<Rightarrow>
          if init_id c = [] \<or> actor_id (init_actor c) \<in> {None, Some []} \<or> reason_code (init_reason c) = []
             \<or> init_status c \<notin> initial_statuses p
          then (Inl LifecycleValidationError, d)
          else if rows d (table p) (init_id c) = None then (Inl LifecycleNotFoundError, d)
          else if list_ex (\<lambda>h. row_type h = init_type c \<and> row_entity h = init_id c \<and> row_previous h = None)
                    (history d)
          then (Inl LifecycleValidationError, d)
          else (Inr tid, d\<lparr>history := history d @ [initial_row c tid t]\<rparr>))"

section \<open>The legacy surfaces\<close>

text \<open>\<open>run_update_status\<close>: the mapping of the outcome onto a bool or a raise.\<close>

definition update_status_args :: call_args where
  "update_status_args =
     \<lparr>extra_guard = [], enforce_edges = False, reject_undeclared = False, raise_on_unguarded = True,
      write_reason = True\<rparr>"

definition run_update_status :: "registry \<Rightarrow> command \<Rightarrow> env \<Rightarrow> db \<Rightarrow> bool tx" where
  "run_update_status reg c e d =
     (case transition_in reg c update_status_args e d of
        (Inl err, d', evs) \<Rightarrow> (Inl err, d', evs)
      | (Inr out, d', evs) \<Rightarrow>
          ((case result out of
              Applied \<Rightarrow> Inr True
            | Rejected \<Rightarrow> Inl TransitionRejectedError
            | Conflict \<Rightarrow> Inr False), d', evs))"

text \<open>\<open>run_legacy_transition\<close>: the guarded compare-and-swap with declared edges.\<close>

record legacy_request =
  req_type :: string
  req_id :: string
  from_state :: "string option"
  to_state :: string
  req_reason :: reason
  req_actor :: actor
  req_guard :: "(string, cell) pydict"
  req_patch :: "(string, cell) pydict"

definition legacy_command :: "legacy_request \<Rightarrow> command" where
  "legacy_command q =
     \<lparr>cmd_type = req_type q, cmd_id = req_id q, cmd_status = to_state q, cmd_reason = req_reason q,
      cmd_actor = req_actor q,
      expected_statuses = (case from_state q of None \<Rightarrow> None | Some s \<Rightarrow> Some {Some s}),
      expected_version = None, patch = req_patch q, cmd_override = None\<rparr>"

definition legacy_args :: "legacy_request \<Rightarrow> call_args" where
  "legacy_args q =
     \<lparr>extra_guard = req_guard q, enforce_edges = True, reject_undeclared = False,
      raise_on_unguarded = False, write_reason = False\<rparr>"

definition run_legacy_transition :: "registry \<Rightarrow> legacy_request \<Rightarrow> env \<Rightarrow> db \<Rightarrow> outcome tx" where
  "run_legacy_transition reg q e d = transition_in reg (legacy_command q) (legacy_args q) e d"

definition guard_patch_columns :: "string \<Rightarrow> string set option" where
  "guard_patch_columns et =
     (if et = ''dispatch'' then Some {''attempt'', ''next_attempt_at'', ''last_error''}
      else if et = ''schedule_run'' then Some {''leased_by'', ''lease_expires_at'', ''lease_attempts''}
      else None)"

text \<open>\<open>transition\<close> of \<open>state/transitions.py\<close>: applied or not, with the states and the id it reports.\<close>

record legacy_result =
  applied :: bool
  conflicted :: bool
  previous_state :: "string option"
  current_state :: "string option"
  legacy_id :: "string option"

definition legacy_transition :: "registry \<Rightarrow> legacy_request \<Rightarrow> env \<Rightarrow> db \<Rightarrow> legacy_result tx" where
  "legacy_transition reg q e d =
     (case guard_patch_columns (req_type q) of
        None \<Rightarrow> (Inl ValueError, d, [])
      | Some cols \<Rightarrow>
          if reason_code (req_reason q) \<notin> valid_reason_codes
             \<or> \<not> set (dkeys (req_guard q)) \<subseteq> cols \<or> \<not> set (dkeys (req_patch q)) \<subseteq> cols
          then (Inl ValueError, d, [])
          else (case run_legacy_transition reg q e d of
                  (Inl err, d', evs) \<Rightarrow>
                    (Inl (if err = LifecycleNotFoundError then LookupError else err), d', evs)
                | (Inr out, d', evs) \<Rightarrow>
                    (Inr (if result out = Conflict
                          then \<lparr>applied = False, conflicted = True, previous_state = previous_status out,
                                current_state = current_status out, legacy_id = Some (fresh_id e)\<rparr>
                          else \<lparr>applied = True, conflicted = False, previous_state = previous_status out,
                                current_state = current_status out, legacy_id = transition_id out\<rparr>), d', evs)))"

section \<open>The history of an entity\<close>

definition history_of :: "db \<Rightarrow> string \<Rightarrow> string \<Rightarrow> transition_row list" where
  "history_of d et eid = filter (\<lambda>h. row_type h = et \<and> row_entity h = eid) (history d)"

fun chained :: "transition_row list \<Rightarrow> bool" where
  "chained (h # h' # hs) \<longleftrightarrow> row_previous h' = Some (row_status h) \<and> chained (h' # hs)"
| "chained _ \<longleftrightarrow> True"

text \<open>An entity with a history has the status the history ends with.\<close>

definition agrees :: "db \<Rightarrow> lifecycle_policy \<Rightarrow> string \<Rightarrow> bool" where
  "agrees d p eid \<longleftrightarrow>
     chained (history_of d (entity_type p) eid) \<and>
     (history_of d (entity_type p) eid \<noteq> [] \<longrightarrow>
        (\<exists>r. rows d (table p) eid = Some r \<and>
           r ''status'' = CText (row_status (last (history_of d (entity_type p) eid)))))"

definition history_ok :: "registry \<Rightarrow> db \<Rightarrow> bool" where
  "history_ok reg d \<longleftrightarrow> (\<forall>et p eid. get_policy et reg = Inr p \<longrightarrow> agrees d p eid)"

lemma chained_snoc:
  "chained hs \<Longrightarrow> (hs \<noteq> [] \<Longrightarrow> row_previous h = Some (row_status (last hs))) \<Longrightarrow> chained (hs @ [h])"
  by (induction hs rule: chained.induct) auto

lemma set_columns_other: "k \<notin> set (dkeys d) \<Longrightarrow> set_columns d r k = r k"
  unfolding set_columns_def by (induction d arbitrary: r) auto

lemma updated_status:
  assumes "''status'' \<notin> patch_columns c"
  shows "updated_row wr c t r ''status'' = CText (cmd_status c)"
proof -
  let ?rest = "(if wr then reason_cells (cmd_reason c) else []) @ (''updated_at'', CNum t) # patch c"
  have "''status'' \<notin> set (dkeys ?rest)"
    using assms by (auto simp: patch_columns_def reason_cells_def)
  then have "set_columns ?rest (r(''status'' := CText (cmd_status c))) ''status'' = CText (cmd_status c)"
    using set_columns_other[of "''status''" ?rest] by simp
  then show ?thesis by (simp add: updated_row_def set_columns_def)
qed

section \<open>What a transaction can do\<close>

lemma log_event_simps [simp]:
  "rows (log_event ev d) = rows d" "history (log_event ev d) = history d"
  "admin_events (log_event ev d) = admin_events d @ [ev]"
  by (simp_all add: log_event_def)

lemma guarded_write_None: "guarded_write tb c g wr prev t tid d = (None, d') \<Longrightarrow> d' = d"
  by (auto simp: guarded_write_def split: option.splits if_splits)

lemma guarded_write_Some:
  "guarded_write tb c g wr prev t tid d = (Some x, d') \<longleftrightarrow>
     (\<exists>r. rows d tb (cmd_id c) = Some r \<and> row_selected c g prev r \<and> x = tid \<and>
        d' = d\<lparr>rows := (rows d)(tb := (rows d tb)(cmd_id c \<mapsto> updated_row wr c t r)),
               history := history d @ [history_row c prev tid t]\<rparr>)"
  by (auto simp: guarded_write_def split: option.splits if_splits)

lemma log_override_simps [simp]:
  "rows (log_override c logged prev t d) = rows d" "history (log_override c logged prev t d) = history d"
  by (simp_all add: log_override_def split: option.split)

definition is_applied :: "pyerr + outcome \<Rightarrow> bool" where
  "is_applied res \<longleftrightarrow> (case res of Inl _ \<Rightarrow> False | Inr out \<Rightarrow> result out = Applied)"

lemma commit_applied:
  assumes "commit p c a e r logged d1 = (res, d', evs)" "is_applied res"
  obtains patch' r' where
    "\<not> version_stale c r" "list_all (\<lambda>(k, v). r k = v) (extra_guard a)"
    "final_patch p c r (now e) = Inr patch'" "rows d1 (table p) (cmd_id c) = Some r'"
    "row_selected (c\<lparr>patch := patch'\<rparr>) (extra_guard a) (status_text (r ''status'')) r'"
    "res = Inr \<lparr>result = Applied, previous_status = status_text (r ''status''),
                current_status = Some (cmd_status c), transition_id = Some (fresh_id e)\<rparr>"
    "d' = (log_override c logged (status_text (r ''status'')) (now e) d1)
            \<lparr>rows := (rows d1)(table p := (rows d1 (table p))(cmd_id c \<mapsto>
                        updated_row (write_reason a) (c\<lparr>patch := patch'\<rparr>) (now e) r')),
             history := history d1 @ [history_row c (status_text (r ''status'')) (fresh_id e) (now e)]\<rparr>"
    "evs = final_event p c (status_text (r ''status'')) (fresh_id e) (now e)"
proof -
  note run = assms(1)[unfolded commit_def Let_def]
  have fresh: "\<not> version_stale c r" "list_all (\<lambda>(k, v). r k = v) (extra_guard a)"
    using run assms(2) by (auto simp: is_applied_def conflict_def split: if_splits)
  obtain patch' where patch': "final_patch p c r (now e) = Inr patch'"
    using run fresh assms(2) by (cases "final_patch p c r (now e)") (auto simp: is_applied_def)
  obtain w d3 where w: "guarded_write (table p) (c\<lparr>patch := patch'\<rparr>) (extra_guard a) (write_reason a)
      (status_text (r ''status'')) (now e) (fresh_id e)
      (log_override c logged (status_text (r ''status'')) (now e) d1) = (w, d3)" by force
  obtain tid where "w = Some tid"
    using run fresh patch' w assms(2) by (cases w) (auto simp: is_applied_def conflict_def split: if_splits)
  then obtain r' where r': "rows d1 (table p) (cmd_id c) = Some r'"
    "row_selected (c\<lparr>patch := patch'\<rparr>) (extra_guard a) (status_text (r ''status'')) r'" "tid = fresh_id e"
    "d3 = (log_override c logged (status_text (r ''status'')) (now e) d1)
            \<lparr>rows := (rows d1)(table p := (rows d1 (table p))(cmd_id c \<mapsto>
                        updated_row (write_reason a) (c\<lparr>patch := patch'\<rparr>) (now e) r')),
             history := history d1 @ [history_row c (status_text (r ''status'')) (fresh_id e) (now e)]\<rparr>"
    using w by (auto simp: guarded_write_Some history_row_def)
  show thesis
    using that[OF fresh patch' r'(1,2)] run fresh patch' w \<open>w = Some tid\<close> r'(3,4) by simp
qed

lemma commit_not_applied:
  assumes "commit p c a e r logged d1 = (res, d', evs)" "\<not> is_applied res"
  shows "(d' = d1 \<or> d' = log_override c logged (status_text (r ''status'')) (now e) d1) \<and> evs = []"
  using assms unfolding commit_def Let_def
  by (auto simp: is_applied_def split: if_splits sum.splits prod.splits option.splits dest!: guarded_write_None)

definition not_expected :: "command \<Rightarrow> string option \<Rightarrow> bool" where
  "not_expected c prev \<longleftrightarrow> (case expected_statuses c of None \<Rightarrow> False | Some S \<Rightarrow> prev \<notin> S)"

lemma transition_in_allowed:
  assumes "transition_in reg c a e d = (Inr out, d', evs)" "is_applied (Inr out)" "transition_id out \<noteq> None"
  obtains p r logged where
    "get_policy (cmd_type c) reg = Inr p" "\<not> command_invalid p c" "rows d (table p) (cmd_id c) = Some r"
    "\<not> not_expected c (status_text (r ''status''))"
    "judge p (enforce_edges a) (reject_undeclared a) (set (dkeys (extra_guard a))) c (status_text (r ''status''))
       = Allowed logged"
    "commit p c a e r logged (between e d) = (Inr out, d', evs)"
proof -
  obtain p where p: "get_policy (cmd_type c) reg = Inr p" "\<not> command_invalid p c"
    using assms by (auto simp: transition_in_def is_applied_def split: sum.splits if_splits)
  obtain r where r: "rows d (table p) (cmd_id c) = Some r"
    using assms p by (auto simp: transition_in_def is_applied_def split: option.splits)
  let ?prev = "status_text (r ''status'')"
  let ?v = "judge p (enforce_edges a) (reject_undeclared a) (set (dkeys (extra_guard a))) c ?prev"
  note run = assms(1)[unfolded transition_in_def p(1) sum.case if_not_P[OF p(2)] r option.case Let_def,
      folded not_expected_def]
  have ok: "\<not> not_expected c ?prev" using run assms(2) by (auto simp: is_applied_def conflict_def split: if_splits)
  obtain logged where v: "?v = Allowed logged"
    using run ok assms(2,3) by (cases ?v) (auto simp: is_applied_def)
  show thesis using that[OF p r ok v] run ok v by simp
qed

lemma transition_in_unwritten:
  assumes "transition_in reg c a e d = (res, d', evs)" "\<forall>out. res = Inr out \<longrightarrow> transition_id out = None"
  shows "(d' = d \<or> rows d' = rows (between e d) \<and> history d' = history (between e d)) \<and> evs = []"
proof -
  consider "d' = d" "evs = []" | "d' = between e d" "evs = []"
    | ev where "d' = log_event ev (between e d)" "evs = []"
    | p r logged where "commit p c a e r logged (between e d) = (res, d', evs)"
    using assms(1)
    by (auto simp: transition_in_def Let_def split: sum.splits if_splits option.splits verdict.splits)
  then show ?thesis
  proof cases
    case (4 p r logged)
    have "\<not> is_applied res"
    proof
      assume "is_applied res"
      then show False using commit_applied[OF 4] assms(2) by fastforce
    qed
    then show ?thesis using commit_not_applied[OF 4] by auto
  qed auto
qed

lemma not_applied_unwritten:
  assumes "transition_in reg c a e d = (Inr out, d', evs)" "transition_id out \<noteq> None"
  shows "is_applied (Inr out)"
proof (rule ccontr)
  assume no: "\<not> is_applied (Inr out)"
  consider "transition_id out = None"
    | p r logged where "commit p c a e r logged (between e d) = (Inr out, d', evs)"
    using assms(1)
    by (auto simp: transition_in_def Let_def conflict_def split: sum.splits if_splits option.splits verdict.splits)
  then show False
  proof cases
    case (2 p r logged)
    then show ?thesis using no assms(2)
      by (auto simp: commit_def Let_def conflict_def is_applied_def split: if_splits sum.splits option.splits prod.splits)
  qed (use assms(2) in simp)
qed

section \<open>The history stays consistent\<close>

lemma columns_dset: "set (dkeys (dset k v d)) = insert k (set (dkeys d))"
  by (simp add: dkeys_dset insert_absorb)

lemma columns_setdefault: "set (dkeys (setdefault k v d)) = insert k (set (dkeys d))"
  by (simp add: setdefault_def columns_dset insert_absorb del: set_map)

lemma settle_end_cases:
  assumes "settle_end r t d = Inr d'"
  obtains
    "cell_true (the (dget (end_patch r t d) ''ended_at_is_approximate''))"
    "d' = dset ''duration_ms'' CNull (end_patch r t d)"
  | "\<not> cell_true (the (dget (end_patch r t d) ''ended_at_is_approximate''))" "d' = end_patch r t d"
    "dhas (end_patch r t d) ''duration_ms'' \<or> (\<forall>s. r ''started_at'' \<noteq> CNum s)"
  | s e where "\<not> cell_true (the (dget (end_patch r t d) ''ended_at_is_approximate''))"
    "\<not> dhas (end_patch r t d) ''duration_ms''"
    "r ''started_at'' = CNum s" "(if measured_here r d then CNum t else ended_cell r d) = CNum e"
    "d' = dset ''duration_ms'' (CNum (max 0 ((e - s) * 1000))) (end_patch r t d)"
proof -
  note run = settle_end_def[of r t d, unfolded assms]
  let ?flag = "cell_true (the (dget (end_patch r t d) ''ended_at_is_approximate''))"
  let ?stop = "if measured_here r d then CNum t else ended_cell r d"
  show thesis
  proof (cases ?flag)
    case True
    show thesis by (rule that(1)[OF True]) (use run in \<open>simp only: True if_True sum.inject\<close>)
  next
    case flag: False
    show thesis
    proof (cases "dhas (end_patch r t d) ''duration_ms''")
      case True
      show thesis by (rule that(2)[OF flag]) (use run in \<open>simp_all only: flag True if_True if_False sum.inject simp_thms\<close>)
    next
      case dur: False
      show thesis
      proof (cases "r ''started_at''")
        case s: (CNum s)
        show thesis
        proof (cases ?stop)
          case e: (CNum e)
          show thesis
            by (rule that(3)[OF flag dur s e]) (use run in \<open>simp only: flag dur s e if_False cell.case sum.inject\<close>)
        qed (use run in \<open>simp_all only: flag dur s if_False cell.case sum.distinct\<close>)
      next
        case CNull
        show thesis
          by (rule that(2)[OF flag]) (use run in \<open>simp_all only: flag dur CNull if_False cell.case sum.inject cell.distinct simp_thms\<close>)
      next
        case (CText x)
        show thesis
          by (rule that(2)[OF flag]) (use run in \<open>simp_all only: flag dur CText if_False cell.case sum.inject cell.distinct simp_thms\<close>)
      qed
    qed
  qed
qed

lemma settle_end_columns:
  assumes "settle_end r t d = Inr d'"
  shows "set (dkeys d') \<subseteq> {''ended_at'', ''ended_at_is_approximate'', ''duration_ms''} \<union> set (dkeys d)"
proof -
  have "set (dkeys (end_patch r t d)) \<subseteq> {''ended_at'', ''ended_at_is_approximate''} \<union> set (dkeys d)"
    unfolding end_patch_def
    by (simp only: columns_dset columns_setdefault split: if_split) blast
  then show ?thesis
    by (cases rule: settle_end_cases[OF assms]) (simp_all only: columns_dset, blast+)
qed

lemma final_patch_status:
  assumes "final_patch p c r t = Inr d" "''status'' \<notin> patch_columns c"
  shows "''status'' \<notin> patch_columns (c\<lparr>patch := d\<rparr>)"
  using assms settle_end_columns[of r t "patch c" d]
  by (auto simp: final_patch_def patch_columns_def split: if_splits)

definition status_guarded :: "registry \<Rightarrow> bool" where
  "status_guarded reg \<longleftrightarrow> (\<forall>et p. get_policy et reg = Inr p \<longrightarrow> ''status'' \<notin> patch_fields p)"

lemma write_agrees:
  assumes ok: "history_ok reg d" and reg: "registry_ok reg" and p: "get_policy (cmd_type c) reg = Inr p"
    and r: "rows d (table p) (cmd_id c) = Some r" and sel: "row_selected c g prev r"
    and col: "''status'' \<notin> patch_columns c"
    and d': "rows d' = (rows d)(table p := (rows d (table p))(cmd_id c \<mapsto> updated_row wr c t r))"
      "history d' = history d @ [history_row c prev tid t]"
  shows "history_ok reg d'"
  unfolding history_ok_def
proof (intro allI impI)
  fix et q eid assume q: "get_policy et reg = Inr q"
  have names: "entity_type p = cmd_type c" "entity_type q = et"
    using registered(1)[OF reg] p q by blast+
  have tables: "table q = table p \<Longrightarrow> et = cmd_type c"
    by (rule same_table[OF reg q p])
  have old: "agrees d q eid" using ok q unfolding history_ok_def by blast
  have h: "row_type (history_row c prev tid t) = cmd_type c" "row_entity (history_row c prev tid t) = cmd_id c"
    "row_status (history_row c prev tid t) = cmd_status c" "row_previous (history_row c prev tid t) = prev"
    by (simp_all add: history_row_def)
  show "agrees d' q eid"
  proof (cases "et = cmd_type c \<and> eid = cmd_id c")
    case False
    have "history_of d' (entity_type q) eid = history_of d (entity_type q) eid"
      using False names h by (auto simp: history_of_def d'(2))
    moreover have "rows d' (table q) eid = rows d (table q) eid" using False tables by (auto simp: d'(1))
    ultimately show ?thesis using old by (simp add: agrees_def)
  next
    case True
    then have "q = p" using p q by simp
    let ?hs = "history_of d (entity_type q) eid"
    have new: "history_of d' (entity_type q) eid = ?hs @ [history_row c prev tid t]"
      using True names h by (simp add: history_of_def d'(2))
    have "prev = Some (row_status (last ?hs))" if "?hs \<noteq> []"
    proof -
      have "r ''status'' = CText (row_status (last ?hs))"
        using old that r True \<open>q = p\<close> unfolding agrees_def by simp
      then show ?thesis using sel by (auto simp: row_selected_def sql_eq_def status_cell_def split: option.splits)
    qed
    then have "chained (?hs @ [history_row c prev tid t])"
      using old h by (intro chained_snoc) (simp_all add: agrees_def)
    moreover have "rows d' (table q) eid = Some (updated_row wr c t r)" using True \<open>q = p\<close> by (simp add: d'(1))
    ultimately show ?thesis
      using updated_status[OF col] unfolding agrees_def new by (simp add: h(3))
  qed
qed

text \<open>
  The laws of a store of entities with a history: transitions keep it consistent, whatever others
  commit in between, as long as they keep it consistent too.
\<close>

lemma transition_in_history:
  assumes "history_ok reg d" "history_ok reg (between e d)" "registry_ok reg" "status_guarded reg"
  shows "history_ok reg (fst (snd (transition_in reg c a e d)))"
proof -
  obtain res d' evs where run: "transition_in reg c a e d = (res, d', evs)" by (metis prod_cases3)
  have keep: "history_ok reg x \<Longrightarrow> rows d' = rows x \<Longrightarrow> history d' = history x \<Longrightarrow> history_ok reg d'" for x
    unfolding history_ok_def agrees_def history_of_def by simp
  show ?thesis
  proof (cases "\<forall>out. res = Inr out \<longrightarrow> transition_id out = None")
    case True
    then show ?thesis using transition_in_unwritten[OF run True] run keep assms(1,2) by auto
  next
    case False
    then obtain out where out: "res = Inr out" "transition_id out \<noteq> None" by blast
    note run = run[unfolded out(1)]
    note applied = not_applied_unwritten[OF run out(2)]
    obtain p r logged where p: "get_policy (cmd_type c) reg = Inr p" "\<not> command_invalid p c"
      and commit: "commit p c a e r logged (between e d) = (Inr out, d', evs)"
      using run applied out(2) by (rule transition_in_allowed)
    have col: "''status'' \<notin> patch_columns c"
      using p assms(4) unfolding command_invalid_def status_guarded_def by blast
    show ?thesis
    proof (rule commit_applied[OF commit applied])
      fix patch' r'
      let ?c = "c\<lparr>patch := patch'\<rparr>" and ?prev = "status_text (r ''status'')"
      assume patch': "final_patch p c r (now e) = Inr patch'"
        and r': "rows (between e d) (table p) (cmd_id c) = Some r'" "row_selected ?c (extra_guard a) ?prev r'"
        and d': "d' = (log_override c logged ?prev (now e) (between e d))
            \<lparr>rows := (rows (between e d))(table p := (rows (between e d) (table p))(cmd_id c \<mapsto>
                        updated_row (write_reason a) ?c (now e) r')),
             history := history (between e d) @ [history_row c ?prev (fresh_id e) (now e)]\<rparr>"
      have "history_ok reg d'"
        by (rule write_agrees[OF assms(2,3), of ?c p r' "extra_guard a" ?prev _ "write_reason a" "now e" "fresh_id e"])
           (use p r' d' final_patch_status[OF patch' col] in \<open>auto simp: history_row_def\<close>)
      then show ?thesis by (simp add: run)
    qed
  qed
qed

datatype lifecycle_call =
    Transition command rat string
  | Update_status command rat string
  | Legacy_transition legacy_request rat string

definition alone :: "rat \<Rightarrow> string \<Rightarrow> env" where
  "alone t tid = \<lparr>now = t, fresh_id = tid, between = (\<lambda>d. d)\<rparr>"

fun lifecycle_step :: "db \<Rightarrow> lifecycle_call \<Rightarrow> db" where
  "lifecycle_step d (Transition c t tid) = fst (snd (transition default_registry c (alone t tid) d))"
| "lifecycle_step d (Update_status c t tid) = fst (snd (run_update_status default_registry c (alone t tid) d))"
| "lifecycle_step d (Legacy_transition q t tid) =
     fst (snd (legacy_transition default_registry q (alone t tid) d))"

lemma register_ok: "register p r = Inr r' \<Longrightarrow> registry_ok r \<Longrightarrow> registry_ok r'"
  unfolding register_Inr using registry_ok_add by blast

lemma registry_ok_default: "registry_ok default_registry"
proof -
  have "registry_ok (seal r)" if "register_all ps r0 = Inr r" "registry_ok r0" for ps r0 r
    using that
    by (induction ps arbitrary: r0) (auto simp: registry_ok_seal split: sum.splits dest: register_ok)
  then show ?thesis
    using default_registry_built registry_ok_empty by (fastforce simp: build_default_registry_def split: sum.splits)
qed

lemma status_guarded_default: "status_guarded default_registry"
  unfolding status_guarded_def get_default
  by (simp add: built_in_policies_def built_in_names dispatch_fields_def)

lemma alone_between [simp]: "between (alone t tid) d = d"
  by (simp add: alone_def)

lemma transition_db:
  "fst (snd (transition reg c e d)) = d \<or> (\<exists>a. fst (snd (transition reg c e d)) = fst (snd (transition_in reg c a e d)))"
  by (auto simp: transition_def split: sum.splits)

lemma update_status_db:
  "fst (snd (run_update_status reg c e d)) = fst (snd (transition_in reg c update_status_args e d))"
  by (auto simp: run_update_status_def split: sum.splits prod.splits)

lemma legacy_transition_db:
  "fst (snd (legacy_transition reg q e d)) = d \<or>
   fst (snd (legacy_transition reg q e d)) = fst (snd (transition_in reg (legacy_command q) (legacy_args q) e d))"
  by (auto simp: legacy_transition_def run_legacy_transition_def split: option.splits sum.splits prod.splits)

interpretation lifecycle_calls: stepping lifecycle_step "history_ok default_registry"
proof unfold_locales
  fix d call assume ok: "history_ok default_registry d"
  have tx: "history_ok default_registry (fst (snd (transition_in default_registry c a (alone t tid) d)))" for c a t tid
    by (rule transition_in_history) (simp_all add: ok registry_ok_default status_guarded_default)
  show "history_ok default_registry (lifecycle_step d call)"
  proof (cases call)
    case (Transition c t tid)
    then show ?thesis using transition_db[of default_registry c "alone t tid" d] tx ok by (metis lifecycle_step.simps(1))
  next
    case (Update_status c t tid)
    then show ?thesis using tx by (simp add: update_status_db)
  next
    case (Legacy_transition q t tid)
    then show ?thesis
      using legacy_transition_db[of default_registry q "alone t tid" d] tx ok by (metis lifecycle_step.simps(3))
  qed
qed

text \<open>
  C15. The status history stays consistent: from a database without history, after any sequence of
  calls to \<open>transition\<close>, \<open>update_status\<close> and the guarded \<open>transition\<close> of \<open>state/transitions.py\<close>,
  the history rows of every entity form a chain, each starting from the status the one before it
  reached, and the entity's row has the status the chain ends with.
\<close>

theorem history_consistent:
  assumes "history d = []" "get_policy et default_registry = Inr p"
  shows "let d' = foldl lifecycle_step d calls; hs = history_of d' et eid in
     chained hs \<and>
     (hs \<noteq> [] \<longrightarrow> (\<exists>r. rows d' (table p) eid = Some r \<and> r ''status'' = CText (row_status (last hs))))"
proof -
  have "history_ok default_registry d" using assms(1) by (simp add: history_ok_def agrees_def history_of_def)
  then have "history_ok default_registry (foldl lifecycle_step d calls)" by (rule lifecycle_calls.run_inv)
  then have "agrees (foldl lifecycle_step d calls) p eid" using assms(2) unfolding history_ok_def by blast
  moreover have "entity_type p = et" using assms(2) by (simp add: get_default)
  ultimately show ?thesis unfolding agrees_def Let_def by simp
qed

section \<open>What the public transition lets through\<close>

lemma transition_runs:
  assumes "transition reg c e d = (Inr out, d', evs)"
  obtains p where "transition_in reg c (public_args p) e d = (Inr out, d', evs)"
  using assms by (auto simp: transition_def split: if_splits sum.splits)

lemma judge_allowed:
  assumes "judge p True ru g c prev = Allowed logged"
  shows "(\<exists>e. e \<in> set (declared_edges p prev) \<and> to_status e = cmd_status c \<and> edge_permits e g c) \<and> \<not> logged \<or>
     prev = Some (cmd_status c) \<and> same_status p = Append \<and> \<not> logged \<or>
     prev \<noteq> Some (cmd_status c) \<and> cmd_override c \<noteq> None \<and> logged"
  using assms
  by (auto simp: judge_def find_Some_iff split: option.splits if_splits same_status_rule.splits)

text \<open>
  C16. A transition that \<open>LifecycleService.transition\<close> reports applied, with an id, was allowed: the
  status it left was an expected one and either a declared edge to the new status whose requirements
  the command meets leaves it, or the status repeats, or the command carries an override, which is
  then logged.  The row that was written had, when it was written, the status and version the command
  was judged by; it has the new status afterwards, and exactly one history row was appended.
\<close>

theorem applied_was_allowed:
  assumes "transition default_registry c e d = (Inr out, d', evs)"
    "result out = Applied" "transition_id out \<noteq> None"
  shows "\<exists>p r r'. get_policy (cmd_type c) default_registry = Inr p \<and>
     rows d (table p) (cmd_id c) = Some r \<and> rows (between e d) (table p) (cmd_id c) = Some r' \<and>
     status_text (r' ''status'') = previous_status out \<and>
     (\<forall>v. expected_version c = Some v \<longrightarrow> r' ''updated_at'' = CNum v) \<and>
     (\<forall>S. expected_statuses c = Some S \<longrightarrow> previous_status out \<in> S) \<and>
     ((\<exists>edge. edge \<in> set (declared_edges p (previous_status out)) \<and> to_status edge = cmd_status c
               \<and> edge_permits edge {} c) \<or>
      previous_status out = Some (cmd_status c) \<or>
      (\<exists>ov. cmd_override c = Some ov \<and>
         admin_events d' = admin_events (between e d) @ [override_event c ov (previous_status out) (now e)])) \<and>
     (\<exists>r2. rows d' (table p) (cmd_id c) = Some r2 \<and> r2 ''status'' = CText (cmd_status c)) \<and>
     history d' = history (between e d) @ [history_row c (previous_status out) (fresh_id e) (now e)]"
proof -
  obtain p0 where run: "transition_in default_registry c (public_args p0) e d = (Inr out, d', evs)"
    using assms(1) by (rule transition_runs)
  let ?a = "public_args p0"
  have applied: "is_applied (Inr out)" using assms(2) by (simp add: is_applied_def)
  obtain q r logged where q: "get_policy (cmd_type c) default_registry = Inr q"
    and valid: "\<not> command_invalid q c" and r: "rows d (table q) (cmd_id c) = Some r"
    and expected: "\<not> not_expected c (status_text (r ''status''))"
    and verdict: "judge q (enforce_edges ?a) (reject_undeclared ?a) (set (dkeys (extra_guard ?a))) c
        (status_text (r ''status'')) = Allowed logged"
    and commit: "commit q c ?a e r logged (between e d) = (Inr out, d', evs)"
    using run applied assms(3) by (rule transition_in_allowed)
  have col: "''status'' \<notin> patch_columns c"
    using valid q status_guarded_default unfolding command_invalid_def status_guarded_def by blast
  show ?thesis
  proof (rule commit_applied[OF commit applied])
    fix patch' r'
    let ?c = "c\<lparr>patch := patch'\<rparr>" and ?prev = "status_text (r ''status'')"
    assume patch': "final_patch q c r (now e) = Inr patch'"
      and r': "rows (between e d) (table q) (cmd_id c) = Some r'" "row_selected ?c (extra_guard ?a) ?prev r'"
      and out: "Inr out = Inr \<lparr>result = Applied, previous_status = ?prev,
                current_status = Some (cmd_status c), transition_id = Some (fresh_id e)\<rparr>"
      and d': "d' = (log_override c logged ?prev (now e) (between e d))
            \<lparr>rows := (rows (between e d))(table q := (rows (between e d) (table q))(cmd_id c \<mapsto>
                        updated_row (write_reason ?a) ?c (now e) r')),
             history := history (between e d) @ [history_row c ?prev (fresh_id e) (now e)]\<rparr>"
    have prev: "previous_status out = ?prev" using out by simp
    have "status_text (r' ''status'') = ?prev"
      using r'(2) by (auto simp: row_selected_def sql_eq_def status_cell_def status_text_def split: option.splits)
    moreover have "r' ''updated_at'' = CNum v" if "expected_version c = Some v" for v
      using r'(2) that by (auto simp: row_selected_def sql_eq_def)
    moreover have "?prev \<in> S" if "expected_statuses c = Some S" for S
      using expected that by (simp add: not_expected_def)
    moreover have "(\<exists>edge. edge \<in> set (declared_edges q ?prev) \<and> to_status edge = cmd_status c
               \<and> edge_permits edge {} c) \<or> ?prev = Some (cmd_status c) \<or>
      (\<exists>ov. cmd_override c = Some ov \<and>
         admin_events d' = admin_events (between e d) @ [override_event c ov ?prev (now e)])"
      using judge_allowed[of q True "set (dkeys (extra_guard ?a))" c ?prev logged] verdict
      by (auto simp: public_args_def d' log_override_def)
    moreover have "rows d' (table q) (cmd_id c) = Some (updated_row (write_reason ?a) ?c (now e) r')"
      by (simp add: d')
    moreover have "updated_row (write_reason ?a) ?c (now e) r' ''status'' = CText (cmd_status c)"
      using updated_status[OF final_patch_status[OF patch' col]] by simp
    moreover have "history d' = history (between e d) @ [history_row c ?prev (fresh_id e) (now e)]"
      by (simp add: d')
    ultimately show ?thesis using q r r'(1) unfolding prev by blast
  qed
qed

section \<open>Races\<close>




lemma transition_in_read:
  assumes "transition_in reg c a e d = (Inr out, d', evs)" "get_policy (cmd_type c) reg = Inr p"
    "rows d (table p) (cmd_id c) = Some r" "transition_id out \<noteq> None"
  obtains logged where
    "judge p (enforce_edges a) (reject_undeclared a) (set (dkeys (extra_guard a))) c (status_text (r ''status''))
       = Allowed logged"
    "commit p c a e r logged (between e d) = (Inr out, d', evs)"
proof (rule transition_in_allowed[OF assms(1) not_applied_unwritten[OF assms(1,4)] assms(4)])
  fix q r' logged
  assume "get_policy (cmd_type c) reg = Inr q" "rows d (table q) (cmd_id c) = Some r'"
    and "judge q (enforce_edges a) (reject_undeclared a) (set (dkeys (extra_guard a))) c (status_text (r' ''status''))
       = Allowed logged"
    and "commit q c a e r' logged (between e d) = (Inr out, d', evs)"
  moreover have "q = p" using calculation(1) assms(2) by simp
  moreover have "r' = r" using calculation(2) assms(3) \<open>q = p\<close> by simp
  ultimately show thesis using that by blast
qed

lemma commit_selected:
  assumes "commit p c a e r logged d1 = (Inr out, d', evs)" "is_applied (Inr out)"
    "rows d1 (table p) (cmd_id c) = Some r'"
  shows "status_text (r' ''status'') = status_text (r ''status'')"
    and "expected_version c \<noteq> None \<Longrightarrow> r' ''updated_at'' = r ''updated_at''"
    and "(k, v) \<in> set (extra_guard a) \<Longrightarrow> r' k = v \<and> r k = v \<and> v \<noteq> CNull"
proof -
  obtain patch' where fresh: "\<not> version_stale c r" "list_all (\<lambda>(k, v). r k = v) (extra_guard a)"
    and sel: "row_selected (c\<lparr>patch := patch'\<rparr>) (extra_guard a) (status_text (r ''status'')) r'"
    using commit_applied[OF assms(1,2)] assms(3) by (metis option.inject)
  show "status_text (r' ''status'') = status_text (r ''status'')"
    using sel by (auto simp: row_selected_def sql_eq_def status_cell_def status_text_def split: option.splits)
  show "expected_version c \<noteq> None \<Longrightarrow> r' ''updated_at'' = r ''updated_at''"
    using sel fresh(1) by (auto simp: row_selected_def sql_eq_def version_stale_def)
  show "(k, v) \<in> set (extra_guard a) \<Longrightarrow> r' k = v \<and> r k = v \<and> v \<noteq> CNull"
    using sel fresh(2) by (auto simp: row_selected_def sql_eq_def list_all_iff)
qed












lemma null_guard_never_applies:
  assumes "transition_in reg c a e d = (Inr out, d', evs)" "(k, CNull) \<in> set (extra_guard a)"
  shows "transition_id out = None"
proof (rule ccontr)
  assume some: "transition_id out \<noteq> None"
  obtain p r logged where commit: "commit p c a e r logged (between e d) = (Inr out, d', evs)"
    using transition_in_allowed[OF assms(1) not_applied_unwritten[OF assms(1) some] some] by metis
  note applied = not_applied_unwritten[OF assms(1) some]
  obtain r' where "rows (between e d) (table p) (cmd_id c) = Some r'"
    using commit_applied[OF commit applied] by metis
  then show False using commit_selected(3)[OF commit applied _ assms(2)] by simp
qed

text \<open>An override is logged before the guarded write, and the log entry stays when the write loses.\<close>

lemma override_logged_without_transition:
  assumes "cmd_override c = Some ov" "\<not> version_stale c r" "extra_guard a = []" "\<not> raise_on_unguarded a"
    "final_patch p c r (now e) = Inr patch'" "rows d1 (table p) (cmd_id c) = Some r'"
    "status_text (r' ''status'') \<noteq> status_text (r ''status'')"
  shows "commit p c a e r True d1 =
     (Inr (conflict (status_text (r ''status''))),
      log_event (override_event c ov (status_text (r ''status'')) (now e)) d1, [])"
proof -
  have "\<not> row_selected (c\<lparr>patch := patch'\<rparr>) (extra_guard a) (status_text (r ''status'')) r'"
    using assms(7) by (auto simp: row_selected_def sql_eq_def status_cell_def status_text_def split: option.splits)
  then show ?thesis using assms(1-6) by (simp add: commit_def Let_def log_override_def guarded_write_def)
qed

section \<open>The terminal floor\<close>

lemma declared_exits: "e \<in> set (declared_edges p (Some s)) \<Longrightarrow> (s, e) \<in> exits p"
  by (cases "dget (edges p) s") (auto simp: declared_edges_def exits_def dest: map_of_SomeD)

definition operator_requeue :: "command \<Rightarrow> string \<Rightarrow> bool" where
  "operator_requeue c s \<longleftrightarrow>
     cmd_type c = ''dispatch'' \<and> s \<in> {''dead_letter'', ''expired''} \<and> cmd_status c = ''pending'' \<and>
     actor_type (cmd_actor c) = ''operator''"

definition requeue_of :: "command \<Rightarrow> string \<Rightarrow> bool" where
  "requeue_of c s \<longleftrightarrow> cmd_type c = ''dispatch'' \<and> s \<in> {''dead_letter'', ''expired''} \<and> cmd_status c = ''pending''"

lemma requeue_declared:
  assumes "get_policy (cmd_type c) default_registry = Inr p" "requeue_of c s"
  shows "\<exists>e \<in> set (declared_edges p (Some s)). to_status e = cmd_status c"
proof -
  have "get_policy ''dispatch'' default_registry = Inr dispatch_policy"
    unfolding get_default by (simp add: built_in_policies_def) (simp add: dispatch_policy_def)
  then have "p = dispatch_policy" using assms by (simp add: requeue_of_def)
  then show ?thesis
    using assms(2) by (auto simp: requeue_of_def declared_edges_def dispatch_policy_def dispatch_edges_def requeue_def)
qed

text \<open>What \<open>transition\<close> refuses before it reads the row.\<close>

definition malformed :: "lifecycle_policy \<Rightarrow> command \<Rightarrow> bool" where
  "malformed p c \<longleftrightarrow> reason_code (cmd_reason c) \<notin> valid_reason_codes
     \<or> code_prefix (reason_code (cmd_reason c)) \<notin> reason_prefixes p
     \<or> actor_id (cmd_actor c) \<in> {None, Some []} \<or> actor_type (cmd_actor c) \<notin> valid_actor_types
     \<or> command_invalid p c"

text \<open>
  C18. Terminal statuses hold.  \<open>LifecycleService.transition\<close> on an entity in a terminal status, to
  another status and without an override, writes no row and no history and emits no event.  A malformed
  command raises before anything is read; otherwise the call is a conflict if the command does not
  expect the status, and is rejected with a log entry if it does.  Only for the requeue of a
  dead-lettered or expired dispatch it is different: the operator may do it (it is the one way out of a
  terminal status), and for any other actor it raises, with nothing written or logged.
\<close>

theorem terminal_statuses_hold:
  assumes "transition default_registry c e d = (res, d', evs)"
    "get_policy (cmd_type c) default_registry = Inr p" "rows d (table p) (cmd_id c) = Some r"
    "r ''status'' = CText s" "s \<in> terminal_statuses p" "s \<noteq> cmd_status c" "cmd_override c = None"
    "\<not> operator_requeue c s"
  shows "evs = [] \<and>
     (case res of
        Inl err \<Rightarrow> err = LifecycleValidationError \<and>
          (if malformed p c then d' = d else requeue_of c s \<and> \<not> not_expected c (Some s) \<and> d' = between e d)
      | Inr out \<Rightarrow> rows d' = rows (between e d) \<and> history d' = history (between e d) \<and> \<not> malformed p c \<and>
          (if not_expected c (Some s) then result out = Conflict
           else result out = Rejected \<and> \<not> requeue_of c s \<and>
             admin_events d' = admin_events (between e d) @ [rejected_event c (Some s) (now e)]))"
proof (cases "malformed p c")
  case True
  then have "res = Inl LifecycleValidationError \<and> d' = d \<and> evs = []"
    using assms(1,2) by (auto simp: transition_def transition_in_def malformed_def split: if_splits)
  then show ?thesis using True by simp
next
  case False
  then have run: "transition_in default_registry c (public_args p) e d = (res, d', evs)"
    using assms(1,2) by (auto simp: transition_def malformed_def split: if_splits)
  have prev: "status_text (r ''status'') = Some s" using assms(4) by (simp add: status_text_def)
  have judged: "judge p True True {} c (Some s) = (if requeue_of c s then Invalid else Refused)"
  proof (cases "find (\<lambda>e. to_status e = cmd_status c) (declared_edges p (Some s))")
    case None
    then have "\<not> requeue_of c s" using requeue_declared[OF assms(2)] by (auto simp: find_None_iff)
    then show ?thesis using None assms(6,7) by (simp add: judge_def)
  next
    case (Some edge)
    then have "edge \<in> set (declared_edges p (Some s))" "to_status edge = cmd_status c"
      by (auto simp: find_Some_iff)
    then have e: "cmd_type c = ''dispatch''" "s \<in> {''dead_letter'', ''expired''}" "edge = requeue"
      using terminal_exit[OF assms(2) declared_exits assms(5)] by simp_all
    then have p: "cmd_status c = ''pending''" "actor_types edge = Some {''operator''}"
      using \<open>to_status edge = cmd_status c\<close> by (simp_all add: requeue_def)
    then have "actor_type (cmd_actor c) \<noteq> ''operator''" using assms(8) e unfolding operator_requeue_def by blast
    then have "\<not> edge_permits edge {} c" using p unfolding edge_permits_def by simp
    moreover have "requeue_of c s" using e p by (simp add: requeue_of_def)
    ultimately show ?thesis using Some by (simp add: judge_def)
  qed
  have valid: "\<not> command_invalid p c" using False by (simp add: malformed_def)
  note run = run[unfolded transition_in_def assms(2) sum.case if_not_P[OF valid] assms(3) option.case Let_def prev,
      folded not_expected_def, unfolded public_args_def, simplified]
  show ?thesis using run judged False by (auto simp: conflict_def split: if_splits)
qed

section \<open>The end of a session\<close>

lemma set_columns_append: "set_columns (d @ d') r = set_columns d' (set_columns d r)"
  by (simp add: set_columns_def)

lemma set_columns_get:
  "distinct (dkeys d) \<Longrightarrow> dget d k = Some v \<Longrightarrow> set_columns d r k = v"
proof (induction d arbitrary: r)
  case (Cons kv d)
  obtain k' w where kv: "kv = (k', w)" by force
  have step: "set_columns (kv # d) r = set_columns d (r(k' := w))" by (simp add: set_columns_def kv)
  show ?case
  proof (cases "k' = k")
    case True
    then have "k \<notin> set (dkeys d)" "v = w" using Cons.prems by (auto simp: kv)
    then show ?thesis using set_columns_other True unfolding step by simp
  next
    case False
    then show ?thesis using Cons unfolding step by (simp add: kv)
  qed
qed simp

lemma updated_patched:
  assumes "distinct (dkeys (patch c))" "dget (patch c) k = Some v"
  shows "updated_row wr c t r k = v"
proof -
  let ?pre = "(''status'', CText (cmd_status c)) # (if wr then reason_cells (cmd_reason c) else []) @ [(''updated_at'', CNum t)]"
  have "updated_row wr c t r = set_columns (?pre @ patch c) r" unfolding updated_row_def by simp
  then show ?thesis unfolding set_columns_append using set_columns_get[OF assms] by simp
qed

lemma setdefault_get: "dget (setdefault k v d) k' = (if k' = k \<and> dget d k = None then Some v else dget d k')"
  by (auto simp: setdefault_def dget_None_iff)

lemma setdefault_distinct: "distinct (dkeys d) \<Longrightarrow> distinct (dkeys (setdefault k v d))"
  by (simp add: setdefault_def)

text \<open>The columns that make up the end of a session, after the patch is settled.\<close>

lemma end_patch_ended: "dget (end_patch r t d) ''ended_at'' = Some (if measured_here r d then CNum t else ended_cell r d)"
  by (simp add: end_patch_def setdefault_get ended_cell_def split: option.split)

lemma end_patch_flag: "dget (end_patch r t d) ''ended_at_is_approximate'' =
   Some (if measured_here r d then CNum 0
         else case dget d ''ended_at_is_approximate'' of None \<Rightarrow> CNum 0 | Some v \<Rightarrow> v)"
  by (simp add: end_patch_def setdefault_get split: option.split)

lemma end_patch_duration: "dget (end_patch r t d) ''duration_ms'' = dget d ''duration_ms''"
  by (simp add: end_patch_def setdefault_get)

lemma end_patch_distinct: "distinct (dkeys d) \<Longrightarrow> distinct (dkeys (end_patch r t d))"
  by (simp add: end_patch_def setdefault_distinct)

lemma settled:
  assumes "settle_end r t d = Inr d'" "distinct (dkeys d)"
  shows "distinct (dkeys d')"
    and "dget d' ''ended_at'' = Some (if measured_here r d then CNum t else ended_cell r d)"
    and "dget d' ''ended_at_is_approximate'' =
      Some (if measured_here r d then CNum 0
            else case dget d ''ended_at_is_approximate'' of None \<Rightarrow> CNum 0 | Some v \<Rightarrow> v)"
    and "cell_true (the (dget d' ''ended_at_is_approximate'')) \<Longrightarrow> dget d' ''duration_ms'' = Some CNull"
    and "\<not> cell_true (the (dget d' ''ended_at_is_approximate'')) \<Longrightarrow>
      r ''started_at'' = CNum s \<Longrightarrow> \<not> dhas d ''duration_ms'' \<Longrightarrow>
      \<exists>x. dget d' ''ended_at'' = Some (CNum x) \<and> dget d' ''duration_ms'' = Some (CNum (max 0 ((x - s) * 1000)))"
    and "\<not> cell_true (the (dget d' ''ended_at_is_approximate'')) \<Longrightarrow> dget d ''duration_ms'' = Some v \<Longrightarrow>
      dget d' ''duration_ms'' = Some v"
proof -
  have dist: "distinct (dkeys (end_patch r t d))" using assms(2) by (rule end_patch_distinct)
  have dur: "dhas (end_patch r t d) ''duration_ms'' \<longleftrightarrow> dhas d ''duration_ms''"
    using end_patch_duration[of r t d] dget_None_iff by metis
  note facts = dist end_patch_ended end_patch_flag end_patch_duration
  show "distinct (dkeys d')"
    by (cases rule: settle_end_cases[OF assms(1)]) (use facts in simp_all)
  show ended: "dget d' ''ended_at'' = Some (if measured_here r d then CNum t else ended_cell r d)"
    by (cases rule: settle_end_cases[OF assms(1)]) (use facts in simp_all)
  show flag: "dget d' ''ended_at_is_approximate'' =
      Some (if measured_here r d then CNum 0
            else case dget d ''ended_at_is_approximate'' of None \<Rightarrow> CNum 0 | Some v \<Rightarrow> v)"
    by (cases rule: settle_end_cases[OF assms(1)]) (use facts in simp_all)
  have same: "dget d' ''ended_at_is_approximate'' = dget (end_patch r t d) ''ended_at_is_approximate''"
    using flag end_patch_flag by simp
  show "cell_true (the (dget d' ''ended_at_is_approximate'')) \<Longrightarrow> dget d' ''duration_ms'' = Some CNull"
    unfolding same by (cases rule: settle_end_cases[OF assms(1)]) simp_all
  show "\<exists>x. dget d' ''ended_at'' = Some (CNum x) \<and> dget d' ''duration_ms'' = Some (CNum (max 0 ((x - s) * 1000)))"
    if "\<not> cell_true (the (dget d' ''ended_at_is_approximate''))" "r ''started_at'' = CNum s" "\<not> dhas d ''duration_ms''"
    using that unfolding same ended dur[symmetric] by (cases rule: settle_end_cases[OF assms(1)]) simp_all
  show "dget d' ''duration_ms'' = Some v"
    if "\<not> cell_true (the (dget d' ''ended_at_is_approximate''))" "dget d ''duration_ms'' = Some v"
    using that dgetD[of d "''duration_ms''"] unfolding same dur[symmetric]
    by (cases rule: settle_end_cases[OF assms(1)]) (simp_all add: end_patch_duration)
qed

text \<open>
  C19. The end of a session is recorded once and truthfully.  When a session leaves its status for a
  terminal one, by any of the three surfaces, its row gets an end: the moment of the transition, marked
  exact, if no end was known or only a guessed one the caller does not replace, and the known end
  otherwise.  An end marked approximate leaves the duration NULL, whatever the caller sent; an exact
  one keeps the caller's duration and otherwise determines it from the start, never negative.
\<close>

theorem session_end_recorded:
  assumes "transition_in reg c a e d = (Inr out, d', evs)" "transition_id out \<noteq> None"
    "get_policy (cmd_type c) reg = Inr p" "rows d (table p) (cmd_id c) = Some r"
    "session_ends p c" "previous_status out \<noteq> Some (cmd_status c)" "distinct (dkeys (patch c))"
  shows "\<exists>r'. rows d' (table p) (cmd_id c) = Some r' \<and>
     r' ''ended_at'' \<noteq> CNull \<and>
     (if measured_here r (patch c)
      then r' ''ended_at'' = CNum (now e) \<and> \<not> cell_true (r' ''ended_at_is_approximate'')
      else r' ''ended_at'' = ended_cell r (patch c)) \<and>
     (if cell_true (r' ''ended_at_is_approximate'') then r' ''duration_ms'' = CNull
      else case dget (patch c) ''duration_ms'' of
             Some v \<Rightarrow> r' ''duration_ms'' = v
           | None \<Rightarrow>
               (\<forall>s. r ''started_at'' = CNum s \<longrightarrow>
                  (\<exists>x. r' ''ended_at'' = CNum x \<and> r' ''duration_ms'' = CNum (max 0 ((x - s) * 1000)))))"
proof -
  obtain logged where commit: "commit p c a e r logged (between e d) = (Inr out, d', evs)"
    using transition_in_read[OF assms(1,3,4,2)] by metis
  show ?thesis
  proof (rule commit_applied[OF commit not_applied_unwritten[OF assms(1,2)]])
    fix patch' r0
    let ?c = "c\<lparr>patch := patch'\<rparr>" and ?prev = "status_text (r ''status'')"
    assume patch': "final_patch p c r (now e) = Inr patch'"
      and out: "Inr out = Inr \<lparr>result = Applied, previous_status = ?prev,
                current_status = Some (cmd_status c), transition_id = Some (fresh_id e)\<rparr>"
      and d': "d' = (log_override c logged ?prev (now e) (between e d))
            \<lparr>rows := (rows (between e d))(table p := (rows (between e d) (table p))(cmd_id c \<mapsto>
                        updated_row (write_reason a) ?c (now e) r0)),
             history := history (between e d) @ [history_row c ?prev (fresh_id e) (now e)]\<rparr>"
    have "settle_end r (now e) (patch c) = Inr patch'"
      using patch' assms(5,6) out by (simp add: final_patch_def)
    note settled = settled[OF this assms(7)]
    define r' where "r' = updated_row (write_reason a) ?c (now e) r0"
    have row: "rows d' (table p) (cmd_id c) = Some r'" by (simp add: d' r'_def)
    have get: "dget patch' k = Some v \<Longrightarrow> r' k = v" for k v
      unfolding r'_def by (rule updated_patched) (simp_all add: settled(1))
    have ended: "r' ''ended_at'' = (if measured_here r (patch c) then CNum (now e) else ended_cell r (patch c))"
      using get[OF settled(2)] .
    have flag: "the (dget patch' ''ended_at_is_approximate'') = r' ''ended_at_is_approximate''"
      using get[OF settled(3)] settled(3) by simp
    have exact: "measured_here r (patch c) \<Longrightarrow> \<not> cell_true (r' ''ended_at_is_approximate'')"
      using get[OF settled(3)] by (simp add: cell_true_def)
    have known: "\<not> measured_here r (patch c) \<Longrightarrow> ended_cell r (patch c) \<noteq> CNull"
      by (simp add: measured_here_def)
    have duration: "if cell_true (r' ''ended_at_is_approximate'') then r' ''duration_ms'' = CNull
      else case dget (patch c) ''duration_ms'' of
             Some v \<Rightarrow> r' ''duration_ms'' = v
           | None \<Rightarrow>
               (\<forall>s. r ''started_at'' = CNum s \<longrightarrow>
                  (\<exists>x. r' ''ended_at'' = CNum x \<and> r' ''duration_ms'' = CNum (max 0 ((x - s) * 1000))))"
      using settled(4)[unfolded flag] settled(5)[unfolded flag] settled(6)[unfolded flag] get
      by (fastforce simp: dget_None_iff split: option.split)
    show ?thesis using row ended exact known duration by (intro exI[of _ r']) simp
  qed
qed

section \<open>An example\<close>

definition ex_row :: row where
  "ex_row = (\<lambda>col. if col = ''status'' then CText ''active'' else CNull)"

definition ex_db :: db where
  "ex_db = \<lparr>rows = (\<lambda>tb i. if tb = ''teams'' \<and> i = ''t'' then Some ex_row else None),
            history = [], admin_events = []\<rparr>"

definition ex_move :: "string \<Rightarrow> command" where
  "ex_move s =
     \<lparr>cmd_type = ''team'', cmd_id = ''t'', cmd_status = s,
      cmd_reason = \<lparr>reason_code = ''team.archived.operator'', reason_summary = [], evidence_refs = [],
                     reason_metadata = []\<rparr>,
      cmd_actor = \<lparr>actor_type = ''operator'', actor_id = Some ''o''\<rparr>,
      expected_statuses = None, expected_version = None, patch = [], cmd_override = None\<rparr>"

definition ex_archive :: command where "ex_archive = ex_move ''archived''"

definition ex_back :: command where "ex_back = ex_move ''active''"

lemma ex_db_rows [simp]: "rows ex_db ''teams'' ''t'' = Some ex_row" "history ex_db = []" "admin_events ex_db = []"
  by (simp_all add: ex_db_def)

lemma ex_row_status [simp]: "ex_row ''status'' = CText ''active''"
  by (simp add: ex_row_def)

lemma ex_move_fields [simp]:
  "cmd_type (ex_move s) = ''team''" "cmd_id (ex_move s) = ''t''" "cmd_status (ex_move s) = s"
  "expected_statuses (ex_move s) = None" "expected_version (ex_move s) = None" "patch (ex_move s) = []"
  "cmd_override (ex_move s) = None"
  "reason_code (cmd_reason (ex_move s)) = ''team.archived.operator''"
  "actor_type (cmd_actor (ex_move s)) = ''operator''" "actor_id (cmd_actor (ex_move s)) = Some ''o''"
  by (simp_all add: ex_move_def)

lemma ex_team: "get_policy ''team'' default_registry = Inr team_policy"
  unfolding get_default by (simp add: built_in_policies_def) (simp add: team_policy_def)

lemma ex_team_policy [simp]:
  "table team_policy = ''teams''" "statuses team_policy = {''active'', ''archived''}"
  "terminal_statuses team_policy = {''archived''}" "same_status team_policy = Append"
  "patch_fields team_policy = {}" "reason_prefixes team_policy = {''team''}"
  "declared_edges team_policy (Some ''active'') = [edge_to ''archived'']"
  "declared_edges team_policy (Some ''archived'') = []"
  by (simp_all add: team_policy_def declared_edges_def to_all_def)

lemma ex_reason: "''team.archived.operator'' \<in> valid_reason_codes" "code_prefix ''team.archived.operator'' = ''team''"
  by code_simp+

lemma ex_runs: "s = ''archived'' \<or> s = ''active'' \<Longrightarrow>
   transition default_registry (ex_move s) e d = transition_in default_registry (ex_move s) (public_args team_policy) e d"
  by (simp add: transition_def ex_team ex_reason valid_actor_types_def)

lemma ex_valid: "s = ''archived'' \<or> s = ''active'' \<Longrightarrow> \<not> command_invalid team_policy (ex_move s)"
  by (auto simp: command_invalid_def patch_columns_def)

lemma ex_judge: "judge team_policy True True {} ex_archive (Some ''active'') = Allowed False"
  "judge team_policy True True {} ex_back (Some ''archived'') = Refused"
  by (simp_all add: judge_def ex_archive_def ex_back_def edge_permits_def edge_to_def)

definition ex_archived :: "rat \<Rightarrow> string \<Rightarrow> db" where
  "ex_archived t tid = fst (snd (transition default_registry ex_archive (alone t tid) ex_db))"

lemma ex_archive_run:
  "transition default_registry ex_archive (alone t tid) ex_db =
     (Inr \<lparr>result = Applied, previous_status = Some ''active'', current_status = Some ''archived'',
           transition_id = Some tid\<rparr>,
      ex_db\<lparr>rows := (rows ex_db)(''teams'' := (rows ex_db ''teams'')(''t'' \<mapsto>
               updated_row (reason_columns team_policy) ex_archive t ex_row)),
            history := [history_row ex_archive (Some ''active'') tid t]\<rparr>, [])"
proof -
  have sel: "row_selected ex_archive [] (Some ''active'') ex_row"
    by (simp add: row_selected_def ex_archive_def sql_eq_def status_cell_def)
  have "guarded_write ''teams'' ex_archive [] (reason_columns team_policy) (Some ''active'') t tid ex_db =
      (Some tid, ex_db\<lparr>rows := (rows ex_db)(''teams'' := (rows ex_db ''teams'')(''t'' \<mapsto>
               updated_row (reason_columns team_policy) ex_archive t ex_row)),
            history := [history_row ex_archive (Some ''active'') tid t]\<rparr>)"
    using sel by (simp add: guarded_write_def ex_archive_def)
  moreover have "final_patch team_policy ex_archive ex_row t = Inr []" "ex_archive\<lparr>patch := []\<rparr> = ex_archive"
    by (simp_all add: final_patch_def session_ends_def ex_archive_def)
  moreover have "final_event team_policy ex_archive (Some ''active'') tid t = []"
    by (simp add: final_event_def execution_entity_kinds_def ex_archive_def)
  moreover have "log_override ex_archive False (Some ''active'') t ex_db = ex_db" "\<not> version_stale ex_archive ex_row"
    by (simp_all add: log_override_def version_stale_def ex_archive_def)
  ultimately have "commit team_policy ex_archive (public_args team_policy) (alone t tid) ex_row False ex_db =
     (Inr \<lparr>result = Applied, previous_status = Some ''active'', current_status = Some ''archived'',
           transition_id = Some tid\<rparr>,
      ex_db\<lparr>rows := (rows ex_db)(''teams'' := (rows ex_db ''teams'')(''t'' \<mapsto>
               updated_row (reason_columns team_policy) ex_archive t ex_row)),
            history := [history_row ex_archive (Some ''active'') tid t]\<rparr>, [])"
    by (simp add: commit_def Let_def status_text_def public_args_def alone_def) (simp add: ex_archive_def)
  moreover have "\<not> command_invalid team_policy ex_archive" by (simp add: ex_archive_def ex_valid)
  moreover have "cmd_type ex_archive = ''team''" "cmd_id ex_archive = ''t''" "expected_statuses ex_archive = None"
    by (simp_all add: ex_archive_def)
  ultimately have "transition_in default_registry ex_archive (public_args team_policy) (alone t tid) ex_db =
     (Inr \<lparr>result = Applied, previous_status = Some ''active'', current_status = Some ''archived'',
           transition_id = Some tid\<rparr>,
      ex_db\<lparr>rows := (rows ex_db)(''teams'' := (rows ex_db ''teams'')(''t'' \<mapsto>
               updated_row (reason_columns team_policy) ex_archive t ex_row)),
            history := [history_row ex_archive (Some ''active'') tid t]\<rparr>, [])"
    using ex_judge(1) by (simp add: transition_in_def ex_team status_text_def Let_def public_args_def)
  then show ?thesis using ex_runs[of "''archived''"] by (simp add: ex_archive_def)
qed


lemma ex_archived_facts:
  "rows (ex_archived t tid) ''teams'' ''t'' = Some (updated_row (reason_columns team_policy) ex_archive t ex_row)"
  "status_text (updated_row (reason_columns team_policy) ex_archive t ex_row ''status'') = Some ''archived''"
  "history (ex_archived t tid) = [history_row ex_archive (Some ''active'') tid t]"
  "history_of (ex_archived t tid) ''team'' ''t'' = [history_row ex_archive (Some ''active'') tid t]"
proof -
  show "rows (ex_archived t tid) ''teams'' ''t'' = Some (updated_row (reason_columns team_policy) ex_archive t ex_row)"
    and h: "history (ex_archived t tid) = [history_row ex_archive (Some ''active'') tid t]"
    by (simp_all add: ex_archived_def ex_archive_run)
  show "history_of (ex_archived t tid) ''team'' ''t'' = [history_row ex_archive (Some ''active'') tid t]"
    by (simp add: history_of_def h) (simp add: history_row_def ex_archive_def)
  show "status_text (updated_row (reason_columns team_policy) ex_archive t ex_row ''status'') = Some ''archived''"
    by (subst updated_status) (simp_all add: patch_columns_def status_text_def ex_archive_def)
qed

theorem history_consistent_witness:
  "\<exists>r. rows (foldl lifecycle_step ex_db [Transition ex_archive 1 ''x'']) ''teams'' ''t'' = Some r \<and>
     r ''status'' = CText ''archived''"
proof -
  have db: "foldl lifecycle_step ex_db [Transition ex_archive 1 ''x''] = ex_archived 1 ''x''"
    by (simp add: ex_archived_def)
  have h: "history_of (ex_archived 1 ''x'') ''team'' ''t'' \<noteq> []"
    "row_status (last (history_of (ex_archived 1 ''x'') ''team'' ''t'')) = ''archived''"
    by (simp_all add: ex_archived_facts) (simp add: history_row_def ex_archive_def)
  show ?thesis
    using history_consistent[OF ex_db_rows(2) ex_team, of "[Transition ex_archive 1 ''x'']" "''t''"] h
    unfolding db Let_def by simp
qed

theorem applied_was_allowed_witness:
  "\<exists>p r. get_policy ''team'' default_registry = Inr p \<and> rows ex_db (table p) ''t'' = Some r \<and>
     history (ex_archived 1 ''x'') = [history_row ex_archive (Some ''active'') ''x'' 1]"
  using applied_was_allowed[OF ex_archive_run[of 1 "''x''"]]
  by (simp add: alone_def ex_archived_facts) (auto simp: ex_archive_def)





lemma ex_back_run:
  "transition default_registry ex_back (alone 2 ''y'') (ex_archived 1 ''x'') =
     (Inr \<lparr>result = Rejected, previous_status = Some ''archived'', current_status = Some ''archived'',
           transition_id = None\<rparr>,
      log_event (rejected_event ex_back (Some ''archived'') 2) (ex_archived 1 ''x''), [])"
proof -
  have c: "cmd_type ex_back = ''team''" "cmd_id ex_back = ''t''" "expected_statuses ex_back = None"
    by (simp_all add: ex_back_def)
  have "\<not> command_invalid team_policy ex_back" by (simp add: ex_back_def ex_valid)
  then have "transition_in default_registry ex_back (public_args team_policy) (alone 2 ''y'') (ex_archived 1 ''x'') =
     (Inr \<lparr>result = Rejected, previous_status = Some ''archived'', current_status = Some ''archived'',
           transition_id = None\<rparr>,
      log_event (rejected_event ex_back (Some ''archived'') 2) (ex_archived 1 ''x''), [])"
    using ex_judge(2) c ex_archived_facts(1,2)
    by (simp add: transition_in_def ex_team Let_def public_args_def) (simp add: alone_def)
  then show ?thesis using ex_runs[of "''active''"] by (simp add: ex_back_def)
qed

theorem terminal_statuses_hold_witness:
  "rows (fst (snd (transition default_registry ex_back (alone 2 ''y'') (ex_archived 1 ''x'')))) =
     rows (ex_archived 1 ''x'')"
proof -
  have c: "cmd_type ex_back = ''team''" "cmd_id ex_back = ''t''" "cmd_status ex_back = ''active''"
    "cmd_override ex_back = None" by (simp_all add: ex_back_def)
  have st: "updated_row (reason_columns team_policy) ex_archive 1 ex_row ''status'' = CText ''archived''"
    using ex_archived_facts(2)[of 1] by (auto simp: status_text_def split: cell.splits)
  have "\<not> operator_requeue ex_back ''archived''" by (simp add: operator_requeue_def c(1))
  then show ?thesis
    using terminal_statuses_hold[OF ex_back_run, of team_policy
        "updated_row (reason_columns team_policy) ex_archive 1 ex_row" "''archived''"] c st
    by (simp add: ex_team ex_archived_facts(1) ex_back_run)
qed

definition ex_running :: row where
  "ex_running = (\<lambda>col. if col = ''status'' then CText ''running'' else if col = ''started_at'' then CNum 1 else CNull)"

definition ex_sessions :: db where
  "ex_sessions = \<lparr>rows = (\<lambda>tb i. if tb = ''sessions'' \<and> i = ''s'' then Some ex_running else None),
                  history = [], admin_events = []\<rparr>"

definition ex_complete :: command where
  "ex_complete = (ex_move ''completed'')\<lparr>cmd_type := ''session'', cmd_id := ''s''\<rparr>"

lemma ex_session: "get_policy ''session'' default_registry = Inr session_policy"
  unfolding get_default by (simp add: built_in_policies_def) (simp add: session_policy_def)

lemma ex_complete_run:
  "\<exists>out d' evs. transition_in default_registry ex_complete update_status_args (alone 3 ''z'') ex_sessions = (Inr out, d', evs) \<and>
     transition_id out \<noteq> None \<and> previous_status out = Some ''running''"
proof -
  have c: "cmd_type ex_complete = ''session''" "cmd_id ex_complete = ''s''" "expected_statuses ex_complete = None"
    "expected_version ex_complete = None" "cmd_status ex_complete = ''completed''" "patch ex_complete = []"
    "cmd_override ex_complete = None"
    by (simp_all add: ex_complete_def)
  have p: "table session_policy = ''sessions''" "''completed'' \<in> statuses session_policy"
    "''completed'' \<in> terminal_statuses session_policy" "''running'' \<notin> terminal_statuses session_policy"
    by (simp_all add: session_policy_def session_statuses_def session_terminal_def)
  have "settle_end ex_running 3 [] =
      Inr [(''ended_at'', CNum 3), (''ended_at_is_approximate'', CNum 0), (''duration_ms'', CNum 2000)]"
    by (simp add: settle_end_def end_patch_def measured_here_def ended_cell_def ex_running_def cell_true_def)
  then obtain patch' where "final_patch session_policy ex_complete ex_running 3 = Inr patch'"
    using c p by (simp add: final_patch_def session_ends_def status_text_def ex_running_def)
  moreover have "row_selected (ex_complete\<lparr>patch := patch'\<rparr>) [] (Some ''running'') ex_running" for patch'
    by (simp add: row_selected_def c sql_eq_def status_cell_def ex_running_def)
  moreover have "ex_running ''status'' = CText ''running''" "\<not> version_stale ex_complete ex_running"
    by (simp_all add: ex_running_def version_stale_def c)
  moreover have "judge session_policy False False {} ex_complete (Some ''running'') = Allowed False"
    using c p by (simp add: judge_def)
  moreover have "\<not> command_invalid session_policy ex_complete"
    using c p by (simp add: command_invalid_def patch_columns_def ex_complete_def)
  ultimately show ?thesis
    using c p
    by (simp add: transition_in_def ex_session commit_def Let_def update_status_args_def alone_def status_text_def
        guarded_write_def log_override_def ex_sessions_def)
qed

theorem session_end_recorded_witness:
  "\<exists>d' r'. fst (snd (transition_in default_registry ex_complete update_status_args (alone 3 ''z'') ex_sessions)) = d' \<and>
     rows d' ''sessions'' ''s'' = Some r' \<and> r' ''ended_at'' = CNum 3 \<and> r' ''duration_ms'' = CNum 2000"
proof -
  obtain out d' evs where run:
    "transition_in default_registry ex_complete update_status_args (alone 3 ''z'') ex_sessions = (Inr out, d', evs)"
    "transition_id out \<noteq> None" "previous_status out = Some ''running''"
    using ex_complete_run by blast
  have c: "cmd_type ex_complete = ''session''" "cmd_id ex_complete = ''s''" "cmd_status ex_complete = ''completed''"
    "patch ex_complete = []" by (simp_all add: ex_complete_def)
  have m: "measured_here ex_running []" "ex_running ''started_at'' = CNum 1"
    by (simp_all add: measured_here_def ended_cell_def ex_running_def)
  have row: "rows ex_sessions (table session_policy) (cmd_id ex_complete) = Some ex_running"
    by (simp add: ex_sessions_def session_policy_def c)
  have ends: "session_ends session_policy ex_complete"
    by (simp add: session_ends_def c session_policy_def session_terminal_def)
  show ?thesis
    using session_end_recorded[OF run(1,2) _ row ends] run c m
    by (simp add: ex_session session_policy_def alone_def) fastforce
qed

end
