(* ===== verification/Dispatch.thy ===== *)
theory Dispatch
  imports Lifecycle
begin

text \<open>
  The durable dispatch outbox: \<open>lionagi/dispatch/outbox.py\<close> and \<open>lionagi/dispatch/revival.py\<close>.

  The outbox is the table \<open>dispatch_outbox\<close> of the database of \<open>Lifecycle\<close>; every status change goes
  through its \<open>legacy_transition\<close>.  \<open>listing d\<close> is the order in which the database returns the
  identifiers of the table, which SQL leaves open.  The transport is the process that the
  configured argv starts; the operations return the processes they started.  A \<open>world\<close> says what
  other connections commit between the transactions of one delivery.
\<close>

section \<open>Destinations and transport\<close>

definition payload_token :: string where "payload_token = ''{payload}''"

definition deliver_to_token :: string where "deliver_to_token = ''{deliver_to}''"

text \<open>The checks return the text of the \<open>ValueError\<close> they raise.\<close>

definition validate_destination :: "string \<Rightarrow> string option" where
  "validate_destination dest =
     (if strip dest = [] then Some ''deliver_to must be a non-empty string''
      else if CHR 0x00 \<in> set dest then Some ''deliver_to must not contain a NUL byte''
      else None)"

definition validate_notify_template :: "string list \<Rightarrow> string option" where
  "validate_notify_template ts =
     (if ts = [] then Some ''dispatch.notify_template must be a non-empty list of strings''
      else if strip (hd ts) = [] \<or> list_ex (\<lambda>part. CHR 0x00 \<in> set part) ts
      then Some ''dispatch.notify_template contains an invalid argv value''
      else if deliver_to_token \<notin> set ts
      then Some ''dispatch.notify_template must include an exact {deliver_to} argv token''
      else None)"

definition render_notify_argv :: "string list \<Rightarrow> string \<Rightarrow> string \<Rightarrow> string list" where
  "render_notify_argv ts payload dest =
     map (\<lambda>part. if part = payload_token then payload
                 else if part = deliver_to_token then dest else part) ts"

text \<open>What running the argv comes to: an exit code with the decoded stderr, or no exit code.\<close>

datatype exec_result = Exited int string | Timed_out | Exec_failed string

record transport =
  template :: "string list option"
  run_argv :: "string list \<Rightarrow> string \<Rightarrow> exec_result"
  quoted :: "string \<Rightarrow> string"

text \<open>Success or the error text, and the processes started with their stdin.\<close>

type_synonym started = "(string list \<times> string) list"

definition exec_outcome :: "transport \<Rightarrow> string list \<Rightarrow> string \<Rightarrow> bool \<times> string" where
  "exec_outcome tr argv input =
     (case run_argv tr argv input of
        Timed_out \<Rightarrow> (False, ''notify template timed out after 10.0s: '' @ quoted tr (hd argv))
      | Exec_failed msg \<Rightarrow> (False, ''notify template execution error: '' @ msg)
      | Exited n err \<Rightarrow>
          if n \<noteq> 0
          then (False, take 2000 (if strip err = [] then ''exit '' @ int_text n else strip err))
          else (True, []))"

definition exec_notify_template ::
  "transport \<Rightarrow> string list \<Rightarrow> string \<Rightarrow> string \<Rightarrow> (bool \<times> string) \<times> started" where
  "exec_notify_template tr ts payload dest =
     (case (case validate_notify_template ts of None \<Rightarrow> validate_destination dest | Some msg \<Rightarrow> Some msg) of
        Some msg \<Rightarrow> ((False, ''invalid dispatch destination config: '' @ msg), [])
      | None \<Rightarrow>
          (let argv = render_notify_argv ts payload dest;
               input = (if payload_token \<in> set ts then [] else payload)
           in (exec_outcome tr argv input, [(argv, input)])))"

definition backoff_seconds :: "nat \<Rightarrow> rat" where
  "backoff_seconds n = min (30 * 2 ^ n) 1800"

definition claim_lease_seconds :: rat where "claim_lease_seconds = 15"

section \<open>Enqueueing\<close>

definition outbox :: string where "outbox = ''dispatch_outbox''"

definition num_of :: "cell \<Rightarrow> rat" where
  "num_of c = (case c of CNum x \<Rightarrow> x | _ \<Rightarrow> 0)"

definition text_of :: "cell \<Rightarrow> string" where
  "text_of c = (case c of CText s \<Rightarrow> s | _ \<Rightarrow> [])"

definition opt_num :: "rat option \<Rightarrow> cell" where
  "opt_num x = (case x of None \<Rightarrow> CNull | Some v \<Rightarrow> CNum v)"

record dispatch_signal =
  sig_id :: string
  sig_kind :: string
  sig_to :: string
  sig_attempt :: nat
  sig_token :: "string option"
  sig_body :: string

record enqueue_request =
  enq_kind :: string
  enq_to :: string
  enq_body :: string
  enq_key :: "string option"
  enq_ack :: bool
  enq_max :: int
  enq_expires :: "rat option"
  enq_session :: "string option"
  enq_run :: "string option"

text \<open>The clock and the three identifiers one call draws.\<close>

record draw =
  drawn_now :: rat
  drawn_id :: string
  drawn_token :: string
  drawn_history :: string

definition new_cells :: "(dispatch_signal \<Rightarrow> string) \<Rightarrow> enqueue_request \<Rightarrow> draw \<Rightarrow> (string, cell) pydict" where
  "new_cells to_json q w =
     (let token = (if enq_ack q then Some (drawn_token w) else None);
          signal = \<lparr>sig_id = drawn_id w, sig_kind = enq_kind q, sig_to = enq_to q, sig_attempt = 0,
                    sig_token = token, sig_body = enq_body q\<rparr>
      in [(''id'', CText (drawn_id w)), (''kind'', CText (enq_kind q)), (''deliver_to'', CText (enq_to q)),
          (''payload'', CText (to_json signal)), (''dedup_key'', status_cell (enq_key q)),
          (''status'', CText ''pending''), (''attempt'', CNum 0), (''max_attempts'', CNum (of_int (enq_max q))),
          (''next_attempt_at'', CNum (drawn_now w)), (''ack_required'', CNum (if enq_ack q then 1 else 0)),
          (''ack_token'', status_cell token), (''session_id'', status_cell (enq_session q)),
          (''schedule_run_id'', status_cell (enq_run q)), (''last_error'', CNull),
          (''created_at'', CNum (drawn_now w)), (''expires_at'', opt_num (enq_expires q)),
          (''updated_at'', CNum (drawn_now w))])"

definition new_row :: "(dispatch_signal \<Rightarrow> string) \<Rightarrow> enqueue_request \<Rightarrow> draw \<Rightarrow> row" where
  "new_row to_json q w = set_columns (new_cells to_json q w) (\<lambda>_. CNull)"

definition enqueued_history :: "enqueue_request \<Rightarrow> draw \<Rightarrow> transition_row" where
  "enqueued_history q w =
     \<lparr>row_id = drawn_history w, row_type = ''dispatch'', row_entity = drawn_id w, row_previous = None,
      row_status = ''pending'',
      row_reason = \<lparr>reason_code = ''dispatch.pending.enqueued'',
                    reason_summary = ''enqueued kind='' @ enq_kind q, evidence_refs = ''[]'',
                    reason_metadata = ''{}''\<rparr>,
      row_actor = \<lparr>actor_type = ''system'', actor_id = Some ''enqueue_dispatch''\<rparr>,
      row_created = drawn_now w\<rparr>"

definition put_row :: "string \<Rightarrow> row \<Rightarrow> db \<Rightarrow> db" where
  "put_row i r d = d\<lparr>rows := (rows d)(outbox := (rows d outbox)(i \<mapsto> r))\<rparr>"

definition with_key :: "(db \<Rightarrow> string list) \<Rightarrow> string \<Rightarrow> db \<Rightarrow> string option" where
  "with_key listing k d =
     find (\<lambda>i. case rows d outbox i of None \<Rightarrow> False | Some r \<Rightarrow> sql_eq (r ''dedup_key'') (CText k)) (listing d)"

text \<open>A second row with the same primary key is refused by the database.\<close>

definition insert_dispatch ::
  "(dispatch_signal \<Rightarrow> string) \<Rightarrow> enqueue_request \<Rightarrow> draw \<Rightarrow> db \<Rightarrow> (pyerr + string) \<times> db" where
  "insert_dispatch to_json q w d =
     (if rows d outbox (drawn_id w) \<noteq> None then (Inl OtherException, d)
      else (Inr (drawn_id w),
            (put_row (drawn_id w) (new_row to_json q w) d)
              \<lparr>history := history d @ [enqueued_history q w]\<rparr>))"

definition enqueue_dispatch ::
  "(db \<Rightarrow> string list) \<Rightarrow> (dispatch_signal \<Rightarrow> string) \<Rightarrow> enqueue_request \<Rightarrow> draw \<Rightarrow> db \<Rightarrow> (pyerr + string) \<times> db" where
  "enqueue_dispatch listing to_json q w d =
     (if validate_destination (enq_to q) \<noteq> None then (Inl ValueError, d)
      else case (case enq_key q of None \<Rightarrow> None | Some k \<Rightarrow> with_key listing k d) of
             Some i \<Rightarrow> (Inr i, d)
           | None \<Rightarrow> insert_dispatch to_json q w d)"

text \<open>One \<open>revival_ping\<close> per seat; \<open>epoch_text\<close> is the text Python gives the reset time.\<close>

definition revival_request :: "string \<Rightarrow> rat \<Rightarrow> rat \<Rightarrow> int \<Rightarrow> string \<Rightarrow> (string \<Rightarrow> string) \<Rightarrow> enqueue_request" where
  "revival_request epoch_text epoch ttl attempts seat body_json =
     \<lparr>enq_kind = ''revival_ping'', enq_to = seat, enq_body = body_json epoch_text,
      enq_key = Some (''revival:'' @ seat @ '':'' @ epoch_text), enq_ack = False, enq_max = attempts,
      enq_expires = (if epoch \<noteq> 0 then Some (epoch + ttl) else None), enq_session = None, enq_run = None\<rparr>"

fun enqueue_all ::
  "(db \<Rightarrow> string list) \<Rightarrow> (dispatch_signal \<Rightarrow> string) \<Rightarrow> (enqueue_request \<times> draw) list \<Rightarrow> db
     \<Rightarrow> (pyerr + string list) \<times> db" where
  "enqueue_all listing to_json [] d = (Inr [], d)"
| "enqueue_all listing to_json ((q, w) # qs) d =
     (case enqueue_dispatch listing to_json q w d of
        (Inl err, d1) \<Rightarrow> (Inl err, d1)
      | (Inr i, d1) \<Rightarrow>
          (case enqueue_all listing to_json qs d1 of
             (Inl err, d2) \<Rightarrow> (Inl err, d2)
           | (Inr is, d2) \<Rightarrow> (Inr (i # is), d2)))"

definition enqueue_revival_heartbeat ::
  "(db \<Rightarrow> string list) \<Rightarrow> (dispatch_signal \<Rightarrow> string) \<Rightarrow> (string \<Rightarrow> string) \<Rightarrow> string \<Rightarrow> rat \<Rightarrow> rat \<Rightarrow> int
     \<Rightarrow> string list \<Rightarrow> draw list \<Rightarrow> db \<Rightarrow> (pyerr + string list) \<times> db" where
  "enqueue_revival_heartbeat listing to_json body_json epoch_text epoch ttl attempts seats ws d =
     enqueue_all listing to_json
       (zip (map (\<lambda>seat. revival_request epoch_text epoch ttl attempts seat body_json) seats) ws) d"

section \<open>Delivery\<close>

definition dispatch_request ::
  "actor \<Rightarrow> string \<Rightarrow> string option \<Rightarrow> string \<Rightarrow> string \<Rightarrow> string
     \<Rightarrow> (string, cell) pydict \<Rightarrow> (string, cell) pydict \<Rightarrow> legacy_request" where
  "dispatch_request act i frm target_state reason_id summary guard columns =
     \<lparr>req_type = ''dispatch'', req_id = i, from_state = frm, to_state = target_state,
      req_reason = \<lparr>reason_code = reason_id, reason_summary = summary, evidence_refs = ''[]'',
                    reason_metadata = ''{}''\<rparr>,
      req_actor = act, req_guard = guard, req_patch = columns\<rparr>"

abbreviation (input) move_row :: "legacy_request \<Rightarrow> env \<Rightarrow> db \<Rightarrow> legacy_result tx" where
  "move_row q e d \<equiv> legacy_transition default_registry q e d"

definition due :: "rat \<Rightarrow> row \<Rightarrow> bool" where
  "due t r \<longleftrightarrow>
     (r ''status'' = CText ''pending'' \<or> r ''status'' = CText ''delivering'') \<and>
     (case r ''next_attempt_at'' of CNum n \<Rightarrow> n \<le> t | _ \<Rightarrow> False)"

definition due_rows :: "(db \<Rightarrow> string list) \<Rightarrow> rat \<Rightarrow> db \<Rightarrow> (string \<times> row) list" where
  "due_rows listing t d =
     concat (map (\<lambda>i. case rows d outbox i of None \<Rightarrow> [] | Some r \<Rightarrow> if due t r then [(i, r)] else [])
       (listing d))"

definition past_deadline :: "rat \<Rightarrow> row \<Rightarrow> bool" where
  "past_deadline t r \<longleftrightarrow> (case r ''expires_at'' of CNum x \<Rightarrow> x \<le> t | _ \<Rightarrow> False)"

definition next_attempt :: "row \<Rightarrow> rat" where
  "next_attempt r = num_of (r ''attempt'') + 1"

definition attempt_text :: "row \<Rightarrow> string" where
  "attempt_text r = int_text (floor (next_attempt r))"

definition backoff_of :: "row \<Rightarrow> rat" where
  "backoff_of r = backoff_seconds (nat (floor (next_attempt r)))"

definition exhausted :: "row \<Rightarrow> bool" where
  "exhausted r \<longleftrightarrow> num_of (r ''max_attempts'') \<le> next_attempt r"

definition expire_request :: "actor \<Rightarrow> string \<Rightarrow> row \<Rightarrow> legacy_request" where
  "expire_request act i r =
     dispatch_request act i (status_text (r ''status'')) ''expired'' ''dispatch.expired.deadline''
       ''expires_at reached before delivery'' [] []"

text \<open>The claim: guarded by the attempt the scan read, it raises it and takes out a lease.\<close>

definition claim_request :: "actor \<Rightarrow> rat \<Rightarrow> string \<Rightarrow> row \<Rightarrow> legacy_request" where
  "claim_request act t i r =
     dispatch_request act i (status_text (r ''status'')) ''delivering'' ''dispatch.delivering.attempt''
       (''attempt '' @ attempt_text r) [(''attempt'', r ''attempt'')]
       [(''attempt'', CNum (next_attempt r)), (''next_attempt_at'', CNum (t + claim_lease_seconds))]"

definition ack_timeout_request :: "actor \<Rightarrow> string \<Rightarrow> row \<Rightarrow> legacy_request" where
  "ack_timeout_request act i r =
     dispatch_request act i (Some ''delivering'') ''dead_letter'' ''dispatch.dead_letter.ack_timeout''
       (attempt_text r @ '' sends without ack (max_attempts exhausted)'') [] []"

definition sent_request :: "actor \<Rightarrow> rat \<Rightarrow> string \<Rightarrow> row \<Rightarrow> legacy_request" where
  "sent_request act t i r =
     (let target_state = (if cell_true (r ''ack_required'') then ''pending'' else ''delivered'')
      in dispatch_request act i (Some ''delivering'') target_state ''dispatch.delivered.transport_ok''
           ''transport command exited 0; consumer acknowledgement not implied'' []
           (if target_state = ''pending'' then [(''next_attempt_at'', CNum (t + backoff_of r))] else []))"

definition dead_letter_request :: "actor \<Rightarrow> string \<Rightarrow> row \<Rightarrow> string \<Rightarrow> legacy_request" where
  "dead_letter_request act i r err =
     dispatch_request act i (Some ''delivering'') ''dead_letter'' ''dispatch.dead_letter.max_attempts''
       (attempt_text r @ '' attempts exhausted: '' @ err) [] []"

definition retry_request :: "actor \<Rightarrow> string \<Rightarrow> row \<Rightarrow> string \<Rightarrow> legacy_request" where
  "retry_request act i r err =
     dispatch_request act i (Some ''delivering'') ''pending'' ''dispatch.pending.retry_backoff''
       (''retry in '' @ int_text (floor (backoff_of r)) @ ''s: '' @ err) [] []"

text \<open>The two plain UPDATEs of the failure path.\<close>

definition note_error :: "string \<Rightarrow> rat \<Rightarrow> string \<Rightarrow> db \<Rightarrow> db" where
  "note_error err t i d =
     (case rows d outbox i of
        None \<Rightarrow> d
      | Some r \<Rightarrow> put_row i (r(''last_error'' := CText err, ''updated_at'' := CNum t)) d)"

definition set_backoff :: "rat \<Rightarrow> string \<Rightarrow> db \<Rightarrow> db" where
  "set_backoff t i d =
     (case rows d outbox i of None \<Rightarrow> d | Some r \<Rightarrow> put_row i (r(''next_attempt_at'' := CNum t)) d)"

text \<open>The counter a delivery raises, if its last transition applied.\<close>

datatype tally = Delivered | Dead_letter | Expired | Retried

record world =
  claim_env :: env
  outcome_env :: env
  during_send :: "db \<Rightarrow> db"
  before_outcome :: "db \<Rightarrow> db"
  before_backoff :: "db \<Rightarrow> db"

definition counting :: "tally \<Rightarrow> legacy_result tx \<Rightarrow> (pyerr + tally option) \<times> db" where
  "counting k run =
     (case run of
        (Inl err, d, _) \<Rightarrow> (Inl err, d)
      | (Inr res, d, _) \<Rightarrow> (Inr (if applied res then Some k else None), d))"

definition conclude_sent :: "actor \<Rightarrow> rat \<Rightarrow> env \<Rightarrow> string \<Rightarrow> row \<Rightarrow> db \<Rightarrow> (pyerr + tally option) \<times> db" where
  "conclude_sent act t e i r d =
     (if cell_true (r ''ack_required'') \<and> exhausted r
      then counting Dead_letter (move_row (ack_timeout_request act i r) e d)
      else counting Delivered (move_row (sent_request act t i r) e d))"

definition conclude_failed ::
  "actor \<Rightarrow> rat \<Rightarrow> world \<Rightarrow> string \<Rightarrow> row \<Rightarrow> string \<Rightarrow> db \<Rightarrow> (pyerr + tally option) \<times> db" where
  "conclude_failed act t w i r err d =
     (let d1 = before_outcome w (note_error err t i d)
      in if exhausted r
         then counting Dead_letter (move_row (dead_letter_request act i r err) (outcome_env w) d1)
         else (case counting Retried (move_row (retry_request act i r err) (outcome_env w) d1) of
                 (Inr (Some k), d2) \<Rightarrow>
                   (Inr (Some k), set_backoff (t + backoff_of r) i (before_backoff w d2))
               | other \<Rightarrow> other))"

definition send :: "transport \<Rightarrow> row \<Rightarrow> (bool \<times> string) \<times> started" where
  "send tr r =
     (case template tr of
        None \<Rightarrow> ((False, ''no dispatch.notify_template configured''), [])
      | Some ts \<Rightarrow> exec_notify_template tr ts (text_of (r ''payload'')) (text_of (r ''deliver_to'')))"

definition deliver_one_due_row ::
  "transport \<Rightarrow> actor \<Rightarrow> rat \<Rightarrow> world \<Rightarrow> string \<Rightarrow> row \<Rightarrow> db \<Rightarrow> (pyerr + tally option) \<times> db \<times> started" where
  "deliver_one_due_row tr act t w i r d =
     (if past_deadline t r
      then (case counting Expired (move_row (expire_request act i r) (claim_env w) d) of
              (res, d1) \<Rightarrow> (res, d1, []))
      else case move_row (claim_request act t i r) (claim_env w) d of
             (Inl err, d1, _) \<Rightarrow> (Inl err, d1, [])
           | (Inr claimed, d1, _) \<Rightarrow>
               if \<not> applied claimed then (Inr None, d1, [])
               else (case send tr r of
                       ((ok, err), procs) \<Rightarrow>
                         (case (if ok then conclude_sent act t (outcome_env w) i r (during_send w d1)
                                else conclude_failed act t w i r err (during_send w d1)) of
                            (res, d2) \<Rightarrow> (res, d2, procs))))"

record counts =
  attempted :: nat
  delivered :: nat
  dead_lettered :: nat
  expired :: nat
  retried :: nat

definition no_counts :: counts where
  "no_counts = \<lparr>attempted = 0, delivered = 0, dead_lettered = 0, expired = 0, retried = 0\<rparr>"

definition count :: "tally option \<Rightarrow> counts \<Rightarrow> counts" where
  "count k c =
     (case k of
        None \<Rightarrow> c
      | Some Delivered \<Rightarrow> c\<lparr>delivered := delivered c + 1\<rparr>
      | Some Dead_letter \<Rightarrow> c\<lparr>dead_lettered := dead_lettered c + 1\<rparr>
      | Some Expired \<Rightarrow> c\<lparr>expired := expired c + 1\<rparr>
      | Some Retried \<Rightarrow> c\<lparr>retried := retried c + 1\<rparr>)"

fun deliver_rows ::
  "transport \<Rightarrow> actor \<Rightarrow> rat \<Rightarrow> (nat \<Rightarrow> world) \<Rightarrow> (string \<times> row) list \<Rightarrow> counts \<Rightarrow> db
     \<Rightarrow> (pyerr + counts) \<times> db \<times> started" where
  "deliver_rows tr act t ws [] c d = (Inr c, d, [])"
| "deliver_rows tr act t ws ((i, r) # todo) c d =
     (let c1 = c\<lparr>attempted := attempted c + 1\<rparr>
      in case deliver_one_due_row tr act t (ws (attempted c)) i r d of
           (Inl err, d1, procs) \<Rightarrow>
             if err = LookupError
             then (case deliver_rows tr act t ws todo c1 d1 of (res, d2, procs') \<Rightarrow> (res, d2, procs @ procs'))
             else (Inl err, d1, procs)
         | (Inr k, d1, procs) \<Rightarrow>
             (case deliver_rows tr act t ws todo (count k c1) d1 of
                (res, d2, procs') \<Rightarrow> (res, d2, procs @ procs')))"

definition deliver_due_dispatches ::
  "(db \<Rightarrow> string list) \<Rightarrow> transport \<Rightarrow> actor \<Rightarrow> rat \<Rightarrow> (nat \<Rightarrow> world) \<Rightarrow> db \<Rightarrow> (pyerr + counts) \<times> db \<times> started" where
  "deliver_due_dispatches listing tr act t ws d =
     deliver_rows tr act t ws (due_rows listing t d) no_counts d"

section \<open>Operators\<close>

text \<open>\<open>meanwhile\<close> is what others commit between the read and the transition.\<close>

definition ack_dispatch :: "string \<Rightarrow> string \<Rightarrow> (db \<Rightarrow> db) \<Rightarrow> env \<Rightarrow> db \<Rightarrow> (pyerr + bool) \<times> db" where
  "ack_dispatch i token meanwhile e d =
     (case rows d outbox i of
        None \<Rightarrow> (Inl LookupError, d)
      | Some r \<Rightarrow>
          if \<not> cell_true (r ''ack_required'') \<or> r ''ack_token'' \<noteq> CText token then (Inl ValueError, d)
          else (case move_row (dispatch_request \<lparr>actor_type = ''operator'', actor_id = Some ''li_dispatch_ack''\<rparr> i
                         (status_text (r ''status'')) ''acked'' ''dispatch.acked.consumer''
                         ''consumer presented ack_token'' [] []) e (meanwhile d) of
                  (Inl err, d1, _) \<Rightarrow> (Inl err, d1)
                | (Inr res, d1, _) \<Rightarrow> (Inr (applied res), d1)))"

definition retry_dispatch :: "string \<Rightarrow> rat \<Rightarrow> (db \<Rightarrow> db) \<Rightarrow> env \<Rightarrow> db \<Rightarrow> (pyerr + bool) \<times> db" where
  "retry_dispatch i t meanwhile e d =
     (case rows d outbox i of
        None \<Rightarrow> (Inl LookupError, d)
      | Some r \<Rightarrow>
          if r ''status'' \<noteq> CText ''dead_letter'' \<and> r ''status'' \<noteq> CText ''expired'' then (Inl ValueError, d)
          else (case move_row (dispatch_request \<lparr>actor_type = ''operator'', actor_id = Some ''li_dispatch_retry''\<rparr> i
                         (status_text (r ''status'')) ''pending'' ''dispatch.pending.retry_backoff''
                         ''operator-forced retry'' []
                         [(''attempt'', CNum 0), (''next_attempt_at'', CNum t), (''last_error'', CNull)])
                         e (meanwhile d) of
                  (Inl err, d1, _) \<Rightarrow> (Inl err, d1)
                | (Inr res, d1, _) \<Rightarrow> (Inr (applied res), d1)))"

record purge_event =
  purge_target :: "string option"
  purge_status :: "string option"
  purge_before :: "rat option"
  purge_dry :: bool
  purge_total :: nat
  purge_counts :: "(string, nat) pydict"
  purge_actor :: string

definition delete_rows :: "string list \<Rightarrow> db \<Rightarrow> db" where
  "delete_rows is d = d\<lparr>rows := (rows d)(outbox := (\<lambda>i. if i \<in> set is then None else rows d outbox i))\<rparr>"

definition purge_dispatch ::
  "string \<Rightarrow> string \<Rightarrow> (db \<Rightarrow> db) \<Rightarrow> db \<Rightarrow> bool \<times> db \<times> purge_event list" where
  "purge_dispatch i act meanwhile d =
     (case rows d outbox i of
        None \<Rightarrow> (False, d, [])
      | Some r \<Rightarrow>
          (let d1 = meanwhile d in
           if rows d1 outbox i = None then (False, d1, [])
           else (True, delete_rows [i] d1,
                 [\<lparr>purge_target = Some i, purge_status = status_text (r ''status''), purge_before = None,
                   purge_dry = False, purge_total = 1, purge_counts = [], purge_actor = act\<rparr>])))"

definition terminal_dispatch_statuses :: "string list" where
  "terminal_dispatch_statuses = [''delivered'', ''acked'', ''dead_letter'', ''expired'']"

definition purge_selects :: "string option \<Rightarrow> rat option \<Rightarrow> row \<Rightarrow> bool" where
  "purge_selects st before r \<longleftrightarrow>
     (case st of
        Some s \<Rightarrow> sql_eq (r ''status'') (CText s)
      | None \<Rightarrow> list_ex (\<lambda>s. sql_eq (r ''status'') (CText s)) terminal_dispatch_statuses) \<and>
     (case before of None \<Rightarrow> True | Some t \<Rightarrow> (case r ''updated_at'' of CNum u \<Rightarrow> u \<le> t | _ \<Rightarrow> False))"

definition purge_matches :: "(db \<Rightarrow> string list) \<Rightarrow> string option \<Rightarrow> rat option \<Rightarrow> db \<Rightarrow> (string \<times> string) list" where
  "purge_matches listing st before d =
     concat (map (\<lambda>i. case rows d outbox i of
                        None \<Rightarrow> []
                      | Some r \<Rightarrow> if purge_selects st before r then [(i, text_of (r ''status''))] else [])
       (listing d))"

definition tally_status :: "(string \<times> string) list \<Rightarrow> (string, nat) pydict" where
  "tally_status ms =
     foldl (\<lambda>c (i, s). dset s ((case dget c s of None \<Rightarrow> 0 | Some n \<Rightarrow> n) + 1) c) [] ms"

text \<open>The deletion in chunks of 500 identifiers.\<close>

function delete_chunks :: "string list \<Rightarrow> db \<Rightarrow> db" where
  "delete_chunks is d =
     (if is = [] then d else delete_chunks (drop 500 is) (delete_rows (take 500 is) d))"
  by pat_completeness auto
termination
  by (relation "measure (length \<circ> fst)") auto

declare delete_chunks.simps [simp del]

definition purge_dispatches ::
  "(db \<Rightarrow> string list) \<Rightarrow> string option \<Rightarrow> rat option \<Rightarrow> bool \<Rightarrow> string \<Rightarrow> db
     \<Rightarrow> (pyerr + nat \<times> (string, nat) pydict) \<times> db \<times> purge_event list" where
  "purge_dispatches listing st before dry act d =
     (if st = None \<and> before = None then (Inl ValueError, d, [])
      else let ms = purge_matches listing st before d;
               d1 = (if dry then d else delete_chunks (map fst ms) d)
           in (Inr (length ms, tally_status ms), d1,
               [\<lparr>purge_target = None, purge_status = st, purge_before = before, purge_dry = dry,
                 purge_total = length ms, purge_counts = tally_status ms, purge_actor = act\<rparr>]))"

section \<open>What a dispatch transition does\<close>

lemma get_dispatch_policy: "get_policy ''dispatch'' default_registry = Inr dispatch_policy"
  unfolding get_default by (simp add: built_in_policies_def) (simp add: dispatch_policy_def)

lemma dispatch_policy_facts [simp]:
  "table dispatch_policy = outbox" "statuses dispatch_policy = dispatch_statuses"
  "patch_fields dispatch_policy = dispatch_fields" "same_status dispatch_policy = Append"
  "entity_type dispatch_policy = ''dispatch''"
  by (simp_all add: dispatch_policy_def outbox_def)

definition dispatch_columns :: "string set" where
  "dispatch_columns = {''attempt'', ''next_attempt_at'', ''last_error''}"

lemma dispatch_columns_fields: "dispatch_columns = dispatch_fields"
  by (auto simp: dispatch_columns_def dispatch_fields_def)

text \<open>A request that passes every check, from the status \<open>s\<close>.\<close>

definition admissible :: "legacy_request \<Rightarrow> string \<Rightarrow> bool" where
  "admissible q s \<longleftrightarrow>
     req_type q = ''dispatch'' \<and> req_id q \<noteq> [] \<and> from_state q = Some s \<and>
     reason_code (req_reason q) \<in> valid_reason_codes \<and> reason_code (req_reason q) \<noteq> [] \<and>
     actor_type (req_actor q) \<noteq> [] \<and> to_state q \<noteq> [] \<and> to_state q \<in> dispatch_statuses \<and>
     set (dkeys (req_guard q)) \<subseteq> dispatch_columns \<and> set (dkeys (req_patch q)) \<subseteq> dispatch_columns \<and>
     judge dispatch_policy True False (set (dkeys (req_guard q))) (legacy_command q) (Some s) = Allowed False"

definition still_there :: "legacy_request \<Rightarrow> string \<Rightarrow> db \<Rightarrow> bool" where
  "still_there q s d \<longleftrightarrow>
     (case rows d outbox (req_id q) of
        None \<Rightarrow> False
      | Some r \<Rightarrow> r ''status'' = CText s \<and> list_all (\<lambda>(k, v). sql_eq (r k) v) (req_guard q))"

definition moved_row :: "legacy_request \<Rightarrow> rat \<Rightarrow> row \<Rightarrow> row" where
  "moved_row q t r = updated_row False (legacy_command q) t r"

definition moved :: "legacy_request \<Rightarrow> env \<Rightarrow> db \<Rightarrow> db" where
  "moved q e d =
     (put_row (req_id q) (moved_row q (now e) (the (rows d outbox (req_id q)))) d)
       \<lparr>history := history d @ [history_row (legacy_command q) (from_state q) (fresh_id e) (now e)]\<rparr>"

definition refused :: "string option \<Rightarrow> env \<Rightarrow> legacy_result" where
  "refused s e = \<lparr>applied = False, conflicted = True, previous_state = s, current_state = s,
                  legacy_id = Some (fresh_id e)\<rparr>"

definition accepted :: "legacy_request \<Rightarrow> env \<Rightarrow> legacy_result" where
  "accepted q e = \<lparr>applied = True, conflicted = False, previous_state = from_state q,
                   current_state = Some (to_state q), legacy_id = Some (fresh_id e)\<rparr>"

lemma applied_results [simp]: "\<not> applied (refused s e)" "applied (accepted q e)"
  by (simp_all add: refused_def accepted_def)

lemma legacy_command_fields [simp]:
  "cmd_type (legacy_command q) = req_type q" "cmd_id (legacy_command q) = req_id q"
  "cmd_status (legacy_command q) = to_state q" "cmd_reason (legacy_command q) = req_reason q"
  "cmd_actor (legacy_command q) = req_actor q" "expected_version (legacy_command q) = None"
  "patch (legacy_command q) = req_patch q" "cmd_override (legacy_command q) = None"
  "(legacy_command q)\<lparr>patch := req_patch q\<rparr> = legacy_command q"
  by (simp_all add: legacy_command_def)

lemma admissible_valid: "admissible q s \<Longrightarrow> \<not> command_invalid dispatch_policy (legacy_command q)"
  unfolding admissible_def command_invalid_def dispatch_columns_fields patch_columns_def by auto

lemma row_selected_from:
  "row_selected (legacy_command q) g (Some s) r \<longleftrightarrow> r ''status'' = CText s \<and> list_all (\<lambda>(k, v). sql_eq (r k) v) g"
  by (auto simp: row_selected_def sql_eq_def status_cell_def)

lemma legacy_args_fields [simp]:
  "extra_guard (legacy_args q) = req_guard q" "enforce_edges (legacy_args q)"
  "\<not> reject_undeclared (legacy_args q)" "\<not> raise_on_unguarded (legacy_args q)" "\<not> write_reason (legacy_args q)"
  by (simp_all add: legacy_args_def)

lemma commit_dispatch:
  assumes "admissible q s" "r ''status'' = CText s"
  shows "commit dispatch_policy (legacy_command q) (legacy_args q) e r False d =
     (if list_all (\<lambda>(k, v). r k = v) (req_guard q) \<and> still_there q s d
      then (Inr \<lparr>result = Applied, previous_status = Some s, current_status = Some (to_state q),
                 transition_id = Some (fresh_id e)\<rparr>, moved q e d, [])
      else (Inr (conflict (Some s)), d, []))"
proof -
  have q: "req_type q = ''dispatch''" "from_state q = Some s" using assms(1) by (simp_all add: admissible_def)
  have patch: "final_patch dispatch_policy (legacy_command q) r (now e) = Inr (req_patch q)"
    by (simp add: final_patch_def session_ends_def q)
  have event: "final_event dispatch_policy (legacy_command q) (Some s) x y = []" for x y
    by (simp add: final_event_def execution_entity_kinds_def q)
  have written: "guarded_write outbox (legacy_command q) (req_guard q) False (Some s) (now e) (fresh_id e) d =
      (if still_there q s d then (Some (fresh_id e), moved q e d) else (None, d))"
    by (simp add: guarded_write_def row_selected_from still_there_def moved_def moved_row_def put_row_def q
        split: option.split)
  show ?thesis
    by (simp add: commit_def Let_def version_stale_def log_override_def patch written event assms(2) status_text_def)
qed

lemma legacy_dispatch:
  assumes "admissible q s"
  shows "move_row q e d =
     (case rows d outbox (req_id q) of
        None \<Rightarrow> (Inl LookupError, d, [])
      | Some r \<Rightarrow>
          if status_text (r ''status'') \<noteq> Some s then (Inr (refused (status_text (r ''status'')) e), between e d, [])
          else if list_all (\<lambda>(k, v). r k = v) (req_guard q) \<and> still_there q s (between e d)
          then (Inr (accepted q e), moved q e (between e d), [])
          else (Inr (refused (Some s) e), between e d, []))"
proof -
  have q: "req_type q = ''dispatch''" "from_state q = Some s" "reason_code (req_reason q) \<in> valid_reason_codes"
    "set (dkeys (req_guard q)) \<subseteq> dispatch_columns" "set (dkeys (req_patch q)) \<subseteq> dispatch_columns"
    "judge dispatch_policy True False (set (dkeys (req_guard q))) (legacy_command q) (Some s) = Allowed False"
    using assms unfolding admissible_def by blast+
  have expected: "expected_statuses (legacy_command q) = Some {Some s}"
    by (simp add: legacy_command_def q)
  have cols: "guard_patch_columns (req_type q) = Some dispatch_columns"
    by (simp add: guard_patch_columns_def dispatch_columns_def q)
  have run: "run_legacy_transition default_registry q e d =
     (case rows d outbox (req_id q) of
        None \<Rightarrow> (Inl LifecycleNotFoundError, d, [])
      | Some r \<Rightarrow>
          if status_text (r ''status'') \<noteq> Some s
          then (Inr (conflict (status_text (r ''status''))), between e d, [])
          else commit dispatch_policy (legacy_command q) (legacy_args q) e r False (between e d))"
    using admissible_valid[OF assms] q(6)
    by (simp add: run_legacy_transition_def transition_in_def get_dispatch_policy expected q(1) Let_def
        split: option.split)
  show ?thesis
  proof (cases "rows d outbox (req_id q)")
    case None
    then show ?thesis unfolding legacy_transition_def cols run using q by simp
  next
    case (Some r)
    show ?thesis
    proof (cases "status_text (r ''status'') = Some s")
      case False
      then show ?thesis using Some q unfolding legacy_transition_def cols run
        by (simp add: conflict_def refused_def)
    next
      case True
      then have "r ''status'' = CText s" by (auto simp: status_text_def split: cell.splits)
      note commit = commit_dispatch[of q s r e "between e d", OF assms this]
      show ?thesis using Some True q unfolding legacy_transition_def cols run
        by (simp add: commit conflict_def refused_def accepted_def)
    qed
  qed
qed

section \<open>The requests are admissible\<close>

lemma dispatch_edges_from:
  "declared_edges dispatch_policy (Some ''pending'') = map edge_to [''delivering'', ''expired'', ''acked'']"
  "declared_edges dispatch_policy (Some ''delivering'') =
     (edge_to ''delivering'')\<lparr>required_guard_fields := {''attempt''}\<rparr> #
     map edge_to [''pending'', ''delivered'', ''acked'', ''dead_letter'', ''expired'']"
  "declared_edges dispatch_policy (Some ''dead_letter'') = [requeue]"
  "declared_edges dispatch_policy (Some ''expired'') = [requeue]"
  "declared_edges dispatch_policy (Some ''delivered'') = []"
  "declared_edges dispatch_policy (Some ''acked'') = []"
  by (simp_all add: declared_edges_def dispatch_policy_def dispatch_edges_def to_all_def)

lemma edge_permits_to [simp]: "edge_permits (edge_to s) g c"
  by (simp add: edge_permits_def edge_to_def)

lemma edge_permits_guarded [simp]:
  "edge_permits ((edge_to s)\<lparr>required_guard_fields := {''attempt''}\<rparr>) g c \<longleftrightarrow>
     ''attempt'' \<in> g \<or> expected_version c \<noteq> None"
  by (simp add: edge_permits_def edge_to_def)

lemma edge_permits_requeue [simp]:
  "edge_permits requeue g c \<longleftrightarrow> actor_type (cmd_actor c) = ''operator'' \<and> dispatch_fields \<subseteq> patch_columns c"
  by (auto simp: edge_permits_def requeue_def)

lemma to_status_guarded [simp]: "to_status ((edge_to s)\<lparr>required_guard_fields := g\<rparr>) = s"
  by (simp add: edge_to_def)

lemma requeue_to [simp]: "to_status requeue = ''pending''"
  by (simp add: requeue_def)

lemma judge_moves:
  "cmd_status c = ''delivering'' \<Longrightarrow> judge dispatch_policy True False g c (Some ''pending'') = Allowed False"
  "cmd_status c = ''expired'' \<Longrightarrow> judge dispatch_policy True False g c (Some ''pending'') = Allowed False"
  "cmd_status c = ''acked'' \<Longrightarrow> judge dispatch_policy True False g c (Some ''pending'') = Allowed False"
  "cmd_status c = ''delivering'' \<Longrightarrow> ''attempt'' \<in> g \<Longrightarrow>
     judge dispatch_policy True False g c (Some ''delivering'') = Allowed False"
  "cmd_status c = ''pending'' \<Longrightarrow> judge dispatch_policy True False g c (Some ''delivering'') = Allowed False"
  "cmd_status c = ''delivered'' \<Longrightarrow> judge dispatch_policy True False g c (Some ''delivering'') = Allowed False"
  "cmd_status c = ''acked'' \<Longrightarrow> judge dispatch_policy True False g c (Some ''delivering'') = Allowed False"
  "cmd_status c = ''dead_letter'' \<Longrightarrow> judge dispatch_policy True False g c (Some ''delivering'') = Allowed False"
  "cmd_status c = ''expired'' \<Longrightarrow> judge dispatch_policy True False g c (Some ''delivering'') = Allowed False"
  "cmd_status c = ''pending'' \<Longrightarrow> actor_type (cmd_actor c) = ''operator'' \<Longrightarrow> dispatch_fields \<subseteq> patch_columns c \<Longrightarrow>
     judge dispatch_policy True False g c (Some ''dead_letter'') = Allowed False"
  "cmd_status c = ''pending'' \<Longrightarrow> actor_type (cmd_actor c) = ''operator'' \<Longrightarrow> dispatch_fields \<subseteq> patch_columns c \<Longrightarrow>
     judge dispatch_policy True False g c (Some ''expired'') = Allowed False"
  by (simp_all add: judge_def dispatch_edges_from)

lemma dispatch_statuses_members:
  "''pending'' \<in> dispatch_statuses" "''delivering'' \<in> dispatch_statuses" "''delivered'' \<in> dispatch_statuses"
  "''acked'' \<in> dispatch_statuses" "''dead_letter'' \<in> dispatch_statuses" "''expired'' \<in> dispatch_statuses"
  by (simp_all add: dispatch_statuses_def)

lemma dispatch_reason_codes:
  "''dispatch.expired.deadline'' \<in> valid_reason_codes" "''dispatch.delivering.attempt'' \<in> valid_reason_codes"
  "''dispatch.dead_letter.ack_timeout'' \<in> valid_reason_codes"
  "''dispatch.delivered.transport_ok'' \<in> valid_reason_codes"
  "''dispatch.dead_letter.max_attempts'' \<in> valid_reason_codes"
  "''dispatch.pending.retry_backoff'' \<in> valid_reason_codes" "''dispatch.acked.consumer'' \<in> valid_reason_codes"
  by (simp_all add: valid_reason_codes_def dispatch_reasons_def)

lemma dispatch_request_fields [simp]:
  "req_type (dispatch_request act i frm st rc sm g p) = ''dispatch''"
  "req_id (dispatch_request act i frm st rc sm g p) = i"
  "from_state (dispatch_request act i frm st rc sm g p) = frm"
  "to_state (dispatch_request act i frm st rc sm g p) = st"
  "reason_code (req_reason (dispatch_request act i frm st rc sm g p)) = rc"
  "req_actor (dispatch_request act i frm st rc sm g p) = act"
  "req_guard (dispatch_request act i frm st rc sm g p) = g"
  "req_patch (dispatch_request act i frm st rc sm g p) = p"
  by (simp_all add: dispatch_request_def)

definition who :: "actor \<Rightarrow> string \<Rightarrow> bool" where
  "who act i \<longleftrightarrow> actor_type act \<noteq> [] \<and> i \<noteq> []"

lemma due_status: "due t r \<Longrightarrow> r ''status'' = CText ''pending'' \<or> r ''status'' = CText ''delivering''"
  by (simp add: due_def)

lemma admissible_expire:
  assumes "who act i" "due t r"
  shows "\<exists>s. r ''status'' = CText s \<and> admissible (expire_request act i r) s"
  using due_status[of t r, OF assms(2)] assms(1)
  by (auto simp: admissible_def expire_request_def who_def status_text_def judge_moves
      dispatch_statuses_members dispatch_reason_codes)

lemma admissible_claim:
  assumes "who act i" "r ''status'' = CText ''pending'' \<or> r ''status'' = CText ''delivering''"
  shows "\<exists>s. r ''status'' = CText s \<and> admissible (claim_request act t i r) s"
  using assms
  by (auto simp: admissible_def claim_request_def who_def status_text_def judge_moves dispatch_columns_def
      dispatch_statuses_members dispatch_reason_codes)

lemma admissible_ack_timeout: "who act i \<Longrightarrow> admissible (ack_timeout_request act i r) ''delivering''"
  by (simp add: admissible_def ack_timeout_request_def who_def judge_moves dispatch_statuses_members
      dispatch_reason_codes)

lemma admissible_sent: "who act i \<Longrightarrow> admissible (sent_request act t i r) ''delivering''"
  by (simp add: admissible_def sent_request_def who_def judge_moves dispatch_statuses_members
      dispatch_reason_codes Let_def dispatch_columns_def)

lemma admissible_dead_letter: "who act i \<Longrightarrow> admissible (dead_letter_request act i r err) ''delivering''"
  by (simp add: admissible_def dead_letter_request_def who_def judge_moves dispatch_statuses_members
      dispatch_reason_codes)

lemma admissible_retry: "who act i \<Longrightarrow> admissible (retry_request act i r err) ''delivering''"
  by (simp add: admissible_def retry_request_def who_def judge_moves dispatch_statuses_members
      dispatch_reason_codes)

text \<open>An admissible transition fails only when the row is gone.\<close>

lemma move_result:
  assumes "admissible q s"
  shows "(\<exists>d'. move_row q e d = (Inl LookupError, d', [])) \<or> (\<exists>res d'. move_row q e d = (Inr res, d', []))"
  unfolding legacy_dispatch[OF assms] by (auto split: option.split)

lemma counting_result:
  assumes "admissible q s"
  shows "fst (counting k (move_row q e d)) \<in> {Inl LookupError, Inr None, Inr (Some k)}"
  using move_result[OF assms, of e d] by (auto simp: counting_def)

lemma conclude_sent_result:
  "who act i \<Longrightarrow> fst (conclude_sent act t e i r d) \<in> {Inl LookupError} \<union> range Inr"
  using counting_result[OF admissible_ack_timeout, of act i Dead_letter r e d]
    counting_result[OF admissible_sent, of act i Delivered t r e d]
  by (auto simp: conclude_sent_def)

lemma conclude_failed_result:
  "who act i \<Longrightarrow> fst (conclude_failed act t w i r err d) \<in> {Inl LookupError} \<union> range Inr"
  using counting_result[OF admissible_dead_letter, of act i Dead_letter r err "outcome_env w"
      "before_outcome w (note_error err t i d)"]
    counting_result[OF admissible_retry, of act i Retried r err "outcome_env w"
      "before_outcome w (note_error err t i d)"]
  by (auto simp: conclude_failed_def Let_def split: prod.splits sum.splits option.splits)

lemma deliver_one_result:
  assumes "who act i" "due t r"
  shows "fst (deliver_one_due_row tr act t w i r d) \<in> {Inl LookupError} \<union> range Inr"
proof -
  obtain s where s: "admissible (expire_request act i r) s" using admissible_expire[of act i t r, OF assms] by blast
  obtain s' where s': "admissible (claim_request act t i r) s'"
    using admissible_claim[of act i r t, OF assms(1) due_status[OF assms(2)]] by blast
  show ?thesis
  proof (cases "past_deadline t r")
    case True
    then have "fst (deliver_one_due_row tr act t w i r d) =
        fst (counting Expired (move_row (expire_request act i r) (claim_env w) d))"
      by (simp add: deliver_one_due_row_def split: prod.split)
    then show ?thesis using counting_result[OF s, of Expired "claim_env w" d] by auto
  next
    case False
    note deliver = deliver_one_due_row_def[of tr act t w i r d, unfolded if_not_P[OF False]]
    from move_result[OF s', of "claim_env w" d] show ?thesis
    proof (elim disjE exE)
      fix d1 assume "move_row (claim_request act t i r) (claim_env w) d = (Inl LookupError, d1, [])"
      then show ?thesis unfolding deliver by simp
    next
      fix res d1 assume run: "move_row (claim_request act t i r) (claim_env w) d = (Inr res, d1, [])"
      obtain ok err procs where sent: "send tr r = ((ok, err), procs)" by (metis surj_pair)
      show ?thesis
      proof (cases "applied res")
        case True
        have "fst (deliver_one_due_row tr act t w i r d) =
            fst (if ok then conclude_sent act t (outcome_env w) i r (during_send w d1)
                 else conclude_failed act t w i r err (during_send w d1))"
          unfolding deliver run sent by (simp add: True split: prod.split)
        then show ?thesis
          using conclude_sent_result[OF assms(1)] conclude_failed_result[OF assms(1)] by simp
      qed (simp add: deliver run)
    qed
  qed
qed

section \<open>The scan\<close>

definition settled :: "counts \<Rightarrow> nat" where
  "settled c = delivered c + dead_lettered c + expired c + retried c"

lemma settled_count: "settled (count k c) \<le> settled c + 1" "attempted (count k c) = attempted c"
  by (auto simp: settled_def count_def split: option.split tally.split)

lemma deliver_rows_completes:
  assumes "actor_type act \<noteq> []" "\<forall>(i, r) \<in> set todo. i \<noteq> [] \<and> due t r"
  shows "\<exists>c' d' procs. deliver_rows tr act t ws todo c d = (Inr c', d', procs) \<and>
     attempted c' = attempted c + length todo \<and> settled c' \<le> settled c + length todo"
  using assms(2)
proof (induction todo arbitrary: c d)
  case Nil
  then show ?case by simp
next
  case (Cons ir todo)
  obtain i r where ir: "ir = (i, r)" by force
  have todo: "\<forall>(i, r) \<in> set todo. i \<noteq> [] \<and> due t r" and here: "who act i" "due t r"
    using Cons.prems assms(1) by (auto simp: ir who_def)
  let ?c1 = "c\<lparr>attempted := attempted c + 1\<rparr>"
  obtain res d1 procs where run: "deliver_one_due_row tr act t (ws (attempted c)) i r d = (res, d1, procs)"
    by (metis prod_cases3)
  have "res \<in> {Inl LookupError} \<union> range Inr"
    using deliver_one_result[of act i t r, OF here] run by (metis fst_conv)
  then consider "res = Inl LookupError" | k where "res = Inr k" by blast
  then show ?case
  proof cases
    case 1
    obtain c' d' procs' where "deliver_rows tr act t ws todo ?c1 d1 = (Inr c', d', procs')"
      "attempted c' = attempted ?c1 + length todo" "settled c' \<le> settled ?c1 + length todo"
      using Cons.IH[OF todo] by blast
    then show ?thesis by (simp add: ir run 1 settled_def)
  next
    case (2 k)
    obtain c' d' procs' where "deliver_rows tr act t ws todo (count k ?c1) d1 = (Inr c', d', procs')"
      "attempted c' = attempted (count k ?c1) + length todo" "settled c' \<le> settled (count k ?c1) + length todo"
      using Cons.IH[OF todo] by blast
    moreover have "settled (count k ?c1) \<le> settled c + 1"
      using settled_count(1)[of k ?c1] by (simp add: settled_def)
    ultimately show ?thesis by (simp add: ir run 2 settled_count)
  qed
qed

lemma due_rows_due:
  "(i, r) \<in> set (due_rows listing t d) \<longleftrightarrow> i \<in> set (listing d) \<and> rows d outbox i = Some r \<and> due t r"
  by (auto simp: due_rows_def split: option.splits if_splits)

text \<open>
  C23. The delivery scan completes: whatever other connections commit at any point of it, including
  purging rows it has read, and whatever the transport does, \<open>deliver_due_dispatches\<close> returns its
  counters, has attempted every row that was due, and counts at most one outcome for each.
\<close>

theorem scan_completes:
  assumes "actor_type act \<noteq> []" "[] \<notin> set (listing d)"
  shows "\<exists>c d' procs. deliver_due_dispatches listing tr act t ws d = (Inr c, d', procs) \<and>
     attempted c = length (due_rows listing t d) \<and>
     delivered c + dead_lettered c + expired c + retried c \<le> attempted c"
proof -
  have "\<forall>(i, r) \<in> set (due_rows listing t d). i \<noteq> [] \<and> due t r"
    using due_rows_due[of _ _ listing t d] assms(2) by blast
  from deliver_rows_completes[OF assms(1) this, of tr ws no_counts d]
  show ?thesis by (auto simp: deliver_due_dispatches_def no_counts_def settled_def)
qed

section \<open>One delivery without interference\<close>

definition quiet :: "world \<Rightarrow> bool" where
  "quiet w \<longleftrightarrow>
     (\<forall>d. between (claim_env w) d = d \<and> between (outcome_env w) d = d \<and> during_send w d = d \<and>
          before_outcome w d = d \<and> before_backoff w d = d)"

lemma put_row_rows [simp]:
  "rows (put_row i r d) outbox j = (if j = i then Some r else rows d outbox j)"
  "history (put_row i r d) = history d" "admin_events (put_row i r d) = admin_events d"
  by (simp_all add: put_row_def)

lemma moved_rows:
  "rows (moved q e d) outbox j =
     (if j = req_id q then Some (moved_row q (now e) (the (rows d outbox (req_id q)))) else rows d outbox j)"
  by (simp add: moved_def)

lemma moved_cell:
  "moved_row q t r k =
     set_columns ((''status'', CText (to_state q)) # (''updated_at'', CNum t) # req_patch q) r k"
  by (simp add: moved_row_def updated_row_def)

lemma quiet_move:
  assumes "admissible q s" "rows d outbox (req_id q) = Some r" "r ''status'' = CText s"
    "\<And>d. between e d = d" "\<forall>(k, v) \<in> set (req_guard q). r k = v \<and> v \<noteq> CNull"
  shows "move_row q e d = (Inr (accepted q e), moved q e d, [])"
proof -
  have guard: "list_all (\<lambda>(k, v). r k = v) (req_guard q)" "list_all (\<lambda>(k, v). sql_eq (r k) v) (req_guard q)"
    using assms(5) by (auto simp: list_all_iff sql_eq_def)
  then have "still_there q s d" using assms(2,3) by (simp add: still_there_def)
  then show ?thesis
    using guard(1) unfolding legacy_dispatch[OF assms(1)] assms(2) by (simp add: assms(3,4) status_text_def)
qed

text \<open>The row a claim leaves, and the row after each conclusion.\<close>

lemma plain_move:
  "req_patch q = [] \<Longrightarrow> moved_row q t r = r(''status'' := CText (to_state q), ''updated_at'' := CNum t)"
  by (rule ext) (simp add: moved_cell set_columns_def)

lemma request_patches [simp]:
  "req_patch (expire_request act i r) = []" "to_state (expire_request act i r) = ''expired''"
  "req_id (expire_request act i r) = i" "req_guard (expire_request act i r) = []"
  "req_patch (ack_timeout_request act i r) = []" "to_state (ack_timeout_request act i r) = ''dead_letter''"
  "req_id (ack_timeout_request act i r) = i" "req_guard (ack_timeout_request act i r) = []"
  "req_patch (dead_letter_request act i r err) = []"
  "to_state (dead_letter_request act i r err) = ''dead_letter''"
  "req_id (dead_letter_request act i r err) = i" "req_guard (dead_letter_request act i r err) = []"
  "req_patch (retry_request act i r err) = []" "to_state (retry_request act i r err) = ''pending''"
  "req_id (retry_request act i r err) = i" "req_guard (retry_request act i r err) = []"
  "req_id (sent_request act t i r) = i" "req_guard (sent_request act t i r) = []"
  "to_state (sent_request act t i r) = (if cell_true (r ''ack_required'') then ''pending'' else ''delivered'')"
  "req_patch (sent_request act t i r) =
     (if cell_true (r ''ack_required'') then [(''next_attempt_at'', CNum (t + backoff_of r))] else [])"
  "req_id (claim_request act t i r) = i" "to_state (claim_request act t i r) = ''delivering''"
  "req_guard (claim_request act t i r) = [(''attempt'', r ''attempt'')]"
  "req_patch (claim_request act t i r) =
     [(''attempt'', CNum (next_attempt r)), (''next_attempt_at'', CNum (t + claim_lease_seconds))]"
  by (simp_all add: expire_request_def ack_timeout_request_def dead_letter_request_def retry_request_def
      sent_request_def claim_request_def Let_def)

lemma claim_row:
  "moved_row (claim_request act t i r) u r' =
     r'(''status'' := CText ''delivering'', ''updated_at'' := CNum u, ''attempt'' := CNum (next_attempt r),
        ''next_attempt_at'' := CNum (t + claim_lease_seconds))"
  by (rule ext) (simp add: moved_cell set_columns_def)

lemma resent_row:
  "cell_true (r ''ack_required'') \<Longrightarrow>
   moved_row (sent_request act t i r) u r' =
     r'(''status'' := CText ''pending'', ''updated_at'' := CNum u, ''next_attempt_at'' := CNum (t + backoff_of r))"
  by (rule ext) (simp add: moved_cell set_columns_def)

text \<open>A delivery in a quiet world claims the row, runs the transport and concludes.\<close>

lemma quiet_claim:
  assumes "who act i" "rows d outbox i = Some r" "due t r" "quiet w" "r ''attempt'' = CNum n"
  shows "move_row (claim_request act t i r) (claim_env w) d =
     (Inr (accepted (claim_request act t i r) (claim_env w)), moved (claim_request act t i r) (claim_env w) d, [])"
proof -
  obtain s where s: "r ''status'' = CText s" "admissible (claim_request act t i r) s"
    using admissible_claim[of act i r t, OF assms(1) due_status[of t r, OF assms(3)]] by blast
  show ?thesis
    by (rule quiet_move[of "claim_request act t i r" s d r, OF s(2)])
       (use assms s(1) in \<open>simp_all add: quiet_def\<close>)
qed

lemma quiet_conclusion:
  assumes "admissible q ''delivering''" "rows d outbox (req_id q) = Some r" "r ''status'' = CText ''delivering''"
    "quiet w" "req_guard q = []"
  shows "counting k (move_row q (outcome_env w) d) = (Inr (Some k), moved q (outcome_env w) d)"
  using quiet_move[of q "''delivering''" d r "outcome_env w"] assms by (simp add: counting_def quiet_def)

definition concluded :: "rat \<Rightarrow> row \<Rightarrow> bool \<Rightarrow> string \<Rightarrow> tally option \<Rightarrow> row \<Rightarrow> bool" where
  "concluded t r ok err k r' \<longleftrightarrow>
     (if ok \<and> \<not> cell_true (r ''ack_required'') then k = Some Delivered \<and> r' ''status'' = CText ''delivered''
      else if exhausted r then k = Some Dead_letter \<and> r' ''status'' = CText ''dead_letter''
      else k = Some (if ok then Delivered else Retried) \<and> r' ''status'' = CText ''pending'' \<and>
           r' ''next_attempt_at'' = CNum (t + backoff_of r)) \<and>
     (\<not> ok \<longrightarrow> r' ''last_error'' = CText err)"

lemma conclude_sent_row:
  assumes "who act i" "rows d outbox i = Some r1" "r1 ''status'' = CText ''delivering''" "quiet w"
  shows "\<exists>k d' r'. conclude_sent act t (outcome_env w) i r d = (Inr k, d') \<and> rows d' outbox i = Some r' \<and>
     (\<forall>j. j \<noteq> i \<longrightarrow> rows d' outbox j = rows d outbox j) \<and> concluded t r True err k r' \<and>
     r' ''attempt'' = r1 ''attempt'' \<and> r' ''max_attempts'' = r1 ''max_attempts''"
proof (cases "cell_true (r ''ack_required'') \<and> exhausted r")
  case True
  then show ?thesis
    using quiet_conclusion[of "ack_timeout_request act i r" d r1 w Dead_letter] admissible_ack_timeout[of act i r] assms
    by (simp add: conclude_sent_def concluded_def moved_rows plain_move)
next
  case False
  note run = quiet_conclusion[of "sent_request act t i r" d r1 w Delivered]
  show ?thesis
  proof (cases "cell_true (r ''ack_required'')")
    case True
    then show ?thesis using False run admissible_sent[of act i t r] assms
      by (simp add: conclude_sent_def concluded_def moved_rows resent_row)
  next
    case no_ack: False
    then show ?thesis using run admissible_sent[of act i t r] assms
      by (simp add: conclude_sent_def concluded_def moved_rows plain_move)
  qed
qed

lemma conclude_failed_row:
  assumes "who act i" "rows d outbox i = Some r1" "r1 ''status'' = CText ''delivering''" "quiet w"
  shows "\<exists>k d' r'. conclude_failed act t w i r err d = (Inr k, d') \<and> rows d' outbox i = Some r' \<and>
     (\<forall>j. j \<noteq> i \<longrightarrow> rows d' outbox j = rows d outbox j) \<and> concluded t r False err k r' \<and>
     r' ''attempt'' = r1 ''attempt'' \<and> r' ''max_attempts'' = r1 ''max_attempts''"
proof -
  let ?d = "note_error err t i d" and ?r = "r1(''last_error'' := CText err, ''updated_at'' := CNum t)"
  have d: "rows ?d outbox i = Some ?r" "\<And>j. j \<noteq> i \<Longrightarrow> rows ?d outbox j = rows d outbox j"
    "?r ''status'' = CText ''delivering''"
    using assms(2,3) by (simp_all add: note_error_def)
  have w: "before_outcome w x = x" "before_backoff w x = x" for x using assms(4) by (simp_all add: quiet_def)
  show ?thesis
  proof (cases "exhausted r")
    case True
    then show ?thesis
      using quiet_conclusion[of "dead_letter_request act i r err" ?d ?r w Dead_letter]
        admissible_dead_letter[of act i r err] assms(1,4) d
      by (simp add: conclude_failed_def w concluded_def moved_rows plain_move)
  next
    case False
    then show ?thesis
      using quiet_conclusion[of "retry_request act i r err" ?d ?r w Retried]
        admissible_retry[of act i r err] assms(1,4) d
      by (simp add: conclude_failed_def w concluded_def moved_rows plain_move set_backoff_def)
  qed
qed

lemma quiet_expire:
  assumes "who act i" "rows d outbox i = Some r" "due t r" "quiet w"
  shows "counting k (move_row (expire_request act i r) (claim_env w) d) =
     (Inr (Some k), moved (expire_request act i r) (claim_env w) d)"
proof -
  obtain s where s: "r ''status'' = CText s" "admissible (expire_request act i r) s"
    using admissible_expire[of act i t r, OF assms(1,3)] by blast
  show ?thesis
    using quiet_move[of "expire_request act i r" s d r "claim_env w", OF s(2)] assms s(1)
    by (simp add: counting_def quiet_def)
qed

lemma deliver_quietly:
  assumes "who act i" "rows d outbox i = Some r" "due t r" "quiet w" "r ''attempt'' = CNum n"
    "deliver_one_due_row tr act t w i r d = (res, d', procs)" "send tr r = ((ok, err), started_procs)"
  shows "\<exists>r' k. rows d' outbox i = Some r' \<and> (\<forall>j. j \<noteq> i \<longrightarrow> rows d' outbox j = rows d outbox j) \<and> res = Inr k \<and>
     r' ''max_attempts'' = r ''max_attempts'' \<and>
     (if past_deadline t r
      then k = Some Expired \<and> procs = [] \<and> r' ''status'' = CText ''expired'' \<and> r' ''attempt'' = CNum n
      else procs = started_procs \<and> r' ''attempt'' = CNum (n + 1) \<and> concluded t r ok err k r')"
proof (cases "past_deadline t r")
  case True
  have "res = Inr (Some Expired)" "d' = moved (expire_request act i r) (claim_env w) d" "procs = []"
    using assms(6) quiet_expire[of act i d r t w Expired, OF assms(1-4)] True by (simp_all add: deliver_one_due_row_def)
  then show ?thesis using True assms(2,5) by (simp add: moved_rows plain_move)
next
  case False
  let ?d = "moved (claim_request act t i r) (claim_env w) d"
  let ?r = "r(''status'' := CText ''delivering'', ''updated_at'' := CNum (now (claim_env w)),
              ''attempt'' := CNum (next_attempt r), ''next_attempt_at'' := CNum (t + claim_lease_seconds))"
  have claimed: "rows ?d outbox i = Some ?r" "\<And>j. j \<noteq> i \<Longrightarrow> rows ?d outbox j = rows d outbox j"
    using assms(2) by (simp_all add: moved_rows claim_row)
  have w: "during_send w x = x" for x using assms(4) by (simp add: quiet_def)
  have n: "?r ''attempt'' = CNum (n + 1)" "?r ''status'' = CText ''delivering''"
    using assms(5) by (simp_all add: next_attempt_def num_of_def)
  let ?rest = "if ok then conclude_sent act t (outcome_env w) i r ?d else conclude_failed act t w i r err ?d"
  have run: "(res, d') = ?rest" "procs = started_procs"
    using assms(6) False quiet_claim[of act i d r t w n, OF assms(1-5)] assms(7)
    by (auto simp: deliver_one_due_row_def w split: prod.splits)
  have "\<exists>k d' r'. ?rest = (Inr k, d') \<and> rows d' outbox i = Some r' \<and>
     (\<forall>j. j \<noteq> i \<longrightarrow> rows d' outbox j = rows ?d outbox j) \<and> concluded t r ok err k r' \<and>
     r' ''attempt'' = ?r ''attempt'' \<and> r' ''max_attempts'' = ?r ''max_attempts''"
  proof (cases ok)
    case True
    then show ?thesis
      using conclude_sent_row[of act i ?d ?r w t r err, OF assms(1) claimed(1) n(2) assms(4)] by simp
  next
    case no: False
    then show ?thesis
      using conclude_failed_row[of act i ?d ?r w t r err, OF assms(1) claimed(1) n(2) assms(4)] by simp
  qed
  then obtain k d2 r' where concl: "?rest = (Inr k, d2)" "rows d2 outbox i = Some r'"
     "\<forall>j. j \<noteq> i \<longrightarrow> rows d2 outbox j = rows ?d outbox j" "concluded t r ok err k r'"
     "r' ''attempt'' = ?r ''attempt''" "r' ''max_attempts'' = r ''max_attempts''" by auto
  then have "res = Inr k" "d2 = d'" using run(1) by simp_all
  then show ?thesis using concl False run(2) claimed(2) n(1) by (auto simp del: fun_upd_apply)
qed

text \<open>
  C22. What one delivery does, when nothing interferes with it.  A row past its deadline expires
  without being sent.  Any other due row is claimed with its attempt counted and its transport run
  once; success without acknowledgement delivers it; success with acknowledgement outstanding puts it
  back to pending with its backoff, and failure does so too with the error noted, unless the attempt
  used up \<open>max_attempts\<close>, which dead-letters it.  No other row changes.
\<close>

theorem delivery_outcome:
  assumes "actor_type act \<noteq> []" "i \<noteq> []" "rows d outbox i = Some r" "due t r" "quiet w" "r ''attempt'' = CNum n"
  shows "let (res, d', procs) = deliver_one_due_row tr act t w i r d; ((ok, err), run_procs) = send tr r in
     \<exists>r'. rows d' outbox i = Some r' \<and> (\<forall>j. j \<noteq> i \<longrightarrow> rows d' outbox j = rows d outbox j) \<and>
     (if past_deadline t r
      then res = Inr (Some Expired) \<and> procs = [] \<and> r' ''status'' = CText ''expired'' \<and> r' ''attempt'' = CNum n
      else procs = run_procs \<and> r' ''attempt'' = CNum (n + 1) \<and>
        (if ok \<and> \<not> cell_true (r ''ack_required'')
         then res = Inr (Some Delivered) \<and> r' ''status'' = CText ''delivered''
         else if num_of (r ''max_attempts'') \<le> n + 1
         then res = Inr (Some Dead_letter) \<and> r' ''status'' = CText ''dead_letter''
         else res = Inr (Some (if ok then Delivered else Retried)) \<and> r' ''status'' = CText ''pending'' \<and>
              r' ''next_attempt_at'' = CNum (t + backoff_seconds (nat \<lfloor>n + 1\<rfloor>))) \<and>
        (\<not> ok \<longrightarrow> r' ''last_error'' = CText err))"
proof -
  obtain res d' procs where run: "deliver_one_due_row tr act t w i r d = (res, d', procs)" by (metis prod_cases3)
  obtain ok err started_procs where sent: "send tr r = ((ok, err), started_procs)" by (metis surj_pair)
  have "who act i" using assms(1,2) by (simp add: who_def)
  note this = deliver_quietly[of act i d r t w n tr res d' procs ok err started_procs, OF this assms(3-6) run sent]
  moreover have "next_attempt r = n + 1" using assms(6) by (simp add: next_attempt_def num_of_def)
  ultimately show ?thesis
    by (auto simp: run sent Let_def concluded_def exhausted_def backoff_of_def split: if_splits)
qed

section \<open>Delivery comes to an end\<close>

text \<open>Scan after scan for one row; each has its time, its transport and its world.\<close>

type_synonym scan = "rat \<times> transport \<times> world"

fun deliveries :: "actor \<Rightarrow> string \<Rightarrow> scan list \<Rightarrow> db \<Rightarrow> db \<times> started" where
  "deliveries act i [] d = (d, [])"
| "deliveries act i ((t, tr, w) # scans) d =
     (case rows d outbox i of
        None \<Rightarrow> deliveries act i scans d
      | Some r \<Rightarrow>
          if \<not> due t r then deliveries act i scans d
          else (case deliver_one_due_row tr act t w i r d of
                  (_, d1, procs) \<Rightarrow>
                    (case deliveries act i scans d1 of (d2, procs') \<Rightarrow> (d2, procs @ procs'))))"

definition at_rest :: "row \<Rightarrow> bool" where
  "at_rest r \<longleftrightarrow> r ''status'' \<in> {CText ''delivered'', CText ''dead_letter'', CText ''expired''}"

text \<open>Every scan comes at least the longest backoff after the one before it.\<close>

fun spaced :: "rat \<Rightarrow> scan list \<Rightarrow> bool" where
  "spaced t [] \<longleftrightarrow> True"
| "spaced t ((u, _, _) # scans) \<longleftrightarrow> t + 1800 \<le> u \<and> spaced u scans"

lemma backoff_bounds: "30 \<le> backoff_seconds n" "backoff_seconds n \<le> 1800"
proof -
  have "(1 :: rat) \<le> 2 ^ n" by simp
  then show "30 \<le> backoff_seconds n" "backoff_seconds n \<le> 1800" by (simp_all add: backoff_seconds_def)
qed

lemma deliveries_at_rest:
  "rows d outbox i = Some r \<Longrightarrow> at_rest r \<Longrightarrow> deliveries act i scans d = (d, [])"
  by (induction scans) (auto simp: at_rest_def due_def)

lemma send_once: "length (snd (send tr r)) \<le> 1"
  by (simp add: send_def exec_notify_template_def Let_def split: option.split)

lemma one_delivery:
  assumes "who act i" "rows d outbox i = Some r" "due t r" "quiet w" "r ''attempt'' = CNum (of_nat n)"
    "r ''max_attempts'' = CNum (of_int m)" "deliver_one_due_row tr act t w i r d = (res, d', procs)"
  shows "length procs \<le> 1 \<and> (\<exists>r'. rows d' outbox i = Some r' \<and>
     (at_rest r' \<or>
      r' ''status'' = CText ''pending'' \<and> r' ''attempt'' = CNum (of_nat (Suc n)) \<and>
      r' ''max_attempts'' = CNum (of_int m) \<and> int n + 1 < m \<and>
      (\<forall>u. t + 1800 \<le> u \<longrightarrow> due u r')))"
proof -
  obtain ok err ps where sent: "send tr r = ((ok, err), ps)" by (metis surj_pair)
  then have ps: "length ps \<le> 1" using send_once[of tr r] by simp
  obtain r' k where r': "rows d' outbox i = Some r'" "r' ''max_attempts'' = r ''max_attempts''"
    "if past_deadline t r
      then k = Some Expired \<and> procs = [] \<and> r' ''status'' = CText ''expired'' \<and> r' ''attempt'' = CNum (of_nat n)
      else procs = ps \<and> r' ''attempt'' = CNum (of_nat n + 1) \<and> concluded t r ok err k r'"
    using deliver_quietly[of act i d r t w "of_nat n" tr res d' procs ok err ps, OF assms(1-5,7) sent] by blast
  have ex: "exhausted r \<longleftrightarrow> m \<le> int n + 1"
    using of_int_le_iff[of m "int n + 1", where ?'a = rat] assms(5,6)
    by (simp add: exhausted_def next_attempt_def num_of_def)
  have due: "due u r'" if "r' ''status'' = CText ''pending''" "r' ''next_attempt_at'' = CNum (t + backoff_of r)"
    "t + 1800 \<le> u" for u
    using that backoff_bounds(2)[of "nat \<lfloor>next_attempt r\<rfloor>"] by (simp add: due_def backoff_of_def)
  show ?thesis
  proof (cases "past_deadline t r")
    case True
    then show ?thesis using r' by (auto simp: at_rest_def)
  next
    case False
    then have "at_rest r' \<or> \<not> exhausted r \<and> r' ''status'' = CText ''pending'' \<and>
        r' ''next_attempt_at'' = CNum (t + backoff_of r)"
      using r'(3) by (auto simp: concluded_def at_rest_def split: if_splits)
    moreover have "length procs \<le> 1" "r' ''attempt'' = CNum (of_nat (Suc n))" using r'(3) False ps by (auto simp: add.commute)
    ultimately show ?thesis using r'(1,2) ex due assms(6) by auto
  qed
qed

lemma deliveries_bounded:
  assumes "who act i" "rows d outbox i = Some r"
    "r ''status'' = CText ''pending'' \<or> r ''status'' = CText ''delivering''" "r ''attempt'' = CNum (of_nat n)"
    "r ''max_attempts'' = CNum (of_int m)" "\<forall>(t, tr, w) \<in> set scans. quiet w"
  shows "length (snd (deliveries act i scans d)) \<le> max 1 (nat (m - int n)) \<and>
     (case scans of [] \<Rightarrow> True | (t, _, _) # scans' \<Rightarrow>
        due t r \<longrightarrow> spaced t scans' \<longrightarrow> max 1 (nat (m - int n)) \<le> length scans \<longrightarrow>
        (\<exists>r'. rows (fst (deliveries act i scans d)) outbox i = Some r' \<and> at_rest r'))"
  using assms(2-6)
proof (induction scans arbitrary: d r n)
  case Nil
  then show ?case by simp
next
  case (Cons scan scans)
  obtain t tr w where scan: "scan = (t, tr, w)" by (metis prod_cases3)
  have quiet: "quiet w" "\<forall>(t, tr, w) \<in> set scans. quiet w" using Cons.prems(5) by (auto simp: scan)
  show ?case
  proof (cases "due t r")
    case False
    then show ?thesis using Cons.IH[OF Cons.prems(1-4) quiet(2)] Cons.prems(1) by (simp add: scan)
  next
    case True
    obtain res d1 procs where run: "deliver_one_due_row tr act t w i r d = (res, d1, procs)" by (metis prod_cases3)
    obtain r1 where procs: "length procs \<le> 1" and r1: "rows d1 outbox i = Some r1"
      "at_rest r1 \<or> r1 ''status'' = CText ''pending'' \<and> r1 ''attempt'' = CNum (of_nat (Suc n)) \<and>
        r1 ''max_attempts'' = CNum (of_int m) \<and> int n + 1 < m \<and> (\<forall>u. t + 1800 \<le> u \<longrightarrow> due u r1)"
      using one_delivery[of act i d r t w n m tr, OF assms(1) Cons.prems(1) True quiet(1) Cons.prems(3,4) run] by blast
    have step: "deliveries act i (scan # scans) d =
        (fst (deliveries act i scans d1), procs @ snd (deliveries act i scans d1))"
      using Cons.prems(1) True by (simp add: scan run split: prod.split)
    from r1(2) show ?thesis
    proof
      assume "at_rest r1"
      then show ?thesis
        using procs r1(1) deliveries_at_rest[of d1 i r1 act scans] unfolding step by (simp add: scan)
    next
      assume r1': "r1 ''status'' = CText ''pending'' \<and> r1 ''attempt'' = CNum (of_nat (Suc n)) \<and>
        r1 ''max_attempts'' = CNum (of_int m) \<and> int n + 1 < m \<and> (\<forall>u. t + 1800 \<le> u \<longrightarrow> due u r1)"
      have budget: "max 1 (nat (m - int n)) = Suc (max 1 (nat (m - int (Suc n))))" using r1' by auto
      note IH = Cons.IH[of d1 r1 "Suc n", OF r1(1) _ _ _ quiet(2)]
      show ?thesis unfolding step budget
        using IH r1' procs by (cases scans) (auto simp: scan simp del: deliveries.simps(2))
    qed
  qed
qed

text \<open>
  C21. Delivery is bounded and comes to an end.  From a pending row with \<open>n\<close> attempts of \<open>m\<close>, any
  number of undisturbed scans starts the transport at most \<open>m - n\<close> times (once if the attempts are
  already used up); and that many scans, the first when the row is due and each at least the longest
  backoff after the one before, leave the row delivered, dead-lettered or expired.
\<close>

theorem delivery_bounded:
  assumes "actor_type act \<noteq> []" "i \<noteq> []" "rows d outbox i = Some r" "r ''status'' = CText ''pending''"
    "r ''attempt'' = CNum (of_nat n)" "r ''max_attempts'' = CNum (of_int m)"
    "\<forall>(t, tr, w) \<in> set scans. quiet w"
  shows "length (snd (deliveries act i scans d)) \<le> max 1 (nat (m - int n)) \<and>
     (\<forall>t tr w scans'. scans = (t, tr, w) # scans' \<longrightarrow> due t r \<longrightarrow> spaced t scans' \<longrightarrow>
        max 1 (nat (m - int n)) \<le> length scans \<longrightarrow>
        (\<exists>r'. rows (fst (deliveries act i scans d)) outbox i = Some r' \<and>
              r' ''status'' \<in> {CText ''delivered'', CText ''dead_letter'', CText ''expired''}))"
proof -
  have "who act i" using assms(1,2) by (simp add: who_def)
  from deliveries_bounded[of act i d r n m scans, OF this assms(3) _ assms(5-7)] assms(4)
  show ?thesis unfolding at_rest_def by auto
qed

section \<open>A snapshot is claimed once\<close>

text \<open>The transactions the operations commit, interleaved in any order.\<close>

datatype outbox_call =
    Add enqueue_request draw
  | Expire_row actor string row rat string
  | Claim_row actor rat string row rat string
  | Settle_sent actor rat string row rat string
  | Note_failure string rat string
  | Bury actor string row string rat string
  | Requeue actor string row string rat string
  | Back_off rat string
  | Ack string string rat string
  | Force_retry string rat rat string
  | Purge string string
  | Purge_many "string option" "rat option" string

fun outbox_step :: "(db \<Rightarrow> string list) \<Rightarrow> (dispatch_signal \<Rightarrow> string) \<Rightarrow> db \<Rightarrow> outbox_call \<Rightarrow> db" where
  "outbox_step listing to_json d (Add q w) = snd (enqueue_dispatch listing to_json q w d)"
| "outbox_step listing to_json d (Expire_row act i r u tid) =
     fst (snd (move_row (expire_request act i r) (alone u tid) d))"
| "outbox_step listing to_json d (Claim_row act t i r u tid) =
     fst (snd (move_row (claim_request act t i r) (alone u tid) d))"
| "outbox_step listing to_json d (Settle_sent act t i r u tid) = snd (conclude_sent act t (alone u tid) i r d)"
| "outbox_step listing to_json d (Note_failure err t i) = note_error err t i d"
| "outbox_step listing to_json d (Bury act i r err u tid) =
     fst (snd (move_row (dead_letter_request act i r err) (alone u tid) d))"
| "outbox_step listing to_json d (Requeue act i r err u tid) =
     fst (snd (move_row (retry_request act i r err) (alone u tid) d))"
| "outbox_step listing to_json d (Back_off t i) = set_backoff t i d"
| "outbox_step listing to_json d (Ack i token u tid) = snd (ack_dispatch i token (\<lambda>d. d) (alone u tid) d)"
| "outbox_step listing to_json d (Force_retry i t u tid) = snd (retry_dispatch i t (\<lambda>d. d) (alone u tid) d)"
| "outbox_step listing to_json d (Purge i act) = fst (snd (purge_dispatch i act (\<lambda>d. d) d))"
| "outbox_step listing to_json d (Purge_many st before act) =
     fst (snd (purge_dispatches listing st before False act d))"

text \<open>Only an operator's retry, or a new row under the old identifier, sets attempts back.\<close>

fun reopens :: "string \<Rightarrow> outbox_call \<Rightarrow> bool" where
  "reopens i (Force_retry j _ _ _) \<longleftrightarrow> j = i"
| "reopens i (Add _ w) \<longleftrightarrow> drawn_id w = i"
| "reopens i _ \<longleftrightarrow> False"

definition claimed :: "string \<Rightarrow> rat \<Rightarrow> db \<Rightarrow> bool" where
  "claimed i n d \<longleftrightarrow> (\<forall>r. rows d outbox i = Some r \<longrightarrow> n \<le> num_of (r ''attempt''))"

lemma dispatch_effect:
  assumes "req_type q = ''dispatch''" "move_row q e d = (res, d', evs)"
  shows "rows d' = rows d \<or> rows d' = rows (between e d) \<or>
     (\<exists>r. rows (between e d) outbox (req_id q) = Some r \<and> list_all (\<lambda>(k, v). sql_eq (r k) v) (req_guard q) \<and>
        rows d' = (rows (between e d))(outbox := (rows (between e d) outbox)(req_id q \<mapsto> moved_row q (now e) r)))"
proof -
  obtain res0 where run: "d' = d \<or>
      transition_in default_registry (legacy_command q) (legacy_args q) e d = (res0, d', evs)"
    using assms(2)
    by (auto simp: legacy_transition_def run_legacy_transition_def split: option.splits if_splits prod.splits sum.splits)
  show ?thesis
  proof (cases "d' = d \<or> (\<forall>out. res0 = Inr out \<longrightarrow> transition_id out = None)")
    case True
    then show ?thesis
      using run transition_in_unwritten[of default_registry "legacy_command q" "legacy_args q" e d res0 d' evs] by auto
  next
    case False
    then obtain out where out: "res0 = Inr out" "transition_id out \<noteq> None" by blast
    have run: "transition_in default_registry (legacy_command q) (legacy_args q) e d = (Inr out, d', evs)"
      using run False out(1) by simp
    obtain p r logged where p: "get_policy (cmd_type (legacy_command q)) default_registry = Inr p"
      and commit: "commit p (legacy_command q) (legacy_args q) e r logged (between e d) = (Inr out, d', evs)"
      using transition_in_allowed[OF run not_applied_unwritten[OF run out(2)] out(2)] by blast
    have "p = dispatch_policy" using p get_dispatch_policy assms(1) by simp
    note commit = commit[unfolded this]
    show ?thesis
    proof (rule commit_applied[OF commit not_applied_unwritten[OF run out(2)]])
      fix patch' r'
      assume patch': "final_patch dispatch_policy (legacy_command q) r (now e) = Inr patch'"
        and r': "rows (between e d) (table dispatch_policy) (cmd_id (legacy_command q)) = Some r'"
        "row_selected ((legacy_command q)\<lparr>patch := patch'\<rparr>) (extra_guard (legacy_args q)) (status_text (r ''status'')) r'"
        and d': "d' = (log_override (legacy_command q) logged (status_text (r ''status'')) (now e) (between e d))
            \<lparr>rows := (rows (between e d))(table dispatch_policy := (rows (between e d) (table dispatch_policy))
                (cmd_id (legacy_command q) \<mapsto>
                   updated_row (write_reason (legacy_args q)) ((legacy_command q)\<lparr>patch := patch'\<rparr>) (now e) r')),
             history := history (between e d)
               @ [history_row (legacy_command q) (status_text (r ''status'')) (fresh_id e) (now e)]\<rparr>"
      have "patch' = req_patch q" using patch' assms(1) by (simp add: final_patch_def session_ends_def)
      then show ?thesis using r' by (simp add: d' moved_row_def row_selected_def)
    qed
  qed
qed

lemma claimed_move:
  assumes "req_type q = ''dispatch''" "claimed i n d" "\<And>d. between e d = d"
    "\<And>r. req_id q = i \<Longrightarrow> list_all (\<lambda>(k, v). sql_eq (r k) v) (req_guard q) \<Longrightarrow> n \<le> num_of (r ''attempt'') \<Longrightarrow>
       n \<le> num_of (moved_row q (now e) r ''attempt'')"
  shows "claimed i n (fst (snd (move_row q e d)))"
proof -
  obtain res d' evs where run: "move_row q e d = (res, d', evs)" by (metis prod_cases3)
  show ?thesis
    using dispatch_effect[OF assms(1) run] assms(2,4) unfolding run assms(3)
    by (auto simp: claimed_def split: if_splits)
qed

lemma moved_attempt:
  "''attempt'' \<notin> set (dkeys (req_patch q)) \<Longrightarrow> moved_row q t r ''attempt'' = r ''attempt''"
  unfolding moved_cell by (rule set_columns_other) auto

lemma request_types [simp]:
  "req_type (expire_request act i r) = ''dispatch''" "req_type (claim_request act t i r) = ''dispatch''"
  "req_type (ack_timeout_request act i r) = ''dispatch''" "req_type (sent_request act t i r) = ''dispatch''"
  "req_type (dead_letter_request act i r err) = ''dispatch''" "req_type (retry_request act i r err) = ''dispatch''"
  by (simp_all add: expire_request_def ack_timeout_request_def dead_letter_request_def retry_request_def
      sent_request_def claim_request_def Let_def)

lemma claimed_plain:
  "req_type q = ''dispatch'' \<Longrightarrow> claimed i n d \<Longrightarrow> ''attempt'' \<notin> set (dkeys (req_patch q)) \<Longrightarrow>
   claimed i n (fst (snd (move_row q (alone u tid) d)))"
  by (rule claimed_move) (simp_all add: moved_attempt)

lemma claimed_other:
  "req_type q = ''dispatch'' \<Longrightarrow> claimed i n d \<Longrightarrow> req_id q \<noteq> i \<Longrightarrow> claimed i n (fst (snd (move_row q (alone u tid) d)))"
  by (rule claimed_move) simp_all

lemma claimed_delete: "claimed i n d \<Longrightarrow> claimed i n (delete_rows is d)"
  by (simp add: claimed_def delete_rows_def)

lemma claimed_chunks: "claimed i n d \<Longrightarrow> claimed i n (delete_chunks is d)"
proof (induction "is" d rule: delete_chunks.induct)
  case (1 "is" d)
  then show ?case by (subst delete_chunks.simps) (simp add: claimed_delete)
qed

lemma counting_db: "snd (counting k run) = fst (snd run)"
  by (simp add: counting_def split: prod.split sum.split)

lemma claimed_step:
  assumes "\<not> reopens i call" "claimed i n d"
  shows "claimed i n (outbox_step listing to_json d call)"
proof (cases call)
  case (Add q w)
  then show ?thesis using assms
    by (auto simp: claimed_def enqueue_dispatch_def insert_dispatch_def split: option.split)
next
  case (Claim_row act t j r u tid)
  have "claimed i n (fst (snd (move_row (claim_request act t j r) (alone u tid) d)))"
    by (rule claimed_move) (use assms(2) in \<open>auto simp: claim_row sql_eq_def next_attempt_def num_of_def\<close>)
  then show ?thesis by (simp add: Claim_row)
next
  case (Ack j token u tid)
  have "claimed i n (fst (snd (move_row (dispatch_request act j frm ''acked'' rc sm [] []) (alone u tid) d)))"
    for act frm rc sm by (rule claimed_plain) (simp_all add: assms(2))
  then show ?thesis using assms(2)
    by (auto simp: Ack ack_dispatch_def split: option.split prod.split sum.split) (metis fst_conv snd_conv)+
next
  case (Force_retry j t u tid)
  have "claimed i n (fst (snd (move_row (dispatch_request act j frm ''pending'' rc sm [] p) (alone u tid) d)))"
    for act frm rc sm p by (rule claimed_other) (use assms in \<open>simp_all add: Force_retry\<close>)
  then show ?thesis using assms(2)
    by (auto simp: Force_retry retry_dispatch_def split: option.split prod.split sum.split) (metis fst_conv snd_conv)+
next
  case (Settle_sent act t j r u tid)
  then show ?thesis using assms(2)
    by (auto simp: conclude_sent_def counting_db intro: claimed_plain)
next
  case (Expire_row act j r u tid)
  then show ?thesis using assms(2) by (simp add: claimed_plain)
next
  case (Bury act j r err u tid)
  then show ?thesis using assms(2) by (simp add: claimed_plain)
next
  case (Requeue act j r err u tid)
  then show ?thesis using assms(2) by (simp add: claimed_plain)
next
  case (Note_failure err t j)
  then show ?thesis using assms(2) by (simp add: claimed_def note_error_def split: option.split)
next
  case (Back_off t j)
  then show ?thesis using assms(2) by (simp add: claimed_def set_backoff_def split: option.split)
next
  case (Purge j act)
  then show ?thesis using assms(2) claimed_delete by (simp add: purge_dispatch_def split: option.split)
next
  case (Purge_many st before act)
  then show ?thesis using assms(2) claimed_chunks by (simp add: purge_dispatches_def Let_def)
qed

lemma claimed_run:
  "list_all (\<lambda>call. \<not> reopens i call) calls \<Longrightarrow> claimed i n d \<Longrightarrow>
   claimed i n (foldl (outbox_step listing to_json) d calls)"
  by (induction calls arbitrary: d) (simp_all add: claimed_step)

lemma claim_applied:
  assumes "who act i" "due t r" "move_row (claim_request act t i r) e d = (Inr res, d', evs)" "applied res"
  shows "claimed i (next_attempt r) d'"
proof -
  obtain s where s: "admissible (claim_request act t i r) s"
    using admissible_claim[of act i r t, OF assms(1) due_status[of t r, OF assms(2)]] by blast
  have "d' = moved (claim_request act t i r) e (between e d)"
    using assms(3,4) unfolding legacy_dispatch[OF s] by (auto split: option.splits if_splits)
  then show ?thesis by (simp add: claimed_def moved_rows claim_row num_of_def)
qed

lemma stale_claim:
  assumes "who act i" "due t r" "claimed i (next_attempt r) d"
  shows "fst (move_row (claim_request act t i r) e d) = Inl LookupError \<or>
     (\<exists>s. fst (move_row (claim_request act t i r) e d) = Inr (refused s e))"
proof -
  obtain s where s: "admissible (claim_request act t i r) s"
    using admissible_claim[of act i r t, OF assms(1) due_status[of t r, OF assms(2)]] by blast
  have "r' ''attempt'' \<noteq> r ''attempt''" if "rows d outbox i = Some r'" for r'
    using assms(3) that by (auto simp: claimed_def next_attempt_def)
  then show ?thesis unfolding legacy_dispatch[OF s] by (auto split: option.split)
qed

text \<open>
  C20. A scanned row is claimed once.  When two scanners have read the same due row and one of them has
  claimed it, the other sends nothing, whatever transactions of any scanner, consumer or operator come
  in between (claims, conclusions, acknowledgements, purges, new rows), as long as no operator forces a
  retry of that dispatch and its identifier is not drawn anew.  It counts nothing either, unless the
  deadline of the row has passed at its own scan: then it does not try to claim, but may expire the row
  and count that.
\<close>

theorem claimed_once:
  assumes "actor_type act \<noteq> []" "actor_type act' \<noteq> []" "i \<noteq> []" "due t r" "due t' r"
    "move_row (claim_request act t i r) e d = (Inr res, d1, evs)" "applied res"
    "list_all (\<lambda>call. \<not> reopens i call) calls"
  shows "let (res', d', procs) =
           deliver_one_due_row tr act' t' w i r (foldl (outbox_step listing to_json) d1 calls)
     in procs = [] \<and> (res' = Inl LookupError \<or> res' = Inr None \<or> past_deadline t' r \<and> res' = Inr (Some Expired))"
proof -
  let ?d = "foldl (outbox_step listing to_json) d1 calls"
  have who: "who act i" "who act' i" using assms(1-3) by (simp_all add: who_def)
  show ?thesis
  proof (cases "past_deadline t' r")
    case True
    obtain s where "admissible (expire_request act' i r) s"
      using admissible_expire[of act' i t' r, OF who(2) assms(5)] by blast
    then have "fst (counting Expired (move_row (expire_request act' i r) (claim_env w) ?d))
        \<in> {Inl LookupError, Inr None, Inr (Some Expired)}" by (rule counting_result)
    then show ?thesis using True by (auto simp: deliver_one_due_row_def split: prod.splits)
  next
    case False
    have "claimed i (next_attempt r) ?d"
      by (rule claimed_run[OF assms(8) claim_applied[OF who(1) assms(4,6,7)]])
    note stale = stale_claim[OF who(2) assms(5) this, of "claim_env w"]
    then show ?thesis using False
      by (cases "move_row (claim_request act' t' i r) (claim_env w) ?d") (auto simp: deliver_one_due_row_def)
  qed
qed

text \<open>
  A claim lasts until fifteen seconds after the scan began, not after the claim was made: in a long
  scan a row can be due again for another scanner while its transport is still running.
\<close>

lemma lease_from_scan_time:
  assumes "who act i" "rows d outbox i = Some r" "due t r" "quiet w" "r ''attempt'' = CNum n"
  shows "\<exists>d' r'. move_row (claim_request act t i r) (claim_env w) d = (Inr (accepted (claim_request act t i r) (claim_env w)), d', [])
     \<and> rows d' outbox i = Some r' \<and> r' ''updated_at'' = CNum (now (claim_env w)) \<and>
     (\<forall>t'. t + 15 \<le> t' \<longrightarrow> due t' r')"
  using quiet_claim[of act i d r t w n, OF assms]
  by (simp add: moved_rows claim_row due_def claim_lease_seconds_def)

section \<open>Operators\<close>

text \<open>
  C25. A forced retry of an expired dispatch never sends it.  \<open>retry_dispatch\<close> accepts the row, puts it
  back to pending and reports success, but leaves its deadline in the past: the next scan that finds
  it due expires it again without starting the transport.
\<close>

theorem retry_of_expired_expires:
  assumes "actor_type act \<noteq> []" "i \<noteq> []" "rows d outbox i = Some r" "r ''status'' = CText ''expired''"
    "r ''expires_at'' = CNum x" "x \<le> t" "t \<le> t'" "quiet w"
  shows "let (res, d1) = retry_dispatch i t (\<lambda>d. d) (alone u tid) d in
     res = Inr True \<and> (\<exists>r1. rows d1 outbox i = Some r1 \<and> due t' r1 \<and>
       (let (res2, d2, procs) = deliver_one_due_row tr act t' w i r1 d1 in
          res2 = Inr (Some Expired) \<and> procs = [] \<and> (\<exists>r2. rows d2 outbox i = Some r2 \<and> r2 ''status'' = CText ''expired'')))"
proof -
  let ?q = "dispatch_request \<lparr>actor_type = ''operator'', actor_id = Some ''li_dispatch_retry''\<rparr> i
     (Some ''expired'') ''pending'' ''dispatch.pending.retry_backoff'' ''operator-forced retry'' []
     [(''attempt'', CNum 0), (''next_attempt_at'', CNum t), (''last_error'', CNull)]"
  let ?d = "moved ?q (alone u tid) d"
  let ?r = "r(''status'' := CText ''pending'', ''updated_at'' := CNum u, ''attempt'' := CNum 0,
              ''next_attempt_at'' := CNum t, ''last_error'' := CNull)"
  have "admissible ?q ''expired''"
    using assms(2)
    by (simp add: admissible_def judge_moves dispatch_statuses_members dispatch_reason_codes dispatch_columns_def
        patch_columns_def dispatch_fields_def)
  from quiet_move[OF this, of d r "alone u tid"] assms(3,4)
  have run: "move_row ?q (alone u tid) d = (Inr (accepted ?q (alone u tid)), ?d, [])" by simp
  then have retry: "retry_dispatch i t (\<lambda>d. d) (alone u tid) d = (Inr True, ?d)"
    using assms(3,4) by (simp add: retry_dispatch_def status_text_def)
  have "moved_row ?q u r = ?r" by (rule ext) (simp add: moved_cell set_columns_def)
  then have row: "rows ?d outbox i = Some ?r" using assms(3) by (simp add: moved_rows alone_def)
  have now: "due t' ?r" "past_deadline t' ?r" using assms(5-7) by (simp_all add: due_def past_deadline_def)
  have who: "who act i" using assms(1,2) by (simp add: who_def)
  have again: "deliver_one_due_row tr act t' w i ?r ?d =
      (Inr (Some Expired), moved (expire_request act i ?r) (claim_env w) ?d, [])"
    using quiet_expire[of act i ?d ?r t' w Expired, OF who row now(1) assms(8)] now(2)
    by (simp add: deliver_one_due_row_def del: fun_upd_apply)
  have "\<exists>r2. rows (moved (expire_request act i ?r) (claim_env w) ?d) outbox i = Some r2 \<and>
      r2 ''status'' = CText ''expired''"
    by (simp add: moved_rows moved_cell set_columns_def)
  then show ?thesis using row now(1) unfolding retry Let_def prod.case by (intro conjI exI[of _ ?r]) (simp_all add: again del: fun_upd_apply)
qed

lemma delete_chunks_rows:
  "rows (delete_chunks is d) outbox j = (if j \<in> set is then None else rows d outbox j)"
proof (induction "is" d rule: delete_chunks.induct)
  case (1 "is" d)
  have "set is = set (take 500 is) \<union> set (drop 500 is)" by (metis append_take_drop_id set_append)
  then show ?case using 1 by (subst delete_chunks.simps) (auto simp: delete_rows_def)
qed

lemma purge_matches_ids:
  "set (map fst (purge_matches listing st before d)) =
     {i \<in> set (listing d). \<exists>r. rows d outbox i = Some r \<and> purge_selects st before r}"
  by (auto simp: purge_matches_def image_Union split: option.splits if_splits) force+

lemma purge_matches_distinct:
  "distinct (listing d) \<Longrightarrow> distinct (map fst (purge_matches listing st before d))"
proof -
  have "map fst (concat (map (\<lambda>i. case rows d outbox i of None \<Rightarrow> [] |
       Some r \<Rightarrow> if purge_selects st before r then [(i, text_of (r ''status''))] else []) xs)) =
     filter (\<lambda>i. \<exists>r. rows d outbox i = Some r \<and> purge_selects st before r) xs" for xs
    by (induction xs) (auto split: option.split)
  then show "distinct (listing d) \<Longrightarrow> distinct (map fst (purge_matches listing st before d))"
    by (simp add: purge_matches_def)
qed

lemma sum_dset:
  "distinct (dkeys c) \<Longrightarrow>
   sum_list (map snd (dset s ((case dget c s of None \<Rightarrow> 0 | Some n \<Rightarrow> n) + 1) c)) = sum_list (map snd c) + (1 :: nat)"
  by (induction c) auto

lemma tally_sum: "distinct (dkeys c) \<Longrightarrow>
   sum_list (map snd (foldl (\<lambda>c (i, s). dset s ((case dget c s of None \<Rightarrow> 0 | Some n \<Rightarrow> n) + 1) c) c ms))
     = sum_list (map snd c) + (length ms :: nat)"
proof (induction ms arbitrary: c)
  case (Cons m ms)
  then show ?case using sum_dset[of c "snd m"] by (simp add: split_beta)
qed simp

text \<open>
  A bulk purge deletes exactly the rows it selects, in chunks or not: a given status and a cut-off
  on \<open>updated_at\<close>, and without a status only rows that are delivered, acknowledged, dead-lettered or
  expired, never one still pending or being delivered.  The total and the counts per status agree with
  the rows deleted; a dry run counts the same and deletes nothing; without criteria it is refused.
\<close>

theorem purge_exact:
  assumes "distinct (listing d)" "set (listing d) = dom (rows d outbox)"
  shows "case purge_dispatches listing st before dry act d of
       (Inl err, d', evs) \<Rightarrow> err = ValueError \<and> st = None \<and> before = None \<and> d' = d \<and> evs = []
     | (Inr (n, by_status), d', evs) \<Rightarrow>
         (\<forall>i. rows d' outbox i =
            (case rows d outbox i of None \<Rightarrow> None
             | Some r \<Rightarrow> if \<not> dry \<and> purge_selects st before r then None else Some r)) \<and>
         n = card {i. \<exists>r. rows d outbox i = Some r \<and> purge_selects st before r} \<and>
         sum_list (map snd by_status) = n \<and> length evs = 1 \<and>
         (\<forall>i r. st = None \<longrightarrow> rows d outbox i = Some r \<longrightarrow>
            r ''status'' \<in> {CText ''pending'', CText ''delivering''} \<longrightarrow> rows d' outbox i = Some r)"
proof (cases "st = None \<and> before = None")
  case True
  then show ?thesis by (simp add: purge_dispatches_def)
next
  case False
  let ?ms = "purge_matches listing st before d"
  have ids: "set (map fst ?ms) = {i. \<exists>r. rows d outbox i = Some r \<and> purge_selects st before r}"
    unfolding purge_matches_ids assms(2) by auto
  have total: "length ?ms = card {i. \<exists>r. rows d outbox i = Some r \<and> purge_selects st before r}"
    using distinct_card[OF purge_matches_distinct[of listing d st before, OF assms(1)]] unfolding ids by simp
  have sum: "sum_list (map snd (tally_status ?ms)) = length ?ms"
    using tally_sum[of "[]" ?ms] by (simp add: tally_status_def)
  have spared: "\<not> purge_selects None before r" if "r ''status'' \<in> {CText ''pending'', CText ''delivering''}" for r
    using that by (auto simp: purge_selects_def terminal_dispatch_statuses_def sql_eq_def)
  have gone: "i \<in> set (map fst ?ms) \<longleftrightarrow> (\<exists>r. rows d outbox i = Some r \<and> purge_selects st before r)" for i
    unfolding ids by simp
  have "purge_dispatches listing st before dry act d =
      (Inr (length ?ms, tally_status ?ms), if dry then d else delete_chunks (map fst ?ms) d,
       [\<lparr>purge_target = None, purge_status = st, purge_before = before, purge_dry = dry,
         purge_total = length ?ms, purge_counts = tally_status ?ms, purge_actor = act\<rparr>])"
    using False unfolding purge_dispatches_def Let_def by (simp only: if_False)
  moreover have after: "rows (if dry then d else delete_chunks (map fst ?ms) d) outbox i =
      (case rows d outbox i of None \<Rightarrow> None
       | Some r \<Rightarrow> if \<not> dry \<and> purge_selects st before r then None else Some r)" for i
    by (simp add: delete_chunks_rows gone del: set_map split: option.split)
  moreover have "rows (if dry then d else delete_chunks (map fst ?ms) d) outbox i = Some r"
    if "st = None" "rows d outbox i = Some r" "r ''status'' \<in> {CText ''pending'', CText ''delivering''}" for i r
    unfolding after that(2) using spared[of r, OF that(3)] that(1) by simp
  ultimately show ?thesis using sum total by simp
qed

section \<open>Deduplication\<close>

definition keys_unique :: "db \<Rightarrow> bool" where
  "keys_unique d \<longleftrightarrow>
     (\<forall>i j r r' k. rows d outbox i = Some r \<longrightarrow> rows d outbox j = Some r' \<longrightarrow>
        r ''dedup_key'' = CText k \<longrightarrow> r' ''dedup_key'' = CText k \<longrightarrow> i = j)"

definition holds_key :: "db \<Rightarrow> string \<Rightarrow> string \<Rightarrow> bool" where
  "holds_key d k i \<longleftrightarrow> (\<exists>r. rows d outbox i = Some r \<and> r ''dedup_key'' = CText k)"

text \<open>The database lists every row of the table, whenever the rows lie in \<open>U\<close>.\<close>

definition lists_rows :: "(db \<Rightarrow> string list) \<Rightarrow> string set \<Rightarrow> bool" where
  "lists_rows listing U \<longleftrightarrow> (\<forall>d. dom (rows d outbox) \<subseteq> U \<longrightarrow> dom (rows d outbox) \<subseteq> set (listing d))"

lemma with_key_Some: "with_key listing k d = Some i \<Longrightarrow> holds_key d k i"
  by (auto simp: with_key_def find_Some_iff holds_key_def sql_eq_def split: option.splits)

lemma with_key_None:
  assumes "with_key listing k d = None" "i \<in> set (listing d)"
  shows "\<not> holds_key d k i"
  using assms by (fastforce simp: with_key_def find_None_iff holds_key_def sql_eq_def)

lemma with_key_found:
  assumes "keys_unique d" "dom (rows d outbox) \<subseteq> set (listing d)" "holds_key d k i"
  shows "with_key listing k d = Some i"
proof (cases "with_key listing k d")
  case None
  have "i \<in> set (listing d)" using assms(2,3) by (auto simp: holds_key_def)
  then show ?thesis using with_key_None[OF None] assms(3) by blast
next
  case (Some j)
  then have "holds_key d k j" by (rule with_key_Some)
  then show ?thesis using Some assms(1,3) unfolding keys_unique_def holds_key_def by blast
qed

lemma new_row_cells:
  "new_row to_json q w ''dedup_key'' = status_cell (enq_key q)" "new_row to_json q w ''status'' = CText ''pending''"
  "new_row to_json q w ''attempt'' = CNum 0" "new_row to_json q w ''next_attempt_at'' = CNum (drawn_now w)"
  "new_row to_json q w ''max_attempts'' = CNum (of_int (enq_max q))"
  "new_row to_json q w ''deliver_to'' = CText (enq_to q)"
  by (simp_all add: new_row_def new_cells_def Let_def set_columns_def)

text \<open>What an enqueue that returns has done: found the row of the key, or inserted the new row.\<close>

lemma enqueue_cases:
  assumes "enqueue_dispatch listing to_json q w d = (Inr i, d')"
  obtains k where "enq_key q = Some k" "holds_key d k i" "d' = d"
  | "i = drawn_id w" "rows d outbox i = None" "\<And>k. enq_key q = Some k \<Longrightarrow> with_key listing k d = None"
    "d' = (put_row i (new_row to_json q w) d)\<lparr>history := history d @ [enqueued_history q w]\<rparr>"
proof (cases "case enq_key q of None \<Rightarrow> None | Some k \<Rightarrow> with_key listing k d")
  case (Some j)
  then obtain k where k: "enq_key q = Some k" "with_key listing k d = Some j" by (cases "enq_key q") auto
  have "j = i" "d' = d" using assms Some by (auto simp: enqueue_dispatch_def split: if_splits)
  then show thesis using that(1)[OF k(1)] with_key_Some[OF k(2)] by simp
next
  case None
  then have "insert_dispatch to_json q w d = (Inr i, d')"
    using assms by (auto simp: enqueue_dispatch_def split: if_splits)
  then have "i = drawn_id w" "rows d outbox i = None"
    "d' = (put_row i (new_row to_json q w) d)\<lparr>history := history d @ [enqueued_history q w]\<rparr>"
    by (auto simp: insert_dispatch_def split: if_splits)
  moreover have "with_key listing k d = None" if "enq_key q = Some k" for k using None that by simp
  ultimately show thesis using that(2) by blast
qed

lemma enqueue_keeps:
  assumes "enqueue_dispatch listing to_json q w d = (Inr i, d')" "keys_unique d" "dom (rows d outbox) \<subseteq> set (listing d)"
  shows "keys_unique d'" "\<And>k j. holds_key d k j \<Longrightarrow> holds_key d' k j" "\<And>k. enq_key q = Some k \<Longrightarrow> holds_key d' k i"
    "dom (rows d' outbox) \<subseteq> insert (drawn_id w) (dom (rows d outbox))"
proof -
  show "keys_unique d'"
    using assms(1)
  proof (rule enqueue_cases)
    fix k assume "d' = d"
    then show ?thesis using assms(2) by simp
  next
    assume new: "i = drawn_id w" "rows d outbox i = None" "\<And>k. enq_key q = Some k \<Longrightarrow> with_key listing k d = None"
      "d' = (put_row i (new_row to_json q w) d)\<lparr>history := history d @ [enqueued_history q w]\<rparr>"
    have other: False
      if "rows d outbox j = Some r" "r ''dedup_key'' = CText k" "status_cell (enq_key q) = CText k" for j r k
    proof -
      have "enq_key q = Some k" using that(3) by (auto simp: status_cell_def split: option.splits)
      then have "\<not> holds_key d k j" using with_key_None[OF new(3)] that(1) assms(3) by blast
      then show False using that(1,2) by (simp add: holds_key_def)
    qed
    show ?thesis
      unfolding keys_unique_def
    proof (intro allI impI)
      fix a b r r' k
      assume ab: "rows d' outbox a = Some r" "rows d' outbox b = Some r'" "r ''dedup_key'' = CText k" "r' ''dedup_key'' = CText k"
      show "a = b"
      proof (cases "a = i \<or> b = i")
        case True
        then show ?thesis using ab other[of a r k] other[of b r' k] by (auto simp: new(4) new_row_cells split: if_splits)
      next
        case False
        then show ?thesis using ab assms(2) unfolding keys_unique_def by (simp add: new(4))
      qed
    qed
  qed
  show "holds_key d k j \<Longrightarrow> holds_key d' k j" for k j
    by (rule enqueue_cases[OF assms(1)]) (auto simp: holds_key_def)
  show "holds_key d' k i" if "enq_key q = Some k" for k
    using that by (cases rule: enqueue_cases[OF assms(1)]) (auto simp: holds_key_def new_row_cells status_cell_def)
  show "dom (rows d' outbox) \<subseteq> insert (drawn_id w) (dom (rows d outbox))"
    by (rule enqueue_cases[OF assms(1)]) (auto split: if_splits)
qed

lemma enqueue_found:
  assumes "keys_unique d" "dom (rows d outbox) \<subseteq> set (listing d)" "holds_key d k i" "enq_key q = Some k"
    "validate_destination (enq_to q) = None"
  shows "enqueue_dispatch listing to_json q w d = (Inr i, d)"
  using with_key_found[of d listing k i, OF assms(1-3)] assms(4,5) by (simp add: enqueue_dispatch_def)

lemma enqueue_all_keeps:
  assumes "enqueue_all listing to_json qs d = (Inr ids, d')" "keys_unique d" "dom (rows d outbox) \<subseteq> U"
    "lists_rows listing U" "drawn_id ` snd ` set qs \<subseteq> U"
  shows "keys_unique d' \<and> dom (rows d' outbox) \<subseteq> U \<and> length ids = length qs \<and>
     (\<forall>k j. holds_key d k j \<longrightarrow> holds_key d' k j) \<and>
     (\<forall>n k. n < length qs \<longrightarrow> enq_key (fst (qs ! n)) = Some k \<longrightarrow> holds_key d' k (ids ! n)) \<and>
     (\<forall>(q, w) \<in> set qs. validate_destination (enq_to q) = None)"
  using assms(1-3,5)
proof (induction qs arbitrary: d ids)
  case Nil
  then show ?case by simp
next
  case (Cons qw qs)
  obtain q w where qw: "qw = (q, w)" by force
  obtain i d1 where first: "enqueue_dispatch listing to_json q w d = (Inr i, d1)"
    using Cons.prems(1) by (auto simp: qw split: prod.splits sum.splits)
  obtain ids' where rest: "enqueue_all listing to_json qs d1 = (Inr ids', d')" "ids = i # ids'"
    using Cons.prems(1) first by (auto simp: qw split: prod.splits sum.splits)
  have listed: "dom (rows d outbox) \<subseteq> set (listing d)" using assms(4) Cons.prems(3) unfolding lists_rows_def by blast
  note keeps = enqueue_keeps[OF first Cons.prems(2) listed]
  have "dom (rows d1 outbox) \<subseteq> U" using keeps(4) Cons.prems(3,4) by (auto simp: qw)
  note IH = Cons.IH[OF rest(1) keeps(1) this]
  have valid: "validate_destination (enq_to q) = None" using first by (auto simp: enqueue_dispatch_def split: if_splits)
  have "holds_key d' k ((i # ids') ! n)"
    if "n < length (qw # qs)" "enq_key (fst ((qw # qs) ! n)) = Some k" for n k
    using that IH keeps(3)[of k] Cons.prems(4) by (cases n) (auto simp: qw)
  then show ?case using IH keeps(2) Cons.prems(4) rest(2) valid by (auto simp: qw)
qed

lemma enqueue_all_again:
  assumes "keys_unique d" "dom (rows d outbox) \<subseteq> set (listing d)" "length ids = length qs"
    "\<forall>n < length qs. \<exists>k. enq_key (fst (qs ! n)) = Some k \<and> holds_key d k (ids ! n)"
    "\<forall>(q, w) \<in> set qs. validate_destination (enq_to q) = None"
  shows "enqueue_all listing to_json qs d = (Inr ids, d)"
  using assms(3-5)
proof (induction qs arbitrary: ids)
  case Nil
  then show ?case by simp
next
  case (Cons qw qs)
  obtain q w i ids' where eq: "qw = (q, w)" "ids = i # ids'" "length ids' = length qs"
    using Cons.prems(1) by (cases ids) (auto, force)
  obtain k where "enq_key q = Some k" "holds_key d k i" using Cons.prems(2) by (auto simp: eq)
  then have "enqueue_dispatch listing to_json q w d = (Inr i, d)"
    using enqueue_found[of d listing k i q to_json w] assms(1,2) Cons.prems(3) by (simp add: eq)
  moreover have "enqueue_all listing to_json qs d = (Inr ids', d)"
    using Cons.prems(2,3) eq by (intro Cons.IH) auto
  ultimately show ?case by (simp add: eq)
qed

text \<open>
  C24. A heartbeat fired again changes nothing: after \<open>enqueue_revival_heartbeat\<close> has returned the
  dispatches of its seats, calling it again for the same seats and reset time, at any later moment
  and with any fresh identifiers, returns the same dispatches and leaves the database as it is,
  provided the keys of the table were unique and the database lists every row of the table.
\<close>

theorem revival_idempotent:
  assumes "enqueue_revival_heartbeat listing to_json body_json epoch_text epoch ttl attempts seats ws d = (Inr ids, d1)"
    "length ws = length seats" "length ws' = length seats" "keys_unique d"
    "lists_rows listing U" "dom (rows d outbox) \<subseteq> U" "drawn_id ` set ws \<subseteq> U"
  shows "enqueue_revival_heartbeat listing to_json body_json epoch_text epoch ttl attempts seats ws' d1 = (Inr ids, d1)"
proof -
  let ?reqs = "map (\<lambda>seat. revival_request epoch_text epoch ttl attempts seat body_json) seats"
  have "drawn_id ` snd ` set (zip ?reqs ws) \<subseteq> U"
    using assms(7) set_zip_rightD by fastforce
  note first = enqueue_all_keeps[OF assms(1)[unfolded enqueue_revival_heartbeat_def] assms(4,6,5) this]
  have listed: "dom (rows d1 outbox) \<subseteq> set (listing d1)" using first assms(5) unfolding lists_rows_def by blast
  have key: "enq_key (revival_request epoch_text epoch ttl attempts seat body_json) =
      Some (''revival:'' @ seat @ '':'' @ epoch_text)" for seat
    by (simp add: revival_request_def)
  have kept: "\<forall>n k. n < length (zip ?reqs ws) \<longrightarrow> enq_key (fst (zip ?reqs ws ! n)) = Some k \<longrightarrow> holds_key d1 k (ids ! n)"
    using first by blast
  have holds: "\<forall>n < length (zip ?reqs ws'). \<exists>k. enq_key (fst (zip ?reqs ws' ! n)) = Some k \<and> holds_key d1 k (ids ! n)"
  proof (intro allI impI)
    fix n assume "n < length (zip ?reqs ws')"
    then have n: "n < length seats" by simp
    have "fst (zip ?reqs ws' ! n) = ?reqs ! n" "fst (zip ?reqs ws ! n) = ?reqs ! n" "n < length (zip ?reqs ws)"
      using n assms(2,3) by simp_all
    moreover have "enq_key (?reqs ! n) = Some (''revival:'' @ (seats ! n) @ '':'' @ epoch_text)"
      using n key[of "seats ! n"] by simp
    ultimately show "\<exists>k. enq_key (fst (zip ?reqs ws' ! n)) = Some k \<and> holds_key d1 k (ids ! n)"
      using kept by metis
  qed
  have checked: "\<forall>(q, w) \<in> set (zip ?reqs ws). validate_destination (enq_to q) = None" using first by blast
  have "validate_destination (enq_to q) = None" if q: "q \<in> set ?reqs" for q
  proof -
    have "length ?reqs = length ws" using assms(2) by simp
    then obtain w where "(q, w) \<in> set (zip ?reqs ws)" using in_set_impl_in_set_zip1[OF _ q] by blast
    then show ?thesis using checked by blast
  qed
  then have valid: "\<forall>(q, w) \<in> set (zip ?reqs ws'). validate_destination (enq_to q) = None"
    by (intro ballI) (auto dest!: set_zip_leftD simp del: set_map)
  have "length ids = length (zip ?reqs ws)" using first by blast
  then have len: "length ids = length (zip ?reqs ws')" using assms(2,3) by simp
  have unique: "keys_unique d1" using first by blast
  show ?thesis
    unfolding enqueue_revival_heartbeat_def by (rule enqueue_all_again[of d1 listing, OF unique listed len holds valid])
qed

section \<open>Examples\<close>

definition ex_dispatch :: "string \<Rightarrow> row" where
  "ex_dispatch s =
     set_columns [(''status'', CText s), (''attempt'', CNum 0), (''max_attempts'', CNum 1),
                  (''next_attempt_at'', CNum 0), (''deliver_to'', CText ''x''), (''updated_at'', CNum 0)]
       (\<lambda>_. CNull)"

definition ex_outbox :: "row \<Rightarrow> db" where
  "ex_outbox r = \<lparr>rows = (\<lambda>tb i. if tb = outbox \<and> i = ''a'' then Some r else None), history = [], admin_events = []\<rparr>"

definition ex_world :: world where
  "ex_world = \<lparr>claim_env = alone 5 ''c'', outcome_env = alone 6 ''o'', during_send = (\<lambda>d. d),
               before_outcome = (\<lambda>d. d), before_backoff = (\<lambda>d. d)\<rparr>"

definition ex_transport :: transport where
  "ex_transport = \<lparr>template = None, run_argv = (\<lambda>_ _. Timed_out), quoted = (\<lambda>s. s)\<rparr>"

definition ex_actor :: actor where
  "ex_actor = \<lparr>actor_type = ''scheduler'', actor_id = Some ''dispatch_delivery_loop''\<rparr>"

lemma ex_dispatch_cells [simp]:
  "ex_dispatch s ''status'' = CText s" "ex_dispatch s ''attempt'' = CNum 0" "ex_dispatch s ''max_attempts'' = CNum 1"
  "ex_dispatch s ''next_attempt_at'' = CNum 0" "ex_dispatch s ''expires_at'' = CNull"
  "ex_dispatch s ''ack_required'' = CNull" "ex_dispatch s ''updated_at'' = CNum 0"
  by (simp_all add: ex_dispatch_def set_columns_def)

lemma ex_facts [simp]:
  "rows (ex_outbox r) outbox i = (if i = ''a'' then Some r else None)" "quiet ex_world" "actor_type ex_actor \<noteq> []"
  "send ex_transport r' = ((False, ''no dispatch.notify_template configured''), [])"
  by (simp_all add: ex_outbox_def quiet_def ex_world_def ex_actor_def send_def ex_transport_def)

lemma ex_due [simp]: "due 5 (ex_dispatch ''pending'')" "\<not> past_deadline 5 (ex_dispatch ''pending'')"
  by (simp_all add: due_def past_deadline_def)

theorem scan_completes_witness:
  "\<exists>c d' procs. deliver_due_dispatches (\<lambda>_. [''a'']) ex_transport ex_actor 5 (\<lambda>_. ex_world)
       (ex_outbox (ex_dispatch ''pending'')) = (Inr c, d', procs) \<and> attempted c = 1"
  using scan_completes[of ex_actor "\<lambda>_. [''a'']" "ex_outbox (ex_dispatch ''pending'')" ex_transport 5 "\<lambda>_. ex_world"]
  by (simp add: due_rows_def) blast

theorem delivery_outcome_witness:
  "fst (deliver_one_due_row ex_transport ex_actor 5 ex_world ''a'' (ex_dispatch ''pending'')
          (ex_outbox (ex_dispatch ''pending''))) = Inr (Some Dead_letter)"
  using delivery_outcome[of ex_actor "''a''" "ex_outbox (ex_dispatch ''pending'')" "ex_dispatch ''pending''" 5 ex_world 0
      ex_transport]
  by (auto simp: Let_def num_of_def split: prod.splits)

theorem delivery_bounded_witness:
  "\<exists>r'. rows (fst (deliveries ex_actor ''a'' [(5, ex_transport, ex_world)] (ex_outbox (ex_dispatch ''pending''))))
      outbox ''a'' = Some r' \<and> r' ''status'' \<in> {CText ''delivered'', CText ''dead_letter'', CText ''expired''}"
proof -
  note bounded = delivery_bounded[of ex_actor "''a''" "ex_outbox (ex_dispatch ''pending'')" "ex_dispatch ''pending''" 0 1
      "[(5, ex_transport, ex_world)]", THEN conjunct2, rule_format]
  show ?thesis by (rule bounded[of 5 ex_transport ex_world "[]"]) simp_all
qed

theorem claimed_once_witness:
  "\<exists>res d1. move_row (claim_request ex_actor 5 ''a'' (ex_dispatch ''pending'')) (claim_env ex_world)
       (ex_outbox (ex_dispatch ''pending'')) = (Inr res, d1, []) \<and>
     snd (snd (deliver_one_due_row ex_transport ex_actor 5 ex_world ''a'' (ex_dispatch ''pending'')
       (outbox_step (\<lambda>_. []) sig_body d1 (Purge ''b'' ''me'')))) = []"
proof -
  let ?r = "ex_dispatch ''pending''"
  have who: "who ex_actor ''a''" by (simp add: who_def)
  have claim: "move_row (claim_request ex_actor 5 ''a'' ?r) (claim_env ex_world) (ex_outbox ?r) =
      (Inr (accepted (claim_request ex_actor 5 ''a'' ?r) (claim_env ex_world)),
       moved (claim_request ex_actor 5 ''a'' ?r) (claim_env ex_world) (ex_outbox ?r), [])"
    using quiet_claim[of ex_actor "''a''" "ex_outbox ?r" ?r 5 ex_world 0] who by simp
  then show ?thesis
    using claimed_once[of ex_actor ex_actor "''a''" 5 ?r 5 "claim_env ex_world" "ex_outbox ?r"
        "accepted (claim_request ex_actor 5 ''a'' ?r) (claim_env ex_world)"
        "moved (claim_request ex_actor 5 ''a'' ?r) (claim_env ex_world) (ex_outbox ?r)" "[]" "[Purge ''b'' ''me'']"
        ex_transport ex_world "\<lambda>_. []" sig_body]
    by (auto simp: Let_def split: prod.splits)
qed

theorem retry_of_expired_expires_witness:
  "fst (retry_dispatch ''a'' 5 (\<lambda>d. d) (alone 5 ''u'') (ex_outbox ((ex_dispatch ''expired'')(''expires_at'' := CNum 3))))
     = Inr True"
  using retry_of_expired_expires[of ex_actor "''a''" "ex_outbox ((ex_dispatch ''expired'')(''expires_at'' := CNum 3))"
      "(ex_dispatch ''expired'')(''expires_at'' := CNum 3)" 3 5 5 ex_world 5 "''u''" ex_transport]
  by (auto simp: Let_def split: prod.splits)

theorem purge_exact_witness:
  "rows (fst (snd (purge_dispatches (\<lambda>_. [''a'']) None (Some 9) False ''me'' (ex_outbox (ex_dispatch ''pending'')))))
     outbox ''a'' = Some (ex_dispatch ''pending'')"
proof -
  have "set [''a''] = dom (rows (ex_outbox (ex_dispatch ''pending'')) outbox)" by (auto split: if_splits)
  note law = purge_exact[of "\<lambda>_. [''a'']", OF _ this, of None "Some 9" False "''me''", simplified distinct_singleton]
  obtain res d' evs where run: "purge_dispatches (\<lambda>_. [''a'']) None (Some 9) False ''me'' (ex_outbox (ex_dispatch ''pending''))
      = (res, d', evs)" by (metis prod_cases3)
  note law = law[OF TrueI, unfolded run prod.case]
  have "rows d' outbox ''a'' = Some (ex_dispatch ''pending'')"
  proof (cases res)
    case (Inl err)
    then show ?thesis using law by simp
  next
    case (Inr nc)
    obtain n c where "nc = (n, c)" by force
    then have "\<forall>i r. None = (None :: string option) \<longrightarrow> rows (ex_outbox (ex_dispatch ''pending'')) outbox i = Some r \<longrightarrow>
        r ''status'' \<in> {CText ''pending'', CText ''delivering''} \<longrightarrow> rows d' outbox i = Some r"
      using law unfolding Inr \<open>nc = (n, c)\<close> sum.case prod.case by blast
    then show ?thesis by simp
  qed
  then show ?thesis by (simp add: run)
qed

definition ex_listing :: "db \<Rightarrow> string list" where
  "ex_listing d = filter (\<lambda>i. rows d outbox i \<noteq> None) [''a'', ''b'']"

theorem revival_idempotent_witness:
  "\<exists>d1. enqueue_revival_heartbeat ex_listing sig_body (\<lambda>s. s) ''7.0'' 7 60 8 [''seat'']
          [\<lparr>drawn_now = 8, drawn_id = ''b'', drawn_token = ''t'', drawn_history = ''h''\<rparr>]
          (ex_outbox (ex_dispatch ''pending'')) = (Inr [''b''], d1) \<and>
        enqueue_revival_heartbeat ex_listing sig_body (\<lambda>s. s) ''7.0'' 7 60 8 [''seat'']
          [\<lparr>drawn_now = 9, drawn_id = ''c'', drawn_token = ''t'', drawn_history = ''k''\<rparr>] d1 = (Inr [''b''], d1)"
proof -
  let ?d = "ex_outbox (ex_dispatch ''pending'')"
  let ?w = "\<lparr>drawn_now = 8, drawn_id = ''b'', drawn_token = ''t'', drawn_history = ''h''\<rparr>"
  let ?q = "revival_request ''7.0'' 7 60 8 ''seat'' (\<lambda>s. s)"
  have key: "ex_dispatch ''pending'' ''dedup_key'' = CNull" by (simp add: ex_dispatch_def set_columns_def)
  have "validate_destination ''seat'' = None" by code_simp
  moreover have "with_key ex_listing (''revival:'' @ ''seat'' @ '':'' @ ''7.0'') ?d = None"
    by (simp add: with_key_def ex_listing_def sql_eq_def key)
  ultimately have "enqueue_dispatch ex_listing sig_body ?q ?w ?d =
      (Inr ''b'', (put_row ''b'' (new_row sig_body ?q ?w) ?d)\<lparr>history := history ?d @ [enqueued_history ?q ?w]\<rparr>)"
    by (simp add: enqueue_dispatch_def insert_dispatch_def revival_request_def)
  then obtain d1 where first: "enqueue_revival_heartbeat ex_listing sig_body (\<lambda>s. s) ''7.0'' 7 60 8 [''seat''] [?w] ?d =
      (Inr [''b''], d1)"
    by (simp add: enqueue_revival_heartbeat_def)
  have "keys_unique ?d" by (simp add: keys_unique_def split: if_splits)
  moreover have "lists_rows ex_listing {''a'', ''b''}" by (auto simp: lists_rows_def ex_listing_def)
  moreover have "dom (rows ?d outbox) \<subseteq> {''a'', ''b''}" by (auto split: if_splits)
  ultimately show ?thesis
    using first revival_idempotent[OF first, of
        "[\<lparr>drawn_now = 9, drawn_id = ''c'', drawn_token = ''t'', drawn_history = ''k''\<rparr>]" "{''a'', ''b''}"]
    by simp
qed

end
