(* ===== verification/Exchange.thy ===== *)
theory Exchange
  imports Item_Flow
begin

text \<open>
  \<open>lionagi/session/exchange.py\<close>: the message router.  Each registered owner has a mailbox, an item
  \<open>flow\<close> with one progression \<open>outbox\<close> and one progression \<open>inbox_\<dots>\<close> for every sender it has heard
  from.  \<open>collect\<close> empties an outbox and marks its messages as in flight; a delivery puts one of them
  into the inbox of its recipient.

  Messages are values: the code finds an in-flight message by object identity, the model by equality,
  which differ only between entries that are equal.  The sender of a message is a UUID, as \<open>send\<close>
  makes it.  Python draws ids with \<open>uuid4\<close>; here the caller supplies them.  The methods are atomic
  steps except \<open>collect\<close>, whose deliveries are tasks of their own (\<open>CollectBegin\<close> and
  \<open>Deliver\<close> steps), since only the in-flight lock is held while they run.

  The lemmas describe a mailbox as a family of queues, one for each of its progressions: what putting
  a message in, taking the first one out, emptying the outbox and reading do to them.  That the whole
  exchange is a post office of such queues is in \<open>Exchange_Mail\<close>.
\<close>

section \<open>State\<close>

record 'c msg =
  m_sender :: uuid
  m_recipient :: "uuid option"
  m_content :: 'c
  m_channel :: "string option"

type_synonym 'c mail = "'c msg elem"
type_synonym 'c box = "'c msg flow"

record 'c exchange =
  ex_flows :: "'c box pile"
  owner_index :: "(uuid, uuid) pydict"
  in_flight :: "(uuid, 'c mail list) pydict"
  stopped :: bool
  run_started :: bool

definition OUTBOX :: string where
  "OUTBOX = ''outbox''"

definition inbox_name :: "uuid \<Rightarrow> string" where
  "inbox_name s = ''inbox_'' @ uuid_str s"

definition is_broadcast :: "'c mail \<Rightarrow> bool" where
  "is_broadcast m \<longleftrightarrow> m_recipient (ebody m) = None"

definition new_exchange :: "uuid \<Rightarrow> 'c exchange" where
  "new_exchange u =
     \<lparr>ex_flows = pile_of u [], owner_index = [], in_flight = [], stopped = False, run_started = False\<rparr>"

section \<open>Owners\<close>

definition has_owner :: "uuid \<Rightarrow> 'c exchange \<Rightarrow> bool" where
  "has_owner w e = dhas (owner_index e) w"

definition owner_ids :: "'c exchange \<Rightarrow> uuid list" where
  "owner_ids e = dkeys (owner_index e)"

text \<open>\<open>get\<close>, with the key under which the flow is kept.\<close>

definition find_flow :: "uuid \<Rightarrow> 'c exchange \<Rightarrow> (uuid \<times> 'c box) option" where
  "find_flow w e =
     (case dget (owner_index e) w of
        None \<Rightarrow> None
      | Some fid \<Rightarrow>
          (case get (GRef (RUuid fid)) True (ex_flows e) of
             Inr (One f) \<Rightarrow> Some (fid, ebody f)
           | _ \<Rightarrow> None))"

text \<open>A method of a mailbox changes the flow object that the exchange holds.\<close>

definition put_flow :: "uuid \<Rightarrow> 'c box \<Rightarrow> 'c exchange \<Rightarrow> 'c exchange" where
  "put_flow fid f e = e\<lparr>ex_flows := upd_prog fid (\<lambda>_. f) (ex_flows e)\<rparr>"

definition named_prog :: "uuid \<Rightarrow> string \<Rightarrow> progression elem" where
  "named_prog v n = Elem v [''Progression''] (mk_progression v (Some n) [])"

definition empty_box :: "uuid \<Rightarrow> uuid \<Rightarrow> 'c box" where
  "empty_box a b = \<lparr>flow_items = pile_of a [], progs = pile_of b [], prog_names = []\<rparr>"

text \<open>The ids of the flow, of its two piles and of its outbox are drawn in \<open>fid\<close>, \<open>a\<close>, \<open>b\<close> and \<open>v\<close>.\<close>

definition register_owner ::
    "uuid \<Rightarrow> uuid \<Rightarrow> uuid \<Rightarrow> uuid \<Rightarrow> uuid \<Rightarrow> 'c exchange \<Rightarrow> (uuid, 'c exchange) eff" where
  "register_owner fid a b v w e =
     (if dhas (owner_index e) w then (Inl ValueError, e)
      else (case add_progression (named_prog v OUTBOX) (empty_box a b) of
              (Inl err, _) \<Rightarrow> (Inl err, e)
            | (Inr _, f) \<Rightarrow>
                (case pile_include [IElem (Elem fid [''Flow''] f)] (ex_flows e) of
                   (Inl err, fs) \<Rightarrow> (Inl err, e\<lparr>ex_flows := fs\<rparr>)
                 | (Inr _, fs) \<Rightarrow>
                     (Inr fid, e\<lparr>ex_flows := fs, owner_index := dset w fid (owner_index e)\<rparr>))))"

definition unregister_owner :: "uuid \<Rightarrow> 'c exchange \<Rightarrow> 'c box option \<times> 'c exchange" where
  "unregister_owner w e =
     (case dget (owner_index e) w of
        None \<Rightarrow> (None, e)
      | Some fid \<Rightarrow>
          (let e1 = e\<lparr>owner_index := ddel w (owner_index e)\<rparr>
           in (case pop 0 (KRef (RUuid fid)) True (ex_flows e1) of
                 (Inr (One f), fs) \<Rightarrow> (Some (ebody f), e1\<lparr>ex_flows := fs\<rparr>)
               | (_, fs) \<Rightarrow> (None, e1\<lparr>ex_flows := fs\<rparr>))))"

section \<open>Sending\<close>

definition send ::
    "uuid \<Rightarrow> uuid \<Rightarrow> uuid option \<Rightarrow> 'c \<Rightarrow> string option \<Rightarrow> 'c exchange \<Rightarrow> ('c mail, 'c exchange) eff" where
  "send u s r c ch e =
     (case find_flow s e of
        None \<Rightarrow> (Inl ValueError, e)
      | Some (fid, f) \<Rightarrow>
          (let m = Elem u [''Message'']
                 \<lparr>m_sender = s, m_recipient = r, m_content = c, m_channel = ch\<rparr>
           in (case add_item m [KName OUTBOX] f of
                 (Inl err, f1) \<Rightarrow> (Inl err, put_flow fid f1 e)
               | (Inr _, f1) \<Rightarrow> (Inr m, put_flow fid f1 e))))"

section \<open>Taking messages out of a mailbox\<close>

definition queue_len :: "uuid \<Rightarrow> 'c box \<Rightarrow> nat" where
  "queue_len u f =
     (case dget (collections (progs f)) u of None \<Rightarrow> 0 | Some p \<Rightarrow> pg_len (ebody p))"

text \<open>\<open>popleft\<close> on a progression of the flow, and \<open>items.pop(key, None)\<close>.\<close>

definition pop_left :: "uuid \<Rightarrow> 'c box \<Rightarrow> (uuid, 'c box) eff" where
  "pop_left u f =
     (case dget (collections (progs f)) u of
        None \<Rightarrow> (Inl ItemNotFoundError, f)
      | Some p \<Rightarrow>
          (case pg_popleft (ebody p) of
             (r, q) \<Rightarrow> (r, f\<lparr>progs := upd_prog u (\<lambda>_. q) (progs f)\<rparr>)))"

definition take_item :: "uuid \<Rightarrow> 'c box \<Rightarrow> 'c mail option \<times> 'c box" where
  "take_item k f =
     (case pop 0 (KRef (RUuid k)) True (flow_items f) of
        (Inr (One m), its) \<Rightarrow> (Some m, f\<lparr>flow_items := its\<rparr>)
      | (_, its) \<Rightarrow> (None, f\<lparr>flow_items := its\<rparr>))"

lemma progs_take_item [simp]: "progs (snd (take_item k f)) = progs f"
  by (simp add: take_item_def split: prod.split sum.split got.split)

lemma queue_len_take [simp]: "queue_len u (snd (take_item k f)) = queue_len u f"
  by (simp add: queue_len_def)

lemma pop_left_shrinks:
  assumes "queue_len u f \<noteq> 0"
  obtains k g where "pop_left u f = (Inr k, g)" "queue_len u g < queue_len u f"
proof -
  from assms obtain p where p: "dget (collections (progs f)) u = Some p" "order (ebody p) \<noteq> []"
    by (auto simp: queue_len_def pg_len_def split: option.splits)
  then have "fst (pop_left u f) = Inr (hd (order (ebody p)))"
    "queue_len u (snd (pop_left u f)) < queue_len u f"
    by (auto simp: pop_left_def queue_len_def pg_len_def pg_popleft_def md_popleft_def md_sync_def
        split: list.split prod.split)
  then show ?thesis using that by (metis prod.collapse)
qed

text \<open>The loop over an outbox: messages whose item is gone are skipped.\<close>

function empty_queue :: "uuid \<Rightarrow> 'c box \<Rightarrow> 'c mail list \<times> 'c box" where
  "empty_queue u f =
     (if queue_len u f = 0 then ([], f)
      else (case pop_left u f of
              (Inl _, f1) \<Rightarrow> ([], f1)
            | (Inr k, f1) \<Rightarrow>
                (case take_item k f1 of
                   (m, f2) \<Rightarrow>
                     (case empty_queue u f2 of
                        (ms, f3) \<Rightarrow> ((case m of None \<Rightarrow> ms | Some x \<Rightarrow> x # ms), f3)))))"
  by pat_completeness auto
termination
proof (relation "measure (\<lambda>(u, f). queue_len u f)")
  fix u f r f1 k m f2
  assume "queue_len u f \<noteq> 0" "(r, f1) = pop_left u f" "r = Inr k" "(m, f2) = take_item k f1"
  then show "((u, f2), (u, f)) \<in> measure (\<lambda>(u, f). queue_len u f)"
    by (metis case_prod_conv in_measure pop_left_shrinks prod.inject queue_len_take snd_conv)
qed simp

declare empty_queue.simps [simp del]

text \<open>Where a message goes: to every other owner, or to its recipient if that is registered.\<close>

definition route :: "uuid list \<Rightarrow> uuid \<Rightarrow> 'c mail \<Rightarrow> (uuid \<times> 'c mail) list" where
  "route ws me m =
     (case m_recipient (ebody m) of
        None \<Rightarrow> map (\<lambda>w. (w, m)) (filter (\<lambda>w. w \<noteq> me) ws)
      | Some r \<Rightarrow> if r \<in> set ws then [(r, m)] else [])"

section \<open>In flight\<close>

definition pending :: "uuid \<Rightarrow> 'c exchange \<Rightarrow> 'c mail list" where
  "pending w e = (case dget (in_flight e) w of None \<Rightarrow> [] | Some ms \<Rightarrow> ms)"

definition mark_one :: "uuid \<times> 'c mail \<Rightarrow> 'c exchange \<Rightarrow> 'c exchange" where
  "mark_one d e = e\<lparr>in_flight := dset (fst d) (pending (fst d) e @ [snd d]) (in_flight e)\<rparr>"

definition remove_in_flight_locked :: "uuid \<Rightarrow> 'c mail \<Rightarrow> 'c exchange \<Rightarrow> bool \<times> 'c exchange" where
  "remove_in_flight_locked w m e =
     (if m \<notin> set (pending w e) then (False, e)
      else (let ms = remove1 m (pending w e)
            in (True, e\<lparr>in_flight := (if ms = [] then ddel w (in_flight e)
                                      else dset w ms (in_flight e))\<rparr>)))"

fun mark_in_flight :: "(uuid \<times> 'c mail) list \<Rightarrow> bool \<Rightarrow> 'c exchange \<Rightarrow> 'c exchange" where
  "mark_in_flight [] inc e = e"
| "mark_in_flight (d # ds) inc e =
     mark_in_flight ds inc
       (if inc then mark_one d e else snd (remove_in_flight_locked (fst d) (snd d) e))"

text \<open>The first half of \<open>collect\<close>, under the lock of the flows.\<close>

definition collect_begin :: "uuid \<Rightarrow> 'c exchange \<Rightarrow> ((uuid \<times> 'c mail) list, 'c exchange) eff" where
  "collect_begin w e =
     (case find_flow w e of
        None \<Rightarrow> (Inl ValueError, e)
      | Some (fid, f) \<Rightarrow>
          (case get_progression (KName OUTBOX) f of
             (Inl err, f1) \<Rightarrow> (Inl err, put_flow fid f1 e)
           | (Inr u, f1) \<Rightarrow>
               (case empty_queue u f1 of
                  (ms, f2) \<Rightarrow>
                    (let ds = concat (map (route (owner_ids e) w) ms)
                     in (Inr ds, mark_in_flight ds True (put_flow fid f2 e))))))"

section \<open>Delivery\<close>

text \<open>An inbox that exists already is kept; its id \<open>v\<close> is used when it has to be made.\<close>

definition ensure_inbox :: "uuid \<Rightarrow> string \<Rightarrow> 'c box \<Rightarrow> (unit, 'c box) eff" where
  "ensure_inbox v n f =
     (case add_progression (named_prog v n) f of
        (Inl ItemExistsError, f1) \<Rightarrow> (Inr (), f1)
      | (r, f1) \<Rightarrow> (r, f1))"

definition deliver_locked :: "uuid \<Rightarrow> uuid \<Rightarrow> 'c mail \<Rightarrow> 'c exchange \<Rightarrow> (unit, 'c exchange) eff" where
  "deliver_locked v w m e =
     (case find_flow w e of
        None \<Rightarrow> (Inr (), e)
      | Some (fid, f) \<Rightarrow>
          (let n = inbox_name (m_sender (ebody m))
           in (case ensure_inbox v n f of
                 (Inl err, f1) \<Rightarrow> (Inl err, put_flow fid f1 e)
               | (Inr _, f1) \<Rightarrow>
                   (case add_item m [KName n] f1 of (r, f2) \<Rightarrow> (r, put_flow fid f2 e)))))"

definition deliver_to :: "uuid \<Rightarrow> uuid \<Rightarrow> 'c mail \<Rightarrow> 'c exchange \<Rightarrow> (unit, 'c exchange) eff" where
  "deliver_to v w m e =
     (if m \<notin> set (pending w e) then (Inr (), e)
      else (case deliver_locked v w m e of
              (Inl err, e1) \<Rightarrow> (Inl err, e1)
            | (Inr _, e1) \<Rightarrow> (Inr (), snd (remove_in_flight_locked w m e1))))"


text \<open>\<open>gather\<close> starts the tasks in order; an exception is kept as a result and does not stop the others.\<close>

fun gather_deliveries ::
    "(nat \<Rightarrow> uuid) \<Rightarrow> nat \<Rightarrow> (uuid \<times> 'c mail) list \<Rightarrow> 'c exchange \<Rightarrow> 'c exchange" where
  "gather_deliveries vs i [] e = e"
| "gather_deliveries vs i (d # ds) e =
     gather_deliveries vs (Suc i) ds (snd (deliver_to (vs i) (fst d) (snd d) e))"

fun deliver_in_turn ::
    "(nat \<Rightarrow> uuid) \<Rightarrow> nat \<Rightarrow> (uuid \<times> 'c mail) list \<Rightarrow> 'c exchange \<Rightarrow> (unit, 'c exchange) eff" where
  "deliver_in_turn vs i [] e = (Inr (), e)"
| "deliver_in_turn vs i (d # ds) e =
     (case deliver_to (vs i) (fst d) (snd d) e of
        (Inl err, e1) \<Rightarrow> (Inl err, e1)
      | (Inr _, e1) \<Rightarrow> deliver_in_turn vs (Suc i) ds e1)"

definition routed :: "(uuid \<times> 'c mail) list \<Rightarrow> nat" where
  "routed ds = length (remdups (map (eid \<circ> snd) ds))"

definition collect :: "(nat \<Rightarrow> uuid) \<Rightarrow> uuid \<Rightarrow> 'c exchange \<Rightarrow> (nat, 'c exchange) eff" where
  "collect vs w e =
     (case collect_begin w e of
        (Inl err, e1) \<Rightarrow> (Inl err, e1)
      | (Inr ds, e1) \<Rightarrow> (Inr (routed ds), gather_deliveries vs 0 ds e1))"

definition collect_sync :: "(nat \<Rightarrow> uuid) \<Rightarrow> uuid \<Rightarrow> 'c exchange \<Rightarrow> (nat, 'c exchange) eff" where
  "collect_sync vs w e =
     (case collect_begin w e of
        (Inl err, e1) \<Rightarrow> (Inl err, e1)
      | (Inr ds, e1) \<Rightarrow>
          (case deliver_in_turn vs 0 ds e1 of
             (Inl err, e2) \<Rightarrow> (Inl err, e2)
           | (Inr _, e2) \<Rightarrow> (Inr (routed ds), e2)))"

text \<open>\<open>collect_all\<close> and its synchronous twin: owners that have gone in the meantime are skipped.\<close>

fun collect_each ::
    "(uuid \<Rightarrow> 'c exchange \<Rightarrow> (nat, 'c exchange) eff) \<Rightarrow> uuid list \<Rightarrow> nat \<Rightarrow> 'c exchange \<Rightarrow>
     (nat, 'c exchange) eff" where
  "collect_each f [] n e = (Inr n, e)"
| "collect_each f (w # ws) n e =
     (case f w e of
        (Inl ValueError, e1) \<Rightarrow> collect_each f ws n e1
      | (Inl err, e1) \<Rightarrow> (Inl err, e1)
      | (Inr k, e1) \<Rightarrow> collect_each f ws (n + k) e1)"

definition collect_all :: "(uuid \<Rightarrow> nat \<Rightarrow> uuid) \<Rightarrow> 'c exchange \<Rightarrow> (nat, 'c exchange) eff" where
  "collect_all vs e = collect_each (\<lambda>w. collect (vs w) w) (owner_ids e) 0 e"

definition collect_all_sync :: "(uuid \<Rightarrow> nat \<Rightarrow> uuid) \<Rightarrow> 'c exchange \<Rightarrow> (nat, 'c exchange) eff" where
  "collect_all_sync vs e = collect_each (\<lambda>w. collect_sync (vs w) w) (owner_ids e) 0 e"

section \<open>Reading\<close>

definition item_get :: "uuid \<Rightarrow> 'c box \<Rightarrow> 'c mail option" where
  "item_get k f =
     (case get (GRef (RUuid k)) True (flow_items f) of Inr (One m) \<Rightarrow> Some m | _ \<Rightarrow> None)"

definition inbox_shown :: "uuid option \<Rightarrow> string option \<Rightarrow> bool" where
  "inbox_shown s nm =
     (case nm of
        None \<Rightarrow> False
      | Some n \<Rightarrow> take 6 n = ''inbox_'' \<and> (case s of None \<Rightarrow> True | Some u \<Rightarrow> n = inbox_name u))"

definition box_receive :: "uuid option \<Rightarrow> 'c box \<Rightarrow> pyerr + 'c mail list" where
  "box_receive s f =
     (case pile_values (progs f) of
        Inl err \<Rightarrow> Inl err
      | Inr ps \<Rightarrow>
          Inr (concat (map (\<lambda>p. if inbox_shown s (pg_name (ebody p))
                                then List.map_filter (\<lambda>k. item_get k f) (order (ebody p)) else []) ps)))"

definition receive :: "uuid \<Rightarrow> uuid option \<Rightarrow> 'c exchange \<Rightarrow> pyerr + 'c mail list" where
  "receive w s e = (case find_flow w e of None \<Rightarrow> Inr [] | Some (_, f) \<Rightarrow> box_receive s f)"

definition peek_pending :: "uuid \<Rightarrow> 'c exchange \<Rightarrow> (pyerr + 'c mail list) \<times> bool" where
  "peek_pending w e = (receive w None e, pending w e \<noteq> [])"

definition pop_message :: "uuid \<Rightarrow> uuid \<Rightarrow> 'c exchange \<Rightarrow> ('c mail option, 'c exchange) eff" where
  "pop_message w s e =
     (case find_flow w e of
        None \<Rightarrow> (Inr None, e)
      | Some (fid, f) \<Rightarrow>
          (case get_progression (KName (inbox_name s)) f of
             (Inl err, f1) \<Rightarrow>
               (if err \<in> {KeyError, ItemNotFoundError} then Inr None else Inl err, put_flow fid f1 e)
           | (Inr u, f1) \<Rightarrow>
               if queue_len u f1 = 0 then (Inr None, put_flow fid f1 e)
               else (case pop_left u f1 of
                       (Inl err, f2) \<Rightarrow> (Inl err, put_flow fid f2 e)
                     | (Inr k, f2) \<Rightarrow>
                         (case take_item k f2 of (m, f3) \<Rightarrow> (Inr m, put_flow fid f3 e)))))"

text \<open>Every message popped is one item less in the mailbox, which bounds the loop below.\<close>

definition held_len :: "uuid \<Rightarrow> 'c exchange \<Rightarrow> nat" where
  "held_len w e =
     (case find_flow w e of None \<Rightarrow> 0 | Some (_, f) \<Rightarrow> length (collections (flow_items f)))"

lemma get_ref_uuid [simp]:
  "get (GRef (RUuid k)) True s =
     Inr (case dget (collections s) k of None \<Rightarrow> Default | Some m \<Rightarrow> One m)"
  by (simp add: validate_order_def or_default_def pile_lookup_def got_one_def not_found_def got_of_def
      split: option.split)

lemma find_flow_iff:
  "find_flow w e = Some (fid, f) \<longleftrightarrow>
     dget (owner_index e) w = Some fid \<and>
     (\<exists>x. dget (collections (ex_flows e)) fid = Some x \<and> f = ebody x)"
  by (auto simp: find_flow_def simp del: get.simps split: option.split)

lemma find_put_flow:
  "find_flow w e = Some (fid, f) \<Longrightarrow> find_flow w (put_flow fid g e) = Some (fid, g)"
  unfolding find_flow_iff by (auto simp: put_flow_def)

lemma take_item_less:
  assumes "take_item k f = (Some m, g)"
  shows "length (collections (flow_items g)) < length (collections (flow_items f))"
proof -
  obtain x where x: "dget (collections (flow_items f)) k = Some x"
    using assms by (auto simp: take_item_def or_default_def exclude_nonempty[of _ "[k]"]
        split: option.splits)
  then have "pop_keys [k] (collections (flow_items f)) = (Inr [x], ddel k (collections (flow_items f)))"
    by simp
  then have "collections (flow_items g) = ddel k (collections (flow_items f))"
    using assms by (auto simp: take_item_def or_default_def exclude_nonempty[of _ "[k]"] got_of_def
        simp del: pop_keys.simps)
  moreover have "length (ddel k d) < length d" if "dhas d k" for d :: "(uuid \<times> 'b) list"
    using that by (rule length_ddel_less)
  ultimately show ?thesis using dgetD[OF x] by simp
qed

lemma pop_message_less:
  assumes "pop_message w s e = (Inr (Some m), e1)"
  shows "held_len w e1 < held_len w e"
proof -
  obtain fid f where f: "find_flow w e = Some (fid, f)"
    using assms by (auto simp: pop_message_def split: option.splits)
  obtain r f1 where g: "get_progression (KName (inbox_name s)) f = (r, f1)" by fastforce
  then have items: "flow_items f1 = flow_items f"
    using get_progression_state[of "KName (inbox_name s)" f] by auto
  from assms f g obtain u where u: "r = Inr u" "queue_len u f1 \<noteq> 0"
    by (auto simp: pop_message_def split: sum.splits if_splits)
  obtain k f2 where p: "pop_left u f1 = (Inr k, f2)" using pop_left_shrinks[OF u(2)] by metis
  then have "flow_items f2 = flow_items f1"
    by (auto simp: pop_left_def split: option.splits prod.splits)
  moreover obtain f3 where t: "take_item k f2 = (Some m, f3)" and e1: "e1 = put_flow fid f3 e"
    using assms f g u p by (auto simp: pop_message_def split: prod.splits)
  ultimately show ?thesis
    using take_item_less[OF t] items f find_put_flow[OF f, of f3] e1 by (simp add: held_len_def)
qed

function pop_all :: "uuid \<Rightarrow> uuid \<Rightarrow> 'c exchange \<Rightarrow> ('c mail list, 'c exchange) eff" where
  "pop_all w s e =
     (case pop_message w s e of
        (Inl err, e1) \<Rightarrow> (Inl err, e1)
      | (Inr None, e1) \<Rightarrow> (Inr [], e1)
      | (Inr (Some m), e1) \<Rightarrow>
          (case pop_all w s e1 of
             (Inl err, e2) \<Rightarrow> (Inl err, e2)
           | (Inr ms, e2) \<Rightarrow> (Inr (m # ms), e2)))"
  by pat_completeness auto
termination
  by (relation "measure (\<lambda>(w, s, e). held_len w e)") (auto dest: pop_message_less[OF sym])

declare pop_all.simps [simp del]

fun pop_senders :: "uuid \<Rightarrow> uuid list \<Rightarrow> 'c exchange \<Rightarrow> ('c mail list, 'c exchange) eff" where
  "pop_senders w [] e = (Inr [], e)"
| "pop_senders w (s # ss) e =
     (case pop_all w s e of
        (Inl err, e1) \<Rightarrow> (Inl err, e1)
      | (Inr ms, e1) \<Rightarrow>
          (case pop_senders w ss e1 of
             (Inl err, e2) \<Rightarrow> (Inl err, e2)
           | (Inr ns, e2) \<Rightarrow> (Inr (ms @ ns), e2)))"

fun deliver_pending ::
    "(nat \<Rightarrow> uuid) \<Rightarrow> nat \<Rightarrow> uuid \<Rightarrow> 'c mail list \<Rightarrow> 'c exchange \<Rightarrow> (unit, 'c exchange) eff" where
  "deliver_pending vs i w [] e = (Inr (), e)"
| "deliver_pending vs i w (m # ms) e =
     (case deliver_locked (vs i) w m e of
        (Inl err, e1) \<Rightarrow> (Inl err, e1)
      | (Inr _, e1) \<Rightarrow> deliver_pending vs (Suc i) w ms (snd (remove_in_flight_locked w m e1)))"

text \<open>\<open>ord\<close> is the order in which Python iterates over a set of senders.\<close>

definition drain_pending ::
    "(nat \<Rightarrow> uuid) \<Rightarrow> (uuid set \<Rightarrow> uuid list) \<Rightarrow> uuid \<Rightarrow> 'c exchange \<Rightarrow> ('c mail list, 'c exchange) eff" where
  "drain_pending vs ord w e =
     (case deliver_pending vs 0 w (pending w e) e of
        (Inl err, e1) \<Rightarrow> (Inl err, e1)
      | (Inr _, e1) \<Rightarrow>
          (case receive w None e1 of
             Inl err \<Rightarrow> (Inl err, e1)
           | Inr ms \<Rightarrow> pop_senders w (ord ((\<lambda>m. m_sender (ebody m)) ` set ms)) e1))"

section \<open>The sync loop\<close>

definition stop :: "'c exchange \<Rightarrow> 'c exchange" where
  "stop e = e\<lparr>stopped := True\<rparr>"

text \<open>\<open>env i\<close> is what other tasks do to the exchange while the loop sleeps after its turn \<open>i\<close>.\<close>

fun run_loop ::
    "nat \<Rightarrow> (nat \<Rightarrow> uuid \<Rightarrow> nat \<Rightarrow> uuid) \<Rightarrow> (nat \<Rightarrow> 'c exchange \<Rightarrow> 'c exchange) \<Rightarrow> nat \<Rightarrow>
     'c exchange \<Rightarrow> (unit, 'c exchange) eff option" where
  "run_loop fuel vs env i e =
     (if stopped e then Some (Inr (), e)
      else (case fuel of
              0 \<Rightarrow> None
            | Suc n \<Rightarrow>
                (case collect_all (vs i) e of
                   (Inl err, e1) \<Rightarrow> Some (Inl err, e1)
                 | (Inr _, e1) \<Rightarrow> run_loop n vs env (Suc i) (env i e1))))"

definition run ::
    "nat \<Rightarrow> (nat \<Rightarrow> uuid \<Rightarrow> nat \<Rightarrow> uuid) \<Rightarrow> (nat \<Rightarrow> 'c exchange \<Rightarrow> 'c exchange) \<Rightarrow>
     'c exchange \<Rightarrow> (unit, 'c exchange) eff option" where
  "run fuel vs env e =
     (if run_started e then Some (Inl RuntimeError, e)
      else run_loop fuel vs env 0 (e\<lparr>run_started := True\<rparr>))"


section \<open>A mailbox is a family of queues\<close>

definition prog_order :: "uuid \<Rightarrow> 'c box \<Rightarrow> uuid list" where
  "prog_order u f =
     (case dget (collections (progs f)) u of None \<Rightarrow> [] | Some p \<Rightarrow> order (ebody p))"

definition item_at :: "'c box \<Rightarrow> uuid \<Rightarrow> 'c mail" where
  "item_at f k = the (dget (collections (flow_items f)) k)"

definition queue :: "string \<Rightarrow> 'c box \<Rightarrow> 'c mail list" where
  "queue n f =
     (case dget (prog_names f) n of None \<Rightarrow> [] | Some u \<Rightarrow> map (item_at f) (prog_order u f))"

abbreviation item_ids :: "'c box \<Rightarrow> uuid set" where
  "item_ids f \<equiv> fst ` set (collections (flow_items f))"

text \<open>Every item is in one progression, at one position.\<close>

definition placed :: "'c box \<Rightarrow> bool" where
  "placed f \<longleftrightarrow>
     (\<forall>u. distinct (prog_order u f)) \<and>
     (\<forall>u v. u \<noteq> v \<longrightarrow> set (prog_order u f) \<inter> set (prog_order v f) = {}) \<and>
     (\<Union>u. set (prog_order u f)) = item_ids f"

definition index_exact :: "'c box \<Rightarrow> bool" where
  "index_exact f \<longleftrightarrow>
     (\<forall>n u. dget (prog_names f) n = Some u \<longleftrightarrow> name_of u f = Some n) \<and>
     (\<forall>u. dhas (collections (progs f)) u \<longrightarrow> name_of u f \<noteq> None)"

definition tagged :: "'c box \<Rightarrow> bool" where
  "tagged f \<longleftrightarrow>
     (\<forall>n. dhas (prog_names f) n \<longrightarrow> n = OUTBOX \<or> (\<exists>s. n = inbox_name s)) \<and>
     (\<forall>n m. m \<in> set (queue n f) \<longrightarrow> n \<noteq> OUTBOX \<longrightarrow> n = inbox_name (m_sender (ebody m)))"

definition box_ok :: "'c box \<Rightarrow> bool" where
  "box_ok f \<longleftrightarrow>
     wf_pile (flow_items f) \<and> wf_pile (progs f) \<and>
     item_type (flow_items f) = None \<and> item_type (progs f) = None \<and>
     bodies_sat members_ok (progs f) \<and> index_exact f \<and> placed f \<and> tagged f"

lemma box_okI:
  "wf_pile (flow_items f) \<Longrightarrow> wf_pile (progs f) \<Longrightarrow> item_type (flow_items f) = None \<Longrightarrow>
   item_type (progs f) = None \<Longrightarrow> bodies_sat members_ok (progs f) \<Longrightarrow> index_exact f \<Longrightarrow>
   placed f \<Longrightarrow> tagged f \<Longrightarrow> box_ok f"
  by (simp add: box_ok_def)

lemma box_okD:
  assumes "box_ok f"
  shows "wf_pile (flow_items f)" "wf_pile (progs f)" "item_type (flow_items f) = None"
    "item_type (progs f) = None" "bodies_sat members_ok (progs f)" "index_exact f" "placed f" "tagged f"
  using assms by (simp_all add: box_ok_def)

lemma index_exactD:
  assumes "index_exact f"
  shows "dget (prog_names f) n = Some u \<longleftrightarrow> name_of u f = Some n"
    "dget (prog_names f) n = Some u \<Longrightarrow> dget (prog_names f) k = Some u \<Longrightarrow> k = n"
    "dget (collections (progs f)) u = Some p \<Longrightarrow> \<exists>n. pg_name (ebody p) = Some n \<and> dget (prog_names f) n = Some u"
proof -
  show a: "dget (prog_names f) n = Some u \<longleftrightarrow> name_of u f = Some n" for n
    using assms by (simp add: index_exact_def)
  show "dget (prog_names f) n = Some u \<Longrightarrow> dget (prog_names f) k = Some u \<Longrightarrow> k = n"
    unfolding a by simp
  assume p: "dget (collections (progs f)) u = Some p"
  then have "name_of u f \<noteq> None" using assms dgetD[OF p] by (simp add: index_exact_def)
  moreover have "name_of u f = pg_name (ebody p)" using p by (simp add: name_of_def)
  ultimately show "\<exists>n. pg_name (ebody p) = Some n \<and> dget (prog_names f) n = Some u"
    unfolding a by (cases "pg_name (ebody p)") simp_all
qed

lemma placedD:
  assumes "placed f"
  shows "distinct (prog_order u f)"
    "u \<noteq> v \<Longrightarrow> k \<in> set (prog_order u f) \<Longrightarrow> k \<notin> set (prog_order v f)"
    "k \<in> set (prog_order u f) \<Longrightarrow> k \<in> item_ids f"
    "k \<in> item_ids f \<Longrightarrow> \<exists>u. k \<in> set (prog_order u f)"
proof -
  show "distinct (prog_order u f)" using assms by (simp add: placed_def)
  show "u \<noteq> v \<Longrightarrow> k \<in> set (prog_order u f) \<Longrightarrow> k \<notin> set (prog_order v f)"
    using assms by (simp add: placed_def disjoint_iff)
  have "(\<Union>u. set (prog_order u f)) = item_ids f" using assms by (simp add: placed_def)
  then show "k \<in> set (prog_order u f) \<Longrightarrow> k \<in> item_ids f" "k \<in> item_ids f \<Longrightarrow> \<exists>u. k \<in> set (prog_order u f)"
    by blast+
qed

lemma item_at_eid: "box_ok f \<Longrightarrow> k \<in> item_ids f \<Longrightarrow> eid (item_at f k) = k"
proof -
  assume b: "box_ok f" and "k \<in> item_ids f"
  then obtain m where "dget (collections (flow_items f)) k = Some m" 
    using dget_key[of k "collections (flow_items f)"] by blast
  then show ?thesis
    using well_keyed_eid[OF wf_pileD(1)[OF box_okD(1)[OF b]]] by (simp add: item_at_def)
qed

lemma queue_eids:
  assumes "box_ok f" "dget (prog_names f) n = Some u"
  shows "map eid (queue n f) = prog_order u f"
  using item_at_eid[OF assms(1)] placedD(3)[OF box_okD(7)[OF assms(1)]] assms(2)
  by (auto simp: queue_def intro: map_idI)

lemma name_of_Some:
  "name_of u f = Some n \<longleftrightarrow> (\<exists>p. dget (collections (progs f)) u = Some p \<and> pg_name (ebody p) = Some n)"
  by (simp add: name_of_def split: option.split)

lemma prog_order_unknown: "\<not> dhas (collections (progs f)) u \<Longrightarrow> prog_order u f = []"
  by (simp add: prog_order_def dget_None_iff[symmetric] del: set_map)

lemma queue_len_order: "queue_len u f = length (prog_order u f)"
  by (simp add: queue_len_def prog_order_def pg_len_def split: option.split)

lemma get_progression_hit [simp]:
  "index_exact f \<Longrightarrow> dget (prog_names f) n = Some u \<Longrightarrow> get_progression (KName n) f = (Inr u, f)"
  using index_exactD(1)[of f n u] by simp

text \<open>A name that is not in the index names no progression, so the lookup fails unless it is an id.\<close>

lemma get_progression_miss:
  assumes "box_ok f" "dget (prog_names f) n = None" "uuid_parse n = None"
  shows "get_progression (KName n) f = (Inl ItemNotFoundError, f)"
proof -
  have "find (\<lambda>e. pg_name (ebody e) = Some n) (elems (progs f)) = None"
  proof (rule ccontr)
    assume "find (\<lambda>e. pg_name (ebody e) = Some n) (elems (progs f)) \<noteq> None"
    then obtain e where e: "e \<in> set (elems (progs f))" "pg_name (ebody e) = Some n"
      using find_in_set by fastforce
    then have "name_of (eid e) f = Some n" using name_of_elem[OF box_okD(2)[OF assms(1)]] by blast
    then show False using index_exactD(1)[OF box_okD(6)[OF assms(1)]] assms(2) by (metis option.simps(3))
  qed
  then show ?thesis
    using assms(2,3) pile_values_wf[OF box_okD(2)[OF assms(1)]]
    by (simp add: scan_name_def prog_by_text_def get_id_def parse_uuid_def)
qed

subsection \<open>Putting a message in\<close>

lemma add_item_hit:
  assumes "box_ok f" "dget (prog_names f) n = Some u"
  shows "add_item x [KName n] f =
    (Inr (), f\<lparr>flow_items := snd (pile_include [IElem x] (flow_items f)),
               progs := upd_prog u (\<lambda>p. snd (pg_append (elem_ref x) p)) (progs f)\<rparr>)"
proof -
  have "fst (pile_include [IElem x] (flow_items f)) = Inr ()"
    using box_okD(1,3)[OF assms(1)] by (simp add: pile_include_one type_ok_def)
  then obtain its where "pile_include [IElem x] (flow_items f) = (Inr (), its)"
    by (metis prod.collapse)
  then show ?thesis
    using get_progression_hit[OF box_okD(6)[OF assms(1)] assms(2)]
    by (simp add: add_item_def del: get_progression.simps)
qed

lemma order_append_item [simp]:
  "order (snd (pg_append (elem_ref x) p)) = order p @ [eid x]"
  "pg_name (snd (pg_append (elem_ref x) p)) = pg_name p"
  by (simp_all add: pg_append_def elem_ref_def Let_def md_append_def md_sync_def ensure_synced_def
      rebuild_members_def)

lemma item_type_include [simp]: "item_type (snd (pile_include is s)) = item_type s"
  by (simp add: pile_include_def Let_def split: sum.split prod.split)

lemma upd_prog_types [simp]: "item_type (upd_prog u f s) = item_type s"
  by (simp add: upd_prog_def split: option.split)

lemma name_of_upd:
  "(\<And>p. pg_name (g p) = pg_name p) \<Longrightarrow>
   name_of v (f\<lparr>flow_items := its, progs := upd_prog u g (progs f)\<rparr>) = name_of v f"
  by (simp add: name_of_def split: option.split)

lemma dhas_upd_prog: "fst ` set (collections (upd_prog u g ps)) = fst ` set (collections ps)"
  using dgetD[of "collections ps" u] by (auto simp: upd_prog_def insert_absorb split: option.split)

text \<open>An update that keeps names keeps the index exact.\<close>

lemma index_exact_upd:
  assumes "index_exact f" "\<And>p. pg_name (g p) = pg_name p"
  shows "index_exact (f\<lparr>flow_items := its, progs := upd_prog u g (progs f)\<rparr>)"
proof -
  have "name_of v (f\<lparr>flow_items := its, progs := upd_prog u g (progs f)\<rparr>) = name_of v f" for v
    by (rule name_of_upd[OF assms(2)])
  then show ?thesis using assms(1) by (simp add: index_exact_def dhas_upd_prog)
qed

lemma put_message:
  assumes ok: "box_ok f" and n: "dget (prog_names f) n = Some u" and new: "eid x \<notin> item_ids f"
    and tag: "n \<noteq> OUTBOX \<Longrightarrow> n = inbox_name (m_sender (ebody x))"
  defines "g \<equiv> snd (add_item x [KName n] f)"
  shows "fst (add_item x [KName n] f) = Inr ()" "box_ok g" "prog_names g = prog_names f"
    "queue k g = (if k = n then queue n f @ [x] else queue k f)"
    "item_ids g = insert (eid x) (item_ids f)"
proof -
  note D = box_okD[OF ok]
  have tyok: "type_ok (item_type (flow_items f)) (strict_type (flow_items f)) (emro x)"
    using D(3) by (simp add: type_ok_def)
  note inc = pile_include_one[OF D(1) tyok]
  show "fst (add_item x [KName n] f) = Inr ()" by (simp add: add_item_hit[OF ok n])
  have g: "g = f\<lparr>flow_items := snd (pile_include [IElem x] (flow_items f)),
      progs := upd_prog u (\<lambda>p. snd (pg_append (elem_ref x) p)) (progs f)\<rparr>"
    by (simp add: g_def add_item_hit[OF ok n])
  show names: "prog_names g = prog_names f" by (simp add: g)
  have idx: "index_exact g" unfolding g by (rule index_exact_upd[OF D(6)]) simp
  show ids: "item_ids g = insert (eid x) (item_ids f)" by (simp add: g inc(2))
  obtain p where p: "dget (collections (progs f)) u = Some p"
    using n index_exactD(1)[OF D(6)] by (auto simp: name_of_Some)
  have ord: "prog_order v g = (if v = u then prog_order u f @ [eid x] else prog_order v f)" for v
    using p by (simp add: g prog_order_def)
  have at: "item_at g j = (if j = eid x then x else item_at f j)" for j
    by (simp add: g item_at_def inc(2))
  have nin: "eid x \<notin> set (prog_order v f)" for v using new placedD(3)[OF D(7)] by blast
  have same: "map (item_at g) (prog_order v f) = map (item_at f) (prog_order v f)" for v
    using nin[of v] by (auto simp: at)
  show q: "queue k g = (if k = n then queue n f @ [x] else queue k f)" for k
  proof (cases "dget (prog_names f) k")
    case None
    then have "k \<noteq> n" using n by auto
    then show ?thesis using None by (simp add: queue_def names)
  next
    case (Some v)
    then have "v = u \<longleftrightarrow> k = n" using n index_exactD(2)[OF D(6)] by (metis option.inject)
    then show ?thesis using Some n same at by (simp add: queue_def names ord)
  qed
  have "placed g"
    unfolding placed_def ids ord
  proof (intro conjI allI impI)
    show "distinct (if v = u then prog_order u f @ [eid x] else prog_order v f)" for v
      using placedD(1)[OF D(7)] nin by simp
    show "set (if v = u then prog_order u f @ [eid x] else prog_order v f) \<inter>
        set (if w = u then prog_order u f @ [eid x] else prog_order w f) = {}" if "v \<noteq> w" for v w
      using that placedD(2)[OF D(7)] nin by (auto simp: disjoint_iff)
    have "(\<Union>v. set (if v = u then prog_order u f @ [eid x] else prog_order v f)) =
        insert (eid x) (\<Union>v. set (prog_order v f))" by (auto split: if_splits)
    also have "\<dots> = insert (eid x) (item_ids f)" using D(7) by (simp add: placed_def)
    finally show "(\<Union>v. set (if v = u then prog_order u f @ [eid x] else prog_order v f)) =
        insert (eid x) (item_ids f)" .
  qed
  moreover have "tagged g"
  proof -
    have "k = inbox_name (m_sender (ebody m))" if "m \<in> set (queue k g)" "k \<noteq> OUTBOX" for k m
    proof (cases "k = n")
      case True
      then have "m \<in> set (queue n f) \<or> m = x" using that(1) by (simp add: q) blast
      then show ?thesis using True that(2) tag D(8) unfolding tagged_def by blast
    next
      case False
      then show ?thesis using that D(8) unfolding tagged_def q by auto
    qed
    then show ?thesis using D(8) unfolding tagged_def names by blast
  qed
  moreover have "bodies_sat members_ok (progs g)"
    unfolding g using D(5) pg_append_ok by (auto intro: bodies_sat_upd)
  moreover have "wf_pile (flow_items g)" "wf_pile (progs g)" "item_type (flow_items g) = None"
    "item_type (progs g) = None"
    using D(1,2,3,4) by (auto simp: g)
  ultimately show "box_ok g" using idx by (intro box_okI)
qed


subsection \<open>Making an inbox\<close>

lemma named_prog_simps [simp]:
  "eid (named_prog v n) = v" "pg_name (ebody (named_prog v n)) = Some n"
  "order (ebody (named_prog v n)) = []" "members_ok (ebody (named_prog v n))"
  by (simp_all add: named_prog_def) (simp add: mk_progression_def rebuild_members_def)

lemma add_named_fresh:
  assumes ok: "box_ok f" and v: "\<not> dhas (collections (progs f)) v" and n: "\<not> dhas (prog_names f) n"
    and nm: "n = OUTBOX \<or> (\<exists>s. n = inbox_name s)"
  defines "g \<equiv> snd (add_progression (named_prog v n) f)"
  shows "fst (add_progression (named_prog v n) f) = Inr ()" "box_ok g"
    "prog_names g = dset n v (prog_names f)" "queue k g = queue k f" "flow_items g = flow_items f"
    "fst ` set (collections (progs g)) = insert v (fst ` set (collections (progs f)))"
proof -
  note D = box_okD[OF ok]
  have ne: "n \<noteq> ''''" using nm by (auto simp: OUTBOX_def inbox_name_def)
  have "type_ok (item_type (progs f)) (strict_type (progs f)) (emro (named_prog v n))"
    using D(4) by (simp add: type_ok_def)
  note inc = pile_include_one[OF D(2) this]
  obtain ps where ps: "pile_include [IElem (named_prog v n)] (progs f) = (Inr (), ps)"
    using inc(1) by (metis prod.collapse)
  then have add: "add_progression (named_prog v n) f =
      (Inr (), f\<lparr>progs := ps, prog_names := dset n v (prog_names f)\<rparr>)"
    using n ne by (simp add: add_progression_def refs_ok_def)
  then show "fst (add_progression (named_prog v n) f) = Inr ()" by simp
  have g: "g = f\<lparr>progs := ps, prog_names := dset n v (prog_names f)\<rparr>" by (simp add: g_def add)
  have cs: "collections ps = dset v (named_prog v n) (collections (progs f))" using inc(2) ps by simp
  show names: "prog_names g = dset n v (prog_names f)" by (simp add: g)
  show items: "flow_items g = flow_items f" by (simp add: g)
  show "fst ` set (collections (progs g)) = insert v (fst ` set (collections (progs f)))"
    by (simp add: g cs)
  have ord: "prog_order w g = prog_order w f" for w
    by (cases "w = v") (simp_all add: prog_order_unknown[OF v], simp_all add: prog_order_def g cs)
  have nmo: "name_of w g = (if w = v then Some n else name_of w f)" for w
    by (simp add: g name_of_def cs)
  have at: "item_at g = item_at f" by (rule ext) (simp add: item_at_def items)
  have nv: "name_of v f = None" using v by (simp add: name_of_def dget_None_iff[symmetric] del: set_map)
  show q: "queue k g = queue k f" for k
  proof (cases "k = n")
    case True
    moreover have "dget (prog_names f) n = None" using n by (simp add: dget_None_iff del: set_map)
    moreover have "prog_order v f = []" using v by (rule prog_order_unknown)
    ultimately show ?thesis by (simp add: queue_def names ord)
  next
    case False
    then show ?thesis by (simp add: queue_def names ord at split: option.split)
  qed
  have E: "dget (prog_names f) k = Some w \<longleftrightarrow> name_of w f = Some k" for k w
    by (rule index_exactD(1)[OF D(6)])
  have "dget (prog_names f) n = None" using n by (simp add: dget_None_iff del: set_map)
  then have "name_of w f \<noteq> Some n" for w using E[of n w] by simp
  then have "dget (prog_names g) k = Some w \<longleftrightarrow> name_of w g = Some k" for k w
    unfolding names nmo using E[of k w] nv by auto
  moreover have "name_of w g \<noteq> None" if "dhas (collections (progs g)) w" for w
  proof (cases "w = v")
    case False
    then have "dhas (collections (progs f)) w" using that by (simp add: g cs)
    then show ?thesis using D(6) False unfolding nmo index_exact_def by simp
  qed (simp add: nmo)
  ultimately have "index_exact g" unfolding index_exact_def by blast
  moreover have "placed g" using D(7) by (simp add: placed_def ord items)
  moreover have "tagged g" using D(8) nm unfolding tagged_def q names by auto
  moreover have "bodies_sat members_ok (progs g)"
    using bodies_sat_include[OF D(2,5), of "named_prog v n"] ps by (simp add: g)
  moreover have "wf_pile (progs g)" "item_type (progs g) = None"
    using wf_pile_include[OF D(2), of "[IElem (named_prog v n)]"] D(4)
      item_type_include[of "[IElem (named_prog v n)]" "progs f"] ps by (simp_all add: g)
  ultimately show "box_ok g" using D(1,3) items by (intro box_okI) simp_all
qed

lemma ensure_inbox_ok:
  assumes "box_ok f" "\<not> dhas (collections (progs f)) v" "n = inbox_name s"
  obtains g where "ensure_inbox v n f = (Inr (), g)" "box_ok g" "dhas (prog_names g) n"
    "\<And>k. queue k g = queue k f" "flow_items g = flow_items f"
    "\<And>k. dhas (prog_names f) k \<Longrightarrow> dhas (prog_names g) k"
    "fst ` set (collections (progs g)) \<subseteq> insert v (fst ` set (collections (progs f)))"
proof (cases "dhas (prog_names f) n")
  case True
  have "n \<noteq> ''''" using assms(3) by (auto simp: inbox_name_def)
  then have "add_progression (named_prog v n) f = (Inl ItemExistsError, f)"
    using True by (simp add: add_progression_def)
  then show ?thesis using that[of f] True assms(1) by (auto simp: ensure_inbox_def)
next
  case False
  obtain g where g: "add_progression (named_prog v n) f = (Inr (), g)"
    using add_named_fresh(1)[OF assms(1,2) False] assms(3) by (metis prod.collapse)
  note A = add_named_fresh[OF assms(1,2) False disjI2[OF exI[of "\<lambda>s. n = inbox_name s", OF assms(3)]], unfolded g]
  show ?thesis
    using that[of g] A(2-6) g by (auto simp: ensure_inbox_def)
qed

subsection \<open>Taking the first message out\<close>

lemma popleft_takes_head:
  assumes "order p = k # ks"
  shows "pg_popleft p = (Inr k, snd (pg_popleft p))" "order (snd (pg_popleft p)) = ks"
    "pg_name (snd (pg_popleft p)) = pg_name p"
  using assms
  by (auto simp: pg_popleft_def md_popleft_def md_sync_def ensure_synced_def rebuild_members_def
      split: prod.split)

lemma take_head:
  assumes ok: "box_ok f" and n: "dget (prog_names f) n = Some u" and ks: "prog_order u f = k # ks"
  obtains f1 f2 where "pop_left u f = (Inr k, f1)" "take_item k f1 = (Some (hd (queue n f)), f2)"
    "box_ok f2" "prog_names f2 = prog_names f"
    "\<And>j. queue j f2 = (if j = n then tl (queue n f) else queue j f)"
    "item_ids f2 = item_ids f - {k}" "prog_order u f2 = ks"
    "fst ` set (collections (progs f2)) = fst ` set (collections (progs f))"
proof -
  note D = box_okD[OF ok]
  obtain p where p: "dget (collections (progs f)) u = Some p" "order (ebody p) = k # ks"
    using ks by (auto simp: prog_order_def split: option.splits)
  define q where "q = snd (pg_popleft (ebody p))"
  note P = popleft_takes_head[OF p(2), folded q_def]
  define f1 where "f1 = f\<lparr>progs := upd_prog u (\<lambda>_. q) (progs f)\<rparr>"
  have pop: "pop_left u f = (Inr k, f1)" using p P(1) by (simp add: pop_left_def f1_def)
  have kin: "k \<in> item_ids f" using placedD(3)[OF D(7), of k u] ks by simp
  obtain m where m: "dget (collections (flow_items f)) k = Some m" using dget_key[OF kin] by blast
  define f2 where "f2 = f\<lparr>flow_items := without [k] (flow_items f), progs := upd_prog u (\<lambda>_. q) (progs f)\<rparr>"
  have "take_item k f1 = (Some m, f2)"
    using pop_one_result[OF D(1) m, of 0 True]
    by (simp add: take_item_def f1_def f2_def del: pop.simps)
  moreover have "hd (queue n f) = m" using n ks m by (simp add: queue_def item_at_def)
  ultimately have tk: "take_item k f1 = (Some (hd (queue n f)), f2)" by simp
  have names: "prog_names f2 = prog_names f" by (simp add: f2_def)
  have ids: "item_ids f2 = item_ids f - {k}" by (simp add: f2_def without_def)
  have ord: "prog_order v f2 = (if v = u then ks else prog_order v f)" for v
    using p P(2) by (simp add: f2_def prog_order_def)
  have kk: "fst ` set (collections (progs f2)) = fst ` set (collections (progs f))"
    by (simp add: f2_def dhas_upd_prog)
  have kn: "k \<notin> set ks" "v \<noteq> u \<Longrightarrow> k \<notin> set (prog_order v f)" for v
    using placedD(1)[OF D(7), of u] placedD(2)[OF D(7), of u v k] ks by auto
  have at: "item_at f2 j = item_at f j" if "j \<noteq> k" for j using that by (simp add: item_at_def f2_def)
  have q: "queue j f2 = (if j = n then tl (queue n f) else queue j f)" for j
  proof (cases "dget (prog_names f) j")
    case None
    then show ?thesis using n by (auto simp: queue_def names)
  next
    case (Some v)
    then have v: "v = u \<longleftrightarrow> j = n" using n index_exactD(2)[OF D(6)] by (metis option.inject)
    have "k \<notin> set (prog_order v f2)" using kn(1) kn(2)[of v] by (simp add: ord)
    then have "map (item_at f2) (prog_order v f2) = map (item_at f) (prog_order v f2)"
      using at by (metis (no_types, lifting) map_eq_conv)
    then show ?thesis using Some v n ks by (auto simp: queue_def names ord)
  qed
  have "name_of v f2 = name_of v f" for v using p P(3) by (simp add: f2_def name_of_def)
  then have idx: "index_exact f2" using D(6) by (simp add: index_exact_def names kk)
  have "placed f2"
    unfolding placed_def ord ids
  proof (intro conjI allI impI)
    show "distinct (if v = u then ks else prog_order v f)" for v
      using placedD(1)[OF D(7)] ks by (metis distinct.simps(2))
    show "set (if v = u then ks else prog_order v f) \<inter> set (if w = u then ks else prog_order w f) = {}"
      if "v \<noteq> w" for v w
    proof -
      have "set (if v = u then ks else prog_order v f) \<subseteq> set (prog_order v f)" for v
        using ks by auto
      moreover have "set (prog_order v f) \<inter> set (prog_order w f) = {}"
        using D(7) that by (simp add: placed_def)
      ultimately show ?thesis by blast
    qed
    have "(\<Union>v. set (if v = u then ks else prog_order v f)) = (\<Union>v. set (prog_order v f)) - {k}"
    proof (rule set_eqI)
      fix x
      have "x \<in> set (if v = u then ks else prog_order v f) \<longleftrightarrow> x \<in> set (prog_order v f) \<and> x \<noteq> k" for v
        using kn(1) kn(2)[of v] ks by auto
      then show "x \<in> (\<Union>v. set (if v = u then ks else prog_order v f)) \<longleftrightarrow>
          x \<in> (\<Union>v. set (prog_order v f)) - {k}" by blast
    qed
    also have "\<dots> = item_ids f - {k}" using D(7) by (simp add: placed_def)
    finally show "(\<Union>v. set (if v = u then ks else prog_order v f)) = item_ids f - {k}" .
  qed
  moreover have "tagged f2"
  proof -
    have "set (queue j f2) \<subseteq> set (queue j f)" for j
      unfolding q by (cases "queue n f") auto
    then show ?thesis using D(8) unfolding tagged_def names by blast
  qed
  moreover have "members_ok q"
    using D(5) p(1) pg_popleft_ok unfolding bodies_sat_def q_def by blast
  then have "bodies_sat members_ok (progs f2)"
    using bodies_sat_upd[OF D(5), of "\<lambda>_. q" u] by (simp add: f2_def)
  moreover have "wf_pile (flow_items f2)" "wf_pile (progs f2)" "item_type (flow_items f2) = None"
    "item_type (progs f2) = None"
    using D(1-4) by (auto simp: f2_def)
  ultimately have "box_ok f2" using idx by (intro box_okI)
  then show ?thesis using that[OF pop tk _ names q ids _ kk] ord by simp
qed

lemma empty_queue_result:
  assumes "box_ok f" "dget (prog_names f) n = Some u"
  shows "\<exists>g. empty_queue u f = (queue n f, g) \<and> box_ok g \<and> prog_names g = prog_names f \<and>
    (\<forall>j. queue j g = (if j = n then [] else queue j f)) \<and>
    item_ids g = item_ids f - eid ` set (queue n f) \<and>
    fst ` set (collections (progs g)) = fst ` set (collections (progs f))"
  using assms
proof (induction "prog_order u f" arbitrary: f)
  case Nil
  then have "queue n f = []" by (simp add: queue_def)
  moreover have "empty_queue u f = ([], f)"
    using Nil by (subst empty_queue.simps) (simp add: queue_len_order)
  ultimately show ?case using Nil by auto
next
  case (Cons k ks)
  obtain f1 f2 where t: "pop_left u f = (Inr k, f1)" "take_item k f1 = (Some (hd (queue n f)), f2)"
    "box_ok f2" "prog_names f2 = prog_names f"
    "\<And>j. queue j f2 = (if j = n then tl (queue n f) else queue j f)"
    "item_ids f2 = item_ids f - {k}" "prog_order u f2 = ks"
    "fst ` set (collections (progs f2)) = fst ` set (collections (progs f))"
    using take_head[OF Cons.prems Cons.hyps(2)[symmetric]] by blast
  have "dget (prog_names f2) n = Some u" using t(4) Cons.prems(2) by simp
  from Cons.hyps(1)[OF t(7)[symmetric] t(3) this] obtain g where
    g: "empty_queue u f2 = (queue n f2, g)" "box_ok g" "prog_names g = prog_names f2"
    "\<forall>j. queue j g = (if j = n then [] else queue j f2)"
    "item_ids g = item_ids f2 - eid ` set (queue n f2)"
    "fst ` set (collections (progs g)) = fst ` set (collections (progs f2))" by (elim exE conjE) (rule that, assumption+)
  have ids: "map eid (queue n f) = k # ks" using queue_eids[OF Cons.prems] Cons.hyps(2) by simp
  then obtain m ms where ms: "queue n f = m # ms" "eid m = k" by auto
  have "empty_queue u f = (m # ms, g)"
    using t(1,2) g(1) ms t(5) Cons.hyps(2)[symmetric]
    by (subst empty_queue.simps) (simp add: queue_len_order)
  moreover have "queue j g = (if j = n then [] else queue j f)" for j using g(4) t(5) by simp
  moreover have "item_ids g = item_ids f - eid ` set (queue n f)" using g(5) t(5,6) ms by auto
  ultimately show ?case using g(2,3,6) t(4,8) ms(1) by auto
qed


subsection \<open>Reading\<close>

lemma queue_index: "queue n f \<noteq> [] \<Longrightarrow> \<exists>u. dget (prog_names f) n = Some u"
  by (cases "dget (prog_names f) n") (simp_all add: queue_def)

lemma item_ids_queues: "box_ok f \<Longrightarrow> item_ids f = (\<Union>n. eid ` set (queue n f))"
proof -
  assume ok: "box_ok f"
  note D = box_okD[OF ok]
  have one: "eid ` set (queue n f) = set (prog_order u f)" if "dget (prog_names f) n = Some u" for n u
    using queue_eids[OF ok that] by (metis list.set_map)
  show ?thesis
  proof (intro set_eqI iffI)
    fix k assume "k \<in> item_ids f"
    then obtain u where u: "k \<in> set (prog_order u f)" using placedD(4)[OF D(7)] by blast
    then obtain p where "dget (collections (progs f)) u = Some p"
      by (cases "dget (collections (progs f)) u") (simp_all add: prog_order_def)
    then obtain n where "dget (prog_names f) n = Some u" using index_exactD(3)[OF D(6)] by blast
    then show "k \<in> (\<Union>n. eid ` set (queue n f))" using one u by blast
  next
    fix k assume "k \<in> (\<Union>n. eid ` set (queue n f))"
    then obtain n where n: "k \<in> eid ` set (queue n f)" by blast
    then obtain u where "dget (prog_names f) n = Some u" using queue_index[of n f] by fastforce
    then show "k \<in> item_ids f" using one n placedD(3)[OF D(7)] by blast
  qed
qed

lemma outbox_no_inbox [simp]: "inbox_name s \<noteq> OUTBOX" "OUTBOX \<noteq> inbox_name s"
  by (simp_all add: inbox_name_def OUTBOX_def)

lemma inbox_prefix [simp]: "take 6 (inbox_name s) = ''inbox_''" "take 6 OUTBOX \<noteq> ''inbox_''"
  by (simp_all add: inbox_name_def OUTBOX_def)

lemma map_filter_total: "(\<And>x. x \<in> set xs \<Longrightarrow> f x = Some (g x)) \<Longrightarrow> List.map_filter f xs = map g xs"
  by (induction xs) simp_all

lemma inbox_name_inject [simp]: "inbox_name s = inbox_name t \<longleftrightarrow> s = t"
  by (simp add: inbox_name_def uuid_str_inject)

lemma inbox_not_uuid: "uuid_parse (inbox_name s) = None"
proof -
  have chars: "set (inbox_name s) \<subseteq> set ''inbox_-'' \<union> hexset"
    using uuid_str_chars[of s] by (auto simp: inbox_name_def)
  have "CHR '':'' \<notin> set (inbox_name s)" "CHR ''{'' \<notin> set (inbox_name s)" "CHR ''}'' \<notin> set (inbox_name s)"
    using chars by (auto simp: hexset_def)
  then have "erase ''urn:'' 0 (inbox_name s) = inbox_name s" "erase ''uuid:'' 0 (inbox_name s) = inbox_name s"
    "strip_chars ''{}'' (inbox_name s) = inbox_name s"
    using erase_absent[of "CHR '':''"] strip_chars_absent[of "''{}''" "inbox_name s"] by auto
  moreover have "erase ''-'' 0 (inbox_name s) = ''inbox_'' @ hex32 s"
    by (simp add: erase_char inbox_name_def uuid_str_hex del: erase.simps)
  moreover have "32 \<le> length (hex32 s)" by (simp add: hex32_def Let_def)
  ultimately show ?thesis by (simp add: uuid_parse_def Let_def)
qed

text \<open>What \<open>receive\<close> shows without a sender: the messages of all the inboxes.\<close>

lemma box_receive_all:
  assumes ok: "box_ok f"
  obtains ms where "box_receive None f = Inr ms" "set ms = (\<Union>s. set (queue (inbox_name s) f))"
proof -
  note D = box_okD[OF ok]
  let ?part = "\<lambda>p. if inbox_shown None (pg_name (ebody p))
      then List.map_filter (\<lambda>k. item_get k f) (order (ebody p)) else []"
  have part: "?part p = (if take 6 n = ''inbox_'' then queue n f else [])"
    if "p \<in> set (elems (progs f))" "pg_name (ebody p) = Some n" "dget (prog_names f) n = Some (eid p)" for p n
  proof -
    have "dget (collections (progs f)) (eid p) = Some p" using that(1) elems_dget[OF D(2)] by blast
    then have ord: "order (ebody p) = prog_order (eid p) f" by (simp add: prog_order_def)
    have "item_get k f = Some (item_at f k)" if k: "k \<in> set (prog_order (eid p) f)" for k
    proof -
      obtain m where "dget (collections (flow_items f)) k = Some m"
        using dget_key[OF placedD(3)[OF D(7) k]] by blast
      then show ?thesis by (simp add: item_get_def item_at_def del: get.simps)
    qed
    then have "List.map_filter (\<lambda>k. item_get k f) (order (ebody p)) = map (item_at f) (prog_order (eid p) f)"
      unfolding ord by (rule map_filter_total)
    then show ?thesis using that(2,3) by (simp add: inbox_shown_def queue_def)
  qed
  have named: "\<exists>n. pg_name (ebody p) = Some n \<and> dget (prog_names f) n = Some (eid p)"
    if "p \<in> set (elems (progs f))" for p
    using that elems_dget[OF D(2), of p] index_exactD(3)[OF D(6)] by blast
  have "set (concat (map ?part (elems (progs f)))) = (\<Union>s. set (queue (inbox_name s) f))"
  proof (intro set_eqI iffI)
    fix m assume "m \<in> set (concat (map ?part (elems (progs f))))"
    then obtain p where p: "p \<in> set (elems (progs f))" "m \<in> set (?part p)" by (auto simp: set_concat)
    then obtain n where n: "pg_name (ebody p) = Some n" "dget (prog_names f) n = Some (eid p)"
      using named by blast
    then have mn: "take 6 n = ''inbox_''" "m \<in> set (queue n f)"
      using part[OF p(1) n] p(2) by (auto split: if_splits)
    moreover have "n = OUTBOX \<or> (\<exists>s. n = inbox_name s)" using D(8) dgetD[OF n(2)] unfolding tagged_def by blast
    ultimately show "m \<in> (\<Union>s. set (queue (inbox_name s) f))" using inbox_prefix(2) by blast
  next
    fix m assume "m \<in> (\<Union>s. set (queue (inbox_name s) f))"
    then obtain s where s: "m \<in> set (queue (inbox_name s) f)" by blast
    then obtain u where u: "dget (prog_names f) (inbox_name s) = Some u"
      using queue_index[of "inbox_name s" f] by fastforce
    then obtain p where p: "dget (collections (progs f)) u = Some p" "pg_name (ebody p) = Some (inbox_name s)"
      using index_exactD(1)[OF D(6)] by (auto simp: name_of_Some)
    moreover have eu: "eid p = u" using well_keyed_eid[OF wf_pileD(1)[OF D(2)] p(1)] .
    ultimately have pin: "p \<in> set (elems (progs f))" using elems_dget[OF D(2), of p] by simp
    have "dget (prog_names f) (inbox_name s) = Some (eid p)" using u eu by simp
    then have "?part p = queue (inbox_name s) f" using part[OF pin p(2)] by simp
    then have "m \<in> set (?part p)" using s by simp
    then show "m \<in> set (concat (map ?part (elems (progs f))))"
      unfolding set_concat set_map using pin by blast
  qed
  then show ?thesis
    using that[of "concat (map ?part (elems (progs f)))"] pile_values_wf[OF D(2)]
    by (simp add: box_receive_def)
qed

end
