(* ===== verification/Exchange_Mail.thy ===== *)
theory Exchange_Mail
  imports Exchange "HOL-Library.Multiset"
begin

text \<open>
  The message exchange seen as a post office: for every owner a family of queues and the mail in
  flight to it (\<open>office\<close>).  Each operation of \<open>Exchange\<close> is a function on that abstract state
  (\<open>office_step\<close>), and the concrete state with its piles, progressions and indexes is proved to follow
  it.  From the abstract steps: mail is conserved under any interleaving of operations and
  deliveries, the order of a sender is kept when deliveries run in their order, and draining
  a mailbox leaves nothing behind and nothing to deliver a second time.
\<close>

section \<open>The exchange as a post office\<close>

text \<open>The abstract state: who has a mailbox, the queues of each, and the mail in flight to each.\<close>

record 'c office =
  o_owners :: "uuid list"
  o_q :: "uuid \<Rightarrow> string \<Rightarrow> 'c mail list"
  o_fly :: "uuid \<Rightarrow> 'c mail list"

definition set_q :: "uuid \<Rightarrow> string \<Rightarrow> 'c mail list \<Rightarrow> 'c office \<Rightarrow> 'c office" where
  "set_q w n ms a = a\<lparr>o_q := (o_q a)(w := (o_q a w)(n := ms))\<rparr>"

definition to_owner :: "uuid \<Rightarrow> (uuid \<times> 'c mail) list \<Rightarrow> 'c mail list" where
  "to_owner r ds = map snd (filter (\<lambda>d. fst d = r) ds)"

datatype 'c ex_op =
    XRegister uuid uuid uuid uuid uuid
  | XUnregister uuid
  | XSend uuid uuid "uuid option" 'c "string option"
  | XCollectBegin uuid
  | XDeliver uuid uuid "'c mail"
  | XPop uuid uuid
  | XStop

fun office_step :: "'c office \<Rightarrow> 'c ex_op \<Rightarrow> 'c office" where
  "office_step a (XRegister fid i j v w) =
     (if w \<in> set (o_owners a) then a else a\<lparr>o_owners := o_owners a @ [w]\<rparr>)"
| "office_step a (XUnregister w) =
     a\<lparr>o_owners := filter (\<lambda>x. x \<noteq> w) (o_owners a), o_q := (o_q a)(w := \<lambda>_. [])\<rparr>"
| "office_step a (XSend u s r c ch) =
     (if s \<in> set (o_owners a)
      then set_q s OUTBOX (o_q a s OUTBOX @ [Elem u [''Message'']
             \<lparr>m_sender = s, m_recipient = r, m_content = c, m_channel = ch\<rparr>]) a
      else a)"
| "office_step a (XCollectBegin w) =
     (if w \<in> set (o_owners a)
      then (let ds = concat (map (route (o_owners a) w) (o_q a w OUTBOX))
            in (set_q w OUTBOX [] a)\<lparr>o_fly := \<lambda>r. o_fly a r @ to_owner r ds\<rparr>)
      else a)"
| "office_step a (XDeliver v w m) =
     (if m \<in> set (o_fly a w)
      then (let n = inbox_name (m_sender (ebody m));
                b = (if w \<in> set (o_owners a) then set_q w n (o_q a w n @ [m]) a else a)
            in b\<lparr>o_fly := (o_fly a)(w := remove1 m (o_fly a w))\<rparr>)
      else a)"
| "office_step a (XPop w s) = set_q w (inbox_name s) (tl (o_q a w (inbox_name s))) a"
| "office_step a XStop = a"

fun ex_step :: "'c exchange \<Rightarrow> 'c ex_op \<Rightarrow> 'c exchange" where
  "ex_step e (XRegister fid i j v w) = snd (register_owner fid i j v w e)"
| "ex_step e (XUnregister w) = snd (unregister_owner w e)"
| "ex_step e (XSend u s r c ch) = snd (send u s r c ch e)"
| "ex_step e (XCollectBegin w) = snd (collect_begin w e)"
| "ex_step e (XDeliver v w m) = snd (deliver_to v w m e)"
| "ex_step e (XPop w s) = snd (pop_message w s e)"
| "ex_step e XStop = stop e"

definition mail_queue :: "uuid \<Rightarrow> string \<Rightarrow> 'c exchange \<Rightarrow> 'c mail list" where
  "mail_queue w n e = (case find_flow w e of None \<Rightarrow> [] | Some (_, f) \<Rightarrow> queue n f)"

definition office_of :: "'c exchange \<Rightarrow> 'c office" where
  "office_of e =
     \<lparr>o_owners = owner_ids e, o_q = \<lambda>w n. mail_queue w n e, o_fly = \<lambda>w. pending w e\<rparr>"

definition known_ids :: "'c office \<Rightarrow> uuid set" where
  "known_ids a = (\<Union>w. eid ` set (o_fly a w) \<union> (\<Union>n. eid ` set (o_q a w n)))"

text \<open>The ids drawn by an operation are new: not the id of a flow, a message or a progression it meets.\<close>

definition used_ids :: "'c exchange \<Rightarrow> uuid set" where
  "used_ids e =
     (\<Union>x \<in> set (collections (ex_flows e)). fst ` set (collections (flow_items (ebody (snd x))))) \<union>
     (\<Union>x \<in> set (in_flight e). eid ` set (snd x))"

fun ids_fresh :: "'c exchange \<Rightarrow> 'c ex_op \<Rightarrow> bool" where
  "ids_fresh e (XRegister fid i j v w) \<longleftrightarrow> \<not> dhas (collections (ex_flows e)) fid"
| "ids_fresh e (XSend u s r c ch) \<longleftrightarrow> u \<notin> used_ids e"
| "ids_fresh e (XDeliver v w m) \<longleftrightarrow>
     (case find_flow w e of None \<Rightarrow> True | Some (_, f) \<Rightarrow> \<not> dhas (collections (progs f)) v)"
| "ids_fresh e _ \<longleftrightarrow> True"

abbreviation all_fresh :: "'c exchange \<Rightarrow> 'c ex_op list \<Rightarrow> bool" where
  "all_fresh \<equiv> enabled_run ex_step ids_fresh"

section \<open>Invariants\<close>

definition boxes_ok :: "'c exchange \<Rightarrow> bool" where
  "boxes_ok e \<longleftrightarrow>
     wf_pile (ex_flows e) \<and> item_type (ex_flows e) = None \<and>
     (\<forall>w fid. dget (owner_index e) w = Some fid \<longrightarrow>
        (\<exists>x. dget (collections (ex_flows e)) fid = Some x \<and> box_ok (ebody x) \<and>
             dhas (prog_names (ebody x)) OUTBOX)) \<and>
     (\<forall>w v fid. dget (owner_index e) w = Some fid \<longrightarrow> dget (owner_index e) v = Some fid \<longrightarrow> v = w)"

definition office_ok :: "'c office \<Rightarrow> bool" where
  "office_ok a \<longleftrightarrow>
     distinct (o_owners a) \<and>
     (\<forall>w n. w \<notin> set (o_owners a) \<longrightarrow> o_q a w n = []) \<and>
     (\<forall>w n. distinct (map eid (o_q a w n))) \<and>
     (\<forall>w. distinct (map eid (o_fly a w))) \<and>
     (\<forall>w n. eid ` set (o_q a w n) \<inter> eid ` set (o_fly a w) = {}) \<and>
     (\<forall>w m. m \<in> set (o_q a w OUTBOX) \<longrightarrow>
        m_sender (ebody m) = w \<and>
        (\<forall>v n. (v, n) \<noteq> (w, OUTBOX) \<longrightarrow> eid m \<notin> eid ` set (o_q a v n)) \<and>
        (\<forall>v. eid m \<notin> eid ` set (o_fly a v)))"

definition ex_ok :: "'c exchange \<Rightarrow> bool" where
  "ex_ok e \<longleftrightarrow> boxes_ok e \<and> office_ok (office_of e)"

lemma office_okD:
  assumes "office_ok a"
  shows "distinct (o_owners a)" "w \<notin> set (o_owners a) \<Longrightarrow> o_q a w n = []"
    "distinct (map eid (o_q a w n))" "distinct (map eid (o_fly a w))"
    "m \<in> set (o_q a w n) \<Longrightarrow> m' \<in> set (o_fly a w) \<Longrightarrow> eid m \<noteq> eid m'"
    "m \<in> set (o_q a w OUTBOX) \<Longrightarrow> m_sender (ebody m) = w"
    "m \<in> set (o_q a w OUTBOX) \<Longrightarrow> m' \<in> set (o_q a v n) \<Longrightarrow> eid m' = eid m \<Longrightarrow> v = w \<and> n = OUTBOX"
    "m \<in> set (o_q a w OUTBOX) \<Longrightarrow> m' \<in> set (o_fly a v) \<Longrightarrow> eid m \<noteq> eid m'"
proof -
  show "m \<in> set (o_q a w n) \<Longrightarrow> m' \<in> set (o_fly a w) \<Longrightarrow> eid m \<noteq> eid m'"
    using assms unfolding office_ok_def by blast
  show "m \<in> set (o_q a w OUTBOX) \<Longrightarrow> m_sender (ebody m) = w"
    using assms unfolding office_ok_def by blast
  have "m \<in> set (o_q a w OUTBOX) \<Longrightarrow> (v, n) \<noteq> (w, OUTBOX) \<Longrightarrow> eid m \<notin> eid ` set (o_q a v n)"
    using assms unfolding office_ok_def by blast
  then show "m \<in> set (o_q a w OUTBOX) \<Longrightarrow> m' \<in> set (o_q a v n) \<Longrightarrow> eid m' = eid m \<Longrightarrow> v = w \<and> n = OUTBOX"
    using imageI[of m' "set (o_q a v n)" eid] by auto
  have "m \<in> set (o_q a w OUTBOX) \<Longrightarrow> eid m \<notin> eid ` set (o_fly a v)"
  proof -
    have F: "\<forall>w m. m \<in> set (o_q a w OUTBOX) \<longrightarrow> m_sender (ebody m) = w \<and>
        (\<forall>v n. (v, n) \<noteq> (w, OUTBOX) \<longrightarrow> eid m \<notin> eid ` set (o_q a v n)) \<and>
        (\<forall>v. eid m \<notin> eid ` set (o_fly a v))"
      using assms unfolding office_ok_def by (elim conjE)
    show "eid m \<notin> eid ` set (o_fly a v)" if m: "m \<in> set (o_q a w OUTBOX)"
      using conjunct2[OF conjunct2[OF mp[OF spec[OF spec[OF F, of w], of m] m]]] ..
  qed
  then show "m \<in> set (o_q a w OUTBOX) \<Longrightarrow> m' \<in> set (o_fly a v) \<Longrightarrow> eid m \<noteq> eid m'" by blast
qed (use assms in \<open>simp_all add: office_ok_def\<close>)

lemma office_okI:
  assumes "distinct (o_owners a)" "\<And>w n. w \<notin> set (o_owners a) \<Longrightarrow> o_q a w n = []"
    "\<And>w n. distinct (map eid (o_q a w n))" "\<And>w. distinct (map eid (o_fly a w))"
    "\<And>w n m m'. m \<in> set (o_q a w n) \<Longrightarrow> m' \<in> set (o_fly a w) \<Longrightarrow> eid m \<noteq> eid m'"
    "\<And>w m. m \<in> set (o_q a w OUTBOX) \<Longrightarrow> m_sender (ebody m) = w"
    "\<And>w m m' v n. m \<in> set (o_q a w OUTBOX) \<Longrightarrow> m' \<in> set (o_q a v n) \<Longrightarrow> eid m' = eid m \<Longrightarrow>
       v = w \<and> n = OUTBOX"
    "\<And>w m m' v. m \<in> set (o_q a w OUTBOX) \<Longrightarrow> m' \<in> set (o_fly a v) \<Longrightarrow> eid m \<noteq> eid m'"
  shows "office_ok a"
proof -
  have "eid ` set (o_q a w n) \<inter> eid ` set (o_fly a w) = {}" for w n using assms(5) by blast
  moreover have "eid m \<notin> eid ` set (o_q a v n)"
    if "m \<in> set (o_q a w OUTBOX)" "(v, n) \<noteq> (w, OUTBOX)" for w m v n
    using assms(7)[OF that(1)] that(2) by (metis imageE)
  moreover have "eid m \<notin> eid ` set (o_fly a v)" if "m \<in> set (o_q a w OUTBOX)" for w m v
    using assms(8)[OF that] by blast
  ultimately show ?thesis using assms(1-4,6) unfolding office_ok_def by simp
qed

section \<open>The abstract steps keep the invariant\<close>

lemma set_q_simps [simp]:
  "o_owners (set_q w n ms a) = o_owners a" "o_fly (set_q w n ms a) = o_fly a"
  "o_q (set_q w n ms a) v k = (if v = w \<and> k = n then ms else o_q a v k)"
  by (simp_all add: set_q_def)

lemma fly_update_simps [simp]:
  "o_owners (a\<lparr>o_fly := g\<rparr>) = o_owners a" "o_q (a\<lparr>o_fly := g\<rparr>) = o_q a"
  by simp_all

lemma office_send_ok:
  assumes "office_ok a" "s \<in> set (o_owners a)" "m_sender (ebody m) = s" "eid m \<notin> known_ids a"
  shows "office_ok (set_q s OUTBOX (o_q a s OUTBOX @ [m]) a)"
proof -
  note D = office_okD[OF assms(1)]
  have new: "eid m \<noteq> eid x" if "x \<in> set (o_q a v n) \<or> x \<in> set (o_fly a v)" for x v n
    using that assms(4) by (auto simp: known_ids_def)
  show ?thesis
  proof (rule office_okI)
    show "distinct (map eid (o_q (set_q s OUTBOX (o_q a s OUTBOX @ [m]) a) w n))" for w n
      using D(3)[of w n] D(3)[of s OUTBOX] new[of _ s OUTBOX] by auto
  next
    fix w n x y
    assume "x \<in> set (o_q (set_q s OUTBOX (o_q a s OUTBOX @ [m]) a) w n)"
      "y \<in> set (o_fly (set_q s OUTBOX (o_q a s OUTBOX @ [m]) a) w)"
    then show "eid x \<noteq> eid y" using D(5)[of x w n y] new[of y w] by (auto split: if_splits)
  next
    fix w x y v n
    assume "x \<in> set (o_q (set_q s OUTBOX (o_q a s OUTBOX @ [m]) a) w OUTBOX)"
      "y \<in> set (o_q (set_q s OUTBOX (o_q a s OUTBOX @ [m]) a) v n)" "eid y = eid x"
    then show "v = w \<and> n = OUTBOX"
      using D(7)[of x w y v n] new[of y v n] new[of x w OUTBOX] by (auto split: if_splits)
  next
    fix w x y v
    assume "x \<in> set (o_q (set_q s OUTBOX (o_q a s OUTBOX @ [m]) a) w OUTBOX)"
      "y \<in> set (o_fly (set_q s OUTBOX (o_q a s OUTBOX @ [m]) a) v)"
    then show "eid x \<noteq> eid y" using D(8)[of x w y v] new[of y v] by (auto split: if_splits)
  qed (use D assms(2,3) in \<open>auto split: if_splits\<close>)
qed

lemma office_take_ok:
  assumes "office_ok a" "set ms \<subseteq> set (o_q a w n)" "distinct (map eid ms)" "w \<in> set (o_owners a) \<or> ms = []"
  shows "office_ok (set_q w n ms a)"
proof -
  note D = office_okD[OF assms(1)]
  have sub: "x \<in> set (o_q (set_q w n ms a) v k) \<Longrightarrow> x \<in> set (o_q a v k)" for x v k
    using assms(2) by (auto split: if_splits)
  show ?thesis
  proof (rule office_okI)
    show "v \<notin> set (o_owners (set_q w n ms a)) \<Longrightarrow> o_q (set_q w n ms a) v k = []" for v k
      using D(2)[of v k] assms(4) by auto
    show "distinct (map eid (o_q (set_q w n ms a) v k))" for v k using D(3)[of v k] assms(3) by simp
    show "x \<in> set (o_q (set_q w n ms a) v OUTBOX) \<Longrightarrow> y \<in> set (o_q (set_q w n ms a) v' k) \<Longrightarrow>
        eid y = eid x \<Longrightarrow> v' = v \<and> k = OUTBOX" for x v y v' k
      using D(7)[OF sub sub] by blast
    show "eid x \<noteq> eid y"
      if "x \<in> set (o_q (set_q w n ms a) v k)" "y \<in> set (o_fly (set_q w n ms a) v)" for v k x y
      using D(5)[OF sub[OF that(1)]] that(2) by simp
    show "m_sender (ebody x) = v" if "x \<in> set (o_q (set_q w n ms a) v OUTBOX)" for v x
      by (rule D(6)[OF sub[OF that]])
    show "eid x \<noteq> eid y"
      if "x \<in> set (o_q (set_q w n ms a) v OUTBOX)" "y \<in> set (o_fly (set_q w n ms a) v')" for v x y v'
      using D(8)[OF sub[OF that(1)]] that(2) by simp
  qed (use D in simp_all)
qed

lemma to_owner_simps [simp]:
  "to_owner r [] = []" "to_owner r (xs @ ys) = to_owner r xs @ to_owner r ys"
  "to_owner r (d # ds) = (if fst d = r then snd d # to_owner r ds else to_owner r ds)"
  by (simp_all add: to_owner_def)

text \<open>Whether the collection of \<open>w\<close>'s outbox sends \<open>m\<close> to \<open>r\<close>.\<close>

definition addressed :: "uuid \<Rightarrow> uuid \<Rightarrow> 'c mail \<Rightarrow> bool" where
  "addressed w r m \<longleftrightarrow> (case m_recipient (ebody m) of None \<Rightarrow> r \<noteq> w | Some v \<Rightarrow> v = r)"

lemma to_owner_copies:
  "distinct ws \<Longrightarrow> to_owner r (map (\<lambda>v. (v, m)) (filter P ws)) = (if r \<in> set ws \<and> P r then [m] else [])"
  by (induction ws) (auto simp: to_owner_def)

lemma to_owner_route:
  assumes "distinct ws"
  shows "to_owner r (concat (map (route ws w) ms)) = (if r \<in> set ws then filter (addressed w r) ms else [])"
proof (induction ms)
  case (Cons m ms)
  have "to_owner r (route ws w m) = (if r \<in> set ws \<and> addressed w r m then [m] else [])"
    using to_owner_copies[OF assms, of r m "\<lambda>v. v \<noteq> w"]
    by (auto simp: route_def addressed_def split: option.split)
  with Cons show ?case by simp
qed simp

lemma distinct_map_filter: "distinct (map f xs) \<Longrightarrow> distinct (map f (filter P xs))"
  by (induction xs) auto

lemma office_collect_ok:
  assumes "office_ok a"
  shows "office_ok (office_step a (XCollectBegin w))"
proof (cases "w \<in> set (o_owners a)")
  case True
  note D = office_okD[OF assms]
  let ?b = "office_step a (XCollectBegin w)"
  have b: "o_owners ?b = o_owners a" "\<And>v n. o_q ?b v n = (if v = w \<and> n = OUTBOX then [] else o_q a v n)"
    "\<And>r. o_fly ?b r = o_fly a r @ (if r \<in> set (o_owners a) then filter (addressed w r) (o_q a w OUTBOX) else [])"
    using True to_owner_route[OF D(1), of _ w "o_q a w OUTBOX"] by (simp_all add: Let_def)
  have fly: "x \<in> set (o_fly ?b r) \<Longrightarrow> x \<in> set (o_fly a r) \<or> x \<in> set (o_q a w OUTBOX)" for x r
    unfolding b(3) by (auto split: if_splits)
  have qb: "x \<in> set (o_q ?b v n) \<Longrightarrow> x \<in> set (o_q a v n) \<and> (v, n) \<noteq> (w, OUTBOX)" for x v n
    unfolding b(2) by (auto split: if_splits)
  show ?thesis
  proof (rule office_okI)
    show "distinct (o_owners ?b)" unfolding b by (rule D(1))
    show "v \<notin> set (o_owners ?b) \<Longrightarrow> o_q ?b v n = []" for v n unfolding b by (simp add: D(2))
    show "distinct (map eid (o_q ?b v n))" for v n unfolding b by (simp add: D(3))
    have "eid x \<noteq> eid y" if "x \<in> set (o_fly a r)" "y \<in> set (o_q a w OUTBOX)" for x y r
      using D(8)[OF that(2,1)] by simp
    then show "distinct (map eid (o_fly ?b r))" for r
      unfolding b using D(4)[of r] distinct_map_filter[OF D(3)[of w OUTBOX], of "addressed w r"] by auto
    show "eid x \<noteq> eid y" if "x \<in> set (o_q ?b v n)" "y \<in> set (o_fly ?b v)" for v n x y
    proof (cases "y \<in> set (o_fly a v)")
      case True
      then show ?thesis using D(5) qb[OF that(1)] by blast
    next
      case False
      then have "y \<in> set (o_q a w OUTBOX)" using fly[OF that(2)] by blast
      then show ?thesis using D(7)[of y w x v n] qb[OF that(1)] by auto
    qed
    show "m_sender (ebody x) = v" if "x \<in> set (o_q ?b v OUTBOX)" for v x
      using D(6) qb[OF that] by blast
    show "v' = v \<and> n = OUTBOX"
      if "x \<in> set (o_q ?b v OUTBOX)" "y \<in> set (o_q ?b v' n)" "eid y = eid x" for v x y v' n
      using D(7) qb[OF that(1)] qb[OF that(2)] that(3) by blast
    show "eid x \<noteq> eid y" if "x \<in> set (o_q ?b v OUTBOX)" "y \<in> set (o_fly ?b v')" for v x y v'
    proof (cases "y \<in> set (o_fly a v')")
      case True
      then show ?thesis using D(8) qb[OF that(1)] by blast
    next
      case False
      then have "y \<in> set (o_q a w OUTBOX)" using fly[OF that(2)] by blast
      then show ?thesis using D(7)[of y w x v OUTBOX] qb[OF that(1)] by auto
    qed
  qed
qed (use assms in simp)


lemma distinct_map_remove1: "distinct (map f xs) \<Longrightarrow> distinct (map f (remove1 x xs))"
proof (induction xs)
  case (Cons y xs)
  have "f ` set (remove1 x xs) \<subseteq> f ` set xs" by (intro image_mono set_remove1_subset)
  with Cons show ?case by auto
qed simp

lemma office_deliver_ok:
  assumes "office_ok a"
  shows "office_ok (office_step a (XDeliver v w m))"
proof (cases "m \<in> set (o_fly a w)")
  case True
  note D = office_okD[OF assms]
  let ?n = "inbox_name (m_sender (ebody m))"
  let ?b = "office_step a (XDeliver v w m)"
  have b: "o_owners ?b = o_owners a"
    "\<And>u k. o_q ?b u k = (if u = w \<and> k = ?n \<and> w \<in> set (o_owners a) then o_q a w ?n @ [m] else o_q a u k)"
    "\<And>r. o_fly ?b r = (if r = w then remove1 m (o_fly a w) else o_fly a r)"
    using True by (simp_all add: Let_def)
  have qb: "x = m \<and> u = w \<and> k = ?n \<or> x \<in> set (o_q a u k)" if "x \<in> set (o_q ?b u k)" for x u k
    using that unfolding b(2) by (auto split: if_splits)
  have fb: "x \<in> set (o_fly a r) \<and> (r = w \<longrightarrow> x \<noteq> m)" if "x \<in> set (o_fly ?b r)" for x r
    using that D(4)[of w] unfolding b(3) by (auto simp: distinct_map split: if_splits dest: notin_set_remove1)
  have new: "eid x \<noteq> eid m" if "x \<in> set (o_fly ?b w)" for x
    using fb[OF that] True D(4)[of w] by (auto simp: distinct_map inj_on_def)
  have out: "x \<in> set (o_q a u OUTBOX)" if "x \<in> set (o_q ?b u OUTBOX)" for x u
    using that unfolding b(2) by (simp split: if_splits)
  show ?thesis
  proof (rule office_okI)
    show "distinct (o_owners ?b)" unfolding b by (rule D(1))
    show "u \<notin> set (o_owners ?b) \<Longrightarrow> o_q ?b u k = []" for u k unfolding b using D(2) by auto
    have "eid m \<notin> eid ` set (o_q a w ?n)" using D(5)[OF _ True] by fastforce
    then show "distinct (map eid (o_q ?b u k))" for u k
      unfolding b using D(3)[of u k] D(3)[of w ?n] by simp
    show "distinct (map eid (o_fly ?b r))" for r
      unfolding b using D(4)[of w] D(4)[of r] by (simp add: distinct_map_remove1)
    show "eid x \<noteq> eid y" if "x \<in> set (o_q ?b u k)" "y \<in> set (o_fly ?b u)" for u k x y
      using qb[OF that(1)] new[of y] that(2) D(5)[of x u k y] fb[OF that(2)] by metis
    show "m_sender (ebody x) = u" if "x \<in> set (o_q ?b u OUTBOX)" for u x
      by (rule D(6)[OF out[OF that]])
    show "u' = u \<and> k = OUTBOX"
      if "x \<in> set (o_q ?b u OUTBOX)" "y \<in> set (o_q ?b u' k)" "eid y = eid x" for u x y u' k
      using qb[OF that(2)] D(8)[OF out[OF that(1)] True] D(7)[OF out[OF that(1)]] that(3) by metis
    show "eid x \<noteq> eid y" if "x \<in> set (o_q ?b u OUTBOX)" "y \<in> set (o_fly ?b u')" for u x y u'
      using D(8)[OF out[OF that(1)]] fb[OF that(2)] by blast
  qed
qed (use assms in simp)

lemma office_register_ok:
  assumes "office_ok a"
  shows "office_ok (office_step a (XRegister fid i j v w))"
proof (cases "w \<in> set (o_owners a)")
  case False
  then have "office_ok (a\<lparr>o_owners := o_owners a @ [w]\<rparr>)"
    using assms by (simp add: office_ok_def)
  then show ?thesis using False by simp
qed (use assms in simp)

lemma office_unregister_ok:
  assumes "office_ok a"
  shows "office_ok (office_step a (XUnregister w))"
proof -
  note D = office_okD[OF assms]
  let ?b = "office_step a (XUnregister w)"
  have q: "x \<in> set (o_q ?b u n) \<Longrightarrow> x \<in> set (o_q a u n)" for x u n by (simp split: if_splits)
  have f: "o_fly ?b = o_fly a" by simp
  show ?thesis
  proof (rule office_okI)
    show "eid x \<noteq> eid y" if "x \<in> set (o_q ?b u n)" "y \<in> set (o_fly ?b u)" for u n x y
      using D(5)[OF q[OF that(1)]] that(2) unfolding f .
    show "m_sender (ebody x) = u" if "x \<in> set (o_q ?b u OUTBOX)" for u x
      by (rule D(6)[OF q[OF that]])
    show "v = u \<and> n = OUTBOX" if "x \<in> set (o_q ?b u OUTBOX)" "y \<in> set (o_q ?b v n)" "eid y = eid x" for u x y v n
      using D(7)[OF q[OF that(1)] q[OF that(2)] that(3)] .
    show "eid x \<noteq> eid y" if "x \<in> set (o_q ?b u OUTBOX)" "y \<in> set (o_fly ?b v)" for u x y v
      using D(8)[OF q[OF that(1)]] that(2) unfolding f .
    show "u \<notin> set (o_owners ?b) \<Longrightarrow> o_q ?b u n = []" for u n using D(2)[of u n] by auto
  qed (use D(1,3,4) in simp_all)
qed

lemma office_step_ok:
  assumes "office_ok a" "\<And>u s r c ch. op = XSend u s r c ch \<Longrightarrow> u \<notin> known_ids a"
  shows "office_ok (office_step a op)"
proof (cases op)
  case (XRegister fid i j v w)
  then show ?thesis using office_register_ok[OF assms(1)] by blast
next
  case (XUnregister w)
  then show ?thesis using office_unregister_ok[OF assms(1)] by blast
next
  case (XSend u s r c ch)
  let ?m = "Elem u [''Message''] \<lparr>m_sender = s, m_recipient = r, m_content = c, m_channel = ch\<rparr>"
  show ?thesis using office_send_ok[OF assms(1), of s ?m] assms XSend by simp
next
  case (XCollectBegin w)
  then show ?thesis using office_collect_ok[OF assms(1)] by blast
next
  case (XDeliver v w m)
  then show ?thesis using office_deliver_ok[OF assms(1)] by blast
next
  case (XPop w s)
  have "w \<notin> set (o_owners a) \<Longrightarrow> o_q a w (inbox_name s) = []" by (rule office_okD(2)[OF assms(1)])
  moreover have "set (tl (o_q a w (inbox_name s))) \<subseteq> set (o_q a w (inbox_name s))"
    by (cases "o_q a w (inbox_name s)") auto
  moreover have "distinct (map eid (tl (o_q a w (inbox_name s))))"
    using office_okD(3)[OF assms(1), of w "inbox_name s"] by (simp add: map_tl distinct_tl)
  ultimately have "office_ok (set_q w (inbox_name s) (tl (o_q a w (inbox_name s))) a)"
    by (intro office_take_ok[OF assms(1)]) (simp_all, fastforce)
  then show ?thesis using XPop by simp
qed (use assms in simp)

section \<open>The exchange follows the abstract steps\<close>

lemma boxes_okD:
  assumes "boxes_ok e"
  shows "wf_pile (ex_flows e)" "item_type (ex_flows e) = None"
    "dget (owner_index e) w = Some fid \<Longrightarrow> find_flow w e = Some (fid, f) \<Longrightarrow>
       box_ok f \<and> dhas (prog_names f) OUTBOX"
    "dget (owner_index e) w = Some fid \<Longrightarrow> dget (owner_index e) v = Some fid \<Longrightarrow> v = w"
    "w \<in> set (owner_ids e) \<Longrightarrow> \<exists>fid f. find_flow w e = Some (fid, f)"
proof -
  have x: "\<exists>x. dget (collections (ex_flows e)) fid = Some x \<and> box_ok (ebody x) \<and>
      dhas (prog_names (ebody x)) OUTBOX" if "dget (owner_index e) w = Some fid" for w fid
    using assms that unfolding boxes_ok_def by blast
  then show "dget (owner_index e) w = Some fid \<Longrightarrow> find_flow w e = Some (fid, f) \<Longrightarrow>
      box_ok f \<and> dhas (prog_names f) OUTBOX"
    unfolding find_flow_iff by fastforce
  show "w \<in> set (owner_ids e) \<Longrightarrow> \<exists>fid f. find_flow w e = Some (fid, f)"
    using x dget_key[of w "owner_index e"] unfolding find_flow_iff owner_ids_def by (metis list.set_map)
  show "dget (owner_index e) w = Some fid \<Longrightarrow> dget (owner_index e) v = Some fid \<Longrightarrow> v = w"
    using assms unfolding boxes_ok_def by blast
qed (use assms in \<open>simp_all add: boxes_ok_def\<close>)

lemma found:
  assumes "boxes_ok e" "find_flow w e = Some (fid, f)"
  shows "w \<in> set (owner_ids e)" "dget (owner_index e) w = Some fid" "box_ok f"
    "dhas (prog_names f) OUTBOX" "mail_queue w n e = queue n f"
proof -
  show d: "dget (owner_index e) w = Some fid" using assms(2) by (simp add: find_flow_iff)
  then show "w \<in> set (owner_ids e)" using dgetD[OF d] by (simp add: owner_ids_def)
  show "box_ok f" "dhas (prog_names f) OUTBOX" using boxes_okD(3)[OF assms(1) d assms(2)] by auto
  show "mail_queue w n e = queue n f" using assms(2) by (simp add: mail_queue_def)
qed

lemma not_found_owner:
  assumes "boxes_ok e" "find_flow w e = None"
  shows "w \<notin> set (owner_ids e)" "mail_queue w n e = []"
  using boxes_okD(5)[OF assms(1), of w] assms(2) by (auto simp: mail_queue_def)

text \<open>Replacing the mailbox of one owner.\<close>

lemma put_flow_other:
  assumes "boxes_ok e" "find_flow w e = Some (fid, f)"
  shows "find_flow v (put_flow fid g e) = (if v = w then Some (fid, g) else find_flow v e)"
proof (cases "v = w")
  case True
  then show ?thesis using find_put_flow[OF assms(2)] by simp
next
  case False
  then have "dget (owner_index e) v \<noteq> Some fid"
    using boxes_okD(4)[OF assms(1)] assms(2) unfolding find_flow_iff by blast
  then show ?thesis
    using False by (simp add: find_flow_def put_flow_def del: get.simps split: option.split)
qed

lemma put_flow_simps [simp]:
  "owner_index (put_flow fid g e) = owner_index e" "in_flight (put_flow fid g e) = in_flight e"
  "owner_ids (put_flow fid g e) = owner_ids e" "pending w (put_flow fid g e) = pending w e"
  by (simp_all add: put_flow_def owner_ids_def pending_def)

lemma put_flow_ok:
  assumes "boxes_ok e" "find_flow w e = Some (fid, f)" "box_ok g" "dhas (prog_names g) OUTBOX"
  shows "boxes_ok (put_flow fid g e)"
    "mail_queue v n (put_flow fid g e) = (if v = w then queue n g else mail_queue v n e)"
proof -
  have "\<exists>x. dget (collections (ex_flows (put_flow fid g e))) i = Some x \<and> box_ok (ebody x) \<and>
      dhas (prog_names (ebody x)) OUTBOX" if "dget (owner_index e) v = Some i" for v i
  proof -
    have "v \<in> set (owner_ids e)" using dgetD[OF that] by (simp add: owner_ids_def)
    then obtain k h where h: "find_flow v e = Some (k, h)" using boxes_okD(5)[OF assms(1)] by blast
    then have "k = i" using that by (simp add: find_flow_iff)
    then have f: "find_flow v (put_flow fid g e) = Some (i, if v = w then g else h)"
      using put_flow_other[OF assms(1,2), of v g] assms(2) h by (cases "v = w") auto
    obtain x where x: "dget (collections (ex_flows (put_flow fid g e))) i = Some x"
      "ebody x = (if v = w then g else h)"
      using iffD1[OF find_flow_iff f] by metis
    have "box_ok (ebody x) \<and> dhas (prog_names (ebody x)) OUTBOX"
      unfolding x(2) using found(3,4)[OF assms(1) h] assms(3,4) by simp
    then show ?thesis using x(1) by blast
  qed
  moreover have "wf_pile (ex_flows (put_flow fid g e))" "item_type (ex_flows (put_flow fid g e)) = None"
    using boxes_okD(1,2)[OF assms(1)] by (auto simp: put_flow_def)
  moreover have "dget (owner_index e) w = Some i \<Longrightarrow> dget (owner_index e) v = Some i \<Longrightarrow> v = w" for w v i
    by (rule boxes_okD(4)[OF assms(1)])
  ultimately show "boxes_ok (put_flow fid g e)" unfolding boxes_ok_def put_flow_simps by blast
  show "mail_queue v n (put_flow fid g e) = (if v = w then queue n g else mail_queue v n e)"
    using put_flow_other[OF assms(1,2), of v g] by (simp add: mail_queue_def)
qed

lemma office_eqI:
  "o_owners a = o_owners b \<Longrightarrow> (\<And>w n. o_q a w n = o_q b w n) \<Longrightarrow> (\<And>w. o_fly a w = o_fly b w) \<Longrightarrow>
   (a :: 'c office) = b"
  by (simp add: fun_eq_iff)

lemma office_of_simps [simp]:
  "o_owners (office_of e) = owner_ids e" "o_q (office_of e) w n = mail_queue w n e"
  "o_fly (office_of e) w = pending w e"
  by (simp_all add: office_of_def)

text \<open>All the ids in a mailbox are known to the office.\<close>

lemma known_items:
  assumes "boxes_ok e" "find_flow w e = Some (fid, f)"
  shows "item_ids f \<subseteq> known_ids (office_of e)"
proof
  fix k assume "k \<in> item_ids f"
  then obtain n where "k \<in> eid ` set (mail_queue w n e)"
    using item_ids_queues[OF found(3)[OF assms]] found(5)[OF assms] by auto
  then show "k \<in> known_ids (office_of e)" unfolding known_ids_def office_of_simps by blast
qed


lemma known_used: "boxes_ok e \<Longrightarrow> known_ids (office_of e) \<subseteq> used_ids e"
proof
  fix k assume ok: "boxes_ok e" and "k \<in> known_ids (office_of e)"
  then have "(\<exists>w. k \<in> eid ` set (pending w e)) \<or> (\<exists>w n. k \<in> eid ` set (mail_queue w n e))"
    by (simp add: known_ids_def) blast
  then consider w m where "m \<in> set (pending w e)" "k = eid m"
    | w n where "k \<in> eid ` set (mail_queue w n e)" by blast
  then show "k \<in> used_ids e"
  proof cases
    case 1
    then obtain ms where "dget (in_flight e) w = Some ms" "m \<in> set ms"
      by (cases "dget (in_flight e) w") (auto simp: pending_def)
    then show ?thesis using 1(2) map_of_SomeD[of "in_flight e" w ms] by (force simp: used_ids_def)
  next
    case 2
    then obtain fid f where f: "find_flow w e = Some (fid, f)"
      by (cases "find_flow w e") (auto simp: mail_queue_def)
    then have "k \<in> item_ids f"
      using 2 item_ids_queues[OF found(3)[OF ok f]] found(5)[OF ok f] by auto
    moreover obtain x where "dget (collections (ex_flows e)) fid = Some x" "f = ebody x"
      using iffD1[OF find_flow_iff f] by blast
    ultimately show ?thesis using map_of_SomeD[of "collections (ex_flows e)" fid x] by (force simp: used_ids_def)
  qed
qed

lemma put_refines:
  assumes "boxes_ok e" "find_flow w e = Some (fid, f)" "box_ok g" "dhas (prog_names g) OUTBOX"
    "\<And>k. queue k g = (if k = n then ms else queue k f)"
  shows "boxes_ok (put_flow fid g e)" "office_of (put_flow fid g e) = set_q w n ms (office_of e)"
proof -
  show "boxes_ok (put_flow fid g e)" by (rule put_flow_ok(1)[OF assms(1-4)])
  show "office_of (put_flow fid g e) = set_q w n ms (office_of e)"
    by (rule office_eqI)
      (simp_all add: put_flow_ok(2)[OF assms(1-4)] found(5)[OF assms(1,2)] assms(5))
qed

lemma find_flow_flight [simp]: "find_flow w (e\<lparr>in_flight := d\<rparr>) = find_flow w e"
  by (simp add: find_flow_def del: get.simps split: option.split)

lemma boxes_ok_flight [simp]: "boxes_ok (e\<lparr>in_flight := d\<rparr>) = boxes_ok e"
  by (simp add: boxes_ok_def)

lemma office_of_flight:
  "office_of (e\<lparr>in_flight := d\<rparr>) =
     (office_of e)\<lparr>o_fly := \<lambda>w. case dget d w of None \<Rightarrow> [] | Some ms \<Rightarrow> ms\<rparr>"
  by (simp add: office_of_def mail_queue_def owner_ids_def pending_def)

lemma send_refines:
  fixes e :: "'c exchange" and c :: 'c and s :: uuid and r :: "uuid option" and ch :: "string option"
  assumes "boxes_ok e" "u \<notin> known_ids (office_of e)"
  defines "m \<equiv> Elem u [''Message''] \<lparr>m_sender = s, m_recipient = r, m_content = c, m_channel = ch\<rparr>"
  shows "boxes_ok (snd (send u s r c ch e))"
    "office_of (snd (send u s r c ch e)) = office_step (office_of e) (XSend u s r c ch)"
    "fst (send u s r c ch e) = (if s \<in> set (owner_ids e) then Inr m else Inl ValueError)"
proof -
  have "boxes_ok (snd (send u s r c ch e)) \<and>
    office_of (snd (send u s r c ch e)) = office_step (office_of e) (XSend u s r c ch) \<and>
    fst (send u s r c ch e) = (if s \<in> set (owner_ids e) then Inr m else Inl ValueError)"
  proof (cases "find_flow s e")
    case None
    then show ?thesis using assms(1) not_found_owner(1)[OF assms(1) None] by (simp add: send_def)
  next
    case (Some p)
    obtain fid f where p: "p = (fid, f)" by fastforce
    note F = found[OF assms(1) Some[unfolded p]]
    obtain v where v: "dget (prog_names f) OUTBOX = Some v" using dget_key[of OUTBOX] F(4) by fastforce
    have new: "eid m \<notin> item_ids f" using known_items[OF assms(1) Some[unfolded p]] assms(2) by (auto simp: m_def)
    have tag: "OUTBOX \<noteq> OUTBOX \<Longrightarrow> OUTBOX = inbox_name (m_sender (ebody m))" by simp
    obtain g where g: "add_item m [KName OUTBOX] f = (Inr (), g)"
      using put_message(1)[OF F(3) v new tag] by (metis prod.collapse)
    note P = put_message[OF F(3) v new tag, unfolded g snd_conv]
    have "send u s r c ch e = (Inr m, put_flow fid g e)"
      using Some p g by (simp add: send_def m_def)
    moreover have "boxes_ok (put_flow fid g e)"
      "office_of (put_flow fid g e) = set_q s OUTBOX (queue OUTBOX f @ [m]) (office_of e)"
      using put_refines[OF assms(1) Some[unfolded p] P(2)] P(3,4) F(4) by auto
    ultimately show ?thesis using F(1,5) by (simp add: m_def)
  qed
  then show "boxes_ok (snd (send u s r c ch e))"
    "office_of (snd (send u s r c ch e)) = office_step (office_of e) (XSend u s r c ch)"
    "fst (send u s r c ch e) = (if s \<in> set (owner_ids e) then Inr m else Inl ValueError)" by blast+
qed

lemma pending_mark: "pending r (mark_in_flight ds True e) = pending r e @ to_owner r ds"
  by (induction ds arbitrary: e) (auto simp: mark_one_def pending_def)

lemma mark_state: "\<exists>d. mark_in_flight ds True e = e\<lparr>in_flight := d\<rparr>"
proof (induction ds arbitrary: e)
  case Nil
  show ?case by (rule exI[of _ "in_flight e"]) simp
next
  case (Cons x ds)
  obtain d where "mark_in_flight ds True (mark_one x e) = (mark_one x e)\<lparr>in_flight := d\<rparr>"
    using Cons.IH by blast
  then show ?case by (auto simp: mark_one_def)
qed

lemma collect_refines:
  assumes "boxes_ok e"
  shows "boxes_ok (snd (collect_begin w e))"
    "office_of (snd (collect_begin w e)) = office_step (office_of e) (XCollectBegin w)"
    "fst (collect_begin w e) =
       (if w \<in> set (owner_ids e) then Inr (concat (map (route (owner_ids e) w) (mail_queue w OUTBOX e)))
        else Inl ValueError)"
proof -
  have "boxes_ok (snd (collect_begin w e)) \<and>
    office_of (snd (collect_begin w e)) = office_step (office_of e) (XCollectBegin w) \<and>
    fst (collect_begin w e) =
       (if w \<in> set (owner_ids e) then Inr (concat (map (route (owner_ids e) w) (mail_queue w OUTBOX e)))
        else Inl ValueError)"
  proof (cases "find_flow w e")
    case None
    then show ?thesis
      using assms not_found_owner(1)[OF assms None] by (simp add: collect_begin_def)
  next
    case (Some p)
    obtain fid f where p: "p = (fid, f)" by fastforce
    note F = found[OF assms Some[unfolded p]]
    obtain v where v: "dget (prog_names f) OUTBOX = Some v" using dget_key[of OUTBOX] F(4) by fastforce
    have get: "get_progression (KName OUTBOX) f = (Inr v, f)"
      by (rule get_progression_hit[OF box_okD(6)[OF F(3)] v])
    obtain g where g: "empty_queue v f = (queue OUTBOX f, g)" "box_ok g" "prog_names g = prog_names f"
      "\<forall>j. queue j g = (if j = OUTBOX then [] else queue j f)"
      using empty_queue_result[OF F(3) v] by (elim exE conjE) (rule that, assumption+)
    define ds where "ds = concat (map (route (owner_ids e) w) (queue OUTBOX f))"
    have c: "collect_begin w e = (Inr ds, mark_in_flight ds True (put_flow fid g e))"
      using Some p get g(1) by (simp add: collect_begin_def ds_def Let_def del: get_progression.simps)
    have P: "boxes_ok (put_flow fid g e)"
      "office_of (put_flow fid g e) = set_q w OUTBOX [] (office_of e)"
      using put_refines[OF assms Some[unfolded p] g(2), of OUTBOX "[]"] g(3,4) F(4) by auto
    obtain d where d: "mark_in_flight ds True (put_flow fid g e) = (put_flow fid g e)\<lparr>in_flight := d\<rparr>"
      using mark_state by blast
    have "office_of (mark_in_flight ds True (put_flow fid g e)) =
        (set_q w OUTBOX [] (office_of e))\<lparr>o_fly := \<lambda>r. pending r e @ to_owner r ds\<rparr>"
    proof (rule office_eqI)
      show "o_fly (office_of (mark_in_flight ds True (put_flow fid g e))) r =
          o_fly ((set_q w OUTBOX [] (office_of e))\<lparr>o_fly := \<lambda>r. pending r e @ to_owner r ds\<rparr>) r" for r
        by (simp add: pending_mark)
    qed (simp_all only: d office_of_flight P(2) fly_update_simps)
    then show ?thesis
      using P(1) F(1,5) c d by (simp add: ds_def office_of_def)
  qed
  then show "boxes_ok (snd (collect_begin w e))"
    "office_of (snd (collect_begin w e)) = office_step (office_of e) (XCollectBegin w)"
    "fst (collect_begin w e) =
       (if w \<in> set (owner_ids e) then Inr (concat (map (route (owner_ids e) w) (mail_queue w OUTBOX e)))
        else Inl ValueError)" by blast+
qed

lemma removed:
  assumes "m \<in> set (pending w e)"
  shows "boxes_ok (snd (remove_in_flight_locked w m e)) = boxes_ok e"
    "office_of (snd (remove_in_flight_locked w m e)) =
       (office_of e)\<lparr>o_fly := (o_fly (office_of e))(w := remove1 m (pending w e))\<rparr>"
proof -
  define d where "d = (if remove1 m (pending w e) = [] then ddel w (in_flight e)
                       else dset w (remove1 m (pending w e)) (in_flight e))"
  have r: "snd (remove_in_flight_locked w m e) = e\<lparr>in_flight := d\<rparr>"
    using assms by (simp add: remove_in_flight_locked_def d_def Let_def)
  show "boxes_ok (snd (remove_in_flight_locked w m e)) = boxes_ok e" by (simp add: r)
  show "office_of (snd (remove_in_flight_locked w m e)) =
       (office_of e)\<lparr>o_fly := (o_fly (office_of e))(w := remove1 m (pending w e))\<rparr>"
    unfolding r office_of_flight by (rule office_eqI) (auto simp: d_def pending_def)
qed

text \<open>A delivery under the lock: into the inbox of the sender, or nowhere if the owner has gone.\<close>

lemma deliver_locked_refines:
  assumes "boxes_ok e" "case find_flow w e of None \<Rightarrow> True | Some (_, f) \<Rightarrow> \<not> dhas (collections (progs f)) v"
    "\<And>n x. x \<in> set (mail_queue w n e) \<Longrightarrow> eid x \<noteq> eid m"
  defines "n \<equiv> inbox_name (m_sender (ebody m))"
  shows "\<exists>e1. deliver_locked v w m e = (Inr (), e1) \<and> boxes_ok e1 \<and> in_flight e1 = in_flight e \<and>
    owner_ids e1 = owner_ids e \<and>
    office_of e1 = (if w \<in> set (owner_ids e) then set_q w n (mail_queue w n e @ [m]) (office_of e)
                    else office_of e)"
proof (cases "find_flow w e")
  case None
  then show ?thesis using assms(1) not_found_owner(1)[OF assms(1) None] by (simp add: deliver_locked_def)
next
  case (Some p)
  obtain fid f where p: "p = (fid, f)" by fastforce
  note F = found[OF assms(1) Some[unfolded p]]
  have fv: "\<not> dhas (collections (progs f)) v" using assms(2) Some p by simp
  obtain g where g: "ensure_inbox v n f = (Inr (), g)" "box_ok g" "dhas (prog_names g) n"
    "\<And>k. queue k g = queue k f" "flow_items g = flow_items f"
    "\<And>k. dhas (prog_names f) k \<Longrightarrow> dhas (prog_names g) k"
    using ensure_inbox_ok[OF F(3) fv n_def[THEN meta_eq_to_obj_eq]] by metis
  obtain u where u: "dget (prog_names g) n = Some u" using dget_key[of n] g(3) by fastforce
  have "eid m \<notin> eid ` set (queue k g)" for k
    using assms(3)[of _ k] unfolding F(5) g(4) by force
  then have new: "eid m \<notin> item_ids g" unfolding item_ids_queues[OF g(2)] by simp
  have tag: "n \<noteq> OUTBOX \<Longrightarrow> n = inbox_name (m_sender (ebody m))" by (simp add: n_def)
  obtain h where h: "add_item m [KName n] g = (Inr (), h)"
    using put_message(1)[OF g(2) u new tag] by (metis prod.collapse)
  note P = put_message[OF g(2) u new tag, unfolded h snd_conv]
  have "deliver_locked v w m e = (Inr (), put_flow fid h e)"
    using Some p g(1) h by (simp add: deliver_locked_def Let_def n_def)
  moreover have "boxes_ok (put_flow fid h e)"
    "office_of (put_flow fid h e) = set_q w n (queue n f @ [m]) (office_of e)"
    using put_refines[OF assms(1) Some[unfolded p] P(2), of n "queue n f @ [m]"] P(3,4) F(4) g(4,6) by auto
  ultimately show ?thesis using F(1,5) by simp
qed

lemma deliver_refines:
  assumes "ex_ok e" "ids_fresh e (XDeliver v w m)"
  shows "fst (deliver_to v w m e) = Inr ()" "boxes_ok (snd (deliver_to v w m e))"
    "office_of (snd (deliver_to v w m e)) = office_step (office_of e) (XDeliver v w m)"
proof -
  have ok: "boxes_ok e" "office_ok (office_of e)" using assms(1) by (simp_all add: ex_ok_def)
  have "fst (deliver_to v w m e) = Inr () \<and> boxes_ok (snd (deliver_to v w m e)) \<and>
    office_of (snd (deliver_to v w m e)) = office_step (office_of e) (XDeliver v w m)"
  proof (cases "m \<in> set (pending w e)")
    case False
    then show ?thesis using ok by (simp add: deliver_to_def)
  next
    case True
    have "eid x \<noteq> eid m" if "x \<in> set (mail_queue w n e)" for n x
      using office_okD(5)[OF ok(2), of x w n m] that True by simp
    then obtain e1 where e1: "deliver_locked v w m e = (Inr (), e1)" "boxes_ok e1"
      "in_flight e1 = in_flight e" "owner_ids e1 = owner_ids e"
      "office_of e1 = (if w \<in> set (owner_ids e)
         then set_q w (inbox_name (m_sender (ebody m))) (mail_queue w (inbox_name (m_sender (ebody m))) e @ [m]) (office_of e)
         else office_of e)"
      using deliver_locked_refines[OF ok(1), of v w m] assms(2) by auto
    have pend: "pending r e1 = pending r e" for r using e1(3) by (simp add: pending_def)
    have "o_fly (office_of e1) = o_fly (office_of e)" by (simp add: office_of_def pend)
    then show ?thesis
      using removed[of m w e1] True e1 pend by (simp add: deliver_to_def Let_def)
  qed
  then show "fst (deliver_to v w m e) = Inr ()" "boxes_ok (snd (deliver_to v w m e))"
    "office_of (snd (deliver_to v w m e)) = office_step (office_of e) (XDeliver v w m)" by blast+
qed


lemma box_inbox:
  assumes "box_ok f" "dget (prog_names f) (inbox_name s) = None"
  shows "get_progression (KName (inbox_name s)) f = (Inl ItemNotFoundError, f)"
    "queue (inbox_name s) f = []"
  using get_progression_miss[OF assms inbox_not_uuid] assms(2) by (simp_all add: queue_def)

text \<open>The first message of an inbox is returned and taken out; nothing else changes.\<close>

lemma pop_refines:
  assumes "boxes_ok e"
  shows "boxes_ok (snd (pop_message w s e))"
    "office_of (snd (pop_message w s e)) = office_step (office_of e) (XPop w s)"
    "fst (pop_message w s e) =
       Inr (case mail_queue w (inbox_name s) e of [] \<Rightarrow> None | m # _ \<Rightarrow> Some m)"
    "in_flight (snd (pop_message w s e)) = in_flight e"
proof -
  let ?n = "inbox_name s"
  have same: "office_of e = office_step (office_of e) (XPop w s)" if "mail_queue w ?n e = []"
    using that by (intro office_eqI) (auto simp: that)
  have "boxes_ok (snd (pop_message w s e)) \<and>
    office_of (snd (pop_message w s e)) = office_step (office_of e) (XPop w s) \<and>
    fst (pop_message w s e) = Inr (case mail_queue w ?n e of [] \<Rightarrow> None | m # _ \<Rightarrow> Some m) \<and>
    in_flight (snd (pop_message w s e)) = in_flight e"
  proof (cases "find_flow w e")
    case None
    then have "mail_queue w ?n e = []" by (rule not_found_owner(2)[OF assms])
    then show ?thesis using None assms same by (simp add: pop_message_def del: office_step.simps)
  next
    case (Some p)
    obtain fid f where p: "p = (fid, f)" by fastforce
    note F = found[OF assms Some[unfolded p]]
    have keep: "boxes_ok (put_flow fid f e)" "office_of (put_flow fid f e) = office_of e"
      using put_flow_ok[OF assms Some[unfolded p] F(3,4)] F(5)
      by (auto intro!: office_eqI)
    show ?thesis
    proof (cases "dget (prog_names f) ?n")
      case None
      note B = box_inbox[OF F(3) None]
      have "pop_message w s e = (Inr None, put_flow fid f e)"
        using Some p B(1) by (simp add: pop_message_def del: get_progression.simps)
      then show ?thesis using keep same F(5) B(2) by (simp del: office_step.simps)
    next
      case (Some u)
      have get: "get_progression (KName ?n) f = (Inr u, f)"
        by (rule get_progression_hit[OF box_okD(6)[OF F(3)] Some])
      show ?thesis
      proof (cases "prog_order u f")
        case Nil
        then have "pop_message w s e = (Inr None, put_flow fid f e)"
          using \<open>find_flow w e = Some p\<close> p get
          by (simp add: pop_message_def queue_len_order del: get_progression.simps)
        moreover have "queue ?n f = []" using Some Nil by (simp add: queue_def)
        ultimately show ?thesis using keep same F(5) by (simp del: office_step.simps)
      next
        case (Cons k ks)
        obtain f1 f2 where t: "pop_left u f = (Inr k, f1)" "take_item k f1 = (Some (hd (queue ?n f)), f2)"
          "box_ok f2" "prog_names f2 = prog_names f"
          "\<And>j. queue j f2 = (if j = ?n then tl (queue ?n f) else queue j f)"
          using take_head[OF F(3) Some Cons] by metis
        have "pop_message w s e = (Inr (Some (hd (queue ?n f))), put_flow fid f2 e)"
          using \<open>find_flow w e = Some p\<close> p get t(1,2) Cons
          by (simp add: pop_message_def queue_len_order del: get_progression.simps)
        moreover have "boxes_ok (put_flow fid f2 e)"
          "office_of (put_flow fid f2 e) = set_q w ?n (tl (queue ?n f)) (office_of e)"
          using put_refines[OF assms \<open>find_flow w e = Some p\<close>[unfolded p] t(3), of ?n "tl (queue ?n f)"] t(4,5) F(4)
          by auto
        moreover have "queue ?n f \<noteq> []" using Some Cons by (simp add: queue_def)
        ultimately show ?thesis using F(5) by (simp split: list.split)
      qed
    qed
  qed
  then show "boxes_ok (snd (pop_message w s e))"
    "office_of (snd (pop_message w s e)) = office_step (office_of e) (XPop w s)"
    "fst (pop_message w s e) = Inr (case mail_queue w ?n e of [] \<Rightarrow> None | m # _ \<Rightarrow> Some m)"
    "in_flight (snd (pop_message w s e)) = in_flight e" by blast+
qed

lemma empty_box_ok:
  fixes a b :: uuid
  defines "f \<equiv> (empty_box a b :: 'c box)"
  shows "box_ok f" "queue n f = []" "item_ids f = {}"
proof -
  have "prog_order u f = []" for u :: uuid
    by (simp add: prog_order_def f_def empty_box_def pile_of_def)
  moreover have "item_ids f = {}" by (simp add: f_def empty_box_def pile_of_def)
  ultimately have "placed f" by (simp add: placed_def)
  moreover have "index_exact f"
    by (simp add: index_exact_def name_of_def f_def empty_box_def pile_of_def)
  moreover have "tagged f" by (simp add: tagged_def queue_def f_def empty_box_def)
  moreover have "bodies_sat members_ok (progs f)"
    by (simp add: bodies_sat_def f_def empty_box_def pile_of_def)
  moreover have "wf_pile (flow_items f)" "wf_pile (progs f)"
    "item_type (flow_items f) = None" "item_type (progs f) = None"
    by (simp_all add: f_def empty_box_def) (simp_all add: pile_of_def)
  ultimately show "box_ok f" by (intro box_okI)
  show "queue n f = []" by (simp add: queue_def f_def empty_box_def)
  show "item_ids f = {}" by (simp add: f_def empty_box_def pile_of_def)
qed

lemma register_refines:
  fixes e :: "'c exchange"
  assumes "boxes_ok e" "\<not> dhas (collections (ex_flows e)) fid"
  shows "boxes_ok (snd (register_owner fid i j v w e))"
    "office_of (snd (register_owner fid i j v w e)) = office_step (office_of e) (XRegister fid i j v w)"
proof -
  have "boxes_ok (snd (register_owner fid i j v w e)) \<and>
    office_of (snd (register_owner fid i j v w e)) = office_step (office_of e) (XRegister fid i j v w)"
  proof (cases "dhas (owner_index e) w")
    case True
    then show ?thesis using assms(1) by (simp add: register_owner_def owner_ids_def)
  next
    case False
    have fv: "\<not> dhas (collections (progs (empty_box i j :: 'c box))) v"
      "\<not> dhas (prog_names (empty_box i j :: 'c box)) OUTBOX"
      by (simp_all add: empty_box_def pile_of_def)
    obtain f :: "'c box" where f: "add_progression (named_prog v OUTBOX) (empty_box i j) = (Inr (), f)"
      using add_named_fresh(1)[OF empty_box_ok(1) fv disjI1[OF refl]] by (metis prod.collapse)
    note A = add_named_fresh[OF empty_box_ok(1) fv disjI1[OF refl], unfolded f snd_conv]
    have "type_ok (item_type (ex_flows e)) (strict_type (ex_flows e)) (emro (Elem fid [''Flow''] f))"
      using boxes_okD(2)[OF assms(1)] by (simp add: type_ok_def)
    note inc = pile_include_one[OF boxes_okD(1)[OF assms(1)] this]
    obtain fs where fs: "pile_include [IElem (Elem fid [''Flow''] f)] (ex_flows e) = (Inr (), fs)"
      using inc(1) by (metis prod.collapse)
    let ?e = "e\<lparr>ex_flows := fs, owner_index := dset w fid (owner_index e)\<rparr>"
    have r: "register_owner fid i j v w e = (Inr fid, ?e)"
      using False f fs by (simp add: register_owner_def)
    have cs: "collections fs = dset fid (Elem fid [''Flow''] f) (collections (ex_flows e))"
      using inc(2) fs by simp
    have old: "k \<noteq> fid" if uk: "dget (owner_index e) u = Some k" for u k
    proof
      assume "k = fid"
      moreover have "u \<in> set (owner_ids e)" using dgetD[OF uk] by (simp add: owner_ids_def)
      then obtain k' h where "find_flow u e = Some (k', h)" using boxes_okD(5)[OF assms(1), of u] by blast
      then have "find_flow u e = Some (k, h)" using uk by (simp add: find_flow_iff)
      ultimately show False using assms(2) unfolding find_flow_iff by (auto dest: dgetD)
    qed
    have wn: "dget (owner_index e) w = None" using False by (simp add: dget_None_iff del: set_map)
    have ff: "find_flow u ?e = (if u = w then Some (fid, f) else find_flow u e)" for u
      using old[of u] by (auto simp: find_flow_def cs split: option.splits simp del: get.simps)
    have qs: "mail_queue u n ?e = mail_queue u n e" for u n
    proof (cases "u = w")
      case True
      have "find_flow w e = None" using wn by (simp add: find_flow_def)
      then show ?thesis using True A(4)[of n] empty_box_ok(2)[of n i j] ff[of w] by (simp add: mail_queue_def)
    next
      case False
      then show ?thesis using ff[of u] by (simp add: mail_queue_def)
    qed
    have "office_of ?e = (office_of e)\<lparr>o_owners := owner_ids e @ [w]\<rparr>"
      using False by (intro office_eqI) (simp_all add: qs, simp_all add: owner_ids_def pending_def dkeys_dset)
    moreover have "boxes_ok ?e"
      unfolding boxes_ok_def
    proof (intro conjI allI impI)
      show "wf_pile (ex_flows ?e)" "item_type (ex_flows ?e) = None"
        using wf_pile_include[OF boxes_okD(1)[OF assms(1)], of "[IElem (Elem fid [''Flow''] f)]"]
          item_type_include[of "[IElem (Elem fid [''Flow''] f)]" "ex_flows e"] fs boxes_okD(2)[OF assms(1)] by simp_all
      show "v' = u" if "dget (owner_index ?e) u = Some k" "dget (owner_index ?e) v' = Some k" for u v' k
        using that old boxes_okD(4)[OF assms(1)] by (auto split: if_splits)
      show "\<exists>x. dget (collections (ex_flows ?e)) k = Some x \<and> box_ok (ebody x) \<and>
          dhas (prog_names (ebody x)) OUTBOX" if k: "dget (owner_index ?e) u = Some k" for u k
      proof (cases "u = w")
        case True
        then show ?thesis using k A(2,3) by (simp add: cs)
      next
        case False
        then have "dget (owner_index e) u = Some k" using k by simp
        then show ?thesis using old[of u k] assms(1) unfolding boxes_ok_def by (simp add: cs)
      qed
    qed
    ultimately show ?thesis using r False by (simp add: owner_ids_def)
  qed
  then show "boxes_ok (snd (register_owner fid i j v w e))"
    "office_of (snd (register_owner fid i j v w e)) = office_step (office_of e) (XRegister fid i j v w)" by blast+
qed

lemma unregister_refines:
  assumes "boxes_ok e"
  shows "boxes_ok (snd (unregister_owner w e))"
    "office_of (snd (unregister_owner w e)) = office_step (office_of e) (XUnregister w)"
proof -
  have "boxes_ok (snd (unregister_owner w e)) \<and>
    office_of (snd (unregister_owner w e)) = office_step (office_of e) (XUnregister w)"
  proof (cases "find_flow w e")
    case None
    then have w: "w \<notin> set (owner_ids e)" using not_found_owner[OF assms] by blast
    then have "unregister_owner w e = (None, e)"
      using dgetD[of "owner_index e" w] by (auto simp: unregister_owner_def owner_ids_def split: option.split)
    moreover have "filter (\<lambda>x. x \<noteq> w) (owner_ids e) = owner_ids e" using w by (simp add: filter_id_conv) metis
    ultimately show ?thesis
      using assms not_found_owner(2)[OF assms None] by (auto intro!: office_eqI)
  next
    case (Some p)
    obtain fid f where p: "p = (fid, f)" by fastforce
    note F = found[OF assms Some[unfolded p]]
    obtain x where x: "dget (collections (ex_flows e)) fid = Some x"
      using iffD1[OF find_flow_iff Some[unfolded p]] by blast
    let ?e = "e\<lparr>owner_index := ddel w (owner_index e), ex_flows := without [fid] (ex_flows e)\<rparr>"
    have u: "snd (unregister_owner w e) = ?e"
      using F(2) pop_one_result[OF boxes_okD(1)[OF assms] x, of 0 True]
      by (simp add: unregister_owner_def Let_def del: pop.simps)
    have other: "k \<noteq> fid" if "v \<noteq> w" "dget (owner_index e) v = Some k" for v k
      using boxes_okD(4)[OF assms F(2), of v] that by auto
    have ff: "find_flow v ?e = (if v = w then None else find_flow v e)" for v
      using other[of v] by (auto simp: find_flow_def split: option.splits simp del: get.simps)
    have "office_of ?e = office_step (office_of e) (XUnregister w)"
      by (rule office_eqI) (simp_all add: mail_queue_def ff pending_def owner_ids_def dkeys_ddel)
    moreover have "boxes_ok ?e"
      unfolding boxes_ok_def
    proof (intro conjI allI impI)
      show "wf_pile (ex_flows ?e)" "item_type (ex_flows ?e) = None"
        using boxes_okD(1,2)[OF assms] by auto
      show "v' = v" if "dget (owner_index ?e) v = Some k" "dget (owner_index ?e) v' = Some k" for v v' k
        using that boxes_okD(4)[OF assms] by (auto split: if_splits)
      show "\<exists>x. dget (collections (ex_flows ?e)) k = Some x \<and> box_ok (ebody x) \<and>
          dhas (prog_names (ebody x)) OUTBOX" if k: "dget (owner_index ?e) v = Some k" for v k
      proof -
        have "v \<noteq> w" "dget (owner_index e) v = Some k" using k by (auto split: if_splits)
        then show ?thesis using other[of v k] assms unfolding boxes_ok_def by simp
      qed
    qed
    ultimately show ?thesis using u by simp
  qed
  then show "boxes_ok (snd (unregister_owner w e))"
    "office_of (snd (unregister_owner w e)) = office_step (office_of e) (XUnregister w)" by blast+
qed


section \<open>Mail is conserved\<close>

lemma step_refines:
  assumes "ex_ok e" "ids_fresh e x"
  shows "boxes_ok (ex_step e x)" "office_of (ex_step e x) = office_step (office_of e) x"
proof -
  have ok: "boxes_ok e" using assms(1) by (simp add: ex_ok_def)
  have "boxes_ok (ex_step e x) \<and> office_of (ex_step e x) = office_step (office_of e) x"
  proof (cases x)
    case (XRegister fid i j v w)
    have "\<not> dhas (collections (ex_flows e)) fid" using assms(2) XRegister by simp
    from register_refines[OF ok this] show ?thesis unfolding XRegister ex_step.simps by blast
  next
    case (XUnregister w)
    then show ?thesis using unregister_refines[OF ok] by simp
  next
    case (XSend u s r c ch)
    then have "u \<notin> known_ids (office_of e)" using assms(2) known_used[OF ok] by auto
    from send_refines[OF ok this] show ?thesis unfolding XSend ex_step.simps by blast
  next
    case (XCollectBegin w)
    then show ?thesis using collect_refines[OF ok] unfolding XCollectBegin ex_step.simps by blast
  next
    case (XDeliver v w m)
    then show ?thesis using deliver_refines[of e v w m] assms unfolding XDeliver ex_step.simps by blast
  next
    case (XPop w s)
    then show ?thesis using pop_refines[OF ok] unfolding XPop ex_step.simps by blast
  next
    case XStop
    have "find_flow w (stop e) = find_flow w e" for w
      by (simp add: stop_def find_flow_def del: get.simps split: option.split)
    then have "mail_queue w n (stop e) = mail_queue w n e" for w n by (simp add: mail_queue_def)
    then have "office_of (stop e) = office_of e"
      by (intro office_eqI) (simp_all, simp_all add: stop_def owner_ids_def pending_def)
    moreover have "boxes_ok (stop e)" using ok by (simp add: stop_def boxes_ok_def)
    ultimately show ?thesis using XStop by simp
  qed
  then show "boxes_ok (ex_step e x)" "office_of (ex_step e x) = office_step (office_of e) x" by blast+
qed

lemma step_ok: "ex_ok e \<Longrightarrow> ids_fresh e x \<Longrightarrow> ex_ok (ex_step e x)"
proof -
  assume ok: "ex_ok e" and fr: "ids_fresh e x"
  have "office_ok (office_step (office_of e) x)"
    using ok fr known_used[of e] by (intro office_step_ok) (auto simp: ex_ok_def)
  then show ?thesis using step_refines[OF ok fr] by (simp add: ex_ok_def)
qed

interpretation office_sim: simulation ex_step office_step office_of ex_ok ids_fresh
  by unfold_locales (auto intro: step_ok step_refines(2))

lemma new_exchange_ok: "ex_ok (new_exchange u)"
  by (simp add: ex_ok_def boxes_ok_def office_ok_def new_exchange_def owner_ids_def mail_queue_def
      find_flow_def pending_def office_of_def) (simp add: pile_of_def)

abbreviation sent_by :: "uuid \<Rightarrow> 'c mail \<Rightarrow> bool" where
  "sent_by s m \<equiv> m_sender (ebody m) = s"

text \<open>The mail from \<open>s\<close> to \<open>r\<close> that has not been read, oldest first: inbox, in flight, outbox.\<close>

definition underway :: "uuid \<Rightarrow> uuid \<Rightarrow> 'c office \<Rightarrow> 'c mail list" where
  "underway s r a =
     o_q a r (inbox_name s) @ filter (sent_by s) (o_fly a r) @ filter (addressed s r) (o_q a s OUTBOX)"

fun posted :: "uuid \<Rightarrow> uuid \<Rightarrow> 'c exchange \<Rightarrow> 'c ex_op \<Rightarrow> 'c mail list" where
  "posted s r e (XSend u s' r' c ch) =
     (case fst (send u s' r' c ch e) of
        Inl _ \<Rightarrow> [] | Inr m \<Rightarrow> if s' = s \<and> addressed s r m then [m] else [])"
| "posted s r e _ = []"

fun read_out :: "uuid \<Rightarrow> uuid \<Rightarrow> 'c exchange \<Rightarrow> 'c ex_op \<Rightarrow> 'c mail list" where
  "read_out s r e (XPop w s') =
     (case fst (pop_message w s' e) of
        Inr (Some m) \<Rightarrow> if w = r \<and> s' = s then [m] else [] | _ \<Rightarrow> [])"
| "read_out s r e _ = []"

fun over_run :: "('c exchange \<Rightarrow> 'c ex_op \<Rightarrow> 'c mail list) \<Rightarrow> 'c exchange \<Rightarrow> 'c ex_op list \<Rightarrow> 'c mail list" where
  "over_run g e [] = []"
| "over_run g e (x # xs) = g e x @ over_run g (ex_step e x) xs"

text \<open>A delivery that takes the oldest message of its sender.\<close>

fun in_order :: "'c exchange \<Rightarrow> 'c ex_op \<Rightarrow> bool" where
  "in_order e (XDeliver v w m) \<longleftrightarrow>
     (m \<in> set (pending w e) \<longrightarrow> hd (filter (sent_by (m_sender (ebody m))) (pending w e)) = m)"
| "in_order e _ \<longleftrightarrow> True"

fun is_deliver :: "'c ex_op \<Rightarrow> bool" where
  "is_deliver (XDeliver v w m) \<longleftrightarrow> True"
| "is_deliver _ \<longleftrightarrow> False"

lemma filter_remove1_hd:
  "P m \<Longrightarrow> m \<in> set xs \<Longrightarrow> hd (filter P xs) = m \<Longrightarrow> m # filter P (remove1 m xs) = filter P xs"
proof (induction xs)
  case (Cons x xs)
  then show ?case by (cases "P x"; cases "x = m") simp_all
qed simp

lemma filter_remove1_other: "\<not> P m \<Longrightarrow> filter P (remove1 m xs) = filter P xs"
  by (induction xs) auto

text \<open>Every operation but a delivery keeps the order; a delivery keeps it if it is in order.\<close>

lemma underway_step:
  assumes ok: "ex_ok e" and fr: "ids_fresh e x" and s: "s \<in> set (owner_ids e)" and r: "r \<in> set (owner_ids e)"
    and stay: "x \<noteq> XUnregister r" "x \<noteq> XUnregister s" and ord: "is_deliver x \<longrightarrow> in_order e x"
  shows "read_out s r e x @ underway s r (office_of (ex_step e x)) =
    underway s r (office_of e) @ posted s r e x"
proof -
  have b: "boxes_ok e" and o: "office_ok (office_of e)" using ok by (simp_all add: ex_ok_def)
  note step = step_refines(2)[OF ok fr]
  show ?thesis
  proof (cases x)
    case (XRegister fid i j v w)
    then show ?thesis using step by (auto simp: underway_def)
  next
    case (XUnregister w)
    then show ?thesis using step stay by (simp add: underway_def)
  next
    case (XSend u s' r' c ch)
    have "u \<notin> known_ids (office_of e)" using fr XSend known_used[OF b] by auto
    from send_refines(3)[OF b this, of s' r' c ch] show ?thesis
      using step XSend s by (auto simp: underway_def)
  next
    case (XCollectBegin w)
    let ?a = "office_step (office_of e) x"
    have fly: "o_fly ?a r = pending r e @ (if w \<in> set (owner_ids e) then filter (addressed w r) (mail_queue w OUTBOX e) else [])"
      using r XCollectBegin to_owner_route[OF office_okD(1)[OF o], of r w "mail_queue w OUTBOX e"]
      by (simp add: Let_def)
    have tag: "\<forall>m \<in> set (mail_queue w OUTBOX e). sent_by w m" using office_okD(6)[OF o] by simp
    then have all: "filter (sent_by w) (filter (addressed w r) (mail_queue w OUTBOX e)) =
        filter (addressed w r) (mail_queue w OUTBOX e)"
      by (intro filter_True) auto
    have none: "w \<noteq> s \<Longrightarrow> filter (sent_by s) (filter (addressed w r) (mail_queue w OUTBOX e)) = []"
      using tag by (intro filter_False) auto
    have q: "o_q ?a u k = (if u = w \<and> k = OUTBOX \<and> w \<in> set (owner_ids e) then [] else mail_queue u k e)" for u k
      using XCollectBegin by (simp add: Let_def)
    have "underway s r ?a = underway s r (office_of e)"
      using all none s by (cases "w = s") (simp_all add: underway_def fly q del: office_step.simps filter_filter)
    then show ?thesis using step XCollectBegin by simp
  next
    case (XDeliver v w m)
    let ?n = "inbox_name (m_sender (ebody m))"
    show ?thesis
    proof (cases "m \<in> set (pending w e)")
      case False
      then show ?thesis using step XDeliver by simp
    next
      case True
      let ?a = "office_step (office_of e) x"
      have q: "o_q ?a u k = (if u = w \<and> k = ?n \<and> w \<in> set (owner_ids e) then mail_queue w ?n e @ [m] else mail_queue u k e)" for u k
        using XDeliver True by (simp add: Let_def)
      have fly: "o_fly ?a u = (if u = w then remove1 m (pending w e) else pending u e)" for u
        using XDeliver True by (simp add: Let_def)
      have "hd (filter (sent_by (m_sender (ebody m))) (pending w e)) = m" using ord XDeliver True by simp
      then have "m # filter (sent_by (m_sender (ebody m))) (remove1 m (pending w e)) =
          filter (sent_by (m_sender (ebody m))) (pending w e)"
        using True by (intro filter_remove1_hd) simp_all
      moreover have "\<not> sent_by s m \<Longrightarrow> filter (sent_by s) (remove1 m (pending w e)) = filter (sent_by s) (pending w e)"
        by (rule filter_remove1_other)
      ultimately have "underway s r ?a = underway s r (office_of e)"
        using r by (cases "w = r"; cases "sent_by s m") (simp_all add: underway_def q fly del: office_step.simps)
      then show ?thesis using step XDeliver by simp
    qed
  next
    case (XPop w s')
    then show ?thesis
      using step pop_refines(3)[OF b, of w s'] by (auto simp: underway_def split: list.split)
  next
    case XStop
    then show ?thesis using step by simp
  qed
qed


lemma owners_step:
  "ex_ok e \<Longrightarrow> ids_fresh e x \<Longrightarrow> w \<in> set (owner_ids e) \<Longrightarrow> x \<noteq> XUnregister w \<Longrightarrow>
   w \<in> set (owner_ids (ex_step e x))"
proof -
  assume a: "ex_ok e" "ids_fresh e x" "w \<in> set (owner_ids e)" "x \<noteq> XUnregister w"
  have "w \<in> set (o_owners (office_step (office_of e) x))" using a(3,4) by (cases x) (auto simp: Let_def)
  then show ?thesis using step_refines(2)[OF a(1,2)] by (metis office_of_simps(1))
qed

text \<open>Any delivery, in order or not, moves one message.\<close>

lemma underway_step_mset:
  assumes ok: "ex_ok e" and fr: "ids_fresh e x" and s: "s \<in> set (owner_ids e)" and r: "r \<in> set (owner_ids e)"
    and stay: "x \<noteq> XUnregister r" "x \<noteq> XUnregister s"
  shows "mset (read_out s r e x) + mset (underway s r (office_of (ex_step e x))) =
    mset (underway s r (office_of e)) + mset (posted s r e x)"
proof (cases "is_deliver x \<and> \<not> in_order e x")
  case False
  then show ?thesis using underway_step[OF assms] by (metis mset_append)
next
  case True
  then obtain v w m where x: "x = XDeliver v w m" "m \<in> set (pending w e)"
    by (cases x) auto
  let ?n = "inbox_name (m_sender (ebody m))"
  let ?a = "office_step (office_of e) x"
  have q: "o_q ?a u k = (if u = w \<and> k = ?n \<and> w \<in> set (owner_ids e) then mail_queue w ?n e @ [m] else mail_queue u k e)" for u k
    using x by (simp add: Let_def)
  have fly: "o_fly ?a u = (if u = w then remove1 m (pending w e) else pending u e)" for u
    using x by (simp add: Let_def)
  have "mset (filter P (remove1 m xs)) + (if P m then {#m#} else {#}) = mset (filter P xs)"
    if "m \<in> set xs" for P and xs :: "'a mail list"
    using that by (induction xs) auto
  note del = this[OF x(2), of "sent_by s"]
  have "mset (underway s r ?a) = mset (underway s r (office_of e))"
    using r del[symmetric]
    by (cases "w = r"; cases "sent_by s m") (simp_all add: underway_def q fly del: office_step.simps)
  then show ?thesis using step_refines(2)[OF ok fr] x(1) by simp
qed

lemma run_underway_mset:
  assumes "ex_ok e" "all_fresh e xs" "s \<in> set (owner_ids e)" "r \<in> set (owner_ids e)"
    "XUnregister r \<notin> set xs" "XUnregister s \<notin> set xs"
  shows "mset (over_run (read_out s r) e xs) + mset (underway s r (office_of (foldl ex_step e xs))) =
    mset (underway s r (office_of e)) + mset (over_run (posted s r) e xs)"
  using assms
proof (induction xs arbitrary: e)
  case (Cons x xs)
  then have fr: "ids_fresh e x" "all_fresh (ex_step e x) xs" by simp_all
  have ne: "x \<noteq> XUnregister r" "x \<noteq> XUnregister s" using Cons.prems(5,6) by auto
  have "mset (over_run (read_out s r) (ex_step e x) xs) +
      mset (underway s r (office_of (foldl ex_step (ex_step e x) xs))) =
      mset (underway s r (office_of (ex_step e x))) + mset (over_run (posted s r) (ex_step e x) xs)"
    using Cons.prems(5,6) fr(2) step_ok[OF Cons.prems(1) fr(1)]
      owners_step[OF Cons.prems(1) fr(1) Cons.prems(3) ne(2)]
      owners_step[OF Cons.prems(1) fr(1) Cons.prems(4) ne(1)]
    by (intro Cons.IH) simp_all
  then show ?case
    using underway_step_mset[OF Cons.prems(1) fr(1) Cons.prems(3,4) ne]
    by (simp add: ac_simps)
qed simp

lemma run_underway:
  assumes "ex_ok e" "all_fresh e xs" "s \<in> set (owner_ids e)" "r \<in> set (owner_ids e)"
    "XUnregister r \<notin> set xs" "XUnregister s \<notin> set xs" "enabled_run ex_step in_order e xs"
  shows "over_run (read_out s r) e xs @ underway s r (office_of (foldl ex_step e xs)) =
    underway s r (office_of e) @ over_run (posted s r) e xs"
  using assms
proof (induction xs arbitrary: e)
  case (Cons x xs)
  then have fr: "ids_fresh e x" "all_fresh (ex_step e x) xs" "in_order e x"
    "enabled_run ex_step in_order (ex_step e x) xs" by simp_all
  have ne: "x \<noteq> XUnregister r" "x \<noteq> XUnregister s" using Cons.prems(5,6) by auto
  have "over_run (read_out s r) (ex_step e x) xs @
      underway s r (office_of (foldl ex_step (ex_step e x) xs)) =
      underway s r (office_of (ex_step e x)) @ over_run (posted s r) (ex_step e x) xs"
    using Cons.prems(5,6) fr(2,4) step_ok[OF Cons.prems(1) fr(1)]
      owners_step[OF Cons.prems(1) fr(1) Cons.prems(3) ne(2)]
      owners_step[OF Cons.prems(1) fr(1) Cons.prems(4) ne(1)]
    by (intro Cons.IH) simp_all
  moreover have "read_out s r e x @ underway s r (office_of (ex_step e x)) =
      underway s r (office_of e) @ posted s r e x"
    using underway_step[OF Cons.prems(1) fr(1) Cons.prems(3,4) ne] fr(3) by blast
  ultimately show ?case by (metis append.assoc foldl_Cons over_run.simps(2))
qed simp

section \<open>A whole collection\<close>

definition prog_ids :: "'c exchange \<Rightarrow> uuid set" where
  "prog_ids e = {k. \<exists>w fid f. find_flow w e = Some (fid, f) \<and> dhas (collections (progs f)) k}"

lemma prog_ids_put:
  assumes "boxes_ok e" "find_flow w e = Some (fid, f)"
    "fst ` set (collections (progs g)) \<subseteq> N \<union> fst ` set (collections (progs f))"
  shows "prog_ids (put_flow fid g e) \<subseteq> N \<union> prog_ids e"
proof
  fix k assume "k \<in> prog_ids (put_flow fid g e)"
  then obtain v j h where h: "find_flow v (put_flow fid g e) = Some (j, h)" "dhas (collections (progs h)) k"
    by (auto simp: prog_ids_def)
  show "k \<in> N \<union> prog_ids e"
  proof (cases "v = w")
    case True
    then have "k \<in> N \<union> fst ` set (collections (progs f))"
      using h assms(3) put_flow_other[OF assms(1,2), of v g] by auto
    then show ?thesis using assms(2) unfolding prog_ids_def by auto
  next
    case False
    then show ?thesis using h put_flow_other[OF assms(1,2), of v g] unfolding prog_ids_def by auto
  qed
qed

lemma prog_ids_flight [simp]: "prog_ids (e\<lparr>in_flight := d\<rparr>) = prog_ids e"
  by (simp add: prog_ids_def)

lemma prog_ids_collect:
  assumes "boxes_ok e"
  shows "prog_ids (snd (collect_begin w e)) \<subseteq> prog_ids e"
proof (cases "find_flow w e")
  case None
  then show ?thesis by (simp add: collect_begin_def)
next
  case (Some p)
  obtain fid f where p: "p = (fid, f)" by fastforce
  note F = found[OF assms Some[unfolded p]]
  obtain v where v: "dget (prog_names f) OUTBOX = Some v" using dget_key[of OUTBOX] F(4) by fastforce
  have get: "get_progression (KName OUTBOX) f = (Inr v, f)"
    by (rule get_progression_hit[OF box_okD(6)[OF F(3)] v])
  obtain g where g: "empty_queue v f = (queue OUTBOX f, g)"
    "fst ` set (collections (progs g)) = fst ` set (collections (progs f))"
    using empty_queue_result[OF F(3) v] by (elim exE conjE) (rule that, assumption+)
  obtain ds where "snd (collect_begin w e) = mark_in_flight ds True (put_flow fid g e)"
    using Some p get g(1) by (simp add: collect_begin_def Let_def del: get_progression.simps)
  moreover obtain d where "mark_in_flight ds True (put_flow fid g e) = (put_flow fid g e)\<lparr>in_flight := d\<rparr>"
    using mark_state by blast
  moreover have "prog_ids (put_flow fid g e) \<subseteq> {} \<union> prog_ids e"
    by (rule prog_ids_put[OF assms Some[unfolded p]]) (simp add: g(2))
  ultimately show ?thesis by simp
qed

lemma prog_ids_deliver_locked:
  assumes "boxes_ok e" "v \<notin> prog_ids e"
  shows "prog_ids (snd (deliver_locked v w m e)) \<subseteq> insert v (prog_ids e)"
proof (cases "find_flow w e")
  case None
  then show ?thesis by (auto simp: deliver_locked_def)
next
  case (Some p)
  obtain fid f where p: "p = (fid, f)" by fastforce
  note F = found[OF assms(1) Some[unfolded p]]
  let ?n = "inbox_name (m_sender (ebody m))"
  have fv: "\<not> dhas (collections (progs f)) v" using assms(2) Some p unfolding prog_ids_def by blast
  obtain g where g: "ensure_inbox v ?n f = (Inr (), g)" "box_ok g" "dhas (prog_names g) ?n"
    "fst ` set (collections (progs g)) \<subseteq> insert v (fst ` set (collections (progs f)))"
    using ensure_inbox_ok[OF F(3) fv refl] by metis
  obtain u where u: "dget (prog_names g) ?n = Some u" using dget_key[of ?n] g(3) by fastforce
  obtain r h where h: "add_item m [KName ?n] g = (r, h)" by fastforce
  then have "h = g\<lparr>flow_items := snd (pile_include [IElem m] (flow_items g)),
      progs := upd_prog u (\<lambda>p. snd (pg_append (elem_ref m) p)) (progs g)\<rparr>"
    using add_item_hit[OF g(2) u, of m] by simp
  then have "fst ` set (collections (progs h)) = fst ` set (collections (progs g))"
    by (simp add: dhas_upd_prog)
  then have "prog_ids (put_flow fid h e) \<subseteq> {v} \<union> prog_ids e"
    using g(4) by (intro prog_ids_put[OF assms(1) Some[unfolded p]]) simp
  moreover have "snd (deliver_locked v w m e) = put_flow fid h e"
    using Some p g(1) h by (simp add: deliver_locked_def Let_def)
  ultimately show ?thesis by simp
qed

lemma prog_ids_deliver:
  assumes "boxes_ok e" "v \<notin> prog_ids e"
  shows "prog_ids (snd (deliver_to v w m e)) \<subseteq> insert v (prog_ids e)"
proof -
  obtain r e1 where d: "deliver_locked v w m e = (r, e1)" by fastforce
  have "prog_ids e1 \<subseteq> insert v (prog_ids e)" using prog_ids_deliver_locked[OF assms, of w m] d by simp
  moreover have "prog_ids (snd (remove_in_flight_locked w m e1)) = prog_ids e1"
    by (simp add: remove_in_flight_locked_def Let_def)
  ultimately show ?thesis using d by (cases r) (auto simp: deliver_to_def)
qed

lemma fresh_prog:
  "v \<notin> prog_ids e \<Longrightarrow> ids_fresh e (XDeliver v w m)"
  by (auto simp: prog_ids_def split: option.split)


text \<open>Deliveries of what is first in flight for each recipient; the ids \<open>vs i\<close>, \<open>vs (Suc i)\<close>, \<open>\<dots>\<close> are new.\<close>

definition new_ids :: "(nat \<Rightarrow> uuid) \<Rightarrow> nat \<Rightarrow> 'c exchange \<Rightarrow> bool" where
  "new_ids vs i e \<longleftrightarrow> inj vs \<and> (\<forall>j \<ge> i. vs j \<notin> prog_ids e)"

lemma new_ids_step:
  assumes "new_ids vs i e" "prog_ids e' \<subseteq> insert (vs i) (prog_ids e)"
  shows "new_ids vs (Suc i) e'"
proof -
  have "vs j \<notin> prog_ids e'" if "Suc i \<le> j" for j
  proof -
    have "j \<noteq> i" using that by simp
    then have "vs j \<noteq> vs i" using assms(1) unfolding new_ids_def by (metis inj_eq)
    then show ?thesis using assms that by (auto simp: new_ids_def)
  qed
  then show ?thesis using assms(1) by (simp add: new_ids_def)
qed

definition delivered :: "uuid \<Rightarrow> uuid \<Rightarrow> (uuid \<times> 'c mail) list \<Rightarrow> 'c mail list" where
  "delivered s r ds = filter (sent_by s) (to_owner r ds)"

lemma deliver_in_turn_result:
  assumes "ex_ok e" "new_ids vs i e" "\<And>r. pending r e = to_owner r ds"
    "\<forall>d \<in> set ds. fst d \<in> set (owner_ids e)"
  shows "\<exists>e1. deliver_in_turn vs i ds e = (Inr (), e1) \<and> gather_deliveries vs i ds e = e1 \<and> ex_ok e1 \<and>
    owner_ids e1 = owner_ids e \<and> (\<forall>r. pending r e1 = []) \<and>
    (\<forall>r. mail_queue r OUTBOX e1 = mail_queue r OUTBOX e) \<and>
    (\<forall>r s. mail_queue r (inbox_name s) e1 = mail_queue r (inbox_name s) e @ delivered s r ds)"
  using assms
proof (induction ds arbitrary: i e)
  case Nil
  then show ?case by (simp add: delivered_def)
next
  case (Cons d ds)
  obtain w m where d: "d = (w, m)" by fastforce
  have ok: "boxes_ok e" using Cons.prems(1) by (simp add: ex_ok_def)
  have vi: "vs i \<notin> prog_ids e" using Cons.prems(2) by (simp add: new_ids_def)
  have fr: "ids_fresh e (XDeliver (vs i) w m)" by (rule fresh_prog[OF vi])
  obtain e1 where e1: "deliver_to (vs i) w m e = (Inr (), e1)"
    using deliver_refines(1)[OF Cons.prems(1) fr] by (metis prod.collapse)
  have pw: "pending w e = m # to_owner w ds" using Cons.prems(3)[of w] d by simp
  have wo: "w \<in> set (owner_ids e)" using Cons.prems(4) d by simp
  have off: "office_of e1 = office_step (office_of e) (XDeliver (vs i) w m)"
    using deliver_refines(3)[OF Cons.prems(1) fr] e1 by simp
  have ok1: "ex_ok e1" using step_ok[OF Cons.prems(1) fr] e1 by simp
  have ids1: "new_ids vs (Suc i) e1"
    using new_ids_step[OF Cons.prems(2)] prog_ids_deliver[OF ok vi, of w m] e1 by simp
  let ?n = "inbox_name (m_sender (ebody m))"
  have q1: "mail_queue u k e1 = (if u = w \<and> k = ?n then mail_queue w ?n e @ [m] else mail_queue u k e)" for u k
    using arg_cong[OF off, of "\<lambda>a. o_q a u k"] wo pw by (simp add: Let_def)
  have f1: "pending u e1 = to_owner u ds" for u
    using arg_cong[OF off, of "\<lambda>a. o_fly a u"] wo pw Cons.prems(3)[of u] d by (auto simp: Let_def)
  have o1: "owner_ids e1 = owner_ids e"
    using arg_cong[OF off, of o_owners] wo pw by (simp add: Let_def)
  have "\<forall>x \<in> set ds. fst x \<in> set (owner_ids e1)" using Cons.prems(4) o1 by simp
  from Cons.IH[OF ok1 ids1 f1 this] obtain e2 where
    e2: "deliver_in_turn vs (Suc i) ds e1 = (Inr (), e2)" "gather_deliveries vs (Suc i) ds e1 = e2"
    "ex_ok e2" "owner_ids e2 = owner_ids e1" "\<forall>r. pending r e2 = []"
    "\<forall>r. mail_queue r OUTBOX e2 = mail_queue r OUTBOX e1"
    "\<forall>r s. mail_queue r (inbox_name s) e2 = mail_queue r (inbox_name s) e1 @ delivered s r ds"
    by (elim exE conjE) (rule that, assumption+)
  have "mail_queue r (inbox_name s) e2 = mail_queue r (inbox_name s) e @ delivered s r (d # ds)" for r s
    using e2(7) q1[of r "inbox_name s"] d by (auto simp: delivered_def)
  moreover have "mail_queue r OUTBOX e2 = mail_queue r OUTBOX e" for r using e2(6) q1 by simp
  ultimately show ?case using e1 e2(1-5) o1 d by auto
qed

lemma routed_to_owners: "d \<in> set (route ws w m) \<Longrightarrow> fst d \<in> set ws"
  by (auto simp: route_def split: option.splits if_splits)

text \<open>What collecting the outbox of \<open>w\<close> does when nothing else is in flight.\<close>

lemma collect_result:
  assumes ok: "ex_ok e" and w: "w \<in> set (owner_ids e)" and idle: "\<And>r. pending r e = []"
    and ids: "new_ids vs 0 e"
  shows "\<exists>e1 n. collect_sync vs w e = (Inr n, e1) \<and> collect vs w e = (Inr n, e1) \<and> ex_ok e1 \<and>
    owner_ids e1 = owner_ids e \<and> (\<forall>r. pending r e1 = []) \<and>
    (\<forall>r. mail_queue r OUTBOX e1 = (if r = w then [] else mail_queue r OUTBOX e)) \<and>
    (\<forall>r s. mail_queue r (inbox_name s) e1 = mail_queue r (inbox_name s) e @
       (if s = w \<and> r \<in> set (owner_ids e) then filter (addressed w r) (mail_queue w OUTBOX e) else []))"
proof -
  have b: "boxes_ok e" and o: "office_ok (office_of e)" using ok by (simp_all add: ex_ok_def)
  let ?ds = "concat (map (route (owner_ids e) w) (mail_queue w OUTBOX e))"
  have fr: "ids_fresh e (XCollectBegin w)" by simp
  obtain e1 where e1: "collect_begin w e = (Inr ?ds, e1)"
    using collect_refines(3)[OF b, of w] w by (metis (full_types) prod.collapse)
  have ok1: "ex_ok e1" using step_ok[OF ok fr] e1 by simp
  have off: "office_of e1 = office_step (office_of e) (XCollectBegin w)"
    using collect_refines(2)[OF b, of w] e1 by simp
  have o1: "owner_ids e1 = owner_ids e"
    using arg_cong[OF off, of o_owners] w by (simp add: Let_def)
  have q1: "mail_queue u k e1 = (if u = w \<and> k = OUTBOX then [] else mail_queue u k e)" for u k
    using arg_cong[OF off, of "\<lambda>a. o_q a u k"] w by (simp add: Let_def)
  have f1: "pending u e1 = to_owner u ?ds" for u
    using arg_cong[OF off, of "\<lambda>a. o_fly a u"] w idle[of u] by (simp add: Let_def)
  have ids1: "new_ids vs 0 e1"
    using ids prog_ids_collect[OF b, of w] e1 by (auto simp: new_ids_def)
  have "\<forall>d \<in> set ?ds. fst d \<in> set (owner_ids e1)" using o1 routed_to_owners by fastforce
  from deliver_in_turn_result[OF ok1 ids1 f1 this] obtain e2 where
    e2: "deliver_in_turn vs 0 ?ds e1 = (Inr (), e2)" "gather_deliveries vs 0 ?ds e1 = e2"
    "ex_ok e2" "owner_ids e2 = owner_ids e1" "\<forall>r. pending r e2 = []"
    "\<forall>r. mail_queue r OUTBOX e2 = mail_queue r OUTBOX e1"
    "\<forall>r s. mail_queue r (inbox_name s) e2 = mail_queue r (inbox_name s) e1 @ delivered s r ?ds"
    by (elim exE conjE) (rule that, assumption+)
  have tag: "sent_by s m \<longleftrightarrow> s = w" if "m \<in> set (mail_queue w OUTBOX e)" for m s
    using office_okD(6)[OF o, of m w] that by auto
  have "delivered s r ?ds = (if s = w \<and> r \<in> set (owner_ids e)
      then filter (addressed w r) (mail_queue w OUTBOX e) else [])" for s r
  proof -
    have "distinct (owner_ids e)" using office_okD(1)[OF o] by simp
    from to_owner_route[OF this, of r w "mail_queue w OUTBOX e"]
    have "delivered s r ?ds = (if r \<in> set (owner_ids e)
        then filter (sent_by s) (filter (addressed w r) (mail_queue w OUTBOX e)) else [])"
      by (simp add: delivered_def del: filter_filter)
    also have "filter (sent_by s) (filter (addressed w r) (mail_queue w OUTBOX e)) =
        (if s = w then filter (addressed w r) (mail_queue w OUTBOX e) else [])"
      using tag by (auto intro!: filter_True filter_False simp del: filter_filter)
    finally show ?thesis by auto
  qed
  then have "mail_queue r (inbox_name s) e2 = mail_queue r (inbox_name s) e @
       (if s = w \<and> r \<in> set (owner_ids e) then filter (addressed w r) (mail_queue w OUTBOX e) else [])" for r s
    using e2(7) q1 by simp
  moreover have "mail_queue r OUTBOX e2 = (if r = w then [] else mail_queue r OUTBOX e)" for r
    using e2(6) q1 by simp
  moreover have "collect_sync vs w e = (Inr (routed ?ds), e2)" "collect vs w e = (Inr (routed ?ds), e2)"
    using e1 e2(1,2) by (simp_all add: collect_sync_def collect_def)
  ultimately show ?thesis using e2(3,4,5) o1 by auto
qed


section \<open>Draining a mailbox\<close>

lemma deliver_pending_result:
  assumes "ex_ok e" "new_ids vs i e" "pending w e = ms"
  shows "\<exists>e1. deliver_pending vs i w ms e = (Inr (), e1) \<and> ex_ok e1 \<and> owner_ids e1 = owner_ids e \<and>
    (\<forall>r. pending r e1 = (if r = w then [] else pending r e)) \<and>
    (\<forall>r. mail_queue r OUTBOX e1 = mail_queue r OUTBOX e) \<and>
    (\<forall>r s. mail_queue r (inbox_name s) e1 = mail_queue r (inbox_name s) e @
       (if r = w \<and> w \<in> set (owner_ids e) then filter (sent_by s) ms else []))"
  using assms
proof (induction ms arbitrary: i e)
  case Nil
  then show ?case by simp
next
  case (Cons m ms)
  have ok: "boxes_ok e" using Cons.prems(1) by (simp add: ex_ok_def)
  have vi: "vs i \<notin> prog_ids e" using Cons.prems(2) by (simp add: new_ids_def)
  have fr: "ids_fresh e (XDeliver (vs i) w m)" by (rule fresh_prog[OF vi])
  have mp: "m \<in> set (pending w e)" using Cons.prems(3) by simp
  define e1 where "e1 = snd (deliver_to (vs i) w m e)"
  have d1: "deliver_to (vs i) w m e = (Inr (), e1)"
    using deliver_refines(1)[OF Cons.prems(1) fr] by (simp add: e1_def prod_eq_iff)
  then obtain x where x: "deliver_locked (vs i) w m e = (Inr (), x)"
    "e1 = snd (remove_in_flight_locked w m x)"
    using mp by (auto simp: deliver_to_def split: prod.splits sum.splits)
  have off: "office_of e1 = office_step (office_of e) (XDeliver (vs i) w m)"
    using deliver_refines(3)[OF Cons.prems(1) fr] d1 by simp
  have ok1: "ex_ok e1" using step_ok[OF Cons.prems(1) fr] d1 by simp
  have ids1: "new_ids vs (Suc i) e1"
    using new_ids_step[OF Cons.prems(2)] prog_ids_deliver[OF ok vi, of w m] d1 by simp
  let ?n = "inbox_name (m_sender (ebody m))"
  have q1: "mail_queue u k e1 = (if u = w \<and> k = ?n \<and> w \<in> set (owner_ids e)
      then mail_queue w ?n e @ [m] else mail_queue u k e)" for u k
    using arg_cong[OF off, of "\<lambda>a. o_q a u k"] mp by (simp add: Let_def)
  have f1: "pending u e1 = (if u = w then ms else pending u e)" for u
    using arg_cong[OF off, of "\<lambda>a. o_fly a u"] mp Cons.prems(3) by (simp add: Let_def)
  have o1: "owner_ids e1 = owner_ids e"
    using arg_cong[OF off, of o_owners] mp by (simp add: Let_def)
  have "pending w e1 = ms" using f1 by simp
  from Cons.IH[OF ok1 ids1 this] obtain e2 where
    e2: "deliver_pending vs (Suc i) w ms e1 = (Inr (), e2)" "ex_ok e2" "owner_ids e2 = owner_ids e1"
    "\<forall>r. pending r e2 = (if r = w then [] else pending r e1)"
    "\<forall>r. mail_queue r OUTBOX e2 = mail_queue r OUTBOX e1"
    "\<forall>r s. mail_queue r (inbox_name s) e2 = mail_queue r (inbox_name s) e1 @
       (if r = w \<and> w \<in> set (owner_ids e1) then filter (sent_by s) ms else [])"
    by (elim exE conjE) (rule that, assumption+)
  have "deliver_pending vs i w (m # ms) e = (Inr (), e2)" using x e2(1) by simp
  moreover have "mail_queue r (inbox_name s) e2 = mail_queue r (inbox_name s) e @
      (if r = w \<and> w \<in> set (owner_ids e) then filter (sent_by s) (m # ms) else [])" for r s
    using e2(6) q1[of r "inbox_name s"] o1 by auto
  moreover have "mail_queue r OUTBOX e2 = mail_queue r OUTBOX e" for r using e2(5) q1 by simp
  moreover have "pending r e2 = (if r = w then [] else pending r e)" for r using e2(4) f1 by simp
  ultimately show ?case using e2(2,3) o1 by auto
qed

lemma pop_all_result:
  assumes "ex_ok e"
  shows "\<exists>e1. pop_all w s e = (Inr (mail_queue w (inbox_name s) e), e1) \<and> ex_ok e1 \<and>
    office_of e1 = set_q w (inbox_name s) [] (office_of e)"
  using assms
proof (induction "mail_queue w (inbox_name s) e" arbitrary: e)
  case Nil
  have ok: "boxes_ok e" using Nil.prems by (simp add: ex_ok_def)
  have fr: "ids_fresh e (XPop w s)" by simp
  obtain e1 where e1: "pop_message w s e = (Inr None, e1)"
    using pop_refines(3)[OF ok, of w s] Nil.hyps[symmetric] by (metis list.case(1) prod.collapse)
  have "ex_ok e1" using step_ok[OF Nil.prems fr] e1 by simp
  moreover have "office_of e1 = set_q w (inbox_name s) [] (office_of e)"
    using pop_refines(2)[OF ok, of w s] e1 Nil.hyps[symmetric] by simp
  ultimately show ?case using e1 Nil.hyps[symmetric] by (subst pop_all.simps) simp
next
  case (Cons m ms)
  have ok: "boxes_ok e" using Cons.prems by (simp add: ex_ok_def)
  have fr: "ids_fresh e (XPop w s)" by simp
  obtain e1 where e1: "pop_message w s e = (Inr (Some m), e1)"
    using pop_refines(3)[OF ok, of w s] Cons.hyps(2)[symmetric] by (metis list.case(2) prod.collapse)
  have ok1: "ex_ok e1" using step_ok[OF Cons.prems fr] e1 by simp
  have off: "office_of e1 = set_q w (inbox_name s) ms (office_of e)"
    using pop_refines(2)[OF ok, of w s] e1 Cons.hyps(2)[symmetric] by simp
  have "ms = mail_queue w (inbox_name s) e1"
    using arg_cong[OF off, of "\<lambda>a. o_q a w (inbox_name s)"] by simp
  from Cons.hyps(1)[OF this ok1] obtain e2 where
    e2: "pop_all w s e1 = (Inr (mail_queue w (inbox_name s) e1), e2)" "ex_ok e2"
    "office_of e2 = set_q w (inbox_name s) [] (office_of e1)" by blast
  have "pop_all w s e = (Inr (m # ms), e2)"
    using e1 e2(1) \<open>ms = mail_queue w (inbox_name s) e1\<close> by (subst pop_all.simps) simp
  moreover have "office_of e2 = set_q w (inbox_name s) [] (office_of e)"
    unfolding e2(3) off by (rule office_eqI) simp_all
  ultimately show ?case using e2(2) Cons.hyps(2) by auto
qed

lemma pop_senders_result:
  assumes "ex_ok e" "distinct ss"
  shows "\<exists>e1. pop_senders w ss e = (Inr (concat (map (\<lambda>s. mail_queue w (inbox_name s) e) ss)), e1) \<and>
    ex_ok e1 \<and> owner_ids e1 = owner_ids e \<and> (\<forall>r. pending r e1 = pending r e) \<and>
    (\<forall>r. mail_queue r OUTBOX e1 = mail_queue r OUTBOX e) \<and>
    (\<forall>r s. mail_queue r (inbox_name s) e1 =
       (if r = w \<and> s \<in> set ss then [] else mail_queue r (inbox_name s) e))"
  using assms
proof (induction ss arbitrary: e)
  case Nil
  then show ?case by simp
next
  case (Cons a ss)
  obtain e1 where e1: "pop_all w a e = (Inr (mail_queue w (inbox_name a) e), e1)" "ex_ok e1"
    "office_of e1 = set_q w (inbox_name a) [] (office_of e)"
    using pop_all_result[OF Cons.prems(1)] by blast
  have q1: "mail_queue r k e1 = (if r = w \<and> k = inbox_name a then [] else mail_queue r k e)" for r k
    using arg_cong[OF e1(3), of "\<lambda>a. o_q a r k"] by simp
  have f1: "pending r e1 = pending r e" for r using arg_cong[OF e1(3), of "\<lambda>a. o_fly a r"] by simp
  have o1: "owner_ids e1 = owner_ids e" using arg_cong[OF e1(3), of o_owners] by simp
  have "distinct ss" using Cons.prems(2) by simp
  from Cons.IH[OF e1(2) this] obtain e2 where
    e2: "pop_senders w ss e1 = (Inr (concat (map (\<lambda>s. mail_queue w (inbox_name s) e1) ss)), e2)"
    "ex_ok e2" "owner_ids e2 = owner_ids e1" "\<forall>r. pending r e2 = pending r e1"
    "\<forall>r. mail_queue r OUTBOX e2 = mail_queue r OUTBOX e1"
    "\<forall>r s. mail_queue r (inbox_name s) e2 =
       (if r = w \<and> s \<in> set ss then [] else mail_queue r (inbox_name s) e1)"
    by (elim exE conjE) (rule that, assumption+)
  have same: "map (\<lambda>s. mail_queue w (inbox_name s) e1) ss = map (\<lambda>s. mail_queue w (inbox_name s) e) ss"
    using Cons.prems(2) q1 by (intro map_cong) auto
  have "pop_senders w (a # ss) e =
      (Inr (concat (map (\<lambda>s. mail_queue w (inbox_name s) e) (a # ss))), e2)"
    using e1(1) e2(1)[unfolded same] by simp
  then show ?case using e2(2-6) q1 f1 o1 by auto
qed

lemma inbox_sender:
  assumes "ex_ok e" "m \<in> set (mail_queue w (inbox_name s) e)"
  shows "m_sender (ebody m) = s"
proof -
  have ok: "boxes_ok e" using assms(1) by (simp add: ex_ok_def)
  obtain fid f where f: "find_flow w e = Some (fid, f)"
    using assms(2) by (cases "find_flow w e") (auto simp: mail_queue_def)
  have "tagged f" using box_okD(8)[OF found(3)[OF ok f]] .
  moreover have "m \<in> set (queue (inbox_name s) f)" using assms(2) found(5)[OF ok f] by simp
  ultimately have "inbox_name s = inbox_name (m_sender (ebody m))" unfolding tagged_def by force
  then show ?thesis by simp
qed

lemma receive_result:
  assumes "ex_ok e"
  obtains ms where "receive w None e = Inr ms" "set ms = (\<Union>s. set (mail_queue w (inbox_name s) e))"
proof (cases "find_flow w e")
  case None
  then show ?thesis using that[of "[]"] by (simp add: receive_def mail_queue_def)
next
  case (Some p)
  obtain fid f where p: "p = (fid, f)" by fastforce
  have ok: "boxes_ok e" using assms by (simp add: ex_ok_def)
  note F = found[OF ok Some[unfolded p]]
  obtain ms where "box_receive None f = Inr ms" "set ms = (\<Union>s. set (queue (inbox_name s) f))"
    using box_receive_all[OF F(3)] .
  then show ?thesis using that[of ms] Some p F(5) by (simp add: receive_def)
qed


text \<open>The senders whose mail is waiting for \<open>w\<close>, delivered or not.\<close>

definition waiting_from :: "uuid \<Rightarrow> 'c exchange \<Rightarrow> uuid set" where
  "waiting_from w e =
     {s. mail_queue w (inbox_name s) e \<noteq> [] \<or> filter (sent_by s) (pending w e) \<noteq> []}"

lemma drain_result:
  assumes ok: "ex_ok e" and w: "w \<in> set (owner_ids e)" and ids: "new_ids vs 0 e"
    and ord: "\<And>S. finite S \<Longrightarrow> set (ord S) = S \<and> distinct (ord S)"
  shows "\<exists>e1. drain_pending vs ord w e =
      (Inr (concat (map (\<lambda>s. mail_queue w (inbox_name s) e @ filter (sent_by s) (pending w e))
                        (ord (waiting_from w e)))), e1) \<and>
    ex_ok e1 \<and> pending w e1 = [] \<and> (\<forall>s. mail_queue w (inbox_name s) e1 = []) \<and>
    (\<forall>r. r \<noteq> w \<longrightarrow> pending r e1 = pending r e) \<and>
    (\<forall>r. mail_queue r OUTBOX e1 = mail_queue r OUTBOX e) \<and>
    (\<forall>r s. r \<noteq> w \<longrightarrow> mail_queue r (inbox_name s) e1 = mail_queue r (inbox_name s) e)"
proof -
  obtain e1 where e1: "deliver_pending vs 0 w (pending w e) e = (Inr (), e1)" "ex_ok e1"
    "owner_ids e1 = owner_ids e" "\<forall>r. pending r e1 = (if r = w then [] else pending r e)"
    "\<forall>r. mail_queue r OUTBOX e1 = mail_queue r OUTBOX e"
    "\<forall>r s. mail_queue r (inbox_name s) e1 = mail_queue r (inbox_name s) e @
       (if r = w \<and> w \<in> set (owner_ids e) then filter (sent_by s) (pending w e) else [])"
    using deliver_pending_result[OF ok ids refl, of w] by (elim exE conjE) (rule that, assumption+)
  obtain ms where ms: "receive w None e1 = Inr ms" "set ms = (\<Union>s. set (mail_queue w (inbox_name s) e1))"
    using receive_result[OF e1(2)] .
  let ?S = "(\<lambda>m. m_sender (ebody m)) ` set ms"
  have S: "?S = waiting_from w e"
  proof (intro set_eqI iffI)
    fix s assume "s \<in> ?S"
    then obtain m t where m: "s = m_sender (ebody m)" "m \<in> set (mail_queue w (inbox_name t) e1)"
      using ms(2) by auto
    then have "s = t" using inbox_sender[OF e1(2) m(2)] by simp
    then have "mail_queue w (inbox_name s) e1 \<noteq> []" using m(2) by auto
    then show "s \<in> waiting_from w e" using e1(6) w by (simp add: waiting_from_def)
  next
    fix s assume "s \<in> waiting_from w e"
    then have "mail_queue w (inbox_name s) e1 \<noteq> []" using e1(6) w by (simp add: waiting_from_def)
    then obtain m where "m \<in> set (mail_queue w (inbox_name s) e1)" by (cases "mail_queue w (inbox_name s) e1") auto
    then show "s \<in> ?S" using ms(2) inbox_sender[OF e1(2)] by force
  qed
  have fin: "finite (waiting_from w e)" unfolding S[symmetric] by simp
  note O = ord[OF fin]
  obtain e2 where e2: "pop_senders w (ord (waiting_from w e)) e1 =
      (Inr (concat (map (\<lambda>s. mail_queue w (inbox_name s) e1) (ord (waiting_from w e)))), e2)"
    "ex_ok e2" "\<forall>r. pending r e2 = pending r e1" "\<forall>r. mail_queue r OUTBOX e2 = mail_queue r OUTBOX e1"
    "\<forall>r s. mail_queue r (inbox_name s) e2 =
       (if r = w \<and> s \<in> set (ord (waiting_from w e)) then [] else mail_queue r (inbox_name s) e1)"
    using pop_senders_result[OF e1(2) conjunct2[OF O], of w] by (elim exE conjE) (rule that, assumption+)
  have "drain_pending vs ord w e =
      (Inr (concat (map (\<lambda>s. mail_queue w (inbox_name s) e @ filter (sent_by s) (pending w e))
                        (ord (waiting_from w e)))), e2)"
    using e1(1,6) ms(1) S e2(1) w by (simp add: drain_pending_def)
  moreover have "mail_queue w (inbox_name s) e2 = []" for s
    using e2(5) O e1(6) w by (auto simp: waiting_from_def)
  moreover have "mail_queue r (inbox_name s) e2 = mail_queue r (inbox_name s) e" if "r \<noteq> w" for r s
    using that e2(5) e1(6) by simp
  ultimately show ?thesis using e2(2,3,4) e1(4,5) by auto
qed

lemma exchange_state_ok: "all_fresh (new_exchange u) xs \<Longrightarrow> ex_ok (foldl ex_step (new_exchange u) xs)"
  using office_sim.run_sim[OF new_exchange_ok] by blast

section \<open>An example\<close>

lemma prog_ids_bound:
  "prog_ids e \<subseteq> (\<Union>x \<in> set (collections (ex_flows e)). fst ` set (collections (progs (ebody (snd x)))))"
proof
  fix k assume "k \<in> prog_ids e"
  then obtain w fid f where f: "find_flow w e = Some (fid, f)" "k \<in> fst ` set (collections (progs f))"
    by (auto simp: prog_ids_def)
  then obtain x where "dget (collections (ex_flows e)) fid = Some x" "f = ebody x"
    using iffD1[OF find_flow_iff f(1)] by blast
  then have "(fid, x) \<in> set (collections (ex_flows e))" "f = ebody x" by (auto dest: map_of_SomeD)
  then show "k \<in> (\<Union>x \<in> set (collections (ex_flows e)). fst ` set (collections (progs (ebody (snd x)))))"
    using f(2) by (intro UN_I[of "(fid, x)"]) simp_all
qed

text \<open>Three owners; the first sends one message to the second and one to everyone.\<close>

definition demo :: "nat ex_op list" where
  "demo =
     [XRegister 10 11 12 13 1, XRegister 20 21 22 23 2, XRegister 30 31 32 33 3,
      XSend 100 1 (Some 2) 7 None, XSend 101 1 None 8 None]"

definition demo_tail :: "nat ex_op list" where
  "demo_tail =
     [XCollectBegin 1, XSend 102 1 (Some 2) 9 None,
      XDeliver 40 2 (Elem 100 [''Message''] \<lparr>m_sender = 1, m_recipient = Some 2, m_content = 7, m_channel = None\<rparr>),
      XPop 2 1,
      XDeliver 41 2 (Elem 101 [''Message''] \<lparr>m_sender = 1, m_recipient = None, m_content = 8, m_channel = None\<rparr>),
      XPop 2 1]"

lemma demo_fresh: "all_fresh (new_exchange 0) demo" "all_fresh (foldl ex_step (new_exchange 0) demo) demo_tail"
  by code_simp+

abbreviation demo_state :: "nat exchange" where
  "demo_state \<equiv> foldl ex_step (new_exchange 0) demo"

lemma demo_owners: "1 \<in> set (owner_ids demo_state)" "2 \<in> set (owner_ids demo_state)" "in_flight demo_state = []"
  by code_simp+

lemma demo_new_ids: "new_ids (\<lambda>i. 1000 + i) 0 demo_state"
proof -
  have "\<forall>x \<in> set (collections (ex_flows demo_state)). \<forall>k \<in> fst ` set (collections (progs (ebody (snd x)))). k < 1000"
    by code_simp
  then have "k < 1000" if "k \<in> prog_ids demo_state" for k using prog_ids_bound[of demo_state] that by blast
  then show ?thesis by (fastforce simp: new_ids_def inj_def)
qed

section \<open>Properties\<close>

text \<open>
  C26. The exchange implements the post office.  Whatever operations are called, in whatever order and
  with deliveries of several collections interleaved at will (as long as the ids that are drawn are new),
  the mailboxes stay well formed, no id is in two places of a mailbox, and the queues and the
  mail in flight are what the abstract steps make of them: \<open>send\<close> appends to the outbox,
  \<open>collect\<close> empties it into the flight lists of the registered recipients, a delivery appends to the
  inbox of the sender, \<open>pop_message\<close> takes the first message out.
\<close>

theorem exchange_refines:
  fixes xs :: "'c ex_op list"
  assumes "all_fresh (new_exchange u) xs"
  shows "ex_ok (foldl ex_step (new_exchange u) xs) \<and>
    office_of (foldl ex_step (new_exchange u) xs) =
      foldl office_step \<lparr>o_owners = [], o_q = \<lambda>_ _. [], o_fly = \<lambda>_. []\<rparr> xs"
proof -
  have "office_of (new_exchange u :: 'c exchange) = \<lparr>o_owners = [], o_q = \<lambda>_ _. [], o_fly = \<lambda>_. []\<rparr>"
    by (simp add: office_of_def new_exchange_def owner_ids_def mail_queue_def find_flow_def pending_def)
  then show ?thesis using office_sim.run_sim[OF new_exchange_ok assms] by simp
qed

theorem exchange_refines_witness:
  "ex_ok demo_state \<and> length (mail_queue 1 OUTBOX demo_state) = 2"
proof -
  have "length (mail_queue 1 OUTBOX demo_state) = 2" by code_simp
  then show ?thesis using exchange_refines[OF demo_fresh(1)] by blast
qed

text \<open>
  C27. Mail is conserved.  From any state the exchange can reach, as long as sender and recipient stay
  registered, under any interleaving of operations and any order of the deliveries: the
  messages read from \<open>s\<close> at \<open>r\<close> together with those still underway are exactly those that were
  underway before together with those sent.  Nothing is lost and nothing is delivered twice.
\<close>

theorem mail_conserved:
  defines "e \<equiv> \<lambda>u xs. foldl ex_step (new_exchange u) xs"
  assumes "all_fresh (new_exchange u) xs" "s \<in> set (owner_ids (e u xs))" "r \<in> set (owner_ids (e u xs))"
    "all_fresh (e u xs) ys" "XUnregister r \<notin> set ys" "XUnregister s \<notin> set ys"
  shows "mset (over_run (read_out s r) (e u xs) ys) + mset (underway s r (office_of (e u (xs @ ys)))) =
    mset (underway s r (office_of (e u xs))) + mset (over_run (posted s r) (e u xs) ys)"
  using run_underway_mset[of "foldl ex_step (new_exchange u) xs" ys s r] assms
    office_sim.run_sim[OF new_exchange_ok assms(2)] by (simp add: e_def)

theorem mail_conserved_witness:
  "length (over_run (read_out 1 2) demo_state demo_tail) + length (underway 1 2 (office_of (foldl ex_step (new_exchange 0) (demo @ demo_tail)))) = 3"
proof -
  have stay: "XUnregister 2 \<notin> set demo_tail" "XUnregister 1 \<notin> set demo_tail" by (simp_all add: demo_tail_def)
  have n: "length (underway 1 2 (office_of demo_state)) = 2" "length (over_run (posted 1 2) demo_state demo_tail) = 1"
    by code_simp+
  from mail_conserved[OF demo_fresh(1) demo_owners(1,2) demo_fresh(2) stay]
  have "size (mset (over_run (read_out 1 2) demo_state demo_tail) +
        mset (underway 1 2 (office_of (foldl ex_step (new_exchange 0) (demo @ demo_tail))))) =
      size (mset (underway 1 2 (office_of demo_state)) + mset (over_run (posted 1 2) demo_state demo_tail))"
    by (rule arg_cong)
  then show ?thesis using n by simp
qed

text \<open>
  C28. Mail keeps its order.  If moreover every delivery takes the oldest message of its sender, the
  messages read from \<open>s\<close> at \<open>r\<close>, followed by those still underway, are those underway before followed by
  those sent, as sequences: first sent, first read, for each pair of sender and recipient.
\<close>

theorem mail_in_order:
  defines "e \<equiv> \<lambda>u xs. foldl ex_step (new_exchange u) xs"
  assumes "all_fresh (new_exchange u) xs" "s \<in> set (owner_ids (e u xs))" "r \<in> set (owner_ids (e u xs))"
    "all_fresh (e u xs) ys" "XUnregister r \<notin> set ys" "XUnregister s \<notin> set ys"
    "enabled_run ex_step in_order (e u xs) ys"
  shows "over_run (read_out s r) (e u xs) ys @ underway s r (office_of (e u (xs @ ys))) =
    underway s r (office_of (e u xs)) @ over_run (posted s r) (e u xs) ys"
  using run_underway[of "foldl ex_step (new_exchange u) xs" ys s r] assms
    office_sim.run_sim[OF new_exchange_ok assms(2)] by (simp add: e_def)

theorem mail_in_order_witness:
  "map (m_content \<circ> ebody) (over_run (read_out 1 2) demo_state demo_tail @
     underway 1 2 (office_of (foldl ex_step (new_exchange 0) (demo @ demo_tail)))) = [7, 8, 9]"
proof -
  have stay: "XUnregister 2 \<notin> set demo_tail" "XUnregister 1 \<notin> set demo_tail" by (simp_all add: demo_tail_def)
  have ord: "enabled_run ex_step in_order demo_state demo_tail" by code_simp
  have "map (m_content \<circ> ebody) (underway 1 2 (office_of demo_state) @ over_run (posted 1 2) demo_state demo_tail) = [7, 8, 9]"
    by code_simp
  then show ?thesis using mail_in_order[OF demo_fresh(1) demo_owners(1,2) demo_fresh(2) stay ord] by simp
qed

text \<open>
  C29. A collection that runs alone empties the outbox into the inboxes.  \<open>collect\<close> and \<open>collect_sync\<close> give the
  same result and the same state: the outbox of \<open>w\<close> is empty, nothing is left in flight, and each
  registered recipient finds the messages addressed to it (a broadcast is addressed to everyone
  but its sender) at the end of its inbox for \<open>w\<close>, in the order of the outbox; no other queue changes.
\<close>

theorem collect_delivers:
  defines "e \<equiv> \<lambda>u xs. foldl ex_step (new_exchange u) xs"
  assumes "all_fresh (new_exchange u) xs" "w \<in> set (owner_ids (e u xs))" "\<forall>r. pending r (e u xs) = []"
    "new_ids vs 0 (e u xs)"
  shows "\<exists>e1 n. collect_sync vs w (e u xs) = (Inr n, e1) \<and> collect vs w (e u xs) = (Inr n, e1) \<and>
    (\<forall>r. pending r e1 = []) \<and>
    (\<forall>r. mail_queue r OUTBOX e1 = (if r = w then [] else mail_queue r OUTBOX (e u xs))) \<and>
    (\<forall>r s. mail_queue r (inbox_name s) e1 = mail_queue r (inbox_name s) (e u xs) @
       (if s = w \<and> r \<in> set (owner_ids (e u xs))
        then filter (addressed w r) (mail_queue w OUTBOX (e u xs)) else []))"
proof -
  have "ex_ok (e u xs)" using office_sim.run_sim[OF new_exchange_ok assms(2)] by (simp add: e_def)
  from collect_result[OF this assms(3) _ assms(5)] assms(4) show ?thesis by auto
qed

theorem collect_delivers_witness:
  "\<exists>e1 n. collect_sync (\<lambda>i. 1000 + i) 1 demo_state = (Inr n, e1) \<and>
     map (m_content \<circ> ebody) (mail_queue 2 (inbox_name 1) e1) = [7, 8]"
proof -
  have idle: "\<forall>r. pending r demo_state = []" by (simp add: pending_def demo_owners(3))
  have q: "map (m_content \<circ> ebody) (mail_queue 2 (inbox_name 1) demo_state @
      filter (addressed 1 2) (mail_queue 1 OUTBOX demo_state)) = [7, 8]" by code_simp
  from collect_delivers[OF demo_fresh(1) demo_owners(1) idle demo_new_ids] obtain e1 n where
    e1: "collect_sync (\<lambda>i. 1000 + i) 1 demo_state = (Inr n, e1)"
    "\<forall>r s. mail_queue r (inbox_name s) e1 = mail_queue r (inbox_name s) demo_state @
       (if s = 1 \<and> r \<in> set (owner_ids demo_state)
        then filter (addressed 1 r) (mail_queue 1 OUTBOX demo_state) else [])"
    by (elim exE conjE) (rule that, assumption+)
  have "mail_queue 2 (inbox_name 1) e1 = mail_queue 2 (inbox_name 1) demo_state @
      filter (addressed 1 2) (mail_queue 1 OUTBOX demo_state)"
    using e1(2)[rule_format, of 2 1] demo_owners(2) by (simp only: if_True simp_thms)
  then show ?thesis using e1(1) q by metis
qed

text \<open>
  C30. \<open>drain_pending\<close> recovers everything and leaves nothing.  It returns, for each sender in the order of
  the set iteration, the messages of its inbox followed by those still in flight; afterwards the inboxes
  of \<open>w\<close> and its flight list are empty, so a delivery task that runs later for one of those messages
  does nothing.  The mail of the other owners is untouched.
\<close>

theorem drain_takes_all:
  defines "e \<equiv> \<lambda>u xs. foldl ex_step (new_exchange u) xs"
  assumes "all_fresh (new_exchange u) xs" "w \<in> set (owner_ids (e u xs))" "new_ids vs 0 (e u xs)"
    "\<And>S. finite S \<Longrightarrow> set (ord S) = S \<and> distinct (ord S)"
  shows "\<exists>e1. drain_pending vs ord w (e u xs) =
      (Inr (concat (map (\<lambda>s. mail_queue w (inbox_name s) (e u xs) @ filter (sent_by s) (pending w (e u xs)))
                        (ord (waiting_from w (e u xs))))), e1) \<and>
    pending w e1 = [] \<and> (\<forall>s. mail_queue w (inbox_name s) e1 = []) \<and>
    (\<forall>v m. deliver_to v w m e1 = (Inr (), e1)) \<and>
    (\<forall>r. r \<noteq> w \<longrightarrow> pending r e1 = pending r (e u xs)) \<and>
    (\<forall>r s. r \<noteq> w \<longrightarrow> mail_queue r (inbox_name s) e1 = mail_queue r (inbox_name s) (e u xs))"
proof -
  have "ex_ok (e u xs)" using office_sim.run_sim[OF new_exchange_ok assms(2)] by (simp add: e_def)
  from drain_result[OF this assms(3,4), of ord] assms(5) obtain e1 where
    "drain_pending vs ord w (e u xs) =
      (Inr (concat (map (\<lambda>s. mail_queue w (inbox_name s) (e u xs) @ filter (sent_by s) (pending w (e u xs)))
                        (ord (waiting_from w (e u xs))))), e1)"
    "pending w e1 = []" "\<forall>s. mail_queue w (inbox_name s) e1 = []"
    "\<forall>r. r \<noteq> w \<longrightarrow> pending r e1 = pending r (e u xs)"
    "\<forall>r s. r \<noteq> w \<longrightarrow> mail_queue r (inbox_name s) e1 = mail_queue r (inbox_name s) (e u xs)"
    by blast
  then show ?thesis by (auto simp: deliver_to_def)
qed

theorem drain_takes_all_witness:
  "\<exists>ms e1. drain_pending (\<lambda>i. 1000 + i) sorted_list_of_set 2 (ex_step demo_state (XCollectBegin 1)) = (Inr ms, e1) \<and>
     pending 2 (ex_step demo_state (XCollectBegin 1)) \<noteq> [] \<and> pending 2 e1 = []"
proof -
  let ?xs = "demo @ [XCollectBegin 1]"
  have fr: "all_fresh (new_exchange 0) ?xs" and w: "2 \<in> set (owner_ids (foldl ex_step (new_exchange 0) ?xs))"
    and fly: "pending 2 (foldl ex_step (new_exchange 0) ?xs) \<noteq> []"
    by code_simp+
  have "boxes_ok demo_state" using exchange_state_ok[OF demo_fresh(1)] by (simp add: ex_ok_def)
  then have "new_ids (\<lambda>i. 1000 + i) 0 (foldl ex_step (new_exchange 0) ?xs)"
    using demo_new_ids prog_ids_collect[of demo_state 1] by (auto simp: new_ids_def)
  from drain_takes_all[OF fr w this, of sorted_list_of_set] fly show ?thesis by auto
qed

end
