(* ===== verification/Nested.thy ===== *)
theory Nested
  imports Prelude Complex_Main
begin

text \<open>
  Nested values and paths into them: \<open>lionagi/libs/nested.py\<close>.

  A value (\<open>val\<close>) is what operations exchange: the scalars, lists, dicts with string keys, and
  instances of pydantic models with their identity, their class names (own class first) and their
  fields.  A path is a list of integers and strings.  Values are trees: no two parts of a value are
  the same object.  A function that changes its argument returns the changed value with its result.
  The lemmas show that what \<open>nset\<close> writes is what \<open>nget\<close> reads and \<open>npop\<close> takes out, that other
  entries are left alone, and what the two dict merges do key by key.
\<close>

section \<open>Values\<close>

datatype val =
    VNone | VBool bool | VInt int | VFloat rat | VStr string
  | VList "val list"
  | VDict "(string \<times> val) list"
  | VModel (oid: nat) (mro: "string list") (vfields: "(string \<times> val) list")

text \<open>The truth value Python gives a value; an instance of a model is true.\<close>

fun truthy :: "val \<Rightarrow> bool" where
  "truthy VNone = False"
| "truthy (VBool b) = b"
| "truthy (VInt i) = (i \<noteq> 0)"
| "truthy (VFloat x) = (x \<noteq> 0)"
| "truthy (VStr s) = (s \<noteq> [])"
| "truthy (VList xs) = (xs \<noteq> [])"
| "truthy (VDict d) = (d \<noteq> [])"
| "truthy (VModel _ _ _) = True"

datatype index = Ix int | Key string

text \<open>
  \<open>str.isdigit\<close> and \<open>int\<close> on byte characters: the superscripts 1, 2 and 3 are digits to
  \<open>isdigit\<close> but not to \<open>int\<close>, which raises a ValueError.
\<close>

definition isdigit :: "string \<Rightarrow> bool" where
  "isdigit s \<longleftrightarrow> s \<noteq> [] \<and> list_all (\<lambda>c. dec_digit c \<or> code c \<in> {178, 179, 185}) s"

definition int_of_digits :: "string \<Rightarrow> pyerr + int" where
  "int_of_digits s = (if list_all dec_digit s then Inr (dec_value s) else Inl ValueError)"

text \<open>An index as the readers take it on a list: the text of digits counts as its number.\<close>

definition on_list :: "index \<Rightarrow> pyerr + index" where
  "on_list i =
     (case i of
        Key s \<Rightarrow> if isdigit s then (case int_of_digits s of Inl e \<Rightarrow> Inl e | Inr n \<Rightarrow> Inr (Ix n)) else Inr i
      | Ix n \<Rightarrow> Inr i)"

text \<open>The element of a list at an index the readers accept: no negative positions.\<close>

definition list_at :: "val list \<Rightarrow> index \<Rightarrow> val option" where
  "list_at xs i =
     (case i of
        Ix n \<Rightarrow> if 0 \<le> n \<and> n < int (length xs) then Some (xs ! nat n) else None
      | Key _ \<Rightarrow> None)"

definition dict_at :: "(string \<times> val) list \<Rightarrow> index \<Rightarrow> val option" where
  "dict_at d i = (case i of Key k \<Rightarrow> dget d k | Ix _ \<Rightarrow> None)"

section \<open>Reading\<close>

fun get_target_container :: "val \<Rightarrow> index list \<Rightarrow> pyerr + val" where
  "get_target_container cur [] = Inr cur"
| "get_target_container cur (i # is) =
     (case cur of
        VList xs \<Rightarrow>
          (case on_list i of
             Inl e \<Rightarrow> Inl e
           | Inr j \<Rightarrow>
               (case list_at xs j of
                  None \<Rightarrow> Inl IndexError
                | Some x \<Rightarrow> get_target_container x is))
      | VDict d \<Rightarrow>
          (case dict_at d i of
             None \<Rightarrow> Inl KeyError
           | Some x \<Rightarrow> get_target_container x is)
      | _ \<Rightarrow> Inl TypeError)"

definition or_default :: "val option \<Rightarrow> pyerr + val" where
  "or_default dflt = (case dflt of Some x \<Rightarrow> Inr x | None \<Rightarrow> Inl KeyError)"

definition read_last :: "val \<Rightarrow> index \<Rightarrow> val option \<Rightarrow> pyerr + val" where
  "read_last container i dflt =
     (case container of
        VList xs \<Rightarrow>
          (case on_list i of
             Inl e \<Rightarrow> Inl e
           | Inr j \<Rightarrow> (case list_at xs j of Some x \<Rightarrow> Inr x | None \<Rightarrow> or_default dflt))
      | VDict d \<Rightarrow> (case dict_at d i of Some x \<Rightarrow> Inr x | None \<Rightarrow> or_default dflt)
      | _ \<Rightarrow> or_default dflt)"

definition nget :: "val \<Rightarrow> index list \<Rightarrow> val option \<Rightarrow> pyerr + val" where
  "nget data is dflt =
     (if is = [] then Inl ValueError
      else
        (case get_target_container data (butlast is) of
           Inl e \<Rightarrow> if e \<in> {IndexError, KeyError, TypeError} then or_default dflt else Inl e
         | Inr container \<Rightarrow> read_last container (last is) dflt))"

section \<open>Writing\<close>

definition ensure_list_index :: "val list \<Rightarrow> int \<Rightarrow> val list" where
  "ensure_list_index xs i = xs @ replicate (nat (i + 1) - length xs) VNone"

definition new_container :: "index \<Rightarrow> val" where
  "new_container i = (case i of Ix _ \<Rightarrow> VList [] | Key _ \<Rightarrow> VDict [])"

text \<open>
  The value after the write, or the exception with the value as far as it was changed: containers
  made on the way stay.
\<close>

fun nset :: "val \<Rightarrow> index list \<Rightarrow> val \<Rightarrow> (unit, val) eff" where
  "nset cur [] v = (Inl ValueError, cur)"
| "nset cur [i] v =
     (case cur of
        VList xs \<Rightarrow>
          (case i of
             Key _ \<Rightarrow> (Inl TypeError, cur)
           | Ix n \<Rightarrow>
               let ys = ensure_list_index xs n
               in (case py_idx (length ys) n of
                     None \<Rightarrow> (Inl IndexError, VList ys)
                   | Some j \<Rightarrow> (Inr (), VList (ys[j := v]))))
      | VDict d \<Rightarrow>
          (case i of Ix _ \<Rightarrow> (Inl TypeError, cur) | Key k \<Rightarrow> (Inr (), VDict (dset k v d)))
      | _ \<Rightarrow> (Inl TypeError, cur))"
| "nset cur (i # next # is) v =
     (case cur of
        VList xs \<Rightarrow>
          (case i of
             Key _ \<Rightarrow> (Inl TypeError, cur)
           | Ix n \<Rightarrow>
               let ys = ensure_list_index xs n
               in (case py_idx (length ys) n of
                     None \<Rightarrow> (Inl IndexError, VList ys)
                   | Some j \<Rightarrow>
                       let child = (if ys ! j = VNone then new_container next else ys ! j);
                           (r, child') = nset child (next # is) v
                       in (r, VList (ys[j := child']))))
      | VDict d \<Rightarrow>
          (case i of
             Ix _ \<Rightarrow> (Inl TypeError, cur)
           | Key k \<Rightarrow>
               let child = (case dget d k of None \<Rightarrow> new_container next | Some x \<Rightarrow> x);
                   (r, child') = nset child (next # is) v
               in (r, VDict (dset k child' d)))
      | _ \<Rightarrow> (Inl TypeError, cur))"

text \<open>\<open>npop\<close>: the value taken out and what is left; the errors of the last step fall back to the default.\<close>

definition pop_or_default :: "pyerr \<Rightarrow> val option \<Rightarrow> pyerr + val" where
  "pop_or_default e dflt = (case dflt of Some x \<Rightarrow> Inr x | None \<Rightarrow> Inl e)"

fun npop :: "val \<Rightarrow> index list \<Rightarrow> val option \<Rightarrow> (val, val) eff" where
  "npop cur [] dflt = (Inl ValueError, cur)"
| "npop cur [i] dflt =
     (case cur of
        VDict d \<Rightarrow>
          (case dict_at d i of
             None \<Rightarrow> (pop_or_default KeyError dflt, cur)
           | Some x \<Rightarrow> (Inr x, VDict (case i of Key k \<Rightarrow> ddel k d | Ix _ \<Rightarrow> d)))
      | VList xs \<Rightarrow>
          (case on_list i of
             Inl e \<Rightarrow> (Inl e, cur)
           | Inr (Key _) \<Rightarrow> (Inl TypeError, cur)
           | Inr (Ix n) \<Rightarrow>
               if n < 0 \<or> int (length xs) \<le> n then (pop_or_default IndexError dflt, cur)
               else (Inr (xs ! nat n), VList (del_nth (nat n) xs)))
      | _ \<Rightarrow> (Inl TypeError, cur))"
| "npop cur (i # next # is) dflt =
     (case cur of
        VDict d \<Rightarrow>
          (case i of
             Ix _ \<Rightarrow> (pop_or_default KeyError dflt, cur)
           | Key k \<Rightarrow>
               (case dget d k of
                  None \<Rightarrow> (pop_or_default KeyError dflt, cur)
                | Some x \<Rightarrow>
                    let (r, x') = npop x (next # is) dflt in (r, VDict (dset k x' d))))
      | VList xs \<Rightarrow>
          (case on_list i of
             Inl e \<Rightarrow> (Inl e, cur)
           | Inr j \<Rightarrow>
               (case j of
                  Key _ \<Rightarrow> (pop_or_default IndexError dflt, cur)
                | Ix n \<Rightarrow>
                    if 0 \<le> n \<and> n < int (length xs)
                    then let (r, x') = npop (xs ! nat n) (next # is) dflt
                         in (r, VList (xs[nat n := x']))
                    else (pop_or_default IndexError dflt, cur)))
      | _ \<Rightarrow> (pop_or_default TypeError dflt, cur))"

section \<open>Merging\<close>

fun deep_update :: "(string \<times> val) list \<Rightarrow> (string \<times> val) list \<Rightarrow> (string \<times> val) list" where
  "deep_update old [] = old"
| "deep_update old ((k, v) # new) =
     deep_update
       (dset k (case (v, dget old k) of
                  (VDict w, Some (VDict x)) \<Rightarrow> VDict (deep_update x w)
                | _ \<Rightarrow> v) old) new"

text \<open>\<open>deep_merge\<close> in its two modes; only the mutating one joins lists.\<close>

fun deep_merge :: "bool \<Rightarrow> (string \<times> val) list \<Rightarrow> (string \<times> val) list \<Rightarrow> (string \<times> val) list" where
  "deep_merge mutate base [] = base"
| "deep_merge mutate base ((k, v) # over) =
     deep_merge mutate
       (dset k (case (dget base k, v) of
                  (Some (VDict x), VDict w) \<Rightarrow> VDict (deep_merge mutate x w)
                | (Some (VList xs), VList ys) \<Rightarrow> if mutate then VList (xs @ ys) else v
                | _ \<Rightarrow> v) base) over"

section \<open>Paths step by step\<close>

lemma nget_step:
  "nget (VList xs) (Ix n # j # is) dflt =
     (if 0 \<le> n \<and> n < int (length xs) then nget (xs ! nat n) (j # is) dflt else or_default dflt)"
  "nget (VDict d) (Key k # j # is) dflt =
     (case dget d k of None \<Rightarrow> or_default dflt | Some x \<Rightarrow> nget x (j # is) dflt)"
  by (simp_all add: nget_def on_list_def list_at_def dict_at_def split: option.split sum.split)

lemma nget_last:
  "nget (VList xs) [Ix n] dflt =
     (if 0 \<le> n \<and> n < int (length xs) then Inr (xs ! nat n) else or_default dflt)"
  "nget (VDict d) [Key k] dflt = (case dget d k of None \<Rightarrow> or_default dflt | Some x \<Rightarrow> Inr x)"
  by (auto simp: nget_def read_last_def on_list_def list_at_def dict_at_def split: option.splits)

lemmas nget_simps = nget_step nget_last

text \<open>Positions are not negative.\<close>

definition forward :: "index list \<Rightarrow> bool" where
  "forward is \<longleftrightarrow> (\<forall>n. Ix n \<in> set is \<longrightarrow> 0 \<le> n)"

lemma forward_Cons [simp]:
  "forward (Ix n # is) \<longleftrightarrow> 0 \<le> n \<and> forward is" "forward (Key k # is) \<longleftrightarrow> forward is" "forward []"
  by (auto simp: forward_def)

lemma ensure_list_index:
  assumes "0 \<le> n"
  shows "n < int (length (ensure_list_index xs n))" "py_idx (length (ensure_list_index xs n)) n = Some (nat n)"
    "\<And>m. m < length xs \<Longrightarrow> ensure_list_index xs n ! m = xs ! m"
    "length xs \<le> length (ensure_list_index xs n)"
  using assms by (auto simp: ensure_list_index_def py_idx_def nth_append)

text \<open>The two shapes of a successful write.\<close>

lemma nset_last:
  assumes "nset cur [i] v = (Inr (), cur')" "forward [i]"
  obtains xs n where "cur = VList xs" "i = Ix n" "0 \<le> n"
      "cur' = VList ((ensure_list_index xs n)[nat n := v])"
  | d k where "cur = VDict d" "i = Key k" "cur' = VDict (dset k v d)"
  using assms ensure_list_index(2)
  by (cases cur; cases i) (auto simp: Let_def split: option.splits)

lemma nset_step:
  assumes "nset cur (i # j # is) v = (Inr (), cur')" "forward (i # j # is)"
  obtains xs n ys child child' where "cur = VList xs" "i = Ix n" "0 \<le> n" "ys = ensure_list_index xs n"
      "child = (if ys ! nat n = VNone then new_container j else ys ! nat n)"
      "nset child (j # is) v = (Inr (), child')" "cur' = VList (ys[nat n := child'])"
  | d k child child' where "cur = VDict d" "i = Key k"
      "child = (case dget d k of None \<Rightarrow> new_container j | Some x \<Rightarrow> x)"
      "nset child (j # is) v = (Inr (), child')" "cur' = VDict (dset k child' d)"
proof (cases cur)
  case (VList xs)
  with assms obtain n where i: "i = Ix n" "0 \<le> n" by (cases i) auto
  let ?ys = "ensure_list_index xs n"
  let ?c = "if ?ys ! nat n = VNone then new_container j else ?ys ! nat n"
  obtain r c' where rc: "nset ?c (j # is) v = (r, c')" by fastforce
  with assms(1) VList i ensure_list_index(2)[OF i(2), of xs]
  have "r = Inr ()" "cur' = VList (?ys[nat n := c'])" by (auto simp: Let_def)
  with VList i rc show thesis by (intro that(1)[OF _ _ _ refl refl]) auto
next
  case (VDict d)
  with assms obtain k where i: "i = Key k" by (cases i) auto
  let ?c = "case dget d k of None \<Rightarrow> new_container j | Some x \<Rightarrow> x"
  obtain r c' where rc: "nset ?c (j # is) v = (r, c')" by fastforce
  with assms(1) VDict i have "r = Inr ()" "cur' = VDict (dset k c' d)" by (auto simp: Let_def)
  with VDict i rc show thesis by (intro that(2)[OF _ _ refl]) auto
qed (use assms(1) in simp_all)

lemma nset_nget:
  "nset cur is v = (Inr (), cur') \<Longrightarrow> forward is \<Longrightarrow> nget cur' is dflt = Inr v"
proof (induction cur "is" v arbitrary: cur' rule: nset.induct)
  case (2 cur i v)
  from 2(1,2) show ?case
  proof (cases rule: nset_last)
    case (1 xs n)
    then show ?thesis using ensure_list_index(1)[of n xs] by (simp add: nget_simps)
  next
    case (2 d k)
    then show ?thesis by (simp add: nget_simps)
  qed
next
  case (3 cur i j "is" v)
  from 3(3,4) show ?case
  proof (cases rule: nset_step)
    case (1 xs n ys child child')
    then have "nget child' (j # is) dflt = Inr v"
      using 3(1)[of xs n ys "nat n" child] 3(4) ensure_list_index(2)[of n xs] by auto
    then show ?thesis using 1 ensure_list_index(1)[of n xs] by (simp add: nget_simps)
  next
    case (2 d k child child')
    then have "nget child' (j # is) dflt = Inr v" using 3(2)[of d k child] 3(4) by auto
    then show ?thesis using 2 by (simp add: nget_simps)
  qed
qed simp

text \<open>Reading without a default is walking the whole path.\<close>

abbreviation gtc :: "val \<Rightarrow> index list \<Rightarrow> pyerr + val" where
  "gtc \<equiv> get_target_container"

lemma gtc_list:
  "gtc (VList xs) (j # js) = Inr w \<longleftrightarrow>
     (\<exists>m. on_list j = Inr (Ix m) \<and> 0 \<le> m \<and> m < int (length xs) \<and> gtc (xs ! nat m) js = Inr w)"
  by (auto simp: list_at_def split: sum.splits option.splits index.splits if_splits)

lemma gtc_dict:
  "gtc (VDict d) (j # js) = Inr w \<longleftrightarrow> (\<exists>k x. j = Key k \<and> dget d k = Some x \<and> gtc x js = Inr w)"
  by (cases j) (auto simp: dict_at_def split: option.splits)

lemma on_list_Ix [simp]: "on_list (Ix n) = Inr (Ix n)"
  by (simp add: on_list_def)

lemma gtc_append: "gtc x (is @ js) = (case gtc x is of Inl e \<Rightarrow> Inl e | Inr y \<Rightarrow> gtc y js)"
  by (induction x "is" rule: get_target_container.induct) (auto split: val.split sum.split option.split)

lemma read_last_gtc: "read_last c i None = Inr w \<longleftrightarrow> gtc c [i] = Inr w"
  by (auto simp: read_last_def or_default_def split: val.split sum.split option.split)

lemma nget_gtc: "nget x js None = Inr w \<longleftrightarrow> js \<noteq> [] \<and> gtc x js = Inr w"
proof (cases js rule: rev_cases)
  case (snoc ks i)
  then show ?thesis using read_last_gtc[of _ i w]
    by (auto simp: nget_def gtc_append or_default_def split: sum.split if_splits)
qed (simp add: nget_def)

text \<open>
  Two steps lead to the same entry of a container that the first one fits; the text of digits is a
  position of a list for the readers.  Two paths part when at some point their steps do not meet.
\<close>

fun meets :: "index \<Rightarrow> index \<Rightarrow> bool" where
  "meets (Ix n) j \<longleftrightarrow> on_list j = Inr (Ix n)"
| "meets (Key k) j \<longleftrightarrow> j = Key k"

fun parts :: "index list \<Rightarrow> index list \<Rightarrow> bool" where
  "parts (i # is) (j # js) \<longleftrightarrow> \<not> meets i j \<or> parts is js"
| "parts _ _ \<longleftrightarrow> False"

lemma nset_frame:
  "nset cur is v = (Inr (), cur') \<Longrightarrow> forward is \<Longrightarrow> parts is js \<Longrightarrow> gtc cur js = Inr w \<Longrightarrow> gtc cur' js = Inr w"
proof (induction cur "is" v arbitrary: cur' js rule: nset.induct)
  case (2 cur i v)
  then obtain j js' where js: "js = j # js'" "\<not> meets i j" by (cases js) auto
  from 2(1,2) show ?case
  proof (cases rule: nset_last)
    case (1 xs n)
    then show ?thesis using js 2(4) ensure_list_index(3)[of n _ xs] ensure_list_index(4)[of n xs] unfolding js(1) 1(1,4) gtc_list by fastforce
  next
    case (2 d k)
    then show ?thesis using js \<open>gtc cur js = Inr w\<close> unfolding js(1) 2(1,3) gtc_dict by auto
  qed
next
  case (3 cur i j "is" v)
  then obtain l ls where js: "js = l # ls" "\<not> meets i l \<or> parts (j # is) ls" by (cases js) auto
  from 3(3,4) show ?case
  proof (cases rule: nset_step)
    case (1 xs n ys child child')
    obtain m where m: "on_list l = Inr (Ix m)" "0 \<le> m" "m < int (length xs)" "gtc (xs ! nat m) ls = Inr w"
      using 3(6) unfolding js(1) 1(1) gtc_list by blast
    have ys: "nat m < length ys" "ys ! nat m = xs ! nat m" "m = n \<Longrightarrow> nat n < length ys"
      using ensure_list_index(3)[of n "nat m" xs] ensure_list_index(4)[of n xs] 1(3,4) m by auto
    show ?thesis
    proof (cases "m = n")
      case False
      then have "(ys[nat n := child']) ! nat m = xs ! nat m" using ys m(2) 1(3) by (simp add: nth_list_update)
      then show ?thesis unfolding js(1) 1(7) gtc_list using m ys by auto
    next
      case True
      then have p: "parts (j # is) ls" using js(2) m(1) 1(2) by simp
      then have "ys ! nat n \<noteq> VNone" using m(4) ys(2) True by (cases ls) auto
      then have "gtc child' ls = Inr w"
        using 3(1)[of xs n ys "nat n" child child' ls] 1 3(4) m(4) p ys True ensure_list_index(2)[of n xs] by auto
      then show ?thesis unfolding js(1) 1(7) gtc_list using m ys True by auto
    qed
  next
    case (2 d k child child')
    obtain k' x where x: "l = Key k'" "dget d k' = Some x" "gtc x ls = Inr w"
      using 3(6) unfolding js(1) 2(1) gtc_dict by blast
    show ?thesis
    proof (cases "k' = k")
      case False
      then show ?thesis unfolding js(1) 2(5) gtc_dict using x by simp
    next
      case True
      then have "gtc child' ls = Inr w"
        using 3(2)[of d k child child' ls] 2 3(4) js(2) x by auto
      then show ?thesis unfolding js(1) 2(5) gtc_dict using x True by simp
    qed
  qed
qed simp

text \<open>A container without one entry, and what \<open>npop\<close> leaves along the path just written.\<close>

fun without_entry :: "val \<Rightarrow> index \<Rightarrow> val" where
  "without_entry (VDict d) (Key k) = VDict (ddel k d)"
| "without_entry (VList xs) (Ix n) = VList (del_nth (nat n) xs)"
| "without_entry c _ = c"

definition popped :: "val \<Rightarrow> index list \<Rightarrow> val \<Rightarrow> (val, val) eff \<Rightarrow> bool" where
  "popped cur is v r \<longleftrightarrow> fst r = Inr v \<and>
     (\<exists>c. gtc cur (butlast is) = Inr c \<and> gtc (snd r) (butlast is) = Inr (without_entry c (last is))) \<and>
     (\<forall>js w. parts (butlast is) js \<longrightarrow> gtc (snd r) js = Inr w \<longleftrightarrow> gtc cur js = Inr w)"

lemma nset_npop:
  "nset cur is v = (Inr (), cur') \<Longrightarrow> forward is \<Longrightarrow> popped cur' is v (npop cur' is dflt)"
proof (induction cur "is" v arbitrary: cur' rule: nset.induct)
  case (2 cur i v)
  from 2(1,2) show ?case
  proof (cases rule: nset_last)
    case (1 xs n)
    then show ?thesis using ensure_list_index(1)[of n xs] by (simp add: popped_def)
  next
    case (2 d k)
    then show ?thesis by (simp add: dict_at_def popped_def)
  qed
next
  case (3 cur i j "is" v)
  have bl: "butlast (i # j # is) = i # butlast (j # is)" and ll: "last (i # j # is) = last (j # is)" by simp_all
  from 3(3,4) show ?case
  proof (cases rule: nset_step)
    case (1 xs n ys child child')
    obtain r c where rc: "npop child' (j # is) dflt = (r, c)" by fastforce
    have p: "popped child' (j # is) v (r, c)"
      using 3(1)[of xs n ys "nat n" child child'] 1 3(4) ensure_list_index(2)[of n xs] rc by auto
    have n: "0 \<le> n" "nat n < length ys" "n < int (length ys)" using ensure_list_index(1)[of n xs] 1 by auto
    have e: "npop cur' (i # j # is) dflt = (r, VList (ys[nat n := c]))" using 1 n rc by simp
    have l: "gtc (VList (ys[nat n := x])) (i # js) = gtc x js" for x js
      using 1(2) n by (simp add: list_at_def)
    have f: "gtc (VList (ys[nat n := c])) js = Inr w \<longleftrightarrow> gtc cur' js = Inr w"
      if "parts (butlast (i # j # is)) js" for js w
    proof -
      obtain l ls where js: "js = l # ls" "\<not> meets i l \<or> parts (butlast (j # is)) ls" using \<open>parts _ js\<close> by (cases js) auto
      have "gtc ((ys[nat n := c]) ! nat m) ls = Inr w \<longleftrightarrow> gtc ((ys[nat n := child']) ! nat m) ls = Inr w"
        if "on_list l = Inr (Ix m)" "0 \<le> m" for m
        using p js(2) 1(2) n that by (cases "m = n") (auto simp: popped_def nth_list_update)
      then show ?thesis unfolding js(1) 1(7) gtc_list by auto
    qed
    show ?thesis using p f unfolding e popped_def unfolding 1(7) bl ll fst_conv snd_conv l by blast
  next
    case (2 d k child child')
    obtain r c where rc: "npop child' (j # is) dflt = (r, c)" by fastforce
    have p: "popped child' (j # is) v (r, c)" using 3(2)[of d k child child'] 2 3(4) rc by auto
    have e: "npop cur' (i # j # is) dflt = (r, VDict (dset k c (dset k child' d)))" using 2 rc by simp
    have l: "gtc (VDict (dset k x d')) (i # js) = gtc x js" for x js d' using 2(2) by (simp add: dict_at_def)
    have f: "gtc (VDict (dset k c (dset k child' d))) js = Inr w \<longleftrightarrow> gtc cur' js = Inr w"
      if "parts (butlast (i # j # is)) js" for js w
    proof -
      obtain l ls where js: "js = l # ls" "\<not> meets i l \<or> parts (butlast (j # is)) ls"
        using \<open>parts _ js\<close> by (cases js) auto
      show ?thesis using p js(2) 2(2) unfolding js(1) 2(5) gtc_dict by (auto simp: popped_def split: if_splits)
    qed
    show ?thesis using p f unfolding e popped_def unfolding 2(5) bl ll fst_conv snd_conv l by blast
  qed
qed simp

section \<open>Merging key by key\<close>

text \<open>What the value of a key is after \<open>deep_update\<close>, one entry of the update after the other.\<close>

definition merged :: "val option \<Rightarrow> val \<Rightarrow> val" where
  "merged old v =
     (case (v, old) of (VDict w, Some (VDict x)) \<Rightarrow> VDict (deep_update x w) | _ \<Rightarrow> v)"

lemma dget_deep_update:
  assumes "distinct (dkeys new)"
  shows "dget (deep_update old new) k =
    (case dget new k of None \<Rightarrow> dget old k | Some v \<Rightarrow> Some (merged (dget old k) v))"
  using assms
proof (induction new arbitrary: old)
  case (Cons kv new)
  obtain k' v where kv: "kv = (k', v)" by fastforce
  have n: "k' \<notin> fst ` set new" using Cons.prems kv by simp
  then have "dget new k' = None" by (simp add: map_of_eq_None_iff)
  moreover have "(case v of VDict w \<Rightarrow> (case dget old k' of Some (VDict x) \<Rightarrow> VDict (deep_update x w) | _ \<Rightarrow> v)
      | _ \<Rightarrow> v) = merged (dget old k') v"
    by (cases v; cases "dget old k'") (auto simp: merged_def split: val.split)
  ultimately show ?case using Cons.IH Cons.prems by (auto simp: kv split: option.splits)
qed simp

lemma deep_merge_copy: "deep_merge False base over = deep_update base over"
proof (induction False base over rule: deep_merge.induct)
  case (2 base k v over)
  have "(case (dget base k, v) of (Some (VDict x), VDict w) \<Rightarrow> VDict (deep_merge False x w)
           | (Some (VList xs), VList ys) \<Rightarrow> if False then VList (xs @ ys) else v | _ \<Rightarrow> v) =
        (case (v, dget base k) of (VDict w, Some (VDict x)) \<Rightarrow> VDict (deep_update x w) | _ \<Rightarrow> v)"
    using 2(1) by (cases v; cases "dget base k") (auto split: val.split)
  with 2(2) show ?case by simp
qed simp

section \<open>Properties\<close>

text \<open>
  C13. A path write is what the readers see.  When \<open>nset\<close> succeeds along a path without negative
  positions, \<open>nget\<close> along that path returns the value written, whatever containers had to be made on the
  way, and every path that could be read before, and parts from it, still reads the same.  \<open>npop\<close> along
  the path returns the value as well and takes it out: the container at the end of the path is left
  without that entry (a key gone from a dict, a position cut out of a list), and every path that parts
  from the one to that container reads after \<open>npop\<close> exactly what it read before it.  Two paths part
  where their steps lead to different entries; text made of digits is the same step on a list as its
  number.
\<close>

theorem nested_round_trip:
  assumes "nset data is v = (Inr (), data')" "\<forall>n. Ix n \<in> set is \<longrightarrow> 0 \<le> n"
    and "npop data' is dflt = (r, data'')"
  shows "nget data' is dflt = Inr v \<and>
    (\<forall>js w. parts is js \<longrightarrow> nget data js None = Inr w \<longrightarrow> nget data' js None = Inr w) \<and> r = Inr v \<and>
    (\<exists>c. get_target_container data' (butlast is) = Inr c \<and>
       get_target_container data'' (butlast is) = Inr (without_entry c (last is))) \<and>
    (\<forall>js w. parts (butlast is) js \<longrightarrow> nget data'' js None = Inr w \<longleftrightarrow> nget data' js None = Inr w)"
proof -
  have f: "forward is" using assms(2) by (simp add: forward_def)
  have "popped data' is v (r, data'')" using nset_npop[OF assms(1) f, of dflt] assms(3) by simp
  then show ?thesis
    using nset_nget[OF assms(1) f, of dflt] nset_frame[OF assms(1) f] unfolding nget_gtc popped_def by auto
qed

theorem nested_round_trip_witness:
  "\<exists>d d'. nset (VDict [(''a'', VInt 1)]) [Key ''b'', Ix 2, Key ''c''] (VBool True) = (Inr (), d) \<and>
     npop d [Key ''b'', Ix 2, Key ''c''] None = (Inr (VBool True), d') \<and>
     nget d [Key ''a''] None = Inr (VInt 1) \<and> nget d' [Key ''a''] None = Inr (VInt 1) \<and>
     get_target_container d' [Key ''b'', Ix 2] = Inr (VDict [])"
proof -
  let ?d = "VDict [(''a'', VInt 1), (''b'', VList [VNone, VNone, VDict [(''c'', VBool True)]])]"
  let ?is = "[Key ''b'', Ix 2, Key ''c'']"
  have s: "nset (VDict [(''a'', VInt 1)]) ?is (VBool True) = (Inr (), ?d)"
    by (simp add: new_container_def ensure_list_index_def py_idx_def eval_nat_numeral)
  obtain r d' where r: "npop ?d ?is None = (r, d')" by fastforce
  from nested_round_trip[OF s _ this] have
    "r = Inr (VBool True)" "nget (VDict [(''a'', VInt 1)]) [Key ''a''] None = Inr (VInt 1) \<longrightarrow> nget ?d [Key ''a''] None = Inr (VInt 1)"
    "nget d' [Key ''a''] None = Inr (VInt 1) \<longleftrightarrow> nget ?d [Key ''a''] None = Inr (VInt 1)"
    "\<exists>c. get_target_container ?d [Key ''b'', Ix 2] = Inr c \<and> get_target_container d' [Key ''b'', Ix 2] = Inr (without_entry c (Key ''c''))"
    by auto
  then show ?thesis using s r by (auto simp: nget_simps dict_at_def list_at_def on_list_def)
qed

text \<open>A position below zero is written but not read back.\<close>

lemma negative_position_unread:
  "fst (nset (VList [VInt 1]) [Ix (-1)] (VInt 5)) = Inr ()"
  "nget (snd (nset (VList [VInt 1]) [Ix (-1)] (VInt 5))) [Ix (-1)] None = Inl KeyError"
  by (simp_all add: ensure_list_index_def py_idx_def nget_simps or_default_def)

end
