(* ===== verification/Flow_Exec.thy ===== *)
theory Flow_Exec
  imports Graph_Search Events Nested
begin

text \<open>
  The flow executor: \<open>DependencyAwareExecutor\<close> of \<open>lionagi/operations/flow.py\<close>, with the operations
  of \<open>lionagi/operations/node.py\<close>.

  The executor runs the operations of a graph, each in a task of its own (\<open>_execute_operation\<close>).  A
  task is its position in that coroutine (\<open>pc\<close>), with the local variables that live across an await; a
  step runs it from one await to the next, so steps of different tasks interleave as the event loop
  may interleave them.  A step that would block is not enabled (\<open>None\<close>).  User code is an answer
  given with the step: the function \<open>apply\<close> of an edge condition, and the outcome of the body of an
  operation, which \<open>Events.conclude\<close> settles.  A bare \<open>BaseException\<close> stands for the cancellation
  class, KeyboardInterrupt and SystemExit.

  Operation objects are kept by their id (\<open>ops\<close>), apart from the graph, which holds the same ids: a
  node of the graph is an \<open>Operation\<close> iff it has an entry there.  \<open>to_dict\<close>, the texts of exceptions
  and of values and the formatting of times are arguments (\<open>env\<close>).  The callbacks \<open>on_progress\<close>
  and \<open>session.emit\<close> return and are the logs \<open>progress\<close> and \<open>bus\<close>.  Dicts are values: a nested dict that
  the context of an operation shares with the flow's is a copy.  Branches and elapsed times are outside;
  so are operation parameters that are a pydantic model rather than a dict.

  \<open>execute\<close> starts its tasks through \<open>AlcallParams\<close>, modelled with its defaults: one task per operation
  at once, without retries, timeout, delay or a limit of its own.  A caller's own \<open>alcall_params\<close> are outside; the limiter
  of \<open>max_concurrent\<close> is in the model (\<open>slots\<close>).
\<close>

section \<open>Operations\<close>

record fop =
  op_name :: string
  parameters :: "(string \<times> val) list"

type_synonym oper = "(fop, val, val) event"

definition meta :: "string \<Rightarrow> oper \<Rightarrow> val" where
  "meta k op = (case dget (metadata op) k of Some (MetaVal v) \<Rightarrow> v | _ \<Rightarrow> VNone)"

definition set_meta :: "string \<Rightarrow> val \<Rightarrow> oper \<Rightarrow> oper" where
  "set_meta k v op = op\<lparr>metadata := dset k (MetaVal v) (metadata op)\<rparr>"

definition set_parameter :: "string \<Rightarrow> val \<Rightarrow> oper \<Rightarrow> oper" where
  "set_parameter k v op = op\<lparr>payload := (payload op)\<lparr>parameters := dset k v (parameters (payload op))\<rparr>\<rparr>"

definition parameter :: "string \<Rightarrow> oper \<Rightarrow> val option" where
  "parameter k op = dget (parameters (payload op)) k"

definition create_operation :: "uuid \<Rightarrow> int \<Rightarrow> string \<Rightarrow> (string \<times> val) list \<Rightarrow> oper" where
  "create_operation u now name params =
     \<lparr>ident = uuid_str u, created = now, payload = \<lparr>op_name = name, parameters = params\<rparr>,
      metadata = [], execution = fresh_execution, streaming = False, completion = None\<rparr>"

definition operation_mro :: "string list" where
  "operation_mro = [''Operation'', ''Node'', ''Event'', ''Element'', ''Observable'']"

record env =
  to_dict :: "val \<Rightarrow> val"
  raised :: "pyerr \<Rightarrow> exc"    \<comment> \<open>the exception object of an error of an inner call\<close>
  str_of :: "val \<Rightarrow> string"
  format_ts :: "val \<Rightarrow> string"

text \<open>\<open>_display_name\<close>: the name and whether it is only the prefix of the id.\<close>

definition display_name :: "uuid \<Rightarrow> oper \<Rightarrow> val \<times> bool" where
  "display_name u op =
     (if meta ''display_name'' op \<noteq> VNone then (meta ''display_name'' op, False)
      else if meta ''reference_id'' op \<noteq> VNone then (meta ''reference_id'' op, False)
      else (VStr (take 8 (uuid_str u)), True))"

section \<open>Operator messages\<close>

definition unconsumed :: "val \<Rightarrow> bool" where
  "unconsumed m =
     (case m of
        VDict d \<Rightarrow> (case dget d ''rendered_into_op'' of None \<Rightarrow> True | Some v \<Rightarrow> \<not> truthy v)
      | _ \<Rightarrow> False)"

definition message_line :: "env \<Rightarrow> val \<Rightarrow> string" where
  "message_line v m =
     (case m of
        VDict d \<Rightarrow>
          ''- '' @ format_ts v (case dget d ''ts'' of Some x \<Rightarrow> x | None \<Rightarrow> VNone) @ '': '' @
          (case dget d ''text'' of Some x \<Rightarrow> str_of v x | None \<Rightarrow> [])
      | _ \<Rightarrow> [])"

definition newline :: string where "newline = [char_of (10 :: nat)]"

fun join_lines :: "string list \<Rightarrow> string" where
  "join_lines [] = []"
| "join_lines [l] = l"
| "join_lines (l # ls) = l @ newline @ join_lines ls"

definition operator_steer :: "string \<Rightarrow> string" where
  "operator_steer ls =
     ''[OPERATOR STEER]'' @ newline @
     ''A human operator sent these live corrections while this flow is running.'' @ newline @
     ''Attend to them before continuing. Most recent last.'' @ newline @
     ls @ newline @ ''[/OPERATOR STEER]'' @ newline @ newline"

definition mark_rendered :: "string \<Rightarrow> val \<Rightarrow> val" where
  "mark_rendered u m =
     (case m of VDict d \<Rightarrow> if unconsumed m then VDict (dset ''rendered_into_op'' (VStr u) d) else m | _ \<Rightarrow> m)"

definition message_list :: "val \<Rightarrow> val list" where
  "message_list v = (case v of VList ms \<Rightarrow> ms | _ \<Rightarrow> [])"

text \<open>
  \<open>_render_operator_messages\<close>: the operation, the context without the key, and the list of messages
  as it stands afterwards; its entries are marked in place, which every holder of the list sees.
\<close>

definition render_operator_messages ::
    "env \<Rightarrow> uuid \<Rightarrow> oper \<Rightarrow> (string \<times> val) list \<Rightarrow> oper \<times> (string \<times> val) list \<times> val option" where
  "render_operator_messages v u op ctx =
     (let msgs = dget ctx ''operator_messages''; ctx' = ddel ''operator_messages'' ctx;
          pending = (case msgs of None \<Rightarrow> [] | Some ms \<Rightarrow> filter unconsumed (message_list ms))
      in if pending = [] then (op, ctx', msgs)
         else
           (let block = operator_steer (join_lines (map (message_line v) pending));
                instr = (case parameter ''instruction'' op of
                           None \<Rightarrow> [] | Some VNone \<Rightarrow> [] | Some x \<Rightarrow> str_of v x);
                op1 = set_parameter ''instruction'' (VStr (block @ instr)) op;
                op2 = set_meta ''rendered_into_op'' (VStr (uuid_str u)) op1
            in (op2, ctx', map_option (\<lambda>ms. VList (map (mark_rendered (uuid_str u)) (message_list ms))) msgs)))"

section \<open>The executor\<close>

record veto =
  gate_id :: string
  gate_name :: val

definition upstream_gate_reject :: string where
  "upstream_gate_reject = ''upstream_gate_reject''"

datatype pc =
    Fresh                                    \<comment> \<open>created, not yet run\<close>
  | Checking "uuid list" bool "veto option"  \<comment> \<open>edges left, \<open>has_valid_path\<close>, \<open>gate_reason\<close>\<close>
  | WaitSources "val list"
  | WaitPreds "uuid list"
  | AtPause
  | Paused nat
  | Acquiring
  | Invoking
  | Finished
  | Raised                                   \<comment> \<open>left by a cancellation\<close>

datatype bus_signal =
    NodePaused uuid
  | NodeSpawned uuid "uuid option" bool
  | NodeEscalated "uuid option" val

record ('c, 'p) dag =
  fgraph :: "(unit, 'c, 'p) graph"
  ops :: "(uuid, oper) pydict"
  flow_ctx :: "(string \<times> val) list"
  slots :: nat
  results :: "(uuid, val) pydict"
  completion_events :: "(uuid, bool) pydict"
  skipped :: "uuid set"
  failed :: "uuid set"
  prefailed :: "uuid set"
  gate_rejections :: "(uuid, veto) pydict"
  skip_reasons :: "(uuid, veto) pydict"
  started :: "uuid set"
  terminal_emitted :: "uuid set"
  queued_announced :: "uuid list"
  pause_event :: "nat option"
  gates_made :: nat
  gates_open :: "nat set"
  borrowed :: nat
  tasks :: "(uuid \<times> pc) list"
  progress :: "(uuid \<times> string) list"
  bus :: "bus_signal list"

definition put_op :: "uuid \<Rightarrow> oper \<Rightarrow> ('c, 'p, 'z) dag_scheme \<Rightarrow> ('c, 'p, 'z) dag_scheme" where
  "put_op u op s = s\<lparr>ops := dset u op (ops s)\<rparr>"

definition set_event :: "uuid \<Rightarrow> ('c, 'p, 'z) dag_scheme \<Rightarrow> ('c, 'p, 'z) dag_scheme" where
  "set_event u s = s\<lparr>completion_events := dset u True (completion_events s)\<rparr>"

definition put_result :: "uuid \<Rightarrow> val \<Rightarrow> ('c, 'p, 'z) dag_scheme \<Rightarrow> ('c, 'p, 'z) dag_scheme" where
  "put_result u v s = s\<lparr>results := dset u v (results s)\<rparr>"

definition emit_progress :: "uuid \<Rightarrow> string \<Rightarrow> ('c, 'p, 'z) dag_scheme \<Rightarrow> ('c, 'p, 'z) dag_scheme" where
  "emit_progress u st s = s\<lparr>progress := progress s @ [(u, st)]\<rparr>"

definition emit_terminal_once :: "uuid \<Rightarrow> string \<Rightarrow> ('c, 'p, 'z) dag_scheme \<Rightarrow> ('c, 'p, 'z) dag_scheme" where
  "emit_terminal_once u st s =
     (if u \<in> terminal_emitted s then s
      else emit_progress u st (s\<lparr>terminal_emitted := insert u (terminal_emitted s)\<rparr>))"

definition announce_queued :: "uuid \<Rightarrow> ('c, 'p, 'z) dag_scheme \<Rightarrow> ('c, 'p, 'z) dag_scheme" where
  "announce_queued u s =
     emit_progress u ''queued''
       (s\<lparr>queued_announced := (if u \<in> set (queued_announced s) then queued_announced s
                               else queued_announced s @ [u])\<rparr>)"

definition emit_abandoned_terminal ::
    "uuid \<Rightarrow> string \<Rightarrow> bool \<Rightarrow> ('c, 'p, 'z) dag_scheme \<Rightarrow> ('c, 'p, 'z) dag_scheme" where
  "emit_abandoned_terminal u st require_started s =
     (if require_started \<and> u \<notin> started s then s else emit_terminal_once u st s)"

definition cancel_announced_unfinished :: "('c, 'p, 'z) dag_scheme \<Rightarrow> ('c, 'p, 'z) dag_scheme" where
  "cancel_announced_unfinished s =
     fold (\<lambda>u. emit_abandoned_terminal u ''cancelled'' False) (queued_announced s) s"

definition pause :: "('c, 'p, 'z) dag_scheme \<Rightarrow> ('c, 'p, 'z) dag_scheme" where
  "pause s =
     (if pause_event s = None
      then s\<lparr>pause_event := Some (gates_made s), gates_made := Suc (gates_made s)\<rparr> else s)"

definition resume :: "('c, 'p, 'z) dag_scheme \<Rightarrow> ('c, 'p, 'z) dag_scheme" where
  "resume s =
     (case pause_event s of
        None \<Rightarrow> s
      | Some k \<Rightarrow> s\<lparr>gates_open := insert k (gates_open s), pause_event := None\<rparr>)"

text \<open>The two ways out of \<open>_execute_operation\<close> on an exception; both set the event.\<close>

definition error_result :: "string \<Rightarrow> val" where
  "error_result msg = VDict [(''error'', VStr msg)]"

definition flow_error :: "uuid \<Rightarrow> exc \<Rightarrow> ('c, 'p, 'z) dag_scheme \<Rightarrow> ('c, 'p, 'z) dag_scheme" where
  "flow_error u x s =
     (let s1 = (if dhas (results s) u then s else put_result u (error_result (exc_str x)) s);
          s2 = s1\<lparr>failed := insert u (failed s1)\<rparr>
      in set_event u (emit_abandoned_terminal u ''failed'' True s2))"

definition cancelled :: "uuid \<Rightarrow> ('c, 'p, 'z) dag_scheme \<Rightarrow> ('c, 'p, 'z) dag_scheme" where
  "cancelled u s =
     (let s1 = set_event u s;
          s2 = (case dget (ops s1) u of
                  None \<Rightarrow> s1
                | Some op \<Rightarrow>
                    if terminal (ev_status op) then s1
                    else put_op u (on_execution (\<lambda>ex. ex\<lparr>status := CANCELLED\<rparr>) op) s1)
      in set_event u (emit_abandoned_terminal u ''cancelled'' False s2))"

definition raise_in :: "uuid \<Rightarrow> exc \<Rightarrow> ('c, 'p, 'z) dag_scheme \<Rightarrow> pc \<times> ('c, 'p, 'z) dag_scheme" where
  "raise_in u x s = (if is_exception x then (Finished, flow_error u x s) else (Raised, cancelled u s))"

section \<open>An operation that is already terminal\<close>

definition preterminal_announce_status :: "event_status \<Rightarrow> string option" where
  "preterminal_announce_status st =
     (case st of
        COMPLETED \<Rightarrow> Some ''completed'' | FAILED \<Rightarrow> Some ''failed'' | SKIPPED \<Rightarrow> Some ''skipped''
      | CANCELLED \<Rightarrow> Some ''cancelled'' | _ \<Rightarrow> None)"

definition preterminal :: "uuid \<Rightarrow> oper \<Rightarrow> ('c, 'p, 'z) dag_scheme \<Rightarrow> ('c, 'p, 'z) dag_scheme" where
  "preterminal u op s =
     (let s1 = (if ev_status op = FAILED
                then s\<lparr>failed := insert u (failed s), prefailed := insert u (prefailed s)\<rparr> else s);
          s2 = (case response (execution op) of
                  Some r \<Rightarrow> if dhas (results s1) u then s1 else put_result u r s1
                | None \<Rightarrow> s1);
          s3 = (case preterminal_announce_status (ev_status op) of
                  Some st \<Rightarrow> emit_terminal_once u st s2
                | None \<Rightarrow> s2)
      in set_event u s3)"

section \<open>Edge conditions and gates\<close>

datatype answer =
    Silent
  | Verdict "val \<Rightarrow> exc + bool"   \<comment> \<open>what \<open>apply\<close> of the edge condition does\<close>
  | Outcome nat int "exc + val"   \<comment> \<open>what the body of the operation does\<close>

definition as_plain :: "env \<Rightarrow> val \<Rightarrow> val" where
  "as_plain v x =
     (case x of
        VNone \<Rightarrow> x | VStr _ \<Rightarrow> x | VInt _ \<Rightarrow> x | VFloat _ \<Rightarrow> x | VBool _ \<Rightarrow> x
      | _ \<Rightarrow> to_dict v x)"

definition condition_ctx :: "env \<Rightarrow> uuid \<Rightarrow> ('c, 'p, 'z) dag_scheme \<Rightarrow> val" where
  "condition_ctx v h s =
     VDict [(''result'', as_plain v (case dget (results s) h of Some r \<Rightarrow> r | None \<Rightarrow> VNone)),
            (''context'', VDict (flow_ctx s))]"

definition veto_value :: "veto \<Rightarrow> val" where
  "veto_value g =
     VDict [(''skipped'', VBool True), (''reason_code'', VStr upstream_gate_reject),
            (''gate_id'', VStr (gate_id g)), (''gate_name'', gate_name g)]"

definition skip_op :: "uuid \<Rightarrow> oper \<Rightarrow> ('c, 'p, 'z) dag_scheme \<Rightarrow> ('c, 'p, 'z) dag_scheme" where
  "skip_op u op s =
     (let op1 = on_execution (\<lambda>ex. ex\<lparr>status := SKIPPED\<rparr>) op;
          s1 = s\<lparr>skipped := insert u (skipped s)\<rparr>;
          s2 = (case dget (skip_reasons s) u of
                  None \<Rightarrow> put_op u op1 s1
                | Some g \<Rightarrow>
                    put_result u (veto_value g)
                      (put_op u (set_meta ''skip_reason_gate_name'' (gate_name g)
                                 (set_meta ''skip_reason_gate_id'' (VStr (gate_id g))
                                  (set_meta ''skip_reason_code'' (VStr upstream_gate_reject) op1))) s1))
      in set_event u (emit_terminal_once u ''skipped'' s2))"

definition aggregation_sources :: "oper \<Rightarrow> val list" where
  "aggregation_sources op =
     (if truthy (meta ''aggregation'' op) then message_list (meta ''aggregation_sources'' op) else [])"

text \<open>\<open>_check_edge_conditions\<close> after its last edge, with what \<open>_execute_operation\<close> makes of the answer.\<close>

definition checked ::
    "uuid \<Rightarrow> oper \<Rightarrow> bool \<Rightarrow> veto option \<Rightarrow> ('c, 'p, 'z) dag_scheme \<Rightarrow> pc \<times> ('c, 'p, 'z) dag_scheme" where
  "checked u op valid reason s =
     (case reason of
        Some g \<Rightarrow> (Finished, skip_op u op (s\<lparr>skip_reasons := dset u g (skip_reasons s)\<rparr>))
      | None \<Rightarrow>
          if valid then (WaitSources (aggregation_sources op), s)
          else (Finished, skip_op u op s))"

definition next_edge ::
    "uuid \<Rightarrow> oper \<Rightarrow> uuid list \<Rightarrow> bool \<Rightarrow> veto option \<Rightarrow> ('c, 'p, 'z) dag_scheme
      \<Rightarrow> pc \<times> ('c, 'p, 'z) dag_scheme" where
  "next_edge u op ks valid reason s =
     (if ks = [] then checked u op valid reason s else (Checking ks valid reason, s))"

definition upstream_reason :: "uuid \<Rightarrow> ('c, 'p, 'z) dag_scheme \<Rightarrow> veto option" where
  "upstream_reason h s =
     (case dget (skip_reasons s) h of Some g \<Rightarrow> Some g | None \<Rightarrow> dget (gate_rejections s) h)"

definition check_edge ::
    "env \<Rightarrow> answer \<Rightarrow> uuid \<Rightarrow> oper \<Rightarrow> uuid \<Rightarrow> uuid list \<Rightarrow> bool \<Rightarrow> veto option \<Rightarrow> ('c, 'p, 'z) dag_scheme
      \<Rightarrow> (pc \<times> ('c, 'p, 'z) dag_scheme) option" where
  "check_edge v ans u op k ks valid reason s =
     (case edge_at (fgraph s) k of
        Inl e \<Rightarrow> Some (raise_in u (raised v e) s)
      | Inr e \<Rightarrow>
          (let h = ehead (ebody e)
           in if dget (completion_events s) h = Some False then None
              else
                (case upstream_reason h s of
                   Some g \<Rightarrow>
                     Some (next_edge u op ks valid (case reason of None \<Rightarrow> Some g | Some _ \<Rightarrow> reason) s)
                 | None \<Rightarrow>
                     if h \<in> skipped s \<or> h \<in> prefailed s \<or> valid
                     then Some (next_edge u op ks valid reason s)
                     else
                       (case econd (ebody e) of
                          None \<Rightarrow> Some (next_edge u op ks True reason s)
                        | Some _ \<Rightarrow>
                            (case ans of
                               Verdict f \<Rightarrow>
                                 (case f (condition_ctx v h s) of
                                    Inl x \<Rightarrow> Some (raise_in u x s)
                                  | Inr b \<Rightarrow> Some (next_edge u op ks b reason s))
                             | _ \<Rightarrow> None)))))"

definition first_step ::
    "env \<Rightarrow> uuid \<Rightarrow> oper \<Rightarrow> ('c, 'p, 'z) dag_scheme \<Rightarrow> pc \<times> ('c, 'p, 'z) dag_scheme" where
  "first_step v u op s =
     (if terminal (ev_status op) then (Finished, preterminal u op s)
      else
        (case adj_of (fgraph s) u of
           Inl e \<Rightarrow> raise_in u (raised v e) s
         | Inr a \<Rightarrow>
             (case dkeys (ins a) of
                [] \<Rightarrow> (WaitSources (aggregation_sources op), s)
              | ks \<Rightarrow> (Checking ks False None, s))))"

section \<open>Waiting for dependencies\<close>

definition read_preds ::
    "uuid \<Rightarrow> ('c, 'p, 'z) dag_scheme \<Rightarrow> (pyerr + uuid list) \<times> ('c, 'p, 'z) dag_scheme" where
  "read_preds u s =
     (case get_predecessors_cached (RUuid u) (fgraph s) of
        (Inl e, g) \<Rightarrow> (Inl e, s\<lparr>fgraph := g\<rparr>)
      | (Inr vs, g) \<Rightarrow> (Inr (map eid vs), s\<lparr>fgraph := g\<rparr>))"

definition wait_source ::
    "val \<Rightarrow> val list \<Rightarrow> ('c, 'p, 'z) dag_scheme \<Rightarrow> (pc \<times> ('c, 'p, 'z) dag_scheme) option" where
  "wait_source x xs s =
     (case find (\<lambda>u. VStr (uuid_str u) = x) (dkeys (completion_events s)) of
        None \<Rightarrow> Some (WaitSources xs, s)
      | Some h \<Rightarrow>
          if dget (completion_events s) h = Some True then Some (WaitSources xs, s) else None)"

definition wait_pred ::
    "env \<Rightarrow> uuid \<Rightarrow> uuid \<Rightarrow> uuid list \<Rightarrow> ('c, 'p, 'z) dag_scheme
      \<Rightarrow> (pc \<times> ('c, 'p, 'z) dag_scheme) option" where
  "wait_pred v u h hs s =
     (case dget (completion_events s) h of
        None \<Rightarrow> Some (raise_in u (raised v KeyError) s)
      | Some True \<Rightarrow> Some (WaitPreds hs, s)
      | Some False \<Rightarrow> None)"

section \<open>Running an operation\<close>

definition as_context :: "val option \<Rightarrow> (string \<times> val) list \<Rightarrow> val" where
  "as_context old new =
     (case old of
        None \<Rightarrow> VDict new
      | Some (VDict d) \<Rightarrow> VDict (dupdate d new)
      | Some x \<Rightarrow> VDict (dupdate [(''original_context'', x)] new))"

definition pred_context ::
    "env \<Rightarrow> uuid list \<Rightarrow> ('c, 'p, 'z) dag_scheme \<Rightarrow> (string \<times> val) list" where
  "pred_context v ps s =
     fold (\<lambda>p d. if p \<in> skipped s \<or> p \<in> prefailed s then d
                 else case dget (results s) p of
                        None \<Rightarrow> d
                      | Some r \<Rightarrow> dset (uuid_str p @ ''_result'') (as_plain v r) d) ps []"

text \<open>The rendering of operator messages on the context of an operation, shared with the flow's.\<close>

definition render_into ::
    "env \<Rightarrow> uuid \<Rightarrow> oper \<Rightarrow> (string \<times> val) list \<Rightarrow> ('c, 'p, 'z) dag_scheme
      \<Rightarrow> oper \<times> ('c, 'p, 'z) dag_scheme" where
  "render_into v u op ctx s =
     (let (op1, ctx1, msgs) = render_operator_messages v u op ctx
      in (set_parameter ''context'' (VDict ctx1) op1,
          case msgs of
            Some ms \<Rightarrow>
              if dhas (flow_ctx s) ''operator_messages''
              then s\<lparr>flow_ctx := dset ''operator_messages'' ms (flow_ctx s)\<rparr> else s
          | None \<Rightarrow> s))"

definition with_context :: "env \<Rightarrow> oper \<Rightarrow> uuid list \<Rightarrow> ('c, 'p, 'z) dag_scheme \<Rightarrow> oper" where
  "with_context v op ps s =
     (let op1 = (if ps = [] then op
                 else set_parameter ''context'' (as_context (parameter ''context'' op) (pred_context v ps s)) op)
      in if flow_ctx s = [] then op1
         else set_parameter ''context'' (as_context (parameter ''context'' op1) (flow_ctx s)) op1)"

definition prepare_operation ::
    "env \<Rightarrow> uuid \<Rightarrow> oper \<Rightarrow> uuid list \<Rightarrow> ('c, 'p, 'z) dag_scheme \<Rightarrow> oper \<times> ('c, 'p, 'z) dag_scheme" where
  "prepare_operation v u op ps s =
     (let op2 = with_context v op ps s
      in (case parameter ''context'' op2 of
            Some (VDict ctx) \<Rightarrow> render_into v u op2 ctx s
          | _ \<Rightarrow> (op2, s)))"

definition render_pending_operator_steers ::
    "env \<Rightarrow> uuid \<Rightarrow> oper \<Rightarrow> ('c, 'p, 'z) dag_scheme \<Rightarrow> oper \<times> ('c, 'p, 'z) dag_scheme" where
  "render_pending_operator_steers v u op s =
     (case dget (flow_ctx s) ''operator_messages'' of
        None \<Rightarrow> (op, s)
      | Some ms \<Rightarrow>
          if list_ex unconsumed (message_list ms)
          then render_into v u op
                 (dset ''operator_messages'' ms
                    (case parameter ''context'' op of Some (VDict d) \<Rightarrow> d | _ \<Rightarrow> [])) s
          else (op, s))"

definition record_gate_verdict :: "env \<Rightarrow> uuid \<Rightarrow> oper \<Rightarrow> ('c, 'p, 'z) dag_scheme \<Rightarrow> ('c, 'p, 'z) dag_scheme" where
  "record_gate_verdict v u op s =
     (case as_plain v (case response (execution op) of Some r \<Rightarrow> r | None \<Rightarrow> VNone) of
        VDict d \<Rightarrow>
          (case dget d ''gate_verdict'' of
             Some (VStr t) \<Rightarrow>
               if map lower (strip t) = ''reject''
               then s\<lparr>gate_rejections := dset u \<lparr>gate_id = uuid_str u, gate_name = fst (display_name u op)\<rparr>
                                           (gate_rejections s)\<rparr>
               else s
           | _ \<Rightarrow> s)
      | _ \<Rightarrow> s)"

definition context_type_error :: exc where
  "context_type_error = Exc ''TypeError'' ''response['context'] must be a Mapping'' True"

text \<open>What \<open>_execute_operation\<close> does once \<open>invoke\<close> has returned.\<close>

definition after_completed :: "env \<Rightarrow> uuid \<Rightarrow> oper \<Rightarrow> ('c, 'p, 'z) dag_scheme \<Rightarrow> ('c, 'p, 'z) dag_scheme" where
  "after_completed v u op s =
     (let r = (case response (execution op) of Some x \<Rightarrow> x | None \<Rightarrow> VNone);
          s1 = put_result u r s;
          fin = (\<lambda>s2. let s3 = emit_terminal_once u ''completed'' s2
                      in if truthy (meta ''is_gate'' op) then record_gate_verdict v u op s3 else s3)
      in (case r of
            VDict d \<Rightarrow>
              (case dget d ''context'' of
                 None \<Rightarrow> fin s1
               | Some (VDict c) \<Rightarrow> fin (s1\<lparr>flow_ctx := deep_update (flow_ctx s1) c\<rparr>)
               | Some _ \<Rightarrow>
                   let s2 = put_op u (on_execution (\<lambda>ex. ex\<lparr>status := FAILED, error := Err context_type_error\<rparr>) op) s1;
                       s3 = put_result u (error_result (exc_str context_type_error)) s2
                   in emit_terminal_once u ''failed'' (s3\<lparr>failed := insert u (failed s3)\<rparr>))
          | _ \<Rightarrow> fin s1))"

definition error_text :: "err \<Rightarrow> string" where
  "error_text e = (case e of NoError \<Rightarrow> ''None'' | ErrText t \<Rightarrow> t | Err x \<Rightarrow> exc_str x)"

definition after_invoke :: "env \<Rightarrow> uuid \<Rightarrow> oper \<Rightarrow> ('c, 'p, 'z) dag_scheme \<Rightarrow> ('c, 'p, 'z) dag_scheme" where
  "after_invoke v u op s =
     (case ev_status op of
        COMPLETED \<Rightarrow> after_completed v u op s
      | FAILED \<Rightarrow>
          let s1 = put_result u (error_result (error_text (error (execution op)))) s
          in emit_terminal_once u ''failed'' (s1\<lparr>failed := insert u (failed s1)\<rparr>)
      | CANCELLED \<Rightarrow> emit_terminal_once u ''cancelled'' s
      | _ \<Rightarrow> s)"

definition release :: "('c, 'p, 'z) dag_scheme \<Rightarrow> ('c, 'p, 'z) dag_scheme" where
  "release s = s\<lparr>borrowed := borrowed s - 1\<rparr>"

definition start_op ::
    "env \<Rightarrow> uuid \<Rightarrow> oper \<Rightarrow> ('c, 'p, 'z) dag_scheme \<Rightarrow> pc \<times> ('c, 'p, 'z) dag_scheme" where
  "start_op v u op s0 =
     (let s = s0\<lparr>borrowed := Suc (borrowed s0)\<rparr>
      in (case read_preds u s of
            (Inl e, s1) \<Rightarrow> raise_in u (raised v e) (release s1)
          | (Inr ps, s1) \<Rightarrow>
              let (op2, s2) = prepare_operation v u op ps s1;
                  s3 = emit_progress u ''started'' (s2\<lparr>started := insert u (started s2)\<rparr>);
                  (op4, s4) = render_pending_operator_steers v u op2 s3
              in if ev_status op4 \<noteq> PENDING
                 then (Finished, set_event u (release (after_invoke v u op4 (put_op u op4 s4))))
                 else (Invoking, put_op u (on_execution (\<lambda>ex. ex\<lparr>status := PROCESSING\<rparr>) op4) s4)))"

definition finish_op ::
    "env \<Rightarrow> uuid \<Rightarrow> oper \<Rightarrow> nat \<Rightarrow> int \<Rightarrow> exc + val \<Rightarrow> ('c, 'p, 'z) dag_scheme \<Rightarrow> pc \<times> ('c, 'p, 'z) dag_scheme" where
  "finish_op v u op i dt out s =
     (let op1 = (case out of Inr r \<Rightarrow> on_execution (\<lambda>ex. ex\<lparr>response := Some r\<rparr>) op | Inl _ \<Rightarrow> op);
          (res, op2) = conclude i dt (map_sum id (\<lambda>_. ()) out) op1;
          s1 = put_op u op2 s
      in (case res of
            Inl x \<Rightarrow> raise_in u x (release s1)
          | Inr _ \<Rightarrow> (Finished, set_event u (release (after_invoke v u op2 s1)))))"

section \<open>Steps\<close>

definition task_step ::
    "env \<Rightarrow> answer \<Rightarrow> uuid \<Rightarrow> pc \<Rightarrow> ('c, 'p, 'z) dag_scheme \<Rightarrow> (pc \<times> ('c, 'p, 'z) dag_scheme) option" where
  "task_step v ans u p s =
     (case dget (ops s) u of
        None \<Rightarrow> None
      | Some op \<Rightarrow>
          (case p of
             Fresh \<Rightarrow> Some (first_step v u op s)
           | Checking [] valid reason \<Rightarrow> Some (checked u op valid reason s)
           | Checking (k # ks) valid reason \<Rightarrow> check_edge v ans u op k ks valid reason s
           | WaitSources [] \<Rightarrow>
               (case read_preds u s of
                  (Inl e, s1) \<Rightarrow> Some (raise_in u (raised v e) s1)
                | (Inr ps, s1) \<Rightarrow> Some (WaitPreds ps, s1))
           | WaitSources (x # xs) \<Rightarrow> wait_source x xs s
           | WaitPreds [] \<Rightarrow> Some (AtPause, s)
           | WaitPreds (h # hs) \<Rightarrow> wait_pred v u h hs s
           | AtPause \<Rightarrow>
               (case pause_event s of
                  None \<Rightarrow> Some (Acquiring, s)
                | Some g \<Rightarrow> Some (Paused g, s\<lparr>bus := bus s @ [NodePaused u]\<rparr>))
           | Paused g \<Rightarrow> if g \<in> gates_open s then Some (AtPause, s) else None
           | Acquiring \<Rightarrow> if borrowed s < slots s then Some (start_op v u op s) else None
           | Invoking \<Rightarrow> (case ans of Outcome i dt out \<Rightarrow> Some (finish_op v u op i dt out s) | _ \<Rightarrow> None)
           | Finished \<Rightarrow> None
           | Raised \<Rightarrow> None))"

definition ended :: "pc \<Rightarrow> bool" where
  "ended p \<longleftrightarrow> p \<in> {Finished, Raised}"

definition set_pc :: "nat \<Rightarrow> pc \<Rightarrow> ('c, 'p, 'z) dag_scheme \<Rightarrow> ('c, 'p, 'z) dag_scheme" where
  "set_pc n p s = s\<lparr>tasks := (tasks s)[n := (fst (tasks s ! n), p)]\<rparr>"

text \<open>
  \<open>CancelTask\<close> cancels a task at its await: before its first step nothing of the coroutine runs; inside
  \<open>invoke\<close> the cancellation is an outcome of the body.  \<open>Sweep\<close> is the handler of the entry point, which
  runs when every task of the group has ended.
\<close>

datatype action =
    Task nat answer | CancelTask nat | PauseFlow | ResumeFlow | Sweep

definition exec_step ::
    "env \<Rightarrow> action \<Rightarrow> ('c, 'p, 'z) dag_scheme \<Rightarrow> ('c, 'p, 'z) dag_scheme option" where
  "exec_step v a s =
     (case a of
        Task n ans \<Rightarrow>
          if n < length (tasks s)
          then (case tasks s ! n of
                  (u, p) \<Rightarrow> map_option (\<lambda>(p', s'). set_pc n p' s') (task_step v ans u p s))
          else None
      | CancelTask n \<Rightarrow>
          if n < length (tasks s)
          then (case tasks s ! n of
                  (u, p) \<Rightarrow>
                    if ended p \<or> p = Invoking then None
                    else if p = Fresh then Some (set_pc n Raised s)
                    else Some (set_pc n Raised (cancelled u s)))
          else None
      | PauseFlow \<Rightarrow> Some (pause s)
      | ResumeFlow \<Rightarrow> Some (resume s)
      | Sweep \<Rightarrow>
          if list_all (\<lambda>(u, p). ended p) (tasks s) then Some (cancel_announced_unfinished s) else None)"

fun exec_run :: "env \<Rightarrow> action list \<Rightarrow> ('c, 'p, 'z) dag_scheme \<Rightarrow> ('c, 'p, 'z) dag_scheme option" where
  "exec_run v [] s = Some s"
| "exec_run v (a # as) s = (case exec_step v a s of None \<Rightarrow> None | Some s' \<Rightarrow> exec_run v as s')"

section \<open>Construction and results\<close>

definition unlimited_concurrency :: nat where
  "unlimited_concurrency = 10000"

definition op_ids :: "('n, 'c, 'p) graph \<Rightarrow> (uuid, oper) pydict \<Rightarrow> uuid list" where
  "op_ids g os = filter (dhas os) (pile_keys (nodes g))"

definition mk_dag ::
    "(unit, 'c, 'p) graph \<Rightarrow> (uuid, oper) pydict \<Rightarrow> (string \<times> val) list \<Rightarrow> nat option \<Rightarrow> ('c, 'p) dag" where
  "mk_dag g os ctx max_concurrent =
     (let done = (\<lambda>u. case dget os u of Some op \<Rightarrow> ev_status op = COMPLETED | None \<Rightarrow> False);
          result = (\<lambda>u. case dget os u of
                          Some op \<Rightarrow> (case response (execution op) of Some r \<Rightarrow> r | None \<Rightarrow> VNone)
                        | None \<Rightarrow> VNone)
      in \<lparr>fgraph = g, ops = os, flow_ctx = ctx,
          slots = (case max_concurrent of Some n \<Rightarrow> n | None \<Rightarrow> unlimited_concurrency),
          results = map (\<lambda>u. (u, result u)) (filter done (op_ids g os)),
          completion_events = map (\<lambda>u. (u, done u)) (op_ids g os),
          skipped = {}, failed = {}, prefailed = {}, gate_rejections = [], skip_reasons = [],
          started = {}, terminal_emitted = {}, queued_announced = [],
          pause_event = None, gates_made = 0, gates_open = {}, borrowed = 0, tasks = [],
          progress = [], bus = []\<rparr>)"

text \<open>
  The head of \<open>execute\<close>: a cyclic graph is an OperationError (a subclass of the library's own error,
  here \<open>OtherException\<close>); otherwise every operation is announced and given a task.
\<close>

definition execute ::
    "nat \<Rightarrow> ('c, 'p, 'z) dag_scheme \<Rightarrow> (unit, ('c, 'p, 'z) dag_scheme) eff" where
  "execute depth s =
     (case is_acyclic depth (fgraph s) of
        Inl e \<Rightarrow> (Inl e, s)
      | Inr False \<Rightarrow> (Inl OtherException, s)
      | Inr True \<Rightarrow>
          (let us = op_ids (fgraph s) (ops s)
           in (Inr (), (fold announce_queued us s)\<lparr>tasks := map (\<lambda>u. (u, Fresh)) us\<rparr>)))"

definition completed_operation_ids :: "('c, 'p, 'z) dag_scheme \<Rightarrow> uuid list" where
  "completed_operation_ids s = filter (\<lambda>u. u \<notin> skipped s \<union> prefailed s) (dkeys (results s))"

definition gate_rejected_operations :: "('c, 'p, 'z) dag_scheme \<Rightarrow> string list" where
  "gate_rejected_operations s = map uuid_str (dkeys (gate_rejections s))"

definition gate_short_circuited_operations :: "('c, 'p, 'z) dag_scheme \<Rightarrow> string list" where
  "gate_short_circuited_operations s = map uuid_str (filter (\<lambda>u. u \<in> skipped s) (dkeys (skip_reasons s)))"

end
