(* ===== verification/Flow_Run.thy ===== *)
theory Flow_Run
  imports Flow_Exec
begin

text \<open>
  What every run of the flow executor (\<open>Flow_Exec\<close>) does, however the tasks interleave and whatever user
  code answers.

  A step of the task of one operation touches only what belongs to that operation (\<open>own\<close>); the
  invariant \<open>exec_inv\<close> says what a task has established when it is at a given point.  From it: an
  operation starts only after all its predecessors have settled and the executor has no veto on record for
  any of them, no more operations are in flight than the limiter has slots, an operation has at most one terminal signal,
  and a run on an acyclic graph can always go on until every operation has ended.
\<close>

section \<open>What a step may touch\<close>

definition same_graph :: "(unit, 'c, 'p) graph \<Rightarrow> (unit, 'c, 'p) graph \<Rightarrow> bool" where
  "same_graph g g' \<longleftrightarrow>
     nodes g' = nodes g \<and> edges g' = edges g \<and> mapping g' = mapping g \<and> (graph_inv g \<longrightarrow> graph_inv g')"

definition terminal_signals :: "string set" where
  "terminal_signals = {''completed'', ''failed'', ''skipped'', ''cancelled''}"

fun terminals_of :: "uuid \<Rightarrow> (uuid \<times> string) list \<Rightarrow> nat" where
  "terminals_of u [] = 0"
| "terminals_of u ((h, st) # es) = (if h = u \<and> st \<in> terminal_signals then 1 else 0) + terminals_of u es"

lemma terminals_of_append [simp]: "terminals_of u (l @ m) = terminals_of u l + terminals_of u m"
  by (induction u l rule: terminals_of.induct) auto

definition tidy_log :: "(uuid \<times> string) list \<Rightarrow> uuid set \<Rightarrow> bool" where
  "tidy_log es T \<longleftrightarrow> (\<forall>u. terminals_of u es = (if u \<in> T then 1 else 0))"

abbreviation tidy :: "('c, 'p, 'z) dag_scheme \<Rightarrow> bool" where
  "tidy s \<equiv> tidy_log (progress s) (terminal_emitted s)"

text \<open>
  The signals of one operation; the part of the state that belongs to it, and the part no task writes.
\<close>

definition signals_of :: "uuid \<Rightarrow> (uuid \<times> string) list \<Rightarrow> string list" where
  "signals_of h es = map snd (filter (\<lambda>e. fst e = h) es)"

lemma signals_of_simps [simp]:
  "signals_of h [] = []" "signals_of h (es @ fs) = signals_of h es @ signals_of h fs"
  "signals_of h ((u, st) # es) = (if u = h then st # signals_of h es else signals_of h es)"
  by (simp_all add: signals_of_def)

definition part_of where
  "part_of h s = (dget (completion_events s) h, dget (ops s) h, dget (gate_rejections s) h,
     dget (skip_reasons s) h, h \<in> started s, signals_of h (progress s))"

definition fixed_part where
  "fixed_part s = (tasks s, slots s, pause_event s, gates_open s, queued_announced s, dag.more s)"

definition own :: "uuid \<Rightarrow> ('c, 'p, 'z) dag_scheme \<Rightarrow> ('c, 'p, 'z) dag_scheme \<Rightarrow> bool" where
  "own u s s' \<longleftrightarrow>
     fixed_part s' = fixed_part s \<and> same_graph (fgraph s) (fgraph s') \<and>
     (\<forall>h. h \<noteq> u \<longrightarrow> part_of h s' = part_of h s) \<and>
     dget (completion_events s') u \<in> {dget (completion_events s) u, Some True} \<and>
     (dget (ops s) u \<noteq> None \<longrightarrow> dget (ops s') u \<noteq> None) \<and>
     (u \<in> started s \<longrightarrow> u \<in> started s') \<and> terminal_emitted s \<subseteq> terminal_emitted s' \<and>
     (tidy s \<longrightarrow> tidy s')"

lemma same_graph_refl [simp]: "same_graph g g"
  by (simp add: same_graph_def)

lemma same_graph_trans: "same_graph g h \<Longrightarrow> same_graph h k \<Longrightarrow> same_graph g k"
  by (simp add: same_graph_def)

lemma own_refl [simp]: "own u s s"
  by (simp add: own_def)

lemma own_trans:
  assumes "own u s s1" "own u s1 s2"
  shows "own u s s2"
  using assms same_graph_trans[of "fgraph s" "fgraph s1" "fgraph s2"] unfolding own_def by auto

lemma ownI:
  assumes "fixed_part s' = fixed_part s" "fgraph s' = fgraph s" "\<And>h. h \<noteq> u \<Longrightarrow> part_of h s' = part_of h s"
    "dget (completion_events s') u \<in> {dget (completion_events s) u, Some True}"
    "dget (ops s) u \<noteq> None \<Longrightarrow> dget (ops s') u \<noteq> None" "u \<in> started s \<Longrightarrow> u \<in> started s'"
    "terminal_emitted s \<subseteq> terminal_emitted s'" "tidy s \<Longrightarrow> tidy s'"
  shows "own u s s'"
  using assms by (simp add: own_def)

lemma tidy_signal: "tidy_log l T \<Longrightarrow> st \<notin> terminal_signals \<Longrightarrow> tidy_log (l @ [(u, st)]) T"
  by (simp add: tidy_log_def)

lemma tidy_terminal:
  "tidy_log l T \<Longrightarrow> st \<in> terminal_signals \<Longrightarrow> u \<notin> T \<Longrightarrow> tidy_log (l @ [(u, st)]) (insert u T)"
  by (auto simp: tidy_log_def)

lemmas parts = fixed_part_def part_of_def

lemma own_put_op [simp]: "own u s (put_op u op s)"
  by (rule ownI) (simp_all add: put_op_def parts)

lemma own_put_result [simp]: "own u s (put_result u r s)"
  by (rule ownI) (simp_all add: put_result_def parts)

lemma own_set_event [simp]: "own u s (set_event u s)"
  by (rule ownI) (simp_all add: set_event_def parts)

lemma own_signal: "st \<notin> terminal_signals \<Longrightarrow> own u s (emit_progress u st s)"
  by (rule ownI) (simp_all add: emit_progress_def parts tidy_signal)

lemma own_terminal: "st \<in> terminal_signals \<Longrightarrow> own u s (emit_terminal_once u st s)"
  by (rule ownI) (auto simp: emit_terminal_once_def emit_progress_def parts tidy_terminal)

lemma own_abandoned: "st \<in> terminal_signals \<Longrightarrow> own u s (emit_abandoned_terminal u st b s)"
  by (simp add: emit_abandoned_terminal_def own_terminal)

lemma own_fields [simp]:
  "own u s (s\<lparr>failed := A\<rparr>)" "own u s (s\<lparr>prefailed := A\<rparr>)" "own u s (s\<lparr>skipped := A\<rparr>)"
  "own u s (s\<lparr>failed := A, prefailed := B\<rparr>)"
  "own u s (s\<lparr>flow_ctx := c\<rparr>)" "own u s (s\<lparr>borrowed := n\<rparr>)" "own u s (s\<lparr>bus := l\<rparr>)"
  "own u s (s\<lparr>started := insert u (started s)\<rparr>)"
  "own u s (s\<lparr>skip_reasons := dset u g (skip_reasons s)\<rparr>)"
  "own u s (s\<lparr>gate_rejections := dset u r (gate_rejections s)\<rparr>)"
  by (rule ownI; simp add: parts)+

lemma own_release [simp]: "own u s (release s)"
  by (simp add: release_def)

lemma signals [simp]:
  "''completed'' \<in> terminal_signals" "''failed'' \<in> terminal_signals" "''skipped'' \<in> terminal_signals"
  "''cancelled'' \<in> terminal_signals" "''started'' \<notin> terminal_signals" "''queued'' \<notin> terminal_signals"
  by (simp_all add: terminal_signals_def)

text \<open>Chains of small changes.\<close>

lemma own_then:
  "own u s s1 \<Longrightarrow> own u s (put_op u op s1)" "own u s s1 \<Longrightarrow> own u s (put_result u r s1)"
  "own u s s1 \<Longrightarrow> own u s (set_event u s1)" "own u s s1 \<Longrightarrow> own u s (release s1)"
  "own u s s1 \<Longrightarrow> own u s (s1\<lparr>failed := A\<rparr>)" "own u s s1 \<Longrightarrow> own u s (s1\<lparr>skipped := A\<rparr>)"
  "own u s s1 \<Longrightarrow> own u s (s1\<lparr>failed := A, prefailed := B\<rparr>)"
  "own u s s1 \<Longrightarrow> own u s (s1\<lparr>flow_ctx := c\<rparr>)"  "own u s s1 \<Longrightarrow> own u s (s1\<lparr>borrowed := n\<rparr>)"
  "own u s s1 \<Longrightarrow> own u s (s1\<lparr>bus := l\<rparr>)"
  "own u s s1 \<Longrightarrow> own u s (s1\<lparr>started := insert u (started s1)\<rparr>)"
  "own u s s1 \<Longrightarrow> own u s (s1\<lparr>skip_reasons := dset u g (skip_reasons s1)\<rparr>)"
  "own u s s1 \<Longrightarrow> own u s (s1\<lparr>gate_rejections := dset u g (gate_rejections s1)\<rparr>)"
  "own u s s1 \<Longrightarrow> st \<in> terminal_signals \<Longrightarrow> own u s (emit_terminal_once u st s1)"
  "own u s s1 \<Longrightarrow> st \<in> terminal_signals \<Longrightarrow> own u s (emit_abandoned_terminal u st b s1)"
  "own u s s1 \<Longrightarrow> st \<notin> terminal_signals \<Longrightarrow> own u s (emit_progress u st s1)"
  by (erule own_trans, simp add: own_terminal own_abandoned own_signal)+

lemma own_flow_error: "own u s s1 \<Longrightarrow> own u s (flow_error u x s1)"
  unfolding flow_error_def Let_def by (auto intro!: own_then)

lemma own_cancelled: "own u s s1 \<Longrightarrow> own u s (cancelled u s1)"
  unfolding cancelled_def Let_def by (auto intro!: own_then split: option.split)

lemma own_raise_in: "own u s s1 \<Longrightarrow> own u s (snd (raise_in u x s1))"
  by (simp add: raise_in_def own_flow_error own_cancelled)

lemma own_preterminal: "own u s (preterminal u op s)"
  unfolding preterminal_def Let_def preterminal_announce_status_def
  by (auto intro!: own_then split: option.split event_status.split)

lemma own_skip: "own u s s1 \<Longrightarrow> own u s (skip_op u op s1)"
  unfolding skip_op_def Let_def by (auto intro!: own_then split: option.split)

lemma own_record_gate: "own u s s1 \<Longrightarrow> own u s (record_gate_verdict v u op s1)"
  unfolding record_gate_verdict_def by (auto intro!: own_then split: val.split option.split)

lemma own_after_completed: "own u s s1 \<Longrightarrow> own u s (after_completed v u op s1)"
  unfolding after_completed_def Let_def
  by (auto intro!: own_then own_record_gate split: val.split option.split)

lemma own_after_invoke: "own u s s1 \<Longrightarrow> own u s (after_invoke v u op s1)"
  unfolding after_invoke_def Let_def
  by (auto intro!: own_then own_after_completed split: event_status.split)

text \<open>Preparing an operation changes the flow context at most.\<close>

definition ctx_only :: "('c, 'p, 'z) dag_scheme \<Rightarrow> ('c, 'p, 'z) dag_scheme \<Rightarrow> bool" where
  "ctx_only s s' \<longleftrightarrow> (\<exists>c. s' = s\<lparr>flow_ctx := c\<rparr>)"

lemma ctx_only [simp]: "ctx_only s s" "ctx_only s (s\<lparr>flow_ctx := c\<rparr>)"
  unfolding ctx_only_def by (rule exI[of _ "flow_ctx s"], simp, rule exI, rule refl)

lemma render_into_ctx: "ctx_only s (snd (render_into v u op ctx s))"
  by (simp add: render_into_def split: prod.split option.split)

lemma prepare_ctx: "ctx_only s (snd (prepare_operation v u op ps s))"
  by (simp add: prepare_operation_def Let_def render_into_ctx split: option.split val.split)

lemma steers_ctx: "ctx_only s (snd (render_pending_operator_steers v u op s))"
  by (simp add: render_pending_operator_steers_def render_into_ctx split: option.split)

section \<open>Steps of a task\<close>

lemma read_preds_graph: "same_graph (fgraph s) (fgraph (snd (read_preds u s)))"
proof -
  let ?g = "fgraph s" and ?g' = "snd (get_predecessors_cached (RUuid u) (fgraph s))"
  have f: "fgraph (snd (read_preds u s)) = ?g'"
    by (simp add: read_preds_def split: prod.split sum.split)
  have "nodes ?g' = nodes ?g \<and> edges ?g' = edges ?g \<and> mapping ?g' = mapping ?g"
    by (simp add: get_predecessors_cached_def split: sum.split option.split)
  moreover have "graph_inv ?g'" if "graph_inv ?g"
    using cached_predecessors(2)[OF that, of "RUuid u" u] cached_absent(1)[OF that, of "RUuid u" u] that
    by (cases "dget (mapping ?g) u") (simp_all add: get_id_def)
  ultimately show ?thesis by (simp add: same_graph_def f)
qed

lemma read_preds_frame:
  "read_preds u s = (r, s1) \<Longrightarrow> own w s s1 \<and> borrowed s1 = borrowed s \<and> completion_events s1 = completion_events s
     \<and> started s1 = started s \<and> ops s1 = ops s"
  using read_preds_graph[of s u]
  by (auto simp: read_preds_def own_def parts split: prod.splits sum.splits)

lemma own_with: "own u s (s\<lparr>borrowed := n, started := insert u (started s)\<rparr>)"
  by (rule ownI) (simp_all add: parts)

definition calm :: "('c, 'p, 'z) dag_scheme \<Rightarrow> ('c, 'p, 'z) dag_scheme \<Rightarrow> bool" where
  "calm s s' \<longleftrightarrow> started s' = started s \<and> borrowed s' = borrowed s"

lemma calm_refl [simp]: "calm s s"
  by (simp add: calm_def)

lemma calm_then:
  "calm s s1 \<Longrightarrow> calm s (put_op u op s1)" "calm s s1 \<Longrightarrow> calm s (put_result u r s1)"
  "calm s s1 \<Longrightarrow> calm s (set_event u s1)"
  "calm s s1 \<Longrightarrow> calm s (s1\<lparr>failed := A\<rparr>)" "calm s s1 \<Longrightarrow> calm s (s1\<lparr>skipped := A\<rparr>)"
  "calm s s1 \<Longrightarrow> calm s (s1\<lparr>failed := A, prefailed := B\<rparr>)"
  "calm s s1 \<Longrightarrow> calm s (s1\<lparr>flow_ctx := c\<rparr>)" "calm s s1 \<Longrightarrow> calm s (s1\<lparr>bus := l\<rparr>)"
  "calm s s1 \<Longrightarrow> calm s (s1\<lparr>skip_reasons := q\<rparr>)" "calm s s1 \<Longrightarrow> calm s (s1\<lparr>gate_rejections := q\<rparr>)"
  "calm s s1 \<Longrightarrow> calm s (emit_terminal_once u st s1)"
  "calm s s1 \<Longrightarrow> calm s (emit_abandoned_terminal u st b s1)"
  "calm s s1 \<Longrightarrow> calm s (emit_progress u st s1)"
  by (auto simp: calm_def put_op_def put_result_def set_event_def emit_progress_def
      emit_terminal_once_def emit_abandoned_terminal_def)

lemma calm_raise_in: "calm s s1 \<Longrightarrow> calm s (snd (raise_in u x s1))"
  unfolding raise_in_def flow_error_def cancelled_def Let_def
  by (auto intro!: calm_then split: option.split)

lemma calm_preterminal: "calm s (preterminal u op s)"
  unfolding preterminal_def Let_def preterminal_announce_status_def
  by (auto intro!: calm_then split: option.split event_status.split)

lemma calm_skip: "calm s s1 \<Longrightarrow> calm s (skip_op u op s1)"
  unfolding skip_op_def Let_def by (auto intro!: calm_then split: option.split)

lemma calm_after_invoke: "calm s s1 \<Longrightarrow> calm s (after_invoke v u op s1)"
proof -
  have g: "calm s s2 \<Longrightarrow> calm s (record_gate_verdict v u op s2)" for s2
    unfolding record_gate_verdict_def by (auto intro!: calm_then split: val.split option.split)
  have "calm s s2 \<Longrightarrow> calm s (after_completed v u op s2)" for s2
    unfolding after_completed_def Let_def by (auto intro!: calm_then g split: val.split option.split)
  then show "calm s s1 \<Longrightarrow> calm s (after_invoke v u op s1)"
    unfolding after_invoke_def Let_def by (auto intro!: calm_then split: event_status.split)
qed

text \<open>A task that ends sets its event.\<close>

lemma event_set [simp]: "dget (completion_events (set_event u s)) u = Some True"
  by (simp add: set_event_def)

lemma ends:
  "dget (completion_events (flow_error u x s)) u = Some True"
  "dget (completion_events (cancelled u s)) u = Some True"
  "dget (completion_events (preterminal u op s)) u = Some True"
  "dget (completion_events (skip_op u op s)) u = Some True"
  by (simp_all add: flow_error_def cancelled_def preterminal_def skip_op_def Let_def)

lemma ended_simps [simp]:
  "ended Finished" "ended Raised" "\<not> ended Fresh" "\<not> ended (Checking ks b g)" "\<not> ended (WaitSources xs)"
  "\<not> ended (WaitPreds hs)" "\<not> ended AtPause" "\<not> ended (Paused n)" "\<not> ended Acquiring" "\<not> ended Invoking"
  by (simp_all add: ended_def)

text \<open>
  What every step of the task of \<open>u\<close> guarantees: it touches its own part, sets its event exactly when
  it ends, and keeps the number of its slot.
\<close>

definition holds_slot :: "pc \<Rightarrow> nat" where
  "holds_slot p = (if p = Invoking then 1 else 0)"

definition step_ok :: "uuid \<Rightarrow> pc \<Rightarrow> ('c, 'p, 'z) dag_scheme \<Rightarrow> pc \<Rightarrow> ('c, 'p, 'z) dag_scheme \<Rightarrow> bool" where
  "step_ok u p s p' s' \<longleftrightarrow>
     own u s s' \<and>
     (ended p' \<longrightarrow> dget (completion_events s') u = Some True) \<and>
     (\<not> ended p' \<longrightarrow> dget (completion_events s') u = dget (completion_events s) u) \<and>
     (holds_slot p \<le> borrowed s \<longrightarrow> borrowed s' + holds_slot p = borrowed s + holds_slot p') \<and>
     (started s' = started s \<or> p = Acquiring) \<and> (p' = Invoking \<longrightarrow> p = Acquiring)"

lemma step_ok_raise:
  assumes "own u s s1" "calm s s1" "p \<noteq> Invoking"
  shows "step_ok u p s (fst (raise_in u x s1)) (snd (raise_in u x s1))"
  using own_raise_in[OF assms(1), of x] calm_raise_in[OF assms(2), of u x] assms(3)
  by (auto simp: step_ok_def raise_in_def ends calm_def holds_slot_def)

lemma step_ok_raised:
  assumes "(p', s') = raise_in u x s1" "own u s s1" "calm s s1" "p \<noteq> Invoking"
  shows "step_ok u p s p' s'"
  using step_ok_raise[OF assms(2-4), of x] unfolding assms(1)[symmetric] by simp

lemma step_ok_idle: "\<not> ended q \<Longrightarrow> q \<noteq> Invoking \<Longrightarrow> p \<noteq> Invoking \<Longrightarrow> step_ok u p s q s"
  by (simp add: step_ok_def holds_slot_def)

lemma step_ok_checked:
  "p \<noteq> Invoking \<Longrightarrow> step_ok u p s (fst (checked u op b r s)) (snd (checked u op b r s))"
  by (auto simp: step_ok_def checked_def ends holds_slot_def calm_skip[unfolded calm_def] own_skip own_then
      split: option.split)

lemma step_ok_next:
  "p \<noteq> Invoking \<Longrightarrow> step_ok u p s (fst (next_edge u op ks b r s)) (snd (next_edge u op ks b r s))"
  by (simp add: next_edge_def step_ok_checked) (simp add: step_ok_def holds_slot_def)

text \<open>Looking at one edge: an exception, or on with the rest, remembering a veto.\<close>

lemma check_edge_cases:
  assumes "check_edge v ans u op k ks b r s = Some z"
  obtains (raises) x where "z = raise_in u x s"
  | (goes_on) e b' r' where "edge_at (fgraph s) k = Inr e"
      "dget (completion_events s) (ehead (ebody e)) \<noteq> Some False" "z = next_edge u op ks b' r' s"
      "r' = None \<longrightarrow> r = None \<and> upstream_reason (ehead (ebody e)) s = None"
proof (cases "edge_at (fgraph s) k")
  case (Inl e)
  then show thesis using assms by (intro raises[of "raised v e"]) (simp add: check_edge_def)
next
  case (Inr e)
  let ?h = "ehead (ebody e)"
  have ok: "dget (completion_events s) ?h \<noteq> Some False"
    using assms Inr by (auto simp: check_edge_def Let_def)
  note go = goes_on[OF Inr ok]
  show thesis
  proof (cases "upstream_reason ?h s")
    case (Some g)
    then show thesis using assms Inr ok
      by (intro go[of b "case r of None \<Rightarrow> Some g | Some _ \<Rightarrow> r"])
        (auto simp: check_edge_def Let_def split: option.split)
  next
    case None
    show thesis
    proof (cases "?h \<in> skipped s \<or> ?h \<in> prefailed s \<or> b")
      case True
      then show thesis using assms Inr ok None by (intro go[of b r]) (auto simp: check_edge_def Let_def)
    next
      case False
      show thesis
      proof (cases "econd (ebody e)")
        case None': None
        then show thesis using assms Inr ok None False
          by (intro go[of True r]) (auto simp: check_edge_def Let_def)
      next
        case (Some c)
        with assms Inr ok None False obtain f where f: "ans = Verdict f"
          by (auto simp: check_edge_def Let_def split: answer.splits)
        show thesis
        proof (cases "f (condition_ctx v ?h s)")
          case (Inl x)
          then show thesis using assms Inr ok None False Some f
            by (intro raises[of x]) (auto simp: check_edge_def Let_def)
        next
          case (Inr d)
          then show thesis using assms \<open>edge_at (fgraph s) k = Inr e\<close> ok None False Some f
            by (intro go[of d r]) (auto simp: check_edge_def Let_def)
        qed
      qed
    qed
  qed
qed

lemma step_ok_check_edge:
  assumes "check_edge v ans u op k ks b r s = Some (p', s')" "p \<noteq> Invoking"
  shows "step_ok u p s p' s'"
  using assms(1)
proof (cases rule: check_edge_cases)
  case (raises x)
  then show ?thesis by (rule step_ok_raised[OF _ own_refl calm_refl assms(2)])
next
  case (goes_on e b' r')
  then show ?thesis using step_ok_next[OF assms(2), of u s op ks b' r'] by (metis fst_conv snd_conv)
qed

lemma step_ok_start:
  assumes "start_op v u op s = (p', s')"
  shows "step_ok u Acquiring s p' s'"
proof -
  let ?s = "s\<lparr>borrowed := Suc (borrowed s)\<rparr>"
  obtain r s1 where rp: "read_preds u ?s = (r, s1)" by fastforce
  note f = read_preds_frame[OF rp]
  have o1: "own u s s1" using own_trans[OF own_fields(6)] f by blast
  show ?thesis
  proof (cases r)
    case (Inl e)
    have z: "(p', s') = raise_in u (raised v e) (release s1)" using assms rp Inl by (simp add: start_op_def)
    moreover have "own u s (release s1)" using o1 by (rule own_then)
    moreover have "calm s (release s1)" using f by (simp add: calm_def release_def)
    ultimately show ?thesis by (rule step_ok_raised) simp_all
  next
    case (Inr ps)
    obtain op2 c where p2: "prepare_operation v u op ps s1 = (op2, s1\<lparr>flow_ctx := c\<rparr>)"
      using prepare_ctx[of s1 v u op ps] unfolding ctx_only_def by (metis prod.collapse)
    let ?s3 = "emit_progress u ''started'' (s1\<lparr>flow_ctx := c, started := insert u (started s1)\<rparr>)"
    obtain op4 c' where p4: "render_pending_operator_steers v u op2 ?s3 = (op4, ?s3\<lparr>flow_ctx := c'\<rparr>)"
      using steers_ctx[of ?s3 v u op2] unfolding ctx_only_def by (metis prod.collapse)
    let ?s4 = "?s3\<lparr>flow_ctx := c'\<rparr>"
    have "own u s (s1\<lparr>flow_ctx := c\<rparr>)" using o1 by (rule own_then)
    then have "own u s (s1\<lparr>flow_ctx := c, started := insert u (started s1)\<rparr>)"
      by (rule own_trans) (rule ownI; simp add: parts)
    then have "own u s ?s3" by (rule own_then) simp
    then have o4: "own u s ?s4" by (rule own_then)
    have c4: "borrowed ?s4 = Suc (borrowed s)" "completion_events ?s4 = completion_events s"
      using f by (simp_all add: emit_progress_def)
    show ?thesis
    proof (cases "ev_status op4 = PENDING")
      case True
      then have z: "p' = Invoking" "s' = put_op u (on_execution (\<lambda>ex. ex\<lparr>status := PROCESSING\<rparr>) op4) ?s4"
        using assms rp Inr p2 p4 by (simp_all add: start_op_def)
      then show ?thesis using own_then(1)[OF o4] c4
        by (simp add: step_ok_def holds_slot_def put_op_def)
    next
      case False
      let ?s5 = "after_invoke v u op4 (put_op u op4 ?s4)"
      have z: "p' = Finished" "s' = set_event u (release ?s5)"
        using False assms rp Inr p2 p4 by (simp_all add: start_op_def)
      moreover have "own u s ?s5" by (rule own_after_invoke[OF own_then(1)[OF o4]])
      then have "own u s (set_event u (release ?s5))" by (intro own_then)
      moreover have "borrowed ?s5 = Suc (borrowed s)"
        using calm_after_invoke[of "put_op u op4 ?s4" "put_op u op4 ?s4" v u op4] c4
        by (simp add: calm_def put_op_def)
      ultimately show ?thesis
        by (simp add: step_ok_def holds_slot_def) (simp add: set_event_def release_def)
    qed
  qed
qed

lemma step_ok_finish:
  assumes "finish_op v u op i dt out s = (p', s')"
  shows "step_ok u Invoking s p' s'"
proof -
  let ?op1 = "case out of Inr r \<Rightarrow> on_execution (\<lambda>ex. ex\<lparr>response := Some r\<rparr>) op | Inl _ \<Rightarrow> op"
  obtain res op2 where c: "conclude i dt (map_sum id (\<lambda>_. ()) out) ?op1 = (res, op2)" by fastforce
  let ?s1 = "put_op u op2 s"
  have o: "own u s (release ?s1)" by (intro own_then) simp
  show ?thesis
  proof (cases res)
    case (Inl x)
    then have z: "(p', s') = raise_in u x (release ?s1)" using assms c by (simp add: finish_op_def)
    moreover have "borrowed (snd (raise_in u x (release ?s1))) = borrowed s - 1"
      "started (snd (raise_in u x (release ?s1))) = started s"
      using calm_raise_in[OF calm_refl, of "release ?s1" u x] by (simp_all add: calm_def release_def put_op_def)
    moreover have "own u s (snd (raise_in u x (release ?s1)))" using o by (rule own_raise_in)
    moreover have "ended (fst (raise_in u x (release ?s1)))"
      "dget (completion_events (snd (raise_in u x (release ?s1)))) u = Some True"
      by (simp_all add: raise_in_def ends)
    ultimately show ?thesis
      by (cases "raise_in u x (release ?s1)") (auto simp: step_ok_def holds_slot_def ended_def)
  next
    case (Inr y)
    let ?s2 = "after_invoke v u op2 ?s1"
    have z: "p' = Finished" "s' = set_event u (release ?s2)"
      using assms c Inr by (simp_all add: finish_op_def)
    have "own u s (set_event u (release ?s2))"
      by (intro own_then(3,4) own_after_invoke own_put_op)
    moreover have "borrowed ?s2 = borrowed s" "started ?s2 = started s"
      using calm_after_invoke[OF calm_refl, of ?s1 v u op2] by (simp_all add: calm_def put_op_def)
    ultimately show ?thesis unfolding z
      by (simp add: step_ok_def holds_slot_def) (simp add: set_event_def release_def)
  qed
qed

lemma step_ok_first:
  "step_ok u Fresh s (fst (first_step v u op s)) (snd (first_step v u op s))"
proof -
  have pre: "step_ok u Fresh s Finished (preterminal u op s)"
    using calm_preterminal[of s u op] by (simp add: step_ok_def own_preterminal ends holds_slot_def calm_def)
  show ?thesis
    using pre step_ok_raise[OF own_refl calm_refl, of Fresh u s]
    by (auto simp: first_step_def step_ok_idle split: sum.split list.split)
qed

lemma task_step_ok:
  assumes "task_step v ans u p s = Some (p', s')"
  shows "step_ok u p s p' s'"
proof -
  obtain op where op: "dget (ops s) u = Some op" using assms by (auto simp: task_step_def split: option.splits)
  show ?thesis
  proof (cases p)
    case Fresh
    then show ?thesis using assms op step_ok_first[of u s v op] by (auto simp: task_step_def)
  next
    case (Checking ks b r)
    show ?thesis
    proof (cases ks)
      case Nil
      then show ?thesis using assms op Checking step_ok_checked[of p u s op b r]
        by (auto simp: task_step_def)
    next
      case (Cons k ks')
      then show ?thesis using assms op Checking step_ok_check_edge[of v ans u op k ks' b r s p' s' p]
        by (simp add: task_step_def)
    qed
  next
    case (WaitSources xs)
    show ?thesis
    proof (cases xs)
      case Nil
      obtain r s1 where rp: "read_preds u s = (r, s1)" by fastforce
      note f = read_preds_frame[OF rp, of u]
      show ?thesis
      proof (cases r)
        case (Inl e)
        then have "(p', s') = raise_in u (raised v e) s1"
          using assms op WaitSources Nil rp by (simp add: task_step_def)
        moreover have "calm s s1" using f by (simp add: calm_def)
        ultimately show ?thesis using f WaitSources by (intro step_ok_raised) simp_all
      next
        case (Inr ps)
        then have "p' = WaitPreds ps" "s' = s1"
          using assms op WaitSources Nil rp by (simp_all add: task_step_def)
        then show ?thesis using f WaitSources by (simp add: step_ok_def holds_slot_def)
      qed
    next
      case (Cons x xs')
      then show ?thesis using assms op WaitSources
        by (auto simp: task_step_def wait_source_def step_ok_idle split: option.splits if_splits)
    qed
  next
    case (WaitPreds hs)
    then show ?thesis using assms op
      by (auto simp: task_step_def wait_pred_def step_ok_idle intro: step_ok_raised[OF sym own_refl calm_refl]
          split: list.splits option.splits bool.splits)
  next
    case AtPause
    then show ?thesis using assms op
      by (auto simp: task_step_def step_ok_def holds_slot_def split: option.splits)
  next
    case (Paused g)
    then show ?thesis using assms op by (auto simp: task_step_def step_ok_idle split: if_splits)
  next
    case Acquiring
    then show ?thesis using assms op step_ok_start[of v u op s p' s']
      by (auto simp: task_step_def split: if_splits)
  next
    case Invoking
    then show ?thesis using assms op step_ok_finish
      by (auto simp: task_step_def split: answer.splits)
  qed (use assms op in \<open>simp_all add: task_step_def\<close>)
qed

section \<open>The invariant\<close>

abbreviation event_of where
  "event_of s u \<equiv> dget (completion_events s) u"

abbreviation preds where
  "preds s u \<equiv> {h. (h, u) \<in> arcs (fgraph s)}"

text \<open>The nodes the edges \<open>ks\<close> come from.\<close>

definition heads :: "('c, 'p, 'z) dag_scheme \<Rightarrow> uuid list \<Rightarrow> uuid set" where
  "heads s ks = {h. \<exists>k \<in> set ks. \<exists>t. ends_of (fgraph s) k = Some (h, t)}"

text \<open>Every predecessor has settled without a veto; \<open>ready\<close>: and none of them is anything but an operation.\<close>

definition clear :: "('c, 'p, 'z) dag_scheme \<Rightarrow> uuid \<Rightarrow> bool" where
  "clear s u \<longleftrightarrow> (\<forall>h \<in> preds s u. event_of s h \<noteq> Some False \<and> upstream_reason h s = None)"

definition ready :: "('c, 'p, 'z) dag_scheme \<Rightarrow> uuid \<Rightarrow> bool" where
  "ready s u \<longleftrightarrow> (\<forall>h \<in> preds s u. event_of s h = Some True \<and> upstream_reason h s = None)"

fun pc_ok :: "('c, 'p, 'z) dag_scheme \<Rightarrow> uuid \<Rightarrow> pc \<Rightarrow> bool" where
  "pc_ok s u (Checking ks b r) \<longleftrightarrow>
     ks \<noteq> [] \<and>
     (\<forall>h \<in> preds s u. h \<in> heads s ks \<or>
        event_of s h \<noteq> Some False \<and> (upstream_reason h s \<noteq> None \<longrightarrow> r \<noteq> None))"
| "pc_ok s u (WaitSources xs) \<longleftrightarrow> clear s u"
| "pc_ok s u (WaitPreds hs) \<longleftrightarrow> clear s u \<and> (\<forall>h \<in> preds s u. h \<in> set hs \<or> event_of s h = Some True)"
| "pc_ok s u AtPause \<longleftrightarrow> ready s u"
| "pc_ok s u (Paused g) \<longleftrightarrow> ready s u"
| "pc_ok s u Acquiring \<longleftrightarrow> ready s u"
| "pc_ok s u Invoking \<longleftrightarrow> ready s u"
| "pc_ok s u _ \<longleftrightarrow> True"

definition preset :: "('c, 'p, 'z) dag_scheme \<Rightarrow> uuid \<Rightarrow> bool" where
  "preset s u \<longleftrightarrow> (\<exists>op. dget (ops s) u = Some op \<and> terminal (ev_status op))"

definition task_ok :: "('c, 'p, 'z) dag_scheme \<Rightarrow> uuid \<Rightarrow> pc \<Rightarrow> bool" where
  "task_ok s u p \<longleftrightarrow>
     u \<in> verts (fgraph s) \<and> dget (ops s) u \<noteq> None \<and> event_of s u \<noteq> None \<and>
     (event_of s u = Some True \<longrightarrow> ended p \<or> p = Fresh \<and> preset s u) \<and> pc_ok s u p"

definition slots_taken :: "(uuid \<times> pc) list \<Rightarrow> nat" where
  "slots_taken ts = (\<Sum>(u, p) \<leftarrow> ts. holds_slot p)"

definition exec_inv :: "('c, 'p, 'z) dag_scheme \<Rightarrow> bool" where
  "exec_inv s \<longleftrightarrow>
     graph_inv (fgraph s) \<and> distinct (map fst (tasks s)) \<and>
     (\<forall>(u, p) \<in> set (tasks s). task_ok s u p) \<and> (\<forall>u \<in> started s. ready s u) \<and>
     borrowed s = slots_taken (tasks s) \<and> borrowed s \<le> slots s \<and> tidy s"

lemma exec_invD:
  assumes "exec_inv s"
  shows "graph_inv (fgraph s)" "distinct (map fst (tasks s))"
    "(u, p) \<in> set (tasks s) \<Longrightarrow> task_ok s u p" "u \<in> started s \<Longrightarrow> ready s u"
    "borrowed s = slots_taken (tasks s)" "borrowed s \<le> slots s" "tidy s"
  using assms by (auto simp: exec_inv_def)

text \<open>
  What has settled stays as it is: its event and whether it vetoes.  The task of an operation whose
  event is set has ended, or has yet to find that its operation is terminal already.
\<close>

definition stable :: "('c, 'p, 'z) dag_scheme \<Rightarrow> ('c, 'p, 'z) dag_scheme \<Rightarrow> bool" where
  "stable s s' \<longleftrightarrow> same_graph (fgraph s) (fgraph s') \<and>
     (\<forall>h. event_of s h \<noteq> Some False \<longrightarrow>
        event_of s' h = event_of s h \<and> upstream_reason h s' = upstream_reason h s)"

lemma same_graph_arcs: "same_graph g g' \<Longrightarrow> arcs g' = arcs g \<and> ends_of g' = ends_of g \<and> verts g' = verts g"
  by (simp add: same_graph_def arcs_def ends_of_def[abs_def] verts_def)

lemma stableD:
  assumes "stable s s'"
  shows "preds s' u = preds s u" "heads s' ks = heads s ks"
    "event_of s h \<noteq> Some False \<Longrightarrow> event_of s' h = event_of s h"
    "event_of s h \<noteq> Some False \<Longrightarrow> upstream_reason h s' = upstream_reason h s"
  using assms same_graph_arcs[of "fgraph s" "fgraph s'"] by (simp_all add: stable_def heads_def)

lemma stable_ready: "stable s s' \<Longrightarrow> ready s u \<Longrightarrow> ready s' u"
  unfolding ready_def by (simp only: stableD(1)) (metis bool.distinct(1) option.inject stableD(3,4))

lemma stable_clear: "stable s s' \<Longrightarrow> clear s u \<Longrightarrow> clear s' u"
  unfolding clear_def by (simp only: stableD(1)) (metis stableD(3,4))

lemma stable_set: "stable s s' \<Longrightarrow> event_of s h = Some True \<Longrightarrow> event_of s' h = Some True"
  using stableD(3)[of s s' h] by simp

lemma stable_pc:
  assumes "stable s s'" "pc_ok s u p"
  shows "pc_ok s' u p"
proof (cases p)
  case (Checking ks b r)
  then show ?thesis using assms(2) stableD(1,2)[OF assms(1)] stableD(3,4)[OF assms(1)] by auto
next
  case (WaitPreds hs)
  then show ?thesis
    using assms(2) stableD(1)[OF assms(1)] stable_clear[OF assms(1)] stable_set[OF assms(1)] by auto
qed (use assms stable_ready stable_clear in auto)

lemma own_others:
  "own u s s' \<Longrightarrow> h \<noteq> u \<Longrightarrow> event_of s' h = event_of s h \<and> dget (ops s') h = dget (ops s) h
     \<and> upstream_reason h s' = upstream_reason h s \<and> (h \<in> started s' \<longleftrightarrow> h \<in> started s)"
  by (simp add: own_def part_of_def upstream_reason_def split: option.split)

lemma own_stable:
  assumes "own u s s'" "event_of s u \<noteq> None" "event_of s u = Some True \<Longrightarrow> upstream_reason u s' = upstream_reason u s"
  shows "stable s s'"
  unfolding stable_def
proof (intro conjI allI impI)
  show "same_graph (fgraph s) (fgraph s')" using assms(1) by (simp add: own_def)
next
  fix h assume h: "event_of s h \<noteq> Some False"
  show "event_of s' h = event_of s h"
    using assms h own_others[OF assms(1), of h] by (cases "h = u") (auto simp: own_def)
  show "upstream_reason h s' = upstream_reason h s"
    using assms(2,3) h own_others[OF assms(1), of h] by (cases "h = u") auto
qed

lemma upstream_cong:
  "gate_rejections s' = gate_rejections s \<Longrightarrow> skip_reasons s' = skip_reasons s \<Longrightarrow>
   upstream_reason h s' = upstream_reason h s"
  by (simp add: upstream_reason_def cong: option.case_cong)

lemma upstream_preterminal:
  fixes s :: "('c, 'p, 'z) dag_scheme"
  shows "upstream_reason h (preterminal u op s) = upstream_reason h s"
proof -
  have f: "upstream_reason h (set_event u s1) = upstream_reason h s1"
    "upstream_reason h (emit_terminal_once u st s1) = upstream_reason h s1"
    "upstream_reason h (put_result u r s1) = upstream_reason h s1"
    "upstream_reason h (s1\<lparr>failed := A, prefailed := B\<rparr>) = upstream_reason h s1"
    for s1 :: "('c, 'p, 'z) dag_scheme" and st r A B
    by (auto intro: upstream_cong simp: set_event_def emit_terminal_once_def emit_progress_def put_result_def)
  show ?thesis by (simp add: preterminal_def Let_def f split: option.split)
qed

lemma task_step_stable:
  assumes "task_step v ans u p s = Some (p', s')" "task_ok s u p"
  shows "stable s s'"
proof (rule own_stable)
  show "own u s s'" using task_step_ok[OF assms(1)] by (simp add: step_ok_def)
  show "event_of s u \<noteq> None" using assms(2) by (simp add: task_ok_def)
  assume "event_of s u = Some True"
  then consider "ended p" | "p = Fresh" "preset s u" using assms(2) by (auto simp: task_ok_def)
  then show "upstream_reason u s' = upstream_reason u s"
  proof cases
    case 1
    then show ?thesis using assms(1) by (auto simp: task_step_def ended_def split: option.splits)
  next
    case 2
    then show ?thesis using assms(1)
      by (auto simp: task_step_def preset_def first_step_def upstream_preterminal)
  qed
qed

section \<open>Steps keep the invariant\<close>

lemma incoming_heads:
  assumes "graph_inv (fgraph s)" "adj_of (fgraph s) u = Inr a"
  shows "heads s (dkeys (ins a)) = preds s u"
proof -
  note inv = graph_invD[OF assms(1)]
  have a: "dget (mapping (fgraph s)) u = Some a"
    using assms(2) by (auto simp: adj_of_def split: option.splits)
  then have i: "dget (ins a) = in_links (ends_of (fgraph s)) u" using inv(4) by (simp add: gmap_def)
  have k: "k \<in> set (dkeys (ins a)) \<longleftrightarrow> (\<exists>h. ends_of (fgraph s) k = Some (h, u))" for k
    using in_links_Some[of "ends_of (fgraph s)" u k] i dget_Some_iff[of k "ins a"] by simp
  show ?thesis
  proof (intro set_eqI iffI)
    fix h assume "h \<in> heads s (dkeys (ins a))"
    then obtain j t where "j \<in> set (dkeys (ins a))" "ends_of (fgraph s) j = Some (h, t)"
      unfolding heads_def by blast
    then have "ends_of (fgraph s) j = Some (h, u)" using k[of j] by auto
    then show "h \<in> preds s u" unfolding arcs_def by blast
  next
    fix h assume "h \<in> preds s u"
    then obtain j where "ends_of (fgraph s) j = Some (h, u)" unfolding arcs_def by blast
    then show "h \<in> heads s (dkeys (ins a))" using k[of j] unfolding heads_def by blast
  qed
qed

lemma edge_at_head:
  assumes "graph_inv (fgraph s)" "edge_at (fgraph s) k = Inr e"
  shows "heads s (k # ks) = insert (ehead (ebody e)) (heads s ks)"
proof -
  have "plook (edges (fgraph s)) k = Some e"
    using assms(2)
    by (auto simp: edge_at_def pile_lookup_def plook_def not_found_def split: option.splits pyerr.splits)
  then have "ends_of (fgraph s) k = Some (ehead (ebody e), etail (ebody e))" by (simp add: ends_of_def)
  then show ?thesis by (auto simp: heads_def)
qed

lemma read_preds_links:
  assumes "graph_inv (fgraph s)" "read_preds u s = (Inr ps, s1)" "u \<in> verts (fgraph s)"
  obtains a where "dget (mapping (fgraph s)) u = Some a" "ps = map snd (ins a)"
proof -
  note inv = graph_invD[OF assms(1)]
  from assms(3) inv(4) obtain a where a: "dget (mapping (fgraph s)) u = Some a"
    using dget_key[of u "mapping (fgraph s)"] by (auto simp: gmap_def verts_def)
  from cached_predecessors(1)[OF assms(1), of "RUuid u", OF _ a] obtain vs where
    vs: "fst (get_predecessors_cached (RUuid u) (fgraph s)) = Inr vs"
      "map (plook (nodes (fgraph s))) (map snd (ins a)) = map Some vs" by (auto simp: get_id_def)
  then have ps: "ps = map eid vs"
    using assms(2) by (cases "get_predecessors_cached (RUuid u) (fgraph s)") (auto simp: read_preds_def)
  have "map eid vs = map snd (ins a)"
  proof (rule nth_equalityI)
    show l: "length (map eid vs) = length (map snd (ins a))" using arg_cong[OF vs(2), of length] by simp
    fix i assume i: "i < length (map eid vs)"
    then have "plook (nodes (fgraph s)) (map snd (ins a) ! i) = Some (vs ! i)"
      using arg_cong[OF vs(2), of "\<lambda>l. l ! i"] l by simp
    then show "map eid vs ! i = map snd (ins a) ! i"
      using i pstore.look_key[OF inv(1)] by simp
  qed
  then show thesis using a ps by (intro that) simp_all
qed

lemma read_preds_all:
  assumes "graph_inv (fgraph s)" "read_preds u s = (Inr ps, s1)" "u \<in> verts (fgraph s)"
  shows "set ps = preds s u"
  using assms
proof (rule read_preds_links)
  fix a assume a: "dget (mapping (fgraph s)) u = Some a" "ps = map snd (ins a)"
  have d: "distinct (dkeys (ins a))" "dget (ins a) = in_links (ends_of (fgraph s)) u"
    using a graph_invD(4)[OF assms(1)] by (simp_all add: gmap_def)
  have "(\<exists>k. (k, h) \<in> set (ins a)) \<longleftrightarrow> (\<exists>k. dget (ins a) k = Some h)" for h
    by (simp only: map_of_eq_Some_iff[OF d(1)])
  then have "(\<exists>k. (k, h) \<in> set (ins a)) \<longleftrightarrow> h \<in> preds s u" for h
    by (simp only: d(2) in_links_Some arcs_def mem_Collect_eq case_prod_conv)
  then show ?thesis unfolding a(2) by force
qed

text \<open>Where a task is after its step, read in the state before it.\<close>

lemma pc_ok_next:
  assumes "next_edge u op ks b r s = (p', s')" "\<not> ended p'"
    "\<forall>h \<in> preds s u. h \<in> heads s ks \<or>
        event_of s h \<noteq> Some False \<and> (upstream_reason h s \<noteq> None \<longrightarrow> r \<noteq> None)"
  shows "pc_ok s u p'"
proof (cases "ks = []")
  case True
  then have "r = None" "p' = WaitSources (aggregation_sources op)"
    using assms(1,2) by (auto simp: next_edge_def checked_def split: option.splits if_splits)
  then show ?thesis using assms(3) True by (auto simp: clear_def heads_def)
next
  case False
  then show ?thesis using assms(1,3) by (auto simp: next_edge_def)
qed

lemma pc_ok_check_edge:
  assumes "check_edge v ans u op k ks b r s = Some (p', s')" "\<not> ended p'"
    "pc_ok s u (Checking (k # ks) b r)" "graph_inv (fgraph s)"
  shows "pc_ok s u p'"
  using assms(1)
proof (cases rule: check_edge_cases)
  case (raises x)
  then show ?thesis using assms(2) by (auto simp: raise_in_def split: if_splits)
next
  case (goes_on e b' r')
  have "\<forall>h \<in> preds s u. h \<in> heads s ks \<or>
      event_of s h \<noteq> Some False \<and> (upstream_reason h s \<noteq> None \<longrightarrow> r' \<noteq> None)"
  proof
    fix h assume "h \<in> preds s u"
    then have "h \<in> heads s (k # ks) \<or>
        event_of s h \<noteq> Some False \<and> (upstream_reason h s \<noteq> None \<longrightarrow> r \<noteq> None)"
      using assms(3) by auto
    then show "h \<in> heads s ks \<or> event_of s h \<noteq> Some False \<and> (upstream_reason h s \<noteq> None \<longrightarrow> r' \<noteq> None)"
      using edge_at_head[OF assms(4) goes_on(1), of ks] goes_on(2,4) by auto
  qed
  then show ?thesis using goes_on(3) assms(2) by (intro pc_ok_next[of u op ks b' r' s p' s']) simp_all
qed

lemma pc_ok_first:
  assumes "first_step v u op s = (p', s')" "\<not> ended p'" "graph_inv (fgraph s)"
  shows "pc_ok s u p'"
proof (cases "terminal (ev_status op)")
  case True
  then show ?thesis using assms(1,2) by (auto simp: first_step_def)
next
  case False
  show ?thesis
  proof (cases "adj_of (fgraph s) u")
    case (Inl e)
    then show ?thesis using assms(1,2) False by (auto simp: first_step_def raise_in_def split: if_splits)
  next
    case (Inr a)
    note h = incoming_heads[OF assms(3) Inr]
    show ?thesis
    proof (cases "dkeys (ins a)")
      case Nil
      then have "preds s u = {}" using h by (auto simp: heads_def)
      then show ?thesis using assms(1) False Inr Nil by (auto simp: first_step_def clear_def)
    next
      case (Cons k ks)
      then have "p' = Checking (dkeys (ins a)) False None"
        using assms(1) False Inr by (auto simp: first_step_def split: list.splits)
      then show ?thesis using h Cons by auto
    qed
  qed
qed

lemma task_step_pc:
  assumes "task_step v ans u p s = Some (p', s')" "\<not> ended p'" "task_ok s u p" "graph_inv (fgraph s)"
  shows "pc_ok s u p'"
proof -
  obtain op where op: "dget (ops s) u = Some op" using assms(1) by (auto simp: task_step_def split: option.splits)
  have ok: "pc_ok s u p" "u \<in> verts (fgraph s)" using assms(3) by (simp_all add: task_ok_def)
  have r: "raise_in u x s1 = (q, z) \<Longrightarrow> ended q" for x s1 q z by (auto simp: raise_in_def split: if_splits)
  show ?thesis
  proof (cases p)
    case Fresh
    then show ?thesis using assms op pc_ok_first[of v u op s p' s'] by (simp add: task_step_def)
  next
    case (Checking ks b r)
    with ok obtain k ks' where "ks = k # ks'" by (cases ks) auto
    then show ?thesis using assms op Checking ok pc_ok_check_edge[of v ans u op k ks' b r s p' s']
      by (simp add: task_step_def)
  next
    case (WaitSources xs)
    show ?thesis
    proof (cases xs)
      case Nil
      obtain z s1 where rp: "read_preds u s = (z, s1)" by fastforce
      show ?thesis
      proof (cases z)
        case (Inl e)
        then show ?thesis using assms(1,2) op WaitSources Nil rp
          by (auto simp: task_step_def dest: r)
      next
        case (Inr ps)
        then show ?thesis
          using assms(1) op WaitSources Nil rp ok read_preds_all[OF assms(4), of u ps s1]
          by (auto simp: task_step_def)
      qed
    next
      case (Cons x xs')
      then show ?thesis using assms(1) op WaitSources ok
        by (auto simp: task_step_def wait_source_def split: option.splits if_splits)
    qed
  next
    case (WaitPreds hs)
    then show ?thesis using assms(1,2) op ok
      by (auto simp: task_step_def wait_pred_def clear_def ready_def dest: r split: list.splits option.splits bool.splits)
  next
    case AtPause
    then show ?thesis using assms op ok by (auto simp: task_step_def split: option.splits)
  next
    case (Paused g)
    then show ?thesis using assms op ok by (auto simp: task_step_def split: if_splits)
  next
    case Acquiring
    then have "start_op v u op s = (p', s')" using assms op by (auto simp: task_step_def split: if_splits)
    then have "p' = Invoking" using assms(2)
      by (auto simp: start_op_def Let_def dest: r split: prod.splits sum.splits if_splits)
    then show ?thesis using ok Acquiring by simp
  next
    case Invoking
    then show ?thesis using ok assms(1,2) op
      by (auto simp: task_step_def finish_op_def Let_def dest: r split: answer.splits prod.splits sum.splits)
  qed (use assms op in \<open>simp_all add: task_step_def\<close>)
qed

lemma slots_taken_update:
  "n < length ts \<Longrightarrow> slots_taken (ts[n := (u, p')]) + holds_slot (snd (ts ! n)) = slots_taken ts + holds_slot p'"
proof (induction ts arbitrary: n)
  case (Cons t ts)
  then show ?case by (cases n) (auto simp: slots_taken_def split: prod.splits)
qed simp

lemma slot_counted: "(u, p) \<in> set ts \<Longrightarrow> holds_slot p \<le> slots_taken ts"
  by (induction ts) (auto simp: slots_taken_def)

text \<open>The tasks of other operations, and what was started, are not disturbed by a step that is stable.\<close>

lemma task_ok_other:
  assumes "task_ok s w q" "w \<noteq> u" "own u s s'" "stable s s'"
  shows "task_ok s' w q"
proof -
  have "verts (fgraph s') = verts (fgraph s)" using assms(4) same_graph_arcs by (auto simp: stable_def)
  then show ?thesis
    using assms(1) own_others[OF assms(3,2)] stable_pc[OF assms(4)] by (simp add: task_ok_def preset_def)
qed

lemma task_ok_self:
  assumes "task_ok s u p" "own u s s'" "stable s s'" "pc_ok s' u p'"
    "ended p' \<or> event_of s u = Some False \<and> event_of s' u = event_of s u"
  shows "task_ok s' u p'"
proof -
  have "verts (fgraph s') = verts (fgraph s)" using assms(3) same_graph_arcs by (auto simp: stable_def)
  moreover have "event_of s' u \<noteq> None" "dget (ops s') u \<noteq> None"
    using assms(1,2) by (auto simp: task_ok_def own_def)
  ultimately show ?thesis using assms(1,4,5) by (auto simp: task_ok_def)
qed

text \<open>One task moves from \<open>p\<close> to \<open>p'\<close>.\<close>

lemma exec_inv_move:
  assumes inv: "exec_inv s" and n: "n < length (tasks s)" "tasks s ! n = (u, p)"
    and own: "own u s s'" and st: "stable s s'" and ok: "task_ok s' u p'"
    and slot: "borrowed s' + holds_slot p = borrowed s + holds_slot p'" "borrowed s' \<le> slots s"
    and start: "started s' = started s \<or> ready s u"
  shows "exec_inv (set_pc n p' s')"
proof -
  note I = exec_invD[OF inv]
  have f: "tasks s' = tasks s" "slots s' = slots s" using own by (simp_all add: own_def fixed_part_def)
  have ts: "tasks (set_pc n p' s') = (tasks s)[n := (u, p')]" using n f by (simp add: set_pc_def)
  have up: "upstream_reason h (set_pc n p' s') = upstream_reason h s'" for h
    by (rule upstream_cong) (simp_all add: set_pc_def)
  have same: "task_ok (set_pc n p' s') w q = task_ok s' w q" "ready (set_pc n p' s') w = ready s' w" for w q
  proof -
    have "pc_ok (set_pc n p' s') w q = pc_ok s' w q"
      by (cases q) (simp_all add: clear_def ready_def heads_def up, simp_all add: set_pc_def)
    then show "task_ok (set_pc n p' s') w q = task_ok s' w q" by (simp add: task_ok_def set_pc_def preset_def)
    show "ready (set_pc n p' s') w = ready s' w" by (simp add: ready_def up) (simp add: set_pc_def)
  qed
  have "graph_inv (fgraph s')" using own I(1) by (simp add: own_def same_graph_def)
  moreover have names: "map fst ((tasks s)[n := (u, p')]) = map fst (tasks s)"
  proof -
    have "map fst (tasks s) ! n = u" using n by simp
    then show ?thesis using list_update_id[of "map fst (tasks s)" n] by (simp add: map_update)
  qed
  moreover have "task_ok s' w q" if "(w, q) \<in> set ((tasks s)[n := (u, p')])" for w q
  proof -
    from that[unfolded in_set_conv_nth] obtain m where
      m: "m < length (tasks s)" "(tasks s)[n := (u, p')] ! m = (w, q)" by auto
    show ?thesis
    proof (cases "m = n")
      case True
      then show ?thesis using m ok n by simp
    next
      case False
      then have q: "tasks s ! m = (w, q)" using m by simp
      then have w: "w \<noteq> u"
        using n m(1) False nth_eq_iff_index_eq[OF I(2), of m n] by auto
      have "(w, q) \<in> set (tasks s)" using nth_mem[OF m(1)] by (simp only: q)
      then show ?thesis by (rule task_ok_other[OF I(3) w own st])
    qed
  qed
  moreover have "ready s' w" if "w \<in> started s'" for w
  proof (cases "w = u")
    case True
    then show ?thesis using start that I(4) stable_ready[OF st] by auto
  next
    case False
    then show ?thesis using that own_others[OF own False] I(4) stable_ready[OF st] by auto
  qed
  moreover have "borrowed s' = slots_taken ((tasks s)[n := (u, p')])"
    using slots_taken_update[OF n(1), of u p'] slot(1) I(5) n(2) by simp
  moreover have "tidy s'" using own I(7) by (simp add: own_def)
  moreover have "distinct (map fst ((tasks s)[n := (u, p')]))" unfolding names by (rule I(2))
  ultimately show ?thesis
    unfolding exec_inv_def ts using slot(2) f(2) by (auto simp: same) (simp_all add: set_pc_def)
qed

lemma stable_refl [simp]: "stable s s"
  by (simp add: stable_def)

lemma running_unset:
  assumes "task_ok s u p" "\<not> ended p" "\<not> (p = Fresh \<and> preset s u)"
  shows "event_of s u = Some False"
  using assms by (cases "event_of s u") (auto simp: task_ok_def)

lemma ended_pc: "ended p \<Longrightarrow> pc_ok s u p"
  by (auto simp: ended_def)

lemma task_move_inv:
  assumes "exec_inv s" "n < length (tasks s)" "tasks s ! n = (u, p)" "task_step v ans u p s = Some (p', s')"
  shows "exec_inv (set_pc n p' s')"
proof -
  note I = exec_invD[OF assms(1)]
  have ok: "task_ok s u p" using I(3) nth_mem[OF assms(2)] by (simp add: assms(3))
  have st: "stable s s'" by (rule task_step_stable[OF assms(4) ok])
  have sk: "step_ok u p s p' s'" by (rule task_step_ok[OF assms(4)])
  then have own: "own u s s'" by (simp add: step_ok_def)
  have run: "\<not> ended p" using assms(4) by (auto simp: task_step_def ended_def split: option.splits)
  have pre: "ended p'" if "p = Fresh" "preset s u"
    using that assms(4) by (auto simp: task_step_def preset_def first_step_def)
  have "(u, p) \<in> set (tasks s)" using nth_mem[OF assms(2)] by (simp only: assms(3))
  then have "holds_slot p \<le> borrowed s" using slot_counted I(5) by metis
  then have slot: "borrowed s' + holds_slot p = borrowed s + holds_slot p'" using sk by (simp add: step_ok_def)
  show ?thesis
  proof (rule exec_inv_move[OF assms(1-3) own st _ slot])
    show "task_ok s' u p'"
    proof (rule task_ok_self[OF ok own st])
      show "pc_ok s' u p'"
        using ended_pc stable_pc[OF st task_step_pc[OF assms(4) _ ok I(1)]] by (cases "ended p'") simp_all
      show "ended p' \<or> event_of s u = Some False \<and> event_of s' u = event_of s u"
        using sk running_unset[OF ok run] pre by (auto simp: step_ok_def)
    qed
    show "borrowed s' \<le> slots s"
    proof (cases "p' = Invoking")
      case True
      then have p: "p = Acquiring" using sk by (simp add: step_ok_def)
      then have "borrowed s < slots s"
        using assms(4) by (auto simp: task_step_def split: option.splits if_splits)
      then show ?thesis using slot p by (simp add: holds_slot_def True)
    next
      case False
      then show ?thesis using slot I(6) by (simp add: holds_slot_def)
    qed
    show "started s' = started s \<or> ready s u" using sk ok by (auto simp: step_ok_def task_ok_def)
  qed
qed

text \<open>The invariant reads only these fields.\<close>

lemma exec_inv_cong:
  assumes "exec_inv s" "fgraph s' = fgraph s" "tasks s' = tasks s" "ops s' = ops s"
    "completion_events s' = completion_events s" "gate_rejections s' = gate_rejections s"
    "skip_reasons s' = skip_reasons s" "started s' = started s" "borrowed s' = borrowed s"
    "slots s' = slots s" "tidy s'"
  shows "exec_inv s'"
proof -
  have up: "upstream_reason h s' = upstream_reason h s" for h by (rule upstream_cong) (simp_all add: assms)
  have r: "ready s' w = ready s w" and c: "clear s' w = clear s w" and h: "heads s' ks = heads s ks" for w ks
    by (simp_all add: ready_def clear_def heads_def up assms)
  have "pc_ok s' w q = pc_ok s w q" for w q
    by (cases q) (simp_all add: up assms r c h)
  with r show ?thesis using assms(1) by (simp add: exec_inv_def task_ok_def preset_def assms)
qed

lemma sweep_frame:
  "\<exists>l. fold (\<lambda>u. emit_abandoned_terminal u st False) us s =
     s\<lparr>progress := l, terminal_emitted := terminal_emitted s \<union> set us\<rparr>"
proof (induction us arbitrary: s)
  case Nil
  show ?case by (rule exI[of _ "progress s"]) simp
next
  case (Cons u us)
  let ?s = "emit_abandoned_terminal u st False s"
  have "terminal_emitted ?s = insert u (terminal_emitted s)"
    "?s\<lparr>progress := l, terminal_emitted := T\<rparr> = s\<lparr>progress := l, terminal_emitted := T\<rparr>" for l T
    by (auto simp: emit_abandoned_terminal_def emit_terminal_once_def emit_progress_def)
  with Cons.IH[of ?s] show ?case by simp
qed

text \<open>What the sweep emits for one operation, and nothing for those never announced.\<close>

lemma sweep_signals:
  "\<exists>l. signals_of h (progress (fold (\<lambda>u. emit_abandoned_terminal u st False) us s)) = signals_of h (progress s) @ l \<and>
     set l \<subseteq> {st} \<and> (h \<notin> set us \<longrightarrow> l = [])"
proof (induction us arbitrary: s)
  case (Cons u us)
  let ?s = "emit_abandoned_terminal u st False s"
  have "signals_of h (progress ?s) \<in> {signals_of h (progress s), signals_of h (progress s) @ [st]}"
    "h \<noteq> u \<Longrightarrow> signals_of h (progress ?s) = signals_of h (progress s)"
    by (auto simp: emit_abandoned_terminal_def emit_terminal_once_def emit_progress_def)
  with Cons.IH[of ?s] show ?case by (cases "h = u") auto
qed simp

lemma sweep_tidy:
  "st \<in> terminal_signals \<Longrightarrow> tidy s \<Longrightarrow> tidy (fold (\<lambda>u. emit_abandoned_terminal u st False) us s)"
proof (induction us arbitrary: s)
  case (Cons u us)
  then show ?case using own_abandoned[of st u s False] by (simp add: own_def)
qed simp

lemma pause_inv: "exec_inv s \<Longrightarrow> exec_inv (pause s)"
  by (cases "pause_event s") (auto simp: pause_def exec_invD(7) intro!: exec_inv_cong[of s])

lemma resume_inv: "exec_inv s \<Longrightarrow> exec_inv (resume s)"
  by (cases "pause_event s") (auto simp: resume_def exec_invD(7) intro!: exec_inv_cong[of s])

lemma exec_step_inv:
  assumes "exec_inv s" "exec_step v a s = Some s'"
  shows "exec_inv s'"
proof (cases a)
  case (Task n ans)
  obtain u p where n: "n < length (tasks s)" "tasks s ! n = (u, p)"
    using assms(2) Task by (cases "tasks s ! n") (auto simp: exec_step_def split: if_splits)
  then obtain p' s1 where "task_step v ans u p s = Some (p', s1)" "s' = set_pc n p' s1"
    using assms(2) Task by (auto simp: exec_step_def)
  then show ?thesis using task_move_inv[OF assms(1) n] by simp
next
  case (CancelTask n)
  obtain u p where n: "n < length (tasks s)" "tasks s ! n = (u, p)"
    using assms(2) CancelTask by (cases "tasks s ! n") (auto simp: exec_step_def split: if_splits)
  then have p: "\<not> ended p" "p \<noteq> Invoking"
    and s': "s' = set_pc n Raised (if p = Fresh then s else cancelled u s)"
    using assms(2) CancelTask by (auto simp: exec_step_def split: if_splits)
  note I = exec_invD[OF assms(1)]
  have ok: "task_ok s u p" using I(3) nth_mem[OF n(1)] by (simp add: n(2))
  let ?s = "if p = Fresh then s else cancelled u s"
  have own: "own u s ?s" by (simp add: own_cancelled)
  have st: "stable s ?s"
  proof (cases "p = Fresh")
    case False
    then have e: "event_of s u = Some False" using running_unset[OF ok p(1)] by simp
    have "stable s (cancelled u s)"
      by (rule own_stable[OF own_cancelled[OF own_refl]]) (simp_all add: e)
    then show ?thesis using False by simp
  qed simp
  have "calm s ?s" unfolding cancelled_def Let_def by (auto intro!: calm_then split: option.split)
  then have c: "borrowed ?s = borrowed s" "started ?s = started s" by (simp_all add: calm_def)
  show ?thesis unfolding s'
  proof (rule exec_inv_move[OF assms(1) n own st])
    show "task_ok ?s u Raised" by (rule task_ok_self[OF ok own st]) simp_all
  qed (use c p I(6) in \<open>simp_all add: holds_slot_def\<close>)
next
  case PauseFlow
  then show ?thesis using pause_inv[OF assms(1)] assms(2) by (simp add: exec_step_def)
next
  case ResumeFlow
  then show ?thesis using resume_inv[OF assms(1)] assms(2) by (simp add: exec_step_def)
next
  case Sweep
  then have s': "s' = fold (\<lambda>u. emit_abandoned_terminal u ''cancelled'' False) (queued_announced s) s"
    using assms(2) by (auto simp: exec_step_def cancel_announced_unfinished_def split: if_splits)
  have "tidy s'" unfolding s' by (rule sweep_tidy) (simp_all add: exec_invD(7)[OF assms(1)])
  moreover obtain l where "s' = s\<lparr>progress := l, terminal_emitted := terminal_emitted s \<union> set (queued_announced s)\<rparr>"
    using sweep_frame[of "''cancelled''" "queued_announced s" s] s' by blast
  ultimately show ?thesis by (intro exec_inv_cong[OF assms(1)]) simp_all
qed

definition exec_do :: "env \<Rightarrow> ('c, 'p, 'z) dag_scheme \<Rightarrow> action \<Rightarrow> ('c, 'p, 'z) dag_scheme" where
  "exec_do v s a = (case exec_step v a s of None \<Rightarrow> s | Some s' \<Rightarrow> s')"

interpretation flow_steps: stepping "exec_do v" exec_inv for v
  by unfold_locales (auto simp: exec_do_def intro: exec_step_inv split: option.split)

lemma exec_run_do: "exec_run v as s = Some s' \<Longrightarrow> s' = foldl (exec_do v) s as"
  by (induction as arbitrary: s) (auto simp: exec_do_def split: option.splits)

lemma exec_run_inv: "exec_inv s \<Longrightarrow> exec_run v as s = Some s' \<Longrightarrow> exec_inv s'"
  using flow_steps.run_inv exec_run_do by blast

text \<open>What no action changes.\<close>

definition same_run :: "('c, 'p, 'z) dag_scheme \<Rightarrow> ('c, 'p, 'z) dag_scheme \<Rightarrow> bool" where
  "same_run s s' \<longleftrightarrow> same_graph (fgraph s) (fgraph s') \<and> slots s' = slots s \<and>
     map fst (tasks s') = map fst (tasks s) \<and> queued_announced s' = queued_announced s \<and>
     dag.more s' = dag.more s"

lemma same_run_refl [simp]: "same_run s s"
  by (simp add: same_run_def)

lemma same_run_trans: "same_run s t \<Longrightarrow> same_run t w \<Longrightarrow> same_run s w"
  by (auto simp: same_run_def dest: same_graph_trans)

lemma own_same_run: "own u s s' \<Longrightarrow> n < length (tasks s) \<Longrightarrow> same_run s (set_pc n p s')"
proof -
  assume o: "own u s s'" and n: "n < length (tasks s)"
  have "map fst ((tasks s)[n := (fst (tasks s ! n), p)]) = map fst (tasks s)"
    using list_update_id[of "map fst (tasks s)" n] n by (simp add: map_update)
  then show "same_run s (set_pc n p s')" using o by (simp add: same_run_def own_def fixed_part_def set_pc_def)
qed

lemma exec_step_run:
  assumes "exec_step v a s = Some s'"
  shows "same_run s s'"
proof (cases a)
  case (Task n ans)
  then have n: "n < length (tasks s)" using assms by (auto simp: exec_step_def split: if_splits)
  obtain u p where "tasks s ! n = (u, p)" by fastforce
  then obtain p' s1 where "task_step v ans u p s = Some (p', s1)" "s' = set_pc n p' s1"
    using assms Task n by (auto simp: exec_step_def)
  then show ?thesis using task_step_ok[of v ans u p s p' s1] n by (auto simp: step_ok_def intro: own_same_run)
next
  case (CancelTask n)
  then have n: "n < length (tasks s)" using assms by (auto simp: exec_step_def split: if_splits)
  obtain u p where "tasks s ! n = (u, p)" by fastforce
  then consider "s' = set_pc n Raised s" | "s' = set_pc n Raised (cancelled u s)"
    using assms CancelTask n by (auto simp: exec_step_def split: if_splits)
  then show ?thesis
    using own_same_run[OF own_refl n] own_same_run[OF own_cancelled[OF own_refl] n] by cases auto
next
  case Sweep
  then have "s' = fold (\<lambda>u. emit_abandoned_terminal u ''cancelled'' False) (queued_announced s) s"
    using assms by (auto simp: exec_step_def cancel_announced_unfinished_def split: if_splits)
  then obtain l where "s' = s\<lparr>progress := l, terminal_emitted := terminal_emitted s \<union> set (queued_announced s)\<rparr>"
    using sweep_frame[of "''cancelled''" "queued_announced s" s] by blast
  then show ?thesis by (simp add: same_run_def)
qed (use assms in \<open>auto simp: exec_step_def same_run_def pause_def resume_def split: option.split\<close>)

lemma exec_run_same: "exec_run v as s = Some s' \<Longrightarrow> same_run s s'"
proof (induction as arbitrary: s)
  case (Cons a as)
  then show ?case by (auto split: option.splits dest: exec_step_run intro: same_run_trans)
qed simp

section \<open>The start\<close>

lemma announce_frame:
  "\<exists>l q. fold announce_queued us s = s\<lparr>queued_announced := q, progress := progress s @ l\<rparr> \<and>
     set q = set (queued_announced s) \<union> set us \<and> list_all (\<lambda>(u, st). st = ''queued'') l"
proof (induction us arbitrary: s)
  case Nil
  show ?case by (intro exI[of _ "queued_announced s"] exI[of _ "[]"]) simp
next
  case (Cons u us)
  let ?q = "if u \<in> set (queued_announced s) then queued_announced s else queued_announced s @ [u]"
  have a: "announce_queued u s = s\<lparr>queued_announced := ?q, progress := progress s @ [(u, ''queued'')]\<rparr>"
    by (simp add: announce_queued_def emit_progress_def)
  from Cons.IH[of "announce_queued u s"] obtain l q where
    "fold announce_queued us (announce_queued u s) = (announce_queued u s)
       \<lparr>queued_announced := q, progress := progress (announce_queued u s) @ l\<rparr>"
    "set q = set (queued_announced (announce_queued u s)) \<union> set us" "list_all (\<lambda>(u, st). st = ''queued'') l"
    by blast
  then have "fold announce_queued (u # us) s =
      s\<lparr>queued_announced := q, progress := progress s @ (u, ''queued'') # l\<rparr>"
    "set q = set (queued_announced s) \<union> set (u # us)" "list_all (\<lambda>(u, st). st = ''queued'') ((u, ''queued'') # l)"
    by (auto simp: a)
  then show ?case by blast
qed

lemma queued_quiet: "list_all (\<lambda>(u, st). st = ''queued'') l \<Longrightarrow> terminals_of u l = 0"
  by (induction u l rule: terminals_of.induct) auto

text \<open>
  A start: the executor built on a consistent graph, its operations and a context, and \<open>execute\<close> past
  its checks.
\<close>

definition starts ::
    "(unit, 'c, 'p) graph \<Rightarrow> (uuid, oper) pydict \<Rightarrow> (string \<times> val) list \<Rightarrow> nat option \<Rightarrow> nat \<Rightarrow> ('c, 'p) dag \<Rightarrow> bool" where
  "starts g os ctx limit depth s \<longleftrightarrow> graph_inv g \<and> execute depth (mk_dag g os ctx limit) = (Inr (), s)"

lemma starts_shape:
  assumes "starts g os ctx limit depth s"
  obtains l q where
    "s = (mk_dag g os ctx limit)\<lparr>queued_announced := q, progress := l, tasks := map (\<lambda>u. (u, Fresh)) (op_ids g os)\<rparr>"
    "set q = set (op_ids g os)" "list_all (\<lambda>(u, st). st = ''queued'') l" "is_acyclic depth g = Inr True"
proof -
  let ?m = "mk_dag g os ctx limit"
  have f: "fgraph ?m = g" "ops ?m = os" "queued_announced ?m = []" "progress ?m = []"
    by (simp_all add: mk_dag_def Let_def)
  have e: "execute depth ?m = (Inr (), s)" using assms by (simp add: starts_def)
  then have "is_acyclic depth g = Inr True"
    by (cases "is_acyclic depth g") (auto simp: execute_def f split: bool.splits)
  moreover from this e have "s = (fold announce_queued (op_ids g os) ?m)\<lparr>tasks := map (\<lambda>u. (u, Fresh)) (op_ids g os)\<rparr>"
    by (simp add: execute_def f Let_def)
  moreover obtain l q where
    "fold announce_queued (op_ids g os) ?m = ?m\<lparr>queued_announced := q, progress := progress ?m @ l\<rparr>"
    "set q = set (queued_announced ?m) \<union> set (op_ids g os)" "list_all (\<lambda>(u, st). st = ''queued'') l"
    using announce_frame[of "op_ids g os" ?m] by blast
  ultimately show thesis using that[of l q] f by simp
qed

lemma dget_map: "dget (map (\<lambda>u. (u, f u)) us) u = (if u \<in> set us then Some (f u) else None)"
  by (induction us) auto

lemma op_ids_known: "u \<in> set (op_ids g os) \<longleftrightarrow> u \<in> verts g \<and> dget os u \<noteq> None"
  by (auto simp: op_ids_def verts_def dget_None_iff)

lemma starts_inv:
  assumes "starts g os ctx limit depth s"
  shows "exec_inv s"
  using assms
proof (rule starts_shape)
  fix l q
  let ?m = "mk_dag g os ctx limit"
  assume s: "s = ?m\<lparr>queued_announced := q, progress := l, tasks := map (\<lambda>u. (u, Fresh)) (op_ids g os)\<rparr>"
    and l: "list_all (\<lambda>(u, st). st = ''queued'') l"
  have g: "graph_inv g" using assms by (simp add: starts_def)
  have "distinct (op_ids g os)"
    using graph_invD(1)[OF g] by (simp add: op_ids_def wf_pile_def pile_keys_def)
  moreover have "map fst (map (\<lambda>u. (u, Fresh)) us) = us" for us :: "uuid list" by (simp add: comp_def)
  moreover have "task_ok s u Fresh" if "u \<in> set (op_ids g os)" for u
    using that by (auto simp: s task_ok_def mk_dag_def Let_def dget_map op_ids_known preset_def terminal_def
        split: option.splits)
  moreover have "slots_taken (map (\<lambda>u. (u, Fresh)) us) = 0" for us
    by (induction us) (simp_all add: slots_taken_def holds_slot_def)
  moreover have "tidy s" using queued_quiet[OF l] by (simp add: s tidy_log_def mk_dag_def Let_def)
  ultimately show ?thesis
    using g unfolding exec_inv_def by (auto simp: s mk_dag_def Let_def)
qed

section \<open>Going on to the end\<close>

text \<open>What an operation may wait for: its predecessors, and the sources of an aggregation.\<close>

definition sources :: "(uuid, oper) pydict \<Rightarrow> uuid \<Rightarrow> val list" where
  "sources os u = (case dget os u of Some op \<Rightarrow> aggregation_sources op | None \<Rightarrow> [])"

definition waits_on :: "('n, 'c, 'p) graph \<Rightarrow> (uuid, oper) pydict \<Rightarrow> (uuid \<times> uuid) set" where
  "waits_on g os = arcs g \<union> {(h, u). VStr (uuid_str h) \<in> set (sources os u)}"

definition indegree :: "('n, 'c, 'p) graph \<Rightarrow> uuid \<Rightarrow> nat" where
  "indegree g u = (case dget (mapping g) u of Some a \<Rightarrow> length (ins a) | None \<Rightarrow> 0)"

text \<open>A bound on the steps a task still has, from the degree of its operation and its sources.\<close>

fun steps_left :: "nat \<Rightarrow> nat \<Rightarrow> pc \<Rightarrow> nat" where
  "steps_left d m Fresh = 2 * d + m + 7"
| "steps_left d m (Checking ks b r) = length ks + m + d + 6"
| "steps_left d m (WaitSources xs) = length xs + d + 5"
| "steps_left d m (WaitPreds hs) = length hs + 4"
| "steps_left d m AtPause = 3"
| "steps_left d m (Paused g) = 4"
| "steps_left d m Acquiring = 2"
| "steps_left d m Invoking = 1"
| "steps_left d m _ = 0"

definition task_bound :: "('n, 'c, 'p) graph \<Rightarrow> (uuid, oper) pydict \<Rightarrow> uuid \<Rightarrow> nat" where
  "task_bound g os u = 2 * indegree g u + length (sources os u) + 7"

fun task_live :: "(uuid, oper) pydict \<Rightarrow> ('c, 'p, 'z) dag_scheme \<Rightarrow> uuid \<Rightarrow> pc \<Rightarrow> bool" where
  "task_live os s u Fresh \<longleftrightarrow> sources (ops s) u = sources os u"
| "task_live os s u (Checking ks b r) \<longleftrightarrow> sources (ops s) u = sources os u \<and> heads s ks \<subseteq> preds s u"
| "task_live os s u (WaitSources xs) \<longleftrightarrow> set xs \<subseteq> set (sources os u)"
| "task_live os s u (WaitPreds hs) \<longleftrightarrow> set hs \<subseteq> preds s u"
| "task_live os s u (Paused g) \<longleftrightarrow> False"
| "task_live os s u Finished \<longleftrightarrow> event_of s u = Some True"
| "task_live os s u Raised \<longleftrightarrow> event_of s u = Some True"
| "task_live os s u _ \<longleftrightarrow> True"

definition live_inv :: "(uuid, oper) pydict \<Rightarrow> ('c, 'p, 'z) dag_scheme \<Rightarrow> bool" where
  "live_inv os s \<longleftrightarrow>
     exec_inv s \<and> pause_event s = None \<and> (\<forall>(u, p) \<in> set (tasks s). task_live os s u p) \<and>
     (\<forall>h. event_of s h \<noteq> None \<longrightarrow> h \<in> fst ` set (tasks s))"

lemma raise_in_ends: "raise_in u x s = (p', s') \<Longrightarrow> ended p'"
  by (auto simp: raise_in_def split: if_splits)

lemma checked_moves:
  assumes "checked u op b r s = (p', s')"
  shows "ended p' \<or> p' = WaitSources (aggregation_sources op) \<and> s' = s"
  using assms by (auto simp: checked_def split: option.splits if_splits)

lemma next_edge_moves:
  assumes "next_edge u op ks b r s = (p', s')"
  shows "ended p' \<or> s' = s \<and> (ks = [] \<and> p' = WaitSources (aggregation_sources op) \<or> p' = Checking ks b r)"
  using assms checked_moves[of u op b r s p' s'] by (auto simp: next_edge_def split: if_splits)

lemma preds_length:
  assumes "graph_inv (fgraph s)" "read_preds u s = (Inr ps, s1)" "u \<in> verts (fgraph s)"
  shows "length ps = indegree (fgraph s) u"
  using assms by (rule read_preds_links) (simp add: indegree_def)

text \<open>Every step of a task brings it nearer to its end.\<close>

lemma task_step_nearer:
  assumes "task_step v ans u p s = Some (p', s')" "pause_event s = None" "task_live os s u p"
    "graph_inv (fgraph s)" "u \<in> verts (fgraph s)"
  defines "w \<equiv> steps_left (indegree (fgraph s) u) (length (sources os u))"
  shows "w p' < w p \<and> (\<not> ended p' \<longrightarrow> task_live os s' u p')"
proof -
  obtain op where op: "dget (ops s) u = Some op" using assms(1) by (auto simp: task_step_def split: option.splits)
  have run: "\<not> ended p" using assms(1) by (auto simp: task_step_def ended_def split: option.splits)
  have w0: "w q = 0" if "ended q" for q using that by (auto simp: ended_def w_def)
  have wp: "0 < w p" using run by (cases p) (simp_all add: w_def)
  have src: "sources (ops s) u = aggregation_sources op" by (simp add: sources_def op)
  show ?thesis
  proof (cases "ended p'")
    case True
    then show ?thesis using w0 wp by simp
  next
    case False
    show ?thesis
    proof (cases p)
      case Fresh
      then have f: "first_step v u op s = (p', s')" using assms(1) op by (simp add: task_step_def)
      have "\<not> terminal (ev_status op)" using f False by (auto simp: first_step_def)
      with f False obtain a where a: "adj_of (fgraph s) u = Inr a"
        by (cases "adj_of (fgraph s) u") (auto simp: first_step_def dest: raise_in_ends)
      then have d: "indegree (fgraph s) u = length (ins a)"
        by (auto simp: indegree_def adj_of_def split: option.splits)
      have "s' = s \<and> (p' = WaitSources (aggregation_sources op) \<or> p' = Checking (dkeys (ins a)) False None)"
        using f a \<open>\<not> terminal (ev_status op)\<close> by (auto simp: first_step_def split: list.splits)
      then show ?thesis
        using assms(3) Fresh src d incoming_heads[OF assms(4) a] by (auto simp: w_def)
    next
      case (Checking ks b r)
      show ?thesis
      proof (cases ks)
        case Nil
        then show ?thesis using assms(1,3) op Checking src False checked_moves[of u op b r s p' s']
          by (auto simp: task_step_def w_def)
      next
        case (Cons k ks')
        then have "check_edge v ans u op k ks' b r s = Some (p', s')"
          using assms(1) op Checking by (simp add: task_step_def)
        then show ?thesis
        proof (cases rule: check_edge_cases)
          case (raises x)
          then show ?thesis using False raise_in_ends[of u x s p' s'] by simp
        next
          case (goes_on e b' r')
          moreover have "heads s ks' \<subseteq> heads s ks" unfolding Cons heads_def by auto
          ultimately show ?thesis using next_edge_moves[of u op ks' b' r' s p' s'] False assms(3) Checking Cons src
            by (auto simp: w_def)
        qed
      qed
    next
      case (WaitSources xs)
      show ?thesis
      proof (cases xs)
        case Nil
        obtain z s1 where rp: "read_preds u s = (z, s1)" by fastforce
        then obtain ps where z: "z = Inr ps"
          using assms(1) op WaitSources Nil False
          by (cases z) (auto simp: task_step_def dest: raise_in_ends)
        then have e: "p' = WaitPreds ps" "s' = s1" using assms(1) op WaitSources Nil rp by (auto simp: task_step_def)
        note rp' = assms(4) rp[unfolded z] assms(5)
        have "preds s1 u = preds s u"
          using same_graph_arcs[OF read_preds_graph[of s u]] rp by simp
        then show ?thesis
          using WaitSources preds_length[OF rp'] read_preds_all[OF rp'] by (simp add: w_def e)
      next
        case (Cons x xs')
        then show ?thesis using assms(1,3) op WaitSources
          by (auto simp: task_step_def wait_source_def w_def split: option.splits if_splits)
      qed
    next
      case (WaitPreds hs)
      then show ?thesis using assms(1,3) op False
        by (auto simp: task_step_def wait_pred_def w_def dest: raise_in_ends
            split: list.splits option.splits bool.splits)
    next
      case AtPause
      then show ?thesis using assms(1,2) op by (auto simp: task_step_def w_def)
    next
      case Acquiring
      then have "p' = Invoking" using assms(1) op False
        by (auto simp: task_step_def start_op_def Let_def dest: raise_in_ends
            split: prod.splits sum.splits if_splits)
      then show ?thesis using Acquiring by (simp add: w_def)
    next
      case Invoking
      then show ?thesis using assms(1) op False
        by (auto simp: task_step_def finish_op_def Let_def dest: raise_in_ends
            split: answer.splits prod.splits sum.splits)
    qed (use run assms(3) in auto)
  qed
qed

lemma sum_list_update_less:
  fixes f :: "'a \<Rightarrow> nat"
  assumes "n < length xs" "f y < f (xs ! n)"
  shows "(\<Sum>x \<leftarrow> xs[n := y]. f x) < (\<Sum>x \<leftarrow> xs. f x)"
  using assms
proof (induction xs arbitrary: n)
  case (Cons x xs)
  then show ?case by (cases n) auto
qed simp

definition total_left :: "(uuid, oper) pydict \<Rightarrow> ('c, 'p, 'z) dag_scheme \<Rightarrow> nat" where
  "total_left os s =
     (\<Sum>(u, p) \<leftarrow> tasks s. steps_left (indegree (fgraph s) u) (length (sources os u)) p)"

lemma task_live_ended: "ended p \<Longrightarrow> task_live os s u p \<longleftrightarrow> event_of s u = Some True"
  by (auto simp: ended_def)

lemma task_live_cong:
  assumes "event_of s' u = event_of s u" "dget (ops s') u = dget (ops s) u" "same_graph (fgraph s) (fgraph s')"
  shows "task_live os s' u p = task_live os s u p"
  using assms same_graph_arcs[OF assms(3)] by (cases p) (simp_all add: sources_def heads_def)

lemma live_step:
  assumes "live_inv os s" "exec_step v (Task n ans) s = Some s'"
  shows "live_inv os s' \<and> total_left os s' < total_left os s"
proof -
  have inv: "exec_inv s" and pz: "pause_event s = None"
    and live: "\<And>u p. (u, p) \<in> set (tasks s) \<Longrightarrow> task_live os s u p"
    and known: "\<And>h. event_of s h \<noteq> None \<Longrightarrow> h \<in> fst ` set (tasks s)"
    using assms(1) by (auto simp: live_inv_def)
  note I = exec_invD[OF inv]
  have n: "n < length (tasks s)" using assms(2) by (auto simp: exec_step_def split: if_splits)
  obtain u p where t: "tasks s ! n = (u, p)" by fastforce
  then obtain p' s1 where st: "task_step v ans u p s = Some (p', s1)" and s': "s' = set_pc n p' s1"
    using assms(2) n by (auto simp: exec_step_def)
  have mem: "(u, p) \<in> set (tasks s)" using nth_mem[OF n] by (simp only: t)
  have ok: "task_ok s u p" by (rule I(3)[OF mem])
  then have u: "u \<in> verts (fgraph s)" "event_of s u \<noteq> None" by (simp_all add: task_ok_def)
  have sk: "own u s s1" "ended p' \<Longrightarrow> event_of s1 u = Some True"
    using task_step_ok[OF st] by (simp_all add: step_ok_def)
  then have f: "tasks s1 = tasks s" "pause_event s1 = None" "same_graph (fgraph s) (fgraph s1)"
    using pz by (simp_all add: own_def fixed_part_def)
  have ts: "tasks s' = (tasks s)[n := (u, p')]" using t f(1) by (simp add: s' set_pc_def)
  have near: "steps_left (indegree (fgraph s) u) (length (sources os u)) p'
      < steps_left (indegree (fgraph s) u) (length (sources os u)) p"
    "\<not> ended p' \<Longrightarrow> task_live os s1 u p'"
    using task_step_nearer[OF st pz live[OF mem] I(1) u(1)] by auto
  have cong: "task_live os s' w q = task_live os s1 w q" "event_of s' w = event_of s1 w" for w q
    by (rule task_live_cong) (simp_all add: s' set_pc_def)
  have "task_live os s' w q" if wq: "(w, q) \<in> set (tasks s')" for w q
  proof -
    from wq[unfolded ts in_set_conv_nth] obtain m where
      m: "m < length (tasks s)" "(tasks s)[n := (u, p')] ! m = (w, q)" by auto
    show ?thesis
    proof (cases "m = n")
      case True
      then show ?thesis using m n near(2) sk(2) by (cases "ended p'") (auto simp: cong task_live_ended)
    next
      case False
      then have q: "tasks s ! m = (w, q)" using m by simp
      then have "w \<noteq> u" using n m(1) False t nth_eq_iff_index_eq[OF I(2), of m n] by auto
      moreover have "(w, q) \<in> set (tasks s)" using nth_mem[OF m(1)] by (simp only: q)
      ultimately show ?thesis
        using live own_others[OF sk(1)] task_live_cong[OF _ _ f(3), of w os q] by (simp add: cong)
    qed
  qed
  moreover have "h \<in> fst ` set (tasks s')" if "event_of s' h \<noteq> None" for h
  proof -
    have "event_of s h \<noteq> None" using that cong(2)[of h] own_others[OF sk(1), of h] u(2) by (cases "h = u") auto
    then have "h \<in> fst ` set (tasks s)" by (rule known)
    moreover have "map fst (tasks s') = map fst (tasks s)"
      using exec_step_run[OF assms(2)] by (simp add: same_run_def)
    ultimately show ?thesis by (metis list.set_map)
  qed
  moreover have "exec_inv s'" by (rule exec_step_inv[OF inv assms(2)])
  moreover have "pause_event s' = None" using f by (simp add: s' set_pc_def)
  ultimately have "live_inv os s'" by (auto simp: live_inv_def)
  moreover have "total_left os s' < total_left os s"
  proof -
    have "indegree (fgraph s') w = indegree (fgraph s) w" for w
      using f(3) by (simp add: s' set_pc_def indegree_def same_graph_def)
    then show ?thesis unfolding total_left_def ts using near(1) t
      by (simp) (rule sum_list_update_less[OF n], simp)
  qed
  ultimately show ?thesis ..
qed

lemma live_run:
  "live_inv os s \<Longrightarrow> exec_run v (map (\<lambda>(n, ans). Task n ans) as) s = Some s' \<Longrightarrow>
   live_inv os s' \<and> length as + total_left os s' \<le> total_left os s"
proof (induction as arbitrary: s)
  case (Cons a as)
  obtain n ans where a: "a = (n, ans)" by fastforce
  with Cons.prems(2) obtain s1 where s1: "exec_step v (Task n ans) s = Some s1"
    "exec_run v (map (\<lambda>(n, ans). Task n ans) as) s1 = Some s'" by (auto split: option.splits)
  then show ?case using live_step[OF Cons.prems(1) s1(1)] Cons.IH[OF _ s1(2)] by fastforce
qed simp

text \<open>A task is held up only by an operation it waits for, or by a full limiter.\<close>

lemma task_enabled:
  assumes "live_inv os s" "(u, p) \<in> set (tasks s)" "\<not> ended p"
    and before: "\<And>h q. (h, u) \<in> waits_on (fgraph s) os \<Longrightarrow> (h, q) \<in> set (tasks s) \<Longrightarrow> ended q"
  shows "(\<exists>ans. task_step v ans u p s \<noteq> None) \<or> p = Acquiring \<and> \<not> borrowed s < slots s"
proof -
  have inv: "exec_inv s" and pz: "pause_event s = None"
    and live: "\<And>u p. (u, p) \<in> set (tasks s) \<Longrightarrow> task_live os s u p"
    and known: "\<And>h. event_of s h \<noteq> None \<Longrightarrow> h \<in> fst ` set (tasks s)"
    using assms(1) by (auto simp: live_inv_def)
  have set: "event_of s h \<noteq> Some False" if "(h, u) \<in> waits_on (fgraph s) os" for h
  proof
    assume e: "event_of s h = Some False"
    then have "h \<in> fst ` set (tasks s)" using known by simp
    then obtain q where q: "(h, q) \<in> set (tasks s)" by auto
    with before[OF that] have "event_of s h = Some True" using live[OF q] by (simp add: task_live_ended)
    with e show False by simp
  qed
  obtain op where op: "dget (ops s) u = Some op"
    using exec_invD(3)[OF inv assms(2)] by (auto simp: task_ok_def)
  show ?thesis
  proof (cases p)
    case (Checking ks b r)
    show ?thesis
    proof (cases ks)
      case (Cons k ks')
      have "check_edge v (Verdict (\<lambda>_. Inr True)) u op k ks' b r s \<noteq> None"
      proof (cases "edge_at (fgraph s) k")
        case (Inr e)
        have "ehead (ebody e) \<in> preds s u"
          using live[OF assms(2)] edge_at_head[OF exec_invD(1)[OF inv] Inr, of ks'] Checking Cons by auto
        then have "event_of s (ehead (ebody e)) \<noteq> Some False" by (intro set) (auto simp: waits_on_def)
        then show ?thesis by (auto simp: check_edge_def Inr Let_def split: option.split)
      qed (simp add: check_edge_def)
      then show ?thesis using op Checking Cons by (auto simp: task_step_def)
    qed (use op Checking in \<open>auto simp: task_step_def\<close>)
  next
    case (WaitSources xs)
    show ?thesis
    proof (cases xs)
      case Nil
      then show ?thesis using op WaitSources by (auto simp: task_step_def split: prod.split sum.split)
    next
      case (Cons x xs')
      have "wait_source x xs' s \<noteq> None"
      proof (cases "find (\<lambda>u. VStr (uuid_str u) = x) (dkeys (completion_events s))")
        case (Some h)
        then have h: "VStr (uuid_str h) = x" "event_of s h \<noteq> None"
          by (auto simp: find_Some_iff dget_None_iff)
        then have "(h, u) \<in> waits_on (fgraph s) os"
          using live[OF assms(2)] WaitSources Cons by (auto simp: waits_on_def)
        then have "event_of s h = Some True" using set[of h] h(2) by auto
        then show ?thesis by (simp add: wait_source_def Some)
      qed (simp add: wait_source_def)
      then show ?thesis using op WaitSources Cons by (auto simp: task_step_def)
    qed
  next
    case (WaitPreds hs)
    show ?thesis
    proof (cases hs)
      case (Cons h hs')
      then have "event_of s h \<noteq> Some False"
        using live[OF assms(2)] WaitPreds by (intro set) (auto simp: waits_on_def)
      then have "wait_pred v u h hs' s \<noteq> None" by (auto simp: wait_pred_def split: option.split bool.split)
      then show ?thesis using op WaitPreds Cons by (auto simp: task_step_def)
    qed (use op WaitPreds in \<open>auto simp: task_step_def\<close>)
  next
    case Invoking
    then have "task_step v (Outcome 0 0 (Inr VNone)) u p s \<noteq> None" using op by (simp add: task_step_def)
    then show ?thesis by blast
  qed (use op pz live[OF assms(2)] assms(3) in \<open>auto simp: task_step_def\<close>)
qed

lemma taken_invoking:
  "0 < slots_taken ts \<Longrightarrow> \<exists>w. (w, Invoking) \<in> set ts"
  by (induction ts) (auto simp: slots_taken_def holds_slot_def split: if_splits)

text \<open>On an acyclic relation some unfinished operation waits for no unfinished one.\<close>

lemma first_unfinished:
  assumes "acyclic R" "(u0, p0) \<in> set ts" "\<not> ended p0"
  obtains u p where "(u, p) \<in> set ts" "\<not> ended p" "\<And>h q. (h, u) \<in> R \<Longrightarrow> (h, q) \<in> set ts \<Longrightarrow> ended q"
proof -
  define U where "U = {u. \<exists>p. (u, p) \<in> set ts \<and> \<not> ended p}"
  have fin: "finite U" by (rule finite_subset[of _ "fst ` set ts"]) (force simp: U_def)+
  have "wf (R \<inter> U \<times> U)"
    using fin assms(1) by (intro finite_acyclic_wf) (auto intro: acyclic_subset)
  moreover have "u0 \<in> U" using assms(2,3) by (auto simp: U_def)
  ultimately obtain u where u: "u \<in> U" "\<And>h. (h, u) \<in> R \<inter> U \<times> U \<Longrightarrow> h \<notin> U"
    by (metis wfE_min)
  then obtain p where "(u, p) \<in> set ts" "\<not> ended p" by (auto simp: U_def)
  then show thesis using u by (intro that) (auto simp: U_def)
qed

lemma live_progress:
  assumes "live_inv os s" "acyclic (waits_on (fgraph s) os)" "0 < slots s"
    "(u0, p0) \<in> set (tasks s)" "\<not> ended p0"
  shows "\<exists>n ans. exec_step v (Task n ans) s \<noteq> None"
proof -
  have inv: "exec_inv s" using assms(1) by (simp add: live_inv_def)
  have enabled: "\<exists>n. exec_step v (Task n ans) s \<noteq> None"
    if mem: "(u, p) \<in> set (tasks s)" and st: "task_step v ans u p s \<noteq> None" for u p ans
  proof -
    from mem obtain n where n: "n < length (tasks s)" "tasks s ! n = (u, p)" by (auto simp: in_set_conv_nth)
    then show ?thesis using st by (intro exI[of _ n]) (auto simp: exec_step_def)
  qed
  from first_unfinished[OF assms(2,4,5)] obtain u p where
    u: "(u, p) \<in> set (tasks s)" "\<not> ended p"
      "\<And>h q. (h, u) \<in> waits_on (fgraph s) os \<Longrightarrow> (h, q) \<in> set (tasks s) \<Longrightarrow> ended q" by metis
  from task_enabled[OF assms(1) u, where v = v] show ?thesis
  proof
    assume "\<exists>ans. task_step v ans u p s \<noteq> None"
    then show ?thesis using enabled[OF u(1)] by blast
  next
    assume "p = Acquiring \<and> \<not> borrowed s < slots s"
    then have "0 < slots_taken (tasks s)" using assms(3) exec_invD(5)[OF inv] by simp
    then obtain w where w: "(w, Invoking) \<in> set (tasks s)" using taken_invoking by blast
    then have "task_step v (Outcome 0 0 (Inr VNone)) w Invoking s \<noteq> None"
      using exec_invD(3)[OF inv w] by (auto simp: task_ok_def task_step_def)
    then show ?thesis using enabled[OF w] by blast
  qed
qed

lemma starts_fields:
  assumes "starts g os ctx limit depth s"
  shows "fgraph s = g" "ops s = os" "slots s = (case limit of Some n \<Rightarrow> n | None \<Rightarrow> unlimited_concurrency)"
    "tasks s = map (\<lambda>u. (u, Fresh)) (op_ids g os)" "set (queued_announced s) = set (op_ids g os)"
    "pause_event s = None" "is_acyclic depth g = Inr True"
    "event_of s u \<noteq> None \<Longrightarrow> u \<in> set (op_ids g os)"
  using assms
  by (rule starts_shape; simp add: mk_dag_def Let_def dget_map split: if_splits)+

lemma starts_live:
  assumes "starts g os ctx limit depth s"
  shows "live_inv os s" "total_left os s = (\<Sum>u \<leftarrow> op_ids g os. task_bound g os u)"
proof -
  note f = starts_fields[OF assms]
  show "live_inv os s"
    using starts_inv[OF assms] f(8) by (auto simp: live_inv_def f(2,4,6) image_image)
  show "total_left os s = (\<Sum>u \<leftarrow> op_ids g os. task_bound g os u)"
    by (simp add: total_left_def f(1,4) comp_def task_bound_def)
qed

lemma flow_runs_on:
  assumes "starts g os ctx limit depth s0" "acyclic (waits_on g os)" "limit \<noteq> Some 0"
    and "exec_run v (map (\<lambda>(n, ans). Task n ans) moves) s0 = Some s"
  shows "length moves \<le> (\<Sum>u \<leftarrow> op_ids g os. task_bound g os u) \<and>
    ((\<exists>n ans. exec_step v (Task n ans) s \<noteq> None) \<or>
     (\<forall>(u, p) \<in> set (tasks s). ended p \<and> dget (completion_events s) u = Some True))"
proof -
  note f = starts_fields[OF assms(1)]
  have live: "live_inv os s" and len: "length moves + total_left os s \<le> total_left os s0"
    using live_run[OF starts_live(1)[OF assms(1)] assms(4)] by simp_all
  have r: "same_run s0 s" using exec_run_same[OF assms(4)] .
  then have "waits_on (fgraph s) os = waits_on g os"
    using same_graph_arcs by (auto simp: same_run_def f(1) waits_on_def)
  moreover have "0 < slots s" using r assms(3)
    by (cases limit) (auto simp: same_run_def f(3) unlimited_concurrency_def)
  ultimately have "(\<exists>n ans. exec_step v (Task n ans) s \<noteq> None) \<or> (\<forall>(u, p) \<in> set (tasks s). ended p)"
    using live_progress[OF live] assms(2) by fastforce
  moreover have "event_of s u = Some True" if "(u, p) \<in> set (tasks s)" "ended p" for u p
    using live that task_live_ended[of p os s u] by (auto simp: live_inv_def)
  ultimately show ?thesis using len starts_live(2)[OF assms(1)] by auto
qed

text \<open>
  C4. A flow comes to its end.  On operations whose dependencies (edges and aggregation sources) have
  no cycle, with at least one slot, a run in which nobody pauses or cancels makes at most
  \<open>task_bound\<close> steps for each operation, and until every task has ended, with its completion event set,
  some task can take a step: whatever user code answers or raises, the executor never deadlocks.
\<close>

theorem flow_completes:
  assumes "starts g os ctx limit depth s0" "acyclic (waits_on g os)" "limit \<noteq> Some 0"
    and "exec_run v (map (\<lambda>(n, ans). Task n ans) moves) s0 = Some s"
  shows "length moves \<le> (\<Sum>u \<leftarrow> op_ids g os. task_bound g os u) \<and>
    ((\<exists>n ans. exec_step v (Task n ans) s \<noteq> None) \<or>
     (\<forall>(u, p) \<in> set (tasks s). ended p \<and> dget (completion_events s) u = Some True))"
  using assms by (rule flow_runs_on)

text \<open>
  C7. Signals and slots.  In every reachable state of the executor an operation has had at most one
  terminal signal, and no more operations are inside \<open>invoke\<close> than the limiter has slots.  Once the
  sweep that follows a cancelled run is done, every operation announced as queued has had exactly one.
\<close>

theorem one_terminal_signal:
  assumes "starts g os ctx limit depth s0" "exec_run v as s0 = Some s"
  shows "(\<forall>u. terminals_of u (progress s) \<le> 1) \<and>
    length (filter (\<lambda>(u, p). p = Invoking) (tasks s)) \<le> slots s0 \<and>
    (\<forall>s' u. exec_step v Sweep s = Some s' \<longrightarrow> u \<in> set (op_ids g os) \<longrightarrow> terminals_of u (progress s') = 1)"
proof (intro conjI allI impI)
  have inv: "exec_inv s" using starts_inv[OF assms(1)] assms(2) by (rule exec_run_inv)
  note I = exec_invD[OF inv]
  show "terminals_of u (progress s) \<le> 1" for u using I(7) by (simp add: tidy_log_def)
  have "length (filter (\<lambda>(u, p). p = Invoking) ts) = slots_taken ts" for ts
    by (induction ts) (auto simp: slots_taken_def holds_slot_def)
  then show "length (filter (\<lambda>(u, p). p = Invoking) (tasks s)) \<le> slots s0"
    using I(5,6) exec_run_same[OF assms(2)] by (simp add: same_run_def)
  fix s' u assume sw: "exec_step v Sweep s = Some s'" and u: "u \<in> set (op_ids g os)"
  have "exec_inv s'" by (rule exec_step_inv[OF inv sw])
  then have t: "tidy s'" by (rule exec_invD(7))
  have "s' = fold (\<lambda>u. emit_abandoned_terminal u ''cancelled'' False) (queued_announced s) s"
    using sw by (auto simp: exec_step_def cancel_announced_unfinished_def split: if_splits)
  then have "terminal_emitted s' = terminal_emitted s \<union> set (queued_announced s)"
    using sweep_frame[of "''cancelled''" "queued_announced s" s] by auto
  then have "u \<in> terminal_emitted s'"
    using u starts_fields(5)[OF assms(1)] exec_run_same[OF assms(2)] by (simp add: same_run_def)
  then show "terminals_of u (progress s') = 1" using t by (simp add: tidy_log_def)
qed

section \<open>Examples\<close>

definition ex_env :: env where
  "ex_env = \<lparr>to_dict = (\<lambda>x. x), raised = (\<lambda>e. Exc ''KeyError'' [] True), str_of = (\<lambda>x. []), format_ts = (\<lambda>x. [])\<rparr>"

definition ex_op :: "uuid \<Rightarrow> (string \<times> val meta) list \<Rightarrow> oper" where
  "ex_op u ms = (create_operation u 0 ''chat'' [])\<lparr>metadata := ms\<rparr>"

text \<open>A gate 1, its dependent 2, and 3 below 2.\<close>

definition ex_graph :: "(unit, unit, unit) graph" where
  "ex_graph = run_graph [ex_node 1, ex_node 2, ex_node 3, ex_edge 5 1 2, ex_edge 6 2 3]"

definition ex_ops :: "(uuid, oper) pydict" where
  "ex_ops = [(1, ex_op 1 [(''is_gate'', MetaVal (VBool True))]), (2, ex_op 2 []), (3, ex_op 3 [])]"

definition ex_start :: "(unit, unit) dag" where
  "ex_start = snd (execute 10 (mk_dag ex_graph ex_ops [] (Some 1)))"


text \<open>The steps of a task with no incoming edge, and of one with a single edge, that runs and answers \<open>r\<close>.\<close>

definition ex_root :: "nat \<Rightarrow> exc + val \<Rightarrow> (nat \<times> answer) list" where
  "ex_root n r = replicate 5 (n, Silent) @ [(n, Outcome 0 0 r)]"

definition ex_below :: "nat \<Rightarrow> exc + val \<Rightarrow> (nat \<times> answer) list" where
  "ex_below n r = replicate 7 (n, Silent) @ [(n, Outcome 0 0 r)]"

definition ex_run :: "(nat \<times> answer) list \<Rightarrow> (unit, unit) dag \<Rightarrow> (unit, unit) dag option" where
  "ex_run moves = exec_run ex_env (map (\<lambda>(n, ans). Task n ans) moves)"

lemma ex_starts: "starts ex_graph ex_ops [] (Some 1) 10 ex_start"
proof -
  have "fst (execute 10 (mk_dag ex_graph ex_ops [] (Some 1))) = Inr ()" by code_simp
  moreover have "graph_inv ex_graph" unfolding ex_graph_def by (rule run_graph_inv)
  ultimately show ?thesis by (simp add: starts_def ex_start_def prod_eq_iff)
qed

lemma ex_acyclic: "acyclic (waits_on ex_graph ex_ops)"
proof -
  have "card (set (pile_keys (nodes ex_graph))) < 10" by code_simp
  then have "is_acyclic 10 ex_graph = Inr (acyclic (arcs ex_graph))"
    using is_acyclic_spec[of ex_graph 10] ex_starts unfolding starts_def verts_def cyclic_acyclic by simp
  then have "acyclic (arcs ex_graph)" using starts_fields(7)[OF ex_starts] by simp
  moreover have "sources ex_ops u = []" for u
    by (simp add: sources_def ex_ops_def ex_op_def create_operation_def aggregation_sources_def meta_def)
  ultimately show ?thesis by (simp add: waits_on_def)
qed

theorem flow_completes_witness:
  "\<exists>s. ex_run (ex_root 0 (Inr VNone)) ex_start = Some s \<and> (\<exists>n ans. exec_step ex_env (Task n ans) s \<noteq> None)"
proof -
  let ?moves = "ex_root 0 (Inr VNone)"
  have "map_option (\<lambda>s. map snd (tasks s)) (ex_run ?moves ex_start) = Some [Finished, Fresh, Fresh]" by code_simp
  then obtain s where s: "ex_run ?moves ex_start = Some s" "map snd (tasks s) = [Finished, Fresh, Fresh]" by auto
  then have "exec_run ex_env (map (\<lambda>(n, ans). Task n ans) ?moves) ex_start = Some s" by (simp add: ex_run_def)
  from flow_completes[OF ex_starts ex_acyclic _ this]
  have "(\<exists>n ans. exec_step ex_env (Task n ans) s \<noteq> None) \<or> (\<forall>p \<in> set (map snd (tasks s)). ended p)" by auto
  then show ?thesis using s by simp
qed

theorem one_terminal_signal_witness:
  "map_option (\<lambda>s. terminals_of 1 (progress s) \<le> 1) (ex_run (ex_root 0 (Inr VNone)) ex_start) = Some True"
proof -
  let ?as = "map (\<lambda>(n, ans). Task n ans) (ex_root 0 (Inr VNone))"
  have "exec_run ex_env ?as ex_start \<noteq> None" by code_simp
  then obtain s where s: "exec_run ex_env ?as ex_start = Some s" by auto
  show ?thesis using one_terminal_signal[OF ex_starts s] by (simp add: ex_run_def s)
qed

text \<open>A rejecting gate: the operations below it are skipped, directly and through one another.\<close>

definition ex_reject :: val where
  "ex_reject = VDict [(''gate_verdict'', VStr '' Reject'')]"

lemma rejected_gate_skips:
  "map_option (\<lambda>s. (map snd (tasks s), 2 \<in> skipped s, 3 \<in> skipped s, dkeys (skip_reasons s)))
     (ex_run (ex_root 0 (Inr ex_reject) @ [(1, Silent), (1, Silent), (2, Silent), (2, Silent)]) ex_start)
   = Some ([Finished, Finished, Finished], True, True, [2, 3])"
  by code_simp

text \<open>
  An edge condition that raises ends the operation before the veto of a gate on a later edge is seen:
  the operation fails without a skip reason, and what depends on it runs although a gate above rejected.
  It also gets no terminal signal, having been announced as queued.
\<close>

definition ex_raising :: "(unit, unit, unit) graph" where
  "ex_raising = run_graph [ex_node 1, ex_node 2, ex_node 3, ex_node 4,
     GAddEdge (Elem 7 edge_mro \<lparr>ehead = 4, etail = 2, econd = Some (), elabel = None, eprops = ()\<rparr>),
     ex_edge 5 1 2, ex_edge 6 2 3]"

lemma veto_lost_at_error:
  "map_option (\<lambda>s. (map snd (tasks s), dkeys (gate_rejections s) = [1], 2 \<in> failed s, 3 \<in> started s,
       terminals_of 2 (progress s)))
     (ex_run (ex_root 0 (Inr ex_reject) @ ex_root 3 (Inr VNone) @
              [(1, Silent), (1, Verdict (\<lambda>_. Inl (Exc ''ValueError'' [] True)))] @ ex_below 2 (Inr VNone))
       (snd (execute 10 (mk_dag ex_raising (ex_ops @ [(4, ex_op 4 [])]) [] (Some 1)))))
   = Some ([Finished, Finished, Finished, Finished], True, True, True, 0)"
  by code_simp

text \<open>
  A resumed run.  A gate that rejected in an earlier attempt is already COMPLETED, its verdict is not read
  again and its dependents run; an operation already SKIPPED opens the paths below it.
\<close>

definition ex_resumed :: "event_status \<Rightarrow> val \<Rightarrow> (uuid, oper) pydict" where
  "ex_resumed st r =
     map (\<lambda>(u, op). (u, if u = 1 then on_execution (\<lambda>ex. ex\<lparr>status := st, response := Some r\<rparr>) op else op)) ex_ops"

lemma resume_forgets_gate:
  "map_option (\<lambda>s. (2 \<in> started s, dkeys (gate_rejections s)))
     (ex_run ((0, Silent) # ex_below 1 (Inr VNone))
       (snd (execute 10 (mk_dag ex_graph (ex_resumed COMPLETED ex_reject) [] (Some 1))))) = Some (True, [])"
  by code_simp

lemma resume_opens_skipped:
  "map_option (\<lambda>s. (2 \<in> started s, progress s ! 3))
     (ex_run ((0, Silent) # ex_below 1 (Inr VNone))
       (snd (execute 10 (mk_dag ex_graph (ex_resumed SKIPPED VNone) [] (Some 1))))) = Some (True, (1, ''skipped''))"
  by code_simp

end
