(* ===== verification/Flow_Veto.thy ===== *)
theory Flow_Veto
  imports Flow_Run
begin

text \<open>
  Gates of the flow executor (\<open>lionagi/operations/flow.py\<close>), seen from the operations themselves.

  A gate that has completed with a rejecting verdict vetoes, and so does an operation that was skipped
  below something that vetoes (\<open>vetoed\<close>): this is read off the statuses and results of the operations
  and the edges of the graph, not off the dicts in which the executor keeps track.  Operations that
  were terminal before the run are left out, because the executor does not read them again
  (\<open>resume_forgets_gate\<close>).  The lemmas show that the executor's own records (\<open>gate_rejections\<close>,
  \<open>skip_reasons\<close>) miss no veto, so that nothing is started below one.
\<close>

section \<open>Vetoes\<close>

definition reject_verdict :: "env \<Rightarrow> oper \<Rightarrow> bool" where
  "reject_verdict v op \<longleftrightarrow>
     (case as_plain v (case response (execution op) of Some r \<Rightarrow> r | None \<Rightarrow> VNone) of
        VDict d \<Rightarrow>
          (case dget d ''gate_verdict'' of
             Some (VStr t) \<Rightarrow> map lower (strip t) = ''reject''
           | _ \<Rightarrow> False)
      | _ \<Rightarrow> False)"

text \<open>A gate that completed with the verdict to reject.\<close>

definition rejecting :: "env \<Rightarrow> oper \<Rightarrow> bool" where
  "rejecting v op \<longleftrightarrow> ev_status op = COMPLETED \<and> truthy (meta ''is_gate'' op) \<and> reject_verdict v op"

text \<open>The operation was still to be run when the executor was made.\<close>

definition open_at_start :: "(uuid, oper) pydict \<Rightarrow> uuid \<Rightarrow> bool" where
  "open_at_start os u \<longleftrightarrow> (case dget os u of Some op \<Rightarrow> \<not> terminal (ev_status op) | None \<Rightarrow> False)"

inductive vetoed :: "env \<Rightarrow> (uuid, oper) pydict \<Rightarrow> ('c, 'p, 'z) dag_scheme \<Rightarrow> uuid \<Rightarrow> bool"
  for v os s where
    gate: "open_at_start os h \<Longrightarrow> dget (ops s) h = Some op \<Longrightarrow> rejecting v op \<Longrightarrow> vetoed v os s h"
  | below: "open_at_start os u \<Longrightarrow> dget (ops s) u = Some op \<Longrightarrow> ev_status op = SKIPPED \<Longrightarrow>
      (h, u) \<in> arcs (fgraph s) \<Longrightarrow> vetoed v os s h \<Longrightarrow> vetoed v os s u"

section \<open>What the executor records\<close>

text \<open>A rejecting gate is recorded; a skipped operation has a skip reason, or nothing above it vetoed.\<close>

definition told :: "env \<Rightarrow> ('c, 'p, 'z) dag_scheme \<Rightarrow> uuid \<Rightarrow> bool" where
  "told v s u \<longleftrightarrow> (\<forall>op. dget (ops s) u = Some op \<longrightarrow> rejecting v op \<longrightarrow> dget (gate_rejections s) u \<noteq> None)"

definition skipped_now :: "('c, 'p, 'z) dag_scheme \<Rightarrow> uuid \<Rightarrow> bool" where
  "skipped_now s u \<longleftrightarrow> (\<exists>op. dget (ops s) u = Some op \<and> ev_status op = SKIPPED)"

definition excused :: "('c, 'p, 'z) dag_scheme \<Rightarrow> uuid \<Rightarrow> bool" where
  "excused s u \<longleftrightarrow> (skipped_now s u \<longrightarrow> dget (skip_reasons s) u \<noteq> None \<or> clear s u)"

text \<open>The fields these read, for one operation.\<close>

definition mark :: "uuid \<Rightarrow> ('c, 'p, 'z) dag_scheme \<Rightarrow> oper option \<times> veto option \<times> veto option" where
  "mark u s = (dget (ops s) u, dget (gate_rejections s) u, dget (skip_reasons s) u)"

lemma mark_simps [simp]:
  "mark u (put_result w r s) = mark u s" "mark u (set_event w s) = mark u s"
  "mark u (emit_progress w st s) = mark u s" "mark u (emit_terminal_once w st s) = mark u s"
  "mark u (emit_abandoned_terminal w st b s) = mark u s" "mark u (release s) = mark u s"
  "mark u (set_pc n p s) = mark u s"
  by (simp_all add: mark_def put_result_def set_event_def emit_progress_def emit_terminal_once_def
      emit_abandoned_terminal_def release_def set_pc_def)

lemma mark_fields [simp]:
  "mark u (s\<lparr>failed := A\<rparr>) = mark u s" "mark u (s\<lparr>prefailed := A\<rparr>) = mark u s"
  "mark u (s\<lparr>failed := A, prefailed := B\<rparr>) = mark u s" "mark u (s\<lparr>skipped := A\<rparr>) = mark u s"
  "mark u (s\<lparr>flow_ctx := c\<rparr>) = mark u s" "mark u (s\<lparr>borrowed := n\<rparr>) = mark u s"
  "mark u (s\<lparr>bus := b\<rparr>) = mark u s" "mark u (s\<lparr>started := A\<rparr>) = mark u s"
  "mark u (s\<lparr>fgraph := g\<rparr>) = mark u s" "mark u (s\<lparr>progress := l, terminal_emitted := A\<rparr>) = mark u s"
  by (simp_all add: mark_def)

lemma set_pc_fields [simp]:
  "fgraph (set_pc n p s) = fgraph s" "completion_events (set_pc n p s) = completion_events s"
  "gate_rejections (set_pc n p s) = gate_rejections s" "skip_reasons (set_pc n p s) = skip_reasons s"
  by (simp_all add: set_pc_def)

lemma ops_set_event [simp]: "ops (set_event w s) = ops s"
  by (simp add: set_event_def)

lemma mark_put_op: "mark u (put_op u op s) = (Some op, snd (mark u s))"
  by (simp add: mark_def put_op_def)

lemma told_mark: "mark u s' = mark u s \<Longrightarrow> told v s' u = told v s u"
  by (simp add: told_def mark_def)

lemma skipped_mark: "mark u s' = mark u s \<Longrightarrow> skipped_now s' u = skipped_now s u"
  by (simp add: skipped_now_def mark_def)

text \<open>
  What a change by the task of \<open>u\<close> may do to its marks: a rejection is recorded with it, and whoever is
  skipped now was so before, with the same reason, or has a reason.
\<close>

definition faithful :: "env \<Rightarrow> uuid \<Rightarrow> ('c, 'p, 'z) dag_scheme \<Rightarrow> ('c, 'p, 'z) dag_scheme \<Rightarrow> bool" where
  "faithful v u s s' \<longleftrightarrow>
     (told v s u \<longrightarrow> told v s' u) \<and>
     (skipped_now s' u \<longrightarrow> dget (skip_reasons s') u \<noteq> None \<or>
        skipped_now s u \<and> dget (skip_reasons s') u = dget (skip_reasons s) u)"

lemma faithful_mark: "mark u s' = mark u s \<Longrightarrow> faithful v u s s'"
  using told_mark[of u s' s v] skipped_mark[of u s' s] by (simp add: faithful_def) (simp add: mark_def)

lemma faithful_status:
  assumes "dget (ops s') u = Some op" "ev_status op \<notin> {COMPLETED, SKIPPED}"
  shows "faithful v u s s'"
  using assms by (auto simp: faithful_def told_def skipped_now_def rejecting_def)

lemma faithful_cancelled: "faithful v u s (cancelled u s)"
proof (cases "dget (ops s) u")
  case None
  then have "mark u (cancelled u s) = mark u s"
    by (simp add: cancelled_def Let_def)
  then show ?thesis by (rule faithful_mark)
next
  case (Some op)
  show ?thesis
  proof (cases "terminal (ev_status op)")
    case True
    then have "mark u (cancelled u s) = mark u s"
      using Some by (simp add: cancelled_def Let_def)
    then show ?thesis by (rule faithful_mark)
  next
    case False
    have "mark u (cancelled u s) =
        (Some (on_execution (\<lambda>ex. ex\<lparr>status := CANCELLED\<rparr>) op), snd (mark u s))"
      using False Some by (simp add: cancelled_def Let_def mark_put_op)
    then show ?thesis by (intro faithful_status) (auto simp: mark_def)
  qed
qed

lemma faithful_raise: "raise_in u x s = (p', s') \<Longrightarrow> mark u s = mark u s0 \<Longrightarrow> faithful v u s0 s'"
proof -
  assume r: "raise_in u x s = (p', s')" and m: "mark u s = mark u s0"
  have "mark u (flow_error u x s) = mark u s" by (simp add: flow_error_def Let_def)
  then have "faithful v u s s'"
    using r faithful_mark[of u "flow_error u x s" s] faithful_cancelled[of v u s]
    by (auto simp: raise_in_def split: if_splits)
  then show ?thesis using told_mark[OF m] skipped_mark[OF m] m by (simp add: faithful_def) (simp add: mark_def)
qed

section \<open>The end of an operation\<close>

lemma record_marks:
  "mark u (record_gate_verdict v u op s) = mark u s \<or>
   (\<exists>g. mark u (record_gate_verdict v u op s) = (fst (mark u s), Some g, snd (snd (mark u s))))"
  by (simp add: record_gate_verdict_def mark_def split: val.split option.split)

lemma record_rejecting:
  "reject_verdict v op \<Longrightarrow> dget (gate_rejections (record_gate_verdict v u op s)) u \<noteq> None"
  by (auto simp: reject_verdict_def record_gate_verdict_def split: val.splits option.splits)

text \<open>After \<open>invoke\<close>: a rejecting gate is on record, nothing is skipped that was not.\<close>

lemma after_completed_marks:
  assumes "dget (ops s) u = Some op"
  shows "\<exists>op'. dget (ops (after_completed v u op s)) u = Some op' \<and>
      (op' = op \<and> (rejecting v op \<longrightarrow> dget (gate_rejections (after_completed v u op s)) u \<noteq> None) \<or>
       ev_status op' = FAILED) \<and>
      dget (skip_reasons (after_completed v u op s)) u = dget (skip_reasons s) u"
proof -
  let ?fin = "\<lambda>s2. let s3 = emit_terminal_once u ''completed'' s2
                   in if truthy (meta ''is_gate'' op) then record_gate_verdict v u op s3 else s3"
  have fin: "\<exists>op'. dget (ops (?fin t)) u = Some op' \<and>
      (op' = op \<and> (rejecting v op \<longrightarrow> dget (gate_rejections (?fin t)) u \<noteq> None) \<or> ev_status op' = FAILED) \<and>
      dget (skip_reasons (?fin t)) u = dget (skip_reasons s) u"
    if t: "mark u t = mark u s" for t :: "('a, 'b, 'c) dag_scheme"
  proof -
    let ?t = "emit_terminal_once u ''completed'' t"
    have m: "mark u ?t = mark u s" using t by simp
    show ?thesis
    proof (cases "truthy (meta ''is_gate'' op)")
      case True
      then show ?thesis
        using record_marks[of u v op ?t] record_rejecting[of v op u ?t] m assms
        by (auto simp: mark_def rejecting_def)
    next
      case False
      then show ?thesis using m assms by (auto simp: mark_def rejecting_def)
    qed
  qed
  let ?r = "case response (execution op) of Some x \<Rightarrow> x | None \<Rightarrow> VNone"
  let ?s1 = "put_result u ?r s"
  have 1: "mark u ?s1 = mark u s" "mark u (?s1\<lparr>flow_ctx := c\<rparr>) = mark u s" for c by simp_all
  show ?thesis
  proof (cases ?r)
    case (VDict d)
    show ?thesis
    proof (cases "dget d ''context''")
      case None
      then show ?thesis using fin[OF 1(1)] VDict by (simp add: after_completed_def Let_def)
    next
      case (Some c)
      show ?thesis
      proof (cases "\<exists>e. c = VDict e")
        case True
        then show ?thesis using fin[OF 1(2)] VDict Some by (auto simp: after_completed_def Let_def)
      next
        case False
        let ?bad = "on_execution (\<lambda>ex. ex\<lparr>status := FAILED, error := Err context_type_error\<rparr>) op"
        have "mark u (after_completed v u op s) = (Some ?bad, snd (mark u s))"
          using False VDict Some
          by (cases c) (simp_all add: after_completed_def Let_def mark_put_op)
        then show ?thesis by (simp add: mark_def)
      qed
    qed
  qed (use fin[OF 1(1)] in \<open>simp_all add: after_completed_def Let_def\<close>)
qed

lemma faithful_after_invoke:
  assumes "dget (ops s) u = Some op" "ev_status op = SKIPPED \<Longrightarrow> skipped_now s0 u"
    "dget (skip_reasons s) u = dget (skip_reasons s0) u" "dget (gate_rejections s) u = dget (gate_rejections s0) u"
  shows "faithful v u s0 (after_invoke v u op s)"
proof (cases "ev_status op = COMPLETED")
  case True
  then have "after_invoke v u op s = after_completed v u op s" by (simp add: after_invoke_def)
  then show ?thesis using after_completed_marks[OF assms(1), of v] True
    by (auto simp: faithful_def told_def skipped_now_def rejecting_def)
next
  case False
  then have m: "mark u (after_invoke v u op s) = mark u s"
    by (auto simp: after_invoke_def Let_def split: event_status.split)
  then show ?thesis using assms False
    by (auto simp: mark_def faithful_def told_def skipped_now_def rejecting_def)
qed

lemma faithful_trans: "faithful v u s s1 \<Longrightarrow> faithful v u s1 s2 \<Longrightarrow> faithful v u s s2"
  by (auto simp: faithful_def)

lemma faithful_refl [simp]: "faithful v u s s"
  by (rule faithful_mark) simp

text \<open>Another version of the operation that a gate's verdict cannot tell from it.\<close>

lemma faithful_same:
  assumes "dget (ops s) u = Some op" "mark u s' = (Some op', snd (mark u s))"
    "ev_status op' = ev_status op" "response (execution op') = response (execution op)"
    "meta ''is_gate'' op' = meta ''is_gate'' op"
  shows "faithful v u s s'"
proof -
  have "rejecting v op' = rejecting v op" using assms(3-5) by (simp add: rejecting_def reject_verdict_def)
  then show ?thesis using assms by (auto simp: faithful_def told_def skipped_now_def mark_def)
qed

lemma add_error_frame:
  "add_error i x ex = (q, ex') \<Longrightarrow> status ex' = status ex \<and> response ex' = response ex"
  using add_error_status[of i x ex] add_error_response[of i x ex] by simp

lemma conclude_raised:
  assumes "conclude i dt (Inl x) op = (r, op')"
  shows "ev_status op' \<in> {FAILED, CANCELLED} \<or>
     ev_status op' = ev_status op \<and> response (execution op') = response (execution op) \<and> metadata op' = metadata op"
  using assms
  by (auto simp: conclude_def put_status_def on_execution_def Let_def
      split: if_splits prod.splits sum.splits dest!: add_error_frame)

lemma conclude_returned:
  assumes "conclude i dt out op = (Inr z, op')"
  shows "ev_status op' \<in> {COMPLETED, FAILED}"
proof (cases out)
  case (Inl x)
  then show ?thesis using assms
    by (auto simp: conclude_def Let_def split: if_splits prod.splits sum.splits dest!: add_error_frame)
next
  case (Inr y)
  then show ?thesis using assms by (auto simp: conclude_def)
qed

lemma faithful_finish:
  assumes "dget (ops s) u = Some op" "finish_op v u op i dt out s = (p', s')"
  shows "faithful v u s s'"
proof -
  let ?op1 = "case out of Inr r \<Rightarrow> on_execution (\<lambda>ex. ex\<lparr>response := Some r\<rparr>) op | Inl _ \<Rightarrow> op"
  obtain res op2 where c: "conclude i dt (map_sum id (\<lambda>_. ()) out) ?op1 = (res, op2)" by fastforce
  let ?s1 = "put_op u op2 s"
  have m: "mark u ?s1 = (Some op2, snd (mark u s))" by (rule mark_put_op)
  show ?thesis
  proof (cases res)
    case (Inl x)
    have "faithful v u s ?s1"
    proof (cases out)
      case (Inl y)
      with c have "conclude i dt (Inl y) op = (res, op2)" by simp
      from conclude_raised[OF this] show ?thesis
        using faithful_status[of ?s1 u op2 v s] faithful_same[OF assms(1) m] m
        by (auto simp: mark_def meta_def)
    next
      case (Inr r)
      with c \<open>res = Inl x\<close> show ?thesis by (auto simp: conclude_def)
    qed
    moreover have "raise_in u x (release ?s1) = (p', s')" using assms(2) c Inl by (simp add: finish_op_def Let_def)
    then have "faithful v u ?s1 s'" by (rule faithful_raise) simp
    ultimately show ?thesis by (rule faithful_trans)
  next
    case (Inr z)
    then have s': "s' = set_event u (release (after_invoke v u op2 ?s1))"
      using assms(2) c by (auto simp: finish_op_def Let_def)
    have "ev_status op2 \<in> {COMPLETED, FAILED}" using c Inr conclude_returned by fastforce
    then have "faithful v u s (after_invoke v u op2 ?s1)"
      using m by (intro faithful_after_invoke) (auto simp: mark_def)
    then show ?thesis unfolding s' by (rule faithful_trans) (simp add: faithful_mark)
  qed
qed

section \<open>The start of an operation\<close>

text \<open>Preparing the context and the instructions leaves status, result and the gate flag alone.\<close>

definition same_verdict :: "oper \<Rightarrow> oper \<Rightarrow> bool" where
  "same_verdict op op' \<longleftrightarrow>
     ev_status op' = ev_status op \<and> response (execution op') = response (execution op) \<and>
     meta ''is_gate'' op' = meta ''is_gate'' op"

lemma same_verdict_set [simp]:
  "same_verdict op op" "same_verdict op op1 \<Longrightarrow> same_verdict op (set_parameter k x op1)"
  "k \<noteq> ''is_gate'' \<Longrightarrow> same_verdict op op1 \<Longrightarrow> same_verdict op (set_meta k x op1)"
  by (simp_all add: same_verdict_def set_parameter_def set_meta_def meta_def)

lemma same_verdict_render: "same_verdict op op1 \<Longrightarrow> same_verdict op (fst (render_into v u op1 ctx s))"
  by (auto simp: render_into_def render_operator_messages_def Let_def)

lemma same_verdict_prepare: "same_verdict op (fst (prepare_operation v u op ps s))"
proof -
  have "same_verdict op (with_context v op ps s)" by (simp add: with_context_def Let_def)
  then show ?thesis
    by (simp add: prepare_operation_def Let_def same_verdict_render split: option.split val.split)
qed

lemma same_verdict_steers:
  "same_verdict op op1 \<Longrightarrow> same_verdict op (fst (render_pending_operator_steers v u op1 s))"
  by (simp add: render_pending_operator_steers_def same_verdict_render split: option.split)

lemma mark_ctx: "ctx_only s s' \<Longrightarrow> mark u s' = mark u s"
  by (auto simp: ctx_only_def)

lemma faithful_start:
  assumes op: "dget (ops s0) u = Some op" and st: "start_op v u op s0 = (p', s')"
  shows "faithful v u s0 s'"
proof -
  let ?s = "s0\<lparr>borrowed := Suc (borrowed s0)\<rparr>"
  obtain r s1 where rp: "read_preds u ?s = (r, s1)" by fastforce
  have m1: "mark u s1 = mark u s0"
    using rp by (auto simp: read_preds_def split: prod.splits sum.splits)
  show ?thesis
  proof (cases r)
    case (Inl e)
    then have "raise_in u (raised v e) (release s1) = (p', s')" using st rp by (simp add: start_op_def Let_def)
    then show ?thesis by (rule faithful_raise) (simp add: m1)
  next
    case (Inr ps)
    obtain op2 s2 where 2: "prepare_operation v u op ps s1 = (op2, s2)" by fastforce
    let ?s3 = "emit_progress u ''started'' (s2\<lparr>started := insert u (started s2)\<rparr>)"
    obtain op4 s4 where 4: "render_pending_operator_steers v u op2 ?s3 = (op4, s4)" by fastforce
    have m4: "mark u s4 = mark u s0"
      using mark_ctx[OF prepare_ctx, of u v u op ps s1] mark_ctx[OF steers_ctx, of u v u op2 ?s3] 2 4 m1 by simp
    have sv: "same_verdict op op4"
      using same_verdict_steers[OF same_verdict_prepare[of op v u ps s1], of v u ?s3] 2 4 by simp
    let ?s5 = "put_op u op4 s4"
    have m5: "mark u ?s5 = (Some op4, snd (mark u s0))" by (simp add: mark_put_op m4)
    show ?thesis
    proof (cases "ev_status op4 = PENDING")
      case True
      then have "s' = put_op u (on_execution (\<lambda>ex. ex\<lparr>status := PROCESSING\<rparr>) op4) s4"
        using st rp Inr 2 4 by (auto simp: start_op_def Let_def)
      then show ?thesis
        by (intro faithful_status[of s' u "on_execution (\<lambda>ex. ex\<lparr>status := PROCESSING\<rparr>) op4"])
          (simp_all add: put_op_def)
    next
      case False
      then have s': "s' = set_event u (release (after_invoke v u op4 ?s5))"
        using st rp Inr 2 4 by (auto simp: start_op_def Let_def)
      have "faithful v u s0 (after_invoke v u op4 ?s5)"
        using m5 sv op by (intro faithful_after_invoke) (auto simp: mark_def skipped_now_def same_verdict_def)
      then show ?thesis unfolding s' by (rule faithful_trans) (simp add: faithful_mark)
    qed
  qed
qed

section \<open>Any step of a task\<close>

text \<open>What a step does to the task's own operation: faithful, or it is skipped with nothing vetoing above.\<close>

definition settles :: "env \<Rightarrow> uuid \<Rightarrow> ('c, 'p, 'z) dag_scheme \<Rightarrow> ('c, 'p, 'z) dag_scheme \<Rightarrow> bool" where
  "settles v u s s' \<longleftrightarrow> faithful v u s s' \<or> told v s' u \<and> clear s u"

lemma settles_mark: "mark u s' = mark u s \<Longrightarrow> settles v u s s'"
  by (simp add: settles_def faithful_mark)

lemma settles_raise: "raise_in u x s = (p', s') \<Longrightarrow> settles v u s s'"
  by (simp add: settles_def faithful_raise)

lemma settles_checked:
  assumes "checked u op valid reason s = (p', s')" "reason = None \<Longrightarrow> clear s u"
  shows "settles v u s s'"
proof (cases "reason = None \<and> valid")
  case True
  then show ?thesis using assms(1) by (simp add: checked_def settles_mark)
next
  case False
  let ?t = "case reason of Some g \<Rightarrow> s\<lparr>skip_reasons := dset u g (skip_reasons s)\<rparr> | None \<Rightarrow> s"
  have s': "s' = skip_op u op ?t" using assms(1) False by (auto simp: checked_def split: option.splits)
  have m: "\<exists>op'. mark u s' = (Some op', snd (mark u ?t)) \<and> ev_status op' = SKIPPED"
    unfolding s' skip_op_def Let_def
    by (auto simp: mark_put_op on_execution_def set_meta_def split: option.split)
  then have "told v s' u" by (auto simp: told_def mark_def rejecting_def)
  moreover have "faithful v u s s'" if "reason \<noteq> None"
  proof -
    obtain g where "reason = Some g" using \<open>reason \<noteq> None\<close> by blast
    then have "dget (skip_reasons s') u = Some g" using m by (auto simp: mark_def)
    with \<open>told v s' u\<close> show ?thesis by (simp add: faithful_def)
  qed
  ultimately show ?thesis using assms(2) by (auto simp: settles_def)
qed

lemma settles_next:
  assumes "next_edge u op ks b r s = (p', s')"
    "\<forall>h \<in> preds s u. h \<in> heads s ks \<or>
        event_of s h \<noteq> Some False \<and> (upstream_reason h s \<noteq> None \<longrightarrow> r \<noteq> None)"
  shows "settles v u s s'"
proof (cases "ks = []")
  case True
  then have "clear s u" if "r = None" using assms(2) that by (auto simp: clear_def heads_def)
  then show ?thesis using assms(1) True by (intro settles_checked) (simp_all add: next_edge_def)
next
  case False
  then show ?thesis using assms(1) by (simp add: next_edge_def settles_mark)
qed

lemma settles_check_edge:
  assumes "check_edge v ans u op k ks b r s = Some (p', s')"
    "pc_ok s u (Checking (k # ks) b r)" "graph_inv (fgraph s)"
  shows "settles v u s s'"
  using assms(1)
proof (cases rule: check_edge_cases)
  case (raises x)
  then show ?thesis by (intro settles_raise[of u x s p' s']) simp
next
  case (goes_on e b' r')
  have "h \<in> heads s ks \<or> event_of s h \<noteq> Some False \<and> (upstream_reason h s \<noteq> None \<longrightarrow> r' \<noteq> None)"
    if "h \<in> preds s u" for h
  proof -
    have "h \<in> heads s (k # ks) \<or> event_of s h \<noteq> Some False \<and> (upstream_reason h s \<noteq> None \<longrightarrow> r \<noteq> None)"
      using that assms(2) by auto
    then show ?thesis using edge_at_head[OF assms(3) goes_on(1), of ks] goes_on(2,4) by auto
  qed
  then show ?thesis using goes_on(3) by (intro settles_next[of u op ks b' r' s p']) auto
qed

lemma mark_preterminal: "mark u (preterminal u op s) = mark u s"
  by (auto simp: preterminal_def Let_def split: option.split)

lemma mark_read: "read_preds u s = (r, s1) \<Longrightarrow> mark w s1 = mark w s"
  by (auto simp: read_preds_def split: prod.splits sum.splits)

lemma task_step_settles:
  assumes "task_step v ans u p s = Some (p', s')" "task_ok s u p" "graph_inv (fgraph s)"
  shows "settles v u s s'"
proof -
  obtain op where op: "dget (ops s) u = Some op" using assms(1) by (auto simp: task_step_def split: option.splits)
  have ok: "pc_ok s u p" using assms(2) by (simp add: task_ok_def)
  show ?thesis
  proof (cases p)
    case Fresh
    then have "first_step v u op s = (p', s')" using assms(1) op by (simp add: task_step_def)
    then show ?thesis
      by (auto simp: first_step_def mark_preterminal intro: settles_mark settles_raise
          split: if_splits sum.splits list.splits)
  next
    case (Checking ks b r)
    with ok obtain k ks' where "ks = k # ks'" by (cases ks) auto
    then show ?thesis using assms(1,3) op Checking ok settles_check_edge[of v ans u op k ks' b r s p' s']
      by (simp add: task_step_def)
  next
    case (WaitSources xs)
    show ?thesis
    proof (cases xs)
      case Nil
      obtain z s1 where rp: "read_preds u s = (z, s1)" by fastforce
      show ?thesis
      proof (cases z)
        case (Inl e)
        then have "raise_in u (raised v e) s1 = (p', s')"
          using assms(1) op WaitSources Nil rp by (simp add: task_step_def)
        then show ?thesis by (simp add: settles_def faithful_raise mark_read[OF rp])
      next
        case (Inr ps)
        then have "s' = s1" using assms(1) op WaitSources Nil rp by (simp add: task_step_def)
        then show ?thesis by (simp add: settles_mark mark_read[OF rp])
      qed
    next
      case (Cons x xs')
      then show ?thesis using assms(1) op WaitSources
        by (auto simp: task_step_def wait_source_def intro: settles_mark split: option.splits if_splits)
    qed
  next
    case (WaitPreds hs)
    then show ?thesis using assms(1) op
      by (auto simp: task_step_def wait_pred_def intro: settles_mark settles_raise
          split: list.splits option.splits bool.splits)
  next
    case Acquiring
    then have "start_op v u op s = (p', s')" using assms(1) op by (auto simp: task_step_def split: if_splits)
    then show ?thesis using faithful_start[OF op] by (simp add: settles_def)
  next
    case Invoking
    then show ?thesis using assms(1) op faithful_finish[OF op]
      by (auto simp: task_step_def settles_def split: answer.splits)
  qed (use assms(1) op in \<open>auto simp: task_step_def intro!: settles_mark split: option.splits if_splits\<close>)
qed

section \<open>Any run\<close>

definition marks_ok :: "env \<Rightarrow> (uuid, oper) pydict \<Rightarrow> ('c, 'p, 'z) dag_scheme \<Rightarrow> bool" where
  "marks_ok v os s \<longleftrightarrow> (\<forall>u. open_at_start os u \<longrightarrow> told v s u \<and> excused s u)"

text \<open>A change by the task of \<open>u\<close> that settles it and keeps what has settled elsewhere.\<close>

lemma marks_ok_move:
  assumes "marks_ok v os s" "own u s s1" "stable s s1" "settles v u s s1"
    "\<And>w. mark w s' = mark w s1" "fgraph s' = fgraph s1" "completion_events s' = completion_events s1"
    "gate_rejections s' = gate_rejections s1" "skip_reasons s' = skip_reasons s1"
  shows "marks_ok v os s'"
  unfolding marks_ok_def
proof (intro allI impI)
  fix w
  assume w: "open_at_start os w"
  have up: "upstream_reason h s' = upstream_reason h s1" for h by (rule upstream_cong) (simp_all add: assms(8,9))
  have cl: "clear s' w = clear s1 w" by (simp add: clear_def up assms(6,7))
  have keep: "told v s' w = told v s1 w" "skipped_now s' w = skipped_now s1 w" "excused s' w = excused s1 w"
    using told_mark[OF assms(5), of v w] skipped_mark[OF assms(5), of w] by (simp_all add: excused_def cl assms(9))
  have old: "told v s w" "excused s w" using assms(1) w by (simp_all add: marks_ok_def)
  show "told v s' w \<and> excused s' w"
  proof (cases "w = u")
    case False
    have m: "mark w s1 = mark w s" using assms(2) False by (simp add: own_def part_of_def mark_def)
    then have "dget (skip_reasons s1) w = dget (skip_reasons s) w" by (simp add: mark_def)
    then show ?thesis
      using old keep told_mark[OF m] skipped_mark[OF m] stable_clear[OF assms(3)] by (auto simp: excused_def)
  next
    case True
    show ?thesis
    proof (cases "faithful v u s s1")
      case True
      then show ?thesis using old keep stable_clear[OF assms(3)] \<open>w = u\<close> by (auto simp: faithful_def excused_def)
    next
      case False
      then show ?thesis using assms(4) keep stable_clear[OF assms(3)] \<open>w = u\<close>
        by (auto simp: settles_def excused_def)
    qed
  qed
qed

lemma cancelled_stable:
  "task_ok s u p \<Longrightarrow> \<not> ended p \<Longrightarrow> p \<noteq> Fresh \<Longrightarrow> stable s (cancelled u s)"
  by (rule own_stable[OF own_cancelled[OF own_refl]]) (auto simp: task_ok_def)

lemma exec_step_marks:
  assumes "exec_inv s" "marks_ok v os s" "exec_step v a s = Some s'"
  shows "marks_ok v os s'"
proof -
  note I = exec_invD[OF assms(1)]
  have same: "marks_ok v os t" if "\<And>w. mark w t = mark w s" "fgraph t = fgraph s"
      "completion_events t = completion_events s" "gate_rejections t = gate_rejections s"
      "skip_reasons t = skip_reasons s" for t
    by (rule marks_ok_move[OF assms(2) own_refl stable_refl settles_mark]) (simp_all add: that)
  have task: "task_ok s u p" if "n < length (tasks s)" "tasks s ! n = (u, p)" for n u p
    using I(3) nth_mem[OF that(1)] by (simp add: that(2))
  show ?thesis
  proof (cases a)
    case (Task n ans)
    then have n: "n < length (tasks s)" using assms(3) by (auto simp: exec_step_def split: if_splits)
    obtain u p where t: "tasks s ! n = (u, p)" by fastforce
    obtain p' s1 where st: "task_step v ans u p s = Some (p', s1)" and s': "s' = set_pc n p' s1"
      using assms(3) Task n t by (auto simp: exec_step_def)
    note ok = task[OF n t]
    have "own u s s1" using task_step_ok[OF st] by (simp add: step_ok_def)
    then show ?thesis unfolding s'
      by (rule marks_ok_move[OF assms(2) _ task_step_stable[OF st ok] task_step_settles[OF st ok I(1)]]) simp_all
  next
    case (CancelTask n)
    then have n: "n < length (tasks s)" using assms(3) by (auto simp: exec_step_def split: if_splits)
    obtain u p where t: "tasks s ! n = (u, p)" by fastforce
    note ok = task[OF n t]
    show ?thesis
    proof (cases "p = Fresh")
      case True
      then have "s' = set_pc n Raised s" using assms(3) CancelTask n t by (auto simp: exec_step_def split: if_splits)
      then show ?thesis by (intro same) simp_all
    next
      case False
      then have s': "s' = set_pc n Raised (cancelled u s)" and p: "\<not> ended p"
        using assms(3) CancelTask n t by (auto simp: exec_step_def split: if_splits)
      have "settles v u s (cancelled u s)" by (simp add: settles_def faithful_cancelled)
      then show ?thesis unfolding s'
        by (rule marks_ok_move[OF assms(2) own_cancelled[OF own_refl] cancelled_stable[OF ok p False]]) simp_all
    qed
  next
    case Sweep
    then have "s' = fold (\<lambda>u. emit_abandoned_terminal u ''cancelled'' False) (queued_announced s) s"
      using assms(3) by (auto simp: exec_step_def cancel_announced_unfinished_def split: if_splits)
    then obtain l T where "s' = s\<lparr>progress := l, terminal_emitted := T\<rparr>"
      using sweep_frame[of "''cancelled''" "queued_announced s" s] by blast
    then show ?thesis by (intro same) simp_all
  next
    case PauseFlow
    then have "s' = pause s" using assms(3) by (simp add: exec_step_def)
    then show ?thesis by (intro same) (simp_all add: pause_def mark_def)
  next
    case ResumeFlow
    then have "s' = resume s" using assms(3) by (simp add: exec_step_def)
    then show ?thesis by (intro same) (simp_all add: resume_def mark_def split: option.split)
  qed
qed

lemma exec_run_marks:
  "exec_inv s \<Longrightarrow> marks_ok v os s \<Longrightarrow> exec_run v as s = Some s' \<Longrightarrow> marks_ok v os s'"
proof (induction as arbitrary: s)
  case (Cons a as)
  then show ?case by (auto split: option.splits intro: exec_step_inv exec_step_marks)
qed simp

lemma starts_marks:
  assumes "starts g os ctx limit depth s"
  shows "marks_ok v os s"
  using assms
proof (rule starts_shape)
  fix l q
  assume "s = (mk_dag g os ctx limit)\<lparr>queued_announced := q, progress := l, tasks := map (\<lambda>u. (u, Fresh)) (op_ids g os)\<rparr>"
  then have "ops s = os" by (simp add: mk_dag_def Let_def)
  then show ?thesis
    by (auto simp: marks_ok_def open_at_start_def told_def excused_def skipped_now_def rejecting_def
        split: option.splits)
qed

text \<open>No veto is missed: it is on record with the operation that carries it.\<close>

lemma vetoed_recorded:
  "vetoed v os s h \<Longrightarrow> marks_ok v os s \<Longrightarrow> upstream_reason h s \<noteq> None"
proof (induction rule: vetoed.induct)
  case (gate h op)
  then have "dget (gate_rejections s) h \<noteq> None" by (auto simp: marks_ok_def told_def)
  then show ?case by (auto simp: upstream_reason_def split: option.split)
next
  case (below u op h)
  then have "excused s u" "skipped_now s u" by (auto simp: marks_ok_def skipped_now_def)
  then have "dget (skip_reasons s) u \<noteq> None"
    using below by (auto simp: excused_def clear_def)
  then show ?case by (auto simp: upstream_reason_def split: option.split)
qed

section \<open>Properties\<close>

text \<open>
  C3. Dependencies and gates.  In every state the executor can reach, under any interleaving, pauses,
  cancellations and answers of user code, an operation that has been started has every predecessor
  settled (its completion event set), and no predecessor carries a veto: none is a gate that completed
  in this run with the verdict to reject, and none was skipped in this run below such a gate, directly or
  through other skipped operations.  (Gates and skips of an earlier attempt, terminal before the run, do
  not count: the executor forgets them.)
\<close>

theorem started_after_dependencies:
  assumes "starts g os ctx limit depth s0" "exec_run v as s0 = Some s"
    and "u \<in> started s" "(h, u) \<in> arcs g"
  shows "dget (completion_events s) h = Some True \<and> \<not> vetoed v os s h"
proof -
  note inv0 = starts_inv[OF assms(1)]
  have inv: "exec_inv s" by (rule exec_run_inv[OF inv0 assms(2)])
  have "fgraph s0 = g" using assms(1) by (rule starts_shape) (simp add: mk_dag_def Let_def)
  then have "arcs (fgraph s) = arcs g"
    using exec_run_same[OF assms(2)] same_graph_arcs by (auto simp: same_run_def)
  then have "ready s u" "h \<in> preds s u" using exec_invD(4)[OF inv assms(3)] assms(4) by simp_all
  then have "event_of s h = Some True" "upstream_reason h s = None" by (auto simp: ready_def)
  then show ?thesis using vetoed_recorded exec_run_marks[OF inv0 starts_marks[OF assms(1)] assms(2)] by blast
qed

theorem started_after_dependencies_witness:
  "\<exists>s. ex_run (ex_root 0 (Inr VNone) @ ex_below 1 (Inr VNone)) ex_start = Some s \<and> 2 \<in> started s \<and>
     dget (completion_events s) 1 = Some True \<and> \<not> vetoed ex_env ex_ops s 1"
proof -
  let ?as = "map (\<lambda>(n, ans). Task n ans) (ex_root 0 (Inr VNone) @ ex_below 1 (Inr VNone))"
  have "map_option (\<lambda>s. 2 \<in> started s) (exec_run ex_env ?as ex_start) = Some True" by code_simp
  then obtain s where s: "exec_run ex_env ?as ex_start = Some s" "2 \<in> started s" by auto
  have "ends_of ex_graph 5 = Some (1, 2)" by code_simp
  then have "(1, 2) \<in> arcs ex_graph" unfolding arcs_def by blast
  from started_after_dependencies[OF ex_starts s this] s show ?thesis by (simp add: ex_run_def)
qed

text \<open>The other side: below a gate that rejects, both operations of the example carry the veto.\<close>

lemma rejected_gate_vetoes:
  "\<exists>s. ex_run (ex_root 0 (Inr ex_reject) @ [(1, Silent), (1, Silent), (2, Silent), (2, Silent)]) ex_start = Some s \<and>
     vetoed ex_env ex_ops s 1 \<and> vetoed ex_env ex_ops s 2 \<and> vetoed ex_env ex_ops s 3 \<and> started s = {1}"
proof -
  let ?r = "ex_run (ex_root 0 (Inr ex_reject) @ [(1, Silent), (1, Silent), (2, Silent), (2, Silent)]) ex_start"
  have "map_option (\<lambda>s. (map_option (rejecting ex_env) (dget (ops s) 1),
      map_option (\<lambda>op. ev_status op = SKIPPED) (dget (ops s) 2), map_option (\<lambda>op. ev_status op = SKIPPED) (dget (ops s) 3),
      ends_of (fgraph s) 5, ends_of (fgraph s) 6, started s = {1})) ?r
    = Some (Some True, Some True, Some True, Some (1, 2), Some (2, 3), True)" by code_simp
  then obtain s op1 op2 op3 where s: "?r = Some s" "dget (ops s) 1 = Some op1" "rejecting ex_env op1"
      "dget (ops s) 2 = Some op2" "ev_status op2 = SKIPPED" "dget (ops s) 3 = Some op3" "ev_status op3 = SKIPPED"
      "ends_of (fgraph s) 5 = Some (1, 2)" "ends_of (fgraph s) 6 = Some (2, 3)" "started s = {1}" by auto
  have o: "open_at_start ex_ops 1" "open_at_start ex_ops 2" "open_at_start ex_ops 3" by code_simp+
  have a: "(1, 2) \<in> arcs (fgraph s)" "(2, 3) \<in> arcs (fgraph s)" using s(8,9) unfolding arcs_def by blast+
  have v1: "vetoed ex_env ex_ops s 1" by (rule vetoed.gate[OF o(1) s(2,3)])
  have v2: "vetoed ex_env ex_ops s 2" by (rule vetoed.below[OF o(2) s(4,5) a(1) v1])
  have "vetoed ex_env ex_ops s 3" by (rule vetoed.below[OF o(3) s(6,7) a(2) v2])
  with v1 v2 s show ?thesis by blast
qed

end
