(* ===== verification/Builder.thy ===== *)
theory Builder
  imports Flow_Run
begin

text \<open>
  \<open>OperationGraphBuilder\<close> of \<open>lionagi/operations/builder.py\<close>, which puts together the graphs that the flow
  executor runs.

  The builder keeps the graph, its operations by id, the ids marked as executed and the current heads,
  behind which the next operation is chained.  Every call names the ids that the code draws for the
  new operations and edges.  Ids are UUIDs: a text in \<open>depends_on\<close> is never a key of \<open>_operations\<close> and is
  left out by the caller here.  A UUID kept in parameters or metadata is its text.  Drawing and the
  state summary are outside.

  The lemmas show that whatever is built is a graph whose edges lead from earlier operations to later
  ones, so that the executor accepts it and runs it to its end.
\<close>

section \<open>State\<close>

record ('c, 'p) builder =
  bgraph :: "(unit, 'c, 'p) graph"
  operations :: "(uuid, oper) pydict"
  executed :: "uuid set"
  current_heads :: "uuid list"
  last_operation_id :: "uuid option"

definition new_builder :: "('c, 'p) builder" where
  "new_builder = \<lparr>bgraph = empty_graph, operations = [], executed = {}, current_heads = [], last_operation_id = None\<rparr>"

datatype strategy =
    Concurrent | Sequential | Sequential_concurrent_chunk | Concurrent_sequential_chunk

fun strategy_value :: "strategy \<Rightarrow> string" where
  "strategy_value Concurrent = ''concurrent''"
| "strategy_value Sequential = ''sequential''"
| "strategy_value Sequential_concurrent_chunk = ''sequential_concurrent_chunk''"
| "strategy_value Concurrent_sequential_chunk = ''concurrent_sequential_chunk''"

text \<open>What the calls have in common: the clock, the other properties of a new edge, \<open>str\<close> and \<open>model_dump\<close>.\<close>

record 'p benv =
  clock :: int
  props :: 'p
  text_of :: "val \<Rightarrow> string"
  model_dump :: "val \<Rightarrow> (string \<times> val) list"

section \<open>Nodes and edges\<close>

definition on_built ::
    "((unit, 'c, 'p) graph \<Rightarrow> ('a, (unit, 'c, 'p) graph) eff) \<Rightarrow> ('c, 'p) builder \<Rightarrow> ('a, ('c, 'p) builder) eff" where
  "on_built f b = (case f (bgraph b) of (r, g) \<Rightarrow> (r, b\<lparr>bgraph := g\<rparr>))"

definition enter :: "uuid \<Rightarrow> oper \<Rightarrow> ('c, 'p) builder \<Rightarrow> (unit, ('c, 'p) builder) eff" where
  "enter u op b =
     then_do (on_built (add_node (Elem u operation_mro ())) b) (\<lambda>_ b1.
     (Inr (), b1\<lparr>operations := dset u op (operations b1)\<rparr>))"

definition labelled :: "'p \<Rightarrow> string list \<Rightarrow> uuid \<Rightarrow> uuid \<Rightarrow> uuid \<Rightarrow> ('c, 'p) edge elem" where
  "labelled pr label k h t = Elem k edge_mro \<lparr>ehead = h, etail = t, econd = None, elabel = Some label, eprops = pr\<rparr>"

text \<open>One edge to \<open>t\<close> from each of the given operations; the \<open>i\<close>-th has the id \<open>ks i\<close>.\<close>

fun connect ::
    "'p \<Rightarrow> string list \<Rightarrow> (nat \<Rightarrow> uuid) \<Rightarrow> nat \<Rightarrow> uuid list \<Rightarrow> uuid \<Rightarrow> ('c, 'p) builder \<Rightarrow> (unit, ('c, 'p) builder) eff" where
  "connect pr label ks i [] t b = (Inr (), b)"
| "connect pr label ks i (h # hs) t b =
     then_do (on_built (add_edge (labelled pr label (ks i) h t)) b) (\<lambda>_ b1.
     connect pr label ks (Suc i) hs t b1)"

section \<open>Calls\<close>

definition mark_meta :: "bool \<Rightarrow> string \<Rightarrow> val \<Rightarrow> oper \<Rightarrow> oper" where
  "mark_meta c k v op = (if c then set_meta k v op else op)"

definition uuid_val :: "uuid \<Rightarrow> val" where
  "uuid_val u = VStr (uuid_str u)"

definition option_text :: "string option \<Rightarrow> string" where
  "option_text n = (case n of Some s \<Rightarrow> s | None \<Rightarrow> [])"

definition operation_node ::
    "'p benv \<Rightarrow> uuid \<Rightarrow> string \<Rightarrow> string option \<Rightarrow> uuid list option \<Rightarrow> bool \<Rightarrow> bool \<Rightarrow> uuid option
      \<Rightarrow> (string \<times> val) list \<Rightarrow> oper" where
  "operation_node v u name node_id deps inherit gate branch params =
     (let ds = (case deps of Some hs \<Rightarrow> hs | None \<Rightarrow> []);
          op1 = create_operation u (clock v) name params;
          op2 = (if inherit \<and> ds \<noteq> []
                 then set_meta ''primary_dependency'' (uuid_val (hd ds)) (set_meta ''inherit_context'' (VBool True) op1)
                 else op1);
          op3 = mark_meta gate ''is_gate'' (VBool True) op2;
          op4 = mark_meta (option_text node_id \<noteq> []) ''reference_id'' (VStr (option_text node_id)) op3
      in (case branch of Some w \<Rightarrow> set_meta ''branch_id'' (uuid_val w) op4 | None \<Rightarrow> op4))"

definition add_operation ::
    "'p benv \<Rightarrow> uuid \<Rightarrow> (nat \<Rightarrow> uuid) \<Rightarrow> string \<Rightarrow> string option \<Rightarrow> uuid list option \<Rightarrow> bool \<Rightarrow> bool \<Rightarrow> uuid option
      \<Rightarrow> (string \<times> val) list \<Rightarrow> ('c, 'p) builder \<Rightarrow> (uuid, ('c, 'p) builder) eff" where
  "add_operation v u ks name node_id deps inherit gate branch params b =
     then_do (enter u (operation_node v u name node_id deps inherit gate branch params) b) (\<lambda>_ b1.
     then_do (case deps of
                Some hs \<Rightarrow> connect (props v) [''depends_on''] ks 0 (filter (dhas (operations b1)) hs) u b1
              | None \<Rightarrow> connect (props v) [''sequential''] ks 0 (current_heads b1) u b1) (\<lambda>_ b2.
     (Inr u, b2\<lparr>current_heads := [u], last_operation_id := Some u\<rparr>)))"

definition expansion_node ::
    "'p benv \<Rightarrow> uuid \<Rightarrow> nat \<Rightarrow> val \<Rightarrow> uuid \<Rightarrow> string \<Rightarrow> strategy \<Rightarrow> uuid option \<Rightarrow> (string \<times> val) list \<Rightarrow> oper" where
  "expansion_node v u i item source name strat primary shared =
     (let ps = (case item of
                  VModel _ _ _ \<Rightarrow> dupdate (model_dump v item) shared
                | _ \<Rightarrow> dset ''item'' (VStr (text_of v item)) (dset ''item_index'' (VInt (int i)) shared));
          params = dset ''expansion_strategy'' (VStr (strategy_value strat)) (dset ''expanded_from'' (uuid_val source) ps);
          op1 = create_operation u (clock v) name params;
          op2 = set_meta ''expansion_index'' (VInt (int i)) op1;
          op3 = set_meta ''expansion_source'' (uuid_val source) op2;
          op4 = set_meta ''expansion_strategy'' (VStr (strategy_value strat)) op3
      in (case primary of
            None \<Rightarrow> op4
          | Some d \<Rightarrow> set_meta ''primary_dependency'' (uuid_val d) (set_meta ''inherit_context'' (VBool True) op4)))"

text \<open>\<open>expand_from_result\<close>: the loop over the items; \<open>done\<close> are the ids made so far.\<close>

fun expand_items ::
    "'p benv \<Rightarrow> (nat \<Rightarrow> uuid) \<Rightarrow> (nat \<Rightarrow> uuid) \<Rightarrow> val list \<Rightarrow> uuid \<Rightarrow> string \<Rightarrow> strategy \<Rightarrow> bool \<Rightarrow> bool
      \<Rightarrow> (string \<times> val) list \<Rightarrow> uuid list \<Rightarrow> ('c, 'p) builder \<Rightarrow> (uuid list, ('c, 'p) builder) eff" where
  "expand_items v us ks [] source name strat inherit chain shared made b = (Inr made, b)"
| "expand_items v us ks (x # xs) source name strat inherit chain shared made b =
     (let i = length made;
          primary = (if \<not> inherit then None
                     else if chain \<and> strat = Sequential \<and> 0 < i then Some (made ! (i - 1)) else Some source);
          op = expansion_node v (us i) i x source name strat primary shared
      in then_do (enter (us i) op b) (\<lambda>_ b1.
         then_do (connect (props v) [''expansion'', strategy_value strat] ks i [source] (us i) b1) (\<lambda>_ b2.
         expand_items v us ks xs source name strat inherit chain shared (made @ [us i]) b2)))"

definition expand_from_result ::
    "'p benv \<Rightarrow> (nat \<Rightarrow> uuid) \<Rightarrow> (nat \<Rightarrow> uuid) \<Rightarrow> val list \<Rightarrow> uuid \<Rightarrow> string \<Rightarrow> strategy \<Rightarrow> bool \<Rightarrow> bool
      \<Rightarrow> (string \<times> val) list \<Rightarrow> ('c, 'p) builder \<Rightarrow> (uuid list, ('c, 'p) builder) eff" where
  "expand_from_result v us ks items source name strat inherit chain shared b =
     (if \<not> dhas (operations b) source then (Inl OtherException, b)
      else then_do (expand_items v us ks items source name strat inherit chain shared [] b) (\<lambda>made b1.
           (Inr made, if strat \<in> {Concurrent, Sequential} then b1\<lparr>current_heads := made\<rparr> else b1)))"

definition aggregation_node ::
    "'p benv \<Rightarrow> uuid \<Rightarrow> string \<Rightarrow> string option \<Rightarrow> uuid list \<Rightarrow> bool \<Rightarrow> nat \<Rightarrow> uuid option \<Rightarrow> (string \<times> val) list \<Rightarrow> oper" where
  "aggregation_node v u name node_id ss inherit idx branch params =
     (let ps = dupdate [(''aggregation_sources'', VList (map uuid_val ss)), (''aggregation_count'', VInt (int (length ss)))]
                 params;
          i = min idx (length ss - 1);
          op1 = set_meta ''aggregation'' (VBool True) (create_operation u (clock v) name ps);
          op2 = mark_meta (option_text node_id \<noteq> []) ''reference_id'' (VStr (option_text node_id)) op1;
          op3 = (if inherit
                 then set_meta ''inherit_from_source'' (VInt (int i))
                        (set_meta ''primary_dependency'' (uuid_val (ss ! i)) (set_meta ''inherit_context'' (VBool True) op2))
                 else op2)
      in (case branch of Some w \<Rightarrow> set_meta ''branch_id'' (uuid_val w) op3 | None \<Rightarrow> op3))"

definition add_aggregation ::
    "'p benv \<Rightarrow> uuid \<Rightarrow> (nat \<Rightarrow> uuid) \<Rightarrow> string \<Rightarrow> string option \<Rightarrow> uuid list option \<Rightarrow> bool \<Rightarrow> nat \<Rightarrow> uuid option
      \<Rightarrow> (string \<times> val) list \<Rightarrow> ('c, 'p) builder \<Rightarrow> (uuid, ('c, 'p) builder) eff" where
  "add_aggregation v u ks name node_id given inherit idx branch params b =
     (let ss = (case given of Some (h # hs) \<Rightarrow> h # hs | _ \<Rightarrow> current_heads b)
      in if ss = [] then (Inl OtherException, b)
         else
           then_do (enter u (aggregation_node v u name node_id ss inherit idx branch params) b) (\<lambda>_ b1.
           then_do (connect (props v) [''aggregate''] ks 0 ss u b1) (\<lambda>_ b2.
           (Inr u, b2\<lparr>current_heads := [u], last_operation_id := Some u\<rparr>))))"

text \<open>\<open>add_conditional_branch\<close> with the ids of the check and of the two arms.\<close>

definition add_conditional_branch ::
    "'p benv \<Rightarrow> uuid \<times> uuid \<times> uuid \<Rightarrow> (nat \<Rightarrow> uuid) \<Rightarrow> string \<Rightarrow> string \<Rightarrow> string option \<Rightarrow> (string \<times> val) list
      \<Rightarrow> ('c, 'p) builder \<Rightarrow> (uuid \<times> uuid \<times> uuid option, ('c, 'p) builder) eff" where
  "add_conditional_branch v us ks check true_op false_op params b =
     (let (c, t, f) = us;
          arm = (\<lambda>u name which. create_operation u (clock v) name [(''branch'', VStr which)]);
          n = length (current_heads b)
      in then_do (enter c (create_operation c (clock v) check (dset ''is_condition_check'' (VBool True) params)) b) (\<lambda>_ b1.
         then_do (connect (props v) [''to_condition''] ks 0 (current_heads b1) c b1) (\<lambda>_ b2.
         then_do (enter t (arm t true_op ''true'') b2) (\<lambda>_ b3.
         then_do (connect (props v) [''if_true''] ks n [c] t b3) (\<lambda>_ b4.
         (case option_text false_op of
            [] \<Rightarrow> (Inr (c, t, None), b4\<lparr>current_heads := [t]\<rparr>)
          | name \<Rightarrow>
              then_do (enter f (arm f name ''false'') b4) (\<lambda>_ b5.
              then_do (connect (props v) [''if_false''] ks (Suc n) [c] f b5) (\<lambda>_ b6.
              (Inr (c, t, Some f), b6\<lparr>current_heads := [t, f]\<rparr>)))))))))"

definition mark_executed :: "uuid list \<Rightarrow> ('c, 'p) builder \<Rightarrow> ('c, 'p) builder" where
  "mark_executed us b = b\<lparr>executed := executed b \<union> set us\<rparr>"

definition get_unexecuted_nodes :: "('c, 'p) builder \<Rightarrow> oper list" where
  "get_unexecuted_nodes b = map snd (filter (\<lambda>(u, _). u \<notin> executed b) (operations b))"

definition get_node_by_reference :: "val \<Rightarrow> ('c, 'p) builder \<Rightarrow> pyerr + uuid option" where
  "get_node_by_reference r b =
     (let found = filter (\<lambda>u. case dget (operations b) u of Some op \<Rightarrow> meta ''reference_id'' op = r | None \<Rightarrow> False)
                    (pile_keys (nodes (bgraph b)))
      in (case found of [] \<Rightarrow> Inr None | [u] \<Rightarrow> Inr (Some u) | _ \<Rightarrow> Inl OtherException))"


section \<open>What is kept\<close>

text \<open>
  The order in which the operations were entered is a topological order (\<open>topo\<close>): every edge leads from
  an operation to a later one.  No operation has sources for the executor to wait for.
\<close>

definition built :: "('c, 'p) builder \<Rightarrow> bool" where
  "built b \<longleftrightarrow> graph_inv (bgraph b) \<and> topo (bgraph b) (pile_keys (nodes (bgraph b))) \<and>
     dkeys (operations b) = pile_keys (nodes (bgraph b)) \<and>
     set (current_heads b) \<subseteq> verts (bgraph b) \<and> (\<forall>(u, op) \<in> set (operations b). aggregation_sources op = [])"

lemma builtD:
  assumes "built b"
  shows "graph_inv (bgraph b)" "topo (bgraph b) (pile_keys (nodes (bgraph b)))"
    "dkeys (operations b) = pile_keys (nodes (bgraph b))"
    "set (current_heads b) \<subseteq> verts (bgraph b)" "(u, op) \<in> set (operations b) \<Longrightarrow> aggregation_sources op = []"
  using assms by (auto simp: built_def)

lemma arcs_add: "ends_of g k = None \<Longrightarrow> ends_of g' = (ends_of g)(k \<mapsto> (h, t)) \<Longrightarrow> arcs g' = insert (h, t) (arcs g)"
  by (auto simp: arcs_def) (metis option.distinct(1))

lemma topo_new_node:
  "topo g ns \<Longrightarrow> graph_inv g \<Longrightarrow> u \<notin> verts g \<Longrightarrow> arcs g' = arcs g \<Longrightarrow> topo g' (ns @ [u])"
  using topo_snoc[of g ns u] arcs_verts[of g _ u] by (auto simp: topo_def)

lemma topo_new_edge:
  "topo g (ns @ [u]) \<Longrightarrow> h \<in> set ns \<Longrightarrow> u \<notin> set ns \<Longrightarrow> arcs g' = insert (h, u) (arcs g) \<Longrightarrow> topo g' (ns @ [u])"
  by (auto simp: topo_def nth_append split: if_splits)

lemma enter_built:
  assumes b: "built b" and op: "aggregation_sources op = []"
  obtains (refused) e where "enter u op b = (Inl e, b)"
  | (entered) b' where "enter u op b = (Inr (), b')" "built b'" "u \<notin> verts (bgraph b)"
      "pile_keys (nodes (bgraph b')) = pile_keys (nodes (bgraph b)) @ [u]" "current_heads b' = current_heads b"
proof -
  note B = builtD[OF b]
  have n: "''Node'' \<in> set (emro (Elem u operation_mro ()))" by (simp add: operation_mro_def)
  from B(1) n show thesis
  proof (cases rule: add_node_cases)
    case (refused e)
    then show thesis by (intro that(1)[of e]) (simp add: enter_def on_built_def)
  next
    case (added g)
    let ?b = "b\<lparr>bgraph := g, operations := operations b @ [(u, op)]\<rparr>"
    have "u \<notin> set (dkeys (operations b))" using added(3) B(3) by simp
    then have "enter u op b = (Inr (), ?b)" using added(1) by (simp add: enter_def on_built_def dset_fresh)
    moreover have "u \<notin> verts (bgraph b)" "arcs g = arcs (bgraph b)" using added(3,5) by (simp_all add: verts_def arcs_def)
    from topo_new_node[OF B(2,1) this] have "built ?b"
      using B added op unfolding built_def verts_def by auto
    ultimately show thesis using added by (intro that(2)[of ?b]) (simp_all add: verts_def)
  qed
qed

lemma connect_built:
  assumes "built b" "pile_keys (nodes (bgraph b)) = ns @ [u]" "u \<notin> set hs"
  shows "built (snd (connect pr label ks i hs u b)) \<and>
    pile_keys (nodes (bgraph (snd (connect pr label ks i hs u b)))) = ns @ [u] \<and>
    current_heads (snd (connect pr label ks i hs u b)) = current_heads b"
  using assms
proof (induction hs arbitrary: i b)
  case Nil
  then show ?case by simp
next
  case (Cons h hs)
  note B = builtD[OF Cons.prems(1)]
  let ?e = "labelled pr label (ks i) h u :: ('a, 'b) edge elem"
  have c: "''Edge'' \<in> set (emro ?e)" by (simp add: labelled_def edge_mro_def)
  from B(1) c show ?case
  proof (cases rule: add_edge_cases)
    case (refused x)
    then show ?thesis using Cons.prems by (simp add: on_built_def)
  next
    case (added g)
    let ?b = "b\<lparr>bgraph := g\<rparr>"
    have k: "pile_keys (nodes g) = ns @ [u]" using added(3) Cons.prems(2) by simp
    have "h \<in> set ns" using added(5) Cons.prems(2,3) by (simp add: labelled_def)
    moreover have "distinct (ns @ [u])"
      using graph_invD(1)[OF B(1)] Cons.prems(2) by (simp add: wf_pile_def pile_keys_def)
    moreover have "arcs g = insert (h, u) (arcs (bgraph b))"
      using arcs_add[OF added(4,7)] by (simp add: labelled_def)
    ultimately have "topo g (ns @ [u])" using topo_new_edge[of "bgraph b" ns u h g] B(2) Cons.prems(2) by simp
    then have "built ?b" using B added(2,3) k unfolding built_def verts_def by auto
    then show ?thesis using Cons.IH[of ?b "Suc i"] k Cons.prems(3) added(1) by (simp add: on_built_def)
  qed
qed

lemma built_heads:
  "built b \<Longrightarrow> set hs \<subseteq> verts (bgraph b) \<Longrightarrow> built (b\<lparr>current_heads := hs\<rparr>) \<and>
     built (b\<lparr>current_heads := hs, last_operation_id := l\<rparr>)"
  by (simp add: built_def)

text \<open>Entering an operation and linking it behind others that were there before.\<close>

lemma enter_connect_built:
  assumes b: "built b" and op: "aggregation_sources op = []" 
    and hs: "\<And>b1. current_heads b1 = current_heads b \<Longrightarrow> set (hs b1) \<subseteq> verts (bgraph b) \<or> u \<notin> set (hs b1)"
    and enough: "\<And>b2. built b2 \<Longrightarrow> verts (bgraph b) \<subseteq> verts (bgraph b2) \<Longrightarrow> u \<in> verts (bgraph b2) \<Longrightarrow>
      current_heads b2 = current_heads b \<Longrightarrow> u \<notin> verts (bgraph b) \<Longrightarrow> built (snd (k b2))"
  shows "built (snd (then_do (enter u op b) (\<lambda>_ b1. then_do (connect pr label ks i (hs b1) u b1) (\<lambda>_. k))))"
  using b op
proof (cases rule: enter_built[where u = u])
  case (refused e)
  then show ?thesis using b by simp
next
  case (entered b1)
  have "u \<notin> set (hs b1)" using hs[OF entered(5)] entered(3) by blast
  from connect_built[OF entered(2,4) this, of pr label ks i] obtain r b2 where
    c: "connect pr label ks i (hs b1) u b1 = (r, b2)" "built b2"
      "pile_keys (nodes (bgraph b2)) = pile_keys (nodes (bgraph b)) @ [u]" "current_heads b2 = current_heads b"
    using entered(5) by (metis snd_conv surj_pair)
  then have "built (snd (k b2))" using enough[OF c(2)] entered(3) by (simp add: verts_def subset_insertI)
  then show ?thesis using entered(1) c by (cases r) simp_all
qed

lemma meta_simps [simp]:
  "meta k (set_meta k' v op) = (if k = k' then v else meta k op)"
  "meta k (mark_meta c k' v op) = (if c \<and> k = k' then v else meta k op)"
  "meta k (create_operation u t name ps) = VNone"
  by (simp_all add: meta_def set_meta_def mark_meta_def create_operation_def)

lemma created_plain: "aggregation_sources (create_operation u t name ps) = []"
  by (simp add: aggregation_sources_def)

lemma operation_node_plain: "aggregation_sources (operation_node v u name n deps inherit gate branch ps) = []"
proof -
  have "meta ''aggregation'' (operation_node v u name n deps inherit gate branch ps) = VNone"
    by (simp add: operation_node_def Let_def split: option.split)
  then show ?thesis by (simp add: aggregation_sources_def)
qed

lemma expansion_node_plain: "aggregation_sources (expansion_node v u i item source name strat primary shared) = []"
proof -
  have "meta ''aggregation'' (expansion_node v u i item source name strat primary shared) = VNone"
    by (simp add: expansion_node_def Let_def split: option.split)
  then show ?thesis by (simp add: aggregation_sources_def)
qed

text \<open>An aggregation keeps its sources in its parameters, which the executor does not look at.\<close>

lemma aggregation_node_plain: "aggregation_sources (aggregation_node v u name n ss inherit i branch ps) = []"
proof -
  have "meta ''aggregation_sources'' (aggregation_node v u name n ss inherit i branch ps) = VNone"
    by (simp add: aggregation_node_def Let_def split: option.split)
  then show ?thesis by (simp add: aggregation_sources_def message_list_def)
qed

lemma add_operation_built:
  assumes b: "built b" and d: "\<And>hs. deps = Some hs \<Longrightarrow> u \<notin> set hs"
  shows "built (snd (add_operation v u ks name n deps inherit gate branch ps b))"
proof -
  have fin: "built (b2\<lparr>current_heads := [u], last_operation_id := Some u\<rparr>)"
    if "built b2" "u \<in> verts (bgraph b2)" for b2 :: "('a, 'b) builder" using that built_heads[of b2 "[u]"] by simp
  show ?thesis
  proof (cases deps)
    case None
    show ?thesis unfolding add_operation_def None option.case
      by (rule enter_connect_built[OF b operation_node_plain]) (use builtD(4)[OF b] fin in auto)
  next
    case (Some hs)
    show ?thesis unfolding add_operation_def Some option.case
      by (rule enter_connect_built[OF b operation_node_plain]) (use d Some fin in auto)
  qed
qed


lemma expand_items_built:
  "built b \<Longrightarrow> source \<in> verts (bgraph b) \<Longrightarrow> set made \<subseteq> verts (bgraph b) \<Longrightarrow>
   expand_items v us ks xs source name strat inherit chain shared made b = (r, b') \<Longrightarrow>
   built b' \<and> (\<forall>ms. r = Inr ms \<longrightarrow> set ms \<subseteq> verts (bgraph b'))"
proof (induction xs arbitrary: made b)
  case Nil
  then show ?case by auto
next
  case (Cons x xs)
  let ?i = "length made" and ?u = "us (length made)"
  define op where "op = expansion_node v ?u ?i x source name strat
    (if \<not> inherit then None else if chain \<and> strat = Sequential \<and> 0 < ?i then Some (made ! (?i - 1)) else Some source) shared"
  have op: "aggregation_sources op = []" unfolding op_def by (rule expansion_node_plain)
  let ?k = "\<lambda>b2. expand_items v us ks xs source name strat inherit chain shared (made @ [?u]) b2"
  have step: "expand_items v us ks (x # xs) source name strat inherit chain shared made b =
      then_do (enter ?u op b) (\<lambda>_ b1.
      then_do (connect (props v) [''expansion'', strategy_value strat] ks ?i [source] ?u b1) (\<lambda>_. ?k))"
    by (simp add: op_def Let_def)
  from Cons.prems(1) op show ?case
  proof (cases rule: enter_built[where u = ?u])
    case (refused e)
    then show ?thesis using Cons.prems step by simp
  next
    case (entered b1)
    have "?u \<notin> set [source]" using entered(3) Cons.prems(2) by auto
    from connect_built[OF entered(2,4) this, of "props v" "[''expansion'', strategy_value strat]" ks ?i]
    obtain q b2 where c: "connect (props v) [''expansion'', strategy_value strat] ks ?i [source] ?u b1 = (q, b2)"
      "built b2" "pile_keys (nodes (bgraph b2)) = pile_keys (nodes (bgraph b)) @ [?u]"
      by (metis snd_conv surj_pair)
    have more: "source \<in> verts (bgraph b2)" "set (made @ [?u]) \<subseteq> verts (bgraph b2)"
      using c(3) Cons.prems(2,3) by (auto simp: verts_def)
    show ?thesis
    proof (cases q)
      case (Inl e)
      then show ?thesis using Cons.prems(4) step entered(1) c by simp
    next
      case (Inr z)
      then have "?k b2 = (r, b')" using Cons.prems(4) step entered(1) c by simp
      from Cons.IH[OF c(2) more this] show ?thesis .
    qed
  qed
qed

lemma expand_built:
  assumes b: "built b"
  shows "built (snd (expand_from_result v us ks xs source name strat inherit chain shared b))"
proof (cases "dhas (operations b) source")
  case False
  then show ?thesis using b by (simp add: expand_from_result_def)
next
  case True
  then have "source \<in> verts (bgraph b)" using builtD(3)[OF b] by (simp add: verts_def dget_None_iff)
  moreover obtain r b' where e: "expand_items v us ks xs source name strat inherit chain shared [] b = (r, b')" by fastforce
  ultimately have "built b'" "\<forall>ms. r = Inr ms \<longrightarrow> set ms \<subseteq> verts (bgraph b')"
    using expand_items_built[OF b, of source "[]"] by auto
  then show ?thesis using True e built_heads by (cases r) (auto simp: expand_from_result_def)
qed

lemma add_aggregation_built:
  assumes b: "built b" and d: "\<And>hs. given = Some hs \<Longrightarrow> u \<notin> set hs"
  shows "built (snd (add_aggregation v u ks name n given inherit i branch ps b))"
proof -
  let ?ss = "case given of Some (h # hs) \<Rightarrow> h # hs | _ \<Rightarrow> current_heads b"
  have ss: "set ?ss \<subseteq> verts (bgraph b) \<or> u \<notin> set ?ss"
    using d builtD(4)[OF b] by (auto split: option.split list.split)
  have fin: "built (b2\<lparr>current_heads := [u], last_operation_id := Some u\<rparr>)"
    if "built b2" "u \<in> verts (bgraph b2)" for b2 :: "('a, 'b) builder" using that built_heads[of b2 "[u]"] by simp
  show ?thesis
  proof (cases "?ss = []")
    case True
    then show ?thesis using b by (simp add: add_aggregation_def)
  next
    case False
    have "built (snd (then_do (enter u (aggregation_node v u name n ?ss inherit i branch ps) b) (\<lambda>_ b1.
        then_do (connect (props v) [''aggregate''] ks 0 ?ss u b1) (\<lambda>_ b2.
        (Inr u, b2\<lparr>current_heads := [u], last_operation_id := Some u\<rparr>)))))"
      by (rule enter_connect_built[OF b aggregation_node_plain]) (use ss fin in auto)
    then show ?thesis using False by (simp add: add_aggregation_def Let_def)
  qed
qed

lemma add_conditional_branch_built:
  assumes b: "built b"
  shows "built (snd (add_conditional_branch v us ks check true_op false_op ps b))"
proof -
  obtain c t f where us: "us = (c, t, f)" by (cases us)
  show ?thesis unfolding add_conditional_branch_def us prod.case Let_def
  proof (rule enter_connect_built[OF b created_plain])
    fix b2 :: "('a, 'b) builder"
    assume b2: "built b2" "c \<in> verts (bgraph b2)"
    show "built (snd (then_do (enter t (create_operation t (clock v) true_op [(''branch'', VStr ''true'')]) b2) (\<lambda>_ b3.
        then_do (connect (props v) [''if_true''] ks (length (current_heads b)) [c] t b3) (\<lambda>_ b4.
        case option_text false_op of
          [] \<Rightarrow> (Inr (c, t, None), b4\<lparr>current_heads := [t]\<rparr>)
        | x # xs \<Rightarrow>
            then_do (enter f (create_operation f (clock v) (x # xs) [(''branch'', VStr ''false'')]) b4) (\<lambda>_ b5.
            then_do (connect (props v) [''if_false''] ks (Suc (length (current_heads b))) [c] f b5) (\<lambda>_ b6.
            (Inr (c, t, Some f), b6\<lparr>current_heads := [t, f]\<rparr>)))))))"
    proof (rule enter_connect_built[OF b2(1) created_plain])
      fix b4 :: "('a, 'b) builder"
      assume b4: "built b4" "verts (bgraph b2) \<subseteq> verts (bgraph b4)" "t \<in> verts (bgraph b4)"
      show "built (snd (case option_text false_op of
          [] \<Rightarrow> (Inr (c, t, None), b4\<lparr>current_heads := [t]\<rparr>)
        | x # xs \<Rightarrow>
            then_do (enter f (create_operation f (clock v) (x # xs) [(''branch'', VStr ''false'')]) b4) (\<lambda>_ b5.
            then_do (connect (props v) [''if_false''] ks (Suc (length (current_heads b))) [c] f b5) (\<lambda>_ b6.
            (Inr (c, t, Some f), b6\<lparr>current_heads := [t, f]\<rparr>)))))"
      proof (cases "option_text false_op")
        case Nil
        then show ?thesis using built_heads[OF b4(1), of "[t]"] b4(3) by simp
      next
        case (Cons x xs)
        show ?thesis unfolding Cons list.case
          by (rule enter_connect_built[OF b4(1) created_plain])
            (use b2(2) b4(2,3) in \<open>auto intro!: built_heads[THEN conjunct1]\<close>)
      qed
    qed (use b2(2) in auto)
  qed (use builtD(4)[OF b] in auto)
qed


section \<open>Sequences of calls\<close>

text \<open>A call with its arguments and the ids it draws; \<open>proper\<close>: a new id is not among those it is to follow.\<close>

datatype 'p builder_call =
    AddOperation "'p benv" uuid "nat \<Rightarrow> uuid" string "string option" "uuid list option" bool bool "uuid option"
      "(string \<times> val) list"
  | Expand "'p benv" "nat \<Rightarrow> uuid" "nat \<Rightarrow> uuid" "val list" uuid string strategy bool bool "(string \<times> val) list"
  | Aggregate "'p benv" uuid "nat \<Rightarrow> uuid" string "string option" "uuid list option" bool nat "uuid option"
      "(string \<times> val) list"
  | Conditional "'p benv" "uuid \<times> uuid \<times> uuid" "nat \<Rightarrow> uuid" string string "string option" "(string \<times> val) list"
  | MarkExecuted "uuid list"

definition follows :: "uuid \<Rightarrow> uuid list option \<Rightarrow> bool" where
  "follows u hs \<longleftrightarrow> (case hs of Some l \<Rightarrow> u \<in> set l | None \<Rightarrow> False)"

fun proper :: "'p builder_call \<Rightarrow> bool" where
  "proper (AddOperation v u ks name n deps inherit gate branch ps) \<longleftrightarrow> \<not> follows u deps"
| "proper (Aggregate v u ks name n given inherit i branch ps) \<longleftrightarrow> \<not> follows u given"
| "proper _ \<longleftrightarrow> True"

fun builder_step :: "('c, 'p) builder \<Rightarrow> 'p builder_call \<Rightarrow> ('c, 'p) builder" where
  "builder_step b (AddOperation v u ks name n deps inherit gate branch ps) =
     snd (add_operation v u ks name n deps inherit gate branch ps b)"
| "builder_step b (Expand v us ks xs source name strat inherit chain shared) =
     snd (expand_from_result v us ks xs source name strat inherit chain shared b)"
| "builder_step b (Aggregate v u ks name n given inherit i branch ps) =
     snd (add_aggregation v u ks name n given inherit i branch ps b)"
| "builder_step b (Conditional v us ks check t f ps) = snd (add_conditional_branch v us ks check t f ps b)"
| "builder_step b (MarkExecuted us) = mark_executed us b"

lemma builder_step_built: "built b \<Longrightarrow> proper c \<Longrightarrow> built (builder_step b c)"
proof (cases c)
  case (AddOperation v u ks name n deps inherit gate branch ps)
  then show "built b \<Longrightarrow> proper c \<Longrightarrow> built (builder_step b c)"
    by (auto simp: follows_def intro!: add_operation_built)
next
  case (Aggregate v u ks name n given inherit i branch ps)
  then show "built b \<Longrightarrow> proper c \<Longrightarrow> built (builder_step b c)"
    by (auto simp: follows_def intro!: add_aggregation_built)
next
  case (MarkExecuted us)
  then show "built b \<Longrightarrow> proper c \<Longrightarrow> built (builder_step b c)" by (simp add: built_def mark_executed_def)
qed (auto intro: expand_built add_conditional_branch_built)

lemma new_builder_built: "built new_builder"
proof -
  have "pile_keys (nodes (empty_graph :: (unit, 'a, 'b) graph)) = []"
    by (simp add: empty_graph_def pile_keys_def pile_of_def)
  then show ?thesis using empty_graph_inv by (simp add: built_def new_builder_def topo_def)
qed

text \<open>The builder after some calls; a call that is not proper cannot happen, as new ids are fresh.\<close>

definition build :: "'p builder_call list \<Rightarrow> ('c, 'p) builder" where
  "build cs = foldl builder_step new_builder (filter proper cs)"

interpretation builder_calls: stepping "\<lambda>b c. if proper c then builder_step b c else b" built
  by unfold_locales (simp add: builder_step_built)

lemma build_built: "built (build cs)"
proof -
  have "foldl builder_step b (filter proper cs) = foldl (\<lambda>b c. if proper c then builder_step b c else b) b cs"
    for b :: "('a, 'b) builder" by (induction cs arbitrary: b) simp_all
  then show ?thesis using builder_calls.run_inv[OF new_builder_built, of cs] by (simp add: build_def)
qed

lemma built_starts:
  assumes b: "built b" and d: "card (verts (bgraph b)) < d"
  shows "\<exists>s. starts (bgraph b) (operations b) ctx limit d s" "acyclic (waits_on (bgraph b) (operations b))"
proof -
  note B = builtD[OF b]
  have "\<not> cyclic (bgraph b)" by (rule topo_acyclic[OF B(1,2)]) (simp add: verts_def)
  then have ac: "acyclic (arcs (bgraph b))" by (simp add: cyclic_acyclic)
  then have "is_acyclic d (bgraph b) = Inr True" using is_acyclic_spec[OF B(1) d] by (simp add: cyclic_acyclic)
  then show "\<exists>s. starts (bgraph b) (operations b) ctx limit d s"
    using B(1) by (simp add: starts_def execute_def mk_dag_def Let_def)
  have "sources (operations b) u = []" for u
    using B(5) by (auto simp: sources_def split: option.split dest: map_of_SomeD)
  then show "acyclic (waits_on (bgraph b) (operations b))" using ac by (simp add: waits_on_def)
qed

section \<open>Properties\<close>

text \<open>
  C5. What the builder builds, the executor runs to its end, as long as the interpreter allows one more
  frame of recursion than there are operations (the acyclicity check of the executor recurses along the
  graph) and the limiter, when there is one, has at least one slot.  After any sequence of builder calls
  (operations, expansions, aggregations, conditional branches, some of which may have raised halfway;
  the id a call draws is new, so that no call names its own new operation among those it follows) every
  edge leads from an operation to one entered later.  With more than \<open>card (verts (bgraph b))\<close> frames
  (\<open>depth\<close>) the executor accepts the graph, and with a limit other than zero, in any run of it without
  pause or cancellation, either some task can take a step or every task has ended and every completion
  event is set.
\<close>

theorem built_graphs_run:
  fixes cs :: "'p builder_call list" and b :: "('c, 'p) builder"
  defines "b \<equiv> build cs"
  assumes "card (verts (bgraph b)) < depth" "limit \<noteq> Some 0"
  shows "topo (bgraph b) (pile_keys (nodes (bgraph b))) \<and>
    (\<exists>s0. execute depth (mk_dag (bgraph b) (operations b) ctx limit) = (Inr (), s0) \<and>
      (\<forall>v moves s. exec_run v (map (\<lambda>(n, ans). Task n ans) moves) s0 = Some s \<longrightarrow>
        (\<exists>n ans. exec_step v (Task n ans) s \<noteq> None) \<or>
        (\<forall>(u, p) \<in> set (tasks s). ended p \<and> dget (completion_events s) u = Some True)))"
proof -
  have b: "built b" unfolding b_def by (rule build_built)
  from built_starts(1)[OF b assms(2)] obtain s0 where s0: "starts (bgraph b) (operations b) ctx limit depth s0" by blast
  then have "execute depth (mk_dag (bgraph b) (operations b) ctx limit) = (Inr (), s0)" by (simp add: starts_def)
  then show ?thesis
    using builtD(2)[OF b] flow_runs_on[OF s0 built_starts(2)[OF b assms(2)] assms(3)] by blast
qed


definition ex_benv :: "unit benv" where
  "ex_benv = \<lparr>clock = 0, props = (), text_of = (\<lambda>x. []), model_dump = (\<lambda>x. [])\<rparr>"

text \<open>A root, an operation chained behind it, and a conditional branch of three more.\<close>

definition ex_calls :: "unit builder_call list" where
  "ex_calls =
     [AddOperation ex_benv 1 (\<lambda>i. 20 + i) ''chat'' None None False False None [],
      AddOperation ex_benv 2 (\<lambda>i. 30 + i) ''chat'' (Some ''step'') (Some [1]) False True None [],
      Conditional ex_benv (3, 4, 5) (\<lambda>i. 40 + i) ''check'' ''yes'' (Some ''no'') []]"

definition ex_builder :: "(unit, unit) builder" where
  "ex_builder = build ex_calls"

lemma ex_built:
  "(pile_keys (nodes (bgraph ex_builder)), pile_keys (edges (bgraph ex_builder)), current_heads ex_builder)
   = ([1, 2, 3, 4, 5], [30, 40, 41, 42], [4, 5])"
  by code_simp

theorem built_graphs_run_witness:
  "\<exists>s0. execute 10 (mk_dag (bgraph ex_builder) (operations ex_builder) [] (Some 1)) = (Inr (), s0) \<and>
     (\<exists>n ans. exec_step ex_env (Task n ans) s0 \<noteq> None)"
proof -
  have k: "pile_keys (nodes (bgraph ex_builder)) = [1, 2, 3, 4, 5]" using ex_built by simp
  then have "card (verts (bgraph (build ex_calls :: (unit, unit) builder))) < 10"
    by (simp add: verts_def flip: ex_builder_def)
  from built_graphs_run[OF this, of "Some 1" "[]"] obtain s0 where
    s0: "execute 10 (mk_dag (bgraph ex_builder) (operations ex_builder) [] (Some 1)) = (Inr (), s0)"
      "exec_run ex_env (map (\<lambda>(n, ans). Task n ans) []) s0 = Some s0 \<Longrightarrow>
        (\<exists>n ans. exec_step ex_env (Task n ans) s0 \<noteq> None) \<or> (\<forall>(u, p) \<in> set (tasks s0). ended p)"
    unfolding ex_builder_def by fastforce
  have "(1, Fresh) \<in> set (tasks s0)"
  proof -
    have "map_option (\<lambda>s. (1, Fresh) \<in> set (tasks s)) (case execute 10 (mk_dag (bgraph ex_builder) (operations ex_builder) [] (Some 1))
        of (Inr x, s) \<Rightarrow> Some s | _ \<Rightarrow> None) = Some True" by code_simp
    then show ?thesis unfolding s0(1) by simp
  qed
  then show ?thesis using s0 by auto
qed

end
