(* ===== verification/Flow_Reactive.thy ===== *)
theory Flow_Reactive
  imports Flow_Run
begin

text \<open>
  The reactive executor: \<open>ReactiveExecutor\<close> of \<open>lionagi/operations/flow.py\<close>, which grows its graph while
  it runs.

  Its state extends that of \<open>Flow_Exec\<close> (\<open>rdag\<close>, as its class extends the other).  A request found in
  the result of an operation, sent over the bus or injected by a caller becomes an operation that
  \<open>_accept_node\<close> adds to the graph, unless the cap is reached or the graph would get a cycle.  The ids of
  the operations and edges made for a request are functions of the request's identity (\<open>renv\<close>), as are
  the results of the caller's \<open>node_builder\<close>; \<open>depth\<close> is the interpreter's recursion depth.  A call
  that raises inside a task lets the exception out of the task (\<open>Inl\<close>).  Branches are outside, and
  the callbacks \<open>spawn_branch_setup\<close> and \<open>on_op_complete\<close> are actions of the caller.
\<close>

section \<open>State\<close>

record drop =
  dreason :: string
  dassignee :: val
  demitter :: "uuid option"
  dop :: "uuid option"

record flow_event =
  operation_id :: uuid
  event_name :: val
  event_status :: string
  event_result :: "val option"
  event_spawned :: bool

record ('c, 'p) rdag = "('c, 'p) dag" +
  running :: bool
  max_spawn :: nat
  spawn_count :: nat
  dropped_spawns :: "drop list"
  seen_reqs :: "nat set"
  spawned_ids :: "uuid set"
  escalated_ids :: "uuid set"
  sink :: "flow_event list option"

record 'p renv =
  base :: env
  depth :: nat
  now :: int
  spawn_type :: string
  node_builder :: "val \<Rightarrow> uuid option \<Rightarrow> pyerr + (uuid \<times> oper) option"
  child_id :: "nat \<Rightarrow> uuid"
  edge_id :: "nat \<Rightarrow> uuid"
  plain_props :: 'p

section \<open>Requests\<close>

text \<open>\<open>_extract_spawn_requests\<close>: instances of a class in a value, to depth 4.\<close>

fun visit_value :: "string \<Rightarrow> nat \<Rightarrow> val \<Rightarrow> val list" where
  "visit_value cls 0 x = []"
| "visit_value cls (Suc n) x =
     (case x of
        VModel i cs fs \<Rightarrow> if cls \<in> set cs then [x] else concat (map (\<lambda>(k, y). visit_value cls n y) fs)
      | VList ys \<Rightarrow> concat (map (visit_value cls n) ys)
      | VDict d \<Rightarrow> concat (map (\<lambda>(k, y). visit_value cls n y) d)
      | _ \<Rightarrow> [])"

definition extract_spawn_requests :: "val \<Rightarrow> string \<Rightarrow> val list" where
  "extract_spawn_requests r cls = visit_value cls 5 r"

definition req_field :: "string \<Rightarrow> val \<Rightarrow> val" where
  "req_field k req = (case dget (vfields req) k of Some v \<Rightarrow> v | None \<Rightarrow> VNone)"

text \<open>\<open>_default_node_builder\<close>.\<close>

definition default_node_builder :: "(nat \<Rightarrow> uuid) \<Rightarrow> int \<Rightarrow> val \<Rightarrow> uuid option \<Rightarrow> pyerr + (uuid \<times> oper) option" where
  "default_node_builder ids t req emitter =
     (let name = (case req_field ''operation'' req of VStr (c # cs) \<Rightarrow> c # cs | _ \<Rightarrow> ''operate'')
      in Inr (Some (ids (oid req),
            create_operation (ids (oid req)) t name [(''instruction'', req_field ''instruction'' req)])))"

section \<open>Accepting an operation\<close>

definition record_dropped_spawn ::
    "string \<Rightarrow> val \<Rightarrow> uuid option \<Rightarrow> uuid option \<Rightarrow> ('c, 'p) rdag \<Rightarrow> ('c, 'p) rdag" where
  "record_dropped_spawn reason who emitter child s =
     s\<lparr>dropped_spawns := dropped_spawns s @
        [\<lparr>dreason = reason, dassignee = who, demitter = emitter, dop = child\<rparr>]\<rparr>"

definition on_graph ::
    "((unit, 'c, 'p) graph \<Rightarrow> ('a, (unit, 'c, 'p) graph) eff) \<Rightarrow> ('c, 'p) rdag \<Rightarrow> ('a, ('c, 'p) rdag) eff" where
  "on_graph f s = (case f (fgraph s) of (r, g) \<Rightarrow> (r, s\<lparr>fgraph := g\<rparr>))"

text \<open>\<open>newly_added\<close>: the node, its event and its operation object enter the executor.\<close>

definition add_child :: "uuid \<Rightarrow> oper \<Rightarrow> ('c, 'p) rdag \<Rightarrow> (unit, ('c, 'p) rdag) eff" where
  "add_child u op s =
     then_do (on_graph (add_node (Elem u operation_mro ())) s) (\<lambda>_ s1.
     (Inr (), s1\<lparr>completion_events := dset u False (completion_events s1), ops := dset u op (ops s1)\<rparr>))"

definition spawn_edge :: "'p \<Rightarrow> uuid \<Rightarrow> uuid \<Rightarrow> uuid \<Rightarrow> ('c, 'p) edge elem" where
  "spawn_edge props k h t =
     Elem k edge_mro \<lparr>ehead = h, etail = t, econd = None, elabel = Some [''spawn''], eprops = props\<rparr>"

definition roll_back :: "uuid option \<Rightarrow> bool \<Rightarrow> uuid \<Rightarrow> ('c, 'p) rdag \<Rightarrow> (unit, ('c, 'p) rdag) eff" where
  "roll_back edge newly u s =
     then_do (case edge of Some k \<Rightarrow> on_graph (remove_edge (RUuid k)) s | None \<Rightarrow> (Inr (), s)) (\<lambda>_ s1.
       if newly
       then then_do (on_graph (remove_node (RUuid u)) s1) (\<lambda>_ s2.
              (Inr (), s2\<lparr>completion_events := ddel u (completion_events s2), ops := ddel u (ops s2)\<rparr>))
       else (Inr (), s1))"

text \<open>What follows the lock for a node that is new: its metadata, the signals.\<close>

definition announce_child :: "uuid \<Rightarrow> uuid option \<Rightarrow> bool \<Rightarrow> ('c, 'p) rdag \<Rightarrow> ('c, 'p) rdag" where
  "announce_child u emitter indep s =
     (let s1 = (case (emitter, dget (ops s) u) of
                  (Some e, Some op) \<Rightarrow>
                    if indep then s else put_op u (set_meta ''parent_id'' (VStr (uuid_str e)) op) s
                | _ \<Rightarrow> s);
          s2 = s1\<lparr>bus := bus s1 @ [NodeSpawned u emitter indep]\<rparr>
      in announce_queued u s2)"

definition link_child ::
    "'p renv \<Rightarrow> uuid \<Rightarrow> uuid \<Rightarrow> uuid option \<Rightarrow> bool \<Rightarrow> ('c, 'p) rdag \<Rightarrow> (uuid option, ('c, 'p) rdag) eff" where
  "link_child v k u emitter indep s =
     (case emitter of
        None \<Rightarrow> (Inr None, s)
      | Some e \<Rightarrow>
          if indep then (Inr None, s)
          else then_do (on_graph (add_edge (spawn_edge (plain_props v) k e u)) s) (\<lambda>_ s1. (Inr (Some k), s1)))"

definition accept_node ::
    "'p renv \<Rightarrow> uuid \<Rightarrow> uuid \<Rightarrow> oper \<Rightarrow> uuid option \<Rightarrow> bool \<Rightarrow> ('c, 'p) rdag \<Rightarrow> (bool, ('c, 'p) rdag) eff" where
  "accept_node v k u op emitter indep s =
     (if max_spawn s \<le> spawn_count s
      then (Inr False, record_dropped_spawn ''max_spawn_exceeded'' (meta ''assignee'' op) emitter (Some u) s)
      else
        (let newly = \<not> has_node (fgraph s) u
         in then_do (if newly then add_child u op s else (Inr (), s)) (\<lambda>_ s1.
            then_do (link_child v k u emitter indep s1) (\<lambda>edge s2.
              case is_acyclic (depth v) (fgraph s2) of
                Inl e \<Rightarrow> (Inl e, s2)
              | Inr False \<Rightarrow>
                  then_do (roll_back edge newly u s2) (\<lambda>_ s3.
                  (Inr False, record_dropped_spawn ''cycle'' (meta ''assignee'' op) emitter (Some u) s3))
              | Inr True \<Rightarrow>
                  (Inr True,
                   if newly
                   then announce_child u emitter indep
                          (s2\<lparr>spawn_count := Suc (spawn_count s2), spawned_ids := insert u (spawned_ids s2)\<rparr>)
                   else s2)))))"

definition start_soon :: "uuid \<Rightarrow> ('c, 'p) rdag \<Rightarrow> ('c, 'p) rdag" where
  "start_soon u s = s\<lparr>tasks := tasks s @ [(u, Fresh)]\<rparr>"

definition accept_and_run ::
    "'p renv \<Rightarrow> uuid \<Rightarrow> uuid \<Rightarrow> oper \<Rightarrow> uuid option \<Rightarrow> bool \<Rightarrow> ('c, 'p) rdag \<Rightarrow> (bool, ('c, 'p) rdag) eff" where
  "accept_and_run v k u op emitter indep s =
     then_do (accept_node v k u op emitter indep s) (\<lambda>b s1.
     (Inr b, if b then start_soon u s1 else s1))"

definition inject_request ::
    "'p renv \<Rightarrow> val \<Rightarrow> uuid option \<Rightarrow> ('c, 'p) rdag \<Rightarrow> (bool, ('c, 'p) rdag) eff" where
  "inject_request v req emitter s =
     (let who = req_field ''assignee'' req
      in if oid req \<in> seen_reqs s
         then (Inr False, record_dropped_spawn ''duplicate'' who emitter None s)
         else
           (let s1 = s\<lparr>seen_reqs := insert (oid req) (seen_reqs s)\<rparr>
            in (case node_builder v req emitter of
                  Inl e \<Rightarrow> (Inr False, record_dropped_spawn ''builder_error'' who emitter None s1)
                | Inr None \<Rightarrow> (Inr False, record_dropped_spawn ''null_child'' who emitter None s1)
                | Inr (Some (u, op)) \<Rightarrow>
                    accept_and_run v (edge_id v (oid req)) u op emitter
                      (truthy (req_field ''independent'' req)) s1)))"

text \<open>\<open>inject\<close>, called with a prepared operation and the id of the operation it comes after.\<close>

definition inject ::
    "'p renv \<Rightarrow> uuid \<Rightarrow> uuid \<Rightarrow> oper \<Rightarrow> uuid option \<Rightarrow> bool \<Rightarrow> ('c, 'p) rdag \<Rightarrow> (bool, ('c, 'p) rdag) eff" where
  "inject v k u op after indep s =
     (if \<not> running s then (Inr False, s) else accept_and_run v k u op after indep s)"

definition can_inject :: "int \<Rightarrow> ('c, 'p) rdag \<Rightarrow> pyerr + bool" where
  "can_inject n s =
     (if n < 0 then Inl ValueError
      else Inr (running s \<and> int (spawn_count s) + n \<le> int (max_spawn s)))"

section \<open>Escalation\<close>

definition escalation_route :: "val \<Rightarrow> val" where
  "escalation_route req =
     (let ctx = (case req_field ''context'' req of VDict d \<Rightarrow> d | _ \<Rightarrow> []);
          urgency = (if dhas (vfields req) ''urgency'' then req_field ''urgency'' req else VStr ''blocked'')
      in (case dget ctx ''route'' of
            Some r \<Rightarrow> r
          | None \<Rightarrow> if urgency = VStr ''blocked'' then VStr ''higher_tier'' else VStr ''notify''))"

definition escalation_child :: "'p renv \<Rightarrow> val \<Rightarrow> uuid \<Rightarrow> oper \<Rightarrow> oper" where
  "escalation_child v req e op =
     (let u = child_id v (oid req); ps = parameters (payload op);
          name = fst (display_name e op); str = str_of (base v);
          instr = ''[escalation] '' @ (case dget (vfields req) ''reason'' of Some x \<Rightarrow> str x | None \<Rightarrow> []) @ newline @ ''Original: '' @
                  (case dget ps ''instruction'' of Some x \<Rightarrow> str x | None \<Rightarrow> []);
          child = create_operation u (now v) (op_name (payload op))
                    (filter (\<lambda>(k, _). k \<noteq> ''instruction'') ps @ [(''instruction'', VStr instr)])
      in set_meta ''reference_id'' (VStr (uuid_str u))
         (set_meta ''display_name'' (VStr (str name @ '' escalation retry''))
         (set_meta ''escalated_from_name'' name
         (set_meta ''escalated_from'' (VStr (uuid_str e)) child))))"

definition schedule_escalation ::
    "'p renv \<Rightarrow> val \<Rightarrow> uuid option \<Rightarrow> ('c, 'p) rdag \<Rightarrow> (unit, ('c, 'p) rdag) eff" where
  "schedule_escalation v req emitter s =
     (if oid req \<in> seen_reqs s then (Inr (), s)
      else
        (let route = escalation_route req;
             s1 = s\<lparr>seen_reqs := insert (oid req) (seen_reqs s), bus := bus s @ [NodeEscalated emitter route]\<rparr>
         in (case emitter of
               None \<Rightarrow> (Inr (), s1)
             | Some e \<Rightarrow>
                 if route = VStr ''higher_tier''
                 then (case dget (ops s1) e of
                         None \<Rightarrow> (Inr (), s1)
                       | Some op \<Rightarrow>
                           then_do (accept_node v (edge_id v (oid req)) (child_id v (oid req))
                                      (escalation_child v req e op) (Some e) True s1) (\<lambda>b s2.
                           (Inr (), if b then s2\<lparr>escalated_ids := insert e (escalated_ids s2)\<rparr> else s2)))
                 else if route = VStr ''notify'' then (Inr (), s1)
                 else (Inr (), s1\<lparr>escalated_ids := insert e (escalated_ids s1)\<rparr>))))"

section \<open>The end of a task\<close>

definition make_event :: "uuid \<Rightarrow> oper \<Rightarrow> ('c, 'p) rdag \<Rightarrow> flow_event" where
  "make_event u op s =
     \<lparr>operation_id = u, event_name = fst (display_name u op),
      event_status =
        (if u \<in> skipped s then ''skipped''
         else if ev_status op = CANCELLED then ''cancelled''
         else if ev_status op = FAILED then ''failed'' else ''completed''),
      event_result = dget (results s) u, event_spawned = u \<in> spawned_ids s\<rparr>"

fun each :: "(val \<Rightarrow> 's \<Rightarrow> ('a, 's) eff) \<Rightarrow> val list \<Rightarrow> 's \<Rightarrow> (unit, 's) eff" where
  "each f [] s = (Inr (), s)"
| "each f (x # xs) s = then_do (f x s) (\<lambda>_ s1. each f xs s1)"

text \<open>What \<open>_run_tracked\<close> does after \<open>_execute_operation\<close> has returned.\<close>

definition run_tracked_tail :: "'p renv \<Rightarrow> uuid \<Rightarrow> ('c, 'p) rdag \<Rightarrow> (unit, ('c, 'p) rdag) eff" where
  "run_tracked_tail v u s =
     (case dget (ops s) u of
        None \<Rightarrow> (Inr (), s)
      | Some op \<Rightarrow>
          (let s1 = (case sink s of Some es \<Rightarrow> s\<lparr>sink := Some (es @ [make_event u op s])\<rparr> | None \<Rightarrow> s);
               found = (\<lambda>cls s. extract_spawn_requests (case dget (results s) u of Some r \<Rightarrow> r | None \<Rightarrow> VNone) cls)
           in then_do (each (\<lambda>req. inject_request v req (Some u)) (found (spawn_type v) s1) s1) (\<lambda>_ s2.
              each (\<lambda>req. schedule_escalation v req (Some u)) (found ''EscalationRequest'' s2) s2)))"

section \<open>Steps\<close>

text \<open>
  An action of the base executor, a call of \<open>inject\<close>, a request arriving on the bus with the
  operation whose task emitted it, or the end of \<open>execute\<close> once every task of the group has ended.  An
  exception that leaves a task makes the group cancel the others (\<open>CancelTask\<close> actions).
\<close>

datatype raction =
    Base action
  | Inject uuid uuid oper "uuid option" bool
  | BusSpawn val "uuid option"
  | BusEscalation val "uuid option"
  | Leave

definition returned :: "action \<Rightarrow> ('c, 'p, 'z) dag_scheme \<Rightarrow> ('c, 'p, 'z) dag_scheme \<Rightarrow> uuid option" where
  "returned a s s' =
     (case a of
        Task n _ \<Rightarrow>
          if n < length (tasks s') \<and> snd (tasks s' ! n) = Finished then Some (fst (tasks s' ! n)) else None
      | _ \<Rightarrow> None)"

definition reactive_step :: "'p renv \<Rightarrow> raction \<Rightarrow> ('c, 'p) rdag \<Rightarrow> ('c, 'p) rdag option" where
  "reactive_step v a s =
     (case a of
        Base b \<Rightarrow>
          (case exec_step (base v) b s of
             None \<Rightarrow> None
           | Some s' \<Rightarrow>
               Some (case returned b s s' of Some u \<Rightarrow> snd (run_tracked_tail v u s') | None \<Rightarrow> s'))
      | Inject k u op after indep \<Rightarrow> Some (snd (inject v k u op after indep s))
      | BusSpawn req emitter \<Rightarrow>
          Some (if running s then snd (inject_request v req emitter s) else s)
      | BusEscalation req emitter \<Rightarrow>
          Some (if running s then snd (schedule_escalation v req emitter s) else s)
      | Leave \<Rightarrow>
          if list_all (\<lambda>(u, p). ended p) (tasks s) then Some (s\<lparr>running := False\<rparr>) else None)"

fun reactive_run :: "'p renv \<Rightarrow> raction list \<Rightarrow> ('c, 'p) rdag \<Rightarrow> ('c, 'p) rdag option" where
  "reactive_run v [] s = Some s"
| "reactive_run v (a # as) s =
     (case reactive_step v a s of None \<Rightarrow> None | Some s' \<Rightarrow> reactive_run v as s')"

section \<open>Construction\<close>

definition mk_rdag :: "nat \<Rightarrow> bool \<Rightarrow> ('c, 'p) dag \<Rightarrow> ('c, 'p) rdag" where
  "mk_rdag cap stream_out d =
     dag.extend d
       \<lparr>running = False, max_spawn = cap, spawn_count = 0, dropped_spawns = [], seen_reqs = {},
        spawned_ids = {}, escalated_ids = {}, sink = (if stream_out then Some [] else None)\<rparr>"

definition execute_reactive :: "nat \<Rightarrow> ('c, 'p) rdag \<Rightarrow> (unit, ('c, 'p) rdag) eff" where
  "execute_reactive d s =
     then_do (execute d s) (\<lambda>_ s1. (Inr (), s1\<lparr>running := True\<rparr>))"


section \<open>Accepting keeps the graph\<close>

text \<open>The edges and the ordered nodes of a graph.\<close>

definition shape :: "('n, 'c, 'p) graph \<Rightarrow> uuid list \<times> ends" where
  "shape g = (pile_keys (nodes g), ends_of g)"

lemma shape_verts: "shape g = (ns, ev) \<Longrightarrow> verts g = set ns \<and> arcs g = {(h, t). \<exists>k. ev k = Some (h, t)}"
  by (auto simp: shape_def verts_def arcs_def)

lemma has_node_verts: "graph_inv g \<Longrightarrow> has_node g u \<longleftrightarrow> u \<in> verts g"
  using has_node_iff[OF graph_invD(1)] by (simp add: verts_def)

lemma add_child_result:
  assumes inv: "graph_inv (fgraph s)" and sh: "shape (fgraph s) = (ns, ev)"
  obtains (refused) e where "add_child u op s = (Inl e, s)"
  | (added) g where "add_child u op s = (Inr (), s\<lparr>fgraph := g,
        completion_events := dset u False (completion_events s), ops := dset u op (ops s)\<rparr>)"
      "graph_inv g" "shape g = (ns @ [u], ev)"
proof -
  have n: "''Node'' \<in> set (emro (Elem u operation_mro ()))" by (simp add: operation_mro_def)
  from inv n show thesis
    by (cases rule: add_node_cases) (use sh in \<open>auto simp: add_child_def on_graph_def shape_def intro: refused added\<close>)
qed

lemma link_child_result:
  fixes s :: "('c, 'p) rdag"
  assumes inv: "graph_inv (fgraph s)" and sh: "shape (fgraph s) = (ns, ev)"
  obtains (refused) e where "link_child v k u emitter indep s = (Inl e, s)"
  | (unlinked) "link_child v k u emitter indep s = (Inr None, s)"
  | (linked) e g where "link_child v k u emitter indep s = (Inr (Some k), s\<lparr>fgraph := g\<rparr>)"
      "graph_inv g" "ev k = None" "shape g = (ns, ev(k \<mapsto> (e, u)))"
proof (cases "emitter = None \<or> indep")
  case True
  then show thesis by (intro unlinked) (auto simp: link_child_def split: option.split)
next
  case False
  then obtain e where e: "emitter = Some e" and ni: "\<not> indep" by auto
  let ?b = "spawn_edge (plain_props v) k e u :: ('c, 'p) edge elem"
  have "''Edge'' \<in> set (emro ?b)" by (simp add: spawn_edge_def edge_mro_def)
  with inv show thesis
  proof (cases rule: add_edge_cases)
    case (refused x)
    then show thesis using e ni by (intro \<open>\<And>e. link_child v k u emitter indep s = (Inl e, s) \<Longrightarrow> thesis\<close>)
        (simp add: link_child_def on_graph_def)
  next
    case (added g)
    then show thesis using e ni sh
      by (intro linked[of g e]) (simp_all add: link_child_def on_graph_def shape_def spawn_edge_def)
  qed
qed

lemma unlink_result:
  assumes "graph_inv (fgraph s)" "shape (fgraph s) = (ns, ev)" "ev k = Some (h, t)"
  shows "\<exists>g. on_graph (remove_edge (RUuid k)) s = (Inr (), s\<lparr>fgraph := g\<rparr>) \<and> graph_inv g \<and>
    shape g = (ns, ev(k := None))"
proof -
  have "ends_of (fgraph s) k = Some (h, t)" using assms(2,3) by (simp add: shape_def)
  from remove_edge_result[OF assms(1) _ this, of "RUuid k"] obtain g where
    "remove_edge (RUuid k) (fgraph s) = (Inr (), g)" "graph_inv g" "nodes g = nodes (fgraph s)"
    "ends_of g = (ends_of (fgraph s))(k := None)" by (auto simp: get_id_def)
  then show ?thesis using assms(2) by (auto simp: on_graph_def shape_def)
qed

lemma take_back_result:
  assumes "graph_inv (fgraph s)" "shape (fgraph s) = (ns @ [u], ev)" "\<And>k h t. ev k = Some (h, t) \<Longrightarrow> h \<noteq> u \<and> t \<noteq> u"
  shows "\<exists>g x. on_graph (remove_node (RUuid u)) s = (Inr x, s\<lparr>fgraph := g\<rparr>) \<and> graph_inv g \<and> shape g = (ns, ev)"
proof -
  let ?g = "fgraph s"
  have k: "pile_keys (nodes ?g) = ns @ [u]" "ends_of ?g = ev" using assms(2) by (simp_all add: shape_def)
  note w = graph_invD(1)[OF assms(1)]
  obtain x where x: "plook (nodes ?g) u = Some x"
    using pstore.ids_look[OF w, of u] k by auto
  from remove_node_result[OF assms(1) _ x, of "RUuid u"] obtain g where
    g: "remove_node (RUuid u) ?g = (Inr x, g)" "graph_inv g" "nodes g = pdel u (nodes ?g)"
    "ends_of g = incident_free (ends_of ?g) u" by (auto simp: get_id_def)
  have "distinct (ns @ [u])" using w k by (simp add: wf_pile_def pile_keys_def)
  then have "filter (\<lambda>y. y \<noteq> u) (ns @ [u]) = ns" by (auto simp: filter_id_conv)
  then have "pile_keys (nodes g) = ns" using pstore.del_ids[OF w, of u] k g(3) by simp
  moreover have "incident_free ev u = ev"
    using assms(3) by (auto simp: incident_free_def fun_eq_iff split: option.split)
  ultimately show ?thesis using g k by (auto simp: on_graph_def shape_def)
qed

lemma shape_inside: "graph_inv g \<Longrightarrow> shape g = (ns, ev) \<Longrightarrow> ev k = Some (h, t) \<Longrightarrow> h \<in> set ns \<and> t \<in> set ns"
  using graph_invD(5,6)[of g k h t] by (auto simp: shape_def)

lemma shape_acyclic:
  assumes "graph_inv g" "shape g = (ns, ev)" "length ns < d"
  shows "is_acyclic d g = Inr (acyclic (arcs g))"
proof -
  have "card (verts g) < d" using shape_verts[OF assms(2)] card_length[of ns] assms(3) by simp
  then show ?thesis using is_acyclic_spec[OF assms(1)] by (simp add: cyclic_acyclic)
qed

lemma acyclic_shape: "shape g = (ns, ev) \<Longrightarrow> shape g' = (ns', ev) \<Longrightarrow> acyclic (arcs g) \<Longrightarrow> acyclic (arcs g')"
  using shape_verts[of g ns ev] shape_verts[of g' ns' ev] by simp

text \<open>Taking back the edge and the node of a spawn that closed a cycle.\<close>

lemma roll_back_result:
  assumes "graph_inv (fgraph s)" "shape (fgraph s) = (ns, ev2)"
    and "edge = None \<and> ev2 = ev \<or> (\<exists>e. edge = Some k \<and> ev k = None \<and> ev2 = ev(k \<mapsto> (e, u)))"
    and "newly \<Longrightarrow> ns = ms @ [u] \<and> (\<forall>k h t. ev k = Some (h, t) \<longrightarrow> h \<noteq> u \<and> t \<noteq> u)"
  shows "\<exists>g. roll_back edge newly u s = (Inr (), s\<lparr>fgraph := g,
       completion_events := (if newly then ddel u (completion_events s) else completion_events s),
       ops := (if newly then ddel u (ops s) else ops s)\<rparr>) \<and>
     graph_inv g \<and> shape g = (if newly then ms else ns, ev)"
proof -
  have "\<exists>g. (case edge of Some k \<Rightarrow> on_graph (remove_edge (RUuid k)) s | None \<Rightarrow> (Inr (), s))
      = (Inr (), s\<lparr>fgraph := g\<rparr>) \<and> graph_inv g \<and> shape g = (ns, ev)"
    using assms(3)
  proof (elim disjE exE conjE)
    assume "edge = None" "ev2 = ev"
    then show ?thesis using assms(1,2) by (intro exI[of _ "fgraph s"]) simp
  next
    fix e assume e: "edge = Some k" "ev k = None" "ev2 = ev(k \<mapsto> (e, u))"
    from unlink_result[OF assms(1,2), of k e u] e obtain g where
      "on_graph (remove_edge (RUuid k)) s = (Inr (), s\<lparr>fgraph := g\<rparr>)" "graph_inv g" "shape g = (ns, ev2(k := None))"
      by auto
    moreover have "ev2(k := None) = ev" using e by auto
    ultimately show ?thesis using e(1) by auto
  qed
  then obtain g where g: "(case edge of Some k \<Rightarrow> on_graph (remove_edge (RUuid k)) s | None \<Rightarrow> (Inr (), s))
      = (Inr (), s\<lparr>fgraph := g\<rparr>)" "graph_inv g" "shape g = (ns, ev)" by blast
  show ?thesis
  proof (cases newly)
    case False
    then show ?thesis using g by (intro exI[of _ g]) (simp add: roll_back_def)
  next
    case True
    let ?s = "s\<lparr>fgraph := g\<rparr>"
    have "graph_inv (fgraph ?s)" "shape (fgraph ?s) = (ms @ [u], ev)" using g assms(4)[OF True] by simp_all
    from take_back_result[OF this] assms(4)[OF True] obtain g' x where
      "on_graph (remove_node (RUuid u)) ?s = (Inr x, ?s\<lparr>fgraph := g'\<rparr>)" "graph_inv g'" "shape g' = (ms, ev)"
      by blast
    then show ?thesis using g(1) True by (intro exI[of _ g']) (simp add: roll_back_def)
  qed
qed

text \<open>The outcomes of \<open>_accept_node\<close>: dropped, raised, rolled back, accepted as new, or already there.\<close>

definition with_child :: "uuid \<Rightarrow> oper \<Rightarrow> (unit, 'c, 'p) graph \<Rightarrow> ('c, 'p) rdag \<Rightarrow> ('c, 'p) rdag" where
  "with_child u op g s =
     s\<lparr>completion_events := dset u False (completion_events s), ops := dset u op (ops s), fgraph := g\<rparr>"

lemma with_child_graph [simp]:
  "fgraph (with_child u op g s) = g" "(with_child u op g s)\<lparr>fgraph := g'\<rparr> = with_child u op g' s"
  "s\<lparr>fgraph := g, completion_events := dset u False (completion_events s), ops := dset u op (ops s)\<rparr>
    = with_child u op g s"
  "spawn_count (with_child u op g s) = spawn_count s" "spawned_ids (with_child u op g s) = spawned_ids s"
  "max_spawn (with_child u op g s) = max_spawn s" "tasks (with_child u op g s) = tasks s"
  "completion_events (with_child u op g s) = dset u False (completion_events s)"
  "ops (with_child u op g s) = dset u op (ops s)"
  by (simp_all add: with_child_def)

lemma accept_node_cases:
  fixes s :: "('c, 'p) rdag"
  assumes inv: "graph_inv (fgraph s)" and sh: "shape (fgraph s) = (ns, ev)"
  obtains
    (capped) "max_spawn s \<le> spawn_count s"
      "accept_node v k u op emitter indep s =
        (Inr False, record_dropped_spawn ''max_spawn_exceeded'' (meta ''assignee'' op) emitter (Some u) s)"
  | (refused) e where "accept_node v k u op emitter indep s = (Inl e, s)"
  | (orphaned) e g where "u \<notin> set ns" "\<not> indep" "accept_node v k u op emitter indep s = (Inl e, with_child u op g s)"
      "graph_inv g" "shape g = (ns @ [u], ev)"
  | (cycle) g ce os where
      "accept_node v k u op emitter indep s = (Inr False, record_dropped_spawn ''cycle'' (meta ''assignee'' op)
         emitter (Some u) (s\<lparr>fgraph := g, completion_events := ce, ops := os\<rparr>))"
      "graph_inv g" "shape g = (ns, ev)"
      "ce = (if u \<in> set ns then completion_events s else ddel u (dset u False (completion_events s)))"
      "os = (if u \<in> set ns then ops s else ddel u (dset u op (ops s)))"
  | (accepted) g ev' where "u \<notin> set ns" "spawn_count s < max_spawn s"
      "accept_node v k u op emitter indep s = (Inr True, announce_child u emitter indep
         ((with_child u op g s)\<lparr>spawn_count := Suc (spawn_count s), spawned_ids := insert u (spawned_ids s)\<rparr>))"
      "graph_inv g" "is_acyclic (depth v) g = Inr True" "shape g = (ns @ [u], ev')" "ev \<subseteq>\<^sub>m ev'"
  | (present) g ev' where "u \<in> set ns" "accept_node v k u op emitter indep s = (Inr True, s\<lparr>fgraph := g\<rparr>)"
      "graph_inv g" "is_acyclic (depth v) g = Inr True" "shape g = (ns, ev')" "ev \<subseteq>\<^sub>m ev'"
  | (too_deep) e g ev' where "is_acyclic (depth v) g = Inl e"
      "accept_node v k u op emitter indep s = (Inl e, if u \<in> set ns then s\<lparr>fgraph := g\<rparr> else with_child u op g s)"
      "graph_inv g" "shape g = (if u \<in> set ns then ns else ns @ [u], ev')" "ev \<subseteq>\<^sub>m ev'"
proof (cases "max_spawn s \<le> spawn_count s")
  case True
  then show thesis by (intro capped) (simp_all add: accept_node_def)
next
  case False
  then have room: "spawn_count s < max_spawn s" by simp
  let ?A = "accept_node v k u op emitter indep s" and ?new = "u \<notin> set ns"
  have newly: "(\<not> has_node (fgraph s) u) = ?new" using has_node_verts[OF inv] shape_verts[OF sh] by simp
  show thesis
  proof (cases "?new \<and> (\<exists>e. add_child u op s = (Inl e, s))")
    case True
    then obtain e where "add_child u op s = (Inl e, s)" by blast
    then show thesis using False newly True by (intro refused[of e]) (simp add: accept_node_def Let_def)
  next
    case noref: False
    define ms where "ms = (if ?new then ns @ [u] else ns)"
    have "\<exists>g1. (if ?new then add_child u op s else (Inr (), s)) =
         (Inr (), if ?new then with_child u op g1 s else s\<lparr>fgraph := g1\<rparr>) \<and> graph_inv g1 \<and> shape g1 = (ms, ev) \<and>
       (\<not> ?new \<longrightarrow> g1 = fgraph s)"
    proof (cases ?new)
      case True
      with noref have nr: "add_child u op s \<noteq> (Inl e, s)" for e by blast
      from inv sh show ?thesis
        by (cases rule: add_child_result[where u = u and op = op]) (use nr True in \<open>auto simp: ms_def\<close>)
    next
      case False
      then show ?thesis using inv sh by (intro exI[of _ "fgraph s"]) (simp add: ms_def)
    qed
    then obtain g1 where g1: "graph_inv g1" "shape g1 = (ms, ev)" "\<not> ?new \<Longrightarrow> g1 = fgraph s"
      and ad: "(if ?new then add_child u op s else (Inr (), s)) =
         (Inr (), if ?new then with_child u op g1 s else s\<lparr>fgraph := g1\<rparr>)" by blast
    let ?t = "if ?new then with_child u op g1 s else s\<lparr>fgraph := g1\<rparr>"
    have t: "fgraph ?t = g1" by simp
    show thesis
    proof (cases "\<exists>e. link_child v k u emitter indep ?t = (Inl e, ?t)")
      case True
      then obtain e where "link_child v k u emitter indep ?t = (Inl e, ?t)" by blast
      then have A: "?A = (Inl e, ?t)" using False newly ad by (simp add: accept_node_def Let_def)
      have dep: "\<not> indep" using True by (auto simp: link_child_def split: option.splits)
      show thesis
      proof (cases ?new)
        case True
        then show thesis using A g1 dep by (intro orphaned[of e g1]) (simp_all add: ms_def)
      next
        case False
        then show thesis using A g1(3) by (intro refused[of e]) simp
      qed
    next
      case nolink: False
      then have nr: "link_child v k u emitter indep ?t \<noteq> (Inl e, ?t)" for e by blast
      have "\<exists>edge g2 ev2. link_child v k u emitter indep ?t = (Inr edge, ?t\<lparr>fgraph := g2\<rparr>) \<and> graph_inv g2 \<and>
          shape g2 = (ms, ev2) \<and>
          (edge = None \<and> ev2 = ev \<or> (\<exists>e. edge = Some k \<and> ev k = None \<and> ev2 = ev(k \<mapsto> (e, u))))"
      proof (rule link_child_result[of ?t ms ev v k u emitter indep])
        show "graph_inv (fgraph ?t)" "shape (fgraph ?t) = (ms, ev)" unfolding t by (rule g1)+
      next
        assume "link_child v k u emitter indep ?t = (Inr None, ?t)"
        then show ?thesis using g1 t by (intro exI[of _ None] exI[of _ g1] exI[of _ ev]) simp
      qed (use nr in blast)+
      then obtain edge g2 ev2 where l: "link_child v k u emitter indep ?t = (Inr edge, ?t\<lparr>fgraph := g2\<rparr>)"
        and g2: "graph_inv g2" "shape g2 = (ms, ev2)"
        and ed: "edge = None \<and> ev2 = ev \<or> (\<exists>e. edge = Some k \<and> ev k = None \<and> ev2 = ev(k \<mapsto> (e, u)))" by blast
      have "ev \<subseteq>\<^sub>m ev2" using ed by (auto simp: map_le_def)
      have f2: "fgraph (?t\<lparr>fgraph := g2\<rparr>) = g2" by simp
      show thesis
      proof (cases "is_acyclic (depth v) g2")
        case (Inl e)
        show thesis
          using room newly ad l Inl g2 \<open>ev \<subseteq>\<^sub>m ev2\<close>
          by (intro too_deep[of g2 e ev2]) (auto simp: accept_node_def Let_def ms_def)
      next
        case (Inr b)
        show thesis
        proof (cases b)
          case True
          note ia = Inr
          show thesis
          proof (cases ?new)
            case new: True
            then show thesis using room newly ad l ia True g2 \<open>ev \<subseteq>\<^sub>m ev2\<close>
              by (intro accepted[of g2 ev2]) (simp_all add: accept_node_def Let_def ms_def)
          next
            case old: False
            then show thesis using room newly ad l ia True g2 \<open>ev \<subseteq>\<^sub>m ev2\<close>
              by (intro present[of g2 ev2]) (simp_all add: accept_node_def Let_def ms_def)
          qed
        next
          case cyc: False
          note ia = Inr
          have "\<And>k h t. ev k = Some (h, t) \<Longrightarrow> h \<in> set ns \<and> t \<in> set ns" by (rule shape_inside[OF inv sh])
          then have "?new \<Longrightarrow> ms = ns @ [u] \<and> (\<forall>k h t. ev k = Some (h, t) \<longrightarrow> h \<noteq> u \<and> t \<noteq> u)"
            by (auto simp: ms_def)
          then have new: "?new \<Longrightarrow> ms = ns @ [u] \<and> (\<forall>k h t. ev k = Some (h, t) \<longrightarrow> h \<noteq> u \<and> t \<noteq> u)" .
          show thesis
          proof (cases ?new)
            case True
            from roll_back_result[of "with_child u op g2 s" ms ev2 edge ev k u True ns] g2 ed new True
            obtain g3 where "roll_back edge True u (with_child u op g2 s) = (Inr (), (with_child u op g3 s)
                \<lparr>completion_events := ddel u (dset u False (completion_events s)), ops := ddel u (dset u op (ops s))\<rparr>)"
              "graph_inv g3" "shape g3 = (ns, ev)" by auto
            then show thesis using room newly ad l ia cyc True
              by (intro cycle[where g = g3]) (simp_all add: accept_node_def Let_def with_child_def)
          next
            case False
            from roll_back_result[of "s\<lparr>fgraph := g2\<rparr>" ms ev2 edge ev k u False ns] g2 ed
            obtain g3 where "roll_back edge False u (s\<lparr>fgraph := g2\<rparr>) = (Inr (), s\<lparr>fgraph := g3\<rparr>)"
              "graph_inv g3" "shape g3 = (ms, ev)" by auto
            then show thesis using room newly ad l ia cyc False
              by (intro cycle[where g = g3]) (simp_all add: accept_node_def Let_def ms_def)
          qed
        qed
      qed
    qed
  qed
qed


section \<open>What a run may do to the graph\<close>

definition counted :: "('c, 'p) rdag \<Rightarrow> bool" where
  "counted s \<longleftrightarrow> finite (spawned_ids s) \<and> spawned_ids s \<subseteq> verts (fgraph s) \<and>
     card (spawned_ids s) = spawn_count s \<and> spawn_count s \<le> max_spawn s"

definition grows :: "'p renv \<Rightarrow> ('c, 'p) rdag \<Rightarrow> ('c, 'p) rdag \<Rightarrow> bool" where
  "grows v s s' \<longleftrightarrow> graph_inv (fgraph s') \<and> verts (fgraph s) \<subseteq> verts (fgraph s') \<and>
     ends_of (fgraph s) \<subseteq>\<^sub>m ends_of (fgraph s') \<and> max_spawn s' = max_spawn s \<and>
     (card (verts (fgraph s')) < depth v \<longrightarrow> acyclic (arcs (fgraph s)) \<longrightarrow> acyclic (arcs (fgraph s'))) \<and>
     (counted s \<longrightarrow> counted s') \<and> spawned_ids s' \<subseteq> spawned_ids s \<union> (verts (fgraph s') - verts (fgraph s))"

lemma growsD:
  assumes "grows v s s'"
  shows "graph_inv (fgraph s')" "verts (fgraph s) \<subseteq> verts (fgraph s')"
    "ends_of (fgraph s) \<subseteq>\<^sub>m ends_of (fgraph s')" "max_spawn s' = max_spawn s"
    "card (verts (fgraph s')) < depth v \<Longrightarrow> acyclic (arcs (fgraph s)) \<Longrightarrow> acyclic (arcs (fgraph s'))"
    "counted s \<Longrightarrow> counted s'" "spawned_ids s' \<subseteq> spawned_ids s \<union> (verts (fgraph s') - verts (fgraph s))"
  using assms by (simp_all add: grows_def)

lemma grows_refl: "graph_inv (fgraph s) \<Longrightarrow> grows v s s"
  by (simp add: grows_def)

lemma grows_trans:
  assumes "grows v s s1" "grows v s1 s2"
  shows "grows v s s2"
proof -
  note a = growsD[OF assms(1)] and b = growsD[OF assms(2)]
  have "card (verts (fgraph s1)) \<le> card (verts (fgraph s2))" by (rule card_mono[OF finite_verts b(2)])
  then have "card (verts (fgraph s2)) < depth v \<Longrightarrow> acyclic (arcs (fgraph s)) \<Longrightarrow> acyclic (arcs (fgraph s2))"
    using a(5) b(5) by linarith
  moreover have "ends_of (fgraph s) \<subseteq>\<^sub>m ends_of (fgraph s2)" using a(3) b(3) by (rule map_le_trans)
  moreover have "spawned_ids s2 \<subseteq> spawned_ids s \<union> (verts (fgraph s2) - verts (fgraph s))"
    using a(2,7) b(2,7) by blast
  ultimately show ?thesis using a b by (simp add: grows_def)
qed

text \<open>The fields that growth is about.\<close>

definition core :: "('c, 'p) rdag \<Rightarrow> (unit, 'c, 'p) graph \<times> nat \<times> nat \<times> uuid set" where
  "core s = (fgraph s, max_spawn s, spawn_count s, spawned_ids s)"

lemma counted_core: "core s2 = core s1 \<Longrightarrow> counted s2 = counted s1"
  by (simp add: core_def counted_def)

lemma grows_core: "grows v s s1 \<Longrightarrow> core s2 = core s1 \<Longrightarrow> grows v s s2"
  using counted_core[of s2 s1] by (simp add: grows_def core_def)

lemma core_simps [simp]:
  "core (record_dropped_spawn r w e c s) = core s" "core (start_soon u s) = core s"
  "core (s\<lparr>seen_reqs := q\<rparr>) = core s" "core (s\<lparr>escalated_ids := es\<rparr>) = core s" "core (s\<lparr>sink := z\<rparr>) = core s"
  "core (s\<lparr>bus := b\<rparr>) = core s" "core (s\<lparr>running := i\<rparr>) = core s" "core (put_op u op s) = core s"
  "core (announce_queued u s) = core s" "core (s\<lparr>completion_events := ce, ops := os\<rparr>) = core s"
  by (simp_all add: core_def record_dropped_spawn_def start_soon_def put_op_def announce_queued_def
      emit_progress_def)

lemma core_announce [simp]: "core (announce_child u emitter indep s) = core s"
  by (simp add: announce_child_def Let_def split: option.split)

text \<open>A new graph of the same or a larger shape.\<close>

lemma grows_graph:
  assumes "graph_inv g" "shape (fgraph s) = (ns, ev)" "shape g = (ms, ev')" "set ns \<subseteq> set ms" "ev \<subseteq>\<^sub>m ev'"
    "core s' = (g, max_spawn s, c, K)" "ev' = ev \<or> (\<exists>r. is_acyclic (depth v) g = r \<and> r \<noteq> Inr False)"
    "counted s \<Longrightarrow> finite K \<and> K \<subseteq> set ms \<and> card K = c \<and> c \<le> max_spawn s" "K \<subseteq> spawned_ids s \<union> (set ms - set ns)"
  shows "grows v s s'"
proof -
  have f: "fgraph s' = g" "max_spawn s' = max_spawn s" "spawn_count s' = c" "spawned_ids s' = K"
    using assms(6) by (simp_all add: core_def)
  have v: "verts (fgraph s) = set ns" "verts g = set ms" "ends_of (fgraph s) = ev" "ends_of g = ev'"
    using shape_verts[OF assms(2)] shape_verts[OF assms(3)] assms(2,3) by (simp_all add: shape_def)
  have "acyclic (arcs g)" if "card (verts g) < depth v" "acyclic (arcs (fgraph s))"
    using assms(7)
  proof
    assume "ev' = ev"
    then show ?thesis using acyclic_shape[OF assms(2)] assms(3) that(2) by blast
  next
    assume "\<exists>r. is_acyclic (depth v) g = r \<and> r \<noteq> Inr False"
    then show ?thesis using is_acyclic_spec[OF assms(1) that(1)] by (auto simp: cyclic_acyclic)
  qed
  then show ?thesis
    using assms(1,4,5,8,9) v unfolding grows_def f counted_def by simp
qed


lemma accept_grows:
  assumes inv: "graph_inv (fgraph s)"
  shows "grows v s (snd (accept_node v k u op emitter indep s))"
proof -
  let ?A = "accept_node v k u op emitter indep s"
  obtain ns ev where sh: "shape (fgraph s) = (ns, ev)" by fastforce
  have v: "verts (fgraph s) = set ns" using shape_verts[OF sh] by simp
  have le: "ev \<subseteq>\<^sub>m ev" by simp
  from inv sh show ?thesis
  proof (cases rule: accept_node_cases[of s ns ev v k u op emitter indep])
    case capped
    show ?thesis unfolding capped by (rule grows_core[OF grows_refl[OF inv]]) simp
  next
    case (refused e)
    show ?thesis unfolding refused using grows_refl[OF inv] by simp
  next
    case (orphaned e g)
    show ?thesis unfolding orphaned(3) snd_conv
      by (rule grows_graph[OF orphaned(4) sh orphaned(5) _ le, where c = "spawn_count s" and K = "spawned_ids s"])
        (auto simp: core_def counted_def v)
  next
    case (cycle g ce os)
    show ?thesis unfolding cycle(1) snd_conv
      by (rule grows_graph[OF cycle(2) sh cycle(3) _ le, where c = "spawn_count s" and K = "spawned_ids s"])
        (auto simp: core_def counted_def v record_dropped_spawn_def)
  next
    case (accepted g ev')
    show ?thesis unfolding accepted(3) snd_conv
      by (rule grows_graph[OF accepted(4) sh accepted(6) _ accepted(7),
              where c = "Suc (spawn_count s)" and K = "insert u (spawned_ids s)"])
        (use accepted(1,2,5) in \<open>auto simp: v counted_def card_insert_if core_def[of "s\<lparr>spawn_count := c\<rparr>" for s c] core_def[of "with_child u op g s\<lparr>spawn_count := c, spawned_ids := d\<rparr>" for c d]\<close>)
  next
    case (present g ev')
    show ?thesis unfolding present(2) snd_conv
      by (rule grows_graph[OF present(3) sh present(5) _ present(6), where c = "spawn_count s" and K = "spawned_ids s"])
        (use present(4) in \<open>auto simp: core_def counted_def v\<close>)
  next
    case (too_deep e g ev')
    show ?thesis unfolding too_deep(2) snd_conv
      by (rule grows_graph[OF too_deep(3) sh too_deep(4) _ too_deep(5), where c = "spawn_count s" and K = "spawned_ids s"])
        (use too_deep(1) in \<open>auto simp: core_def counted_def v split: if_splits\<close>)
  qed
qed

lemma run_grows:
  assumes "graph_inv (fgraph s)"
  shows "grows v s (snd (accept_and_run v k u op emitter indep s))"
    "grows v s (snd (inject v k u op emitter indep s))"
proof -
  show a: "grows v s (snd (accept_and_run v k u op emitter indep s))"
    using accept_grows[OF assms, of v k u op emitter indep]
    by (cases "accept_node v k u op emitter indep s"; cases "fst (accept_node v k u op emitter indep s)")
      (auto simp: accept_and_run_def then_do_def elim: grows_core)
  then show "grows v s (snd (inject v k u op emitter indep s))"
    using grows_refl[OF assms] by (simp add: inject_def)
qed

lemma request_grows:
  assumes "graph_inv (fgraph s)"
  shows "grows v s (snd (inject_request v req emitter s))"
proof -
  let ?s = "s\<lparr>seen_reqs := insert (oid req) (seen_reqs s)\<rparr>"
  have i: "graph_inv (fgraph ?s)" using assms by simp
  have e: "grows v s ?s" by (rule grows_core[OF grows_refl[OF assms]]) simp
  then have r: "grows v s (record_dropped_spawn w x emitter c ?s)" for w x c by (rule grows_core) simp
  have d: "grows v s (record_dropped_spawn w x emitter c s)" for w x c
    by (rule grows_core[OF grows_refl[OF assms]]) simp
  have a: "grows v s (snd (accept_and_run v k u op emitter b ?s))" for k u op b
    by (rule grows_trans[OF e run_grows(1)[OF i]])
  show ?thesis using r d a by (simp add: inject_request_def Let_def split: sum.split option.split)
qed

lemma escalation_grows:
  assumes "graph_inv (fgraph s)"
  shows "grows v s (snd (schedule_escalation v req emitter s))"
proof -
  let ?s = "\<lambda>q b. s\<lparr>seen_reqs := q, bus := b\<rparr>"
  have i: "graph_inv (fgraph (?s q b))" for q b using assms by simp
  have e: "grows v s (?s q b)" for q b by (rule grows_core[OF grows_refl[OF assms]]) (simp add: core_def)
  then have n: "grows v s ((?s q b)\<lparr>escalated_ids := es\<rparr>)" for q b es by (rule grows_core) simp
  have a: "grows v s (snd (then_do (accept_node v k u op w True (?s q b)) (\<lambda>b s2.
      (Inr (), if b then s2\<lparr>escalated_ids := insert x (escalated_ids s2)\<rparr> else s2))))" for q b k u op w x
    using grows_trans[OF e[where q = q and b = b] accept_grows[OF i[where q = q and b = b], of v k u op w True]]
    by (cases "accept_node v k u op w True (?s q b)"; cases "fst (accept_node v k u op w True (?s q b))")
      (auto simp: then_do_def elim: grows_core)
  show ?thesis using e n a grows_refl[OF assms]
    by (simp add: schedule_escalation_def Let_def split: option.split)
qed

lemma each_grows:
  assumes "\<And>x s. graph_inv (fgraph s) \<Longrightarrow> grows v s (snd (f x s))"
  shows "graph_inv (fgraph s) \<Longrightarrow> grows v s (snd (each f xs s))"
proof (induction xs arbitrary: s)
  case Nil
  then show ?case by (simp add: grows_refl)
next
  case (Cons x xs)
  obtain r s1 where f: "f x s = (r, s1)" by fastforce
  have g: "grows v s s1" using assms[OF Cons.prems, of x] f by simp
  show ?case using g f grows_trans[OF g Cons.IH[OF growsD(1)[OF g]]] by (cases r) (simp_all add: then_do_def)
qed


lemma tail_grows:
  assumes "graph_inv (fgraph s)"
  shows "grows v s (snd (run_tracked_tail v u s))"
proof (cases "dget (ops s) u")
  case None
  then show ?thesis using grows_refl[OF assms] by (simp add: run_tracked_tail_def)
next
  case (Some op)
  let ?s1 = "case sink s of Some es \<Rightarrow> s\<lparr>sink := Some (es @ [make_event u op s])\<rparr> | None \<Rightarrow> s"
  let ?found = "\<lambda>cls s. extract_spawn_requests (case dget (results s) u of Some r \<Rightarrow> r | None \<Rightarrow> VNone) cls"
  let ?E = "each (\<lambda>req. inject_request v req (Some u)) (?found (spawn_type v) ?s1) ?s1"
  have s1: "grows v s ?s1" by (rule grows_core[OF grows_refl[OF assms]]) (simp split: option.split)
  have "grows v ?s1 (snd ?E)" by (rule each_grows[OF request_grows growsD(1)[OF s1]])
  then have e: "grows v s (snd ?E)" by (rule grows_trans[OF s1])
  obtain r s2 where E: "?E = (r, s2)" by fastforce
  have s2: "grows v s s2" using e E by simp
  have "grows v s (snd (each (\<lambda>req. schedule_escalation v req (Some u)) (?found ''EscalationRequest'' s2) s2))"
    by (rule grows_trans[OF s2 each_grows[OF escalation_grows growsD(1)[OF s2]]])
  then show ?thesis using Some E s2 by (cases r) (simp_all add: run_tracked_tail_def Let_def then_do_def)
qed

lemma same_more:
  fixes s s' :: "('c, 'p) rdag"
  assumes "dag.more s' = dag.more s"
  shows "running s' = running s" "max_spawn s' = max_spawn s" "spawn_count s' = spawn_count s"
    "dropped_spawns s' = dropped_spawns s" "seen_reqs s' = seen_reqs s" "spawned_ids s' = spawned_ids s"
    "escalated_ids s' = escalated_ids s" "sink s' = sink s"
  using assms by (cases s, cases s', simp)+

lemma base_grows:
  fixes s :: "('c, 'p) rdag"
  assumes "graph_inv (fgraph s)" "exec_step w b s = Some s'"
  shows "grows v s s'"
proof -
  have g: "same_graph (fgraph s) (fgraph s')" "dag.more s' = dag.more s"
    using exec_step_run[OF assms(2)] by (simp_all add: same_run_def)
  note m = same_more[OF g(2)] and a = same_graph_arcs[OF g(1)]
  have "graph_inv (fgraph s')" using g(1) assms(1) by (simp add: same_graph_def)
  then show ?thesis using m a by (simp add: grows_def counted_def)
qed

lemma step_grows:
  assumes inv: "graph_inv (fgraph s)" and st: "reactive_step v a s = Some s'"
  shows "grows v s s'"
proof (cases a)
  case (Base b)
  then obtain s1 where s1: "exec_step (base v) b s = Some s1"
    and s': "s' = (case returned b s s1 of Some u \<Rightarrow> snd (run_tracked_tail v u s1) | None \<Rightarrow> s1)"
    using st by (auto simp: reactive_step_def split: option.splits)
  note g = base_grows[OF inv s1, of v]
  show ?thesis using g grows_trans[OF g tail_grows[OF growsD(1)[OF g]]] by (simp add: s' split: option.split)
next
  case (Inject k u op after i)
  then show ?thesis using st run_grows(2)[OF inv] by (auto simp: reactive_step_def)
next
  case (BusSpawn req e)
  then show ?thesis using st request_grows[OF inv] grows_refl[OF inv] by (auto simp: reactive_step_def split: if_splits)
next
  case (BusEscalation req e)
  then show ?thesis using st escalation_grows[OF inv] grows_refl[OF inv]
    by (auto simp: reactive_step_def split: if_splits)
next
  case Leave
  have "grows v s (s\<lparr>running := False\<rparr>)" by (rule grows_core[OF grows_refl[OF inv]]) simp
  then show ?thesis using st Leave by (auto simp: reactive_step_def split: if_splits)
qed

lemma reactive_run_grows: "graph_inv (fgraph s) \<Longrightarrow> reactive_run v as s = Some s' \<Longrightarrow> grows v s s'"
proof (induction as arbitrary: s)
  case Nil
  then show ?case by (simp add: grows_refl)
next
  case (Cons a as)
  then obtain s1 where s1: "reactive_step v a s = Some s1" "reactive_run v as s1 = Some s'"
    by (auto split: option.splits)
  note g = step_grows[OF Cons.prems(1) s1(1)]
  show ?case using grows_trans[OF g Cons.IH[OF growsD(1)[OF g] s1(2)]] .
qed

text \<open>A start: the reactive executor built on a consistent graph, and \<open>execute\<close> past its checks.\<close>

definition rstarts ::
    "(unit, 'c, 'p) graph \<Rightarrow> (uuid, oper) pydict \<Rightarrow> (string \<times> val) list \<Rightarrow> nat option \<Rightarrow> nat \<Rightarrow> bool \<Rightarrow> nat
      \<Rightarrow> ('c, 'p) rdag \<Rightarrow> bool" where
  "rstarts g os ctx limit cap out d s \<longleftrightarrow>
     graph_inv g \<and> execute_reactive d (mk_rdag cap out (mk_dag g os ctx limit)) = (Inr (), s)"

lemma rstarts_fields:
  assumes "rstarts g os ctx limit cap out d s"
  shows "graph_inv g" "fgraph s = g" "is_acyclic d g = Inr True" "max_spawn s = cap" "spawned_ids s = {}"
    "counted s"
proof -
  let ?m = "mk_rdag cap out (mk_dag g os ctx limit) :: ('a, 'b) rdag"
  have m: "fgraph ?m = g" "max_spawn ?m = cap" "spawn_count ?m = 0" "spawned_ids ?m = {}"
    by (simp_all add: mk_rdag_def mk_dag_def Let_def dag.defs)
  have e: "execute_reactive d ?m = (Inr (), s)" and g: "graph_inv g" using assms by (simp_all add: rstarts_def)
  then have ac: "is_acyclic d g = Inr True"
    by (cases "is_acyclic d g") (auto simp: execute_reactive_def execute_def m then_do_def split: bool.splits)
  obtain l q where f: "fold announce_queued (op_ids g (ops ?m)) ?m = ?m\<lparr>queued_announced := q, progress := l\<rparr>"
    using announce_frame[of "op_ids g (ops ?m)" ?m] by blast
  have "s = (?m\<lparr>queued_announced := q, progress := l, tasks := map (\<lambda>u. (u, Fresh)) (op_ids g (ops ?m))\<rparr>)
      \<lparr>running := True\<rparr>"
    using e ac f by (simp add: execute_reactive_def execute_def m then_do_def Let_def)
  then show "graph_inv g" "fgraph s = g" "is_acyclic d g = Inr True" "max_spawn s = cap" "spawned_ids s = {}" "counted s"
    using m g ac by (simp_all add: counted_def)
qed

section \<open>An operation without a task\<close>

text \<open>What a change leaves of an operation that it is not about.\<close>

definition left_alone :: "uuid \<Rightarrow> ('c, 'p) rdag \<Rightarrow> ('c, 'p) rdag \<Rightarrow> bool" where
  "left_alone c s s' \<longleftrightarrow> graph_inv (fgraph s') \<and> (c \<in> verts (fgraph s') \<longleftrightarrow> c \<in> verts (fgraph s)) \<and>
     (c \<in> fst ` set (tasks s') \<longleftrightarrow> c \<in> fst ` set (tasks s)) \<and>
     (c \<in> set (queued_announced s') \<longleftrightarrow> c \<in> set (queued_announced s)) \<and> part_of c s' = part_of c s"

lemma left_alone_refl: "graph_inv (fgraph s) \<Longrightarrow> left_alone c s s"
  by (simp add: left_alone_def)

lemma left_alone_trans: "left_alone c s s1 \<Longrightarrow> left_alone c s1 s2 \<Longrightarrow> left_alone c s s2"
  unfolding left_alone_def by auto

lemma left_alone_inv: "left_alone c s s' \<Longrightarrow> graph_inv (fgraph s')"
  by (simp add: left_alone_def)

text \<open>Fields that say nothing of any operation.\<close>

definition side :: "('c, 'p) rdag \<Rightarrow> ('c, 'p) rdag" where
  "side s = s\<lparr>seen_reqs := {}, escalated_ids := {}, sink := None, bus := [], running := False, dropped_spawns := [],
     spawn_count := 0, spawned_ids := {}\<rparr>"

lemma side_simps [simp]:
  "side (record_dropped_spawn r w e d s) = side s" "side (s\<lparr>seen_reqs := q\<rparr>) = side s"
  "side (s\<lparr>escalated_ids := es\<rparr>) = side s" "side (s\<lparr>sink := z\<rparr>) = side s" "side (s\<lparr>bus := b\<rparr>) = side s"
  "side (s\<lparr>running := i\<rparr>) = side s" "side (s\<lparr>spawn_count := k\<rparr>) = side s" "side (s\<lparr>spawned_ids := U\<rparr>) = side s"
  by (simp_all add: side_def record_dropped_spawn_def)

lemma side_part:
  assumes "side s' = side s"
  shows "fgraph s' = fgraph s" "tasks s' = tasks s" "queued_announced s' = queued_announced s"
    "part_of c s' = part_of c s"
proof -
  have "x (side s') = x (side s)" for x :: "('a, 'b) rdag \<Rightarrow> 'z" using assms by simp
  from this[of fgraph] this[of tasks] this[of queued_announced] this[of "part_of c"] show
    "fgraph s' = fgraph s" "tasks s' = tasks s" "queued_announced s' = queued_announced s" "part_of c s' = part_of c s"
    by (simp_all add: side_def part_of_def)
qed

lemma left_alone_side:
  "side s1 = side s \<Longrightarrow> left_alone c s s1 \<longleftrightarrow> graph_inv (fgraph s)"
  "side s1 = side s2 \<Longrightarrow> left_alone c s s1 \<longleftrightarrow> left_alone c s s2"
  using side_part[of s1] by (auto simp: left_alone_def)

text \<open>Accepting an operation leaves alone any other, and one that is in the graph already.\<close>

lemma announce_child_part:
  "fgraph (announce_child u e i s) = fgraph s" "tasks (announce_child u e i s) = tasks s"
  "c \<noteq> u \<Longrightarrow> part_of c (announce_child u e i s) = part_of c s"
  "set (queued_announced (announce_child u e i s)) = insert u (set (queued_announced s))"
  by (auto simp: announce_child_def Let_def announce_queued_def emit_progress_def put_op_def part_of_def
      split: option.split)

lemma with_child_part:
  "c \<noteq> u \<Longrightarrow> part_of c (with_child u op g s) = part_of c s"
  "queued_announced (with_child u op g s) = queued_announced s"
  by (simp_all add: with_child_def part_of_def)

lemma part_graph: "part_of c (s\<lparr>fgraph := g\<rparr>) = part_of c s"
  by (simp add: part_of_def)

lemma accept_alone:
  assumes inv: "graph_inv (fgraph s)" and c: "c \<noteq> u \<or> c \<in> verts (fgraph s)"
  shows "left_alone c s (snd (accept_node v k u op emitter indep s))"
proof -
  let ?A = "accept_node v k u op emitter indep s"
  obtain ns ev where sh: "shape (fgraph s) = (ns, ev)" by fastforce
  have vs: "verts (fgraph s) = set ns" using shape_verts[OF sh] by simp
  show ?thesis
    using inv sh
  proof (cases rule: accept_node_cases[of s ns ev v k u op emitter indep])
    case capped
    then show ?thesis using left_alone_side(1)[of "snd ?A" s c] inv by simp
  next
    case (refused e)
    then show ?thesis using left_alone_refl[OF inv] by simp
  next
    case (orphaned e g)
    then show ?thesis using c vs shape_verts[OF orphaned(5)]
      by (auto simp: left_alone_def with_child_part)
  next
    case (cycle g ce os)
    let ?s = "s\<lparr>fgraph := g, completion_events := ce, ops := os\<rparr>"
    have "part_of c ?s = part_of c s" using cycle(4,5) c vs by (auto simp: part_of_def)
    then have "left_alone c s ?s" using cycle(2) vs shape_verts[OF cycle(3)] by (simp add: left_alone_def)
    then show ?thesis using cycle(1) left_alone_side(2)[of "snd ?A" ?s] by simp
  next
    case (accepted g ev')
    then have cu: "c \<noteq> u" using c vs by blast
    let ?t = "(with_child u op g s)\<lparr>spawn_count := Suc (spawn_count s), spawned_ids := insert u (spawned_ids s)\<rparr>"
    have "side ?t = side (with_child u op g s)" by simp
    note p = side_part[OF this]
    have "left_alone c s (announce_child u emitter indep ?t)"
      unfolding left_alone_def announce_child_part(1,2,4) announce_child_part(3)[OF cu] p
      using cu accepted(4) vs shape_verts[OF accepted(6)] by (simp add: with_child_part)
    then show ?thesis using accepted(3) by simp
  next
    case (present g ev')
    then show ?thesis using vs shape_verts[OF present(5)] by (simp add: left_alone_def part_graph)
  next
    case (too_deep e g ev')
    then show ?thesis using c vs shape_verts[OF too_deep(4)]
      by (auto simp: left_alone_def part_graph with_child_part)
  qed
qed

lemma run_alone:
  assumes "graph_inv (fgraph s)" "c \<noteq> u"
  shows "left_alone c s (snd (accept_and_run v k u op emitter indep s))" "left_alone c s (snd (inject v k u op emitter indep s))"
proof -
  have s: "left_alone c s (start_soon u s')" if "left_alone c s s'" for s'
    using that assms(2) by (auto simp: left_alone_def start_soon_def part_of_def)
  have "left_alone c s (snd (accept_node v k u op emitter indep s))" using accept_alone assms by blast
  then show a: "left_alone c s (snd (accept_and_run v k u op emitter indep s))"
    by (cases "accept_node v k u op emitter indep s"; cases "fst (accept_node v k u op emitter indep s)")
      (auto simp: accept_and_run_def then_do_def s)
  then show "left_alone c s (snd (inject v k u op emitter indep s))" using assms(1) by (simp add: inject_def left_alone_refl)
qed

definition never_builds :: "'p renv \<Rightarrow> uuid \<Rightarrow> bool" where
  "never_builds v c \<longleftrightarrow> (\<forall>req e op. node_builder v req e \<noteq> Inr (Some (c, op)))"

lemma request_alone:
  assumes "graph_inv (fgraph s)" "never_builds v c"
  shows "left_alone c s (snd (inject_request v req emitter s))"
proof -
  let ?s = "s\<lparr>seen_reqs := insert (oid req) (seen_reqs s)\<rparr>"
  have i: "graph_inv (fgraph ?s)" using assms(1) by simp
  have "left_alone c s ?s" using assms(1) by (subst left_alone_side(1)) simp_all
  then have r: "left_alone c s (snd (accept_and_run v k u op emitter indep ?s))" if "c \<noteq> u" for k u op indep
    using run_alone(1)[OF i that] left_alone_trans by blast
  have d: "left_alone c s (record_dropped_spawn x w e y ?s)" "left_alone c s (record_dropped_spawn x w e y s)" for x w e y
    using assms(1) by (subst left_alone_side(1); simp)+
  have "left_alone c s (snd (case node_builder v req emitter of
        Inl e \<Rightarrow> (Inr False, record_dropped_spawn ''builder_error'' (req_field ''assignee'' req) emitter None ?s)
      | Inr None \<Rightarrow> (Inr False, record_dropped_spawn ''null_child'' (req_field ''assignee'' req) emitter None ?s)
      | Inr (Some (u, op)) \<Rightarrow> accept_and_run v (edge_id v (oid req)) u op emitter (truthy (req_field ''independent'' req)) ?s))"
  proof (cases "\<exists>u op. node_builder v req emitter = Inr (Some (u, op))")
    case True
    then obtain u op where u: "node_builder v req emitter = Inr (Some (u, op))" by blast
    then have "c \<noteq> u" using assms(2) unfolding never_builds_def by blast
    then show ?thesis using u r by simp
  next
    case False
    then show ?thesis using d by (auto split: sum.split option.split)
  qed
  then show ?thesis using d(2) by (simp add: inject_request_def Let_def)
qed

text \<open>
  An operation that is not in the graph, and the retry of an escalation on its way: in the graph, queued,
  pending, without a task.
\<close>

definition absent :: "uuid \<Rightarrow> ('c, 'p) rdag \<Rightarrow> bool" where
  "absent c s \<longleftrightarrow> graph_inv (fgraph s) \<and> c \<notin> verts (fgraph s) \<and> c \<notin> fst ` set (tasks s) \<and>
     c \<notin> set (queued_announced s) \<and> signals_of c (progress s) = []"

definition stranded :: "'p renv \<Rightarrow> bool \<Rightarrow> uuid \<Rightarrow> ('c, 'p) rdag \<Rightarrow> bool" where
  "stranded v swept c s \<longleftrightarrow> graph_inv (fgraph s) \<and> c \<in> verts (fgraph s) \<and> c \<notin> fst ` set (tasks s) \<and>
     c \<in> range (child_id v) \<and> dget (completion_events s) c = Some False \<and>
     (\<exists>op. dget (ops s) c = Some op \<and> ev_status op = PENDING) \<and>
     (\<exists>l. signals_of c (progress s) = ''queued'' # l \<and> set l \<subseteq> {''cancelled''} \<and> (\<not> swept \<longrightarrow> l = []))"

lemma left_alone_keeps:
  "left_alone c s s' \<Longrightarrow> absent c s \<Longrightarrow> absent c s'"
  "left_alone c s s' \<Longrightarrow> stranded v swept c s \<Longrightarrow> stranded v swept c s'"
  by (simp_all add: left_alone_def absent_def stranded_def part_of_def)

text \<open>The acyclicity check has the frames it needs; a child that the interpreter lets in is announced.\<close>

definition roomy :: "'p renv \<Rightarrow> ('c, 'p) rdag \<Rightarrow> bool" where
  "roomy v s \<longleftrightarrow> card (verts (fgraph s)) < depth v"

lemma escalation_child_pending: "ev_status (escalation_child v req e op) = PENDING"
  by (simp add: escalation_child_def Let_def set_meta_def create_operation_def fresh_execution_def)

lemma accept_child:
  assumes ab: "absent c s" and room: "roomy v (snd (accept_node v k c op emitter True s))"
    and c: "c \<in> range (child_id v)" "ev_status op = PENDING"
  shows "absent c (snd (accept_node v k c op emitter True s)) \<or> stranded v swept c (snd (accept_node v k c op emitter True s))"
proof -
  let ?A = "accept_node v k c op emitter True s"
  have inv: "graph_inv (fgraph s)" using ab by (simp add: absent_def)
  obtain ns ev where sh: "shape (fgraph s) = (ns, ev)" by fastforce
  have n: "c \<notin> set ns" using shape_verts[OF sh] ab by (simp add: absent_def)
  show ?thesis
    using inv sh
  proof (cases rule: accept_node_cases[of s ns ev v k c op emitter True])
    case capped
    then show ?thesis using ab by (simp add: absent_def record_dropped_spawn_def)
  next
    case (cycle g ce os)
    then show ?thesis using ab n shape_verts[OF cycle(3)] by (simp add: absent_def record_dropped_spawn_def)
  next
    case (accepted g ev')
    have "snd ?A = announce_child c emitter True
        ((with_child c op g s)\<lparr>spawn_count := Suc (spawn_count s), spawned_ids := insert c (spawned_ids s)\<rparr>)" (is "_ = ?t")
      using accepted(3) by simp
    moreover have "stranded v swept c ?t"
      using accepted(4) ab c shape_verts[OF accepted(6)]
      by (auto simp: stranded_def absent_def announce_child_part(1,2))
        (auto simp: announce_child_def Let_def announce_queued_def emit_progress_def with_child_def split: option.split)
    ultimately show ?thesis by simp
  next
    case (too_deep e g ev')
    then have "\<not> card (verts g) < depth v" using is_acyclic_spec[OF too_deep(3)] by auto
    moreover have "verts (fgraph (snd ?A)) = verts g" using too_deep(2) n by simp
    ultimately show ?thesis using room by (simp add: roomy_def)
  qed (use ab n in auto)
qed

text \<open>From here on: every change keeps an operation that is absent or stranded so.\<close>

definition idle :: "'p renv \<Rightarrow> bool \<Rightarrow> uuid \<Rightarrow> ('c, 'p) rdag \<Rightarrow> bool" where
  "idle v swept c s \<longleftrightarrow> absent c s \<or> stranded v swept c s"

lemma idle_inv: "idle v swept c s \<Longrightarrow> graph_inv (fgraph s)"
  by (auto simp: idle_def absent_def stranded_def)

lemma idle_alone: "left_alone c s s' \<Longrightarrow> idle v swept c s \<Longrightarrow> idle v swept c s'"
  using left_alone_keeps unfolding idle_def by blast

lemma accept_idle:
  assumes "idle v swept c s" "roomy v (snd (accept_node v k u op emitter True s))"
    "u \<in> range (child_id v)" "ev_status op = PENDING"
  shows "idle v swept c (snd (accept_node v k u op emitter True s))"
proof (cases "c \<noteq> u \<or> c \<in> verts (fgraph s)")
  case True
  then show ?thesis using idle_alone[OF accept_alone[OF idle_inv[OF assms(1)]]] assms(1) by blast
next
  case False
  then have "absent c s" using assms(1) by (auto simp: idle_def stranded_def)
  then show ?thesis using accept_child[of c s v k op emitter] assms False unfolding idle_def by blast
qed

lemma idle_side: "side s' = side s \<Longrightarrow> idle v swept c s' = idle v swept c s"
  using side_part(1-3)[of s' s] side_part(4)[of s' s c] by (simp add: idle_def absent_def stranded_def part_of_def)

lemma roomy_side: "side s' = side s \<Longrightarrow> roomy v s' = roomy v s"
  using side_part[of s' s] by (simp add: roomy_def)

lemma escalated_idle:
  "idle v swept c (t\<lparr>escalated_ids := es\<rparr>) = idle v swept c t" "roomy v (t\<lparr>escalated_ids := es\<rparr>) = roomy v t"
  "idle v swept c (t\<lparr>seen_reqs := q, bus := b\<rparr>) = idle v swept c t"
  by (rule idle_side roomy_side; simp add: side_def)+

lemma retry_idle:
  assumes "idle v swept c s" "ev_status op = PENDING"
    and r: "r = then_do (accept_node v k (child_id v i) op w True s) (\<lambda>b s2.
      (Inr (), if b then s2\<lparr>escalated_ids := insert x (escalated_ids s2)\<rparr> else s2))" "roomy v (snd r)"
  shows "idle v swept c (snd r)"
proof -
  obtain y t where A: "accept_node v k (child_id v i) op w True s = (y, t)" by fastforce
  have i: "roomy v t \<Longrightarrow> idle v swept c t"
    using accept_idle[OF assms(1), of k "child_id v i" op w] A assms(2) by simp
  have "roomy v t = roomy v (snd r)" "idle v swept c t = idle v swept c (snd r)"
    using r(1) A by (cases y; simp add: then_do_def escalated_idle)+
  then show ?thesis using r(2) i by blast
qed

lemma escalation_idle:
  assumes "idle v swept c s" "roomy v (snd (schedule_escalation v req emitter s))"
  shows "idle v swept c (snd (schedule_escalation v req emitter s))"
proof (cases "oid req \<in> seen_reqs s")
  case True
  then show ?thesis using assms(1) by (simp add: schedule_escalation_def)
next
  case False
  let ?s = "s\<lparr>seen_reqs := insert (oid req) (seen_reqs s), bus := bus s @ [NodeEscalated emitter (escalation_route req)]\<rparr>"
  have i: "idle v swept c ?s" "idle v swept c (?s\<lparr>escalated_ids := es\<rparr>)" for es
    using assms(1) unfolding escalated_idle by simp_all
  note d = schedule_escalation_def[of v req emitter s, unfolded Let_def]
  consider "schedule_escalation v req emitter s = (Inr (), ?s)"
    | es where "schedule_escalation v req emitter s = (Inr (), ?s\<lparr>escalated_ids := es\<rparr>)"
    | e op where "schedule_escalation v req emitter s =
        then_do (accept_node v (edge_id v (oid req)) (child_id v (oid req)) (escalation_child v req e op) emitter True ?s)
          (\<lambda>b s2. (Inr (), if b then s2\<lparr>escalated_ids := insert e (escalated_ids s2)\<rparr> else s2))"
  proof (cases emitter)
    case None
    then show thesis using that(1) d False by simp
  next
    case (Some e)
    show thesis
    proof (cases "escalation_route req = VStr ''higher_tier''")
      case True
      note d = d[unfolded if_not_P[OF False] Some option.case if_P[OF True]]
      show thesis
      proof (cases "dget (ops s) e")
        case None
        then show thesis using d Some True by (intro that(1)) simp
      next
        case (Some op)
        then show thesis using d \<open>emitter = Some e\<close> True by (intro that(3)[of e op]) simp
      qed
    next
      case other: False
      note d = d[unfolded if_not_P[OF False] Some option.case if_not_P[OF other]]
      show thesis
      proof (cases "escalation_route req = VStr ''notify''")
        case True
        then show thesis using d Some by (intro that(1)) simp
      next
        case nn: False
        show thesis using d[unfolded if_not_P[OF nn]] Some by (intro that(2)[of "insert e (escalated_ids s)"]) simp
      qed
    qed
  qed
  then show ?thesis
  proof cases
    case (3 e op)
    then show ?thesis using retry_idle[OF i(1) escalation_child_pending _ assms(2)] by blast
  qed (simp_all add: i)
qed

lemma roomy_back:
  "grows v s s' \<Longrightarrow> roomy v s' \<Longrightarrow> roomy v s"
  using growsD(2)[of v s s'] card_mono[OF finite_verts, of "verts (fgraph s)" "fgraph s'"] by (simp add: roomy_def)

lemma each_idle:
  assumes f: "\<And>x s. idle v swept c s \<Longrightarrow> roomy v (snd (f x s)) \<Longrightarrow> idle v swept c (snd (f x s))"
    and g: "\<And>x s. graph_inv (fgraph s) \<Longrightarrow> grows v s (snd (f x s))"
  shows "idle v swept c s \<Longrightarrow> roomy v (snd (each f xs s)) \<Longrightarrow> idle v swept c (snd (each f xs s))"
proof (induction xs arbitrary: s)
  case (Cons x xs)
  obtain r s1 where fx: "f x s = (r, s1)" by fastforce
  have inv: "graph_inv (fgraph s1)" using growsD(1)[OF g[OF idle_inv[OF Cons.prems(1)], of x]] fx by simp
  have "roomy v s1"
    using Cons.prems(2) fx roomy_back[OF each_grows[OF g inv]] by (cases r) (simp_all add: then_do_def)
  then have "idle v swept c s1" using f[OF Cons.prems(1), of x] fx by simp
  then show ?case using Cons.IH[of s1] Cons.prems(2) fx by (cases r) (simp_all add: then_do_def)
qed simp

lemma request_idle:
  "never_builds v c \<Longrightarrow> idle v swept c s \<Longrightarrow> idle v swept c (snd (inject_request v req emitter s))"
  using idle_alone[OF request_alone] idle_inv by blast

lemma each_alone:
  assumes "\<And>s x. idle v swept c s \<Longrightarrow> idle v swept c (snd (f x s))"
  shows "idle v swept c s \<Longrightarrow> idle v swept c (snd (each f xs s))"
proof (induction xs arbitrary: s)
  case (Cons x xs)
  obtain r s1 where "f x s = (r, s1)" by fastforce
  then show ?case using assms[OF Cons.prems, of x] Cons.IH[of s1] by (cases r) (simp_all add: then_do_def)
qed simp

lemma tail_idle:
  assumes i: "idle v swept c s" and nb: "never_builds v c" and room: "roomy v (snd (run_tracked_tail v u s))"
  shows "idle v swept c (snd (run_tracked_tail v u s))"
proof (cases "dget (ops s) u")
  case None
  then show ?thesis using i by (simp add: run_tracked_tail_def)
next
  case (Some op)
  let ?s1 = "case sink s of Some es \<Rightarrow> s\<lparr>sink := Some (es @ [make_event u op s])\<rparr> | None \<Rightarrow> s"
  let ?found = "\<lambda>cls s. extract_spawn_requests (case dget (results s) u of Some r \<Rightarrow> r | None \<Rightarrow> VNone) cls"
  let ?E = "each (\<lambda>req. inject_request v req (Some u)) (?found (spawn_type v) ?s1) ?s1"
  have "idle v swept c ?s1" using i idle_side[of "s\<lparr>sink := Some z\<rparr>" s v swept c for z] by (simp split: option.split)
  then have e: "idle v swept c (snd ?E)"
    by (intro each_alone[where f = "\<lambda>req. inject_request v req (Some u)"] request_idle[OF nb])
  obtain r s2 where E: "?E = (r, s2)" by fastforce
  have s2: "idle v swept c s2" using e E by simp
  have "idle v swept c (snd (each (\<lambda>req. schedule_escalation v req (Some u)) (?found ''EscalationRequest'' s2) s2))"
    if "roomy v (snd (each (\<lambda>req. schedule_escalation v req (Some u)) (?found ''EscalationRequest'' s2) s2))"
    by (rule each_idle[OF escalation_idle escalation_grows s2 that])
  then show ?thesis using Some E s2 room by (cases r) (simp_all add: run_tracked_tail_def Let_def then_do_def)
qed

lemma base_part:
  fixes s :: "('c, 'p) rdag"
  assumes "c \<notin> fst ` set (tasks s)" "exec_step w b s = Some s'" "b \<noteq> Sweep"
  shows "part_of c s' = part_of c s"
proof -
  have o: "part_of c (set_pc n p t) = part_of c s"
    if "own u s t" "n < length (tasks s)" "fst (tasks s ! n) = u" for u n p t
  proof -
    have "u \<in> fst ` set (tasks s)" using that(2,3) by force
    then have "c \<noteq> u" using assms(1) by blast
    then show ?thesis using that(1) by (simp add: own_def part_of_def set_pc_def)
  qed
  show ?thesis
  proof (cases b)
    case (Task n ans)
    then have n: "n < length (tasks s)" using assms(2) by (auto simp: exec_step_def split: if_splits)
    obtain u p where t: "tasks s ! n = (u, p)" by fastforce
    then obtain p' s1 where "task_step w ans u p s = Some (p', s1)" "s' = set_pc n p' s1"
      using assms(2) Task n by (auto simp: exec_step_def)
    then show ?thesis using task_step_ok[of w ans u p s p' s1] o[OF _ n, of u s1 p'] t by (simp add: step_ok_def)
  next
    case (CancelTask n)
    then have n: "n < length (tasks s)" using assms(2) by (auto simp: exec_step_def split: if_splits)
    obtain u p where t: "tasks s ! n = (u, p)" by fastforce
    then consider "s' = set_pc n Raised s" | "s' = set_pc n Raised (cancelled u s)"
      using assms(2) CancelTask n by (auto simp: exec_step_def split: if_splits)
    then show ?thesis using o[OF own_refl n] o[OF own_cancelled[OF own_refl] n] t by cases simp_all
  qed (use assms(2,3) in \<open>auto simp: exec_step_def pause_def resume_def part_of_def split: option.splits if_splits\<close>)
qed

lemma base_idle:
  fixes s :: "('c, 'p) rdag"
  assumes i: "idle v swept c s" and ex: "exec_step w b s = Some s'" and sw: "b = Sweep \<longrightarrow> swept"
  shows "idle v swept c s'"
proof -
  have r: "same_run s s'" by (rule exec_step_run[OF ex])
  then have g: "same_graph (fgraph s) (fgraph s')" "fst ` set (tasks s') = fst ` set (tasks s)"
    "queued_announced s' = queued_announced s"
    by (simp_all add: same_run_def flip: set_map)
  have c: "c \<notin> fst ` set (tasks s)" using i by (auto simp: idle_def absent_def stranded_def)
  have inv: "graph_inv (fgraph s')" using g(1) idle_inv[OF i] by (simp add: same_graph_def)
  show ?thesis
  proof (cases "b = Sweep")
    case False
    then have "left_alone c s s'"
      using base_part[OF c ex] inv g same_graph_arcs[OF g(1)] by (simp add: left_alone_def)
    then show ?thesis using i by (rule idle_alone)
  next
    case True
    then have s': "s' = fold (\<lambda>u. emit_abandoned_terminal u ''cancelled'' False) (queued_announced s) s"
      using ex by (auto simp: exec_step_def cancel_announced_unfinished_def split: if_splits)
    obtain l T where f: "s' = s\<lparr>progress := l, terminal_emitted := T\<rparr>"
      using sweep_frame[of "''cancelled''" "queued_announced s" s] s' by auto
    obtain m where m: "signals_of c l = signals_of c (progress s) @ m" "set m \<subseteq> {''cancelled''}"
        "c \<notin> set (queued_announced s) \<Longrightarrow> m = []"
      using sweep_signals[of c "''cancelled''" "queued_announced s" s] f unfolding s'[symmetric] by auto
    show ?thesis using i m True sw unfolding f by (auto simp: idle_def absent_def stranded_def)
  qed
qed

text \<open>Actions that do not put the operation in themselves.\<close>

fun spares :: "uuid \<Rightarrow> raction \<Rightarrow> bool" where
  "spares c (Inject k u op after i) \<longleftrightarrow> u \<noteq> c"
| "spares c _ \<longleftrightarrow> True"

lemma step_idle:
  assumes i: "idle v swept c s" and nb: "never_builds v c" and sp: "spares c a" and st: "reactive_step v a s = Some s'"
    and sw: "a = Base Sweep \<longrightarrow> swept" and room: "roomy v s'"
  shows "idle v swept c s'"
proof (cases a)
  case (Base b)
  then obtain s1 where s1: "exec_step (base v) b s = Some s1"
    and s': "s' = (case returned b s s1 of Some u \<Rightarrow> snd (run_tracked_tail v u s1) | None \<Rightarrow> s1)"
    using st by (auto simp: reactive_step_def split: option.splits)
  have "idle v swept c s1" using base_idle[OF i s1] sw Base by blast
  then show ?thesis using tail_idle[OF _ nb, of swept s1] room by (auto simp: s' split: option.splits)
next
  case (Inject k u op after e)
  then have "c \<noteq> u" using sp by auto
  then show ?thesis using Inject st idle_alone[OF run_alone(2)[OF idle_inv[OF i]] i] by (auto simp: reactive_step_def)
next
  case (BusSpawn req e)
  then show ?thesis using st request_idle[OF nb i] i by (auto simp: reactive_step_def split: if_splits)
next
  case (BusEscalation req e)
  then show ?thesis using st escalation_idle[OF i] i room by (auto simp: reactive_step_def split: if_splits)
next
  case Leave
  then show ?thesis using st i idle_side[of "s\<lparr>running := False\<rparr>" s] by (auto simp: reactive_step_def split: if_splits)
qed

lemma run_idle:
  "idle v swept c s \<Longrightarrow> never_builds v c \<Longrightarrow> list_all (spares c) as \<Longrightarrow> (Base Sweep \<in> set as \<longrightarrow> swept) \<Longrightarrow>
   reactive_run v as s = Some s' \<Longrightarrow> roomy v s' \<Longrightarrow> idle v swept c s'"
proof (induction as arbitrary: s)
  case (Cons a as)
  then obtain s1 where s1: "reactive_step v a s = Some s1" "reactive_run v as s1 = Some s'"
    by (auto split: option.splits)
  have "graph_inv (fgraph s1)" using growsD(1)[OF step_grows[OF idle_inv[OF Cons.prems(1)] s1(1)]] .
  then have "roomy v s1" using roomy_back[OF reactive_run_grows[OF _ s1(2)]] Cons.prems(6) by blast
  then have "idle v swept c s1" using step_idle[OF Cons.prems(1,2) _ s1(1)] Cons.prems(3,4) by auto
  then show ?case using Cons.IH[of s1] Cons.prems s1(2) by auto
qed simp

lemma announce_signals:
  "c \<notin> set us \<Longrightarrow> signals_of c (progress (fold announce_queued us s)) = signals_of c (progress s)"
proof (induction us arbitrary: s)
  case (Cons u us)
  then show ?case using Cons.IH[of "announce_queued u s"] by (simp add: announce_queued_def emit_progress_def)
qed simp

lemma start_absent:
  assumes "rstarts g os ctx limit cap out d s" "c \<notin> verts g"
  shows "absent c s"
proof -
  let ?m = "mk_rdag cap out (mk_dag g os ctx limit) :: ('a, 'b) rdag"
  have m: "fgraph ?m = g" "progress ?m = []" "queued_announced ?m = []"
    by (simp_all add: mk_rdag_def mk_dag_def Let_def dag.defs)
  have e: "execute_reactive d ?m = (Inr (), s)" and g: "graph_inv g" using assms by (simp_all add: rstarts_def)
  have c: "c \<notin> set (op_ids g (ops ?m))" using assms(2) by (auto simp: op_ids_def verts_def)
  obtain l q where f: "fold announce_queued (op_ids g (ops ?m)) ?m = ?m\<lparr>queued_announced := q, progress := l\<rparr>"
    and q: "set q = set (op_ids g (ops ?m))" and l: "signals_of c l = []"
    using announce_frame[of "op_ids g (ops ?m)" ?m] announce_signals[OF c, of ?m] m by auto
  have "is_acyclic d g = Inr True"
    using e by (cases "is_acyclic d g") (auto simp: execute_reactive_def execute_def m then_do_def split: bool.splits)
  then have "s = (?m\<lparr>queued_announced := q, progress := l, tasks := map (\<lambda>u. (u, Fresh)) (op_ids g (ops ?m))\<rparr>)
      \<lparr>running := True\<rparr>"
    using e f by (simp add: execute_reactive_def execute_def m then_do_def Let_def)
  then show ?thesis using g assms(2) m c q l by (auto simp: absent_def)
qed

section \<open>Properties\<close>

text \<open>
  C6. A growing graph stays a graph without cycles.  Whatever requests, injections and escalations
  arrive in whatever order, in every state the reactive executor reaches the graph is acyclic, its
  index agrees with its edges, and every operation and every edge it began with is still there, as
  long as the interpreter allows one more frame than there are nodes.
\<close>

theorem growth_keeps_acyclic:
  assumes "rstarts g os ctx limit cap out (depth v) s0" "reactive_run v as s0 = Some s"
    and "card (verts (fgraph s)) < depth v"
  shows "acyclic (arcs (fgraph s)) \<and> graph_inv (fgraph s) \<and> verts g \<subseteq> verts (fgraph s) \<and>
    ends_of g \<subseteq>\<^sub>m ends_of (fgraph s)"
proof -
  note f = rstarts_fields[OF assms(1)]
  have "grows v s0 s" using reactive_run_grows[OF _ assms(2)] f(1,2) by simp
  note g = growsD[OF this, unfolded f(2)]
  have "card (verts g) < depth v" using card_mono[OF finite_verts g(2)] assms(3) by simp
  then have "acyclic (arcs g)" using is_acyclic_spec[OF f(1)] f(3) by (simp add: cyclic_acyclic)
  then show ?thesis using g assms(3) by simp
qed

text \<open>
  C11. The cap on growth.  At no time have more than \<open>max_spawn\<close> operations been accepted: the count is
  the number of the ids reported as spawned, all of them in the graph now and none of them in the graph
  the run began with.
\<close>

theorem spawn_cap_holds:
  assumes "rstarts g os ctx limit cap out d s0" "reactive_run v as s0 = Some s"
  shows "spawn_count s \<le> cap \<and> card (spawned_ids s) = spawn_count s \<and>
    spawned_ids s \<subseteq> verts (fgraph s) - verts g"
proof -
  note f = rstarts_fields[OF assms(1)]
  have "grows v s0 s" using reactive_run_grows[OF _ assms(2)] f(1,2) by simp
  note g = growsD[OF this, unfolded f(2)]
  have "counted s" using g(6) f(6) .
  then show ?thesis using g(4,7) f(4,5) unfolding counted_def by auto
qed


text \<open>
  C12. The retry of an escalation never runs.  Let an operation be in the graph that was not there at the
  start, that no caller injects and no builder returns.  Then it is the retry that \<open>_schedule_escalation\<close>
  made for some escalation request, whether the request came over the bus or was found in the result of
  an operation.  Whatever happens in whatever order before and after it was accepted, no task works on
  it, it is still pending and its completion event is unset, so nothing that waits for it can go on; the
  one signal ever emitted for it is \<open>queued\<close>, unless the whole run is cancelled, which reports what is
  unfinished as cancelled.  (The interpreter is to allow one more frame of recursion than there are nodes.)
\<close>

theorem escalation_child_never_runs:
  assumes "rstarts g os ctx limit cap out d s0" "reactive_run v as s0 = Some s"
    and "c \<in> verts (fgraph s) - verts g" "list_all (spares c) as" "never_builds v c"
    and "card (verts (fgraph s)) < depth v"
  shows "(\<exists>i. c = child_id v i) \<and> (\<forall>p. (c, p) \<notin> set (tasks s)) \<and>
    (\<exists>op. dget (ops s) c = Some op \<and> ev_status op = PENDING) \<and> dget (completion_events s) c = Some False \<and>
    (\<exists>l. signals_of c (progress s) = ''queued'' # l \<and> set l \<subseteq> {''cancelled''} \<and> (Base Sweep \<notin> set as \<longrightarrow> l = []))"
proof -
  have "absent c s0" using start_absent[OF assms(1)] assms(3) by blast
  then have "idle v (Base Sweep \<in> set as) c s"
    using run_idle[of v "Base Sweep \<in> set as" c s0 as s] assms(2,4-6) by (simp add: idle_def roomy_def)
  then have "stranded v (Base Sweep \<in> set as) c s" using assms(3) by (auto simp: idle_def absent_def)
  then show ?thesis by (auto simp: stranded_def image_iff)
qed


section \<open>Examples\<close>

definition rex_env :: "unit renv" where
  "rex_env = \<lparr>base = ex_env, depth = 10, now = 0, spawn_type = ''SpawnRequest'',
     node_builder = (\<lambda>req e. Inr (Some (51 + 2 * oid req, ex_op (51 + 2 * oid req) []))),
     child_id = (\<lambda>i. 100 + 2 * i), edge_id = (\<lambda>i. 200 + i), plain_props = ()\<rparr>"

definition rex_start :: "(unit, unit) rdag" where
  "rex_start = snd (execute_reactive 10 (mk_rdag 1 False (mk_dag ex_graph ex_ops [] (Some 1))))"

lemma rex_starts: "rstarts ex_graph ex_ops [] (Some 1) 1 False (depth rex_env) rex_start"
proof -
  have "fst (execute_reactive (depth rex_env) (mk_rdag 1 False (mk_dag ex_graph ex_ops [] (Some 1)))) = Inr ()"
    by code_simp
  moreover have "depth rex_env = 10" by (simp add: rex_env_def)
  moreover have "graph_inv ex_graph" unfolding ex_graph_def by (rule run_graph_inv)
  ultimately show ?thesis by (simp add: rstarts_def rex_start_def prod_eq_iff)
qed

text \<open>The gate answers with two requests; one operation fits under the cap.\<close>

definition rex_request :: "nat \<Rightarrow> val" where
  "rex_request i = VModel i [''SpawnRequest''] [(''independent'', VBool True)]"

definition rex_run :: "raction list" where
  "rex_run = map (\<lambda>(n, ans). Base (Task n ans)) (ex_root 0 (Inr (VList [rex_request 7, rex_request 8])))"

lemma rex_grown:
  "map_option (\<lambda>s. (map fst (tasks s), pile_keys (nodes (fgraph s)), spawn_count s, map dreason (dropped_spawns s)))
     (reactive_run rex_env rex_run rex_start) = Some ([1, 2, 3, 65], [1, 2, 3, 65], 1, [''max_spawn_exceeded''])"
  by code_simp

theorem growth_keeps_acyclic_witness:
  "\<exists>s. reactive_run rex_env rex_run rex_start = Some s \<and> 65 \<in> verts (fgraph s) \<and> acyclic (arcs (fgraph s))"
proof -
  obtain s where s: "reactive_run rex_env rex_run rex_start = Some s" "pile_keys (nodes (fgraph s)) = [1, 2, 3, 65]"
    using rex_grown by auto
  then have "card (verts (fgraph s)) < depth rex_env" by (simp add: verts_def rex_env_def)
  from growth_keeps_acyclic[OF rex_starts s(1) this] s show ?thesis by (simp add: verts_def)
qed

theorem spawn_cap_holds_witness:
  "\<exists>s. reactive_run rex_env rex_run rex_start = Some s \<and> spawn_count s = 1 \<and> card (spawned_ids s) = 1"
proof -
  obtain s where s: "reactive_run rex_env rex_run rex_start = Some s" "spawn_count s = 1"
    using rex_grown by auto
  then show ?thesis using spawn_cap_holds[OF rex_starts s(1)] by auto
qed

text \<open>An operation put behind one of its own descendants is taken back.\<close>

lemma rex_cycle:
  "map_option (\<lambda>s. (map fst (tasks s), map dreason (dropped_spawns s), dkeys (collections (edges (fgraph s)))))
     (reactive_run rex_env [Inject 90 1 (ex_op 1 []) (Some 3) False] rex_start)
   = Some ([1, 2, 3], [''cycle''], [5, 6])"
  by code_simp

text \<open>An operation that is already in the graph is run again for each call, which the cap does not count.\<close>

lemma rex_again:
  "map_option (\<lambda>s. (map fst (tasks s), spawn_count s))
     (reactive_run rex_env (replicate 3 (Inject 90 2 (ex_op 2 []) None False)) rex_start)
   = Some ([1, 2, 3, 2, 2, 2], 0)"
  by code_simp

text \<open>
  An unknown id to come after: the edge is refused, and the new operation stays in the graph outside the
  cap, without a task and with an event that is never set.
\<close>

lemma rex_orphan:
  "map_option (\<lambda>s. (map fst (tasks s), pile_keys (nodes (fgraph s)), dget (completion_events s) 40, spawn_count s))
     (reactive_run rex_env [Inject 90 40 (ex_op 40 []) (Some 77) False] rex_start)
   = Some ([1, 2, 3], [1, 2, 3, 40], Some False, 0)"
  by code_simp

text \<open>The gate answers with an escalation; its retry enters the graph, and every task there is runs to its end.\<close>

definition rex_escalation :: val where
  "rex_escalation = VModel 9 [''EscalationRequest''] []"

definition rex_escalated :: "raction list" where
  "rex_escalated = map (\<lambda>(n, ans). Base (Task n ans))
     (ex_root 0 (Inr rex_escalation) @ ex_below 1 (Inr VNone) @ ex_below 2 (Inr VNone)) @ [Leave]"

lemma rex_escalated_run:
  "map_option (\<lambda>s. (pile_keys (nodes (fgraph s)), tasks s, escalated_ids s, running s, spawn_count s))
     (reactive_run rex_env rex_escalated rex_start)
   = Some ([1, 2, 3, 118], [(1, Finished), (2, Finished), (3, Finished)], {1}, False, 1)"
  by code_simp

theorem escalation_child_never_runs_witness:
  "\<exists>s. reactive_run rex_env rex_escalated rex_start = Some s \<and> (\<forall>p. (118, p) \<notin> set (tasks s)) \<and>
     dget (completion_events s) 118 = Some False \<and> signals_of 118 (progress s) = [''queued'']"
proof -
  obtain s where s: "reactive_run rex_env rex_escalated rex_start = Some s" "pile_keys (nodes (fgraph s)) = [1, 2, 3, 118]"
    using rex_escalated_run by auto
  have nb: "never_builds rex_env 118" unfolding never_builds_def by (auto simp: rex_env_def) presburger
  have "pile_keys (nodes ex_graph) = [1, 2, 3]" by code_simp
  then have c: "118 \<in> verts (fgraph s) - verts ex_graph" "card (verts (fgraph s)) < depth rex_env"
    using s(2) by (simp_all add: verts_def rex_env_def)
  have sp: "list_all (spares 118) rex_escalated" and sw: "Base Sweep \<notin> set rex_escalated"
    by (auto simp: rex_escalated_def list_all_iff)
  from escalation_child_never_runs[OF rex_starts s(1) c(1) sp nb c(2)] s(1) sw show ?thesis by auto
qed

end
