(* ===== verification/Spec2Isabelle.thy ===== *)
theory Spec2Isabelle
  imports Prelude Ident Progression Pile Item_Flow Graph Graph_Search Events Processing Resilience
    Lndl_Lexer Lndl_Parser Lifecycle_Policy Lifecycle Dispatch Exchange Exchange_Mail
    Nested Flow_Exec Flow_Run Flow_Veto Builder Flow_Reactive
begin

text \<open>
  lionagi: verification of the core of the Python library under \<open>src/lionagi\<close>.

  \<^bold>\<open>The program.\<close>  lionagi runs graphs of language-model operations.  Everything it keeps is an
  element with a UUID.  Elements live in piles (a dict of elements and a progression of their ids);
  a graph is two piles and an adjacency index, a flow is a pile of items and a pile of named
  progressions, a mailbox of the message exchange is such a flow.  Work is an event with a status; processors
  and executors run queues of events under a capacity or a rate limit, breakers and retries guard
  calls to services, and the flow executor runs the operations of a graph in dependency order.
  What agents say to each other in LNDL is tokenised and parsed.  Durable entities
  (sessions, runs, dispatches, ...) change status only through the lifecycle service, under
  policies; the dispatch outbox delivers messages over it.

  \<^bold>\<open>Which theory models what.\<close>  Definitions keep the names of the source; state is a record passed
  explicitly; an operation that may raise returns \<open>pyerr + 'a\<close>, with the state it leaves when it
  mutates; a Python dict is an association list in insertion order (\<open>pydict\<close>); Python integers are
  \<open>int\<close> (or \<open>nat\<close> where they cannot be negative), so nothing wraps around; times are rationals or
  integers.
  \<^item> \<open>Prelude\<close>: exceptions, Python sequences and slices, dicts, and the interfaces: \<open>stepping\<close> and
    \<open>stepping_final\<close> (every operation keeps the invariant; a final state stays), \<open>simulation\<close>
    (operations follow an abstract specification), \<open>keyed_store\<close>.  Each is interpreted on the model of
    the component that provides it.
  \<^item> \<open>Ident\<close>: \<open>protocols/generic/element.py\<close>, references and the loop of \<open>validate_order\<close>.
  \<^item> \<open>Progression\<close>: \<open>protocols/generic/progression.py\<close>, the deque with its membership set.
  \<^item> \<open>Pile\<close>: \<open>protocols/generic/pile.py\<close>.
  \<^item> \<open>Item_Flow\<close>: \<open>protocols/generic/flow.py\<close>.
  \<^item> \<open>Graph\<close>, \<open>Graph_Search\<close>: \<open>protocols/graph/graph.py\<close> and \<open>edge.py\<close>; the second theory relates
    \<open>is_acyclic\<close>, \<open>topological_sort\<close> and \<open>find_path\<close> to the arcs of the graph.
  \<^item> \<open>Events\<close>: \<open>protocols/generic/event.py\<close>, execution state, \<open>invoke\<close>, \<open>stream\<close>, error groups.
  \<^item> \<open>Processing\<close>: \<open>protocols/generic/processor.py\<close> and \<open>service/rate_limited_processor.py\<close>.
  \<^item> \<open>Resilience\<close>: \<open>service/resilience.py\<close> and \<open>retry\<close> of \<open>ln/concurrency/patterns.py\<close>.
  \<^item> \<open>Lndl_Lexer\<close>, \<open>Lndl_Parser\<close>: \<open>lndl/lexer.py\<close>, \<open>lndl/parser.py\<close>, \<open>lndl/ast.py\<close>.
  \<^item> \<open>Lifecycle_Policy\<close>, \<open>Lifecycle\<close>: \<open>state/lifecycle/*.py\<close>, \<open>state/transitions.py\<close> and
    \<open>state/reasons.py\<close>.
  \<^item> \<open>Dispatch\<close>: \<open>dispatch/outbox.py\<close> and \<open>dispatch/revival.py\<close>, over the lifecycle service.
  \<^item> \<open>Exchange\<close>, \<open>Exchange_Mail\<close>: \<open>session/exchange.py\<close>, over the item flow; the second theory is its
    abstract specification as a post office and the refinement.
  \<^item> \<open>Nested\<close>: \<open>libs/nested.py\<close>, reading, writing and merging along paths of nested dicts and lists.
  \<^item> \<open>Flow_Exec\<close>, \<open>Flow_Run\<close>: \<open>DependencyAwareExecutor\<close> of \<open>operations/flow.py\<close> with \<open>operations/node.py\<close>,
    over the graph and the events: the steps of a task from await to await, and what every run does.
  \<^item> \<open>Flow_Veto\<close>: gates and vetoes read off the operations themselves, and that the executor misses none.
  \<^item> \<open>Builder\<close>: \<open>OperationGraphBuilder\<close> of \<open>operations/builder.py\<close>, which makes the graphs the executor runs.
  \<^item> \<open>Flow_Reactive\<close>: \<open>ReactiveExecutor\<close> of \<open>operations/flow.py\<close>, which extends its graph while it runs.

  \<^bold>\<open>What the lemmas show.\<close>
  \<^item> Containers: the redundant parts of a state stay in agreement under every sequence of calls
    (the dict and the order of a pile, the membership set of a progression, the edges and the adjacency
    index and caches of a graph, the references of a flow), and what each operation does to the
    sequence it represents.
  \<^item> Searches: \<open>is_acyclic\<close> decides acyclicity, \<open>topological_sort\<close> returns a linear order exactly when
    there is one, \<open>find_path\<close> a path exactly when there is one.
  \<^item> Events and processing: a pending event settles once, waiters are woken, \<open>process\<close> loses and
    invents nothing, \<open>join\<close> drains what is permitted, the rate limiter keeps its budget; breaker and
    retry follow their automata.
  \<^item> Flow executor: an operation starts only when its predecessors have settled and none of them
    carries the veto of a gate, no more operations run than the limiter has slots, each has at most one
    terminal signal, and a run can always go on until every task has ended, within a number of steps
    read off the graph.  Whatever the builder builds is a graph the executor runs to its end.  A growing graph stays acyclic, keeps what it had, and takes in no more than
    the cap.
  \<^item> Nested values: what is written along a path is read and taken out along it, other paths keep theirs.
  \<^item> Lifecycle and dispatch: the history of an entity is a chain that ends in its status, every step of
    it was allowed, a lost race writes nothing, terminal statuses hold; a snapshot of a dispatch is
    claimed once, deliveries end, a scan reaches every due row.
  \<^item> Exchange: the code refines queues of mail; mail is conserved, kept in order, and drained once.
  \<^item> LNDL: tokens lie where they say, printing and reading again gives the same tokens and OUT blocks.
  \<^item> Defects of the code are theorems too: a statement that says what goes wrong, with a concrete run.

  \<^bold>\<open>Fuel and bounds.\<close>  \<open>bfs\<close> and Kahn's loop take fuel, \<open>visit\<close> the interpreter's recursion depth; the
  number of nodes is enough for each, and the theorems state it.  \<open>join\<close> takes fuel because the
  code may poll for ever; \<open>join_runs_all\<close> gives enough fuel when events are permitted, and
  \<open>unlimited_backlog_stalls\<close> a state for which no fuel is enough.  The retry loop recurses on the
  remaining attempts and \<open>delivery_bounded\<close> bounds the scans by the attempts left.  Every other loop is
  structural or has a termination measure.

  \<^bold>\<open>Concurrency.\<close>  A method that holds its lock, or has no await in it, is one atomic step.  Where tasks
  interleave, the steps are explicit: the calls of a breaker, the transitions of the lifecycle with
  what other connections commit in between, the deliveries of the exchange, the runs of events,
  the tasks of the flow executor from one await to the next.

  \<^bold>\<open>Parameters.\<close>  User code (event bodies, edge conditions, transports, token estimators), clocks, fresh
  ids, the order in which SQL returns rows, process exit codes and JSON encoding are arguments of the
  definitions.

  \<^bold>\<open>Not modelled.\<close>  The HTTP providers, prompts and message rendering (text handed to third parties);
  pydantic model construction, adapters and serialisation of elements (the work is done by libraries
  outside the repository); the SQL text of \<open>state/db.py\<close> and its migrations (its status writes are
  modelled); the command line, the studio server, the MCP server, plugins, hooks and the file and
  shell tools (processes, sockets, files); session and branch facades, which delegate to the
  components above.  Characters are bytes: the Unicode classes of \<open>str\<close> methods beyond 255 are outside.
  The TypeScript and Rust clients, tests and notebooks are not part of the library.
\<close>

end
